(* ===== verification/Dyld_Prelude.thy ===== *)
theory Dyld_Prelude
  imports Main "HOL-Library.Word"
begin

text \<open>
  Shared vocabulary of the development.

  \<^item> Machine integers are words of the source's width (\<open>u8\<close> to \<open>u64\<close>); a 64-bit host is
    assumed, so \<open>size_t\<close>, \<open>uintptr_t\<close> and \<open>long\<close> are 64 bits wide.
  \<^item> A mapped file is a \<open>memory\<close>, a function from byte offsets to bytes; offset 0 is the
    object the method is called on (\<open>this\<close>), and a \<open>const T*\<close> is an offset. A slice
    of a file is the shifted memory.
  \<^item> \<open>Diagnostics\<close> (\<open>src/dyld3/Diagnostics.cpp\<close>) is the optional message it holds; the
    message is the format string of the source without its arguments.
  \<^item> An iteration with a block \<open>void (^callback)(..., bool& stop)\<close> is a fold over the
    block's captured variables that may stop early (\<open>forStop\<close>).
  \<^item> The preprocessor symbols that select code are the fields of \<open>build\<close>, which is an
    argument of every definition whose source they change.
\<close>

unbundle bit_operations_syntax

type_synonym u8 = "8 word"
type_synonym u16 = "16 word"
type_synonym u32 = "32 word"
type_synonym u64 = "64 word"
type_synonym memory = "nat \<Rightarrow> u8"
type_synonym diag = "string option"

named_theorems walk_simps \<open>equations of the load command and segment walks\<close>
named_theorems read_frame \<open>which bytes of memory a read depends on\<close>

section \<open>Build configuration\<close>

record build =
  SUPPORT_ARCH_arm64e :: bool
  SUPPORT_ARCH_arm64_32 :: bool
  TARGET_OS_OSX_arm64 :: bool
  BUILDING_DYLDINFO :: bool
  BUILDING_APP_CACHE_UTIL :: bool
  BUILDING_RUN_STATIC :: bool

text \<open>dyld itself, with every architecture compiled in.\<close>

definition dyld_build :: build where
  "dyld_build = \<lparr>SUPPORT_ARCH_arm64e = True, SUPPORT_ARCH_arm64_32 = True,
     TARGET_OS_OSX_arm64 = False, BUILDING_DYLDINFO = False,
     BUILDING_APP_CACHE_UTIL = False, BUILDING_RUN_STATIC = False\<rparr>"

section \<open>Diagnostics\<close>

definition hasError :: "diag \<Rightarrow> bool" where
  "hasError d \<longleftrightarrow> d \<noteq> None"

definition noError :: "diag \<Rightarrow> bool" where
  "noError d \<longleftrightarrow> d = None"

text \<open>\<open>Diagnostics::error\<close> overwrites a message that is already there.\<close>

definition error :: "string \<Rightarrow> diag \<Rightarrow> diag" where
  "error msg d = Some msg"

definition clearError :: "diag \<Rightarrow> diag" where
  "clearError d = None"

text \<open>The diagnostics after a callee that was handed \<open>d\<close> and ended with \<open>e\<close> of its own.\<close>

definition then_diag :: "diag \<Rightarrow> diag \<Rightarrow> diag" where
  "then_diag d e = (case e of None \<Rightarrow> d | Some msg \<Rightarrow> Some msg)"

lemmas diag_defs = hasError_def noError_def error_def clearError_def then_diag_def

lemma hasError_noError: "hasError d \<longleftrightarrow> \<not> noError d"
  by (simp add: diag_defs)

lemma noError_then_diag [simp]: "noError (then_diag d e) \<longleftrightarrow> noError d \<and> noError e"
  by (cases e) (auto simp: diag_defs)

lemma noError_error [simp]: "\<not> noError (error msg d)"
  by (simp add: diag_defs)

lemma noError_None [simp]: "noError None"
  by (simp add: diag_defs)

lemma noError_Some [simp]: "\<not> noError (Some msg)"
  by (simp add: diag_defs)

section \<open>Reading memory\<close>

definition mem_of :: "u8 list \<Rightarrow> memory" where
  "mem_of bs i = (if i < length bs then bs ! i else 0)"

definition shift_mem :: "nat \<Rightarrow> memory \<Rightarrow> memory" where
  "shift_mem off m = (\<lambda>i. m (off + i))"

fun le_nat :: "memory \<Rightarrow> nat \<Rightarrow> nat \<Rightarrow> nat" where
  "le_nat m p 0 = 0"
| "le_nat m p (Suc n) = unat (m p) + 256 * le_nat m (Suc p) n"

definition read16 :: "memory \<Rightarrow> nat \<Rightarrow> u16" where
  "read16 m p = word_of_nat (le_nat m p 2)"

definition read32 :: "memory \<Rightarrow> nat \<Rightarrow> u32" where
  "read32 m p = word_of_nat (le_nat m p 4)"

definition read64 :: "memory \<Rightarrow> nat \<Rightarrow> u64" where
  "read64 m p = word_of_nat (le_nat m p 8)"

definition write32 :: "memory \<Rightarrow> nat \<Rightarrow> u32 \<Rightarrow> memory" where
  "write32 m p v = (\<lambda>i. if p \<le> i \<and> i < p + 4 then ucast (drop_bit (8 * (i - p)) v) else m i)"

text \<open>
  A memory given as its 32-bit little-endian words: how concrete images are written down. A
  read at a word boundary is a lookup.
\<close>

definition mem_words :: "u32 list \<Rightarrow> memory" where
  "mem_words ws i =
     (if i div 4 < length ws then ucast (drop_bit (8 * (i mod 4)) (ws ! (i div 4))) else 0)"

text \<open>Two memories that agree on the bytes from \<open>lo\<close> up to, not including, \<open>hi\<close>.\<close>

definition agree :: "nat \<Rightarrow> nat \<Rightarrow> memory \<Rightarrow> memory \<Rightarrow> bool" where
  "agree lo hi m m' \<longleftrightarrow> (\<forall>i. lo \<le> i \<and> i < hi \<longrightarrow> m i = m' i)"

lemma agreeD: "agree lo hi m m' \<Longrightarrow> lo \<le> i \<Longrightarrow> i < hi \<Longrightarrow> m i = m' i"
  by (auto simp: agree_def)

lemma agree_mono: "agree lo hi m m' \<Longrightarrow> lo \<le> lo' \<Longrightarrow> hi' \<le> hi \<Longrightarrow> agree lo' hi' m m'"
  by (auto simp: agree_def)

lemma agree_refl [simp]: "agree lo hi m m"
  by (simp add: agree_def)

lemma agree_sym: "agree lo hi m m' \<Longrightarrow> agree lo hi m' m"
  by (simp add: agree_def)

lemma le_nat_agree: "agree p (p + n) m m' \<Longrightarrow> le_nat m p n = le_nat m' p n"
proof (induction n arbitrary: p)
  case 0
  then show ?case by simp
next
  case (Suc n)
  have "agree (Suc p) (Suc p + n) m m'"
    using Suc.prems by (auto simp: agree_def)
  moreover have "m p = m' p"
    using Suc.prems by (auto simp: agree_def)
  ultimately show ?case using Suc.IH by simp
qed

lemma le_nat_bound: "le_nat m p n < 256 ^ n"
proof (induction n arbitrary: p)
  case 0
  then show ?case by simp
next
  case (Suc n)
  have "unat (m p) < 256" using unsigned_less [of "m p"] by simp
  moreover have "le_nat m (Suc p) n < 256 ^ n" by (rule Suc.IH)
  ultimately have "unat (m p) + 256 * le_nat m (Suc p) n < 256 + 256 * (256 ^ n - 1)"
    by (intro add_less_le_mono mult_le_mono2) auto
  also have "\<dots> = 256 ^ Suc n" by (simp add: algebra_simps)
  finally show ?case by simp
qed

lemma read16_agree [read_frame]: "agree p (p + 2) m m' \<Longrightarrow> read16 m p = read16 m' p"
  by (simp add: read16_def le_nat_agree)

lemma read32_agree [read_frame]: "agree p (p + 4) m m' \<Longrightarrow> read32 m p = read32 m' p"
  by (simp add: read32_def le_nat_agree)

lemma read64_agree [read_frame]: "agree p (p + 8) m m' \<Longrightarrow> read64 m p = read64 m' p"
  by (simp add: read64_def le_nat_agree)

lemma unat_u8_less: "unat (w::u8) < 256"
  using unsigned_less [of w] by simp

lemma unat_u32_less: "unat (w::u32) < 4294967296"
  using unsigned_less [of w] by simp

lemma unat_u64_less: "unat (w::u64) < 18446744073709551616"
  using unsigned_less [of w] by simp

lemma unat_of_nat_u32: "n < 4294967296 \<Longrightarrow> unat (of_nat n :: u32) = n"
  by (simp add: unat_of_nat take_bit_nat_eq_self)

lemma unat_of_nat_u64: "n < 18446744073709551616 \<Longrightarrow> unat (of_nat n :: u64) = n"
  by (simp add: unat_of_nat take_bit_nat_eq_self)

lemma unat_ucast_u64 [simp]: "unat (ucast (w::u32) :: u64) = unat w"
  using unat_u32_less [of w] by (simp add: unsigned_ucast_eq take_bit_nat_eq_self)

lemma and_exp_word: "(w::'a::len word) AND 2 ^ n = (if bit w n then 2 ^ n else 0)"
  by (rule bit_eqI) (auto simp: bit_and_iff bit_exp_iff)

lemma and_6_eq_6: "(w::u32) AND 6 = 6 \<longleftrightarrow> w AND 2 \<noteq> 0 \<and> w AND 4 \<noteq> 0"
proof -
  have "(6::u32) = 2 OR 4" by simp
  then have "w AND 6 = (w AND 2) OR (w AND 4)" by (simp only: bit.conj_disj_distrib)
  then show ?thesis using and_exp_word [of w 1] and_exp_word [of w 2] by simp
qed

lemma unat_read32: "unat (read32 m p) = le_nat m p 4"
  using le_nat_bound [of m p 4] by (simp add: read32_def unat_of_nat take_bit_nat_eq_self)

lemma le_nat_4: "le_nat m p 4 = unat (m p) + 256 * unat (m (p + 1)) + 65536 * unat (m (p + 2))
    + 16777216 * unat (m (p + 3))"
proof -
  have four: "4 = Suc (Suc (Suc (Suc 0)))" by simp
  have three: "p + 3 = Suc (Suc (Suc p))" by simp
  show ?thesis unfolding four three by (simp add: algebra_simps)
qed

lemma le_nat_add: "le_nat m p (a + b) = le_nat m p a + 256 ^ a * le_nat m (p + a) b"
  by (induction a arbitrary: p) (simp_all add: algebra_simps)

lemma unat_byte_sum:
  "unat (ucast w :: u8) + 256 * unat (ucast (drop_bit 8 w) :: u8)
     + 65536 * unat (ucast (drop_bit 16 w) :: u8) + 16777216 * unat (ucast (drop_bit 24 w) :: u8)
   = unat (w :: u32)"
proof -
  define n where "n = unat w"
  have n: "n < 4294967296" using unsigned_less [of w] by (simp add: n_def)
  have d: "n div 16777216 mod 256 = n div 16777216" using n by (simp add: div_less_iff_less_mult)
  then have "n mod 256 + 256 * (n div 256 mod 256) + 65536 * (n div 65536 mod 256)
      + 16777216 * (n div 16777216) = n"
    using n mod_mult2_eq [of n 256 256] mod_mult2_eq [of n 65536 256] mod_mult2_eq [of n 16777216 256]
    by simp
  then show ?thesis
    using d by (simp add: n_def unsigned_ucast_eq drop_bit_eq_div unat_div take_bit_eq_mod)
qed

lemma read32_mem_words:
  assumes "p mod 4 = 0" and "p div 4 < length ws"
  shows "read32 (mem_words ws) p = ws ! (p div 4)"
proof -
  obtain k where p: "p = 4 * k" using assms(1) by (metis mod_0_imp_dvd dvdE)
  have "mem_words ws (4 * k + j) = ucast (drop_bit (8 * j) (ws ! k))" if "j < 4" for j
    using that assms(2) by (simp add: mem_words_def p)
  from this [of 0] this [of 1] this [of 2] this [of 3]
  have "le_nat (mem_words ws) p 4 = unat (ws ! k)"
    using unat_byte_sum [of "ws ! k"] by (simp add: le_nat_4 p)
  then show ?thesis by (simp add: read32_def p)
qed

lemma read64_halves: "read64 m p = ucast (read32 m p) + 4294967296 * ucast (read32 m (p + 4))"
proof -
  have "le_nat m p 8 = le_nat m p 4 + 4294967296 * le_nat m (p + 4) 4"
    using le_nat_add [of m p 4 4] by simp
  moreover have "word_of_nat (le_nat m q 4) = (ucast (read32 m q) :: u64)" for q
    by (simp flip: unat_read32)
  ultimately show ?thesis by (simp add: read64_def)
qed

text \<open>A list of bytes in memory.\<close>

definition bytes_at :: "memory \<Rightarrow> nat \<Rightarrow> u8 list \<Rightarrow> bool" where
  "bytes_at m q bs \<longleftrightarrow> (\<forall>i < length bs. m (q + i) = bs ! i)"

lemma bytes_at_append: "bytes_at m q (xs @ ys) \<longleftrightarrow> bytes_at m q xs \<and> bytes_at m (q + length xs) ys"
proof
  assume both: "bytes_at m q (xs @ ys)"
  have "m (q + length xs + i) = ys ! i" if "i < length ys" for i
    using both that by (auto simp: bytes_at_def add.assoc dest!: spec [of _ "length xs + i"])
  with both show "bytes_at m q xs \<and> bytes_at m (q + length xs) ys" by (auto simp: bytes_at_def nth_append)
next
  assume "bytes_at m q xs \<and> bytes_at m (q + length xs) ys"
  then have xs: "\<forall>i < length xs. m (q + i) = xs ! i" and ys: "\<forall>i < length ys. m (q + length xs + i) = ys ! i" by (auto simp: bytes_at_def)
  have "m (q + i) = (xs @ ys) ! i" if "i < length (xs @ ys)" for i
    using xs ys [rule_format, of "i - length xs"] that by (cases "i < length xs") (auto simp: nth_append)
  then show "bytes_at m q (xs @ ys)" by (simp add: bytes_at_def)
qed

lemma bytes_at_Nil [simp]: "bytes_at m q []"
  by (simp add: bytes_at_def)

lemma bytes_at_Cons [simp]: "bytes_at m q (x # xs) \<longleftrightarrow> m q = x \<and> bytes_at m (Suc q) xs"
proof -
  have "bytes_at m q [x] \<longleftrightarrow> m q = x" by (simp add: bytes_at_def)
  with bytes_at_append [of m q "[x]" xs] show ?thesis by simp
qed

lemma bytes_at_map: "bytes_at m q bs \<longleftrightarrow> map m [q ..< q + length bs] = bs"
  unfolding bytes_at_def list_eq_iff_nth_eq by simp

text \<open>\<open>OSSwapBigToHostInt32\<close> and \<open>OSSwapBigToHostInt64\<close> on a little-endian host.\<close>

definition OSSwapBigToHostInt32 :: "u32 \<Rightarrow> u32" where
  "OSSwapBigToHostInt32 x =
     push_bit 24 (x AND 0xFF) OR push_bit 8 (x AND 0xFF00) OR
     drop_bit 8 (x AND 0xFF0000) OR drop_bit 24 (x AND 0xFF000000)"

definition OSSwapBigToHostInt64 :: "u64 \<Rightarrow> u64" where
  "OSSwapBigToHostInt64 x =
     push_bit 32 (ucast (OSSwapBigToHostInt32 (ucast x))) OR
     ucast (OSSwapBigToHostInt32 (ucast (drop_bit 32 x)))"

text \<open>\<open>greaterThanAddOrOverflow\<close> of \<open>MachOFile.h\<close>.\<close>

definition greaterThanAddOrOverflow :: "'a::len word \<Rightarrow> 'a word \<Rightarrow> 'a word \<Rightarrow> bool" where
  "greaterThanAddOrOverflow addLHS addRHS b \<longleftrightarrow> addLHS > b \<or> addRHS > b - addLHS"

lemma greaterThanAddOrOverflow_iff:
  "greaterThanAddOrOverflow a c b \<longleftrightarrow> unat a + unat c > unat b"
proof (cases "a > b")
  case True
  then show ?thesis
    by (auto simp: greaterThanAddOrOverflow_def word_less_nat_alt)
next
  case False
  then have "unat (b - a) = unat b - unat a" and "unat a \<le> unat b"
    by (simp_all add: unat_sub word_le_nat_alt not_less)
  with False show ?thesis
    by (auto simp: greaterThanAddOrOverflow_def word_less_nat_alt)
qed

section \<open>C strings\<close>

text \<open>
  \<open>strcmp(p, lit) == 0\<close> and \<open>strncmp(p, lit, strlen(lit)) == 0\<close> for a pointer into memory
  and a string whose characters are known: both stop at the first difference, so neither
  reads past the byte where the literal ends.
\<close>

fun strncmp_eq :: "memory \<Rightarrow> nat \<Rightarrow> string \<Rightarrow> bool" where
  "strncmp_eq m p [] \<longleftrightarrow> True"
| "strncmp_eq m p (c # cs) \<longleftrightarrow> m p = of_char c \<and> strncmp_eq m (Suc p) cs"

definition strcmp_eq :: "memory \<Rightarrow> nat \<Rightarrow> string \<Rightarrow> bool" where
  "strcmp_eq m p s \<longleftrightarrow> strncmp_eq m p s \<and> m (p + length s) = 0"

text \<open>The index of the NUL that ends a string before \<open>limit\<close>, if there is one.\<close>

function find_nul :: "memory \<Rightarrow> nat \<Rightarrow> nat \<Rightarrow> nat option" where
  "find_nul m s limit =
     (if s < limit then (if m s = 0 then Some s else find_nul m (Suc s) limit) else None)"
  by pat_completeness auto
termination
  by (relation "measure (\<lambda>(m, s, limit). limit - s)") auto

declare find_nul.simps [simp del]

lemma find_nul_string:
  assumes "bytes_at m p (s @ [0])" and "0 \<notin> set s" and "p + length s < limit"
  shows "find_nul m p limit = Some (p + length s)"
  using assms
proof (induction s arbitrary: p)
  case Nil
  then show ?case by (simp add: find_nul.simps [of m p])
next
  case (Cons x s)
  then show ?case using Cons.IH [of "Suc p"] by (simp add: find_nul.simps [of m p])
qed

lemma find_nul_Some: "find_nul m s limit = Some i \<Longrightarrow>
  s \<le> i \<and> i < limit \<and> m i = 0 \<and> (\<forall>j. s \<le> j \<and> j < i \<longrightarrow> m j \<noteq> 0)"
proof (induction m s limit rule: find_nul.induct)
  case (1 m s limit)
  show ?case
  proof (cases "s < limit \<and> m s \<noteq> 0")
    case True
    with "1.prems" have "find_nul m (Suc s) limit = Some i"
      by (simp add: find_nul.simps [of m s limit])
    with "1.IH" True have "Suc s \<le> i \<and> i < limit \<and> m i = 0 \<and> (\<forall>j. Suc s \<le> j \<and> j < i \<longrightarrow> m j \<noteq> 0)"
      by simp
    with True show ?thesis by (metis Suc_leD le_antisym not_less_eq_eq)
  next
    case False
    with "1.prems" show ?thesis
      by (auto simp: find_nul.simps [of m s limit] split: if_splits)
  qed
qed

lemma find_nul_None: "find_nul m s limit = None \<longleftrightarrow> (\<forall>i. s \<le> i \<and> i < limit \<longrightarrow> m i \<noteq> 0)"
proof (induction m s limit rule: find_nul.induct)
  case (1 m s limit)
  show ?case
  proof (cases "s < limit \<and> m s \<noteq> 0")
    case True
    then have "find_nul m s limit = None \<longleftrightarrow> (\<forall>i. Suc s \<le> i \<and> i < limit \<longrightarrow> m i \<noteq> 0)"
      using "1" by (simp add: find_nul.simps [of m s limit])
    also have "\<dots> \<longleftrightarrow> (\<forall>i. s \<le> i \<and> i < limit \<longrightarrow> m i \<noteq> 0)"
      using True by (metis Suc_leD le_antisym not_less_eq_eq)
    finally show ?thesis .
  next
    case False
    then show ?thesis by (auto simp: find_nul.simps [of m s limit])
  qed
qed

text \<open>\<open>startsWith\<close>, \<open>endsWith\<close> and \<open>strstr(s, t) != NULL\<close> on strings held as lists.\<close>

definition startsWith :: "string \<Rightarrow> string \<Rightarrow> bool" where
  "startsWith buffer valueToFind \<longleftrightarrow> take (length valueToFind) buffer = valueToFind"

definition endsWith :: "string \<Rightarrow> string \<Rightarrow> bool" where
  "endsWith str suffix \<longleftrightarrow>
     length suffix \<le> length str \<and> drop (length str - length suffix) str = suffix"

fun strstr :: "string \<Rightarrow> string \<Rightarrow> bool" where
  "strstr [] t \<longleftrightarrow> t = []"
| "strstr (c # s) t \<longleftrightarrow> startsWith (c # s) t \<or> strstr s t"

lemma startsWith_iff: "startsWith s t \<longleftrightarrow> (\<exists>u. s = t @ u)"
  by (metis append_eq_conv_conj append_take_drop_id startsWith_def)

lemma endsWith_iff: "endsWith s t \<longleftrightarrow> (\<exists>u. s = u @ t)"
proof
  assume "endsWith s t"
  then show "\<exists>u. s = u @ t" by (metis append_take_drop_id endsWith_def)
qed (auto simp: endsWith_def)

lemma strstr_iff: "strstr s t \<longleftrightarrow> (\<exists>u v. s = u @ t @ v)"
proof (induction s)
  case Nil
  then show ?case by auto
next
  case (Cons c s)
  note IH = Cons.IH
  show ?case
  proof
    assume "strstr (c # s) t"
    then consider v where "c # s = t @ v" | u v where "s = u @ t @ v"
      using Cons.IH by (auto simp: startsWith_iff)
    then show "\<exists>u v. c # s = u @ t @ v"
      by cases (metis append_Nil, metis append_Cons)
  next
    assume "\<exists>u v. c # s = u @ t @ v"
    then obtain u v where uv: "c # s = u @ t @ v" by blast
    show "strstr (c # s) t"
    proof (cases u)
      case Nil
      with uv have "startsWith (c # s) t" by (auto simp: startsWith_iff)
      then show ?thesis by simp
    next
      case (Cons d u')
      with uv have "s = u' @ t @ v" by simp
      with IH show ?thesis by auto
    qed
  qed
qed

section \<open>Iteration with a stop flag\<close>

text \<open>
  A failed \<open>assertNoError()\<close> or \<open>assert()\<close> ends the process: \<open>None\<close> is that outcome
  throughout the development, also inside a block.
\<close>

fun forStop :: "('s \<Rightarrow> 'a \<Rightarrow> ('s \<times> bool) option) \<Rightarrow> 's \<Rightarrow> 'a list \<Rightarrow> ('s \<times> bool) option" where
  "forStop f s [] = Some (s, False)"
| "forStop f s (x # xs) =
     Option.bind (f s x) (\<lambda>(s', stop). if stop then Some (s', True) else forStop f s' xs)"

lemma forStop_append:
  "forStop f s (xs @ ys) =
     Option.bind (forStop f s xs) (\<lambda>(s', stop). if stop then Some (s', True) else forStop f s' ys)"
proof (induction xs arbitrary: s)
  case Nil
  then show ?case by simp
next
  case (Cons x xs)
  then show ?case
    by (cases "f s x") (auto split: prod.splits)
qed

lemma forStop_map: "forStop f s (map h xs) = forStop (\<lambda>s x. f s (h x)) s xs"
proof (induction xs arbitrary: s)
  case (Cons x xs)
  then show ?case by (cases "f s (h x)") (auto split: prod.splits)
qed simp

text \<open>A block that never stops is a plain fold.\<close>

lemma forStop_foldl: "forStop (\<lambda>s x. Some (g s x, False)) s xs = Some (foldl g s xs, False)"
  by (induction xs arbitrary: s) auto

text \<open>A block that records the first match and stops is a search.\<close>

lemma forStop_find:
  "forStop (\<lambda>s x. if P x then Some (g x, True) else Some (s, False)) s xs =
     (case List.find P xs of None \<Rightarrow> Some (s, False) | Some x \<Rightarrow> Some (g x, True))"
  by (induction xs arbitrary: s) auto

lemma forStop_find_state:
  "forStop (\<lambda>s x. if P x then Some (g s x, True) else Some (s, False)) s xs =
     (case List.find P xs of None \<Rightarrow> Some (s, False) | Some x \<Rightarrow> Some (g s x, True))"
  by (induction xs arbitrary: s) auto

lemma forStop_ConsE:
  assumes "forStop f s (x # xs) = Some (r, b)"
  obtains "f s x = Some (r, True)" and b
  | s' where "f s x = Some (s', False)" and "forStop f s' xs = Some (r, b)"
  using assms by (auto simp: bind_eq_Some_conv split: if_splits)

text \<open>
  The validator pattern: the block sets a bad flag and stops at the first offending item.
  When the flag is still clear at the end, every item was accepted.
\<close>

lemma forStop_good_start:
  assumes "forStop f s xs = Some (r, b)" and "good r"
    and mono: "\<And>s x s' b. f s x = Some (s', b) \<Longrightarrow> good s' \<Longrightarrow> good s"
  shows "good s"
  using assms(1)
proof (induction xs arbitrary: s)
  case Nil
  with \<open>good r\<close> show ?case by simp
next
  case (Cons x xs)
  from Cons.prems show ?case
  proof (cases rule: forStop_ConsE)
    case 1
    with \<open>good r\<close> show ?thesis by (auto intro: mono)
  next
    case (2 s')
    then have "good s'" by (intro Cons.IH)
    with 2 show ?thesis by (auto intro: mono)
  qed
qed

lemma forStop_all_good:
  assumes run: "forStop f s xs = Some (r, b)" and good: "good r"
    and mono: "\<And>s x s' b. f s x = Some (s', b) \<Longrightarrow> good s' \<Longrightarrow> good s"
    and stop: "\<And>s x s'. f s x = Some (s', True) \<Longrightarrow> \<not> good s'"
    and ok: "\<And>s x s' b. x \<in> set xs \<Longrightarrow> f s x = Some (s', b) \<Longrightarrow> good s' \<Longrightarrow> ok x"
  shows "\<not> b \<and> (\<forall>x\<in>set xs. ok x)"
  using run ok
proof (induction xs arbitrary: s)
  case Nil
  then show ?case by simp
next
  case (Cons x xs)
  from Cons.prems(1) show ?case
  proof (cases rule: forStop_ConsE)
    case 1
    with good stop show ?thesis by blast
  next
    case (2 s')
    have "\<not> b \<and> (\<forall>y\<in>set xs. ok y)"
      using 2 Cons.prems(2) by (intro Cons.IH [of s']) auto
    moreover have "good s'"
      using 2(2) good mono by (rule forStop_good_start)
    ultimately show ?thesis using Cons.prems(2) [OF _ 2(1)] by simp
  qed
qed

lemma forStop_total: "(\<And>s x. f s x \<noteq> None) \<Longrightarrow> \<exists>r b. forStop f s xs = Some (r, b)"
proof (induction xs arbitrary: s)
  case (Cons x xs)
  obtain s' b where "f s x = Some (s', b)" using Cons.prems [of s x] by auto
  with Cons show ?case by auto
qed auto

lemma forStop_invariant:
  assumes "forStop f s xs = Some (r, b)" and "I s"
    and "\<And>s x s' b. x \<in> set xs \<Longrightarrow> f s x = Some (s', b) \<Longrightarrow> I s \<Longrightarrow> I s'"
  shows "I r"
  using assms
proof (induction xs arbitrary: s)
  case (Cons x xs)
  from Cons.prems(1) show ?case
  proof (cases rule: forStop_ConsE)
    case 1
    with Cons.prems(2,3) show ?thesis by (meson list.set_intros(1))
  next
    case (2 s')
    with Cons.prems(2,3) have "I s'" by (meson list.set_intros(1))
    with Cons.IH [OF 2(2)] Cons.prems(3) show ?thesis by (meson list.set_intros(2))
  qed
qed simp

text \<open>
  An interface of the Mach-O classes: \<open>forEachX(block)\<close> visits the items of an object in
  order until the block stops, and asserts at the end that the walk met no malformed item.
\<close>

locale block_walk =
  fixes items :: "'m \<Rightarrow> 'a list"
    and fails :: "'m \<Rightarrow> bool"
    and walk :: "'m \<Rightarrow> ('s \<Rightarrow> 'a \<Rightarrow> ('s \<times> bool) option) \<Rightarrow> 's \<Rightarrow> 's option"
  assumes walk_items: "walk m f s =
    Option.bind (forStop f s (items m)) (\<lambda>(s', stop). if stop \<or> \<not> fails m then Some s' else None)"
begin

lemma walk_fold: "walk m (\<lambda>s x. Some (g s x, False)) s =
  (if fails m then None else Some (foldl g s (items m)))"
  by (simp add: walk_items forStop_foldl)

lemma walk_find: "walk m (\<lambda>s x. if P x then Some (g x, True) else Some (s, False)) s =
  (case List.find P (items m) of
     Some x \<Rightarrow> Some (g x) | None \<Rightarrow> if fails m then None else Some s)"
  by (simp add: walk_items forStop_find split: option.split)

lemma walk_find_state: "walk m (\<lambda>s x. if P x then Some (g s x, True) else Some (s, False)) s =
  (case List.find P (items m) of
     Some x \<Rightarrow> Some (g s x) | None \<Rightarrow> if fails m then None else Some s)"
  by (simp add: walk_items forStop_find_state split: option.split)

lemma walk_all_good:
  assumes run: "walk m f s = Some r" and good: "good r"
    and "\<And>s x s' b. f s x = Some (s', b) \<Longrightarrow> good s' \<Longrightarrow> good s"
    and "\<And>s x s'. f s x = Some (s', True) \<Longrightarrow> \<not> good s'"
    and "\<And>s x s' b. x \<in> set (items m) \<Longrightarrow> f s x = Some (s', b) \<Longrightarrow> good s' \<Longrightarrow> ok x"
  shows "\<not> fails m \<and> (\<forall>x\<in>set (items m). ok x)"
proof -
  from run obtain b where "forStop f s (items m) = Some (r, b)" and "b \<or> \<not> fails m"
    by (auto simp: walk_items bind_eq_Some_conv split: if_splits)
  with forStop_all_good [of f s "items m" r b good ok] assms(2-) show ?thesis by blast
qed

lemma walk_invariant:
  assumes run: "walk m f s = Some r" and init: "I s"
    and step: "\<And>s x s' b. x \<in> set (items m) \<Longrightarrow> f s x = Some (s', b) \<Longrightarrow> I s \<Longrightarrow> I s'"
  shows "I r"
proof -
  from run obtain b where "forStop f s (items m) = Some (r, b)"
    by (auto simp: walk_items bind_eq_Some_conv split: if_splits)
  then show ?thesis using init step by (rule forStop_invariant)
qed

lemma walk_no_abort:
  assumes "\<not> fails m" and "\<And>s x. f s x \<noteq> None"
  shows "walk m f s \<noteq> None"
proof -
  obtain r b where "forStop f s (items m) = Some (r, b)" using forStop_total [of f s "items m"] assms(2) by blast
  with assms(1) show ?thesis by (simp add: walk_items)
qed

end

end
