(* ===== verification/MachO_Arch.thy ===== *)
theory MachO_Arch
  imports Dyld_Prelude
begin

text \<open>
  The static tables of \<open>src/dyld3/MachOFile.cpp\<close>: the graded architecture lists that decide
  which slice of a file a process may load, the architecture and platform names, and the
  printing of packed versions. The \<open>CPU_*\<close> numbers are those of \<open><mach/machine.h>\<close>.
\<close>

abbreviation (input) "CPU_TYPE_I386 \<equiv> 7 :: u32"
abbreviation (input) "CPU_TYPE_X86_64 \<equiv> 0x01000007 :: u32"
abbreviation (input) "CPU_TYPE_ARM \<equiv> 12 :: u32"
abbreviation (input) "CPU_TYPE_ARM64 \<equiv> 0x0100000C :: u32"
abbreviation (input) "CPU_TYPE_ARM64_32 \<equiv> 0x0200000C :: u32"
abbreviation (input) "CPU_SUBTYPE_MASK \<equiv> 0xFF000000 :: u32"
abbreviation (input) "CPU_SUBTYPE_I386_ALL \<equiv> 3 :: u32"
abbreviation (input) "CPU_SUBTYPE_X86_64_ALL \<equiv> 3 :: u32"
abbreviation (input) "CPU_SUBTYPE_X86_64_H \<equiv> 8 :: u32"
abbreviation (input) "CPU_SUBTYPE_ARM_V7 \<equiv> 9 :: u32"
abbreviation (input) "CPU_SUBTYPE_ARM_V7S \<equiv> 11 :: u32"
abbreviation (input) "CPU_SUBTYPE_ARM_V7K \<equiv> 12 :: u32"
abbreviation (input) "CPU_SUBTYPE_ARM64_ALL \<equiv> 0 :: u32"
abbreviation (input) "CPU_SUBTYPE_ARM64_V8 \<equiv> 1 :: u32"
abbreviation (input) "CPU_SUBTYPE_ARM64E \<equiv> 2 :: u32"
abbreviation (input) "CPU_SUBTYPE_ARM64_32_V8 \<equiv> 1 :: u32"

text \<open>The subtype without its capability bits, \<open>cpusubtype & ~CPU_SUBTYPE_MASK\<close>.\<close>

definition masked_subtype :: "u32 \<Rightarrow> u32" where
  "masked_subtype cpusubtype = cpusubtype AND NOT CPU_SUBTYPE_MASK"

section \<open>Graded architectures\<close>

record CpuGrade =
  cg_type :: u32
  cg_subtype :: u32
  cg_osBinary :: bool
  cg_grade :: u16

type_synonym GradedArchs = "CpuGrade list"

definition cpu_grade :: "u32 \<times> u32 \<times> bool \<Rightarrow> u16 \<Rightarrow> CpuGrade" where
  "cpu_grade t g = (case t of (ty, sub, os) \<Rightarrow>
     \<lparr>cg_type = ty, cg_subtype = sub, cg_osBinary = os, cg_grade = g\<rparr>)"

text \<open>The macros \<open>GRADE_i386\<close> to \<open>GRADE_arm64_32\<close>, with the operands the source gives them.\<close>

definition GRADE_i386 :: "u32 \<times> u32 \<times> bool" where
  "GRADE_i386 = (CPU_TYPE_I386, CPU_SUBTYPE_I386_ALL, False)"
definition GRADE_x86_64 :: "u32 \<times> u32 \<times> bool" where
  "GRADE_x86_64 = (CPU_TYPE_X86_64, CPU_SUBTYPE_X86_64_ALL, False)"
definition GRADE_x86_64h :: "u32 \<times> u32 \<times> bool" where
  "GRADE_x86_64h = (CPU_TYPE_X86_64, CPU_SUBTYPE_X86_64_H, False)"
definition GRADE_armv7 :: "u32 \<times> u32 \<times> bool" where
  "GRADE_armv7 = (CPU_TYPE_ARM, CPU_SUBTYPE_ARM64_ALL, False)"
definition GRADE_armv7s :: "u32 \<times> u32 \<times> bool" where
  "GRADE_armv7s = (CPU_TYPE_ARM, CPU_SUBTYPE_ARM_V7, False)"
definition GRADE_armv7k :: "u32 \<times> u32 \<times> bool" where
  "GRADE_armv7k = (CPU_TYPE_ARM, CPU_SUBTYPE_ARM_V7K, False)"
definition GRADE_arm64 :: "u32 \<times> u32 \<times> bool" where
  "GRADE_arm64 = (CPU_TYPE_ARM64, CPU_SUBTYPE_ARM64_ALL, False)"
definition GRADE_arm64e :: "u32 \<times> u32 \<times> bool" where
  "GRADE_arm64e = (CPU_TYPE_ARM64, CPU_SUBTYPE_ARM64E, False)"
definition GRADE_arm64e_pb :: "u32 \<times> u32 \<times> bool" where
  "GRADE_arm64e_pb = (CPU_TYPE_ARM64, CPU_SUBTYPE_ARM64E, True)"
definition GRADE_arm64_32 :: "u32 \<times> u32 \<times> bool" where
  "GRADE_arm64_32 = (CPU_TYPE_ARM64_32, CPU_SUBTYPE_ARM64_32_V8, False)"

lemmas grade_macro_defs = GRADE_i386_def GRADE_x86_64_def GRADE_x86_64h_def GRADE_armv7_def
  GRADE_armv7s_def GRADE_armv7k_def GRADE_arm64_def GRADE_arm64e_def GRADE_arm64e_pb_def
  GRADE_arm64_32_def cpu_grade_def

definition archs_i386 :: GradedArchs where
  "archs_i386 = [cpu_grade GRADE_i386 1]"
definition archs_x86_64 :: GradedArchs where
  "archs_x86_64 = [cpu_grade GRADE_x86_64 1]"
definition archs_x86_64h :: GradedArchs where
  "archs_x86_64h = [cpu_grade GRADE_x86_64h 2, cpu_grade GRADE_x86_64 1]"
definition archs_arm64 :: GradedArchs where
  "archs_arm64 = [cpu_grade GRADE_arm64 1]"
definition archs_arm64e_keysoff :: GradedArchs where
  "archs_arm64e_keysoff = [cpu_grade GRADE_arm64e 2, cpu_grade GRADE_arm64 1]"
definition archs_arm64e_keysoff_pb :: GradedArchs where
  "archs_arm64e_keysoff_pb = [cpu_grade GRADE_arm64e_pb 2, cpu_grade GRADE_arm64 1]"
definition archs_arm64e :: GradedArchs where
  "archs_arm64e = [cpu_grade GRADE_arm64e 1]"
definition archs_arm64e_pb :: GradedArchs where
  "archs_arm64e_pb = [cpu_grade GRADE_arm64e_pb 1]"
definition archs_armv7 :: GradedArchs where
  "archs_armv7 = [cpu_grade GRADE_armv7 1]"
definition archs_armv7s :: GradedArchs where
  "archs_armv7s = [cpu_grade GRADE_armv7s 2, cpu_grade GRADE_armv7 1]"
definition archs_armv7k :: GradedArchs where
  "archs_armv7k = [cpu_grade GRADE_armv7k 1]"
definition archs_arm64_32 :: GradedArchs where
  "archs_arm64_32 = [cpu_grade GRADE_arm64_32 1]"

lemmas archs_defs = archs_i386_def archs_x86_64_def archs_x86_64h_def archs_arm64_def
  archs_arm64e_keysoff_def archs_arm64e_keysoff_pb_def archs_arm64e_def archs_arm64e_pb_def
  archs_armv7_def archs_armv7s_def archs_armv7k_def archs_arm64_32_def grade_macro_defs

text \<open>\<open>GradedArchs::grade\<close>: the array ends at a zero type; an OS-only entry is skipped.\<close>

fun grade :: "GradedArchs \<Rightarrow> u32 \<Rightarrow> u32 \<Rightarrow> bool \<Rightarrow> int" where
  "grade [] cputype cpusubtype isOSBinary = 0"
| "grade (p # ps) cputype cpusubtype isOSBinary =
     (if cg_type p = 0 then 0
      else if cg_type p = cputype \<and> cg_subtype p = masked_subtype cpusubtype then
        (if cg_osBinary p then
           (if isOSBinary then uint (cg_grade p) else grade ps cputype cpusubtype isOSBinary)
         else uint (cg_grade p))
      else grade ps cputype cpusubtype isOSBinary)"

definition GradedArchs_forName :: "build \<Rightarrow> string \<Rightarrow> bool \<Rightarrow> GradedArchs option" where
  "GradedArchs_forName B archName keysOff =
     (if archName = ''x86_64h'' then Some archs_x86_64h
      else if archName = ''x86_64'' then Some archs_x86_64
      else if SUPPORT_ARCH_arm64e B \<and> archName = ''arm64e'' then
        Some (if keysOff then archs_arm64e_keysoff else archs_arm64e)
      else if archName = ''arm64'' then Some archs_arm64
      else if archName = ''armv7k'' then Some archs_armv7k
      else if archName = ''armv7s'' then Some archs_armv7s
      else if archName = ''armv7'' then Some archs_armv7
      else if SUPPORT_ARCH_arm64_32 B \<and> archName = ''arm64_32'' then Some archs_arm64_32
      else if archName = ''i386'' then Some archs_i386
      else None)"

section \<open>Architecture names\<close>

record ArchInfo =
  ai_name :: string
  ai_cputype :: u32
  ai_cpusubtype :: u32

definition archInfo :: "string \<Rightarrow> u32 \<Rightarrow> u32 \<Rightarrow> ArchInfo" where
  "archInfo n t s = \<lparr>ai_name = n, ai_cputype = t, ai_cpusubtype = s\<rparr>"

definition s_archInfos :: "build \<Rightarrow> ArchInfo list" where
  "s_archInfos B =
     [archInfo ''x86_64'' CPU_TYPE_X86_64 CPU_SUBTYPE_X86_64_ALL,
      archInfo ''x86_64h'' CPU_TYPE_X86_64 CPU_SUBTYPE_X86_64_H,
      archInfo ''i386'' CPU_TYPE_I386 CPU_SUBTYPE_I386_ALL,
      archInfo ''arm64'' CPU_TYPE_ARM64 CPU_SUBTYPE_ARM64_ALL] @
     (if SUPPORT_ARCH_arm64e B then [archInfo ''arm64e'' CPU_TYPE_ARM64 CPU_SUBTYPE_ARM64E] else []) @
     (if SUPPORT_ARCH_arm64_32 B
      then [archInfo ''arm64_32'' CPU_TYPE_ARM64_32 CPU_SUBTYPE_ARM64_32_V8] else []) @
     [archInfo ''armv7k'' CPU_TYPE_ARM CPU_SUBTYPE_ARM_V7K,
      archInfo ''armv7s'' CPU_TYPE_ARM CPU_SUBTYPE_ARM_V7S,
      archInfo ''armv7'' CPU_TYPE_ARM CPU_SUBTYPE_ARM_V7]"

definition archName :: "build \<Rightarrow> u32 \<Rightarrow> u32 \<Rightarrow> string" where
  "archName B cputype cpusubtype =
     (case List.find (\<lambda>info. cputype = ai_cputype info \<and>
              masked_subtype cpusubtype = ai_cpusubtype info) (s_archInfos B) of
        Some info \<Rightarrow> ai_name info
      | None \<Rightarrow> ''unknown'')"

definition cpuTypeFromArchName :: "build \<Rightarrow> string \<Rightarrow> u32" where
  "cpuTypeFromArchName B name =
     (case List.find (\<lambda>info. name = ai_name info) (s_archInfos B) of
        Some info \<Rightarrow> ai_cputype info | None \<Rightarrow> 0)"

definition cpuSubtypeFromArchName :: "build \<Rightarrow> string \<Rightarrow> u32" where
  "cpuSubtypeFromArchName B name =
     (case List.find (\<lambda>info. name = ai_name info) (s_archInfos B) of
        Some info \<Rightarrow> ai_cpusubtype info | None \<Rightarrow> 0)"

text \<open>\<open>GradedArchs::name\<close> names the first entry; the lists of the source are never empty.\<close>

definition GradedArchs_name :: "build \<Rightarrow> GradedArchs \<Rightarrow> string" where
  "GradedArchs_name B archs =
     (case archs of [] \<Rightarrow> archName B 0 0 | p # _ \<Rightarrow> archName B (cg_type p) (cg_subtype p))"

section \<open>Platforms\<close>

text \<open>
  \<open>enum class Platform\<close>: its underlying type is \<open>int\<close>, and \<open>(Platform)(buildCmd->platform)\<close>
  casts any 32-bit number to it, so a platform is a number and the enumerators are constants.
\<close>

type_synonym Platform = u32

abbreviation (input) "Platform_unknown \<equiv> 0 :: Platform"
abbreviation (input) "Platform_macOS \<equiv> 1 :: Platform"
abbreviation (input) "Platform_iOS \<equiv> 2 :: Platform"
abbreviation (input) "Platform_tvOS \<equiv> 3 :: Platform"
abbreviation (input) "Platform_watchOS \<equiv> 4 :: Platform"
abbreviation (input) "Platform_bridgeOS \<equiv> 5 :: Platform"
abbreviation (input) "Platform_iOSMac \<equiv> 6 :: Platform"
abbreviation (input) "Platform_iOS_simulator \<equiv> 7 :: Platform"
abbreviation (input) "Platform_tvOS_simulator \<equiv> 8 :: Platform"
abbreviation (input) "Platform_watchOS_simulator \<equiv> 9 :: Platform"
abbreviation (input) "Platform_driverKit \<equiv> 10 :: Platform"

definition isSimulatorPlatform :: "Platform \<Rightarrow> bool" where
  "isSimulatorPlatform platform \<longleftrightarrow> platform = Platform_iOS_simulator \<or>
     platform = Platform_watchOS_simulator \<or> platform = Platform_tvOS_simulator"

text \<open>Name, platform, and the load command that marks the platform.\<close>

definition s_platformInfos :: "(string \<times> Platform \<times> u32) list" where
  "s_platformInfos =
     [(''macOS'', Platform_macOS, 0x24), (''iOS'', Platform_iOS, 0x25),
      (''tvOS'', Platform_tvOS, 0x2F), (''watchOS'', Platform_watchOS, 0x30),
      (''bridgeOS'', Platform_bridgeOS, 0x32), (''MacCatalyst'', Platform_iOSMac, 0x32),
      (''iOS-sim'', Platform_iOS_simulator, 0x32), (''tvOS-sim'', Platform_tvOS_simulator, 0x32),
      (''watchOS-sim'', Platform_watchOS_simulator, 0x32)]"

definition platformName :: "Platform \<Rightarrow> string" where
  "platformName reqPlatform =
     (case List.find (\<lambda>(n, p, lc). p = reqPlatform) s_platformInfos of
        Some (n, p, lc) \<Rightarrow> n | None \<Rightarrow> ''unknown platform'')"

section \<open>Printing packed versions\<close>

definition digit_char :: "nat \<Rightarrow> char" where
  "digit_char d = char_of (48 + d)"

text \<open>The text written so far, the rest of the number, and \<open>startedPrinting\<close>.\<close>

definition appendDigit :: "u32 \<Rightarrow> string \<times> u32 \<times> bool \<Rightarrow> string \<times> u32 \<times> bool" where
  "appendDigit place st = (case st of (s, num, startedPrinting) \<Rightarrow>
     if num \<ge> place then
       let dig = num div place in (s @ [digit_char (unat dig)], num - dig * place, True)
     else if startedPrinting then (s @ [digit_char 0], num, startedPrinting)
     else (s, num, startedPrinting))"

text \<open>\<open>None\<close> is the failed assertion.\<close>

definition appendNumber :: "string \<Rightarrow> u32 \<Rightarrow> string option" where
  "appendNumber s num =
     (if \<not> num < 99999 then None
      else
        (case appendDigit 1 (appendDigit 10 (appendDigit 100 (appendDigit 1000
                (appendDigit 10000 (s, num, False))))) of
           (s', _, startedPrinting) \<Rightarrow>
             Some (if \<not> startedPrinting then s' @ [digit_char 0] else s')))"

definition packedVersionToString :: "u32 \<Rightarrow> string option" where
  "packedVersionToString packedVersion =
     Option.bind (appendNumber [] (drop_bit 16 packedVersion)) (\<lambda>s1.
     Option.bind (appendNumber (s1 @ ''.'') (drop_bit 8 packedVersion AND 0xFF)) (\<lambda>s2.
     Option.bind (appendNumber (s2 @ ''.'') (packedVersion AND 0xFF)) (\<lambda>s3.
     Some (s3 @ [CHR 0x00]))))"

section \<open>Properties\<close>

lemma find_distinct:
  assumes "distinct (map f xs)" and "x \<in> set xs"
  shows "List.find (\<lambda>y. f x = f y) xs = Some x"
  using assms by (induction xs) (auto, metis imageI)

lemma s_archInfos_names: "distinct (map ai_name (s_archInfos B))"
  by (cases "SUPPORT_ARCH_arm64e B"; cases "SUPPORT_ARCH_arm64_32 B")
    (simp_all add: s_archInfos_def archInfo_def)

lemma s_archInfos_cpus: "distinct (map (\<lambda>i. (ai_cputype i, ai_cpusubtype i)) (s_archInfos B))"
  by (cases "SUPPORT_ARCH_arm64e B"; cases "SUPPORT_ARCH_arm64_32 B")
    (simp_all add: s_archInfos_def archInfo_def)

lemma s_archInfos_masked:
  "\<forall>info\<in>set (s_archInfos B). masked_subtype (ai_cpusubtype info) = ai_cpusubtype info"
  by (cases "SUPPORT_ARCH_arm64e B"; cases "SUPPORT_ARCH_arm64_32 B")
    (simp_all add: s_archInfos_def archInfo_def masked_subtype_def)

text \<open>The architecture table is a bijection between names and cpu types.\<close>

theorem archName_roundtrip:
  assumes "info \<in> set (s_archInfos B)"
  shows "archName B (cpuTypeFromArchName B (ai_name info)) (cpuSubtypeFromArchName B (ai_name info))
           = ai_name info
    \<and> cpuTypeFromArchName B (archName B (ai_cputype info) (ai_cpusubtype info)) = ai_cputype info
    \<and> cpuSubtypeFromArchName B (archName B (ai_cputype info) (ai_cpusubtype info)) = ai_cpusubtype info"
proof -
  have "List.find (\<lambda>i. ai_name info = ai_name i) (s_archInfos B) = Some info"
    by (rule find_distinct [OF s_archInfos_names assms])
  moreover have "List.find (\<lambda>i. ai_cputype info = ai_cputype i \<and> ai_cpusubtype info = ai_cpusubtype i)
      (s_archInfos B) = Some info"
    using find_distinct [OF s_archInfos_cpus assms] by simp
  moreover have "masked_subtype (ai_cpusubtype info) = ai_cpusubtype info"
    using s_archInfos_masked assms by blast
  ultimately show ?thesis
    by (simp add: archName_def cpuTypeFromArchName_def cpuSubtypeFromArchName_def)
qed

theorem archName_roundtrip_witness:
  "archName dyld_build (cpuTypeFromArchName dyld_build ''i386'')
     (cpuSubtypeFromArchName dyld_build ''i386'') = ''i386''"
proof -
  have "archInfo ''i386'' CPU_TYPE_I386 CPU_SUBTYPE_I386_ALL \<in> set (s_archInfos dyld_build)"
    by (simp add: s_archInfos_def)
  from archName_roundtrip [OF this] show ?thesis by (simp add: archInfo_def)
qed

text \<open>A slice is graded above zero exactly when an entry of the list admits it.\<close>

theorem grade_positive_iff:
  assumes "\<forall>p\<in>set archs. cg_type p \<noteq> 0 \<and> cg_grade p \<noteq> 0"
  shows "grade archs cputype cpusubtype isOSBinary > 0 \<longleftrightarrow>
    (\<exists>p\<in>set archs. cg_type p = cputype \<and> cg_subtype p = masked_subtype cpusubtype
        \<and> (cg_osBinary p \<longrightarrow> isOSBinary))"
  using assms by (induction archs) (auto simp: word_gt_0 uint_0_iff order.strict_iff_order)

theorem grade_positive_iff_witness:
  "grade archs_x86_64h CPU_TYPE_X86_64 0x80000003 False > 0"
proof -
  have "\<forall>p\<in>set archs_x86_64h. cg_type p \<noteq> 0 \<and> cg_grade p \<noteq> 0"
    by (simp add: archs_defs)
  from grade_positive_iff [OF this] show ?thesis
    by (simp add: archs_defs masked_subtype_def)
qed

text \<open>
  The tables of the deprecated 32-bit ARM variants name the wrong subtypes, so a process
  that asks for \<open>armv7\<close> rejects an \<open>armv7\<close> slice.
\<close>

theorem armv7_grade_rejects_armv7:
  "grade archs_armv7 (cpuTypeFromArchName B ''armv7'') (cpuSubtypeFromArchName B ''armv7'') os = 0
   \<and> GradedArchs_name B archs_armv7 = ''unknown''
   \<and> grade archs_armv7s (cpuTypeFromArchName B ''armv7s'') (cpuSubtypeFromArchName B ''armv7s'') os = 0
   \<and> GradedArchs_name B archs_armv7s = ''armv7''"
  by (cases "SUPPORT_ARCH_arm64e B"; cases "SUPPORT_ARCH_arm64_32 B")
    (simp_all add: archs_defs cpuTypeFromArchName_def cpuSubtypeFromArchName_def GradedArchs_name_def
      archName_def s_archInfos_def archInfo_def masked_subtype_def)

text \<open>Decimal printing, the reference for \<open>appendNumber\<close>.\<close>

fun decimal :: "nat \<Rightarrow> string" where
  "decimal n = (if n < 10 then [digit_char n] else decimal (n div 10) @ [digit_char (n mod 10)])"

declare decimal.simps [simp del]

lemma appendDigit_started:
  assumes "0 < place"
  shows "appendDigit place (s, num, True) = (s @ [digit_char (unat num div unat place)], num mod place, True)"
proof (cases "place \<le> num")
  case True
  then show ?thesis by (simp add: appendDigit_def Let_def unat_div minus_div_mult_eq_mod)
next
  case False
  then have "unat num < unat place" by (simp add: word_le_nat_alt)
  with False show ?thesis by (simp add: appendDigit_def mod_word_less)
qed

lemma appendDigit_fresh:
  assumes "0 < place"
  shows "appendDigit place (s, num, False) =
    (if unat place \<le> unat num then (s @ [digit_char (unat num div unat place)], num mod place, True)
     else (s, num, False))"
  by (simp add: appendDigit_def Let_def unat_div minus_div_mult_eq_mod word_le_nat_alt)

lemma decimal_less_10: "n < 10 \<Longrightarrow> decimal n = [digit_char n]"
  by (simp add: decimal.simps)

lemma decimal_step: "10 \<le> n \<Longrightarrow> decimal n = decimal (n div 10) @ [digit_char (n mod 10)]"
  by (simp add: decimal.simps [of n])

lemma mod_div_swap: "0 < a \<Longrightarrow> n mod (a * b) div a = n div a mod (b::nat)"
  by (simp add: mod_mult2_eq)

lemma digit_of_rest: "n mod 100 div 10 = n div 10 mod (10::nat)" "n mod 1000 div 100 = n div 100 mod (10::nat)"
  "n mod 10000 div 1000 = n div 1000 mod (10::nat)"
  using mod_div_swap [of 10 n 10] mod_div_swap [of 100 n 10] mod_div_swap [of 1000 n 10] by simp_all

lemma unat_mod_word: "unat ((a::u32) mod b) = unat a mod unat b"
  by (simp add: unat_mod)

lemma div_div_nat: "n div 10 div 10 = n div (100::nat)" "n div 100 div 10 = n div (1000::nat)"
  "n div 1000 div 10 = n div (10000::nat)"
  by (simp_all add: div_mult2_eq [symmetric])

lemma mod_mod_places: "n mod 10000 mod 1000 = n mod (1000::nat)" "n mod 1000 mod 100 = n mod (100::nat)"
  "n mod 100 mod 10 = n mod (10::nat)"
  by (simp_all add: mod_mod_cancel)

lemma decimal_upto_5:
  "n < 100000 \<Longrightarrow> decimal n =
    (if 10000 \<le> n then [digit_char (n div 10000)] else []) @
    (if 1000 \<le> n then [digit_char (n div 1000 mod 10)] else []) @
    (if 100 \<le> n then [digit_char (n div 100 mod 10)] else []) @
    (if 10 \<le> n then [digit_char (n div 10 mod 10)] else []) @ [digit_char (n mod 10)]"
  by (cases "n < 10"; cases "n < 100"; cases "n < 1000"; cases "n < 10000")
    (simp_all add: decimal_less_10 decimal_step div_div_nat)

lemmas append_digit_simps = appendDigit_started appendDigit_fresh unat_mod_word digit_of_rest
  mod_mod_places

lemma appendNumber_decimal:
  assumes "num < 99999"
  shows "appendNumber s num = Some (s @ decimal (unat num))"
proof -
  have n: "unat num < 100000" using assms by (simp add: word_less_nat_alt)
  show ?thesis
    using assms
    by (cases "unat num < 10"; cases "unat num < 100"; cases "unat num < 1000"; cases "unat num < 10000")
      (simp_all add: appendNumber_def append_digit_simps decimal_upto_5 [OF n] not_less_eq_eq)
qed

text \<open>
  C39: \<open>packedVersionToString\<close> never fails its assertion, writes what the \<open>sprintf\<close> in its
  comment would (three decimal numbers separated by dots, then NUL), and stays within the
  32 bytes of its buffer.
\<close>

lemma length_decimal: "n < 100000 \<Longrightarrow> length (decimal n) \<le> 5" "n < 1000 \<Longrightarrow> length (decimal n) \<le> 3"
  by (simp_all add: decimal_upto_5)

lemma byte_mask_less: "(w::u32) AND 0xFF < 256"
proof -
  have "w AND 0xFF \<le> 0xFF" by (rule word_and_le1)
  then show ?thesis by (rule order.strict_trans1) simp
qed

lemma drop_bit_16_less: "drop_bit 16 (w::u32) < 65536"
proof -
  have "unat w < 2 ^ 32" using unsigned_less [of w] by simp
  then have "unat (drop_bit 16 w) < 65536"
    by (simp add: drop_bit_eq_div unat_div)
  then show ?thesis by (simp add: word_less_nat_alt)
qed

theorem packedVersionToString_spec:
  "\<exists>s. packedVersionToString v = Some s
     \<and> s = decimal (unat (drop_bit 16 v)) @ ''.'' @ decimal (unat (drop_bit 8 v AND 0xFF)) @ ''.''
           @ decimal (unat (v AND 0xFF)) @ [CHR 0x00]
     \<and> length s \<le> 32"
proof -
  have b: "drop_bit 16 v < 99999" "drop_bit 8 v AND 0xFF < 99999" "v AND 0xFF < 99999"
    using drop_bit_16_less [of v] byte_mask_less [of "drop_bit 8 v"] byte_mask_less [of v]
    by (auto intro: order.strict_trans)
  have "unat (drop_bit 16 v) < 100000" "unat (drop_bit 8 v AND 0xFF) < 1000" "unat (v AND 0xFF) < 1000"
    using drop_bit_16_less [of v] byte_mask_less [of "drop_bit 8 v"] byte_mask_less [of v]
    by (simp_all add: word_less_nat_alt)
  then have "length (decimal (unat (drop_bit 16 v))) \<le> 5"
    "length (decimal (unat (drop_bit 8 v AND 0xFF))) \<le> 3" "length (decimal (unat (v AND 0xFF))) \<le> 3"
    by (simp_all only: length_decimal)
  then show ?thesis
    by (simp add: packedVersionToString_def appendNumber_decimal b)
qed

end
