(* ===== verification/MachO_LoadCommands.thy ===== *)
theory MachO_LoadCommands
  imports MachO_Arch
begin

text \<open>
  \<open>src/dyld3/MachOFile.cpp\<close>, the part that reads the mach header and walks the load commands:
  \<open>forEachLoadCommand\<close>, \<open>removeLoadCommand\<close> and the queries built on them. The walk is the loop
  of the source over \<open>ncmds\<close> commands; \<open>load_commands\<close> is its reference, the list of the
  commands a walk that never stops visits, with the error that ends it.
\<close>

abbreviation (input) "MH_MAGIC \<equiv> 0xFEEDFACE :: u32"
abbreviation (input) "MH_CIGAM \<equiv> 0xCEFAEDFE :: u32"
abbreviation (input) "MH_MAGIC_64 \<equiv> 0xFEEDFACF :: u32"
abbreviation (input) "MH_CIGAM_64 \<equiv> 0xCFFAEDFE :: u32"
abbreviation (input) "MH_EXECUTE \<equiv> 2 :: u32"
abbreviation (input) "MH_PRELOAD \<equiv> 5 :: u32"
abbreviation (input) "MH_DYLIB \<equiv> 6 :: u32"
abbreviation (input) "MH_DYLINKER \<equiv> 7 :: u32"
abbreviation (input) "MH_BUNDLE \<equiv> 8 :: u32"
abbreviation (input) "MH_KEXT_BUNDLE \<equiv> 11 :: u32"
abbreviation (input) "MH_FILESET \<equiv> 12 :: u32"
abbreviation (input) "MH_TWOLEVEL \<equiv> 0x80 :: u32"
abbreviation (input) "MH_WEAK_DEFINES \<equiv> 0x8000 :: u32"
abbreviation (input) "MH_PIE \<equiv> 0x200000 :: u32"
abbreviation (input) "MH_HAS_TLV_DESCRIPTORS \<equiv> 0x800000 :: u32"

abbreviation (input) "LC_SEGMENT \<equiv> 0x1 :: u32"
abbreviation (input) "LC_SYMTAB \<equiv> 0x2 :: u32"
abbreviation (input) "LC_UNIXTHREAD \<equiv> 0x5 :: u32"
abbreviation (input) "LC_DYSYMTAB \<equiv> 0xB :: u32"
abbreviation (input) "LC_LOAD_DYLIB \<equiv> 0xC :: u32"
abbreviation (input) "LC_ID_DYLIB \<equiv> 0xD :: u32"
abbreviation (input) "LC_LOAD_DYLINKER \<equiv> 0xE :: u32"
abbreviation (input) "LC_LOAD_WEAK_DYLIB \<equiv> 0x80000018 :: u32"
abbreviation (input) "LC_SEGMENT_64 \<equiv> 0x19 :: u32"
abbreviation (input) "LC_UUID \<equiv> 0x1B :: u32"
abbreviation (input) "LC_RPATH \<equiv> 0x8000001C :: u32"
abbreviation (input) "LC_CODE_SIGNATURE \<equiv> 0x1D :: u32"
abbreviation (input) "LC_SEGMENT_SPLIT_INFO \<equiv> 0x1E :: u32"
abbreviation (input) "LC_REEXPORT_DYLIB \<equiv> 0x8000001F :: u32"
abbreviation (input) "LC_LAZY_LOAD_DYLIB \<equiv> 0x20 :: u32"
abbreviation (input) "LC_ENCRYPTION_INFO \<equiv> 0x21 :: u32"
abbreviation (input) "LC_DYLD_INFO \<equiv> 0x22 :: u32"
abbreviation (input) "LC_DYLD_INFO_ONLY \<equiv> 0x80000022 :: u32"
abbreviation (input) "LC_LOAD_UPWARD_DYLIB \<equiv> 0x80000023 :: u32"
abbreviation (input) "LC_VERSION_MIN_MACOSX \<equiv> 0x24 :: u32"
abbreviation (input) "LC_VERSION_MIN_IPHONEOS \<equiv> 0x25 :: u32"
abbreviation (input) "LC_FUNCTION_STARTS \<equiv> 0x26 :: u32"
abbreviation (input) "LC_DYLD_ENVIRONMENT \<equiv> 0x27 :: u32"
abbreviation (input) "LC_MAIN \<equiv> 0x80000028 :: u32"
abbreviation (input) "LC_DATA_IN_CODE \<equiv> 0x29 :: u32"
abbreviation (input) "LC_ENCRYPTION_INFO_64 \<equiv> 0x2C :: u32"
abbreviation (input) "LC_VERSION_MIN_TVOS \<equiv> 0x2F :: u32"
abbreviation (input) "LC_VERSION_MIN_WATCHOS \<equiv> 0x30 :: u32"
abbreviation (input) "LC_BUILD_VERSION \<equiv> 0x32 :: u32"
abbreviation (input) "LC_DYLD_EXPORTS_TRIE \<equiv> 0x80000033 :: u32"
abbreviation (input) "LC_DYLD_CHAINED_FIXUPS \<equiv> 0x80000034 :: u32"

section \<open>The mach header\<close>

definition mh_magic :: "memory \<Rightarrow> u32" where "mh_magic m = read32 m 0"
definition mh_cputype :: "memory \<Rightarrow> u32" where "mh_cputype m = read32 m 4"
definition mh_cpusubtype :: "memory \<Rightarrow> u32" where "mh_cpusubtype m = read32 m 8"
definition mh_filetype :: "memory \<Rightarrow> u32" where "mh_filetype m = read32 m 12"
definition mh_ncmds :: "memory \<Rightarrow> u32" where "mh_ncmds m = read32 m 16"
definition mh_sizeofcmds :: "memory \<Rightarrow> u32" where "mh_sizeofcmds m = read32 m 20"
definition mh_flags :: "memory \<Rightarrow> u32" where "mh_flags m = read32 m 24"

lemmas mh_defs = mh_magic_def mh_cputype_def mh_cpusubtype_def mh_filetype_def mh_ncmds_def
  mh_sizeofcmds_def mh_flags_def

definition lc_cmd :: "memory \<Rightarrow> nat \<Rightarrow> u32" where "lc_cmd m c = read32 m c"
definition lc_cmdsize :: "memory \<Rightarrow> nat \<Rightarrow> u32" where "lc_cmdsize m c = read32 m (c + 4)"

definition is64 :: "memory \<Rightarrow> bool" where
  "is64 m \<longleftrightarrow> mh_magic m = MH_MAGIC_64"

definition machHeaderSize :: "memory \<Rightarrow> nat" where
  "machHeaderSize m = (if is64 m then 32 else 28)"

definition maskedCpuSubtype :: "memory \<Rightarrow> u32" where
  "maskedCpuSubtype m = masked_subtype (mh_cpusubtype m)"

definition pointerSize :: "memory \<Rightarrow> u32" where
  "pointerSize m = (if mh_magic m = MH_MAGIC_64 then 8 else 4)"

definition uses16KPages :: "memory \<Rightarrow> bool" where
  "uses16KPages m =
     (if mh_cputype m = CPU_TYPE_ARM64 \<or> mh_cputype m = CPU_TYPE_ARM64_32 then True
      else if mh_cputype m = CPU_TYPE_ARM then mh_cpusubtype m = CPU_SUBTYPE_ARM_V7K
      else False)"

definition mh_archName :: "build \<Rightarrow> memory \<Rightarrow> string" where
  "mh_archName B m = archName B (mh_cputype m) (mh_cpusubtype m)"

definition isArch :: "build \<Rightarrow> memory \<Rightarrow> string \<Rightarrow> bool" where
  "isArch B m aName \<longleftrightarrow> aName = archName B (mh_cputype m) (mh_cpusubtype m)"

definition inDyldCache :: "memory \<Rightarrow> bool" where
  "inDyldCache m \<longleftrightarrow> mh_flags m AND 0x80000000 \<noteq> 0"

definition isDylib :: "memory \<Rightarrow> bool" where "isDylib m \<longleftrightarrow> mh_filetype m = MH_DYLIB"
definition isBundle :: "memory \<Rightarrow> bool" where "isBundle m \<longleftrightarrow> mh_filetype m = MH_BUNDLE"
definition isMainExecutable :: "memory \<Rightarrow> bool" where
  "isMainExecutable m \<longleftrightarrow> mh_filetype m = MH_EXECUTE"
definition isKextBundle :: "memory \<Rightarrow> bool" where "isKextBundle m \<longleftrightarrow> mh_filetype m = MH_KEXT_BUNDLE"
definition isFileSet :: "memory \<Rightarrow> bool" where "isFileSet m \<longleftrightarrow> mh_filetype m = MH_FILESET"
definition isPIE :: "memory \<Rightarrow> bool" where "isPIE m \<longleftrightarrow> mh_flags m AND MH_PIE \<noteq> 0"
definition isPreload :: "memory \<Rightarrow> bool" where "isPreload m \<longleftrightarrow> mh_filetype m = MH_PRELOAD"
definition hasWeakDefs :: "memory \<Rightarrow> bool" where
  "hasWeakDefs m \<longleftrightarrow> mh_flags m AND MH_WEAK_DEFINES \<noteq> 0"
definition hasThreadLocalVariables :: "memory \<Rightarrow> bool" where
  "hasThreadLocalVariables m \<longleftrightarrow> mh_flags m AND MH_HAS_TLV_DESCRIPTORS \<noteq> 0"

definition hasMachOMagic :: "memory \<Rightarrow> bool" where
  "hasMachOMagic m \<longleftrightarrow> mh_magic m = MH_MAGIC \<or> mh_magic m = MH_MAGIC_64"

definition hasMachOBigEndianMagic :: "memory \<Rightarrow> bool" where
  "hasMachOBigEndianMagic m \<longleftrightarrow> mh_magic m = MH_CIGAM \<or> mh_magic m = MH_CIGAM_64"

section \<open>The walk over load commands\<close>

text \<open>
  The loop \<open>for (i = 0; i < ncmds; ++i)\<close>; the first number is \<open>ncmds - i\<close>. The result is the
  block's final state and the error of the walk itself.
\<close>

fun lc_loop :: "memory \<Rightarrow> nat \<Rightarrow> nat \<Rightarrow> nat \<Rightarrow> nat \<Rightarrow>
    ('s \<Rightarrow> nat \<Rightarrow> ('s \<times> bool) option) \<Rightarrow> 's \<Rightarrow> ('s \<times> diag) option" where
  "lc_loop m startCmds cmdsEnd 0 cmd callback s = Some (s, None)"
| "lc_loop m startCmds cmdsEnd (Suc n) cmd callback s =
     (let nextCmd = cmd + unat (lc_cmdsize m cmd) in
      if lc_cmdsize m cmd < 8 then
        Some (s, Some ''malformed load command #%d of %d at %p with mh=%p, size (0x%X) too small'')
      else if nextCmd > cmdsEnd \<or> nextCmd < startCmds then
        Some (s, Some ''malformed load command #%d of %d at %p with mh=%p, size (0x%X) is too large, load commands end at %p'')
      else
        Option.bind (callback s cmd) (\<lambda>(s', stop).
          if stop then Some (s', None)
          else lc_loop m startCmds cmdsEnd n nextCmd callback s'))"

definition forEachLoadCommand ::
    "memory \<Rightarrow> ('s \<Rightarrow> nat \<Rightarrow> ('s \<times> bool) option) \<Rightarrow> 's \<Rightarrow> ('s \<times> diag) option" where
  "forEachLoadCommand m callback s =
     (if mh_magic m = MH_MAGIC_64 then
        lc_loop m 32 (32 + unat (mh_sizeofcmds m)) (unat (mh_ncmds m)) 32 callback s
      else if mh_magic m = MH_MAGIC then
        lc_loop m 28 (28 + unat (mh_sizeofcmds m)) (unat (mh_ncmds m)) 28 callback s
      else if hasMachOBigEndianMagic m then Some (s, None)
      else Some (s, Some ''file does not start with MH_MAGIC[_64]: 0x%08X 0x%08X''))"

text \<open>The walk with a fresh \<open>Diagnostics\<close>, followed by \<open>diag.assertNoError()\<close>.\<close>

definition walkAsserting ::
    "memory \<Rightarrow> ('s \<Rightarrow> nat \<Rightarrow> ('s \<times> bool) option) \<Rightarrow> 's \<Rightarrow> 's option" where
  "walkAsserting m callback s =
     Option.bind (forEachLoadCommand m callback s) (\<lambda>(s', d). if noError d then Some s' else None)"

text \<open>The reference: the commands in order, and the error the list ends with.\<close>

fun lc_list :: "memory \<Rightarrow> nat \<Rightarrow> nat \<Rightarrow> nat \<Rightarrow> nat \<Rightarrow> nat list \<times> diag" where
  "lc_list m startCmds cmdsEnd 0 cmd = ([], None)"
| "lc_list m startCmds cmdsEnd (Suc n) cmd =
     (let nextCmd = cmd + unat (lc_cmdsize m cmd) in
      if lc_cmdsize m cmd < 8 then
        ([], Some ''malformed load command #%d of %d at %p with mh=%p, size (0x%X) too small'')
      else if nextCmd > cmdsEnd \<or> nextCmd < startCmds then
        ([], Some ''malformed load command #%d of %d at %p with mh=%p, size (0x%X) is too large, load commands end at %p'')
      else (let (cs, d) = lc_list m startCmds cmdsEnd n nextCmd in (cmd # cs, d)))"

definition load_commands_diag :: "memory \<Rightarrow> nat list \<times> diag" where
  "load_commands_diag m =
     (if mh_magic m = MH_MAGIC_64 then
        lc_list m 32 (32 + unat (mh_sizeofcmds m)) (unat (mh_ncmds m)) 32
      else if mh_magic m = MH_MAGIC then
        lc_list m 28 (28 + unat (mh_sizeofcmds m)) (unat (mh_ncmds m)) 28
      else if hasMachOBigEndianMagic m then ([], None)
      else ([], Some ''file does not start with MH_MAGIC[_64]: 0x%08X 0x%08X''))"

definition load_commands :: "memory \<Rightarrow> nat list" where
  "load_commands m = fst (load_commands_diag m)"

definition malformed_commands :: "memory \<Rightarrow> bool" where
  "malformed_commands m \<longleftrightarrow> snd (load_commands_diag m) \<noteq> None"

lemma lc_loop_list:
  "lc_loop m st en n c f s = Option.bind (forStop f s (fst (lc_list m st en n c)))
     (\<lambda>(s', stop). Some (s', if stop then None else snd (lc_list m st en n c)))"
proof (induction n arbitrary: c s)
  case 0
  then show ?case by simp
next
  case (Suc n)
  then show ?case
    by (cases "f s c") (auto simp: Let_def split: prod.splits cong: if_cong)
qed

lemma forEachLoadCommand_list [walk_simps]:
  "forEachLoadCommand m f s = Option.bind (forStop f s (load_commands m))
     (\<lambda>(s', stop). Some (s', if stop then None else snd (load_commands_diag m)))"
  unfolding forEachLoadCommand_def load_commands_def load_commands_diag_def lc_loop_list
  by (cases "mh_magic m = MH_MAGIC_64"; cases "mh_magic m = MH_MAGIC") auto

interpretation lcs: block_walk load_commands malformed_commands walkAsserting
  by unfold_locales
    (auto simp: walkAsserting_def forEachLoadCommand_list malformed_commands_def diag_defs
      Option.bind_eq_Some_conv split: option.splits Option.bind_splits)

section \<open>Removing load commands\<close>

definition memmove :: "memory \<Rightarrow> nat \<Rightarrow> nat \<Rightarrow> nat \<Rightarrow> memory" where
  "memmove m dst src n = (\<lambda>i. if dst \<le> i \<and> i < dst + n then m (src + (i - dst)) else m i)"

definition bzero :: "memory \<Rightarrow> nat \<Rightarrow> nat \<Rightarrow> memory" where
  "bzero m p n = (\<lambda>i. if p \<le> i \<and> i < p + n then 0 else m i)"

text \<open>
  The loop of \<open>removeLoadCommand\<close>: the block sees the memory as changed so far and answers
  \<open>(state, remove, stop)\<close>. \<open>Inl\<close> is the early return with an error (no \<open>bzero\<close>), \<open>Inr\<close> the
  position and the byte count the final \<open>bzero\<close> clears.
\<close>

fun rm_loop :: "nat \<Rightarrow> nat \<Rightarrow> (memory \<Rightarrow> 's \<Rightarrow> nat \<Rightarrow> 's \<times> bool \<times> bool) \<Rightarrow> nat \<Rightarrow> nat \<Rightarrow> u32 \<Rightarrow>
    memory \<Rightarrow> 's \<Rightarrow> 's \<times> memory \<times> (string + nat \<times> u32)" where
  "rm_loop startCmds cmdsEnd callback 0 cmd bytesRemaining m s = (s, m, Inr (cmd, bytesRemaining))"
| "rm_loop startCmds cmdsEnd callback (Suc n) cmd bytesRemaining m s =
     (let cmdsize = lc_cmdsize m cmd; nextCmd = cmd + unat cmdsize in
      if cmdsize < 8 then
        (s, m, Inl ''malformed load command #%d of %d at %p with mh=%p, size (0x%X) too small'')
      else if nextCmd > cmdsEnd \<or> nextCmd < startCmds then
        (s, m, Inl ''malformed load command #%d of %d at %p with mh=%p, size (0x%X) is too large, load commands end at %p'')
      else
        (let (s', remove, stop) = callback m s cmd;
             m1 = (if remove then
                     (let m1 = write32 m 20 (mh_sizeofcmds m - cmdsize);
                          m2 = memmove m1 cmd nextCmd (unat bytesRemaining)
                      in write32 m2 16 (mh_ncmds m2 - 1))
                   else m);
             bytesRemaining1 = (if remove then bytesRemaining else bytesRemaining - cmdsize);
             cmd1 = (if remove then cmd else nextCmd)
         in if stop then (s', m1, Inr (cmd1, bytesRemaining1))
            else rm_loop startCmds cmdsEnd callback n cmd1 bytesRemaining1 m1 s'))"

definition removeLoadCommand ::
    "memory \<Rightarrow> (memory \<Rightarrow> 's \<Rightarrow> nat \<Rightarrow> 's \<times> bool \<times> bool) \<Rightarrow> 's \<Rightarrow> 's \<times> memory \<times> diag" where
  "removeLoadCommand m callback s =
     (if mh_magic m = MH_MAGIC_64 \<or> mh_magic m = MH_MAGIC then
        (let startCmds = machHeaderSize m;
             cmdsEnd = startCmds + unat (mh_sizeofcmds m)
         in case rm_loop startCmds cmdsEnd callback (unat (mh_ncmds m)) startCmds (mh_sizeofcmds m) m s of
              (s', m', Inl msg) \<Rightarrow> (s', m', Some msg)
            | (s', m', Inr (cmd, bytesRemaining)) \<Rightarrow> (s', bzero m' cmd (unat bytesRemaining), None))
      else if hasMachOBigEndianMagic m then (s, m, None)
      else (s, m, Some ''file does not start with MH_MAGIC[_64]: 0x%08X 0x%08X''))"

section \<open>Properties of the walk\<close>

text \<open>Commands laid out one after the other from \<open>c\<close>, each within \<open>[st, en)\<close>.\<close>

fun contiguous :: "memory \<Rightarrow> nat \<Rightarrow> nat \<Rightarrow> nat list \<Rightarrow> bool" where
  "contiguous m en c [] \<longleftrightarrow> True"
| "contiguous m en c (x # xs) \<longleftrightarrow> x = c \<and> 8 \<le> unat (lc_cmdsize m c) \<and>
     c + unat (lc_cmdsize m c) \<le> en \<and> contiguous m en (c + unat (lc_cmdsize m c)) xs"

lemma lc_list_contiguous: "contiguous m en c (fst (lc_list m st en n c))"
proof (induction n arbitrary: c)
  case (Suc n)
  then show ?case
    by (auto simp: Let_def word_less_nat_alt split: prod.splits) (metis fst_conv)
qed simp

lemma lc_list_length: "length (fst (lc_list m st en n c)) \<le> n"
  by (induction n arbitrary: c) (auto simp: Let_def split: prod.splits, metis fst_conv)

lemma lc_list_complete: "snd (lc_list m st en n c) = None \<Longrightarrow> length (fst (lc_list m st en n c)) = n"
  by (induction n arbitrary: c) (auto simp: Let_def split: prod.splits if_splits, metis fst_conv snd_conv)

lemma contiguous_bounds:
  "contiguous m en c cs \<Longrightarrow> x \<in> set cs \<Longrightarrow>
    c \<le> x \<and> 8 \<le> unat (lc_cmdsize m x) \<and> x + unat (lc_cmdsize m x) \<le> en"
  by (induction cs arbitrary: c) force+

lemma contiguous_room: "contiguous m en c cs \<Longrightarrow> c \<le> en \<Longrightarrow> c + 8 * length cs \<le> en"
  by (induction cs arbitrary: c) force+

lemma contiguous_sorted: "contiguous m en c cs \<Longrightarrow> sorted_wrt (\<lambda>x y. x + unat (lc_cmdsize m x) \<le> y) cs"
proof (induction cs arbitrary: c)
  case (Cons x xs)
  then have "contiguous m en (x + unat (lc_cmdsize m x)) xs" by simp
  with Cons.IH contiguous_bounds [OF this] show ?case by auto
qed simp

definition cmds_end :: "memory \<Rightarrow> nat" where
  "cmds_end m = machHeaderSize m + unat (mh_sizeofcmds m)"

lemma load_commands_list:
  "hasMachOMagic m \<Longrightarrow>
   load_commands_diag m = lc_list m (machHeaderSize m) (cmds_end m) (unat (mh_ncmds m)) (machHeaderSize m)"
  by (auto simp: hasMachOMagic_def load_commands_diag_def machHeaderSize_def is64_def cmds_end_def)

lemma load_commands_no_magic: "\<not> hasMachOMagic m \<Longrightarrow> load_commands m = []"
  by (auto simp: hasMachOMagic_def load_commands_def load_commands_diag_def)

lemma load_commands_contiguous: "contiguous m (cmds_end m) (machHeaderSize m) (load_commands m)"
proof (cases "hasMachOMagic m")
  case True
  then show ?thesis unfolding load_commands_def by (simp add: load_commands_list lc_list_contiguous)
next
  case False
  then show ?thesis by (simp add: load_commands_no_magic)
qed

text \<open>A 64-bit header followed by two commands of 8 and 16 bytes.\<close>

definition two_commands :: memory where
  "two_commands = mem_words
     [0xFEEDFACF, 0x01000007, 3, 6, 2, 24, 0, 0, 0x1E, 8, 0x1D, 16, 0x04030201, 0x08070605]"

text \<open>The walk unrolled on a numeral, for evaluation.\<close>

lemma lc_list_unroll:
  "lc_list m st en n c =
     (if n = 0 then ([], None)
      else if lc_cmdsize m c < 8 then
        ([], Some ''malformed load command #%d of %d at %p with mh=%p, size (0x%X) too small'')
      else if c + unat (lc_cmdsize m c) > en \<or> c + unat (lc_cmdsize m c) < st then
        ([], Some ''malformed load command #%d of %d at %p with mh=%p, size (0x%X) is too large, load commands end at %p'')
      else (c # fst (lc_list m st en (n - 1) (c + unat (lc_cmdsize m c))),
            snd (lc_list m st en (n - 1) (c + unat (lc_cmdsize m c)))))"
  by (cases n) (simp_all add: Let_def split: prod.splits)

lemmas walk_eval = load_commands_def load_commands_diag_def malformed_commands_def mh_defs
  lc_cmdsize_def lc_cmd_def lc_list_unroll read32_mem_words read64_halves

lemma two_commands_list:
  "load_commands two_commands = [32, 40]" "\<not> malformed_commands two_commands"
  by (simp_all add: two_commands_def walk_eval)

lemma load_commands_bounds:
  "(\<forall>c\<in>set (load_commands m). machHeaderSize m \<le> c \<and> 8 \<le> unat (lc_cmdsize m c)
       \<and> c + unat (lc_cmdsize m c) \<le> cmds_end m)
   \<and> sorted_wrt (\<lambda>c d. c + unat (lc_cmdsize m c) \<le> d) (load_commands m)
   \<and> 8 * length (load_commands m) \<le> unat (mh_sizeofcmds m)
   \<and> (hasMachOMagic m \<and> \<not> malformed_commands m \<longrightarrow> length (load_commands m) = unat (mh_ncmds m))"
proof -
  note c = load_commands_contiguous [of m]
  have "8 * length (load_commands m) \<le> unat (mh_sizeofcmds m)"
    using contiguous_room [OF c] by (simp add: cmds_end_def)
  moreover have "length (load_commands m) = unat (mh_ncmds m)"
    if "hasMachOMagic m" "\<not> malformed_commands m"
    using that lc_list_complete
    by (simp add: load_commands_def malformed_commands_def load_commands_list)
  ultimately show ?thesis
    using contiguous_bounds [OF c] contiguous_sorted [OF c] by blast
qed

lemma foldl_snoc: "foldl (\<lambda>seen x. seen @ [x]) ys xs = ys @ xs"
  by (induction xs arbitrary: ys) auto

text \<open>
  C8: the walk over load commands stays inside the load command area. \<open>forEachLoadCommand\<close>, run with
  a block that records the commands it is called with and never stops, returns on every memory.
  Every command the block sees starts after the mach header, is at least 8 bytes long and ends
  before \<open>header size + sizeofcmds\<close>; the commands follow each other without overlap, so there are
  at most \<open>sizeofcmds / 8\<close> of them whatever \<open>ncmds\<close> says, and exactly \<open>ncmds\<close> when the file has a
  Mach-O magic and the walk reports no error.
\<close>

theorem load_commands_in_bounds:
  "\<exists>visited e. forEachLoadCommand m (\<lambda>seen c. Some (seen @ [c], False)) [] = Some (visited, e)
   \<and> (\<forall>c\<in>set visited. machHeaderSize m \<le> c \<and> 8 \<le> unat (lc_cmdsize m c)
       \<and> c + unat (lc_cmdsize m c) \<le> machHeaderSize m + unat (mh_sizeofcmds m))
   \<and> sorted_wrt (\<lambda>c d. c + unat (lc_cmdsize m c) \<le> d) visited
   \<and> 8 * length visited \<le> unat (mh_sizeofcmds m)
   \<and> (hasMachOMagic m \<and> e = None \<longrightarrow> length visited = unat (mh_ncmds m))"
proof (intro exI conjI)
  show "forEachLoadCommand m (\<lambda>seen c. Some (seen @ [c], False)) [] =
      Some (load_commands m, snd (load_commands_diag m))"
    by (simp add: forEachLoadCommand_list forStop_foldl foldl_snoc)
qed (use load_commands_bounds [of m] in \<open>simp_all add: cmds_end_def malformed_commands_def\<close>)

theorem load_commands_in_bounds_witness:
  "\<exists>visited e. forEachLoadCommand two_commands (\<lambda>seen c. Some (seen @ [c], False)) [] = Some (visited, e)
   \<and> 40 \<in> set visited \<and> 40 + unat (lc_cmdsize two_commands 40) \<le> 32 + unat (mh_sizeofcmds two_commands)
   \<and> length visited = 2"
proof -
  have walk: "forEachLoadCommand two_commands (\<lambda>seen c. Some (seen @ [c], False)) [] = Some ([32, 40], None)"
    using two_commands_list by (simp add: forEachLoadCommand_list malformed_commands_def)
  have "hasMachOMagic two_commands" "machHeaderSize two_commands = 32" "mh_ncmds two_commands = 2"
    by (simp_all add: hasMachOMagic_def machHeaderSize_def is64_def two_commands_def walk_eval)
  with load_commands_in_bounds [of two_commands] walk show ?thesis by simp
qed

lemma lc_list_agree:
  assumes "agree 0 en m m'" and "c \<le> en"
  shows "fst (lc_list m st en n c) = fst (lc_list m' st en n c)
    \<and> (snd (lc_list m st en n c) = None \<longleftrightarrow> snd (lc_list m' st en n c) = None)"
  using assms(2)
proof (induction n arbitrary: c)
  case (Suc n)
  show ?case
  proof (cases "c + 8 \<le> en")
    case True
    have "lc_cmdsize m c = lc_cmdsize m' c"
      unfolding lc_cmdsize_def
      by (rule read32_agree) (rule agree_mono [OF assms(1)], use True in auto)
    with Suc.IH [of "c + unat (lc_cmdsize m' c)"] show ?thesis
      by (auto simp: Let_def split: prod.splits)
  next
    case False
    then have "lc_list M st en (Suc n) c = ([], snd (lc_list M st en (Suc n) c))
      \<and> snd (lc_list M st en (Suc n) c) \<noteq> None" for M
      by (auto simp: Let_def word_less_nat_alt)
    then show ?thesis by (metis fst_conv)
  qed
qed simp

lemma mh_agree:
  assumes "agree 0 28 m m'"
  shows "mh_magic m = mh_magic m'" "mh_cputype m = mh_cputype m'" "mh_cpusubtype m = mh_cpusubtype m'"
    "mh_filetype m = mh_filetype m'" "mh_ncmds m = mh_ncmds m'" "mh_sizeofcmds m = mh_sizeofcmds m'"
    "mh_flags m = mh_flags m'"
  unfolding mh_defs by (rule read32_agree, rule agree_mono [OF assms]; simp)+

lemma cmds_end_ge: "28 \<le> cmds_end m" "machHeaderSize m \<le> cmds_end m"
  by (simp_all add: cmds_end_def machHeaderSize_def)

lemma load_commands_diag_agree:
  assumes "agree 0 (cmds_end m) m m'"
  shows "load_commands m' = load_commands m \<and> (malformed_commands m' \<longleftrightarrow> malformed_commands m)"
proof -
  have "agree 0 28 m m'" using assms by (rule agree_mono) (use cmds_end_ge [of m] in auto)
  note h = mh_agree [OF this]
  then have e: "cmds_end m' = cmds_end m" "machHeaderSize m' = machHeaderSize m"
    by (simp_all add: cmds_end_def machHeaderSize_def is64_def)
  show ?thesis
  proof (cases "hasMachOMagic m")
    case True
    with h have "hasMachOMagic m'" by (simp add: hasMachOMagic_def)
    with True h e show ?thesis
      using lc_list_agree [OF assms, of "machHeaderSize m" "machHeaderSize m"] cmds_end_ge
      by (simp add: load_commands_def malformed_commands_def load_commands_list)
  next
    case False
    with h show ?thesis
      by (simp add: hasMachOMagic_def load_commands_def malformed_commands_def
          load_commands_diag_def hasMachOBigEndianMagic_def)
  qed
qed

text \<open>
  What the walk visits and whether it fails depends only on the mach header and the
  \<open>sizeofcmds\<close> bytes after it. The loop reads \<open>cmdsize\<close> of the next command before it compares
  the command with the end of the area, up to 8 bytes past that end; those bytes can change
  the text of the error only.
\<close>

theorem load_commands_footprint:
  assumes "agree 0 (cmds_end m) m m'"
  shows "load_commands m' = load_commands m \<and> (malformed_commands m' \<longleftrightarrow> malformed_commands m)"
  using assms by (rule load_commands_diag_agree)

theorem load_commands_footprint_witness:
  "load_commands (two_commands(56 := 255)) = [32, 40] \<and> \<not> malformed_commands (two_commands(56 := 255))"
proof -
  have "cmds_end two_commands = 56"
    by (simp add: cmds_end_def machHeaderSize_def is64_def two_commands_def walk_eval)
  then have "agree 0 (cmds_end two_commands) two_commands (two_commands(56 := 255))"
    by (simp add: agree_def)
  from load_commands_footprint [OF this] two_commands_list show ?thesis by simp
qed

section \<open>Removing load commands, verified\<close>

definition cmd_bytes :: "memory \<Rightarrow> nat \<Rightarrow> u8 list" where
  "cmd_bytes m c = map m [c ..< c + unat (lc_cmdsize m c)]"

text \<open>The block of the callers: remove by command number, never stop.\<close>

definition remove_by :: "(u32 \<Rightarrow> bool) \<Rightarrow> memory \<Rightarrow> 's \<Rightarrow> nat \<Rightarrow> 's \<times> bool \<times> bool" where
  "remove_by P m s c = (s, P (lc_cmd m c), False)"

definition sizes :: "memory \<Rightarrow> nat list \<Rightarrow> nat" where
  "sizes m cs = sum_list (map (\<lambda>c. unat (lc_cmdsize m c)) cs)"

lemma sizes_simps [simp]: "sizes m [] = 0" "sizes m (c # cs) = unat (lc_cmdsize m c) + sizes m cs"
  by (simp_all add: sizes_def)

lemma le_nat_shift: "(\<And>i. i < n \<Longrightarrow> m (p + i) = m' (q + i)) \<Longrightarrow> le_nat m p n = le_nat m' q n"
proof (induction n arbitrary: p q)
  case (Suc n)
  have "le_nat m (Suc p) n = le_nat m' (Suc q) n"
  proof (rule Suc.IH)
    show "m (Suc p + i) = m' (Suc q + i)" if "i < n" for i
      using Suc.prems [of "Suc i"] that by simp
  qed
  with Suc.prems [of 0] show ?case by simp
qed simp

lemma read32_shift: "(\<And>i. i < 4 \<Longrightarrow> m (p + i) = m' (q + i)) \<Longrightarrow> read32 m p = read32 m' q"
  unfolding read32_def by (rule arg_cong [OF le_nat_shift])

lemma read32_write32_same: "read32 (write32 m p v) p = v"
proof -
  have "le_nat (write32 m p v) p 4 = unat v"
    using unat_byte_sum [of v] by (simp add: le_nat_4 write32_def)
  then show ?thesis by (simp add: read32_def)
qed

lemma read32_write32_other: "q + 4 \<le> p \<or> p + 4 \<le> q \<Longrightarrow> read32 (write32 m p v) q = read32 m q"
  by (rule read32_agree) (auto simp: agree_def write32_def)

lemma read32_memmove_before: "q + 4 \<le> dst \<Longrightarrow> read32 (memmove m dst src n) q = read32 m q"
  by (rule read32_agree) (auto simp: agree_def memmove_def)

lemma lc_list_ConsE:
  assumes "lc_list m st en (Suc n) c = (cs, None)"
  obtains cs' where "cs = c # cs'" and "8 \<le> unat (lc_cmdsize m c)"
    and "c + unat (lc_cmdsize m c) \<le> en" and "st \<le> c + unat (lc_cmdsize m c)"
    and "lc_list m st en n (c + unat (lc_cmdsize m c)) = (cs', None)"
  using assms by (auto simp: Let_def word_less_nat_alt split: if_splits prod.splits)

lemma sizes_le_room: "contiguous m en c cs \<Longrightarrow> c \<le> en \<Longrightarrow> c + sizes m cs \<le> en"
proof (induction cs arbitrary: c)
  case (Cons x xs)
  then have "contiguous m en (c + unat (lc_cmdsize m c)) xs" "c + unat (lc_cmdsize m c) \<le> en" "x = c"
    by simp_all
  with Cons.IH [of "c + unat (lc_cmdsize m c)"] show ?case by simp
qed simp

lemma sizes_filter: "sizes m (filter (\<lambda>c. \<not> Q c) cs) + sizes m (filter Q cs) = sizes m cs"
  by (induction cs) auto

text \<open>
  The loop invariant: the bytes at \<open>cmd\<close> are the original bytes from \<open>c\<close> on, up to the end of
  the area, and \<open>bytesRemaining\<close> counts from \<open>cmd\<close> to that end.
\<close>

lemma rm_loop_remove_by:
  assumes "lc_list m st en n c = (cs, None)" and "24 \<le> st" "st \<le> cmd" "cmd \<le> c" "c \<le> en"
    and "en - st < 4294967296"
    and "\<And>i. i < en - c \<Longrightarrow> M (cmd + i) = m (c + i)" and "unat R = en - cmd"
  shows "\<exists>M' R'. let kept = filter (\<lambda>c. \<not> P (lc_cmd m c)) cs; gone = filter (\<lambda>c. P (lc_cmd m c)) cs;
                  cmd' = cmd + sizes m kept in
    rm_loop st en (remove_by P) n cmd R M s = (s, M', Inr (cmd', R')) \<and> unat R' = en - cmd'
    \<and> map M' [cmd ..< cmd'] = concat (map (cmd_bytes m) kept)
    \<and> (\<forall>i. i < 16 \<or> 24 \<le> i \<and> i < cmd \<or> en \<le> i \<longrightarrow> M' i = M i)
    \<and> mh_sizeofcmds M' = mh_sizeofcmds M - of_nat (sizes m gone)
    \<and> mh_ncmds M' = mh_ncmds M - of_nat (length gone)"
  using assms
proof (induction n arbitrary: c cmd M cs R)
  case 0
  then show ?case by (auto simp: Let_def intro!: exI [of _ M] exI [of _ R])
next
  case (Suc n)
  define z where "z = unat (lc_cmdsize m c)"
  from Suc.prems(1) obtain cs' where cs: "cs = c # cs'" and z8: "8 \<le> z" and zen: "c + z \<le> en"
    and rest: "lc_list m st en n (c + z) = (cs', None)"
    unfolding z_def by (rule lc_list_ConsE)
  have tail: "M (cmd + i) = m (c + i)" if "i < en - c" for i using Suc.prems(7) that .
  have size_eq: "lc_cmdsize M cmd = lc_cmdsize m c"
    unfolding lc_cmdsize_def using tail zen z8
    by (intro read32_shift) (simp add: add.assoc)
  have cmd_eq: "lc_cmd M cmd = lc_cmd m c"
    unfolding lc_cmd_def using tail zen z8 by (intro read32_shift) simp
  have ok: "\<not> lc_cmdsize m c < 8" "\<not> en < cmd + z" "\<not> cmd + z < st"
    using z8 zen Suc.prems(3,4) by (simp_all add: word_less_nat_alt z_def)
  note un = Suc.prems(8)
  show ?case
  proof (cases "P (lc_cmd m c)")
    case True
    define M3 where "M3 = (let m1 = write32 M 20 (mh_sizeofcmds M - lc_cmdsize m c);
        m2 = memmove m1 cmd (cmd + z) (en - cmd) in write32 m2 16 (mh_ncmds m2 - 1))"
    have step: "rm_loop st en (remove_by P) (Suc n) cmd R M s =
        rm_loop st en (remove_by P) n cmd R M3 s"
      using True ok by (simp add: Let_def remove_by_def size_eq cmd_eq z_def [symmetric] un M3_def)
    have tail3: "M3 (cmd + i) = m (c + z + i)" if "i < en - (c + z)" for i
    proof -
      have "cmd + i < en" using that Suc.prems(4) by simp
      with that tail [of "z + i"] Suc.prems(2-5) zen show ?thesis
        by (simp add: M3_def Let_def write32_def memmove_def add.assoc)
    qed
    have frame: "M3 i = M i" if "i < 16 \<or> 24 \<le> i \<and> i < cmd \<or> en \<le> i" for i
      using that Suc.prems(2-5) by (auto simp: M3_def Let_def write32_def memmove_def)
    have hdr: "mh_sizeofcmds M3 = mh_sizeofcmds M - lc_cmdsize m c" "mh_ncmds M3 = mh_ncmds M - 1"
      using Suc.prems(2,3)
      by (simp_all add: M3_def Let_def mh_defs read32_write32_same read32_write32_other
          read32_memmove_before)
    have "cmd \<le> c + z" using Suc.prems(4) by simp
    from Suc.IH [OF rest Suc.prems(2,3) this zen Suc.prems(6) tail3 un] obtain M' R' where
      "let kept = filter (\<lambda>c. \<not> P (lc_cmd m c)) cs'; gone = filter (\<lambda>c. P (lc_cmd m c)) cs';
           cmd' = cmd + sizes m kept in
        rm_loop st en (remove_by P) n cmd R M3 s = (s, M', Inr (cmd', R')) \<and> unat R' = en - cmd'
        \<and> map M' [cmd ..< cmd'] = concat (map (cmd_bytes m) kept)
        \<and> (\<forall>i. i < 16 \<or> 24 \<le> i \<and> i < cmd \<or> en \<le> i \<longrightarrow> M' i = M3 i)
        \<and> mh_sizeofcmds M' = mh_sizeofcmds M3 - of_nat (sizes m gone)
        \<and> mh_ncmds M' = mh_ncmds M3 - of_nat (length gone)" by blast
    then show ?thesis
      unfolding step cs using True frame
      by (intro exI [of _ M'] exI [of _ R']) (simp add: Let_def hdr algebra_simps)
  next
    case False
    have rem: "unat (R - lc_cmdsize m c) = en - (cmd + z)"
      using un zen Suc.prems(4) by (simp add: unat_sub word_le_nat_alt z_def)
    have step: "rm_loop st en (remove_by P) (Suc n) cmd R M s =
        rm_loop st en (remove_by P) n (cmd + z) (R - lc_cmdsize m c) M s"
      using False ok by (simp add: Let_def remove_by_def size_eq cmd_eq z_def [symmetric])
    have tail': "M (cmd + z + i) = m (c + z + i)" if "i < en - (c + z)" for i
      using that tail [of "z + i"] by (simp add: add.assoc)
    have le: "st \<le> cmd + z" "cmd + z \<le> c + z" using Suc.prems(3,4) by simp_all
    from Suc.IH [OF rest Suc.prems(2) le zen Suc.prems(6) tail' rem] obtain M' R' where
      M': "let kept = filter (\<lambda>c. \<not> P (lc_cmd m c)) cs'; gone = filter (\<lambda>c. P (lc_cmd m c)) cs';
              cmd' = cmd + z + sizes m kept in
        rm_loop st en (remove_by P) n (cmd + z) (R - lc_cmdsize m c) M s = (s, M', Inr (cmd', R'))
        \<and> unat R' = en - cmd'
        \<and> map M' [cmd + z ..< cmd'] = concat (map (cmd_bytes m) kept)
        \<and> (\<forall>i. i < 16 \<or> 24 \<le> i \<and> i < cmd + z \<or> en \<le> i \<longrightarrow> M' i = M i)
        \<and> mh_sizeofcmds M' = mh_sizeofcmds M - of_nat (sizes m gone)
        \<and> mh_ncmds M' = mh_ncmds M - of_nat (length gone)" by blast
    have "map M' [cmd ..< cmd + z] = cmd_bytes m c"
    proof (rule nth_equalityI)
      fix i assume "i < length (map M' [cmd ..< cmd + z])"
      then have "i < z" by simp
      with M' tail [of i] zen Suc.prems(2,3)
      show "map M' [cmd ..< cmd + z] ! i = cmd_bytes m c ! i"
        by (auto simp: cmd_bytes_def z_def [symmetric] Let_def)
    qed (simp add: cmd_bytes_def z_def)
    then have "map M' [cmd ..< cmd + (z + k)] = cmd_bytes m c @ map M' [cmd + z ..< cmd + z + k]" for k
      by (metis add.assoc le_add1 map_append upt_add_eq_append)
    with M' False show ?thesis
      unfolding step cs by (intro exI [of _ M'] exI [of _ R']) (simp add: Let_def z_def [symmetric] add.assoc)
  qed
qed

lemma cmd_bytes_prefix:
  assumes "map M [c ..< c + sizes m (k # ks)] = concat (map (cmd_bytes m) (k # ks))"
  shows "map M [c ..< c + unat (lc_cmdsize m k)] = cmd_bytes m k"
    and "map M [c + unat (lc_cmdsize m k) ..< c + unat (lc_cmdsize m k) + sizes m ks]
           = concat (map (cmd_bytes m) ks)"
proof -
  let ?z = "unat (lc_cmdsize m k)"
  have "map M [c ..< c + ?z] @ map M [c + ?z ..< c + ?z + sizes m ks]
      = cmd_bytes m k @ concat (map (cmd_bytes m) ks)"
    using assms upt_add_eq_append [of c "c + ?z" "sizes m ks"] by (simp add: add.assoc)
  moreover have "length (map M [c ..< c + ?z]) = length (cmd_bytes m k)" by (simp add: cmd_bytes_def)
  ultimately show "map M [c ..< c + ?z] = cmd_bytes m k"
    "map M [c + ?z ..< c + ?z + sizes m ks] = concat (map (cmd_bytes m) ks)"
    by auto
qed

lemma cmd_bytes_copy:
  assumes "map M [c ..< c + unat (lc_cmdsize m k)] = cmd_bytes m k" and "8 \<le> unat (lc_cmdsize m k)"
  shows "lc_cmdsize M c = lc_cmdsize m k" and "cmd_bytes M c = cmd_bytes m k"
proof -
  have byte: "M (c + i) = m (k + i)" if "i < unat (lc_cmdsize m k)" for i
    using arg_cong [OF assms(1), of "\<lambda>xs. xs ! i"] that by (simp add: cmd_bytes_def)
  show eq: "lc_cmdsize M c = lc_cmdsize m k"
    unfolding lc_cmdsize_def using byte assms(2) by (intro read32_shift) (simp add: add.assoc)
  show "cmd_bytes M c = cmd_bytes m k" using assms(1) by (simp add: cmd_bytes_def eq)
qed

lemma lc_list_of_bytes:
  assumes "map M [c ..< c + sizes m ks] = concat (map (cmd_bytes m) ks)"
    and "\<forall>k\<in>set ks. 8 \<le> unat (lc_cmdsize m k)" and "c + sizes m ks \<le> en" and "st \<le> c"
  shows "\<exists>ps. lc_list M st en (length ks) c = (ps, None) \<and> map (cmd_bytes M) ps = map (cmd_bytes m) ks"
  using assms
proof (induction ks arbitrary: c)
  case (Cons k ks)
  let ?z = "unat (lc_cmdsize m k)"
  note pre = cmd_bytes_prefix [OF Cons.prems(1)]
  from Cons.prems(2) have z8: "8 \<le> ?z" by simp
  note copy = cmd_bytes_copy [OF pre(1) z8]
  from Cons.IH [OF pre(2)] Cons.prems obtain ps where
    "lc_list M st en (length ks) (c + ?z) = (ps, None)" "map (cmd_bytes M) ps = map (cmd_bytes m) ks"
    by auto
  then show ?case
    using z8 Cons.prems(3,4) by (simp add: Let_def copy word_less_nat_alt)
qed simp

text \<open>The memory after \<open>removeLoadCommand\<close>, in terms of the commands kept and removed.\<close>

lemma removeLoadCommand_result:
  assumes magic: "hasMachOMagic m" and ok: "\<not> malformed_commands m"
    and run: "removeLoadCommand m (remove_by P) s = (s', m', d)"
    and kept: "kept = filter (\<lambda>c. \<not> P (lc_cmd m c)) (load_commands m)"
    and gone: "gone = filter (\<lambda>c. P (lc_cmd m c)) (load_commands m)"
  shows "s' = s" "d = None"
    and "map m' [machHeaderSize m ..< machHeaderSize m + sizes m kept] = concat (map (cmd_bytes m) kept)"
    and "\<And>i. machHeaderSize m + sizes m kept \<le> i \<Longrightarrow> i < cmds_end m \<Longrightarrow> m' i = 0"
    and "\<And>i. i < 16 \<or> 24 \<le> i \<and> i < machHeaderSize m \<or> cmds_end m \<le> i \<Longrightarrow> m' i = m i"
    and "mh_sizeofcmds m' = mh_sizeofcmds m - of_nat (sizes m gone)"
    and "mh_ncmds m' = mh_ncmds m - of_nat (length gone)"
proof -
  let ?st = "machHeaderSize m" and ?en = "cmds_end m" and ?cs = "load_commands m"
  have st: "24 \<le> ?st" "?st \<le> ?en" by (simp_all add: machHeaderSize_def cmds_end_def)
  have span: "?en - ?st < 4294967296" "unat (mh_sizeofcmds m) = ?en - ?st"
    using unat_u32_less [of "mh_sizeofcmds m"] by (simp_all add: cmds_end_def)
  have lc: "lc_list m ?st ?en (unat (mh_ncmds m)) ?st = (?cs, None)"
    using magic ok by (simp add: load_commands_def malformed_commands_def load_commands_list prod_eq_iff)
  obtain M R where loop: "rm_loop ?st ?en (remove_by P) (unat (mh_ncmds m)) ?st (mh_sizeofcmds m) m s
        = (s, M, Inr (?st + sizes m kept, R))" "unat R = ?en - (?st + sizes m kept)"
      and bytes: "map M [?st ..< ?st + sizes m kept] = concat (map (cmd_bytes m) kept)"
      and frame: "\<And>i. i < 16 \<or> 24 \<le> i \<and> i < ?st \<or> ?en \<le> i \<Longrightarrow> M i = m i"
      and hdr: "mh_sizeofcmds M = mh_sizeofcmds m - of_nat (sizes m gone)"
        "mh_ncmds M = mh_ncmds m - of_nat (length gone)"
    using rm_loop_remove_by [OF lc st(1) order.refl order.refl st(2) span(1) refl span(2), where s = s
        and P = P, unfolded Let_def, folded kept gone] by blast
  have room: "?st + sizes m kept \<le> ?en"
    using sizes_le_room [OF load_commands_contiguous st(2)] sizes_filter [of m "\<lambda>c. P (lc_cmd m c)" ?cs]
    unfolding kept by simp
  have m': "m' = bzero M (?st + sizes m kept) (?en - (?st + sizes m kept))"
    using run magic loop by (auto simp: removeLoadCommand_def hasMachOMagic_def cmds_end_def Let_def)
  show "s' = s" "d = None"
    using run magic loop by (auto simp: removeLoadCommand_def hasMachOMagic_def cmds_end_def Let_def)
  have below: "m' i = M i" if "i < ?st + sizes m kept \<or> ?en \<le> i" for i
    using that room by (auto simp: m' bzero_def)
  then have "map m' [?st ..< ?st + sizes m kept] = map M [?st ..< ?st + sizes m kept]" by simp
  with bytes show "map m' [?st ..< ?st + sizes m kept] = concat (map (cmd_bytes m) kept)" by simp
  show "m' i = 0" if "?st + sizes m kept \<le> i" "i < ?en" for i
    using that by (simp add: m' bzero_def)
  show "m' i = m i" if "i < 16 \<or> 24 \<le> i \<and> i < ?st \<or> ?en \<le> i" for i
    using below [of i] frame [of i] that st by auto
  have "read32 m' q = read32 M q" if "q + 4 \<le> 24" for q
    using below st that by (intro read32_shift) simp
  with hdr show "mh_sizeofcmds m' = mh_sizeofcmds m - of_nat (sizes m gone)"
    "mh_ncmds m' = mh_ncmds m - of_nat (length gone)"
    by (simp_all add: mh_defs)
qed

text \<open>
  C24: \<open>removeLoadCommand\<close> with a block that selects commands by number and never stops removes
  exactly the selected commands: afterwards the walk finds the other commands, in order and
  byte for byte, reports no error, and the freed bytes up to the old end of the area are
  zero. Nothing outside \<open>ncmds\<close>, \<open>sizeofcmds\<close> and the load command area changes.
\<close>

theorem removeLoadCommand_filters:
  assumes magic: "hasMachOMagic m" and ok: "\<not> malformed_commands m"
    and run: "removeLoadCommand m (remove_by P) s = (s', m', d)"
  shows "s' = s \<and> d = None \<and> \<not> malformed_commands m'
    \<and> map (cmd_bytes m') (load_commands m')
        = map (cmd_bytes m) (filter (\<lambda>c. \<not> P (lc_cmd m c)) (load_commands m))
    \<and> (\<forall>i. cmds_end m' \<le> i \<and> i < cmds_end m \<longrightarrow> m' i = 0)
    \<and> (\<forall>i. i < 16 \<or> 24 \<le> i \<and> i < machHeaderSize m \<or> cmds_end m \<le> i \<longrightarrow> m' i = m i)"
proof -
  let ?st = "machHeaderSize m" and ?en = "cmds_end m" and ?cs = "load_commands m"
  define kept where "kept = filter (\<lambda>c. \<not> P (lc_cmd m c)) ?cs"
  define gone where "gone = filter (\<lambda>c. P (lc_cmd m c)) ?cs"
  note res = removeLoadCommand_result [OF magic ok run kept_def gone_def]
  have total: "sizes m kept + sizes m gone = sizes m ?cs" "length kept + length gone = length ?cs"
    unfolding kept_def gone_def
    using sizes_filter [of m "\<lambda>c. P (lc_cmd m c)" ?cs] sum_length_filter_compl [of "\<lambda>c. P (lc_cmd m c)" ?cs]
    by simp_all
  have room: "?st + sizes m ?cs \<le> ?en"
    by (rule sizes_le_room [OF load_commands_contiguous cmds_end_ge(2)])
  have "mh_magic m' = mh_magic m" using res(5) unfolding mh_defs by (auto intro!: read32_shift)
  then have st': "machHeaderSize m' = ?st" "hasMachOMagic m'"
    using magic by (simp_all add: machHeaderSize_def is64_def hasMachOMagic_def)
  have gone_le: "sizes m gone \<le> unat (mh_sizeofcmds m)" using total room by (simp add: cmds_end_def)
  then have "unat (of_nat (sizes m gone) :: u32) = sizes m gone"
    using unat_u32_less [of "mh_sizeofcmds m"] by (intro unat_of_nat_u32) simp
  with gone_le have en': "cmds_end m' = ?en - sizes m gone"
    unfolding cmds_end_def res(6) st' by (simp add: unat_sub word_le_nat_alt)
  have n: "length ?cs = unat (mh_ncmds m)"
    using load_commands_bounds [of m] magic ok by simp
  then have "unat (of_nat (length gone) :: u32) = length gone"
    using unat_u32_less [of "mh_ncmds m"] total(2) by (intro unat_of_nat_u32) simp
  then have ncmds': "unat (mh_ncmds m') = length kept"
    unfolding res(7) using n total(2) by (simp add: unat_sub word_le_nat_alt)
  have "\<forall>k\<in>set kept. 8 \<le> unat (lc_cmdsize m k)"
    using load_commands_bounds [of m] by (simp add: kept_def)
  moreover have "?st + sizes m kept \<le> cmds_end m'" using en' total(1) room by simp
  ultimately obtain ps where "lc_list m' ?st (cmds_end m') (length kept) ?st = (ps, None)"
      "map (cmd_bytes m') ps = map (cmd_bytes m) kept"
    using lc_list_of_bytes [OF res(3), of "cmds_end m'" ?st] by blast
  then have "\<not> malformed_commands m'" "map (cmd_bytes m') (load_commands m') = map (cmd_bytes m) kept"
    using st' ncmds' by (simp_all add: load_commands_def malformed_commands_def load_commands_list)
  moreover have "m' i = 0" if "cmds_end m' \<le> i" "i < ?en" for i
    using that en' total(1) room by (intro res(4)) simp_all
  ultimately show ?thesis using res(1,2,5) unfolding kept_def by blast
qed

theorem removeLoadCommand_filters_witness:
  "\<exists>m' d. removeLoadCommand two_commands (remove_by (\<lambda>c. c = LC_SEGMENT_SPLIT_INFO)) () = ((), m', d)
     \<and> d = None \<and> map (cmd_bytes m') (load_commands m') = [cmd_bytes two_commands 40]"
proof -
  have "hasMachOMagic two_commands" by (simp add: hasMachOMagic_def two_commands_def walk_eval)
  moreover obtain m' d where
    "removeLoadCommand two_commands (remove_by (\<lambda>c. c = LC_SEGMENT_SPLIT_INFO)) () = ((), m', d)"
    by (metis old.unit.exhaust prod.exhaust)
  moreover have "lc_cmd two_commands 32 = LC_SEGMENT_SPLIT_INFO" "lc_cmd two_commands 40 = LC_CODE_SIGNATURE"
    by (simp_all add: two_commands_def walk_eval)
  ultimately show ?thesis
    using removeLoadCommand_filters [of two_commands "\<lambda>c. c = LC_SEGMENT_SPLIT_INFO" "()" "()" m' d]
    by (simp add: two_commands_list)
qed

text \<open>
  A block that sets \<open>stop\<close> makes \<open>removeLoadCommand\<close> destroy the rest. The block of
  \<open>dsc_extractor.cpp\<close> removes \<open>LC_SEGMENT_SPLIT_INFO\<close> and stops; the final \<open>bzero\<close> then clears
  every command after it although \<open>ncmds\<close> still counts them, and the file no longer walks.
\<close>

definition remove_first :: "u32 \<Rightarrow> memory \<Rightarrow> 's \<Rightarrow> nat \<Rightarrow> 's \<times> bool \<times> bool" where
  "remove_first num m s c = (s, lc_cmd m c = num, lc_cmd m c = num)"

theorem removeLoadCommand_stop_clears_rest:
  "\<exists>m'. removeLoadCommand two_commands (remove_first LC_SEGMENT_SPLIT_INFO) () = ((), m', None)
     \<and> \<not> malformed_commands two_commands \<and> mh_ncmds m' = 1 \<and> list_all (\<lambda>b. b = 0) (map m' [32..<56])
     \<and> malformed_commands m'"
proof -
  let ?m1 = "write32 two_commands 20 16"
  let ?m2 = "memmove ?m1 32 40 24"
  let ?m' = "bzero (write32 ?m2 16 1) 32 24"
  have h: "mh_magic two_commands = MH_MAGIC_64" "mh_ncmds two_commands = 2" "mh_sizeofcmds two_commands = 24"
    "lc_cmdsize two_commands 32 = 8" "lc_cmd two_commands 32 = LC_SEGMENT_SPLIT_INFO"
    by (simp_all add: two_commands_def walk_eval)
  have "mh_ncmds ?m2 = 2"
    using h(2) by (simp add: mh_defs read32_memmove_before read32_write32_other)
  then have "rm_loop 32 56 (remove_first LC_SEGMENT_SPLIT_INFO) (Suc (Suc 0)) 32 24 two_commands ()
      = ((), write32 ?m2 16 1, Inr (32, 24))"
    by (simp add: h Let_def remove_first_def)
  then have "rm_loop 32 56 (remove_first LC_SEGMENT_SPLIT_INFO) 2 32 24 two_commands ()
      = ((), write32 ?m2 16 1, Inr (32, 24))"
    by (simp only: numeral_2_eq_2)
  then have run: "removeLoadCommand two_commands (remove_first LC_SEGMENT_SPLIT_INFO) () = ((), ?m', None)"
    by (simp add: removeLoadCommand_def h machHeaderSize_def is64_def)
  have r: "read32 ?m' q = read32 (write32 ?m2 16 1) q" if "q + 4 \<le> 32" for q
    using that by (intro read32_agree) (auto simp: agree_def bzero_def)
  have n: "mh_ncmds ?m' = 1" by (simp add: mh_defs r read32_write32_same)
  have mg: "mh_magic ?m' = MH_MAGIC_64"
    using h(1) by (simp add: mh_defs r read32_write32_other read32_memmove_before)
  have z: "?m' i = 0" if "32 \<le> i" "i < 56" for i using that by (simp add: bzero_def)
  then have "lc_cmdsize ?m' 32 = 0" by (simp add: lc_cmdsize_def read32_def le_nat_4)
  then have "malformed_commands ?m'"
    using n mg by (simp add: malformed_commands_def load_commands_diag_def)
  moreover have "list_all (\<lambda>b. b = 0) (map ?m' [32..<56])"
    by (simp only: list_all_iff set_map set_upt) (auto simp: z)
  ultimately show ?thesis using run n two_commands_list(2) by blast
qed

end
