(* ===== verification/MachO_Queries.thy ===== *)
theory MachO_Queries
  imports MachO_LoadCommands
begin

text \<open>
  The queries of \<open>src/dyld3/MachOFile.cpp\<close> that look for particular load commands: dependent
  dylibs, install name, UUID, entry point, and the platforms a binary was built for with the
  decisions taken from them. \<open>None\<close> is a failed \<open>assertNoError()\<close> or \<open>assert()\<close>.
\<close>

section \<open>Looking for a load command\<close>

text \<open>A walk with a block that cannot abort; its result, whatever error ends it.\<close>

definition walk_value :: "memory \<Rightarrow> ('s \<Rightarrow> nat \<Rightarrow> 's \<times> bool) \<Rightarrow> 's \<Rightarrow> 's" where
  "walk_value m callback s =
     (case forEachLoadCommand m (\<lambda>s c. Some (callback s c)) s of Some (s', d) \<Rightarrow> s' | None \<Rightarrow> s)"

definition hasLoadCommand :: "memory \<Rightarrow> u32 \<Rightarrow> bool" where
  "hasLoadCommand m cmdNum =
     walk_value m (\<lambda>hasLC c. if lc_cmd m c = cmdNum then (True, True) else (hasLC, False)) False"

definition isDynamicExecutable :: "memory \<Rightarrow> bool" where
  "isDynamicExecutable m =
     (if mh_filetype m \<noteq> MH_EXECUTE then False else hasLoadCommand m LC_LOAD_DYLINKER)"

definition isStaticExecutable :: "memory \<Rightarrow> bool" where
  "isStaticExecutable m =
     (if mh_filetype m \<noteq> MH_EXECUTE then False else \<not> hasLoadCommand m LC_LOAD_DYLINKER)"

definition hasChainedFixupsLoadCommand :: "memory \<Rightarrow> bool" where
  "hasChainedFixupsLoadCommand m = hasLoadCommand m LC_DYLD_CHAINED_FIXUPS"

definition hasChainedFixups :: "build \<Rightarrow> memory \<Rightarrow> bool" where
  "hasChainedFixups B m =
     (if SUPPORT_ARCH_arm64e B \<and> mh_cputype m = CPU_TYPE_ARM64 \<and> maskedCpuSubtype m = CPU_SUBTYPE_ARM64E
      then hasLoadCommand m LC_DYLD_INFO_ONLY \<or> hasLoadCommand m LC_DYLD_CHAINED_FIXUPS
      else hasLoadCommand m LC_DYLD_CHAINED_FIXUPS)"

text \<open>
  \<open>isMachO\<close> with the caller's \<open>Diagnostics\<close>: its answer is \<open>diag.noError()\<close>, so an error that
  was already there makes it false.
\<close>

definition isMachO :: "diag \<Rightarrow> memory \<Rightarrow> u64 \<Rightarrow> bool \<times> diag" where
  "isMachO d m fileSize =
     (if \<not> hasMachOMagic m then
        (False, if \<not> hasMachOBigEndianMagic m then error ''file does not start with MH_MAGIC[_64]'' d else d)
      else if ucast (mh_sizeofcmds m) + of_nat (machHeaderSize m) > fileSize then
        (False, error ''load commands exceed length of first segment'' d)
      else
        (let d' = then_diag d (snd (load_commands_diag m)) in (noError d', d')))"

text \<open>The pointer to the name, the compatibility version and the current version.\<close>

definition getDylibInstallName :: "memory \<Rightarrow> (nat \<times> u32 \<times> u32) option option" where
  "getDylibInstallName m =
     walkAsserting m (\<lambda>found c.
       if lc_cmd m c = LC_ID_DYLIB
       then Some (Some (c + unat (read32 m (c + 8)), read32 m (c + 20), read32 m (c + 16)), True)
       else Some (found, False)) None"

definition installName :: "memory \<Rightarrow> nat option option" where
  "installName m = map_option (map_option fst) (getDylibInstallName m)"

definition getUuid :: "memory \<Rightarrow> (bool \<times> u8 list) option" where
  "getUuid m =
     map_option (\<lambda>found. case found of Some uuid \<Rightarrow> (True, uuid) | None \<Rightarrow> (False, replicate 16 0))
       (walkAsserting m (\<lambda>found c.
          if lc_cmd m c = LC_UUID then Some (Some (map m [c + 8 ..< c + 24]), True)
          else Some (found, False)) None)"

record Dependent =
  dep_loadPath :: nat
  dep_isWeak :: bool
  dep_isReExport :: bool
  dep_isUpward :: bool
  dep_compatVersion :: u32
  dep_curVersion :: u32

definition isDependentCommand :: "u32 \<Rightarrow> bool" where
  "isDependentCommand c \<longleftrightarrow>
     c = LC_LOAD_DYLIB \<or> c = LC_LOAD_WEAK_DYLIB \<or> c = LC_REEXPORT_DYLIB \<or> c = LC_LOAD_UPWARD_DYLIB"

definition dependent_at :: "memory \<Rightarrow> nat \<Rightarrow> Dependent" where
  "dependent_at m c =
     \<lparr>dep_loadPath = c + unat (read32 m (c + 8)),
      dep_isWeak = (lc_cmd m c = LC_LOAD_WEAK_DYLIB),
      dep_isReExport = (lc_cmd m c = LC_REEXPORT_DYLIB),
      dep_isUpward = (lc_cmd m c = LC_LOAD_UPWARD_DYLIB),
      dep_compatVersion = read32 m (c + 20),
      dep_curVersion = read32 m (c + 16)\<rparr>"

definition forEachDependentDylib ::
    "memory \<Rightarrow> ('s \<Rightarrow> Dependent \<Rightarrow> ('s \<times> bool) option) \<Rightarrow> 's \<Rightarrow> 's option" where
  "forEachDependentDylib m callback s =
     walkAsserting m (\<lambda>s c.
       if isDependentCommand (lc_cmd m c) then callback s (dependent_at m c) else Some (s, False)) s"

definition unixThreadLoadCommand :: "memory \<Rightarrow> nat option" where
  "unixThreadLoadCommand m =
     walk_value m (\<lambda>command c. if lc_cmd m c = LC_UNIXTHREAD then (Some c, True) else (command, False)) None"

definition entryAddrRegisterIndexForThreadCmd :: "memory \<Rightarrow> u32" where
  "entryAddrRegisterIndexForThreadCmd m =
     (if mh_cputype m = CPU_TYPE_I386 then 10
      else if mh_cputype m = CPU_TYPE_X86_64 then 16
      else if mh_cputype m = CPU_TYPE_ARM then 15
      else if mh_cputype m = CPU_TYPE_ARM64 then 32
      else -1)"

definition entryAddrFromThreadCmd :: "memory \<Rightarrow> nat \<Rightarrow> u64 option" where
  "entryAddrFromThreadCmd m c =
     (if lc_cmd m c \<noteq> LC_UNIXTHREAD then None
      else
        (let index = entryAddrRegisterIndexForThreadCmd m in
         if index = -1 then Some 0
         else Some (if is64 m then read64 m (c + 16 + 8 * unat index)
                    else ucast (read32 m (c + 16 + 4 * unat index)))))"

text \<open>The offset of the encryption command; with an error in the walk there is none.\<close>

definition findFairPlayEncryptionLoadCommand :: "memory \<Rightarrow> nat option" where
  "findFairPlayEncryptionLoadCommand m =
     (case forEachLoadCommand m (\<lambda>result c.
              if lc_cmd m c = LC_ENCRYPTION_INFO \<or> lc_cmd m c = LC_ENCRYPTION_INFO_64
              then Some (Some c, True) else Some (result, False)) None of
        Some (result, d) \<Rightarrow> if noError d then result else None
      | None \<Rightarrow> None)"

text \<open>Whether the file is encrypted, and the offset and size of the encrypted text.\<close>

definition isFairPlayEncrypted :: "memory \<Rightarrow> bool \<times> u32 \<times> u32" where
  "isFairPlayEncrypted m =
     (case findFairPlayEncryptionLoadCommand m of
        Some c \<Rightarrow> if read32 m (c + 16) = 1 then (True, read32 m (c + 8), read32 m (c + 12))
                  else (False, 0, 0)
      | None \<Rightarrow> (False, 0, 0))"

definition canBeFairPlayEncrypted :: "memory \<Rightarrow> bool" where
  "canBeFairPlayEncrypted m \<longleftrightarrow> findFairPlayEncryptionLoadCommand m \<noteq> None"

section \<open>Platforms of a binary\<close>

text \<open>What one load command tells the block of \<open>forEachSupportedPlatform\<close>: platform, minOS, sdk.\<close>

definition platform_of_command :: "memory \<Rightarrow> nat \<Rightarrow> (Platform \<times> u32 \<times> u32) option" where
  "platform_of_command m c =
     (let cmd = lc_cmd m c; version = read32 m (c + 8); sdk = read32 m (c + 12);
          x86_64 = (mh_cputype m = CPU_TYPE_X86_64); i386 = (mh_cputype m = CPU_TYPE_I386)
      in if cmd = LC_BUILD_VERSION then Some (read32 m (c + 8), read32 m (c + 12), read32 m (c + 16))
         else if cmd = LC_VERSION_MIN_MACOSX then Some (Platform_macOS, version, sdk)
         else if cmd = LC_VERSION_MIN_IPHONEOS then
           Some (if x86_64 \<or> i386 then Platform_iOS_simulator else Platform_iOS, version, sdk)
         else if cmd = LC_VERSION_MIN_TVOS then
           Some (if x86_64 then Platform_tvOS_simulator else Platform_tvOS, version, sdk)
         else if cmd = LC_VERSION_MIN_WATCHOS then
           Some (if x86_64 \<or> i386 then Platform_watchOS_simulator else Platform_watchOS, version, sdk)
         else None)"

definition forEachSupportedPlatform ::
    "memory \<Rightarrow> ('s \<Rightarrow> Platform \<times> u32 \<times> u32 \<Rightarrow> 's) \<Rightarrow> 's \<Rightarrow> 's option" where
  "forEachSupportedPlatform m handler s =
     walkAsserting m (\<lambda>s c.
       Some (case platform_of_command m c of Some p \<Rightarrow> handler s p | None \<Rightarrow> s, False)) s"

definition supported_platforms :: "memory \<Rightarrow> (Platform \<times> u32 \<times> u32) list" where
  "supported_platforms m = List.map_filter (platform_of_command m) (load_commands m)"

lemma foldl_map_filter:
  "foldl (\<lambda>s x. case g x of Some y \<Rightarrow> h s y | None \<Rightarrow> s) s xs = foldl h s (List.map_filter g xs)"
  by (induction xs arbitrary: s) (auto simp: map_filter_simps split: option.splits)

lemma forEachSupportedPlatform_fold [walk_simps]:
  "forEachSupportedPlatform m h s =
     (if malformed_commands m then None else Some (foldl h s (supported_platforms m)))"
  by (simp add: forEachSupportedPlatform_def supported_platforms_def lcs.walk_fold foldl_map_filter)

definition builtForPlatform :: "build \<Rightarrow> memory \<Rightarrow> Platform \<Rightarrow> bool \<Rightarrow> bool option" where
  "builtForPlatform B m reqPlatform onlyOnePlatform =
     map_option (\<lambda>(foundRequestedPlatform, foundOtherPlatform).
         if foundOtherPlatform \<and> onlyOnePlatform then False
         else if foundRequestedPlatform then True
         else if \<not> foundOtherPlatform \<and> reqPlatform = Platform_macOS \<and> mh_cputype m = CPU_TYPE_X86_64 then True
         else if \<not> foundOtherPlatform \<and> reqPlatform = Platform_macOS \<and> mh_cputype m = CPU_TYPE_I386 then True
         else if BUILDING_DYLDINFO B \<and> \<not> foundOtherPlatform \<and> reqPlatform = Platform_unknown then True
         else False)
       (forEachSupportedPlatform m
          (\<lambda>(foundRequestedPlatform, foundOtherPlatform) (platform, minOS, sdk).
             if platform = reqPlatform then (True, foundOtherPlatform)
             else (foundRequestedPlatform, True))
          (False, False))"

definition macOSHost :: "string list" where
  "macOSHost =
     [''/usr/lib/system/libsystem_kernel.dylib'',
      ''/usr/lib/system/libsystem_platform.dylib'',
      ''/usr/lib/system/libsystem_pthread.dylib'',
      ''/usr/lib/system/libsystem_platform_debug.dylib'',
      ''/usr/lib/system/libsystem_pthread_debug.dylib'',
      ''/usr/lib/system/host/liblaunch_sim.dylib'']"

text \<open>\<open>a && m->builtForPlatform(...)\<close>: the walk runs, and may abort, only when \<open>a\<close> holds.\<close>

definition andAlso :: "bool \<Rightarrow> bool option \<Rightarrow> bool option" where
  "andAlso a b = (if a then b else Some False)"

definition loadableIntoProcess :: "build \<Rightarrow> memory \<Rightarrow> Platform \<Rightarrow> string \<Rightarrow> bool option" where
  "loadableIntoProcess B m processPlatform path =
     (let exec = (mh_filetype m = MH_EXECUTE);
          iOSonMac = (processPlatform = Platform_iOSMac \<or>
                      (TARGET_OS_OSX_arm64 B \<and> processPlatform = Platform_iOS))
      in
      Option.bind (builtForPlatform B m processPlatform False) (\<lambda>b. if b then Some True else
      Option.bind (andAlso (isSimulatorPlatform processPlatform)
                     (builtForPlatform B m Platform_macOS False)) (\<lambda>b.
        if b \<and> path \<in> set macOSHost then Some True else
      Option.bind (andAlso (exec \<and> processPlatform = Platform_macOS)
                     (builtForPlatform B m Platform_iOSMac True)) (\<lambda>b. if b then Some True else
      Option.bind (andAlso (TARGET_OS_OSX_arm64 B \<and> exec \<and> processPlatform = Platform_macOS)
                     (builtForPlatform B m Platform_iOS True)) (\<lambda>b. if b then Some True else
      Option.bind (andAlso (TARGET_OS_OSX_arm64 B \<and> processPlatform = Platform_iOS)
                     (builtForPlatform B m Platform_iOSMac False)) (\<lambda>b. if b then Some True else
      andAlso iOSonMac (builtForPlatform B m Platform_macOS True)))))))"

definition isZippered :: "memory \<Rightarrow> bool option" where
  "isZippered m =
     map_option (\<lambda>(macOS, iOSMac). macOS \<and> iOSMac)
       (forEachSupportedPlatform m
          (\<lambda>(macOS, iOSMac) (platform, minOS, sdk).
             if platform = Platform_macOS then (True, iOSMac)
             else if platform = Platform_iOSMac then (macOS, True)
             else (macOS, iOSMac))
          (False, False))"

definition enforceCompatVersion :: "memory \<Rightarrow> bool option" where
  "enforceCompatVersion m =
     forEachSupportedPlatform m
       (\<lambda>result (platform, minOS, sdk).
          if platform = Platform_macOS then (if minOS \<ge> 0x000A0E00 then False else result)
          else if platform = Platform_iOS \<or> platform = Platform_tvOS \<or>
                  platform = Platform_iOS_simulator \<or> platform = Platform_tvOS_simulator
          then (if minOS \<ge> 0x000C0000 then False else result)
          else if platform = Platform_watchOS \<or> platform = Platform_watchOS_simulator
          then (if minOS \<ge> 0x00050000 then False else result)
          else if platform = Platform_bridgeOS then (if minOS \<ge> 0x00030000 then False else result)
          else if platform = Platform_driverKit \<or> platform = Platform_iOSMac then False
          else result)
       True"

section \<open>Properties\<close>

lemma walk_value_list: "walk_value m f s = fst (the (forStop (\<lambda>s c. Some (f s c)) s (load_commands m)))"
proof -
  have "\<exists>r b. forStop (\<lambda>s c. Some (f s c)) s xs = Some (r, b)" for s xs
    by (induction xs arbitrary: s) (auto split: prod.splits)
  then obtain r b where "forStop (\<lambda>s c. Some (f s c)) s (load_commands m) = Some (r, b)" by blast
  then show ?thesis
    by (simp add: walk_value_def forEachLoadCommand_list)
qed

lemma hasLoadCommand_iff: "hasLoadCommand m n \<longleftrightarrow> (\<exists>c\<in>set (load_commands m). lc_cmd m c = n)"
proof -
  have eq: "(\<lambda>s c. Some (if lc_cmd m c = n then (True, True) else (s, False))) =
      (\<lambda>s c. if lc_cmd m c = n then Some (True, True) else Some (s, False))"
    by (intro ext) simp
  show ?thesis
    unfolding hasLoadCommand_def walk_value_list eq forStop_find
    by (auto simp: find_None_iff find_Some_iff split: option.splits)
qed

lemma executable_kind:
  "mh_filetype m = MH_EXECUTE \<Longrightarrow> isStaticExecutable m \<longleftrightarrow> \<not> isDynamicExecutable m"
  by (simp add: isStaticExecutable_def isDynamicExecutable_def)

text \<open>The dependents in load order: the reference of \<open>forEachDependentDylib\<close>.\<close>

definition dependents :: "memory \<Rightarrow> Dependent list" where
  "dependents m = map (dependent_at m) (filter (\<lambda>c. isDependentCommand (lc_cmd m c)) (load_commands m))"

lemma forStop_filter:
  "forStop (\<lambda>s c. if P c then f s c else Some (s, False)) s cs = forStop f s (filter P cs)"
proof (induction cs arbitrary: s)
  case (Cons c cs)
  then show ?case by (cases "f s c") (auto split: prod.splits)
qed simp

interpretation deps: block_walk dependents malformed_commands forEachDependentDylib
  by unfold_locales
    (simp add: forEachDependentDylib_def lcs.walk_items dependents_def forStop_map forStop_filter)


text \<open>The platforms named by the load commands, and the two flags every block collects from them.\<close>

abbreviation platforms :: "memory \<Rightarrow> Platform list" where
  "platforms m \<equiv> map fst (supported_platforms m)"

lemma foldl_found_flags:
  "foldl (\<lambda>(found, other) (p, minOS, sdk). if p = q then (True, other) else (found, True)) (a, b) ps
     = (a \<or> q \<in> fst ` set ps, b \<or> (\<exists>p\<in>fst ` set ps. p \<noteq> q))"
  by (induction ps arbitrary: a b) (auto split: if_splits)

lemma foldl_zippered_flags:
  "foldl (\<lambda>(macOS, iOSMac) (p, minOS, sdk).
       if p = Platform_macOS then (True, iOSMac) else if p = Platform_iOSMac then (macOS, True)
       else (macOS, iOSMac)) (a, b) ps
     = (a \<or> Platform_macOS \<in> fst ` set ps, b \<or> Platform_iOSMac \<in> fst ` set ps)"
  by (induction ps arbitrary: a b) (auto split: if_splits)

text \<open>Whether a binary counts as built for a platform, from the platforms it names.\<close>

definition built_for :: "build \<Rightarrow> u32 \<Rightarrow> Platform list \<Rightarrow> Platform \<Rightarrow> bool" where
  "built_for B cpu ps p \<longleftrightarrow> p \<in> set ps
     \<or> ps = [] \<and> p = Platform_macOS \<and> (cpu = CPU_TYPE_X86_64 \<or> cpu = CPU_TYPE_I386)
     \<or> ps = [] \<and> p = Platform_unknown \<and> BUILDING_DYLDINFO B"

lemma builtForPlatform_iff:
  assumes "\<not> malformed_commands m"
  shows "builtForPlatform B m p onlyOne =
    Some (built_for B (mh_cputype m) (platforms m) p \<and> (onlyOne \<longrightarrow> set (platforms m) \<subseteq> {p}))"
proof -
  define ps where "ps = platforms m"
  have run: "forEachSupportedPlatform m
      (\<lambda>(found, other) (q, minOS, sdk). if q = p then (True, other) else (found, True)) (False, False)
      = Some (p \<in> set ps, \<exists>q\<in>set ps. q \<noteq> p)"
    using assms by (simp add: forEachSupportedPlatform_fold foldl_found_flags ps_def)
  define found other where "found = (p \<in> set ps)" and "other = (\<exists>q\<in>set ps. q \<noteq> p)"
  have empty: "ps = [] \<longleftrightarrow> \<not> found \<and> \<not> other" and sub: "set ps \<subseteq> {p} \<longleftrightarrow> \<not> other"
    unfolding found_def other_def by (cases ps) auto
  show ?thesis
    unfolding builtForPlatform_def run ps_def [symmetric] built_for_def sub empty
      found_def [symmetric] other_def [symmetric]
    by (cases found; cases other) auto
qed

lemma isZippered_iff:
  "\<not> malformed_commands m \<Longrightarrow>
   isZippered m = Some (Platform_macOS \<in> set (platforms m) \<and> Platform_iOSMac \<in> set (platforms m))"
  by (simp add: isZippered_def forEachSupportedPlatform_fold foldl_zippered_flags)

text \<open>The loading policy as a relation between the platforms a binary names and the process.\<close>

definition loadable :: "build \<Rightarrow> u32 \<Rightarrow> bool \<Rightarrow> Platform list \<Rightarrow> Platform \<Rightarrow> string \<Rightarrow> bool" where
  "loadable B cpu exec ps p path \<longleftrightarrow>
     (let only = (\<lambda>q. built_for B cpu ps q \<and> set ps \<subseteq> {q})
      in built_for B cpu ps p
       \<or> isSimulatorPlatform p \<and> built_for B cpu ps Platform_macOS \<and> path \<in> set macOSHost
       \<or> exec \<and> p = Platform_macOS \<and> (only Platform_iOSMac \<or> TARGET_OS_OSX_arm64 B \<and> only Platform_iOS)
       \<or> p = Platform_iOSMac \<and> only Platform_macOS
       \<or> TARGET_OS_OSX_arm64 B \<and> p = Platform_iOS
           \<and> (built_for B cpu ps Platform_iOSMac \<or> only Platform_macOS))"

text \<open>
  C35: \<open>loadableIntoProcess\<close> on a file whose load commands walk without error decides by the
  platforms the file names alone (an Intel file that names none counts as macOS): the
  process's own platform; a macOS build of the six host dylibs in a simulator; a Catalyst-only
  main executable (on arm64 macOS also an iOS-only one) where macOS is expected; a macOS-only
  binary in a Catalyst process; and on arm64 macOS a Catalyst or macOS-only binary in an iOS
  process. It never ends in an assertion.
\<close>

theorem loadableIntoProcess_policy:
  assumes "\<not> malformed_commands m"
  shows "loadableIntoProcess B m p path =
    Some (loadable B (mh_cputype m) (mh_filetype m = MH_EXECUTE) (platforms m) p path)"
  by (auto simp: loadableIntoProcess_def loadable_def builtForPlatform_iff [OF assms] andAlso_def Let_def)

text \<open>A macOS dylib for x86\_64 with one \<open>LC_BUILD_VERSION\<close> command.\<close>

definition macOS_dylib :: memory where
  "macOS_dylib = mem_words [0xFEEDFACF, 0x01000007, 3, 6, 1, 24, 0, 0, 0x32, 24, 1, 0x000A0E00, 0x000A0F00, 0]"

lemma macOS_dylib_facts:
  "\<not> malformed_commands macOS_dylib" "platforms macOS_dylib = [Platform_macOS]" "mh_filetype macOS_dylib = 6"
  by (simp_all add: macOS_dylib_def walk_eval supported_platforms_def platform_of_command_def Let_def
      List.map_filter_simps)

theorem loadableIntoProcess_policy_witness:
  "loadableIntoProcess dyld_build macOS_dylib Platform_iOSMac ''/tmp/x.dylib'' = Some True
   \<and> loadableIntoProcess dyld_build macOS_dylib Platform_iOS ''/tmp/x.dylib'' = Some False"
  using loadableIntoProcess_policy [OF macOS_dylib_facts(1)]
  by (simp add: macOS_dylib_facts loadable_def built_for_def dyld_build_def isSimulatorPlatform_def)

end
