(* ===== verification/MachO_Segments.thy ===== *)
theory MachO_Segments
  imports MachO_Queries
begin

text \<open>
  \<open>forEachSegment\<close> and \<open>forEachSection\<close> of \<open>src/dyld3/MachOFile.cpp\<close> with the two records they
  hand to their blocks, and the queries on sections. \<open>segments\<close> and \<open>sections\<close> are the reference
  lists; both walks are interpretations of \<open>block_walk\<close>.
\<close>

abbreviation (input) "VM_PROT_READ \<equiv> 1 :: u32"
abbreviation (input) "VM_PROT_WRITE \<equiv> 2 :: u32"
abbreviation (input) "VM_PROT_EXECUTE \<equiv> 4 :: u32"
abbreviation (input) "SG_PROTECTED_VERSION_1 \<equiv> 0x8 :: u32"
abbreviation (input) "SG_READ_ONLY \<equiv> 0x10 :: u32"
abbreviation (input) "SECTION_TYPE \<equiv> 0xFF :: u32"
abbreviation (input) "S_INTERPOSING \<equiv> 0xD :: u32"
abbreviation (input) "S_ATTR_EXT_RELOC \<equiv> 0x200 :: u32"
abbreviation (input) "S_ATTR_LOC_RELOC \<equiv> 0x100 :: u32"

section \<open>Segments\<close>

text \<open>\<open>segName\<close> is the address of the 16-byte name in the command.\<close>

record SegmentInfo =
  fileOffset :: u64
  fileSize :: u64
  vmAddr :: u64
  vmSize :: u64
  sizeOfSections :: u64
  segName :: nat
  loadCommandOffset :: u32
  protections :: u32
  textRelocs :: bool
  readOnlyData :: bool
  isProtected :: bool
  segIndex :: "13 word"
  p2align :: u16

definition seg_readable :: "SegmentInfo \<Rightarrow> bool" where
  "seg_readable info \<longleftrightarrow> protections info AND VM_PROT_READ \<noteq> 0"

definition seg_writable :: "SegmentInfo \<Rightarrow> bool" where
  "seg_writable info \<longleftrightarrow> protections info AND VM_PROT_WRITE \<noteq> 0"

definition seg_executable :: "SegmentInfo \<Rightarrow> bool" where
  "seg_executable info \<longleftrightarrow> protections info AND VM_PROT_EXECUTE \<noteq> 0"

text \<open>The addresses of the section headers behind a segment command.\<close>

definition sections64 :: "memory \<Rightarrow> nat \<Rightarrow> nat list" where
  "sections64 m c = map (\<lambda>k. c + 72 + 80 * k) [0 ..< unat (read32 m (c + 64))]"

definition sections32 :: "memory \<Rightarrow> nat \<Rightarrow> nat list" where
  "sections32 m c = map (\<lambda>k. c + 56 + 68 * k) [0 ..< unat (read32 m (c + 48))]"

text \<open>The loop over the sections: \<open>sizeOfSections\<close> of the last one and the largest alignment (a byte).\<close>

definition section_scan64 :: "memory \<Rightarrow> nat \<Rightarrow> u64 \<times> u8" where
  "section_scan64 m c =
     foldl (\<lambda>(sizeOfSections, p2align) sect.
         (read64 m (sect + 32) + read64 m (sect + 40) - read64 m (c + 24),
          if read32 m (sect + 52) > ucast p2align then ucast (read32 m (sect + 52)) else p2align))
       (read64 m (c + 32), 0) (sections64 m c)"

definition section_scan32 :: "memory \<Rightarrow> nat \<Rightarrow> u64 \<times> u8 \<times> bool" where
  "section_scan32 m c =
     foldl (\<lambda>(sizeOfSections, p2align, hasTextRelocs) sect.
         (ucast (read32 m (sect + 32) + read32 m (sect + 36) - read32 m (c + 24)),
          if read32 m (sect + 44) > ucast p2align then ucast (read32 m (sect + 44)) else p2align,
          hasTextRelocs \<or> read32 m (sect + 56) AND (S_ATTR_EXT_RELOC OR S_ATTR_LOC_RELOC) \<noteq> 0))
       (ucast (read32 m (c + 28)), 0, False) (sections32 m c)"

definition segment_info64 :: "memory \<Rightarrow> u32 \<Rightarrow> nat \<Rightarrow> SegmentInfo" where
  "segment_info64 m index c =
     (let (size, align) = section_scan64 m c
      in \<lparr>fileOffset = read64 m (c + 40), fileSize = read64 m (c + 48),
          vmAddr = read64 m (c + 24), vmSize = read64 m (c + 32),
          sizeOfSections = size, segName = c + 8, loadCommandOffset = of_nat c,
          protections = read32 m (c + 60), textRelocs = False,
          readOnlyData = (read32 m (c + 68) AND SG_READ_ONLY \<noteq> 0),
          isProtected = (read32 m (c + 68) AND SG_PROTECTED_VERSION_1 \<noteq> 0),
          segIndex = ucast index, p2align = ucast align\<rparr>)"

definition segment_info32 :: "memory \<Rightarrow> u32 \<Rightarrow> nat \<Rightarrow> SegmentInfo" where
  "segment_info32 m index c =
     (let (size, align, hasTextRelocs) = section_scan32 m c; initprot = read32 m (c + 44)
      in \<lparr>fileOffset = ucast (read32 m (c + 32)), fileSize = ucast (read32 m (c + 36)),
          vmAddr = ucast (read32 m (c + 24)), vmSize = ucast (read32 m (c + 28)),
          sizeOfSections = size, segName = c + 8, loadCommandOffset = of_nat c,
          protections = initprot,
          textRelocs = (mh_cputype m = CPU_TYPE_I386 \<and> initprot AND VM_PROT_WRITE = 0 \<and> hasTextRelocs),
          readOnlyData = (read32 m (c + 52) AND SG_READ_ONLY \<noteq> 0),
          isProtected = (read32 m (c + 52) AND SG_PROTECTED_VERSION_1 \<noteq> 0),
          segIndex = ucast index, p2align = ucast align\<rparr>)"

definition forEachSegment ::
    "memory \<Rightarrow> ('s \<Rightarrow> SegmentInfo \<Rightarrow> ('s \<times> bool) option) \<Rightarrow> 's \<Rightarrow> 's option" where
  "forEachSegment m callback s =
     map_option fst (walkAsserting m (\<lambda>(s, segIndex) c.
       if lc_cmd m c = LC_SEGMENT_64 then
         Option.bind (callback s (segment_info64 m segIndex c)) (\<lambda>(s', stop). Some ((s', segIndex + 1), stop))
       else if lc_cmd m c = LC_SEGMENT then
         Option.bind (callback s (segment_info32 m segIndex c)) (\<lambda>(s', stop). Some ((s', segIndex + 1), stop))
       else Some ((s, segIndex), False)) (s, 0))"

section \<open>Sections\<close>

text \<open>
  \<open>sectName\<close> is the name the block sees: the up to 16 characters before a NUL, read in place or
  copied to the 20-byte buffer when the field has no NUL at its end.
\<close>

record SectionInfo =
  segInfo :: SegmentInfo
  sectAddr :: u64
  sectSize :: u64
  sectName :: "u8 list"
  sectFileOffset :: u32
  sectFlags :: u32
  sectAlignP2 :: u32
  sect_reserved1 :: u32
  sect_reserved2 :: u32

definition field_name :: "memory \<Rightarrow> nat \<Rightarrow> u8 list" where
  "field_name m p = takeWhile (\<lambda>b. b \<noteq> 0) (map m [p ..< p + 16])"

definition section_info64 :: "memory \<Rightarrow> SegmentInfo \<Rightarrow> nat \<Rightarrow> nat \<Rightarrow> SectionInfo \<times> bool" where
  "section_info64 m info c sect =
     (\<lparr>segInfo = info, sectAddr = read64 m (sect + 32), sectSize = read64 m (sect + 40),
       sectName = field_name m sect, sectFileOffset = read32 m (sect + 48),
       sectFlags = read32 m (sect + 64), sectAlignP2 = read32 m (sect + 52),
       sect_reserved1 = read32 m (sect + 68), sect_reserved2 = read32 m (sect + 72)\<rparr>,
      read64 m (sect + 32) < read64 m (c + 24) \<or>
      greaterThanAddOrOverflow (read64 m (sect + 32)) (read64 m (sect + 40))
        (read64 m (c + 24) + read64 m (c + 48)))"

definition section_info32 :: "memory \<Rightarrow> SegmentInfo \<Rightarrow> nat \<Rightarrow> nat \<Rightarrow> SectionInfo \<times> bool" where
  "section_info32 m info c sect =
     (\<lparr>segInfo = info, sectAddr = ucast (read32 m (sect + 32)), sectSize = ucast (read32 m (sect + 36)),
       sectName = field_name m sect, sectFileOffset = read32 m (sect + 40),
       sectFlags = read32 m (sect + 56), sectAlignP2 = read32 m (sect + 44),
       sect_reserved1 = read32 m (sect + 60), sect_reserved2 = read32 m (sect + 64)\<rparr>,
      read32 m (sect + 32) < read32 m (c + 24) \<or>
      greaterThanAddOrOverflow (read32 m (sect + 32)) (read32 m (sect + 36))
        (read32 m (c + 24) + read32 m (c + 36)))"

definition forEachSection ::
    "memory \<Rightarrow> ('s \<Rightarrow> SectionInfo \<times> bool \<Rightarrow> ('s \<times> bool) option) \<Rightarrow> 's \<Rightarrow> 's option" where
  "forEachSection m callback s =
     map_option fst (walkAsserting m (\<lambda>(s, segIndex) c.
       if lc_cmd m c = LC_SEGMENT_64 then
         Option.bind (forStop (\<lambda>s sect. callback s (section_info64 m (segment_info64 m segIndex c) c sect))
                        s (sections64 m c)) (\<lambda>(s', stop). Some ((s', segIndex + 1), stop))
       else if lc_cmd m c = LC_SEGMENT then
         Option.bind (forStop (\<lambda>s sect. callback s (section_info32 m (segment_info32 m segIndex c) c sect))
                        s (sections32 m c)) (\<lambda>(s', stop). Some ((s', segIndex + 1), stop))
       else Some ((s, segIndex), False)) (s, 0))"

text \<open>\<open>strcmp(info.sectName, lit) == 0\<close>.\<close>

definition sectName_is :: "SectionInfo \<Rightarrow> string \<Rightarrow> bool" where
  "sectName_is info name \<longleftrightarrow> sectName info = map of_char name"

definition isInterposingSection :: "memory \<Rightarrow> SectionInfo \<Rightarrow> bool" where
  "isInterposingSection m info \<longleftrightarrow>
     sectFlags info AND SECTION_TYPE = S_INTERPOSING \<or>
     sectName_is info ''__interpose'' \<and> strcmp_eq m (segName (segInfo info)) ''__DATA''"

definition hasInterposingTuples :: "memory \<Rightarrow> bool option" where
  "hasInterposingTuples m =
     forEachSection m (\<lambda>hasInterposing (info, malformedSectionRange).
       Some (hasInterposing \<or> isInterposingSection m info, False)) False"

definition allowsAlternatePlatform :: "memory \<Rightarrow> bool option" where
  "allowsAlternatePlatform m =
     forEachSection m (\<lambda>result (info, malformedSectionRange).
       if sectName_is info ''__allow_alt_plat'' \<and> strncmp_eq m (segName (segInfo info)) ''__DATA''
       then Some (True, True) else Some (result, False)) False"

section \<open>The reference lists\<close>

text \<open>A list mapped with the running index a block keeps.\<close>

fun indexed :: "(u32 \<Rightarrow> 'a \<Rightarrow> 'b) \<Rightarrow> u32 \<Rightarrow> 'a list \<Rightarrow> 'b list" where
  "indexed h i [] = []"
| "indexed h i (x # xs) = h i x # indexed h (i + 1) xs"

lemma length_indexed [simp]: "length (indexed h i xs) = length xs"
  by (induction xs arbitrary: i) auto

lemma nth_indexed: "k < length xs \<Longrightarrow> indexed h i xs ! k = h (i + of_nat k) (xs ! k)"
  by (induction xs arbitrary: i k) (auto simp: less_Suc_eq_0_disj ac_simps)

lemma map_indexed: "(\<And>i x. x \<in> set xs \<Longrightarrow> g (h i x) = k x) \<Longrightarrow> map g (indexed h i xs) = map k xs"
  by (induction xs arbitrary: i) auto

lemma set_indexed: "y \<in> set (indexed h i xs) \<Longrightarrow> \<exists>j. \<exists>x\<in>set xs. y = h j x"
  by (induction xs arbitrary: i) (simp, fastforce)

definition drop_index :: "(('s \<times> u32) \<times> bool) \<Rightarrow> 's \<times> bool" where
  "drop_index r = (fst (fst r), snd r)"

lemma forStop_indexed:
  "map_option drop_index (forStop (\<lambda>(s, i) x.
       if P x then Option.bind (f s (h i x)) (\<lambda>(s', stop). Some ((s', i + 1), stop))
       else Some ((s, i), False)) (s, i) xs)
   = forStop f s (indexed h i (filter P xs))"
proof (induction xs arbitrary: s i)
  case Nil
  then show ?case by (simp add: drop_index_def)
next
  case (Cons x xs)
  then show ?case
    by (cases "f s (h i x)") (auto simp: drop_index_def)
qed

lemma forStop_concat: "forStop (forStop f) s xss = forStop f s (concat xss)"
proof (induction xss arbitrary: s)
  case (Cons xs xss)
  then show ?case
    by (cases "forStop f s xs") (auto simp: forStop_append)
qed simp

lemma walk_drop_index:
  "map_option fst (Option.bind r (\<lambda>(s', stop). if stop \<or> ok then Some s' else None)) =
     Option.bind (map_option drop_index r) (\<lambda>(s', stop). if stop \<or> ok then Some s' else None)"
  by (cases r) (auto simp: drop_index_def)

definition is_segment_command :: "memory \<Rightarrow> nat \<Rightarrow> bool" where
  "is_segment_command m c \<longleftrightarrow> lc_cmd m c = LC_SEGMENT_64 \<or> lc_cmd m c = LC_SEGMENT"

definition segment_commands :: "memory \<Rightarrow> nat list" where
  "segment_commands m = filter (is_segment_command m) (load_commands m)"

definition segment_info :: "memory \<Rightarrow> u32 \<Rightarrow> nat \<Rightarrow> SegmentInfo" where
  "segment_info m i c = (if lc_cmd m c = LC_SEGMENT_64 then segment_info64 m i c else segment_info32 m i c)"

definition segments :: "memory \<Rightarrow> SegmentInfo list" where
  "segments m = indexed (segment_info m) 0 (segment_commands m)"

definition section_infos :: "memory \<Rightarrow> u32 \<Rightarrow> nat \<Rightarrow> (SectionInfo \<times> bool) list" where
  "section_infos m i c =
     (if lc_cmd m c = LC_SEGMENT_64 then map (section_info64 m (segment_info64 m i c) c) (sections64 m c)
      else map (section_info32 m (segment_info32 m i c) c) (sections32 m c))"

definition sections :: "memory \<Rightarrow> (SectionInfo \<times> bool) list" where
  "sections m = concat (indexed (section_infos m) 0 (segment_commands m))"

interpretation segs: block_walk segments malformed_commands forEachSegment
proof
  fix m :: memory and f :: "'s \<Rightarrow> SegmentInfo \<Rightarrow> ('s \<times> bool) option" and s
  have "(\<lambda>(s, i) c. if lc_cmd m c = LC_SEGMENT_64
           then Option.bind (f s (segment_info64 m i c)) (\<lambda>(s', stop). Some ((s', i + 1), stop))
           else if lc_cmd m c = LC_SEGMENT
           then Option.bind (f s (segment_info32 m i c)) (\<lambda>(s', stop). Some ((s', i + 1), stop))
           else Some ((s, i), False))
      = (\<lambda>(s, i) c. if is_segment_command m c
           then Option.bind (f s (segment_info m i c)) (\<lambda>(s', stop). Some ((s', i + 1), stop))
           else Some ((s, i), False))"
    by (intro ext) (auto simp: is_segment_command_def segment_info_def)
  then show "forEachSegment m f s = Option.bind (forStop f s (segments m))
      (\<lambda>(s', stop). if stop \<or> \<not> malformed_commands m then Some s' else None)"
    by (simp add: forEachSegment_def lcs.walk_items walk_drop_index forStop_indexed segments_def
        segment_commands_def)
qed

interpretation sects: block_walk sections malformed_commands forEachSection
proof
  fix m :: memory and f :: "'s \<Rightarrow> SectionInfo \<times> bool \<Rightarrow> ('s \<times> bool) option" and s
  have "(\<lambda>(s, i) c. if lc_cmd m c = LC_SEGMENT_64
           then Option.bind (forStop (\<lambda>s sect. f s (section_info64 m (segment_info64 m i c) c sect)) s (sections64 m c))
                  (\<lambda>(s', stop). Some ((s', i + 1), stop))
           else if lc_cmd m c = LC_SEGMENT
           then Option.bind (forStop (\<lambda>s sect. f s (section_info32 m (segment_info32 m i c) c sect)) s (sections32 m c))
                  (\<lambda>(s', stop). Some ((s', i + 1), stop))
           else Some ((s, i), False))
      = (\<lambda>(s, i) c. if is_segment_command m c
           then Option.bind (forStop f s (section_infos m i c)) (\<lambda>(s', stop). Some ((s', i + 1), stop))
           else Some ((s, i), False))"
    by (intro ext) (auto simp: is_segment_command_def section_infos_def forStop_map)
  then show "forEachSection m f s = Option.bind (forStop f s (sections m))
      (\<lambda>(s', stop). if stop \<or> \<not> malformed_commands m then Some s' else None)"
    by (simp add: forEachSection_def lcs.walk_items walk_drop_index forStop_indexed sections_def
        segment_commands_def flip: forStop_concat)
qed

section \<open>Properties\<close>

lemma segments_length: "length (segments m) = length (segment_commands m)"
  by (simp add: segments_def)

lemma ucast_index: "(ucast (of_nat k :: u32) :: 13 word) = of_nat k"
  by (simp add: word_unat_eq_iff unsigned_ucast_eq unat_of_nat take_bit_eq_mod mod_mod_cancel)

lemma segments_index:
  "k < length (segments m) \<Longrightarrow>
   segIndex (segments m ! k) = of_nat k \<and> segName (segments m ! k) = segment_commands m ! k + 8"
  by (auto simp: segments_def nth_indexed segment_info_def segment_info64_def segment_info32_def Let_def ucast_index
      split: prod.splits)

lemma hasInterposingTuples_iff:
  "hasInterposingTuples m =
     (if malformed_commands m then None else Some (\<exists>p\<in>set (sections m). isInterposingSection m (fst p)))"
proof -
  have "foldl (\<lambda>h p. h \<or> isInterposingSection m (fst p)) b ps
      \<longleftrightarrow> b \<or> (\<exists>p\<in>set ps. isInterposingSection m (fst p))" for b and ps :: "(SectionInfo \<times> bool) list"
    by (induction ps arbitrary: b) auto
  then show ?thesis
    by (simp add: hasInterposingTuples_def case_prod_beta' sects.walk_fold
        [of m "\<lambda>h p. h \<or> isInterposingSection m (fst p)"])
qed

end
