(* ===== verification/Fat_File.thy ===== *)
theory Fat_File
  imports MachO_Queries
begin

text \<open>
  \<open>FatFile\<close> of \<open>src/dyld3/MachOFile.cpp\<close>: the universal-file header, the validation of a slice
  and the choice of the slice that fits the process best.
\<close>

abbreviation (input) "FAT_MAGIC \<equiv> 0xCAFEBABE :: u32"
abbreviation (input) "FAT_MAGIC_64 \<equiv> 0xCAFEBABF :: u32"

definition fat_magic :: "memory \<Rightarrow> u32" where "fat_magic m = read32 m 0"

definition isFatFile :: "memory \<Rightarrow> bool" where
  "isFatFile m \<longleftrightarrow> fat_magic m = OSSwapBigToHostInt32 FAT_MAGIC \<or> fat_magic m = OSSwapBigToHostInt32 FAT_MAGIC_64"

record FatSlice =
  sliceCpuType :: u32
  sliceCpuSubType :: u32
  sliceStart :: u64
  sliceSize :: u64

definition isValidSlice :: "memory \<Rightarrow> diag \<Rightarrow> u64 \<Rightarrow> FatSlice \<Rightarrow> bool \<times> diag" where
  "isValidSlice m d fileLen sl =
     (if greaterThanAddOrOverflow (sliceStart sl) (sliceSize sl) fileLen then
        (False, error ''slice %d extends beyond end of file'' d)
      else
        (let mf = shift_mem (unat (sliceStart sl)) m; (ok, d1) = isMachO d mf (sliceSize sl)
         in if \<not> ok then (False, d1)
            else if mh_cputype mf \<noteq> sliceCpuType sl \<or> mh_cpusubtype mf \<noteq> sliceCpuSubType sl then
              (False, error ''cpu type/subtype mismatch'' d1)
            else if sliceStart sl AND (if uses16KPages mf then 0x3FFF else 0xFFF) \<noteq> 0 then
              (False, error (if strncmp_eq m (unat (sliceStart sl)) ''!<arch>''
                             then ''file is static library'' else ''slice is not page aligned'') d1)
            else (True, d1)))"

text \<open>Entry \<open>i\<close> of the table behind the 8-byte header: 20 bytes each, or 32 in the 64-bit form.\<close>

definition fat_arch :: "memory \<Rightarrow> nat \<Rightarrow> FatSlice" where
  "fat_arch m i =
     (let a = 8 + 20 * i
      in \<lparr>sliceCpuType = OSSwapBigToHostInt32 (read32 m a),
          sliceCpuSubType = OSSwapBigToHostInt32 (read32 m (a + 4)),
          sliceStart = ucast (OSSwapBigToHostInt32 (read32 m (a + 8))),
          sliceSize = ucast (OSSwapBigToHostInt32 (read32 m (a + 12)))\<rparr>)"

definition fat_arch_64 :: "memory \<Rightarrow> nat \<Rightarrow> FatSlice" where
  "fat_arch_64 m i =
     (let a = 8 + 32 * i
      in \<lparr>sliceCpuType = OSSwapBigToHostInt32 (read32 m a),
          sliceCpuSubType = OSSwapBigToHostInt32 (read32 m (a + 4)),
          sliceStart = OSSwapBigToHostInt64 (read64 m (a + 8)),
          sliceSize = OSSwapBigToHostInt64 (read64 m (a + 16))\<rparr>)"

definition nfat_arch :: "memory \<Rightarrow> u32" where
  "nfat_arch m = OSSwapBigToHostInt32 (read32 m 4)"

text \<open>\<open>(4096 - sizeof(fat_header)) / sizeof(fat_arch)\<close>, in both forms of the table.\<close>

definition maxArchs :: nat where "maxArchs = (4096 - 8) div 20"

text \<open>One entry: the block runs when the slice is valid.\<close>

definition visit_slice ::
    "memory \<Rightarrow> u64 \<Rightarrow> ('s \<Rightarrow> FatSlice \<Rightarrow> 's \<times> bool) \<Rightarrow> 's \<times> diag \<Rightarrow> FatSlice \<Rightarrow> ('s \<times> diag) \<times> bool" where
  "visit_slice m fileLen callback sd sl =
     (let (s, d) = sd; (ok, d') = isValidSlice m d fileLen sl
      in if ok then (let (s', stop) = callback s sl in ((s', d'), stop)) else ((s, d'), False))"

fun slice_loop ::
    "memory \<Rightarrow> u64 \<Rightarrow> ('s \<Rightarrow> FatSlice \<Rightarrow> 's \<times> bool) \<Rightarrow> 's \<times> diag \<Rightarrow> FatSlice list \<Rightarrow> 's \<times> diag" where
  "slice_loop m fileLen callback sd [] = sd"
| "slice_loop m fileLen callback sd (sl # sls) =
     (let (sd', stop) = visit_slice m fileLen callback sd sl
      in if stop then sd' else slice_loop m fileLen callback sd' sls)"

definition isHiddenArm64 :: "FatSlice \<Rightarrow> bool" where
  "isHiddenArm64 sl \<longleftrightarrow> sliceCpuType sl = CPU_TYPE_ARM64
     \<and> (sliceCpuSubType sl = CPU_SUBTYPE_ARM64_ALL \<or> sliceCpuSubType sl = CPU_SUBTYPE_ARM64_V8)"

text \<open>The extra entry is tried after the loop even when the block has stopped it.\<close>

definition forEachSlice ::
    "memory \<Rightarrow> diag \<Rightarrow> u64 \<Rightarrow> ('s \<Rightarrow> FatSlice \<Rightarrow> 's \<times> bool) \<Rightarrow> 's \<Rightarrow> 's \<times> diag" where
  "forEachSlice m d fileLen callback s =
     (let numArchs = unat (nfat_arch m) in
      if fat_magic m = OSSwapBigToHostInt32 FAT_MAGIC then
        (if numArchs > maxArchs then (s, error ''fat header too large: %u entries'' d)
         else
           (let sd = slice_loop m fileLen callback (s, d) (map (fat_arch m) [0 ..< numArchs])
            in if numArchs \<noteq> maxArchs \<and> isHiddenArm64 (fat_arch m numArchs)
               then fst (visit_slice m fileLen callback sd (fat_arch m numArchs))
               else sd))
      else if fat_magic m = OSSwapBigToHostInt32 FAT_MAGIC_64 then
        (if numArchs > maxArchs then (s, error ''fat header too large: %u entries'' d)
         else slice_loop m fileLen callback (s, d) (map (fat_arch_64 m) [0 ..< numArchs]))
      else (s, error ''not a fat file'' d))"

record FatResult =
  fr_found :: bool
  fr_sliceOffset :: u64
  fr_sliceLen :: u64
  fr_missingSlice :: bool

text \<open>\<open>off0\<close> and \<open>len0\<close> are the caller's variables, kept when no slice is chosen.\<close>

definition isFatFileWithSlice ::
    "memory \<Rightarrow> diag \<Rightarrow> u64 \<Rightarrow> GradedArchs \<Rightarrow> bool \<Rightarrow> u64 \<Rightarrow> u64 \<Rightarrow> FatResult \<times> diag" where
  "isFatFileWithSlice m d fileLen archs isOSBinary off0 len0 =
     (if \<not> isFatFile m then
        (\<lparr>fr_found = False, fr_sliceOffset = off0, fr_sliceLen = len0, fr_missingSlice = False\<rparr>, d)
      else
        (let ((bestGrade, off, len), d') =
               forEachSlice m d fileLen
                 (\<lambda>(bestGrade, off, len) sl.
                    (let sliceGrade = grade archs (sliceCpuType sl) (sliceCpuSubType sl) isOSBinary
                     in if sliceGrade \<noteq> 0 \<and> sliceGrade > bestGrade
                        then ((sliceGrade, sliceStart sl, sliceSize sl), False)
                        else ((bestGrade, off, len), False)))
                 (0, off0, len0)
         in if hasError d' then
              (\<lparr>fr_found = False, fr_sliceOffset = off, fr_sliceLen = len, fr_missingSlice = False\<rparr>, d')
            else
              (\<lparr>fr_found = (bestGrade \<noteq> 0), fr_sliceOffset = off, fr_sliceLen = len,
                fr_missingSlice = (bestGrade = 0)\<rparr>, d')))"

section \<open>Properties\<close>

text \<open>A slice that passes: inside the file, a Mach-O of the named architecture, page aligned.\<close>

definition good_slice :: "memory \<Rightarrow> u64 \<Rightarrow> FatSlice \<Rightarrow> bool" where
  "good_slice m fileLen sl \<longleftrightarrow>
     (let mf = shift_mem (unat (sliceStart sl)) m
      in unat (sliceStart sl) + unat (sliceSize sl) \<le> unat fileLen
         \<and> hasMachOMagic mf \<and> \<not> malformed_commands mf
         \<and> cmds_end mf \<le> unat (sliceSize sl)
         \<and> mh_cputype mf = sliceCpuType sl \<and> mh_cpusubtype mf = sliceCpuSubType sl
         \<and> unat (sliceStart sl) mod (if uses16KPages mf then 16384 else 4096) = 0)"

lemma unat_sizeofcmds_sum:
  "unat (ucast (mh_sizeofcmds m) + of_nat (machHeaderSize m) :: u64) = cmds_end m"
proof -
  have "unat (mh_sizeofcmds m) + machHeaderSize m < 2 ^ 64"
    using unat_u32_less [of "mh_sizeofcmds m"] by (simp add: machHeaderSize_def)
  then show ?thesis
    by (simp add: cmds_end_def unat_word_ariths unat_of_nat unsigned_ucast_eq take_bit_eq_mod mod_add_right_eq mod_add_left_eq)
qed

lemma page_mask_mod:
  "(w::u64) AND 0xFFF = 0 \<longleftrightarrow> unat w mod 4096 = 0" "w AND 0x3FFF = 0 \<longleftrightarrow> unat w mod 16384 = 0"
proof -
  have "w AND 0xFFF = take_bit 12 w" "w AND 0x3FFF = take_bit 14 w"
    by (simp_all add: take_bit_eq_mask mask_eq_exp_minus_1)
  then show "w AND 0xFFF = 0 \<longleftrightarrow> unat w mod 4096 = 0" "w AND 0x3FFF = 0 \<longleftrightarrow> unat w mod 16384 = 0"
    by (simp_all add: word_unat_eq_iff take_bit_eq_mod unat_mod)
qed

text \<open>The byte-swapped slices of old PPC files are skipped without an error.\<close>

definition swapped_slice :: "memory \<Rightarrow> u64 \<Rightarrow> FatSlice \<Rightarrow> bool" where
  "swapped_slice m fileLen sl \<longleftrightarrow>
     unat (sliceStart sl) + unat (sliceSize sl) \<le> unat fileLen
     \<and> hasMachOBigEndianMagic (shift_mem (unat (sliceStart sl)) m)"

lemma magics_differ: "hasMachOBigEndianMagic m \<Longrightarrow> \<not> hasMachOMagic m"
  by (auto simp: hasMachOBigEndianMagic_def hasMachOMagic_def)

lemma isMachO_None:
  "isMachO d m n = (ok, None) \<longleftrightarrow>
     d = None \<and> (if ok then hasMachOMagic m \<and> cmds_end m \<le> unat n \<and> \<not> malformed_commands m
                 else hasMachOBigEndianMagic m)"
  by (auto simp: isMachO_def Let_def word_less_nat_alt unat_sizeofcmds_sum malformed_commands_def diag_defs
      magics_differ split: option.splits if_splits)

lemma isMachO_True_diag: "isMachO d m n = (True, d') \<Longrightarrow> d' = None"
  by (auto simp: isMachO_def Let_def diag_defs split: option.splits if_splits)

lemma good_slice_not_swapped: "good_slice m L sl \<Longrightarrow> \<not> swapped_slice m L sl"
  by (auto simp: good_slice_def swapped_slice_def Let_def dest: magics_differ)

lemma isValidSlice_None:
  "isValidSlice m d L sl = (ok, None) \<longleftrightarrow>
     d = None \<and> (if ok then good_slice m L sl else swapped_slice m L sl)"
proof -
  let ?mf = "shift_mem (unat (sliceStart sl)) m"
  obtain k d1 where k: "isMachO d ?mf (sliceSize sl) = (k, d1)" by fastforce
  show ?thesis
  proof (cases k)
    case True
    then have "d1 = None" using k isMachO_True_diag by simp
    with k True have "d = None \<and> hasMachOMagic ?mf \<and> cmds_end ?mf \<le> unat (sliceSize sl) \<and> \<not> malformed_commands ?mf"
      by (simp add: isMachO_None)
    with k True \<open>d1 = None\<close> show ?thesis
      by (auto simp: isValidSlice_def good_slice_def swapped_slice_def Let_def greaterThanAddOrOverflow_iff
          page_mask_mod not_less diag_defs dest: magics_differ split: if_splits)
  next
    case False
    have "\<not> (d = None \<and> hasMachOMagic ?mf \<and> cmds_end ?mf \<le> unat (sliceSize sl) \<and> \<not> malformed_commands ?mf)"
      using k False isMachO_None [of d ?mf "sliceSize sl" True] by auto
    moreover have "d1 = None \<longleftrightarrow> d = None \<and> hasMachOBigEndianMagic ?mf"
      using k False isMachO_None [of d ?mf "sliceSize sl" False] by auto
    ultimately show ?thesis
      using k False by (auto simp: isValidSlice_def good_slice_def swapped_slice_def Let_def
          greaterThanAddOrOverflow_iff not_less diag_defs split: if_splits)
  qed
qed

lemma visit_slice_None:
  assumes "visit_slice m L (\<lambda>s sl. (g s sl, False)) (s, d) sl = ((s', None), b)"
  shows "d = None \<and> \<not> b \<and> s' = foldl g s (filter (good_slice m L) [sl])
    \<and> (good_slice m L sl \<or> swapped_slice m L sl)"
proof -
  obtain ok where "isValidSlice m d L sl = (ok, None)"
    using assms by (cases "isValidSlice m d L sl") (auto simp: visit_slice_def split: if_splits)
  with assms show ?thesis
    using good_slice_not_swapped by (auto simp: visit_slice_def isValidSlice_None split: if_splits)
qed

lemma slice_loop_None:
  assumes "slice_loop m L (\<lambda>s sl. (g s sl, False)) (s, d) sls = (s', None)"
  shows "d = None \<and> s' = foldl g s (filter (good_slice m L) sls)
    \<and> (\<forall>sl\<in>set sls. good_slice m L sl \<or> swapped_slice m L sl)"
  using assms
proof (induction sls arbitrary: s d)
  case (Cons sl sls)
  obtain s1 d1 b where v: "visit_slice m L (\<lambda>s sl. (g s sl, False)) (s, d) sl = ((s1, d1), b)"
    by (metis prod.exhaust)
  have "\<not> b" using v by (auto simp: visit_slice_def Let_def split: prod.splits if_splits)
  with Cons.prems v have "slice_loop m L (\<lambda>s sl. (g s sl, False)) (s1, d1) sls = (s', None)"
    by simp
  from Cons.IH [OF this] v visit_slice_None [of m L g s d sl s1 b] show ?case by auto
qed simp

text \<open>The entries \<open>forEachSlice\<close> looks at when its block never stops.\<close>

definition fat_slices :: "memory \<Rightarrow> FatSlice list" where
  "fat_slices m =
     (let n = unat (nfat_arch m)
      in if fat_magic m = OSSwapBigToHostInt32 FAT_MAGIC
         then map (fat_arch m) [0 ..< n] @
              (if n \<noteq> maxArchs \<and> isHiddenArm64 (fat_arch m n) then [fat_arch m n] else [])
         else map (fat_arch_64 m) [0 ..< n])"

lemma forEachSlice_None:
  assumes "forEachSlice m d L (\<lambda>s sl. (g s sl, False)) s = (s', None)"
  shows "d = None \<and> isFatFile m \<and> unat (nfat_arch m) \<le> maxArchs
    \<and> s' = foldl g s (filter (good_slice m L) (fat_slices m))
    \<and> (\<forall>sl\<in>set (fat_slices m). good_slice m L sl \<or> swapped_slice m L sl)"
proof -
  let ?cb = "\<lambda>s sl. (g s sl, False)" and ?n = "unat (nfat_arch m)"
  consider (hidden) "fat_magic m = OSSwapBigToHostInt32 FAT_MAGIC" "?n \<le> maxArchs" "?n \<noteq> maxArchs"
      "isHiddenArm64 (fat_arch m ?n)"
    | (plain) "fat_magic m = OSSwapBigToHostInt32 FAT_MAGIC" "?n \<le> maxArchs"
      "\<not> (?n \<noteq> maxArchs \<and> isHiddenArm64 (fat_arch m ?n))"
    | (wide) "fat_magic m \<noteq> OSSwapBigToHostInt32 FAT_MAGIC" "fat_magic m = OSSwapBigToHostInt32 FAT_MAGIC_64"
      "?n \<le> maxArchs"
    using assms by (force simp: forEachSlice_def diag_defs Let_def split: if_splits)
  then show ?thesis
  proof cases
    case hidden
    obtain s1 d1 where l: "slice_loop m L ?cb (s, d) (map (fat_arch m) [0 ..< ?n]) = (s1, d1)" by fastforce
    with hidden assms obtain b where "visit_slice m L ?cb (s1, d1) (fat_arch m ?n) = ((s', None), b)"
      by (cases "visit_slice m L ?cb (s1, d1) (fat_arch m ?n)") (simp add: forEachSlice_def Let_def)
    note v = visit_slice_None [OF this]
    then have "slice_loop m L ?cb (s, d) (map (fat_arch m) [0 ..< ?n]) = (s1, None)" using l by simp
    moreover have "fat_slices m = map (fat_arch m) [0 ..< ?n] @ [fat_arch m ?n]"
      using hidden by (simp add: fat_slices_def Let_def)
    ultimately show ?thesis
      using v slice_loop_None [of m L g s d _ s1] hidden by (simp add: isFatFile_def ball_Un)
  next
    case plain
    then have sls: "fat_slices m = map (fat_arch m) [0 ..< ?n]"
      and run: "slice_loop m L ?cb (s, d) (map (fat_arch m) [0 ..< ?n]) = (s', None)"
      using assms by (auto simp: fat_slices_def forEachSlice_def Let_def split: if_splits)
    with plain slice_loop_None [OF run] show ?thesis unfolding sls by (simp add: isFatFile_def)
  next
    case wide
    then have sls: "fat_slices m = map (fat_arch_64 m) [0 ..< ?n]"
      and run: "slice_loop m L ?cb (s, d) (map (fat_arch_64 m) [0 ..< ?n]) = (s', None)"
      using assms by (auto simp: fat_slices_def forEachSlice_def Let_def split: if_splits)
    with wide slice_loop_None [OF run] show ?thesis unfolding sls by (simp add: isFatFile_def)
  qed
qed

text \<open>Keeping the first maximum: the fold of the block of \<open>isFatFileWithSlice\<close>.\<close>

lemma foldl_best:
  fixes key :: "'a \<Rightarrow> int"
  assumes "foldl (\<lambda>(best, p) x. if key x \<noteq> 0 \<and> key x > best then (key x, h x) else (best, p)) (b0, p0) xs
    = (b, p)"
  shows "b0 \<le> b \<and> (\<forall>x\<in>set xs. key x = 0 \<or> key x \<le> b) \<and> (b, p) \<in> insert (b0, p0) ((\<lambda>x. (key x, h x)) ` set xs)"
  using assms
proof (induction xs arbitrary: b0 p0)
  case (Cons x xs)
  define b1 p1 where "b1 = (if key x \<noteq> 0 \<and> key x > b0 then key x else b0)"
    and "p1 = (if key x \<noteq> 0 \<and> key x > b0 then h x else p0)"
  have "foldl (\<lambda>(best, p) x. if key x \<noteq> 0 \<and> key x > best then (key x, h x) else (best, p)) (b1, p1) xs = (b, p)"
    using Cons.prems by (auto simp: b1_def p1_def split: if_splits)
  from Cons.IH [OF this] show ?case by (auto simp: b1_def p1_def split: if_splits)
qed simp

lemma found_slice_best:
  assumes "isFatFileWithSlice m d fileLen archs os off0 len0 = (r, d')" and "fr_found r"
  shows "\<exists>sl\<in>set (fat_slices m). good_slice m fileLen sl
     \<and> fr_sliceOffset r = sliceStart sl \<and> fr_sliceLen r = sliceSize sl
     \<and> grade archs (sliceCpuType sl) (sliceCpuSubType sl) os \<noteq> 0
     \<and> (\<forall>sl'\<in>set (fat_slices m). good_slice m fileLen sl' \<longrightarrow>
          grade archs (sliceCpuType sl') (sliceCpuSubType sl') os
          \<le> grade archs (sliceCpuType sl) (sliceCpuSubType sl) os)"
proof -
  define key where "key sl = grade archs (sliceCpuType sl) (sliceCpuSubType sl) os" for sl :: FatSlice
  let ?g = "\<lambda>(best, p) sl. if key sl \<noteq> 0 \<and> key sl > best then (key sl, sliceStart sl, sliceSize sl) else (best, p)"
  have cb: "(\<lambda>(bestGrade, off, len) sl. (let g = grade archs (sliceCpuType sl) (sliceCpuSubType sl) os
       in if g \<noteq> 0 \<and> g > bestGrade then ((g, sliceStart sl, sliceSize sl), False)
          else ((bestGrade, off, len), False))) = (\<lambda>s sl. (?g s sl, False))"
    by (auto simp: fun_eq_iff key_def Let_def)
  obtain b off len where run: "forEachSlice m d fileLen (\<lambda>s sl. (?g s sl, False)) (0, off0, len0) = ((b, off, len), None)"
      and b: "b \<noteq> 0" "fr_sliceOffset r = off" "fr_sliceLen r = len"
    using assms unfolding isFatFileWithSlice_def cb by (auto simp: diag_defs Let_def split: if_splits prod.splits)
  from forEachSlice_None [OF run] have
    "foldl ?g (0, off0, len0) (filter (good_slice m fileLen) (fat_slices m)) = (b, off, len)" by simp
  note best = foldl_best [OF this]
  then obtain sl where sl: "sl \<in> set (fat_slices m)" "good_slice m fileLen sl" "key sl = b"
      "off = sliceStart sl" "len = sliceSize sl"
    using b(1) by auto
  moreover have "key sl' \<le> key sl" if "sl' \<in> set (fat_slices m)" "good_slice m fileLen sl'" for sl'
    using best that sl(3) by auto
  ultimately show ?thesis using b unfolding key_def by blast
qed

text \<open>
  C23: when \<open>isFatFileWithSlice\<close> finds a slice, the offset and length it returns are those of an
  entry of the fat header that lies inside the file, is page aligned, and holds a Mach-O file
  of the architecture the entry names with all its load commands inside the slice; its grade
  is positive and no other acceptable entry (the hidden arm64 one included) has a higher one.
\<close>

theorem isFatFileWithSlice_best:
  assumes "isFatFileWithSlice m d fileLen archs os off0 len0 = (r, d')" and "fr_found r"
  shows "\<exists>sl\<in>set (fat_slices m). good_slice m fileLen sl
     \<and> fr_sliceOffset r = sliceStart sl \<and> fr_sliceLen r = sliceSize sl
     \<and> grade archs (sliceCpuType sl) (sliceCpuSubType sl) os \<noteq> 0
     \<and> (\<forall>sl'\<in>set (fat_slices m). good_slice m fileLen sl' \<longrightarrow>
          grade archs (sliceCpuType sl') (sliceCpuSubType sl') os
          \<le> grade archs (sliceCpuType sl) (sliceCpuSubType sl) os)"
  using assms by (rule found_slice_best)

text \<open>A universal file with one x86\_64 slice in its second page.\<close>

definition fat_sample :: memory where
  "fat_sample i =
     (if i < 4096 then mem_words [0xBEBAFECA, 0x01000000, 0x07000001, 0x03000000, 0x00100000, 0x38000000, 0, 0] i
      else two_commands (i - 4096))"

lemma read32_fat_sample: "p + 4 \<le> 4096 \<Longrightarrow> read32 fat_sample p =
    read32 (mem_words [0xBEBAFECA, 0x01000000, 0x07000001, 0x03000000, 0x00100000, 0x38000000, 0, 0]) p"
  by (rule read32_agree) (simp add: agree_def fat_sample_def)

lemma fat_sample_slice: "shift_mem 4096 fat_sample = two_commands"
  by (simp add: shift_mem_def fat_sample_def)

lemma fat_sample_facts:
  "fat_magic fat_sample = OSSwapBigToHostInt32 FAT_MAGIC" "nfat_arch fat_sample = 1"
  "fat_arch fat_sample 0 = \<lparr>sliceCpuType = CPU_TYPE_X86_64, sliceCpuSubType = 3, sliceStart = 4096, sliceSize = 56\<rparr>"
  "\<not> isHiddenArm64 (fat_arch fat_sample (Suc 0))"
  by (simp_all add: fat_magic_def nfat_arch_def fat_arch_def read32_fat_sample read32_mem_words
      OSSwapBigToHostInt32_def Let_def isHiddenArm64_def)

lemma fat_sample_valid: "isValidSlice fat_sample None 4152 (fat_arch fat_sample 0) = (True, None)"
  by (simp add: isValidSlice_None good_slice_def fat_sample_facts fat_sample_slice two_commands_list Let_def)
    (simp add: two_commands_def walk_eval hasMachOMagic_def cmds_end_def machHeaderSize_def is64_def uses16KPages_def)

theorem isFatFileWithSlice_best_witness:
  "\<exists>r. isFatFileWithSlice fat_sample None 4152 archs_x86_64 False 0 0 = (r, None) \<and> fr_found r
     \<and> fr_sliceOffset r = 4096"
proof -
  obtain r where r: "isFatFileWithSlice fat_sample None 4152 archs_x86_64 False 0 0 = (r, None)" "fr_found r"
    by (simp add: isFatFileWithSlice_def isFatFile_def forEachSlice_def fat_sample_facts(1,2,4) maxArchs_def
        visit_slice_def fat_sample_valid Let_def)
      (simp add: fat_sample_facts(3) archs_defs masked_subtype_def diag_defs)
  from isFatFileWithSlice_best [OF this] show ?thesis
    using r by (auto simp: fat_slices_def fat_sample_facts Let_def)
qed

lemma magic_first_byte: "hasMachOMagic m \<Longrightarrow> m 0 \<noteq> 0x21"
proof
  assume magic: "hasMachOMagic m" and b: "m 0 = 0x21"
  have "unat (mh_magic m) mod 256 = unat (m 0)"
    using unat_u8_less [of "m 0"] le_nat_add [of m 0 1 3] by (simp add: mh_magic_def unat_read32)
  with magic b show False by (auto simp: hasMachOMagic_def)
qed

text \<open>
  \<open>isValidSlice\<close> never reports \<open>file is static library\<close>: it compares the first bytes of the
  slice with \<open>!<arch>\<close> only after \<open>isMachO\<close> has accepted the slice, whose first bytes are then a
  Mach-O magic.
\<close>

theorem isValidSlice_no_static_library:
  "snd (isValidSlice m None fileLen sl) \<noteq> Some ''file is static library''"
proof -
  let ?mf = "shift_mem (unat (sliceStart sl)) m"
  have "\<not> strncmp_eq m (unat (sliceStart sl)) ''!<arch>''" if "hasMachOMagic ?mf"
    using magic_first_byte [OF that] by (simp add: shift_mem_def)
  moreover have "snd (lc_list m' st en n c) \<noteq> Some ''file is static library''" for m' st en n c
    by (induction n arbitrary: c) (auto simp: Let_def split: prod.splits, metis snd_conv)
  then have "snd (load_commands_diag ?mf) \<noteq> Some ''file is static library''"
    by (simp add: load_commands_diag_def)
  ultimately show ?thesis
    by (auto simp: isValidSlice_def isMachO_def Let_def diag_defs split: prod.splits if_splits option.splits)
qed

end
