(* ===== verification/Cache_Eligibility.thy ===== *)
theory Cache_Eligibility
  imports MachO_Segments
begin

text \<open>
  The eligibility decisions of \<open>src/dyld3/MachOFile.cpp\<close>: whether a dylib may go into the dyld
  shared cache, a kernel or kext into a kernel collection, and whether a \<open>dlopen\<close> closure can be
  precomputed. Each returns its verdict and the reasons it passed to \<open>failureReason\<close>, in order.
  \<open>path\<close> is the caller's C string; a load path of the file is an address in it.
\<close>

section \<open>Paths\<close>

text \<open>A C string of the caller as memory: its characters and the NUL behind them.\<close>

definition path_bytes :: "string \<Rightarrow> memory" where
  "path_bytes s = mem_of (map of_char s)"

definition isSharedCacheEligiblePath :: "memory \<Rightarrow> nat \<Rightarrow> bool" where
  "isSharedCacheEligiblePath m p \<longleftrightarrow>
     strncmp_eq m p ''/usr/lib/''
     \<or> strncmp_eq m p ''/System/Library/''
     \<or> strncmp_eq m p ''/System/iOSSupport/usr/lib/''
     \<or> strncmp_eq m p ''/System/iOSSupport/System/Library/''
     \<or> strncmp_eq m p ''/Library/Apple/usr/lib/''
     \<or> strncmp_eq m p ''/Library/Apple/System/Library/''"

definition platformExcludesSharedCache_macOS :: "string \<Rightarrow> bool" where
  "platformExcludesSharedCache_macOS name \<longleftrightarrow>
     startsWith name ''/usr/lib/system/introspection/''
     \<or> startsWith name ''/System/Library/QuickTime/''
     \<or> startsWith name ''/System/Library/Tcl/''
     \<or> startsWith name ''/System/Library/Perl/''
     \<or> startsWith name ''/System/Library/MonitorPanels/''
     \<or> startsWith name ''/System/Library/Accessibility/''
     \<or> startsWith name ''/usr/local/''
     \<or> startsWith name ''/usr/lib/pam/''
     \<or> startsWith name ''/System/Library/Templates/Data/''
     \<or> strstr name ''.app/''"

definition platformExcludesSharedCache_iOS :: "string \<Rightarrow> bool" where
  "platformExcludesSharedCache_iOS name \<longleftrightarrow>
     name = ''/System/Library/Caches/com.apple.xpc/sdk.dylib''
     \<or> name = ''/System/Library/Caches/com.apple.xpcd/xpcd_cache.dylib''"

definition platformExcludesSharedCache_tvOS :: "string \<Rightarrow> bool" where
  "platformExcludesSharedCache_tvOS name = platformExcludesSharedCache_iOS name"

definition platformExcludesSharedCache_watchOS :: "string \<Rightarrow> bool" where
  "platformExcludesSharedCache_watchOS name = platformExcludesSharedCache_iOS name"

definition platformExcludesSharedCache_bridgeOS :: "string \<Rightarrow> bool" where
  "platformExcludesSharedCache_bridgeOS name = platformExcludesSharedCache_iOS name"

text \<open>
  The switch has a case for every enumerator and none besides: a platform number that is not one
  of them (the load command holds any 32-bit value) falls off the end of the function, which is
  undefined: \<open>None\<close>.
\<close>

definition platformExcludesSharedCache :: "Platform \<Rightarrow> string \<Rightarrow> bool option" where
  "platformExcludesSharedCache platform name =
     (if platform = Platform_unknown then Some False
      else if platform = Platform_macOS then Some (platformExcludesSharedCache_macOS name)
      else if platform = Platform_iOS then Some (platformExcludesSharedCache_iOS name)
      else if platform = Platform_tvOS then Some (platformExcludesSharedCache_tvOS name)
      else if platform = Platform_watchOS then Some (platformExcludesSharedCache_watchOS name)
      else if platform = Platform_bridgeOS then Some (platformExcludesSharedCache_bridgeOS name)
      else if platform = Platform_iOSMac then Some (platformExcludesSharedCache_macOS name)
      else if platform = Platform_iOS_simulator then Some False
      else if platform = Platform_tvOS_simulator then Some False
      else if platform = Platform_watchOS_simulator then Some False
      else if platform = Platform_driverKit then Some False
      else None)"

definition platformExcludesPrebuiltClosure_macOS :: "string \<Rightarrow> bool" where
  "platformExcludesPrebuiltClosure_macOS path \<longleftrightarrow>
     startsWith path ''/System/Library/Templates/Data/'' \<or> strstr path ''.app/''"

definition platformExcludesPrebuiltClosure_iOS :: "string \<Rightarrow> bool" where
  "platformExcludesPrebuiltClosure_iOS path \<longleftrightarrow>
     path = ''/System/Library/Caches/com.apple.xpc/sdk.dylib''
     \<or> path = ''/System/Library/Caches/com.apple.xpcd/xpcd_cache.dylib''"

definition platformExcludesPrebuiltClosure_tvOS :: "string \<Rightarrow> bool" where
  "platformExcludesPrebuiltClosure_tvOS path = platformExcludesPrebuiltClosure_iOS path"

definition platformExcludesPrebuiltClosure_watchOS :: "string \<Rightarrow> bool" where
  "platformExcludesPrebuiltClosure_watchOS path = platformExcludesPrebuiltClosure_iOS path"

definition platformExcludesPrebuiltClosure_bridgeOS :: "string \<Rightarrow> bool" where
  "platformExcludesPrebuiltClosure_bridgeOS path = platformExcludesPrebuiltClosure_iOS path"

definition platformExcludesPrebuiltClosure :: "Platform \<Rightarrow> string \<Rightarrow> bool option" where
  "platformExcludesPrebuiltClosure platform path =
     (if platform = Platform_unknown then Some False
      else if platform = Platform_macOS then Some (platformExcludesPrebuiltClosure_macOS path)
      else if platform = Platform_iOS then Some (platformExcludesPrebuiltClosure_iOS path)
      else if platform = Platform_tvOS then Some (platformExcludesPrebuiltClosure_tvOS path)
      else if platform = Platform_watchOS then Some (platformExcludesPrebuiltClosure_watchOS path)
      else if platform = Platform_bridgeOS then Some (platformExcludesPrebuiltClosure_bridgeOS path)
      else if platform = Platform_iOSMac then Some (platformExcludesPrebuiltClosure_macOS path)
      else if platform = Platform_iOS_simulator then Some False
      else if platform = Platform_tvOS_simulator then Some False
      else if platform = Platform_watchOS_simulator then Some False
      else if platform = Platform_driverKit then Some False
      else None)"

section \<open>The shared cache\<close>

text \<open>One check that goes on after it has failed: \<open>if ( bad ) { retval = false; failureReason(why); }\<close>\<close>

definition fail_if :: "bool \<Rightarrow> string \<Rightarrow> bool \<times> string list \<Rightarrow> bool \<times> string list" where
  "fail_if bad why r = (if bad then (False, snd r @ [why]) else r)"

text \<open>
  The block of \<open>forEachSupportedPlatform\<close> that remembers whether some platform excludes the file; it
  asks no further platform after the first that does.
\<close>

definition anyPlatformExcludes :: "memory \<Rightarrow> (Platform \<Rightarrow> bool option) \<Rightarrow> bool option" where
  "anyPlatformExcludes m excludes =
     Option.bind (forEachSupportedPlatform m (\<lambda>state (platform, minOS, sdk).
       Option.bind state (\<lambda>excluded. if excluded then Some excluded else excludes platform)) (Some False)) id"

text \<open>The block of \<open>forEachDependentDylib\<close> that stops at the first bad load path.\<close>

definition allDepPathsAreGood :: "memory \<Rightarrow> (nat \<Rightarrow> bool) \<Rightarrow> bool option" where
  "allDepPathsAreGood m good =
     forEachDependentDylib m (\<lambda>ok dep.
       if \<not> good (dep_loadPath dep) then Some (False, True) else Some (ok, False)) True"

definition isVariantPath :: "string \<Rightarrow> bool" where
  "isVariantPath path \<longleftrightarrow> endsWith path ''_profile.dylib'' \<or> endsWith path ''_debug.dylib''
     \<or> endsWith path ''_profile'' \<or> endsWith path ''_debug'' \<or> endsWith path ''/CoreADI''"

text \<open>The second half of \<open>canBePlacedInDyldCache\<close>, whose checks all run and add up their reasons.\<close>

definition dyldCacheChecks :: "build \<Rightarrow> memory \<Rightarrow> string \<Rightarrow> (bool \<times> string list) option" where
  "dyldCacheChecks B m path =
     (let r1 = fail_if (mh_flags m AND MH_TWOLEVEL = 0) ''Not built with two level namespaces'' (True, []);
          r2 = fail_if (isVariantPath path) ''Variant image'' r1;
          (hasExtraInfo, hasDyldInfo, hasExportTrie, hasLazyLoad) =
            walk_value m (\<lambda>(extra, info, trie, lazy) c.
              ((extra \<or> lc_cmd m c = LC_SEGMENT_SPLIT_INFO, info \<or> lc_cmd m c = LC_DYLD_INFO_ONLY,
                trie \<or> lc_cmd m c = LC_DYLD_EXPORTS_TRIE, lazy \<or> lc_cmd m c = LC_LAZY_LOAD_DYLIB), False))
              (False, False, False, False);
          r3 = fail_if (\<not> hasExtraInfo) ''Missing split seg info'' r2;
          r4 = fail_if (\<not> hasDyldInfo \<and> \<not> hasExportTrie) ''Old binary, missing dyld info or export trie'' r3;
          r5 = fail_if hasLazyLoad ''Has lazy load'' r4
      in
        Option.bind (allDepPathsAreGood m (isSharedCacheEligiblePath m)) (\<lambda>depsGood.
        Option.bind (hasInterposingTuples m) (\<lambda>interposing.
        Option.bind (andAlso (mh_cputype m = CPU_TYPE_I386)
                       (builtForPlatform B m Platform_watchOS_simulator False)) (\<lambda>watchSim.
          (let r6 = fail_if (\<not> depsGood) ''Depends on dylibs ineligable for dyld cache'' r5;
               r7 = fail_if interposing ''Has interposing tuples'' r6;
               r8 = fail_if (watchSim \<and> startsWith path ''/usr/lib/swift/'') ''i386 swift binary'' r7
           in Some r8)))))"

text \<open>
  A dylib without \<open>LC_ID_DYLIB\<close> has a null install name, which \<open>dylibName[0]\<close> dereferences:
  \<open>None\<close>. Once \<open>strcmp(dylibName, path)\<close> has found both equal, the later tests on \<open>dylibName\<close>
  are tests on \<open>path\<close>.
\<close>

definition canBePlacedInDyldCache :: "build \<Rightarrow> memory \<Rightarrow> string \<Rightarrow> (bool \<times> string list) option" where
  "canBePlacedInDyldCache B m path =
     (if \<not> isSharedCacheEligiblePath (path_bytes path) 0 then Some (False, [])
      else if mh_filetype m \<noteq> MH_DYLIB then Some (False, [''Not MH_DYLIB''])
      else
        Option.bind (Option.bind (installName m) id) (\<lambda>dylibName.
          if m dylibName \<noteq> of_char (CHR ''/'') then Some (False, [''install name not an absolute path''])
          else if \<not> strcmp_eq m dylibName path then Some (False, [''install path does not match install name''])
          else if strstr path ''//'' then Some (False, [''install name should not include //''])
          else if strstr path ''./'' then Some (False, [''install name should not include ./''])
          else
            Option.bind (anyPlatformExcludes m (\<lambda>p. platformExcludesSharedCache p path)) (\<lambda>excluded.
              if excluded then Some (False, [''install name is not shared cache eligible on platform''])
              else
                dyldCacheChecks B m path)))"

section \<open>Kernel collections\<close>

text \<open>
  Compiled with \<open>BUILDING_APP_CACHE_UTIL\<close>. Every refusal returns at once with one reason. The
  checks of the kernel itself come first: the reason to refuse, or none.
\<close>

definition xnuChecks :: "memory \<Rightarrow> string option option" where
  "xnuChecks m =
     (if mh_flags m AND MH_TWOLEVEL \<noteq> 0 then Some (Some ''Built with two level namespaces'')
      else
        Option.bind (forEachSegment m (\<lambda>foundPageZero info.
            if strcmp_eq m (segName info) ''__PAGEZERO'' then Some (True, True)
            else Some (foundPageZero, False)) False) (\<lambda>foundPageZero.
        if foundPageZero then Some (Some ''Has __PAGEZERO'') else
        Option.bind (forEachLoadCommand m (\<lambda>(foundMainLC, foundUnixThreadLC) c.
            if lc_cmd m c = LC_MAIN then Some ((True, foundUnixThreadLC), True)
            else if lc_cmd m c = LC_UNIXTHREAD then Some ((foundMainLC, True), False)
            else Some ((foundMainLC, foundUnixThreadLC), False)) (False, False))
          (\<lambda>((foundMainLC, foundUnixThreadLC), d).
            if foundMainLC then Some (Some ''Found LC_MAIN'')
            else if \<not> foundUnixThreadLC then Some (Some ''Expected LC_UNIXTHREAD'')
            else if hasError d then Some (Some ''Error parsing load commands'')
            else if \<not> isStaticExecutable m then Some (Some ''Expected static executable'')
            else if \<not> isPIE m then Some (Some ''Expected pie'')
            else Some None)))"

definition collectionChecks :: "build \<Rightarrow> memory \<Rightarrow> string option option" where
  "collectionChecks B m =
     (if isArch B m ''arm64e'' \<and> isKextBundle m \<and> \<not> hasChainedFixups B m
      then Some (Some ''Missing fixup information'')
      else
        Option.bind (forEachSection m (\<lambda>hasInterposing (info, malformedSectionRange).
            Some (hasInterposing \<or> isInterposingSection m info, False)) False) (\<lambda>hasInterposing.
          if hasInterposing then Some (Some ''Has interposing tuples'')
          else if \<not> isArch B m ''x86_64'' \<and> \<not> isArch B m ''x86_64h'' then
            Option.bind (forEachSegment m (\<lambda>foundBadSegment info.
                if protections info AND (VM_PROT_WRITE OR VM_PROT_EXECUTE) = (VM_PROT_WRITE OR VM_PROT_EXECUTE)
                then Some (True, True) else Some (foundBadSegment, False)) False) (\<lambda>foundBadSegment.
              if foundBadSegment then Some (Some ''Segments are not allowed to be both writable and executable'')
              else Some None)
          else Some None))"

definition canBePlacedInKernelCollection :: "build \<Rightarrow> memory \<Rightarrow> (bool \<times> string list) option" where
  "canBePlacedInKernelCollection B m =
     (if mh_filetype m \<noteq> MH_EXECUTE \<and> \<not> isKextBundle m then Some (False, [''Not MH_KEXT_BUNDLE''])
      else
        Option.bind (if mh_filetype m = MH_EXECUTE then xnuChecks m else Some None) (\<lambda>refusal.
          case refusal of Some why \<Rightarrow> Some (False, [why])
          | None \<Rightarrow>
              Option.bind (collectionChecks B m) (\<lambda>refusal.
                case refusal of Some why \<Rightarrow> Some (False, [why]) | None \<Rightarrow> Some (True, []))))"

section \<open>Precomputed closures\<close>

definition canHavePrecomputedDlopenClosure :: "memory \<Rightarrow> string \<Rightarrow> (bool \<times> string list) option" where
  "canHavePrecomputedDlopenClosure m path =
     (let r1 = fail_if (mh_filetype m \<noteq> MH_DYLIB \<and> mh_filetype m \<noteq> MH_BUNDLE) ''not MH_DYLIB or MH_BUNDLE'' (True, []);
          r2 = fail_if (mh_flags m AND MH_TWOLEVEL = 0) ''not built with two level namespaces'' r1
      in
        Option.bind (allDepPathsAreGood m (\<lambda>p. m p = of_char (CHR ''/''))) (\<lambda>depsGood.
        Option.bind (anyPlatformExcludes m (\<lambda>p. platformExcludesPrebuiltClosure p path)) (\<lambda>excluded.
          (let r3 = fail_if (\<not> depsGood) ''depends on dylibs that are not absolute paths'' r2
           in if excluded then Some (False, snd r3 @ [''file cannot get a prebuilt closure on this platform''])
              else
                Option.bind (hasInterposingTuples m) (\<lambda>interposing.
                  (let r4 = fail_if interposing ''has interposing tuples'' r3;
                       r5 = fail_if (startsWith path ''/usr/lib/system/introspection/'') ''override of OS dylib'' r4
                   in Some r5))))))"

section \<open>Properties\<close>

text \<open>The verdict is true exactly when no reason was given: the contract of the three functions.\<close>

definition verdict_ok :: "bool \<times> string list \<Rightarrow> bool" where
  "verdict_ok r \<longleftrightarrow> (fst r \<longleftrightarrow> snd r = [])"

lemma verdict_fail_if [simp]: "verdict_ok r \<Longrightarrow> verdict_ok (fail_if bad why r)"
  by (simp add: fail_if_def verdict_ok_def)

lemma fst_fail_if [simp]: "fst (fail_if bad why r) \<longleftrightarrow> \<not> bad \<and> fst r"
  by (simp add: fail_if_def)

lemma anyPlatformExcludes_iff:
  assumes "\<forall>p\<in>set (platforms m). ex p \<noteq> None"
  shows "anyPlatformExcludes m ex =
     (if malformed_commands m then None else Some (\<exists>p\<in>set (platforms m). ex p = Some True))"
proof -
  have "(\<forall>p\<in>fst ` set ps. ex p \<noteq> None) \<Longrightarrow>
    foldl (\<lambda>state (p, minOS, sdk). Option.bind state (\<lambda>e. if e then Some e else ex p)) (Some b) ps
      = Some (b \<or> (\<exists>p\<in>fst ` set ps. ex p = Some True))" for b and ps :: "(Platform \<times> u32 \<times> u32) list"
  proof (induction ps arbitrary: b)
    case (Cons x ps)
    obtain p minOS sdk where x: "x = (p, minOS, sdk)" by (metis prod.exhaust)
    from Cons.prems obtain r where "ex p = Some r" by (auto simp: x)
    with Cons.IH [of "b \<or> r"] Cons.prems show ?case by (cases b; cases r) (auto simp: x)
  qed simp
  with assms show ?thesis by (auto simp: anyPlatformExcludes_def forEachSupportedPlatform_fold)
qed

text \<open>The platforms the enumeration has a name for: the numbers up to \<open>driverKit\<close>.\<close>

definition known_platforms :: "memory \<Rightarrow> bool" where
  "known_platforms m \<longleftrightarrow> (\<forall>p\<in>set (platforms m). p \<in>
     {Platform_unknown, Platform_macOS, Platform_iOS, Platform_tvOS, Platform_watchOS, Platform_bridgeOS, Platform_iOSMac,
      Platform_iOS_simulator, Platform_tvOS_simulator, Platform_watchOS_simulator, Platform_driverKit})"

lemma known_platforms_answer:
  assumes "known_platforms m"
  shows "\<forall>p\<in>set (platforms m). platformExcludesSharedCache p path \<noteq> None"
  using assms by (auto simp: known_platforms_def platformExcludesSharedCache_def)

lemma allDepPathsAreGood_iff:
  "\<not> malformed_commands m \<Longrightarrow>
   allDepPathsAreGood m good = Some (\<forall>dep\<in>set (dependents m). good (dep_loadPath dep))"
  by (auto simp: allDepPathsAreGood_def deps.walk_find [of m "\<lambda>d. \<not> good (dep_loadPath d)" "\<lambda>_. False"]
      find_None_iff find_Some_iff split: option.splits)

lemma walk_value_foldl: "walk_value m (\<lambda>s c. (g s c, False)) s = foldl g s (load_commands m)"
  by (simp add: walk_value_list forStop_foldl)

lemma has_four_commands:
  "walk_value m (\<lambda>(p, q, r, s) c.
       ((p \<or> lc_cmd m c = k1, q \<or> lc_cmd m c = k2, r \<or> lc_cmd m c = k3, s \<or> lc_cmd m c = k4), False))
     (False, False, False, False)
   = (hasLoadCommand m k1, hasLoadCommand m k2, hasLoadCommand m k3, hasLoadCommand m k4)"
proof -
  let ?g = "\<lambda>(p, q, r, s) c. (p \<or> lc_cmd m c = k1, q \<or> lc_cmd m c = k2, r \<or> lc_cmd m c = k3, s \<or> lc_cmd m c = k4)"
  have "foldl ?g (p, q, r, s) cs = (p \<or> (\<exists>c\<in>set cs. lc_cmd m c = k1), q \<or> (\<exists>c\<in>set cs. lc_cmd m c = k2),
      r \<or> (\<exists>c\<in>set cs. lc_cmd m c = k3), s \<or> (\<exists>c\<in>set cs. lc_cmd m c = k4))" for p q r s cs
    by (induction cs arbitrary: p q r s) auto
  then have "walk_value m (\<lambda>x c. (?g x c, False)) (False, False, False, False)
      = (hasLoadCommand m k1, hasLoadCommand m k2, hasLoadCommand m k3, hasLoadCommand m k4)"
    by (simp add: walk_value_foldl hasLoadCommand_iff)
  then show ?thesis by (simp add: case_prod_beta')
qed

lemma eligible_absolute:
  assumes "isSharedCacheEligiblePath (path_bytes path) 0" and "strcmp_eq m p path"
  shows "m p = of_char (CHR ''/'')"
proof -
  have "path_bytes path 0 = of_char (CHR ''/'')"
    using assms(1) by (auto simp: isSharedCacheEligiblePath_def)
  then obtain c cs where "path = c # cs" and "(of_char c :: u8) = of_char (CHR ''/'')"
    by (cases path) (auto simp: path_bytes_def mem_of_def)
  with assms(2) show ?thesis by (simp add: strcmp_eq_def)
qed

text \<open>What makes a dylib fit for the shared cache, in terms of its parts.\<close>

definition cache_worthy :: "build \<Rightarrow> memory \<Rightarrow> string \<Rightarrow> bool" where
  "cache_worthy B m path \<longleftrightarrow>
     mh_flags m AND MH_TWOLEVEL \<noteq> 0 \<and> \<not> isVariantPath path
     \<and> hasLoadCommand m LC_SEGMENT_SPLIT_INFO
     \<and> (hasLoadCommand m LC_DYLD_INFO_ONLY \<or> hasLoadCommand m LC_DYLD_EXPORTS_TRIE)
     \<and> \<not> hasLoadCommand m LC_LAZY_LOAD_DYLIB
     \<and> (\<forall>dep\<in>set (dependents m). isSharedCacheEligiblePath m (dep_loadPath dep))
     \<and> (\<forall>p\<in>set (sections m). \<not> isInterposingSection m (fst p))
     \<and> \<not> (mh_cputype m = CPU_TYPE_I386 \<and> Platform_watchOS_simulator \<in> set (platforms m)
           \<and> startsWith path ''/usr/lib/swift/'')"

lemma verdict_init [simp]: "verdict_ok (True, [])"
  by (simp add: verdict_ok_def)

lemma dyldCacheChecks_iff:
  assumes "\<not> malformed_commands m"
  shows "case dyldCacheChecks B m path of None \<Rightarrow> False
    | Some r \<Rightarrow> verdict_ok r \<and> (fst r \<longleftrightarrow> cache_worthy B m path)"
  unfolding dyldCacheChecks_def has_four_commands
  using assms
  by (auto simp: Let_def allDepPathsAreGood_iff hasInterposingTuples_iff builtForPlatform_iff built_for_def
      andAlso_def cache_worthy_def)

text \<open>
  C33: \<open>canBePlacedInDyldCache\<close> on a dylib with an install name whose load commands walk without
  error and name only platforms of the enumeration (for any other number the answer of
  \<open>platformExcludesSharedCache\<close> is undefined) never ends in an assertion and says yes exactly when the path is in an OS directory,
  is the install name, is normalized, is excluded by no platform of the file, the dylib is two-level, not
  a debug variant, carries split-segment and export information, lazily loads nothing,
  depends only on eligible paths and interposes nothing. It gives a reason exactly when it
  says no, except for a path outside the OS directories.
\<close>

theorem canBePlacedInDyldCache_iff:
  assumes ok: "\<not> malformed_commands m" and name: "installName m = Some (Some p)"
    and known: "known_platforms m"
  shows "\<exists>yes why. canBePlacedInDyldCache B m path = Some (yes, why)
    \<and> (yes \<longleftrightarrow> isSharedCacheEligiblePath (path_bytes path) 0 \<and> isDylib m \<and> strcmp_eq m p path
         \<and> \<not> strstr path ''//'' \<and> \<not> strstr path ''./''
         \<and> (\<forall>q\<in>set (platforms m). platformExcludesSharedCache q path = Some False) \<and> cache_worthy B m path)
    \<and> (why = [] \<longleftrightarrow> yes \<or> \<not> isSharedCacheEligiblePath (path_bytes path) 0)"
proof -
  note answers = known_platforms_answer [OF known, of path]
  have excludes: "anyPlatformExcludes m (\<lambda>q. platformExcludesSharedCache q path) =
      Some (\<not> (\<forall>q\<in>set (platforms m). platformExcludesSharedCache q path = Some False))"
  proof -
    have "(\<exists>q\<in>set (platforms m). platformExcludesSharedCache q path = Some True) \<longleftrightarrow>
        \<not> (\<forall>q\<in>set (platforms m). platformExcludesSharedCache q path = Some False)"
      using answers by (metis not_None_eq option.inject)
    with answers ok show ?thesis by (simp add: anyPlatformExcludes_iff)
  qed
  show ?thesis
  proof (cases "isSharedCacheEligiblePath (path_bytes path) 0 \<and> isDylib m \<and> strcmp_eq m p path
    \<and> \<not> strstr path ''//'' \<and> \<not> strstr path ''./'' \<and> (\<forall>q\<in>set (platforms m). platformExcludesSharedCache q path = Some False)")
    case True
    then have "m p = of_char (CHR ''/'')" using eligible_absolute by blast
    with True have "canBePlacedInDyldCache B m path = dyldCacheChecks B m path"
      by (simp add: canBePlacedInDyldCache_def name isDylib_def excludes)
    with dyldCacheChecks_iff [OF ok, of B path] obtain r where "canBePlacedInDyldCache B m path = Some r"
        "verdict_ok r" "fst r \<longleftrightarrow> cache_worthy B m path"
      by (cases "dyldCacheChecks B m path") auto
    with True show ?thesis by (cases r) (auto simp: verdict_ok_def)
  next
    case False
    then show ?thesis
      using eligible_absolute [of path m p]
      by (auto simp: canBePlacedInDyldCache_def name isDylib_def excludes)
  qed
qed

text \<open>A two-level dylib named \<open>/usr/lib/a\<close> with split-segment information and an export trie, built for macOS.\<close>

definition cache_dylib :: memory where
  "cache_dylib = mem_words
     [0xFEEDFACF, 0x01000007, 3, 6, 4, 88, 0x80, 0,
      0xD, 40, 24, 0, 0x10000, 0x10000, 0x7273752F, 0x62696C2F, 0x0000612F, 0,
      0x1E, 16, 0, 0, 0x80000033, 16, 0, 0, 0x24, 16, 0xA0F00, 0xA0F00]"

lemma cache_dylib_list: "load_commands cache_dylib = [32, 72, 88, 104]" "\<not> malformed_commands cache_dylib"
  by (simp_all add: cache_dylib_def walk_eval)

lemma cache_dylib_cmds: "lc_cmd cache_dylib 32 = LC_ID_DYLIB" "lc_cmd cache_dylib 72 = LC_SEGMENT_SPLIT_INFO"
  "lc_cmd cache_dylib 88 = LC_DYLD_EXPORTS_TRIE" "lc_cmd cache_dylib 104 = LC_VERSION_MIN_MACOSX" "mh_filetype cache_dylib = MH_DYLIB" "mh_flags cache_dylib = 0x80"
  "mh_cputype cache_dylib = CPU_TYPE_X86_64"
  by (simp_all add: cache_dylib_def walk_eval)

lemma cache_dylib_name: "installName cache_dylib = Some (Some 56)" "strcmp_eq cache_dylib 56 ''/usr/lib/a''"
proof -
  have "read32 cache_dylib 40 = 24" by (simp add: cache_dylib_def walk_eval)
  then show "installName cache_dylib = Some (Some 56)"
    by (simp add: installName_def getDylibInstallName_def lcs.walk_items cache_dylib_list cache_dylib_cmds)
  show "strcmp_eq cache_dylib 56 ''/usr/lib/a''"
    by (simp add: strcmp_eq_def cache_dylib_def mem_words_def of_char_def)
qed

lemma cache_dylib_worthy: "cache_worthy dyld_build cache_dylib ''/usr/lib/a''"
  by (simp add: cache_worthy_def hasLoadCommand_iff cache_dylib_list cache_dylib_cmds dependents_def
      isDependentCommand_def sections_def segment_commands_def is_segment_command_def isVariantPath_def endsWith_def)

lemma cache_dylib_platforms: "platforms cache_dylib = [Platform_macOS]"
  by (simp add: supported_platforms_def cache_dylib_list cache_dylib_cmds platform_of_command_def
      List.map_filter_simps Let_def)

theorem canBePlacedInDyldCache_iff_witness:
  "\<exists>why. canBePlacedInDyldCache dyld_build cache_dylib ''/usr/lib/a'' = Some (True, why)"
proof -
  have "isSharedCacheEligiblePath (path_bytes ''/usr/lib/a'') 0"
    by (simp add: isSharedCacheEligiblePath_def path_bytes_def mem_of_def)
  moreover have "known_platforms cache_dylib" by (simp add: known_platforms_def cache_dylib_platforms)
  moreover have "platformExcludesSharedCache Platform_macOS ''/usr/lib/a'' = Some False"
    by (simp add: platformExcludesSharedCache_def platformExcludesSharedCache_macOS_def startsWith_def)
  ultimately show ?thesis
    using canBePlacedInDyldCache_iff [OF cache_dylib_list(2) cache_dylib_name(1), of dyld_build "''/usr/lib/a''"]
      cache_dylib_name(2) cache_dylib_worthy
    by (simp add: isDylib_def cache_dylib_cmds cache_dylib_platforms startsWith_def)
qed

lemma find_segment_flag:
  "forEachSegment m (\<lambda>found info. if P info then Some (True, True) else Some (found, False)) False =
     (if \<exists>seg\<in>set (segments m). P seg then Some True
      else if malformed_commands m then None else Some False)"
  by (auto simp: segs.walk_find [of m P "\<lambda>_. True"] find_None_iff find_Some_iff split: option.splits)

lemma main_or_thread:
  assumes "forEachLoadCommand m (\<lambda>(foundMain, foundThread) c.
      if lc_cmd m c = LC_MAIN then Some ((True, foundThread), True)
      else if lc_cmd m c = LC_UNIXTHREAD then Some ((foundMain, True), False)
      else Some ((foundMain, foundThread), False)) (False, False) = Some ((False, thread), None)"
  shows "\<not> hasLoadCommand m LC_MAIN \<and> thread = hasLoadCommand m LC_UNIXTHREAD \<and> \<not> malformed_commands m"
proof -
  let ?f = "\<lambda>(foundMain, foundThread) c.
      if lc_cmd m c = LC_MAIN then Some ((True, foundThread), True)
      else if lc_cmd m c = LC_UNIXTHREAD then Some ((foundMain, True), False)
      else Some ((foundMain, foundThread), False)"
  have spec: "forStop ?f (False, b) cs = Some ((False, t), stop) \<Longrightarrow> \<not> stop \<and>
      (\<forall>c\<in>set cs. lc_cmd m c \<noteq> LC_MAIN) \<and> (t \<longleftrightarrow> b \<or> (\<exists>c\<in>set cs. lc_cmd m c = LC_UNIXTHREAD))" for b t stop cs
    by (induction cs arbitrary: b) (auto split: if_splits)
  obtain stop where run: "forStop ?f (False, False) (load_commands m) = Some ((False, thread), stop)"
      and fin: "stop \<or> snd (load_commands_diag m) = None"
    using assms by (auto simp: forEachLoadCommand_list bind_eq_Some_conv split: if_splits)
  from spec [OF run] fin show ?thesis
    unfolding hasLoadCommand_iff malformed_commands_def by auto
qed

lemma xnuChecks_sound:
  assumes "xnuChecks m = Some None"
  shows "mh_flags m AND MH_TWOLEVEL = 0 \<and> isStaticExecutable m \<and> isPIE m
    \<and> hasLoadCommand m LC_UNIXTHREAD \<and> \<not> hasLoadCommand m LC_MAIN
    \<and> (\<forall>seg\<in>set (segments m). \<not> strcmp_eq m (segName seg) ''__PAGEZERO'')"
  using assms main_or_thread [of m True]
  unfolding xnuChecks_def find_segment_flag
  by (fastforce simp: bind_eq_Some_conv diag_defs split: if_splits)

lemma collectionChecks_sound:
  assumes "collectionChecks B m = Some None"
  shows "\<not> malformed_commands m \<and> (\<forall>p\<in>set (sections m). \<not> isInterposingSection m (fst p))
    \<and> (isArch B m ''x86_64'' \<or> isArch B m ''x86_64h''
       \<or> (\<forall>seg\<in>set (segments m). \<not> (seg_writable seg \<and> seg_executable seg)))"
  using assms
  unfolding collectionChecks_def find_segment_flag hasInterposingTuples_def [symmetric] hasInterposingTuples_iff
  by (auto simp: bind_eq_Some_conv seg_writable_def seg_executable_def and_6_eq_6 split: if_splits)

text \<open>
  C34: a file accepted by \<open>canBePlacedInKernelCollection\<close> is a kernel or a kext; a kernel is
  static, position independent, single-level, enters through \<open>LC_UNIXTHREAD\<close> and not
  \<open>LC_MAIN\<close>, and maps no \<open>__PAGEZERO\<close>; nothing interposes, and except on x86\_64 no segment is
  both writable and executable.
\<close>

theorem canBePlacedInKernelCollection_sound:
  assumes "canBePlacedInKernelCollection B m = Some (True, why)"
  shows "why = [] \<and> \<not> malformed_commands m \<and> (mh_filetype m = MH_EXECUTE \<or> isKextBundle m)
    \<and> (mh_filetype m = MH_EXECUTE \<longrightarrow>
         mh_flags m AND MH_TWOLEVEL = 0 \<and> isStaticExecutable m \<and> isPIE m
         \<and> hasLoadCommand m LC_UNIXTHREAD \<and> \<not> hasLoadCommand m LC_MAIN
         \<and> (\<forall>seg\<in>set (segments m). \<not> strcmp_eq m (segName seg) ''__PAGEZERO''))
    \<and> (\<forall>p\<in>set (sections m). \<not> isInterposingSection m (fst p))
    \<and> (isArch B m ''x86_64'' \<or> isArch B m ''x86_64h''
       \<or> (\<forall>seg\<in>set (segments m). \<not> (seg_writable seg \<and> seg_executable seg)))"
  using assms xnuChecks_sound [of m] collectionChecks_sound [of B m]
  by (auto simp: canBePlacedInKernelCollection_def bind_eq_Some_conv split: if_splits option.splits)

text \<open>An arm64 kext with one segment that is readable and executable.\<close>

definition sample_kext :: memory where
  "sample_kext = mem_words
     [0xFEEDFACF, 0x0100000C, 0, 11, 1, 72, 0, 0,
      0x19, 72, 0x45545F5F, 0x00005458, 0, 0, 0, 0, 0x4000, 0, 0, 0, 0x4000, 0, 5, 5, 0, 0]"

lemma sample_kext_list:
  "load_commands sample_kext = [32]" "\<not> malformed_commands sample_kext" "lc_cmd sample_kext 32 = LC_SEGMENT_64"
  "mh_filetype sample_kext = MH_KEXT_BUNDLE" "read32 sample_kext 96 = 0" "read32 sample_kext 92 = 5"
  by (simp_all add: sample_kext_def walk_eval)

lemma sample_kext_segments:
  "map protections (segments sample_kext) = [5]" "sections sample_kext = []"
  by (simp_all add: segments_def sections_def segment_commands_def is_segment_command_def sample_kext_list
      segment_info_def segment_info64_def section_infos_def sections64_def section_scan64_def)

theorem canBePlacedInKernelCollection_sound_witness:
  "canBePlacedInKernelCollection dyld_build sample_kext = Some (True, [])
   \<and> (isArch dyld_build sample_kext ''x86_64'' \<or> isArch dyld_build sample_kext ''x86_64h''
       \<or> (\<forall>seg\<in>set (segments sample_kext). \<not> (seg_writable seg \<and> seg_executable seg)))"
proof -
  have prot: "protections seg = 5" if "seg \<in> set (segments sample_kext)" for seg
    using that arg_cong [OF sample_kext_segments(1), of set] by auto
  have cpu: "mh_cputype sample_kext = CPU_TYPE_ARM64" "mh_cpusubtype sample_kext = 0"
    by (simp_all add: sample_kext_def walk_eval)
  have "collectionChecks dyld_build sample_kext = Some None"
    unfolding collectionChecks_def find_segment_flag hasInterposingTuples_def [symmetric] hasInterposingTuples_iff
    using prot by (auto simp: sample_kext_segments sample_kext_list isArch_def archName_def cpu s_archInfos_def
        archInfo_def masked_subtype_def dyld_build_def)
  then have "canBePlacedInKernelCollection dyld_build sample_kext = Some (True, [])"
    by (simp add: canBePlacedInKernelCollection_def isKextBundle_def sample_kext_list)
  then show ?thesis using canBePlacedInKernelCollection_sound by blast
qed

end
