(* ===== verification/Leb128.thy ===== *)
theory Leb128
  imports Dyld_Prelude
begin

text \<open>
  The variable-length integers of the linkedit data: \<open>read_uleb128\<close> and \<open>read_sleb128\<close> of
  \<open>src/dyld3/MachOFile.cpp\<close>, and the encoder and strict parser of \<open>TrieUtils\<close>
  (\<open>src/dyld3/shared-cache/Trie.hpp\<close>). \<open>leb_value\<close> is the number a byte sequence denotes. The
  interface \<open>uleb_decoder\<close> says what every unsigned decoder promises; both decoders provide it.
\<close>

section \<open>The decoders\<close>

text \<open>The loop of \<open>read_uleb128\<close>: the value, the advanced pointer and the error, if any.\<close>

function uleb_loop :: "memory \<Rightarrow> nat \<Rightarrow> nat \<Rightarrow> nat \<Rightarrow> u64 \<Rightarrow> u64 \<times> nat \<times> diag" where
  "uleb_loop m end p sh result =
     (if p = end then (result, p, Some ''malformed uleb128'')
      else if sh > 63 then (result, p, Some ''uleb128 too big for uint64'')
      else
        (let slice = ucast (m p AND 0x7F) :: u64; result' = result OR push_bit sh slice
         in if m p AND 0x80 \<noteq> 0 then uleb_loop m end (p + 1) (sh + 7) result'
            else (result', p + 1, None)))"
  by pat_completeness auto
termination
  by (relation "measure (\<lambda>(m, end, p, sh, result). 64 - sh)") auto

declare uleb_loop.simps [simp del]

definition read_uleb128 :: "memory \<Rightarrow> nat \<Rightarrow> nat \<Rightarrow> u64 \<times> nat \<times> diag" where
  "read_uleb128 m p end = uleb_loop m end p 0 0"

text \<open>
  \<open>read_sleb128\<close> has no test on the shift \<open>bit\<close> (\<open>sh\<close> here): shifting a 64-bit value by 64 or more is undefined, and
  \<open>None\<close> stands for that. \<open>byte\<close> keeps the last byte read, also when the input ends.
\<close>

function sleb_loop :: "memory \<Rightarrow> nat \<Rightarrow> nat \<Rightarrow> nat \<Rightarrow> u8 \<Rightarrow> u64 \<Rightarrow> (u64 \<times> nat \<times> nat \<times> u8 \<times> diag) option" where
  "sleb_loop m end p sh byte result =
     (if p = end then Some (result, p, sh, byte, Some ''malformed sleb128'')
      else if sh \<ge> 64 then None
      else
        (let byte' = m p; result' = result OR push_bit sh (ucast (byte' AND 0x7F))
         in if byte' AND 0x80 \<noteq> 0 then sleb_loop m end (p + 1) (sh + 7) byte' result'
            else Some (result', p + 1, sh + 7, byte', None)))"
  by pat_completeness auto
termination
  by (relation "measure (\<lambda>(m, end, p, sh, byte, result). 64 - sh)") auto

declare sleb_loop.simps [simp del]

definition read_sleb128 :: "memory \<Rightarrow> nat \<Rightarrow> nat \<Rightarrow> (u64 \<times> nat \<times> diag) option" where
  "read_sleb128 m p end =
     Option.bind (sleb_loop m end p 0 0 0) (\<lambda>(result, p', sh, byte, d).
       Some (if byte AND 0x40 \<noteq> 0 \<and> sh < 64 then result OR push_bit sh (-1) else result, p', d))"

text \<open>\<open>TrieUtils::parse_uleb128\<close>: the verdict, the advanced pointer and \<open>result\<close>.\<close>

function parse_loop :: "memory \<Rightarrow> nat \<Rightarrow> nat \<Rightarrow> nat \<Rightarrow> u64 \<Rightarrow> bool \<times> nat \<times> u64" where
  "parse_loop m end p sh result =
     (if p = end then (False, p, result)
      else
        (let slice = ucast (m p AND 0x7F) :: u64
         in if sh \<ge> 64 \<or> drop_bit sh (push_bit sh slice) \<noteq> slice then (False, p, result)
            else
              (let result' = result OR push_bit sh slice
               in if m p AND 0x80 \<noteq> 0 then parse_loop m end (p + 1) (sh + 7) result'
                  else (True, p + 1, result'))))"
  by pat_completeness auto
termination
  by (relation "measure (\<lambda>(m, end, p, sh, result). 64 - sh)") auto

declare parse_loop.simps [simp del]

definition parse_uleb128 :: "memory \<Rightarrow> nat \<Rightarrow> nat \<Rightarrow> bool \<times> nat \<times> u64" where
  "parse_uleb128 m p end = parse_loop m end p 0 0"

section \<open>The encoder\<close>

lemma unat_and_not_7F: "unat ((v::u64) AND NOT 0x7F) = 128 * (unat v div 128)"
proof -
  have "(0x7F::u64) = mask 7" by (simp add: mask_eq_exp_minus_1)
  moreover have "v AND NOT (mask 7) = push_bit 7 (drop_bit 7 v)"
    by (rule bit_word_eqI) (auto simp: bit_simps)
  moreover have "unat v div 128 * 128 < 18446744073709551616"
    using unat_u64_less [of v] by (meson div_times_less_eq_dividend le_less_trans)
  ultimately show ?thesis
    by (simp add: push_bit_eq_mult drop_bit_eq_div unat_word_ariths unat_div mult.commute)
qed

lemma unat_and_m128: "unat ((v::u64) AND - 128) = 128 * (unat v div 128)"
  using unat_and_not_7F [of v] by simp

lemma unat_and_7F: "unat ((v::u64) AND 0x7F) = unat v mod 128" "unat ((b::u8) AND 0x7F) = unat b mod 128"
proof -
  have "v AND 0x7F = take_bit 7 v" "b AND 0x7F = take_bit 7 b"
    by (simp_all add: take_bit_eq_mask mask_eq_exp_minus_1)
  then show "unat (v AND 0x7F) = unat v mod 128" "unat (b AND 0x7F) = unat b mod 128"
    by (simp_all add: take_bit_eq_mod unat_mod)
qed

lemma bit_byte: "bit (b::u8) n \<longleftrightarrow> odd (unat b div 2 ^ n)"
proof -
  have "bit b n \<longleftrightarrow> bit (unat b) n" by (simp add: bit_unsigned_iff)
  then show ?thesis by (simp add: bit_iff_odd)
qed

lemma byte_and_80: "(b::u8) AND 0x80 \<noteq> 0 \<longleftrightarrow> 128 \<le> unat b"
proof -
  have "unat b div 128 \<le> 1" using unat_u8_less [of b] by simp
  then have "odd (unat b div 128) \<longleftrightarrow> unat b div 128 \<noteq> 0" by (cases "unat b div 128") auto
  then show ?thesis using and_exp_word [of b 7] bit_byte [of b 7] by (simp add: div_eq_0_iff not_less)
qed

lemma byte_and_40: "(b::u8) AND 0x40 \<noteq> 0 \<longleftrightarrow> 64 \<le> unat b mod 128"
proof -
  have "unat b div 64 mod 2 = unat b mod 128 div 64" using mod_mult2_eq [of "unat b" 64 2] by simp
  then have "odd (unat b div 64) \<longleftrightarrow> unat b mod 128 div 64 \<noteq> 0" by (metis mod2_eq_if odd_iff_mod_2_eq_one zero_neq_one)
  then show ?thesis using and_exp_word [of b 6] bit_byte [of b 6] by (simp add: div_eq_0_iff not_less)
qed

lemma byte_or_80: "unat (b::u8) < 128 \<Longrightarrow> unat (b OR 0x80) = unat b + 128"
proof -
  assume b: "unat b < 128"
  then have "b AND 0x80 = 0" using byte_and_80 [of b] by simp
  then have "b OR 0x80 = b + 0x80" by (simp add: disjunctive_add_eq_or)
  with b show ?thesis by (simp add: unat_word_ariths)
qed

function append_uleb128 :: "u64 \<Rightarrow> u8 list" where
  "append_uleb128 v =
     (let byte = ucast (v AND 0x7F) :: u8;
          v1 = v AND NOT 0x7F;
          byte1 = (if v1 \<noteq> 0 then byte OR 0x80 else byte);
          v2 = drop_bit 7 v1
      in if byte1 \<ge> 0x80 then byte1 # append_uleb128 v2 else [byte1])"
  by pat_completeness auto
termination
proof (relation "measure unat")
  fix v :: u64 and byte v1 byte1 v2
  assume *: "byte = (ucast (v AND 0x7F) :: u8)" "v1 = v AND NOT 0x7F"
    "byte1 = (if v1 \<noteq> 0 then byte OR 0x80 else byte)" "v2 = drop_bit 7 v1" "0x80 \<le> byte1"
  have "unat byte < 128"
    by (simp add: * unsigned_ucast_eq unat_and_7F take_bit_eq_mod)
  then have "v1 \<noteq> 0" using * by (auto simp: word_le_nat_alt)
  then have "unat v1 \<noteq> 0" by (simp add: unat_eq_0)
  then show "(v2, v) \<in> measure unat"
    by (simp add: * drop_bit_eq_div unat_div unat_and_m128)
qed simp

declare append_uleb128.simps [simp del]

text \<open>\<open>uleb128_size\<close>: the do-while loop that counts shifts by seven.\<close>

function uleb128_size :: "u64 \<Rightarrow> u32" where
  "uleb128_size v = (let v' = drop_bit 7 v in if v' \<noteq> 0 then 1 + uleb128_size v' else 1)"
  by pat_completeness auto
termination
proof (relation "measure unat")
  fix v v' :: u64
  assume "v' = drop_bit 7 v" "v' \<noteq> 0"
  then show "(v', v) \<in> measure unat"
    by (simp add: drop_bit_eq_div unat_div) (metis div_0 div_less_dividend gr_zeroI numeral_One one_less_numeral_iff semiring_norm(76) unat_eq_0)
qed simp

declare uleb128_size.simps [simp del]

section \<open>The number a byte sequence denotes\<close>

fun leb_value :: "u8 list \<Rightarrow> nat" where
  "leb_value [] = 0"
| "leb_value (b # bs) = unat b mod 128 + 128 * leb_value bs"

text \<open>Every byte but the last has its continuation bit set.\<close>

fun leb_terminated :: "u8 list \<Rightarrow> bool" where
  "leb_terminated [] \<longleftrightarrow> False"
| "leb_terminated [b] \<longleftrightarrow> unat b < 128"
| "leb_terminated (b # bs) \<longleftrightarrow> 128 \<le> unat b \<and> leb_terminated bs"

lemma leb_terminated_Cons:
  "leb_terminated (b # bs) \<longleftrightarrow> (if unat b < 128 then bs = [] else leb_terminated bs)"
  by (cases bs) auto

lemma map_upt_Cons: "p < q \<Longrightarrow> map m [p ..< q] = m p # map m [Suc p ..< q]"
  by (simp add: upt_conv_Cons)

lemma map_upt_ConsD:
  assumes "map m [p ..< p + length (b # bs)] = b # bs"
  shows "m p = b" and "map m [Suc p ..< Suc p + length bs] = bs"
  using assms map_upt_Cons [of p "p + length (b # bs)" m] by (simp_all del: upt_Suc)

text \<open>One step of a decoder: the next seven bits above the ones collected so far.\<close>

lemma or_push_slice:
  assumes "n < 2 ^ sh"
  shows "(of_nat n :: u64) OR push_bit sh (ucast (b AND 0x7F :: u8)) = of_nat (n + 2 ^ sh * (unat b mod 128))"
proof -
  have "(of_nat n :: u64) = take_bit sh (of_nat n)"
    using assms by (metis take_bit_nat_eq_self take_bit_of_nat)
  then have "(of_nat n :: u64) AND push_bit sh x = 0" for x
    by (metis (no_types, lifting) bit_and_iff bit_eqI bit_push_bit_iff bit_take_bit_iff bit_0_eq bot_apply bot_bool_def not_less)
  then have "(of_nat n :: u64) OR push_bit sh x = of_nat n + 2 ^ sh * x" for x
    by (simp add: disjunctive_add_eq_or [symmetric] push_bit_eq_mult mult.commute)
  moreover have "(ucast (b AND 0x7F) :: u64) = of_nat (unat b mod 128)"
    by (simp flip: unat_and_7F(2))
  ultimately show ?thesis by simp
qed

lemma slice_step: "n < 2 ^ sh \<Longrightarrow> n + 2 ^ sh * (k mod 128) < (2::nat) ^ (sh + 7)"
proof -
  assume "n < 2 ^ sh"
  moreover have "2 ^ sh * (k mod 128) \<le> 2 ^ sh * (127::nat)" by simp
  ultimately have "n + 2 ^ sh * (k mod 128) < 2 ^ sh + 2 ^ sh * 127" by linarith
  then show ?thesis by (simp add: power_add)
qed

section \<open>What the decoders compute\<close>

lemma uleb_loop_sound:
  assumes "uleb_loop m e p sh r = (r', q, None)" and "r = of_nat n" and "n < 2 ^ sh" and "p \<le> e"
  shows "p < q \<and> q \<le> e \<and> sh + 7 * (q - Suc p) \<le> 63 \<and> leb_terminated (map m [p ..< q])
    \<and> r' = of_nat (n + 2 ^ sh * leb_value (map m [p ..< q]))"
  using assms
proof (induction m e p sh r arbitrary: n rule: uleb_loop.induct)
  case (1 m e p sh r)
  from "1.prems"(1) have pe: "p \<noteq> e" "\<not> sh > 63" by (auto simp: uleb_loop.simps [of m e p] split: if_splits)
  let ?n = "n + 2 ^ sh * (unat (m p) mod 128)"
  have r: "r OR push_bit sh (ucast (m p AND 0x7F)) = of_nat ?n"
    unfolding "1.prems"(2) by (rule or_push_slice [OF "1.prems"(3)])
  show ?case
  proof (cases "m p AND 0x80 \<noteq> 0")
    case True
    then have "uleb_loop m e (p + 1) (sh + 7) (r OR push_bit sh (ucast (m p AND 0x7F))) = (r', q, None)"
      using "1.prems"(1) pe by (simp add: uleb_loop.simps [of m e p] Let_def)
    from "1.IH" [OF pe refl refl True this r slice_step [OF "1.prems"(3)]] pe(1) "1.prems"(4)
    show ?thesis using True by (auto simp: map_upt_Cons byte_and_80 leb_terminated_Cons power_add algebra_simps)
  next
    case False
    then have "q = Suc p" "r' = of_nat ?n" "unat (m p) < 128"
      using "1.prems"(1) pe r byte_and_80 [of "m p"] by (auto simp: uleb_loop.simps [of m e p] Let_def)
    with pe "1.prems"(4) show ?thesis by simp
  qed
qed

lemma uleb_loop_complete:
  assumes "map m [p ..< p + length bs] = bs" and "leb_terminated bs" and "p + length bs \<le> e"
    and "sh + 7 * (length bs - 1) \<le> 63" and "n < 2 ^ sh"
  shows "uleb_loop m e p sh (of_nat n) = (of_nat (n + 2 ^ sh * leb_value bs), p + length bs, None)"
  using assms
proof (induction bs arbitrary: p sh n)
  case (Cons b bs)
  note b = map_upt_ConsD(1) [OF Cons.prems(1)] and bs = map_upt_ConsD(2) [OF Cons.prems(1)]
  have pe: "p \<noteq> e" "\<not> sh > 63" using Cons.prems by auto
  note r = or_push_slice [OF Cons.prems(5), of b]
  show ?case
  proof (cases "unat b < 128")
    case True
    with Cons.prems(2) have "bs = []" by (simp add: leb_terminated_Cons)
    with True pe r b byte_and_80 [of b] show ?thesis by (simp add: uleb_loop.simps [of m e p] Let_def)
  next
    case False
    then have more: "b AND 0x80 \<noteq> 0" and t: "leb_terminated bs"
      using Cons.prems(2) byte_and_80 [of b] by (simp_all add: leb_terminated_Cons)
    then have "bs \<noteq> []" by auto
    then have "sh + 7 + 7 * (length bs - 1) \<le> 63" using Cons.prems(4) by (cases bs) auto
    from Cons.IH [OF bs t _ this slice_step [OF Cons.prems(5)], of "unat b"] Cons.prems(3) pe b more r
    show ?thesis by (simp add: uleb_loop.simps [of m e p] Let_def power_add algebra_simps)
  qed
qed simp

text \<open>\<open>slice << bit >> bit == slice\<close>: the shifted slice still fits 64 bits.\<close>

lemma shift_fits: "sh < 64 \<Longrightarrow> drop_bit sh (push_bit sh (x::u64)) = x \<longleftrightarrow> 2 ^ sh * unat x < 2 ^ 64"
proof -
  assume sh: "sh < 64"
  have "drop_bit sh (push_bit sh x) = take_bit (64 - sh) x"
    by (rule bit_word_eqI) (auto simp: bit_simps)
  then have "drop_bit sh (push_bit sh x) = x \<longleftrightarrow> take_bit (64 - sh) (unat x) = unat x"
    by (metis unsigned_take_bit_eq word_unat_eq_iff)
  also have "\<dots> \<longleftrightarrow> unat x < 2 ^ (64 - sh)" by (simp add: take_bit_nat_eq_self_iff)
  also have "\<dots> \<longleftrightarrow> 2 ^ sh * unat x < 2 ^ sh * 2 ^ (64 - sh)" by simp
  also have "(2::nat) ^ sh * 2 ^ (64 - sh) = 2 ^ 64" using sh by (simp flip: power_add)
  finally show ?thesis .
qed

lemma unat_slice: "unat (ucast ((b::u8) AND 0x7F) :: u64) = unat b mod 128"
  using unat_u8_less [of b] by (simp add: unsigned_ucast_eq unat_and_7F take_bit_eq_mod)

lemma shift_room:
  assumes "sh < 64" and "2 ^ sh * k < (2::nat) ^ 64"
  shows "2 ^ sh * k + 2 ^ sh \<le> (2::nat) ^ 64"
proof -
  have split: "(2::nat) ^ 64 = 2 ^ sh * 2 ^ (64 - sh)" using assms(1) by (simp flip: power_add)
  have "2 ^ sh * k < 2 ^ sh * (2::nat) ^ (64 - sh)" using assms(2) unfolding split .
  then have "Suc k \<le> 2 ^ (64 - sh)" by (simp only: nat_mult_less_cancel_disj Suc_le_eq)
  then have "2 ^ sh * Suc k \<le> 2 ^ sh * 2 ^ (64 - sh)" by (rule mult_le_mono2)
  with split show ?thesis by simp
qed

lemma parse_loop_sound:
  assumes "parse_loop m e p sh r = (True, q, r')" and "r = of_nat n" and "n < 2 ^ sh" and "p \<le> e"
  shows "uleb_loop m e p sh r = (r', q, None) \<and> (n < 2 ^ 64 \<longrightarrow> n + 2 ^ sh * leb_value (map m [p ..< q]) < 2 ^ 64)"
  using assms
proof (induction m e p sh r arbitrary: n rule: parse_loop.induct)
  case (1 m e p sh r)
  let ?n = "n + 2 ^ sh * (unat (m p) mod 128)"
  from "1.prems"(1) have pe: "p \<noteq> e"
      and fits: "\<not> (64 \<le> sh \<or> drop_bit sh (push_bit sh (ucast (m p AND 0x7F) :: u64)) \<noteq> ucast (m p AND 0x7F))"
    by (auto simp: parse_loop.simps [of m e p] Let_def split: if_splits)
  then have sh: "sh < 64" and shifted: "2 ^ sh * (unat (m p) mod 128) < (2::nat) ^ 64"
    using shift_fits [of sh "ucast (m p AND 0x7F)"] by (auto simp: unat_slice)
  have r: "r OR push_bit sh (ucast (m p AND 0x7F)) = of_nat ?n"
    unfolding "1.prems"(2) by (rule or_push_slice [OF "1.prems"(3)])
  have small: "?n < 2 ^ 64" using shift_room [OF sh shifted] "1.prems"(3) by simp
  show ?case
  proof (cases "m p AND 0x80 \<noteq> 0")
    case True
    then have "parse_loop m e (p + 1) (sh + 7) (r OR push_bit sh (ucast (m p AND 0x7F))) = (True, q, r')"
      using "1.prems"(1) pe fits by (simp add: parse_loop.simps [of m e p] Let_def)
    from "1.IH" [OF pe refl fits refl True this r slice_step [OF "1.prems"(3)]] pe "1.prems"(4)
    have IH: "uleb_loop m e (p + 1) (sh + 7) (r OR push_bit sh (ucast (m p AND 0x7F))) = (r', q, None)"
        "?n + 2 ^ (sh + 7) * leb_value (map m [p + 1 ..< q]) < 2 ^ 64" using small by auto
    moreover have "p + 1 < q" using uleb_loop_sound [OF IH(1) r slice_step [OF "1.prems"(3)]] pe "1.prems"(4) by simp
    ultimately show ?thesis
      using True pe sh by (simp add: uleb_loop.simps [of m e p] Let_def map_upt_Cons power_add algebra_simps)
  next
    case False
    then have "q = p + 1" "r' = of_nat ?n"
      using "1.prems"(1) pe fits r by (auto simp: parse_loop.simps [of m e p] Let_def)
    with False pe sh r small show ?thesis by (simp add: uleb_loop.simps [of m e p] Let_def)
  qed
qed

lemma parse_loop_complete:
  assumes "map m [p ..< p + length bs] = bs" and "leb_terminated bs" and "p + length bs \<le> e"
    and "sh + 7 * (length bs - 1) \<le> 63" and "n < 2 ^ sh" and "n + 2 ^ sh * leb_value bs < 2 ^ 64"
  shows "parse_loop m e p sh (of_nat n) = (True, p + length bs, of_nat (n + 2 ^ sh * leb_value bs))"
  using assms
proof (induction bs arbitrary: p sh n)
  case (Cons b bs)
  note b = map_upt_ConsD(1) [OF Cons.prems(1)] and bs = map_upt_ConsD(2) [OF Cons.prems(1)]
  have pe: "p \<noteq> e" "sh < 64" using Cons.prems by auto
  have total: "n + 2 ^ sh * leb_value (b # bs) = n + 2 ^ sh * (unat b mod 128) + 2 ^ (sh + 7) * leb_value bs"
    by (simp add: power_add algebra_simps)
  then have "2 ^ sh * (unat b mod 128) < (2::nat) ^ 64" using Cons.prems(6) by linarith
  then have fits: "drop_bit sh (push_bit sh (ucast (b AND 0x7F) :: u64)) = ucast (b AND 0x7F)"
    using shift_fits [OF pe(2)] by (simp add: unat_slice)
  note r = or_push_slice [OF Cons.prems(5), of b]
  show ?case
  proof (cases "unat b < 128")
    case True
    with Cons.prems(2) have "bs = []" by (simp add: leb_terminated_Cons)
    with True pe fits r b byte_and_80 [of b] show ?thesis by (simp add: parse_loop.simps [of m e p] Let_def)
  next
    case False
    then have more: "b AND 0x80 \<noteq> 0" and t: "leb_terminated bs"
      using Cons.prems(2) byte_and_80 [of b] by (simp_all add: leb_terminated_Cons)
    then have "sh + 7 + 7 * (length bs - 1) \<le> 63" using Cons.prems(4) by (cases bs) auto
    from Cons.IH [OF bs t _ this slice_step [OF Cons.prems(5)], of "unat b"] Cons.prems(3,6) total pe b more r fits
    show ?thesis by (simp add: parse_loop.simps [of m e p] Let_def power_add algebra_simps)
  qed
qed simp

section \<open>The interface of a decoder\<close>

lemma append_uleb128_value:
  "leb_terminated (append_uleb128 v) \<and> leb_value (append_uleb128 v) = unat v
    \<and> of_nat (length (append_uleb128 v)) = uleb128_size v \<and> unat v < 128 ^ length (append_uleb128 v)
    \<and> (length (append_uleb128 v) = 1 \<or> 128 ^ (length (append_uleb128 v) - 1) \<le> unat v)"
proof (induction v rule: append_uleb128.induct)
  case (1 v)
  define byte v1 where "byte = (ucast (v AND 0x7F) :: u8)" and "v1 = v AND NOT 0x7F"
  have byte: "unat byte = unat v mod 128"
    by (simp add: byte_def unsigned_ucast_eq unat_and_7F take_bit_eq_mod)
  have v1: "unat v1 = 128 * (unat v div 128)" "unat (drop_bit 7 v1) = unat v div 128" "drop_bit 7 v1 = drop_bit 7 v"
    by (simp_all add: v1_def unat_and_m128 drop_bit_eq_div unat_div word_unat_eq_iff)
  show ?case
  proof (cases "unat v < 128")
    case True
    then have "v1 = 0" "unat (drop_bit 7 v) = 0" using v1 by (simp_all add: word_unat_eq_iff)
    then have "append_uleb128 v = [byte]" "uleb128_size v = 1"
      using True byte by (simp_all add: append_uleb128.simps [of v] uleb128_size.simps [of v] Let_def
          word_le_nat_alt word_unat_eq_iff byte_def [symmetric] v1_def [symmetric, simplified])
    with True byte show ?thesis by simp
  next
    case False
    then have "v1 \<noteq> 0" "drop_bit 7 v \<noteq> 0" using v1 by (simp_all add: word_unat_eq_iff)
    have b1: "unat (byte OR 0x80) = unat v mod 128 + 128" using byte by (simp add: byte_or_80)
    then have ge: "0x80 \<le> byte OR 0x80" by (simp add: word_le_nat_alt)
    with \<open>v1 \<noteq> 0\<close> have app: "append_uleb128 v = (byte OR 0x80) # append_uleb128 (drop_bit 7 v)"
      using v1(3) ge by (simp add: append_uleb128.simps [of v] Let_def byte_def [symmetric] v1_def [symmetric, simplified])
    have size: "uleb128_size v = 1 + uleb128_size (drop_bit 7 v)"
      using \<open>drop_bit 7 v \<noteq> 0\<close> by (simp add: uleb128_size.simps [of v] Let_def)
    let ?l = "length (append_uleb128 (drop_bit 7 v))"
    have IH: "leb_terminated (append_uleb128 (drop_bit 7 v)) \<and> leb_value (append_uleb128 (drop_bit 7 v)) = unat v div 128
      \<and> of_nat ?l = uleb128_size (drop_bit 7 v) \<and> unat v div 128 < 128 ^ ?l
      \<and> (?l = 1 \<or> 128 ^ (?l - 1) \<le> unat v div 128)"
      using "1" [OF byte_def v1_def refl refl] \<open>v1 \<noteq> 0\<close> ge v1 by simp
    have "?l \<noteq> 0" using IH by auto
    then obtain k where k: "?l = Suc k" by (cases ?l) auto
    have "unat v < 128 * 128 ^ ?l" using IH by (simp add: div_less_iff_less_mult mult.commute)
    moreover have "128 ^ ?l \<le> unat v"
      using IH False k by (auto simp: less_eq_div_iff_mult_less_eq mult.commute)
    ultimately show ?thesis using IH b1 by (simp add: app size leb_terminated_Cons)
  qed
qed

lemma append_uleb128_length: "length (append_uleb128 v) \<le> 10"
proof (rule ccontr)
  assume "\<not> length (append_uleb128 v) \<le> 10"
  then have len: "10 \<le> length (append_uleb128 v) - 1" by simp
  have "(128::nat) ^ 10 \<le> 128 ^ (length (append_uleb128 v) - 1)" by (rule power_increasing [OF len]) simp
  then have "(128::nat) ^ 10 \<le> unat v" using append_uleb128_value [of v] len by auto
  then show False using unat_u64_less [of v] by simp
qed

text \<open>
  A decoder returns the value and the address behind it, or nothing. It accepts only
  terminated sequences of at most ten bytes before \<open>end\<close>, its value is the one they denote
  (modulo \<open>2^64\<close>), and it accepts every such sequence whose value fits.
\<close>

locale uleb_decoder =
  fixes decode :: "memory \<Rightarrow> nat \<Rightarrow> nat \<Rightarrow> (u64 \<times> nat) option"
  assumes decode_sound: "p \<le> e \<Longrightarrow> decode m p e = Some (v, q) \<Longrightarrow>
      p < q \<and> q \<le> e \<and> q \<le> p + 10 \<and> leb_terminated (map m [p ..< q]) \<and> v = of_nat (leb_value (map m [p ..< q]))"
    and decode_complete: "map m [p ..< p + length bs] = bs \<Longrightarrow> leb_terminated bs \<Longrightarrow> p + length bs \<le> e \<Longrightarrow>
      length bs \<le> 10 \<Longrightarrow> leb_value bs < 2 ^ 64 \<Longrightarrow> decode m p e = Some (of_nat (leb_value bs), p + length bs)"
begin

lemma decode_append:
  assumes "map m [p ..< p + length (append_uleb128 v)] = append_uleb128 v" and "p + length (append_uleb128 v) \<le> e"
  shows "decode m p e = Some (v, p + length (append_uleb128 v))"
  using decode_complete [OF assms(1) _ assms(2)] append_uleb128_value [of v] append_uleb128_length [of v]
    unat_u64_less [of v] by simp

lemma decode_empty: "decode m e e = None"
proof (cases "decode m e e")
  case (Some vq)
  then show ?thesis using decode_sound [of e e m "fst vq" "snd vq"] by auto
qed

end

definition read_uleb128_ok :: "memory \<Rightarrow> nat \<Rightarrow> nat \<Rightarrow> (u64 \<times> nat) option" where
  "read_uleb128_ok m p e = (case read_uleb128 m p e of (v, q, None) \<Rightarrow> Some (v, q) | _ \<Rightarrow> None)"

definition parse_uleb128_ok :: "memory \<Rightarrow> nat \<Rightarrow> nat \<Rightarrow> (u64 \<times> nat) option" where
  "parse_uleb128_ok m p e = (case parse_uleb128 m p e of (ok, q, v) \<Rightarrow> if ok then Some (v, q) else None)"

lemma read_uleb128_ok_iff: "read_uleb128_ok m p e = Some (v, q) \<longleftrightarrow> read_uleb128 m p e = (v, q, None)"
  by (auto simp: read_uleb128_ok_def split: prod.splits option.splits)

lemma parse_uleb128_ok_iff: "parse_uleb128_ok m p e = Some (v, q) \<longleftrightarrow> parse_uleb128 m p e = (True, q, v)"
  by (auto simp: parse_uleb128_ok_def split: prod.splits if_splits)

interpretation rd: uleb_decoder read_uleb128_ok
proof
  fix p e :: nat and m v q
  assume "p \<le> e" "read_uleb128_ok m p e = Some (v, q)"
  then show "p < q \<and> q \<le> e \<and> q \<le> p + 10 \<and> leb_terminated (map m [p ..< q]) \<and> v = of_nat (leb_value (map m [p ..< q]))"
    using uleb_loop_sound [of m e p 0 0 v q 0] by (auto simp: read_uleb128_ok_iff read_uleb128_def)
next
  fix m :: memory and p e :: nat and bs
  assume "map m [p ..< p + length bs] = bs" "leb_terminated bs" "p + length bs \<le> e" "length bs \<le> 10"
  then show "read_uleb128_ok m p e = Some (of_nat (leb_value bs), p + length bs)"
    using uleb_loop_complete [of m p bs e 0 0] by (simp add: read_uleb128_ok_iff read_uleb128_def)
qed

interpretation ps: uleb_decoder parse_uleb128_ok
proof
  fix p e :: nat and m v q
  assume *: "p \<le> e" "parse_uleb128_ok m p e = Some (v, q)"
  then have "read_uleb128_ok m p e = Some (v, q)"
    using parse_loop_sound [of m e p 0 0 q v 0]
    by (simp add: parse_uleb128_ok_iff parse_uleb128_def read_uleb128_ok_iff read_uleb128_def)
  with * show "p < q \<and> q \<le> e \<and> q \<le> p + 10 \<and> leb_terminated (map m [p ..< q]) \<and> v = of_nat (leb_value (map m [p ..< q]))"
    using rd.decode_sound by blast
next
  fix m :: memory and p e :: nat and bs
  assume "map m [p ..< p + length bs] = bs" "leb_terminated bs" "p + length bs \<le> e" "length bs \<le> 10"
    "leb_value bs < 2 ^ 64"
  then show "parse_uleb128_ok m p e = Some (of_nat (leb_value bs), p + length bs)"
    using parse_loop_complete [of m p bs e 0 0] by (simp add: parse_uleb128_ok_iff parse_uleb128_def)
qed

section \<open>Properties\<close>

text \<open>
  C22: what \<open>append_uleb128\<close> writes, both \<open>read_uleb128\<close> and \<open>parse_uleb128\<close> read back: the same
  64-bit value, with the pointer advanced by exactly \<open>uleb128_size\<close> bytes, which is at most ten.
\<close>

theorem uleb128_roundtrip:
  assumes "map m [p ..< p + length (append_uleb128 v)] = append_uleb128 v"
    and "p + length (append_uleb128 v) \<le> end"
  shows "read_uleb128 m p end = (v, p + unat (uleb128_size v), None)
    \<and> parse_uleb128 m p end = (True, p + unat (uleb128_size v), v)
    \<and> unat (uleb128_size v) = length (append_uleb128 v) \<and> unat (uleb128_size v) \<le> 10"
proof -
  have "length (append_uleb128 v) < 2 ^ 32" using append_uleb128_length [of v] by (simp add: le_less_trans)
  then have "unat (uleb128_size v) = length (append_uleb128 v)"
    using append_uleb128_value [of v] unat_of_nat_u32 [of "length (append_uleb128 v)"] by simp
  with rd.decode_append [OF assms] ps.decode_append [OF assms] append_uleb128_length [of v]
  show ?thesis by (simp add: read_uleb128_ok_iff parse_uleb128_ok_iff)
qed

theorem uleb128_roundtrip_witness:
  "read_uleb128 (mem_of [0xE5, 0x8E, 0x26]) 0 3 = (624485, 3, None)"
proof -
  have "append_uleb128 624485 = [0xE5, 0x8E, 0x26]"
    by (simp add: append_uleb128.simps Let_def)
  moreover have "map (mem_of [0xE5, 0x8E, 0x26]) [0 ..< 0 + 3] = [0xE5, 0x8E, 0x26]"
    by (simp add: mem_of_def upt_conv_Cons)
  ultimately show ?thesis
    using uleb128_roundtrip [of "mem_of [0xE5, 0x8E, 0x26]" 0 624485 3] by (simp add: mem_of_def numeral_3_eq_3)
qed

lemma uleb_loop_bounds:
  assumes "uleb_loop m e p sh r = (v, q, d)" and "p \<le> e"
  shows "p \<le> q \<and> q \<le> e \<and> (q = p \<or> sh + 7 * (q - p) \<le> 70)
    \<and> (agree p e m m' \<longrightarrow> uleb_loop m' e p sh r = (v, q, d))"
  using assms
proof (induction m e p sh r rule: uleb_loop.induct)
  case (1 m e p sh r)
  have step: "m' p = m p \<and> agree (p + 1) e m m'" if "agree p e m m'" "p < e"
    using that by (auto simp: agree_def)
  show ?case
  proof (cases "p \<noteq> e \<and> \<not> sh > 63 \<and> m p AND 0x80 \<noteq> 0")
    case True
    then have "uleb_loop m e (p + 1) (sh + 7) (r OR push_bit sh (ucast (m p AND 0x7F))) = (v, q, d)"
      using "1.prems"(1) by (simp add: uleb_loop.simps [of m e p] Let_def)
    with "1.IH" [OF _ _ refl refl _ this] True "1.prems"(2) step show ?thesis
      by (auto simp: uleb_loop.simps [of m' e p] Let_def)
  next
    case False
    with "1.prems" step show ?thesis
      by (auto simp: uleb_loop.simps [of m e p] uleb_loop.simps [of m' e p] Let_def split: if_splits)
  qed
qed

text \<open>
  \<open>read_uleb128\<close> called with \<open>p <= end\<close> never moves the pointer past \<open>end\<close> and consumes at
  most ten bytes, on errors too; its outcome depends only on the bytes from \<open>p\<close> up to \<open>end\<close>;
  and when it reports no error it has consumed exactly one terminated sequence and returns
  the number it denotes, modulo \<open>2^64\<close>.
\<close>

theorem read_uleb128_bounds:
  assumes "p \<le> end" and "read_uleb128 m p end = (v, q, d)"
  shows "p \<le> q \<and> q \<le> end \<and> q \<le> p + 10
    \<and> (\<forall>m'. agree p end m m' \<longrightarrow> read_uleb128 m' p end = (v, q, d))
    \<and> (noError d \<longrightarrow> leb_terminated (map m [p ..< q]) \<and> v = of_nat (leb_value (map m [p ..< q])))"
proof -
  have loop: "uleb_loop m end p 0 0 = (v, q, d)" using assms(2) by (simp add: read_uleb128_def)
  have "leb_terminated (map m [p ..< q]) \<and> v = of_nat (leb_value (map m [p ..< q]))" if "noError d"
    using that rd.decode_sound [OF assms(1), of m v q] assms(2) by (simp add: read_uleb128_ok_iff diag_defs)
  moreover have "p \<le> q \<and> q \<le> end \<and> q \<le> p + 10"
    using uleb_loop_bounds [OF loop assms(1), of m] by auto
  ultimately show ?thesis
    using uleb_loop_bounds [OF loop assms(1)] by (auto simp: read_uleb128_def)
qed

theorem read_uleb128_bounds_witness:
  "\<exists>v q. read_uleb128 (mem_of [0x80, 0x80]) 0 2 = (v, q, Some ''malformed uleb128'') \<and> q \<le> 2"
proof -
  have "snd (snd (read_uleb128 (mem_of [0x80, 0x80]) 0 2)) = Some ''malformed uleb128''"
    by (simp add: read_uleb128_def uleb_loop.simps mem_of_def Let_def)
  then obtain v q where run: "read_uleb128 (mem_of [0x80, 0x80]) 0 2 = (v, q, Some ''malformed uleb128'')"
    by (metis prod.collapse)
  then show ?thesis using read_uleb128_bounds [OF _ run] by blast
qed

text \<open>The signed reading of a sequence: bit 6 of its last byte is the sign.\<close>

definition sleb_value :: "u8 list \<Rightarrow> int" where
  "sleb_value bs = int (leb_value bs) - (if 64 \<le> unat (last bs) mod 128 then 2 ^ (7 * length bs) else 0)"

lemma leb_value_less: "leb_value bs < 2 ^ (7 * length bs)"
proof (induction bs)
  case (Cons b bs)
  then have "unat b mod 128 + 128 * leb_value bs < 128 + 128 * (2 ^ (7 * length bs) - 1)"
    by (intro add_less_le_mono) auto
  then show ?case by (simp add: power_add algebra_simps)
qed simp

lemma sleb_loop_iff:
  assumes "p \<le> e"
  shows "sleb_loop m e p sh b r = Some (v, q, sh', b', None) \<longleftrightarrow>
     uleb_loop m e p sh r = (v, q, None) \<and> sh' = sh + 7 * (q - p) \<and> b' = m (q - 1)"
  using assms
proof (induction m e p sh b r rule: sleb_loop.induct)
  case (1 m e p sh b r)
  show ?case
  proof (cases "p \<noteq> e \<and> \<not> sh \<ge> 64 \<and> m p AND 0x80 \<noteq> 0")
    case True
    let ?r = "r OR push_bit sh (ucast (m p AND 0x7F))"
    have "sleb_loop m e p sh b r = sleb_loop m e (p + 1) (sh + 7) (m p) ?r"
      "uleb_loop m e p sh r = uleb_loop m e (p + 1) (sh + 7) ?r"
      using True by (simp_all add: uleb_loop.simps [of m e p] sleb_loop.simps [of m e p] Let_def)
    moreover have "p + 1 \<le> q" if "uleb_loop m e (p + 1) (sh + 7) ?r = (v, q, None)"
      using uleb_loop_bounds [OF that] True "1.prems" by auto
    ultimately show ?thesis
      using "1.IH" [OF _ _ refl refl] True "1.prems" by (auto simp: algebra_simps Suc_diff_Suc)
  next
    case False
    then show ?thesis
      by (auto simp: uleb_loop.simps [of m e p] sleb_loop.simps [of m e p] Let_def)
  qed
qed

lemma or_sign_extend:
  assumes "n < 2 ^ sh"
  shows "(of_nat n :: u64) OR push_bit sh (-1) = of_int (int n - 2 ^ sh)"
proof -
  have "(of_nat n :: u64) = take_bit sh (of_nat n)"
    using assms by (metis take_bit_nat_eq_self take_bit_of_nat)
  then have "(of_nat n :: u64) AND push_bit sh (-1) = 0"
    by (metis (no_types, lifting) bit_and_iff bit_eqI bit_push_bit_iff bit_take_bit_iff bit_0_eq bot_apply bot_bool_def not_less)
  then have "(of_nat n :: u64) OR push_bit sh (-1) = of_nat n + push_bit sh (-1)"
    by (simp only: disjunctive_add_eq_or)
  then show ?thesis by (simp add: push_bit_eq_mult)
qed

lemma read_sleb128_value:
  assumes "uleb_loop m e p 0 0 = (v, q, None)" and "p \<le> e"
  shows "read_sleb128 m p e = Some (of_int (sleb_value (map m [p ..< q])), q, None)"
proof -
  let ?bs = "map m [p ..< q]"
  from uleb_loop_sound [OF assms(1) _ _ assms(2), of 0] have pq: "p < q" and v: "v = of_nat (leb_value ?bs)"
    by simp_all
  have last: "last ?bs = m (q - 1)" using pq by (simp add: last_map)
  have "sleb_loop m e p 0 0 0 = Some (v, q, 7 * (q - p), m (q - 1), None)"
    using sleb_loop_iff [OF assms(2), of m 0 0 0 v q] assms(1) by simp
  moreover have "(of_int (2 ^ (7 * (q - p))) :: u64) = 0" if "64 \<le> 7 * (q - p)"
    using that by (simp add: exp_eq_zero_iff)
  ultimately show ?thesis
    using or_sign_extend [OF leb_value_less [of ?bs]] last
    by (auto simp: read_sleb128_def v sleb_value_def byte_and_40)
qed

text \<open>
  C38: \<open>read_sleb128\<close> decodes every terminated sequence of up to ten bytes to the
  two's-complement number it denotes, sign bit included; but unlike \<open>read_uleb128\<close> it does not stop a
  longer sequence: on eleven bytes before \<open>end\<close> whose first ten have the continuation bit, it
  shifts a 64-bit value by 70 bits, which is undefined, where \<open>read_uleb128\<close> reports an error.
\<close>

theorem read_sleb128_spec:
  assumes "p \<le> end"
  shows "(\<forall>bs. map m [p ..< p + length bs] = bs \<and> leb_terminated bs \<and> p + length bs \<le> end \<and> length bs \<le> 10
            \<longrightarrow> read_sleb128 m p end = Some (of_int (sleb_value bs), p + length bs, None))
    \<and> (p + 11 \<le> end \<and> (\<forall>i<10. 128 \<le> unat (m (p + i)))
        \<longrightarrow> read_sleb128 m p end = None
            \<and> snd (snd (read_uleb128 m p end)) = Some ''uleb128 too big for uint64'')"
proof -
  have "read_sleb128 m p end = Some (of_int (sleb_value bs), p + length bs, None)"
    if "map m [p ..< p + length bs] = bs" "leb_terminated bs" "p + length bs \<le> end" "length bs \<le> 10" for bs
    using read_sleb128_value [OF uleb_loop_complete [OF that(1,2,3), of 0 0, simplified] assms] that by simp
  moreover have "sleb_loop m end (p + i) (7 * i) b r = None
      \<and> snd (snd (uleb_loop m end (p + i) (7 * i) r)) = Some ''uleb128 too big for uint64''"
    if long: "p + 11 \<le> end" "\<forall>i<10. 128 \<le> unat (m (p + i))" and i: "i \<le> 10" for i b r
    using i
  proof (induction "10 - i" arbitrary: i b r)
    case 0
    then show ?case using long(1) by (simp add: sleb_loop.simps [of m "end" "p + 10"] uleb_loop.simps [of m "end" "p + 10"])
  next
    case (Suc k)
    then have "i < 10" "m (p + i) AND 0x80 \<noteq> 0" using long(2) byte_and_80 by auto
    moreover have "sleb_loop m end (Suc (p + i)) (7 * i + 7) b' r' = None
        \<and> snd (snd (uleb_loop m end (Suc (p + i)) (7 * i + 7) r')) = Some ''uleb128 too big for uint64''" for b' r'
      using Suc.hyps(1) [of "Suc i" b' r'] Suc.hyps(2) \<open>i < 10\<close> by (simp add: add.commute)
    ultimately show ?case
      using long(1) by (simp add: sleb_loop.simps [of m "end" "p + i"] uleb_loop.simps [of m "end" "p + i"] Let_def)
  qed
  from this [of 0] have "read_sleb128 m p end = None
      \<and> snd (snd (read_uleb128 m p end)) = Some ''uleb128 too big for uint64''"
    if "p + 11 \<le> end" "\<forall>i<10. 128 \<le> unat (m (p + i))"
    using that by (simp add: read_sleb128_def read_uleb128_def)
  ultimately show ?thesis by blast
qed

theorem read_sleb128_spec_witness:
  "read_sleb128 (mem_of [0x9B, 0xF1, 0x59]) 0 3 = Some (of_int (-624485), 3, None)"
proof -
  have "map (mem_of [0x9B, 0xF1, 0x59]) [0 ..< 0 + 3] = [0x9B, 0xF1, 0x59]"
    by (simp add: mem_of_def upt_conv_Cons)
  moreover have "sleb_value [0x9B, 0xF1, 0x59] = -624485" by (simp add: sleb_value_def)
  ultimately show ?thesis
    using read_sleb128_spec [of 0 3 "mem_of [0x9B, 0xF1, 0x59]", THEN conjunct1, THEN spec [of _ "[0x9B, 0xF1, 0x59]"]]
    by (simp add: mem_of_def numeral_3_eq_3)
qed

end
