(* ===== verification/MachO_Validate.thy ===== *)
theory MachO_Validate
  imports MachO_Segments
begin

text \<open>
  The validation of a mapped file before dyld uses it: \<open>validLoadCommands\<close>, \<open>enforceFormat\<close>,
  \<open>validEmbeddedPaths\<close>, \<open>validSegments\<close>, \<open>validMain\<close> and \<open>validMachOForArchAndPlatform\<close> of
  \<open>src/dyld3/MachOAnalyzer.cpp\<close>. A validator takes the caller's \<open>Diagnostics\<close> and returns its
  verdict with the diagnostics as it leaves it; \<open>None\<close> is a failed assertion in a walk.
\<close>

abbreviation (input) "SG_NORELOC \<equiv> 0x4 :: u32"

text \<open>
  A walk with the same \<open>Diagnostics\<close> in the block and in \<open>forEachLoadCommand\<close>, whose own error
  overwrites the block's.
\<close>

definition walkDiag :: "memory \<Rightarrow> ('s \<times> diag \<Rightarrow> nat \<Rightarrow> (('s \<times> diag) \<times> bool) option) \<Rightarrow> 's \<Rightarrow> diag \<Rightarrow> ('s \<times> diag) option" where
  "walkDiag m callback s d =
     Option.bind (forEachLoadCommand m callback (s, d)) (\<lambda>((s', d'), e). Some (s', then_diag d' e))"

text \<open>\<open>sizeofcmds + machHeaderSize()\<close>, a \<open>size_t\<close>.\<close>

definition commandsLength :: "memory \<Rightarrow> u64" where
  "commandsLength m = ucast (mh_sizeofcmds m) + of_nat (machHeaderSize m)"

section \<open>Load commands\<close>

text \<open>The condition after the walk is the source's: it asks for an error, not for its absence.\<close>

definition validLoadCommands :: "memory \<Rightarrow> diag \<Rightarrow> u64 \<Rightarrow> (bool \<times> diag) option" where
  "validLoadCommands m d fileLen =
     (if commandsLength m > fileLen then
        Some (False, error ''in '%s' load commands exceed length of file'' d)
      else
        Option.bind (forEachLoadCommand m (\<lambda>s c. Some (s, False)) ()) (\<lambda>(_, walkError).
        case walkError of
          Some msg \<Rightarrow> Some (False, error (''in '%s' '' @ msg) d)
        | None \<Rightarrow>
             Option.bind (forEachSegment m (\<lambda>(foundTEXT, d) info.
                 if strcmp_eq m (segName info) ''__TEXT'' then
                   (let d1 = (if commandsLength m > fileSize info
                              then error ''in '%s' load commands exceed length of __TEXT segment'' d else d);
                        d2 = (if fileOffset info \<noteq> 0
                              then error ''in '%s' __TEXT segment not start of mach-o'' d1 else d1)
                    in Some ((True, d2), True))
                 else Some ((foundTEXT, d), False)) (False, d))
               (\<lambda>(foundTEXT, d').
                  if \<not> noError d' \<and> \<not> foundTEXT
                  then Some (False, error ''in '%s' __TEXT segment not found'' d')
                  else Some (True, d'))))"

section \<open>Which checks apply\<close>

datatype Malformed =
    linkeditOrder | linkeditAlignment | linkeditPermissions | dyldInfoAndlocalRelocs | segmentOrder
  | textPermissions | executableData | writableData | codeSigAlignment | sectionsAddrRangeWithinSegment

text \<open>The switch of the block: the new value of \<open>result\<close> for one platform entry.\<close>

definition enforce_step :: "Malformed \<Rightarrow> bool \<Rightarrow> Platform \<times> u32 \<times> u32 \<Rightarrow> bool" where
  "enforce_step kind result p =
     (case p of (platform, minOS, sdk) \<Rightarrow>
        if platform = Platform_macOS then
          (case kind of
             linkeditOrder \<Rightarrow> if sdk \<ge> 0x000A0E00 then True else result
           | linkeditAlignment \<Rightarrow> if sdk \<ge> 0x000A0E00 then True else result
           | dyldInfoAndlocalRelocs \<Rightarrow> if sdk \<ge> 0x000A0E00 then True else result
           | sectionsAddrRangeWithinSegment \<Rightarrow> if sdk \<ge> 0x000A1000 then True else result
           | _ \<Rightarrow> if sdk \<ge> 0x000A0F00 then True else result)
        else if platform = Platform_iOS then
          (case kind of
             linkeditOrder \<Rightarrow> True
           | dyldInfoAndlocalRelocs \<Rightarrow> True
           | textPermissions \<Rightarrow> True
           | executableData \<Rightarrow> True
           | writableData \<Rightarrow> True
           | sectionsAddrRangeWithinSegment \<Rightarrow> if sdk \<ge> 0x000E0000 then True else result
           | _ \<Rightarrow> if sdk \<ge> 0x000D0000 then True else result)
        else True)"

definition offlineTool :: "build \<Rightarrow> bool" where
  "offlineTool B \<longleftrightarrow> BUILDING_DYLDINFO B \<or> BUILDING_APP_CACHE_UTIL B \<or> BUILDING_RUN_STATIC B"

definition enforceFormat :: "build \<Rightarrow> memory \<Rightarrow> Malformed \<Rightarrow> bool option" where
  "enforceFormat B m kind =
     (if offlineTool B \<and> isFileSet m then Some (kind \<noteq> segmentOrder \<and> kind \<noteq> textPermissions)
      else if offlineTool B \<and> isStaticExecutable m then Some (kind \<noteq> segmentOrder \<and> kind \<noteq> writableData)
      else forEachSupportedPlatform m (enforce_step kind) False)"

section \<open>Paths in load commands\<close>

definition hasPathCommand :: "u32 \<Rightarrow> bool" where
  "hasPathCommand c \<longleftrightarrow> c = LC_ID_DYLIB \<or> isDependentCommand c \<or> c = LC_RPATH"

text \<open>The string check both groups of cases share; the offset of the string is the command's third word.\<close>

definition embeddedPathError :: "memory \<Rightarrow> nat \<Rightarrow> string option" where
  "embeddedPathError m c =
     (let offset = read32 m (c + 8) in
      if offset > lc_cmdsize m c then
        Some (if lc_cmd m c = LC_RPATH
              then ''in '%s' load command #%d path offset (%u) outside its size (%u)''
              else ''in '%s' load command #%d name offset (%u) outside its size (%u)'')
      else
        (case find_nul m (c + unat offset) (c + unat (lc_cmdsize m c)) of
           None \<Rightarrow> Some ''in '%s' load command #%d string extends beyond end of load command''
         | Some s \<Rightarrow> None))"

text \<open>One load command: \<open>allGood\<close>, \<open>foundInstallName\<close> and \<open>dependentsCount\<close> with the diagnostics.\<close>

definition path_step ::
    "memory \<Rightarrow> (bool \<times> bool \<times> nat) \<times> diag \<Rightarrow> nat \<Rightarrow> (((bool \<times> bool \<times> nat) \<times> diag) \<times> bool) option" where
  "path_step m s c =
     (case s of ((allGood, foundInstallName, dependentsCount), d) \<Rightarrow>
        if hasPathCommand (lc_cmd m c) then
          (let foundInstallName' = (foundInstallName \<or> lc_cmd m c = LC_ID_DYLIB);
               dependentsCount' = (if isDependentCommand (lc_cmd m c) then dependentsCount + 1 else dependentsCount)
           in case embeddedPathError m c of
                Some msg \<Rightarrow> Some (((False, foundInstallName', dependentsCount'), error msg d), True)
              | None \<Rightarrow> Some (((allGood, foundInstallName', dependentsCount'), d), False))
        else Some (s, False))"

definition validEmbeddedPaths :: "memory \<Rightarrow> diag \<Rightarrow> (bool \<times> diag) option" where
  "validEmbeddedPaths m d =
     Option.bind (walkDiag m (path_step m) (True, False, 0) d)
       (\<lambda>((allGood, foundInstallName, dependentsCount), d').
          if \<not> allGood then Some (False, d')
          else if mh_filetype m = MH_DYLIB \<and> \<not> foundInstallName then
            Some (False, error ''in '%s' MH_DYLIB is missing LC_ID_DYLIB'' d')
          else if mh_filetype m \<noteq> MH_DYLIB \<and> foundInstallName then
            Some (False, error ''in '%s' LC_ID_DYLIB found in non-MH_DYLIB'' d')
          else if dependentsCount = 0 \<and> mh_filetype m = MH_EXECUTE \<and> isDynamicExecutable m then
            Some (False, error ''in '%s' missing LC_LOAD_DYLIB (must link with at least libSystem.dylib)'' d')
          else Some (True, d'))"

section \<open>Segments\<close>

text \<open>
  The first pass: the size of a segment command. \<open>sectionsSpace\<close> is the \<open>int32_t\<close> difference;
  once it is not negative, comparing it with \<open>nsects\<close> times the section size cannot overflow.
\<close>

definition segmentCommandError64 :: "memory \<Rightarrow> u64 \<Rightarrow> nat \<Rightarrow> string option" where
  "segmentCommandError64 m fileLen c =
     (let sectionsSpace = lc_cmdsize m c - 72;
          filesize = read64 m (c + 48); vmsize = read64 m (c + 32)
      in if sint sectionsSpace < 0 then Some ''in '%s' load command size too small for LC_SEGMENT_64''
         else if unat sectionsSpace mod 80 \<noteq> 0 then
           Some ''in '%s' segment load command size 0x%X will not fit whole number of sections''
         else if unat sectionsSpace \<noteq> unat (read32 m (c + 64)) * 80 then
           Some ''in '%s' load command size 0x%X does not match nsects %d''
         else if greaterThanAddOrOverflow (read64 m (c + 40)) filesize fileLen then
           Some ''in '%s' segment load command content extends beyond end of file''
         else if filesize > vmsize \<and> (vmsize \<noteq> 0 \<or> read32 m (c + 68) AND SG_NORELOC = 0) then
           Some ''in '%s' segment filesize exceeds vmsize''
         else None)"

definition segmentCommandError32 :: "memory \<Rightarrow> nat \<Rightarrow> string option" where
  "segmentCommandError32 m c =
     (let sectionsSpace = lc_cmdsize m c - 56;
          filesize = read32 m (c + 36); vmsize = read32 m (c + 28)
      in if sint sectionsSpace < 0 then Some ''in '%s' load command size too small for LC_SEGMENT''
         else if unat sectionsSpace mod 68 \<noteq> 0 then
           Some ''in '%s' segment load command size 0x%X will not fit whole number of sections''
         else if unat sectionsSpace \<noteq> unat (read32 m (c + 48)) * 68 then
           Some ''in '%s' load command size 0x%X does not match nsects %d''
         else if filesize > vmsize \<and> (vmsize \<noteq> 0 \<or> read32 m (c + 52) AND SG_NORELOC = 0) then
           Some ''in '%s' segment filesize exceeds vmsize''
         else None)"

definition segmentCommandError :: "memory \<Rightarrow> u64 \<Rightarrow> nat \<Rightarrow> string option" where
  "segmentCommandError m fileLen c =
     (if lc_cmd m c = LC_SEGMENT_64 then segmentCommandError64 m fileLen c
      else if lc_cmd m c = LC_SEGMENT then segmentCommandError32 m c
      else None)"

record SegFlags =
  badPermissions :: bool
  badSize :: bool
  hasTEXT :: bool
  hasLINKEDIT :: bool

text \<open>The second pass: permissions and ranges of one segment.\<close>

definition segment_permissions ::
    "build \<Rightarrow> memory \<Rightarrow> SegFlags \<times> diag \<Rightarrow> SegmentInfo \<Rightarrow> ((SegFlags \<times> diag) \<times> bool) option" where
  "segment_permissions B m fd info =
     (case fd of (f, d) \<Rightarrow>
        if strcmp_eq m (segName info) ''__TEXT'' then
          Option.bind (andAlso (protections info \<noteq> (VM_PROT_READ OR VM_PROT_EXECUTE)) (enforceFormat B m textPermissions))
            (\<lambda>bad. if bad
              then Some ((f\<lparr>badPermissions := True, hasTEXT := True\<rparr>,
                          error (''in '%s' __TEXT segment permissions is not 'r-x'' @ [CHR 0x27]) d), True)
              else Some ((f\<lparr>hasTEXT := True\<rparr>, d), False))
        else if strcmp_eq m (segName info) ''__LINKEDIT'' then
          Option.bind (andAlso (protections info \<noteq> VM_PROT_READ) (enforceFormat B m linkeditPermissions))
            (\<lambda>bad. if bad
              then Some ((f\<lparr>badPermissions := True, hasLINKEDIT := True\<rparr>,
                          error (''in '%s' __LINKEDIT segment permissions is not 'r--'' @ [CHR 0x27]) d), True)
              else Some ((f\<lparr>hasLINKEDIT := True\<rparr>, d), False))
        else if protections info AND 0xFFFFFFF8 \<noteq> 0 then
          Some ((f\<lparr>badPermissions := True\<rparr>, error ''in '%s' %s segment permissions has invalid bits set'' d), True)
        else Some (fd, False))"

definition vmRangeWraps :: "memory \<Rightarrow> SegmentInfo \<Rightarrow> bool" where
  "vmRangeWraps m info =
     (if is64 m then vmAddr info + vmSize info < vmAddr info
      else (ucast (vmAddr info + vmSize info) :: u32) < ucast (vmAddr info))"

definition segment_check ::
    "build \<Rightarrow> memory \<Rightarrow> u64 \<Rightarrow> SegFlags \<times> diag \<Rightarrow> SegmentInfo \<Rightarrow> ((SegFlags \<times> diag) \<times> bool) option" where
  "segment_check B m fileLen fd info =
     Option.bind (segment_permissions B m fd info) (\<lambda>((f, d), stop).
       let (f1, d1, stop1) =
             (if greaterThanAddOrOverflow (fileOffset info) (fileSize info) fileLen
              then (f\<lparr>badSize := True\<rparr>, error ''in '%s' %s segment content extends beyond end of file'' d, True)
              else (f, d, stop));
           (f2, d2, stop2) =
             (if vmRangeWraps m info
              then (f1\<lparr>badSize := True\<rparr>, error ''in '%s' %s segment vm range wraps'' d1, True)
              else (f1, d1, stop1))
       in Some ((f2, d2), stop2))"

text \<open>The third pass: every segment against every other one.\<close>

definition rangesOverlap :: "u64 \<Rightarrow> u64 \<Rightarrow> u64 \<Rightarrow> u64 \<Rightarrow> bool" where
  "rangesOverlap start1 end1 start2 end2 \<longleftrightarrow>
     (start2 \<le> start1 \<and> end2 > start1 \<and> end1 > start1) \<or> (start2 \<ge> start1 \<and> start2 < end1 \<and> end2 > start2)"

definition outOfOrder :: "SegmentInfo \<Rightarrow> SegmentInfo \<Rightarrow> bool" where
  "outOfOrder info1 info2 \<longleftrightarrow>
     vmAddr info1 > vmAddr info2 \<or>
     (fileOffset info1 > fileOffset info2 \<and> fileOffset info1 \<noteq> 0 \<and> fileOffset info2 \<noteq> 0)"

definition overlap_check ::
    "build \<Rightarrow> memory \<Rightarrow> SegmentInfo \<Rightarrow> (bool \<times> bool) \<times> diag \<Rightarrow> SegmentInfo \<Rightarrow> (((bool \<times> bool) \<times> diag) \<times> bool) option" where
  "overlap_check B m info1 s info2 =
     (case s of ((badSegments, stop1), d) \<Rightarrow>
        if segIndex info1 = segIndex info2 then Some (s, False)
        else
          (let vmOverlap = rangesOverlap (vmAddr info1) (vmAddr info1 + vmSize info1)
                             (vmAddr info2) (vmAddr info2 + vmSize info2);
               fileOverlap = rangesOverlap (fileOffset info1) (fileOffset info1 + fileSize info1)
                               (fileOffset info2) (fileOffset info2 + fileSize info2);
               (bad1, stop1a, stop2a, d1) =
                 (if vmOverlap then (True, True, True, error ''in '%s' segment %s vm range overlaps segment %s'' d)
                  else (badSegments, stop1, False, d));
               (bad2, stop1b, stop2b, d2) =
                 (if fileOverlap then (True, True, True, error ''in '%s' segment %s file content overlaps segment %s'' d1)
                  else (bad1, stop1a, stop2a, d1))
           in if segIndex info1 < segIndex info2 \<and> \<not> stop1b \<and> outOfOrder info1 info2 then
                Option.bind (andAlso (\<not> inDyldCache m) (enforceFormat B m segmentOrder)) (\<lambda>enforce.
                  if enforce \<and> \<not> isStaticExecutable m
                  then Some (((True, True),
                         error ''in '%s' segment load commands out of order with respect to layout for %s and %s'' d2), True)
                  else Some (((bad2, stop1b), d2), stop2b))
              else Some (((bad2, stop1b), d2), stop2b)))"

definition overlap_pass :: "build \<Rightarrow> memory \<Rightarrow> diag \<Rightarrow> (bool \<times> diag) option" where
  "overlap_pass B m d =
     forEachSegment m (\<lambda>(badSegments, d) info1.
       map_option (\<lambda>((bad, stop1), d'). ((bad, d'), stop1))
         (forEachSegment m (overlap_check B m info1) ((badSegments, False), d))) (False, d)"

text \<open>The fourth pass: sections inside their segment. It never stops.\<close>

definition section_check64 :: "build \<Rightarrow> memory \<Rightarrow> nat \<Rightarrow> bool \<times> diag \<Rightarrow> nat \<Rightarrow> (bool \<times> diag) option" where
  "section_check64 B m c s sect =
     (let addr = read64 m (sect + 32); size = read64 m (sect + 40);
          vmaddr = read64 m (c + 24); vmsize = read64 m (c + 32); (badSections, d) = s
      in if sint size < 0 then Some (True, error ''in '%s' section '%s' size too large 0x%llX'' d)
         else if addr < vmaddr then
           Some (True, error ''in '%s' section '%s' start address 0x%llX is before containing segment's address 0x%0llX'' d)
         else if addr + size > vmaddr + vmsize then
           map_option (\<lambda>enforced.
             if enforced \<and> \<not> (BUILDING_APP_CACHE_UTIL B \<and> vmsize = 0 \<and> strcmp_eq m (c + 8) ''__CTF'')
             then (True, error ''in '%s' section '%s' end address 0x%llX is beyond containing segment's end address 0x%0llX'' d)
             else s) (enforceFormat B m sectionsAddrRangeWithinSegment)
         else Some s)"

text \<open>The 32-bit size, converted to \<open>int64_t\<close>, is never negative: that branch is empty here.\<close>

definition section_check32 :: "memory \<Rightarrow> nat \<Rightarrow> bool \<times> diag \<Rightarrow> nat \<Rightarrow> (bool \<times> diag) option" where
  "section_check32 m c s sect =
     (let addr = read32 m (sect + 32); size = read32 m (sect + 36);
          vmaddr = read32 m (c + 24); vmsize = read32 m (c + 28); (badSections, d) = s
      in if addr < vmaddr then
           Some (True, error ''in '%s' section %s start address 0x%X is before containing segment's address 0x%0X'' d)
         else if addr + size > vmaddr + vmsize then
           Some (True, error ''in '%s' section %s end address 0x%X is beyond containing segment's end address 0x%0X'' d)
         else Some s)"

definition section_pass :: "build \<Rightarrow> memory \<Rightarrow> diag \<Rightarrow> (bool \<times> diag) option" where
  "section_pass B m d =
     walkDiag m (\<lambda>s c.
       if lc_cmd m c = LC_SEGMENT_64 then
         forStop (\<lambda>s sect. map_option (\<lambda>s'. (s', False)) (section_check64 B m c s sect)) s (sections64 m c)
       else if lc_cmd m c = LC_SEGMENT then
         forStop (\<lambda>s sect. map_option (\<lambda>s'. (s', False)) (section_check32 m c s sect)) s (sections32 m c)
       else Some (s, False)) False d"

definition validSegments :: "build \<Rightarrow> memory \<Rightarrow> diag \<Rightarrow> u64 \<Rightarrow> (bool \<times> diag) option" where
  "validSegments B m d fileLen =
     Option.bind (walkDiag m (\<lambda>(bad, d) c.
         case segmentCommandError m fileLen c of
           Some msg \<Rightarrow> Some ((True, error msg d), True) | None \<Rightarrow> Some ((bad, d), False)) False d)
       (\<lambda>(badSegmentLoadCommand, d1).
     if badSegmentLoadCommand then Some (False, d1) else
     Option.bind (forEachSegment m (segment_check B m fileLen)
         (\<lparr>badPermissions = False, badSize = False, hasTEXT = False, hasLINKEDIT = False\<rparr>, d1))
       (\<lambda>(f, d2).
     if badPermissions f \<or> badSize f then Some (False, d2)
     else if \<not> hasTEXT f then Some (False, error ''in '%s' missing __TEXT segment'' d2)
     else if \<not> hasLINKEDIT f then Some (False, error ''in '%s' missing __LINKEDIT segment'' d2)
     else
     Option.bind (overlap_pass B m d2) (\<lambda>(badSegments, d3).
     if badSegments then Some (False, d3) else
     Option.bind (section_pass B m d3) (\<lambda>(badSections, d4). Some (\<not> badSections, d4)))))"

section \<open>Entry point\<close>

definition preferredLoadAddress :: "memory \<Rightarrow> u64 option" where
  "preferredLoadAddress m =
     forEachSegment m (\<lambda>textVmAddr info.
       if strcmp_eq m (segName info) ''__TEXT'' then Some (vmAddr info, True) else Some (textVmAddr, False)) 0"

definition executableTextSegmentName :: "build \<Rightarrow> memory \<Rightarrow> string" where
  "executableTextSegmentName B m =
     (if BUILDING_APP_CACHE_UTIL B \<and> isStaticExecutable m
      then (if isArch B m ''x86_64'' \<or> isArch B m ''x86_64h'' then ''__HIB'' else ''__TEXT_EXEC'')
      else ''__TEXT'')"

text \<open>The segment that contains an entry address must be executable.\<close>

definition entry_segment_check :: "memory \<Rightarrow> string \<Rightarrow> string \<Rightarrow> u64 \<Rightarrow> diag \<Rightarrow> diag option" where
  "entry_segment_check m notExecutable outOfRange startAddress d =
     map_option (\<lambda>(foundSegment, d'). if \<not> foundSegment then error outOfRange d' else d')
       (forEachSegment m (\<lambda>(foundSegment, d) info.
          if startAddress < vmAddr info \<or> startAddress \<ge> vmAddr info + vmSize info
          then Some ((foundSegment, d), False)
          else Some ((True, if protections info AND VM_PROT_EXECUTE = 0 then error notExecutable d else d), True))
        (False, d))"

text \<open>One load command of the walk: the counts of entry commands, the diagnostics and \<open>stop\<close>.\<close>

definition main_step ::
    "build \<Rightarrow> memory \<Rightarrow> u64 \<Rightarrow> u64 \<Rightarrow> (nat \<times> nat) \<times> diag \<Rightarrow> nat \<Rightarrow> (((nat \<times> nat) \<times> diag) \<times> bool) option" where
  "main_step B m textSegStartAddr textSegStartSize s c =
     (case s of ((mainCount, threadCount), d) \<Rightarrow>
        if lc_cmd m c = LC_MAIN then
          (let entryoff = read64 m (c + 8) in
           if entryoff \<ge> textSegStartSize then
             Option.bind (preferredLoadAddress m) (\<lambda>base.
               map_option (\<lambda>d'. (((mainCount + 1, threadCount), d'), True))
                 (entry_segment_check m ''LC_MAIN points to non-executable segment''
                    ''LC_MAIN entryoff is out of range'' (base + entryoff) d))
           else Some (((mainCount + 1, threadCount), d), False))
        else if lc_cmd m c = LC_UNIXTHREAD then
          Option.bind (entryAddrFromThreadCmd m c) (\<lambda>startAddress.
            if startAddress = 0 then
              Some (((mainCount, threadCount + 1), error ''LC_UNIXTHREAD not valid for arch %s'' d), True)
            else if BUILDING_DYLDINFO B \<and> isStaticExecutable m then
              map_option (\<lambda>d'. (((mainCount, threadCount + 1), d'), True))
                (entry_segment_check m ''LC_UNIXTHREAD points to non-executable segment''
                   ''LC_UNIXTHREAD entry is out of range'' startAddress d)
            else if startAddress < textSegStartAddr \<or> startAddress \<ge> textSegStartAddr + textSegStartSize then
              Some (((mainCount, threadCount + 1), error ''LC_UNIXTHREAD entry not in %s segment'' d), True)
            else Some (((mainCount, threadCount + 1), d), False))
        else Some (s, False))"

definition validMain :: "build \<Rightarrow> memory \<Rightarrow> diag \<Rightarrow> (bool \<times> diag) option" where
  "validMain B m d =
     Option.bind (forEachSegment m (\<lambda>text info.
         if strcmp_eq m (segName info) (executableTextSegmentName B m)
         then Some ((vmAddr info, vmSize info), True) else Some (text, False)) (0, 0))
       (\<lambda>(textSegStartAddr, textSegStartSize).
     Option.bind (walkDiag m (main_step B m textSegStartAddr textSegStartSize) (0, 0) d)
       (\<lambda>((mainCount, threadCount), d').
     if hasError d' then Some (False, d') else
     Option.bind (builtForPlatform B m Platform_driverKit False) (\<lambda>driverKit.
     if driverKit then
       (if mainCount + threadCount = 0 then Some (True, d')
        else Some (False, error ''no LC_MAIN allowed for driverkit'' d'))
     else if mainCount + threadCount = 1 then Some (True, d')
     else if mainCount + threadCount = 0 then Some (False, error ''missing LC_MAIN or LC_UNIXTHREAD'' d')
     else Some (False, error ''only one LC_MAIN or LC_UNIXTHREAD is allowed'' d'))))"

section \<open>The whole file\<close>

text \<open>The platform test of offline tools: the message, if the file is refused.\<close>

definition toolPlatformError :: "build \<Rightarrow> memory \<Rightarrow> Platform \<Rightarrow> string \<Rightarrow> string option option" where
  "toolPlatformError B m reqPlatform path =
     (if (BUILDING_DYLDINFO B \<or> BUILDING_APP_CACHE_UTIL B) \<and> isFileSet m then
        map_option (\<lambda>(foundPlatform, foundBadPlatform).
            if \<not> foundPlatform then Some ''could not use '%s' because we expected it to have a platform''
            else if foundBadPlatform then Some ''could not use '%s' because is has the wrong platform''
            else None)
          (forEachSupportedPlatform m (\<lambda>(found, bad) (platform, minOS, sdk).
             (True, bad \<or> platform \<noteq> Platform_unknown)) (False, False))
      else if (BUILDING_DYLDINFO B \<or> BUILDING_APP_CACHE_UTIL B) \<and> reqPlatform = Platform_unknown then
        (if isStaticExecutable m then Some None
         else
           map_option (\<lambda>foundPlatform.
               if foundPlatform then Some ''could not use '%s' because we expected it to have no platform'' else None)
             (forEachSupportedPlatform m (\<lambda>found p. True) False))
      else
        map_option (\<lambda>ok. if \<not> ok then Some ''could not use '%s' because it was not built for platform %s'' else None)
          (loadableIntoProcess B m reqPlatform path))"

definition loadableFiletype :: "build \<Rightarrow> u32 \<Rightarrow> bool" where
  "loadableFiletype B ft \<longleftrightarrow> ft = MH_EXECUTE \<or> ft = MH_DYLIB \<or> ft = MH_BUNDLE
     \<or> offlineTool B \<and> (ft = MH_DYLINKER \<or> ft = MH_KEXT_BUNDLE \<or> ft = MH_FILESET)"

definition validMachOForArchAndPlatform ::
    "build \<Rightarrow> memory \<Rightarrow> diag \<Rightarrow> u64 \<Rightarrow> string \<Rightarrow> GradedArchs \<Rightarrow> Platform \<Rightarrow> bool \<Rightarrow> (bool \<times> diag) option" where
  "validMachOForArchAndPlatform B m d sliceLength path archs reqPlatform isOSBinary =
     (if mh_magic m \<noteq> MH_MAGIC \<and> mh_magic m \<noteq> MH_MAGIC_64 then
        Some (False, error ''could not use '%s' because it is not a mach-o file: 0x%08X 0x%08X'' d)
      else if grade archs (mh_cputype m) (mh_cpusubtype m) isOSBinary = 0 then
        Some (False, error ''could not use '%s' because it is not a compatible arch'' d)
      else if \<not> loadableFiletype B (mh_filetype m) then
        Some (False, error ''could not use '%s' because it is not a dylib, bundle, or executable, filetype=0x%08X'' d)
      else
        Option.bind (validLoadCommands m d sliceLength) (\<lambda>(ok, d1).
        if \<not> ok then Some (False, d1)
        else if mh_filetype m = MH_EXECUTE \<and> \<not> isDynamicExecutable m
                \<and> \<not> BUILDING_DYLDINFO B \<and> \<not> BUILDING_APP_CACHE_UTIL B then
          Some (False, error ''could not use '%s' because it is a static executable'' d1)
        else
          Option.bind (toolPlatformError B m reqPlatform path) (\<lambda>platformError.
          case platformError of
            Some msg \<Rightarrow> Some (False, error msg d1)
          | None \<Rightarrow>
              Option.bind (validEmbeddedPaths m d1) (\<lambda>(ok, d2).
              if \<not> ok then Some (False, d2) else
              Option.bind (validSegments B m d2 sliceLength) (\<lambda>(ok, d3).
              if \<not> ok then Some (False, d3)
              else if mh_filetype m = MH_EXECUTE then
                Option.bind (validMain B m d3) (\<lambda>(ok, d4). Some (ok, d4))
              else Some (True, d3))))))"

definition validMainExecutable ::
    "build \<Rightarrow> memory \<Rightarrow> diag \<Rightarrow> string \<Rightarrow> u64 \<Rightarrow> GradedArchs \<Rightarrow> Platform \<Rightarrow> (bool \<times> diag) option" where
  "validMainExecutable B m d path sliceLength archs platform =
     Option.bind (validMachOForArchAndPlatform B m d sliceLength path archs platform True) (\<lambda>(ok, d').
       if \<not> ok then Some (False, d') else Some (isDynamicExecutable m, d'))"

section \<open>Address space\<close>

record SegmentsLayout =
  writeExpansion :: bool
  lowestVmAddr :: u64
  highestVmAddr :: u64
  sumVmSizes :: u64

definition layout_step :: "memory \<Rightarrow> SegmentsLayout \<Rightarrow> SegmentInfo \<Rightarrow> SegmentsLayout" where
  "layout_step m s info =
     (if strcmp_eq m (segName info) ''__PAGEZERO'' then s
      else
        \<lparr>writeExpansion = (writeExpansion s \<or> seg_writable info \<and> fileSize info \<noteq> vmSize info \<or> vmSize info = 0),
         lowestVmAddr = (if vmAddr info < lowestVmAddr s then vmAddr info else lowestVmAddr s),
         highestVmAddr = (if vmAddr info + vmSize info > highestVmAddr s then vmAddr info + vmSize info else highestVmAddr s),
         sumVmSizes = sumVmSizes s + vmSize info\<rparr>)"

text \<open>\<open>vmSpace\<close> and \<open>hasZeroFill\<close>.\<close>

definition analyzeSegmentsLayout :: "build \<Rightarrow> memory \<Rightarrow> (u64 \<times> bool) option" where
  "analyzeSegmentsLayout B m =
     Option.bind (forEachSegment m (\<lambda>s info. Some (layout_step m s info, False))
         \<lparr>writeExpansion = False, lowestVmAddr = -1, highestVmAddr = 0, sumVmSizes = 0\<rparr>) (\<lambda>s.
     Option.bind (if BUILDING_APP_CACHE_UTIL B then preferredLoadAddress m else Some (lowestVmAddr s))
       (\<lambda>textSegVMAddr.
       let pageSize = (if uses16KPages m then 0x4000 else 0x1000) :: u64;
           totalVmSpace = (highestVmAddr s - lowestVmAddr s + (pageSize - 1)) AND NOT (pageSize - 1);
           hasHole = (totalVmSpace \<noteq> sumVmSizes s);
           hasOutOfOrderSegments = (textSegVMAddr \<noteq> lowestVmAddr s)
       in Some (totalVmSpace, writeExpansion s \<or> hasHole \<or> hasOutOfOrderSegments)))"

definition mappedSize :: "build \<Rightarrow> memory \<Rightarrow> u64 option" where
  "mappedSize B m = map_option fst (analyzeSegmentsLayout B m)"

section \<open>Properties of the segment passes\<close>

lemma walkDiag_run:
  assumes "walkDiag m f s d = Some (s', d')"
  obtains e b where "forStop f (s, d) (load_commands m) = Some ((s', e), b)"
    and "d' = then_diag e (if b then None else snd (load_commands_diag m))"
  using assms by (auto simp: walkDiag_def forEachLoadCommand_list bind_eq_Some_conv)

lemma walkDiag_all_good:
  assumes run: "walkDiag m f s d = Some (s', d')" and good: "good s'"
    and "\<And>s d x s' d' b. f (s, d) x = Some ((s', d'), b) \<Longrightarrow> good s' \<Longrightarrow> good s"
    and "\<And>s d x s' d'. f (s, d) x = Some ((s', d'), True) \<Longrightarrow> \<not> good s'"
    and "\<And>s d x s' d' b. x \<in> set (load_commands m) \<Longrightarrow> f (s, d) x = Some ((s', d'), b) \<Longrightarrow> good s' \<Longrightarrow> ok x"
  shows "\<forall>x\<in>set (load_commands m). ok x"
proof -
  obtain e b where "forStop f (s, d) (load_commands m) = Some ((s', e), b)" using run by (rule walkDiag_run)
  then show ?thesis
    using forStop_all_good [of f "(s, d)" "load_commands m" "(s', e)" b "\<lambda>(s, d). good s" ok] assms(2-) by auto
qed

text \<open>A segment command that passes holds exactly its \<open>nsects\<close> section headers.\<close>

lemma sint_u32_nonneg: "\<not> sint (w::u32) < 0 \<Longrightarrow> unat w < 2147483648"
proof -
  assume "\<not> sint w < 0"
  then have "\<not> bit w 31" using bit_last_iff [of w] by simp
  then have "\<not> bit (unat w) 31" by (simp add: bit_unsigned_iff)
  then have "even (unat w div 2147483648)" by (simp add: bit_iff_odd)
  moreover have "unat w div 2147483648 < 2" using unat_u32_less [of w] by simp
  ultimately have "unat w div 2147483648 = 0" by (cases "unat w div 2147483648") auto
  then show ?thesis by (simp add: div_eq_0_iff)
qed

lemma sections_space:
  assumes "\<not> sint (w - k :: u32) < 0" and "unat k < 2147483648"
  shows "unat k \<le> unat w \<and> unat (w - k) = unat w - unat k"
proof (cases "k \<le> w")
  case True
  then show ?thesis by (simp add: unat_sub word_le_nat_alt)
next
  case False
  then have "unat (w - k) = 4294967296 + unat w - unat k"
    by (simp add: unat_sub_if_size word_size word_le_nat_alt)
  with sint_u32_nonneg [OF assms(1)] assms(2) show ?thesis by simp
qed

lemma segmentCommandError_None:
  assumes "segmentCommandError m fileLen c = None"
  shows "lc_cmd m c = LC_SEGMENT_64 \<Longrightarrow>
      unat (lc_cmdsize m c) = 72 + 80 * unat (read32 m (c + 64))
      \<and> (read64 m (c + 48) \<le> read64 m (c + 32) \<or> read64 m (c + 32) = 0 \<and> read32 m (c + 68) AND SG_NORELOC \<noteq> 0)"
    and "lc_cmd m c = LC_SEGMENT \<Longrightarrow>
      unat (lc_cmdsize m c) = 56 + 68 * unat (read32 m (c + 48))
      \<and> (read32 m (c + 36) \<le> read32 m (c + 28) \<or> read32 m (c + 28) = 0 \<and> read32 m (c + 52) AND SG_NORELOC \<noteq> 0)"
  using assms sections_space [of "lc_cmdsize m c" 72] sections_space [of "lc_cmdsize m c" 56]
  by (auto simp: segmentCommandError_def segmentCommandError64_def segmentCommandError32_def Let_def not_less
      split: if_splits)

text \<open>No pair of segments (told apart by the 13-bit index) overlaps.\<close>

definition no_overlap :: "SegmentInfo \<Rightarrow> SegmentInfo \<Rightarrow> bool" where
  "no_overlap i1 i2 \<longleftrightarrow> segIndex i1 = segIndex i2
     \<or> \<not> rangesOverlap (vmAddr i1) (vmAddr i1 + vmSize i1) (vmAddr i2) (vmAddr i2 + vmSize i2)
       \<and> \<not> rangesOverlap (fileOffset i1) (fileOffset i1 + fileSize i1) (fileOffset i2) (fileOffset i2 + fileSize i2)"

abbreviation "bad_of s \<equiv> fst (fst s)"
abbreviation "stop1_of s \<equiv> snd (fst s)"

lemma overlap_check_cases:
  assumes "overlap_check B m i1 s i2 = Some (s', stop2)"
  shows "bad_of s \<longrightarrow> bad_of s'" and "stop2 \<longrightarrow> bad_of s'"
    and "(stop1_of s \<longrightarrow> bad_of s) \<longrightarrow> stop1_of s' \<longrightarrow> bad_of s'"
    and "\<not> bad_of s' \<longrightarrow> no_overlap i1 i2"
proof -
  obtain bad stop1 d where "s = ((bad, stop1), d)" by (metis prod.exhaust)
  with assms show "bad_of s \<longrightarrow> bad_of s'" "stop2 \<longrightarrow> bad_of s'"
    "(stop1_of s \<longrightarrow> bad_of s) \<longrightarrow> stop1_of s' \<longrightarrow> bad_of s'" "\<not> bad_of s' \<longrightarrow> no_overlap i1 i2"
    by (auto simp: overlap_check_def no_overlap_def Let_def bind_eq_Some_conv split: if_splits)
qed

lemma overlap_inner:
  assumes run: "forEachSegment m (overlap_check B m i1) s = Some s'" and "\<not> stop1_of s"
  shows "stop1_of s' \<longrightarrow> bad_of s'" and "bad_of s \<longrightarrow> bad_of s'"
    and "\<not> bad_of s' \<longrightarrow> (\<forall>i2\<in>set (segments m). no_overlap i1 i2)"
proof -
  show "stop1_of s' \<longrightarrow> bad_of s'"
    by (rule segs.walk_invariant [OF run, of "\<lambda>s. stop1_of s \<longrightarrow> bad_of s"]) (use assms(2) overlap_check_cases(3) in blast)+
  show "bad_of s \<longrightarrow> bad_of s'"
    by (rule segs.walk_invariant [OF run, of "\<lambda>t. bad_of s \<longrightarrow> bad_of t"]) (use overlap_check_cases(1) in blast)+
  show "\<not> bad_of s' \<longrightarrow> (\<forall>i2\<in>set (segments m). no_overlap i1 i2)"
  proof
    assume "\<not> bad_of s'"
    moreover have "\<And>s x s' b. overlap_check B m i1 s x = Some (s', b) \<Longrightarrow> \<not> bad_of s' \<Longrightarrow> \<not> bad_of s"
      "\<And>s x s'. overlap_check B m i1 s x = Some (s', True) \<Longrightarrow> \<not> \<not> bad_of s'"
      "\<And>s x s' b. x \<in> set (segments m) \<Longrightarrow> overlap_check B m i1 s x = Some (s', b) \<Longrightarrow> \<not> bad_of s' \<Longrightarrow> no_overlap i1 x"
      using overlap_check_cases(1,2,4) by metis+
    ultimately have "\<not> malformed_commands m \<and> (\<forall>i2\<in>set (segments m). no_overlap i1 i2)"
      by (rule segs.walk_all_good [OF run])
    then show "\<forall>i2\<in>set (segments m). no_overlap i1 i2" by blast
  qed
qed

lemma overlap_pass_good:
  assumes "overlap_pass B m d = Some (False, d')"
  shows "\<forall>i1\<in>set (segments m). \<forall>i2\<in>set (segments m). no_overlap i1 i2"
proof -
  let ?f = "\<lambda>(badSegments, d) info1. map_option (\<lambda>((bad, stop1), d'). ((bad, d'), stop1))
      (forEachSegment m (overlap_check B m info1) ((badSegments, False), d))"
  have step: "(b \<longrightarrow> fst s') \<and> (fst s \<longrightarrow> fst s') \<and> (\<not> fst s' \<longrightarrow> (\<forall>i2\<in>set (segments m). no_overlap i1 i2))"
    if f: "?f s i1 = Some (s', b)" for s i1 s' b
  proof -
    from f obtain r where "forEachSegment m (overlap_check B m i1) ((fst s, False), snd s) = Some r"
        "s' = (bad_of r, snd r)" "b = stop1_of r"
      by (auto split: prod.splits)
    with overlap_inner [of m B i1 "((fst s, False), snd s)" r] show ?thesis by simp
  qed
  from assms have run: "forEachSegment m ?f (False, d) = Some (False, d')" by (simp add: overlap_pass_def)
  have "\<not> malformed_commands m \<and> (\<forall>i1\<in>set (segments m). \<forall>i2\<in>set (segments m). no_overlap i1 i2)"
    by (rule segs.walk_all_good [OF run, of "\<lambda>s. \<not> fst s"]) (use step in \<open>simp, blast+\<close>)
  then show ?thesis by blast
qed

text \<open>The second pass.\<close>

lemma segment_permissions_flags:
  assumes "segment_permissions B m (f, d) info = Some ((f', d'), b)"
  shows "badPermissions f \<longrightarrow> badPermissions f'" and "badSize f' = badSize f" and "b \<longrightarrow> badPermissions f'"
    and "hasTEXT f' \<longrightarrow> hasTEXT f \<or> strcmp_eq m (segName info) ''__TEXT''"
    and "hasLINKEDIT f' \<longrightarrow> hasLINKEDIT f \<or> strcmp_eq m (segName info) ''__LINKEDIT''"
  using assms by (auto simp: segment_permissions_def bind_eq_Some_conv split: if_splits)

lemma segment_check_flags:
  assumes "segment_check B m fileLen s info = Some (s', b)"
  shows "badPermissions (fst s) \<longrightarrow> badPermissions (fst s')" and "badSize (fst s) \<longrightarrow> badSize (fst s')"
    and "b \<longrightarrow> badPermissions (fst s') \<or> badSize (fst s')"
    and "\<not> badSize (fst s') \<longrightarrow> unat (fileOffset info) + unat (fileSize info) \<le> unat fileLen \<and> \<not> vmRangeWraps m info"
    and "hasTEXT (fst s') \<longrightarrow> hasTEXT (fst s) \<or> strcmp_eq m (segName info) ''__TEXT''"
    and "hasLINKEDIT (fst s') \<longrightarrow> hasLINKEDIT (fst s) \<or> strcmp_eq m (segName info) ''__LINKEDIT''"
proof -
  obtain f d where s: "s = (f, d)" by fastforce
  from assms obtain f1 d1 b1 where p: "segment_permissions B m (f, d) info = Some ((f1, d1), b1)"
    by (auto simp: s segment_check_def bind_eq_Some_conv)
  note flags = segment_permissions_flags [OF p]
  define over where "over = greaterThanAddOrOverflow (fileOffset info) (fileSize info) fileLen"
  have over: "over \<longleftrightarrow> unat fileLen < unat (fileOffset info) + unat (fileSize info)"
    by (simp add: over_def greaterThanAddOrOverflow_iff)
  define f' where "f' = (if over \<or> vmRangeWraps m info then f1\<lparr>badSize := True\<rparr> else f1)"
  have "fst s' = f'" "b = (b1 \<or> over \<or> vmRangeWraps m info)"
    using assms by (auto simp: s segment_check_def p over_def [symmetric] f'_def split: if_splits)
  then show "badPermissions (fst s) \<longrightarrow> badPermissions (fst s')" "badSize (fst s) \<longrightarrow> badSize (fst s')"
    "b \<longrightarrow> badPermissions (fst s') \<or> badSize (fst s')"
    "\<not> badSize (fst s') \<longrightarrow> unat (fileOffset info) + unat (fileSize info) \<le> unat fileLen \<and> \<not> vmRangeWraps m info"
    "hasTEXT (fst s') \<longrightarrow> hasTEXT (fst s) \<or> strcmp_eq m (segName info) ''__TEXT''"
    "hasLINKEDIT (fst s') \<longrightarrow> hasLINKEDIT (fst s) \<or> strcmp_eq m (segName info) ''__LINKEDIT''"
    using flags over by (auto simp: s f'_def)
qed

lemma segment_pass_good:
  assumes run: "forEachSegment m (segment_check B m fileLen)
      (\<lparr>badPermissions = False, badSize = False, hasTEXT = False, hasLINKEDIT = False\<rparr>, d) = Some (f, d')"
    and good: "\<not> badPermissions f" "\<not> badSize f"
  shows "\<not> malformed_commands m"
    and "\<forall>seg\<in>set (segments m). unat (fileOffset seg) + unat (fileSize seg) \<le> unat fileLen \<and> \<not> vmRangeWraps m seg"
    and "hasTEXT f \<longrightarrow> (\<exists>seg\<in>set (segments m). strcmp_eq m (segName seg) ''__TEXT'')"
    and "hasLINKEDIT f \<longrightarrow> (\<exists>seg\<in>set (segments m). strcmp_eq m (segName seg) ''__LINKEDIT'')"
proof -
  let ?good = "\<lambda>s. \<not> badPermissions (fst s) \<and> \<not> badSize (fst s)"
  have "\<not> malformed_commands m \<and> (\<forall>seg\<in>set (segments m).
      unat (fileOffset seg) + unat (fileSize seg) \<le> unat fileLen \<and> \<not> vmRangeWraps m seg)"
  proof (rule segs.walk_all_good [OF run, of ?good])
    fix s info s' b
    assume step: "segment_check B m fileLen s info = Some (s', b)"
    note flags = segment_check_flags [OF step]
    show "?good s' \<Longrightarrow> ?good s" using flags(1,2) by blast
    show "?good s' \<Longrightarrow> unat (fileOffset info) + unat (fileSize info) \<le> unat fileLen \<and> \<not> vmRangeWraps m info"
      using flags(4) by blast
  next
    show "segment_check B m fileLen s info = Some (s', True) \<Longrightarrow> \<not> ?good s'" for s info s'
      using segment_check_flags(3) by blast
  qed (use good in simp)
  then show "\<not> malformed_commands m" "\<forall>seg\<in>set (segments m).
      unat (fileOffset seg) + unat (fileSize seg) \<le> unat fileLen \<and> \<not> vmRangeWraps m seg" by blast+
  have "hasTEXT (fst (f, d')) \<longrightarrow> (\<exists>seg\<in>set (segments m). strcmp_eq m (segName seg) ''__TEXT'')"
    by (rule segs.walk_invariant [OF run, of "\<lambda>s. hasTEXT (fst s) \<longrightarrow> (\<exists>seg\<in>set (segments m). strcmp_eq m (segName seg) ''__TEXT'')"])
      (simp, metis segment_check_flags(5))
  then show "hasTEXT f \<longrightarrow> (\<exists>seg\<in>set (segments m). strcmp_eq m (segName seg) ''__TEXT'')" by simp
  have "hasLINKEDIT (fst (f, d')) \<longrightarrow> (\<exists>seg\<in>set (segments m). strcmp_eq m (segName seg) ''__LINKEDIT'')"
    by (rule segs.walk_invariant [OF run, of "\<lambda>s. hasLINKEDIT (fst s) \<longrightarrow> (\<exists>seg\<in>set (segments m). strcmp_eq m (segName seg) ''__LINKEDIT'')"])
      (simp, metis segment_check_flags(6))
  then show "hasLINKEDIT f \<longrightarrow> (\<exists>seg\<in>set (segments m). strcmp_eq m (segName seg) ''__LINKEDIT'')" by simp
qed

text \<open>The fourth pass.\<close>

definition sections_in_segment :: "memory \<Rightarrow> nat \<Rightarrow> bool" where
  "sections_in_segment m c \<longleftrightarrow>
     (lc_cmd m c = LC_SEGMENT_64 \<longrightarrow> (\<forall>sect\<in>set (sections64 m c). read64 m (c + 24) \<le> read64 m (sect + 32)))
     \<and> (lc_cmd m c = LC_SEGMENT \<longrightarrow> (\<forall>sect\<in>set (sections32 m c). read32 m (c + 24) \<le> read32 m (sect + 32)
          \<and> read32 m (sect + 32) + read32 m (sect + 36) \<le> read32 m (c + 24) + read32 m (c + 28)))"

lemma section_check64_good:
  assumes "section_check64 B m c s sect = Some s'"
  shows "fst s \<longrightarrow> fst s'" and "\<not> fst s' \<longrightarrow> read64 m (c + 24) \<le> read64 m (sect + 32)"
  using assms by (auto simp: section_check64_def Let_def split: if_splits prod.splits)

lemma section_check32_good:
  assumes "section_check32 m c s sect = Some s'"
  shows "fst s \<longrightarrow> fst s'" and "\<not> fst s' \<longrightarrow> read32 m (c + 24) \<le> read32 m (sect + 32)
    \<and> read32 m (sect + 32) + read32 m (sect + 36) \<le> read32 m (c + 24) + read32 m (c + 28)"
  using assms by (auto simp: section_check32_def Let_def split: if_splits prod.splits)

text \<open>A loop whose block never stops and only ever raises the flag.\<close>

lemma flag_loop_good:
  assumes run: "forStop (\<lambda>s x. map_option (\<lambda>s'. (s', False)) (check s x)) s xs = Some (s', b)"
    and mono: "\<And>s x s'. check s x = Some s' \<Longrightarrow> fst s \<longrightarrow> fst s'"
    and ok: "\<And>s x s'. check s x = Some s' \<Longrightarrow> \<not> fst s' \<longrightarrow> ok x"
  shows "\<not> b \<and> (fst s \<longrightarrow> fst s') \<and> (\<not> fst s' \<longrightarrow> (\<forall>x\<in>set xs. ok x))"
  using run
proof (induction xs arbitrary: s)
  case (Cons x xs)
  then obtain s1 where s1: "check s x = Some s1"
      "forStop (\<lambda>s x. map_option (\<lambda>s'. (s', False)) (check s x)) s1 xs = Some (s', b)"
    by (auto simp: bind_eq_Some_conv)
  from Cons.IH [OF s1(2)] mono [OF s1(1)] ok [OF s1(1)] show ?case by auto
qed simp

lemma section_pass_good:
  assumes "section_pass B m d = Some (False, d')"
  shows "\<forall>c\<in>set (load_commands m). sections_in_segment m c"
proof -
  let ?f = "\<lambda>s c. if lc_cmd m c = LC_SEGMENT_64 then
         forStop (\<lambda>s sect. map_option (\<lambda>s'. (s', False)) (section_check64 B m c s sect)) s (sections64 m c)
       else if lc_cmd m c = LC_SEGMENT then
         forStop (\<lambda>s sect. map_option (\<lambda>s'. (s', False)) (section_check32 m c s sect)) s (sections32 m c)
       else Some (s, False)"
  have step: "\<not> b \<and> (fst s \<longrightarrow> fst s') \<and> (\<not> fst s' \<longrightarrow> sections_in_segment m c)"
    if f: "?f s c = Some (s', b)" for s c s' b
  proof -
    consider (seg64) "lc_cmd m c = LC_SEGMENT_64"
        "forStop (\<lambda>s sect. map_option (\<lambda>s'. (s', False)) (section_check64 B m c s sect)) s (sections64 m c) = Some (s', b)"
      | (seg32) "lc_cmd m c = LC_SEGMENT"
        "forStop (\<lambda>s sect. map_option (\<lambda>s'. (s', False)) (section_check32 m c s sect)) s (sections32 m c) = Some (s', b)"
      | (other) "lc_cmd m c \<noteq> LC_SEGMENT_64" "lc_cmd m c \<noteq> LC_SEGMENT" "s' = s" "\<not> b"
      using f by (auto split: if_splits)
    then show ?thesis
    proof cases
      case seg64
      have "\<not> b \<and> (fst s \<longrightarrow> fst s') \<and> (\<not> fst s' \<longrightarrow> (\<forall>sect\<in>set (sections64 m c). read64 m (c + 24) \<le> read64 m (sect + 32)))"
        by (rule flag_loop_good [OF seg64(2)]) (erule section_check64_good)+
      with seg64(1) show ?thesis by (simp add: sections_in_segment_def)
    next
      case seg32
      have "\<not> b \<and> (fst s \<longrightarrow> fst s') \<and> (\<not> fst s' \<longrightarrow> (\<forall>sect\<in>set (sections32 m c). read32 m (c + 24) \<le> read32 m (sect + 32)
          \<and> read32 m (sect + 32) + read32 m (sect + 36) \<le> read32 m (c + 24) + read32 m (c + 28)))"
        by (rule flag_loop_good [OF seg32(2)]) (erule section_check32_good)+
      with seg32(1) show ?thesis by (simp add: sections_in_segment_def)
    qed (simp add: sections_in_segment_def)
  qed
  from assms have run: "walkDiag m ?f False d = Some (False, d')" by (simp add: section_pass_def)
  show ?thesis
    by (rule walkDiag_all_good [OF run, of "\<lambda>bad. \<not> bad"]) (use step in \<open>simp, fastforce+\<close>)
qed

text \<open>Ranges of numbers: an empty range is disjoint from everything.\<close>

definition disjoint_ranges :: "u64 \<Rightarrow> u64 \<Rightarrow> u64 \<Rightarrow> u64 \<Rightarrow> bool" where
  "disjoint_ranges a s b t \<longleftrightarrow>
     s = 0 \<or> t = 0 \<or> unat a + unat s \<le> unat b \<or> unat b + unat t \<le> unat a"

lemma not_rangesOverlap:
  assumes "\<not> rangesOverlap a (a + s) b (b + t)" and "unat a + unat s < 2 ^ 64" and "unat b + unat t < 2 ^ 64"
  shows "disjoint_ranges a s b t"
proof -
  have "unat (a + s) = unat a + unat s" "unat (b + t) = unat b + unat t"
    using assms(2,3) by (simp_all add: unat_word_ariths)
  with assms(1) show ?thesis
    by (auto simp: rangesOverlap_def disjoint_ranges_def word_le_nat_alt word_less_nat_alt word_unat_eq_iff)
qed

lemma no_wrap_u64: "\<not> (a::u64) + s < a \<Longrightarrow> unat a + unat s < 2 ^ 64"
  using no_olen_add_nat [of a s] by (simp add: not_less)

text \<open>All section headers of a segment command lie inside the command.\<close>

definition headers_inside :: "memory \<Rightarrow> nat \<Rightarrow> bool" where
  "headers_inside m c \<longleftrightarrow>
     (lc_cmd m c = LC_SEGMENT_64 \<longrightarrow> (\<forall>sect\<in>set (sections64 m c). c + 72 \<le> sect \<and> sect + 80 \<le> c + unat (lc_cmdsize m c)))
     \<and> (lc_cmd m c = LC_SEGMENT \<longrightarrow> (\<forall>sect\<in>set (sections32 m c). c + 56 \<le> sect \<and> sect + 68 \<le> c + unat (lc_cmdsize m c)))"

lemma headers_inside_ok: "segmentCommandError m fileLen c = None \<Longrightarrow> headers_inside m c"
  using segmentCommandError_None [of m fileLen c]
  by (auto simp: headers_inside_def sections64_def sections32_def)

lemma segIndex_distinct:
  assumes "i < j" and "j < length (segments m)" and "length (segments m) \<le> 8192"
  shows "segIndex (segments m ! i) \<noteq> segIndex (segments m ! j)"
proof
  assume "segIndex (segments m ! i) = segIndex (segments m ! j)"
  with assms have "unat (of_nat i :: 13 word) = unat (of_nat j :: 13 word)"
    using segments_index [of i m] segments_index [of j m] by simp
  with assms show False by (simp add: unat_of_nat take_bit_eq_mod)
qed

definition layout_sound :: "memory \<Rightarrow> u64 \<Rightarrow> bool" where
  "layout_sound m fileLen \<longleftrightarrow>
     (\<exists>seg\<in>set (segments m). strcmp_eq m (segName seg) ''__TEXT'')
     \<and> (\<exists>seg\<in>set (segments m). strcmp_eq m (segName seg) ''__LINKEDIT'')
     \<and> (\<forall>seg\<in>set (segments m). unat (fileOffset seg) + unat (fileSize seg) \<le> unat fileLen)
     \<and> (\<forall>i j. i < j \<and> j < length (segments m) \<and> length (segments m) \<le> 8192 \<longrightarrow>
          (let a = segments m ! i; b = segments m ! j
           in disjoint_ranges (fileOffset a) (fileSize a) (fileOffset b) (fileSize b)
              \<and> (is64 m \<longrightarrow> disjoint_ranges (vmAddr a) (vmSize a) (vmAddr b) (vmSize b))))
     \<and> (is64 m \<longrightarrow> (\<forall>seg\<in>set (segments m). unat (vmAddr seg) + unat (vmSize seg) < 2 ^ 64))"

lemma validSegments_passes:
  assumes "validSegments B m d fileLen = Some (True, d')"
  obtains f d1 d2 d3 where
    "walkDiag m (\<lambda>(bad, d) c. case segmentCommandError m fileLen c of
           Some msg \<Rightarrow> Some ((True, error msg d), True) | None \<Rightarrow> Some ((bad, d), False)) False d = Some (False, d1)"
    and "forEachSegment m (segment_check B m fileLen)
         (\<lparr>badPermissions = False, badSize = False, hasTEXT = False, hasLINKEDIT = False\<rparr>, d1) = Some (f, d2)"
    and "\<not> badPermissions f" "\<not> badSize f" "hasTEXT f" "hasLINKEDIT f"
    and "overlap_pass B m d2 = Some (False, d3)" and "section_pass B m d3 = Some (False, d')"
  using assms by (auto simp: validSegments_def bind_eq_Some_conv split: if_splits)

lemma layout_sound_of_passes:
  assumes len: "\<And>seg. seg \<in> set (segments m) \<Longrightarrow>
      unat (fileOffset seg) + unat (fileSize seg) \<le> unat fileLen \<and> \<not> vmRangeWraps m seg"
    and textSeg: "\<exists>seg\<in>set (segments m). strcmp_eq m (segName seg) ''__TEXT''"
    and linkedit: "\<exists>seg\<in>set (segments m). strcmp_eq m (segName seg) ''__LINKEDIT''"
    and over: "\<And>a b. a \<in> set (segments m) \<Longrightarrow> b \<in> set (segments m) \<Longrightarrow> no_overlap a b"
  shows "layout_sound m fileLen"
proof -
  have fits: "unat (fileOffset seg) + unat (fileSize seg) < 2 ^ 64" if "seg \<in> set (segments m)" for seg
    using len [OF that] unat_u64_less [of fileLen] by simp
  have vm: "unat (vmAddr seg) + unat (vmSize seg) < 2 ^ 64" if "is64 m" "seg \<in> set (segments m)" for seg
    using len [OF that(2)] that(1) no_wrap_u64 [of "vmAddr seg" "vmSize seg"] by (simp add: vmRangeWraps_def)
  have "disjoint_ranges (fileOffset a) (fileSize a) (fileOffset b) (fileSize b)
      \<and> (is64 m \<longrightarrow> disjoint_ranges (vmAddr a) (vmSize a) (vmAddr b) (vmSize b))"
    if ij: "i < j" "j < length (segments m)" "length (segments m) \<le> 8192"
      and ab: "a = segments m ! i" "b = segments m ! j" for i j a b
  proof -
    have mem: "a \<in> set (segments m)" "b \<in> set (segments m)" using ij ab by auto
    with over segIndex_distinct [OF ij] ab
    have "\<not> rangesOverlap (vmAddr a) (vmAddr a + vmSize a) (vmAddr b) (vmAddr b + vmSize b)"
      "\<not> rangesOverlap (fileOffset a) (fileOffset a + fileSize a) (fileOffset b) (fileOffset b + fileSize b)"
      by (auto simp: no_overlap_def)
    with mem fits vm show ?thesis using not_rangesOverlap by blast
  qed
  with textSeg linkedit len vm show ?thesis by (auto simp: layout_sound_def Let_def)
qed

lemma validSegments_facts:
  assumes "validSegments B m d fileLen = Some (True, d')"
  shows "\<not> malformed_commands m \<and> layout_sound m fileLen
    \<and> (\<forall>c\<in>set (load_commands m). headers_inside m c \<and> sections_in_segment m c)"
proof (rule validSegments_passes [OF assms])
  fix f d1 d2 d3
  assume cmds: "walkDiag m (\<lambda>(bad, d) c. case segmentCommandError m fileLen c of
           Some msg \<Rightarrow> Some ((True, error msg d), True) | None \<Rightarrow> Some ((bad, d), False)) False d = Some (False, d1)"
    and segs: "forEachSegment m (segment_check B m fileLen)
         (\<lparr>badPermissions = False, badSize = False, hasTEXT = False, hasLINKEDIT = False\<rparr>, d1) = Some (f, d2)"
      "\<not> badPermissions f" "\<not> badSize f" "hasTEXT f" "hasLINKEDIT f"
    and over: "overlap_pass B m d2 = Some (False, d3)" and sects: "section_pass B m d3 = Some (False, d')"
  have "\<forall>c\<in>set (load_commands m). headers_inside m c"
    by (rule walkDiag_all_good [OF cmds, of "\<lambda>bad. \<not> bad"])
      (auto intro: headers_inside_ok split: option.splits)
  moreover have "layout_sound m fileLen"
    using segment_pass_good [OF segs(1,2,3)] segs(4,5) overlap_pass_good [OF over]
    by (intro layout_sound_of_passes) auto
  ultimately show ?thesis
    using segment_pass_good(1) [OF segs(1,2,3)] section_pass_good [OF sects] by blast
qed

text \<open>
  C28: a file accepted by \<open>validSegments\<close> has a sound layout. Its load commands walk without
  error; every section header lies inside its segment command, so the segment and section
  walks read no byte outside the command; there are a \<open>__TEXT\<close> and a \<open>__LINKEDIT\<close> segment; the
  content of every segment lies inside the file; no two segments share file content and, in a
  64-bit file, none wraps around and no two share an address (as long as their 13-bit
  indices differ: up to 8192 segments); and no section starts before its segment.
\<close>

theorem validSegments_sound:
  assumes "validSegments B m d fileLen = Some (True, d')"
  shows "\<not> malformed_commands m \<and> layout_sound m fileLen
    \<and> (\<forall>c\<in>set (load_commands m). headers_inside m c \<and> sections_in_segment m c)"
  by (rule validSegments_facts [OF assms])

section \<open>The validators do not abort\<close>

named_theorems no_abort \<open>operations that cannot fail an assertion once the load commands are known to walk\<close>

lemma bind_no_abort: "x \<noteq> None \<Longrightarrow> (\<And>y. x = Some y \<Longrightarrow> f y \<noteq> None) \<Longrightarrow> Option.bind x f \<noteq> None"
  by auto

lemma if_no_abort: "(c \<Longrightarrow> x \<noteq> None) \<Longrightarrow> (\<not> c \<Longrightarrow> y \<noteq> None) \<Longrightarrow> (if c then x else y) \<noteq> None"
  by simp

lemma case_no_abort:
  "(x = None \<Longrightarrow> a \<noteq> None) \<Longrightarrow> (\<And>y. x = Some y \<Longrightarrow> f y \<noteq> None) \<Longrightarrow> case_option a f x \<noteq> None"
  by (cases x) auto

lemma enforceFormat_total [no_abort]: "\<not> malformed_commands m \<Longrightarrow> enforceFormat B m kind \<noteq> None"
  by (simp add: enforceFormat_def forEachSupportedPlatform_fold)

lemma andAlso_total [no_abort]: "b \<noteq> None \<Longrightarrow> andAlso a b \<noteq> None"
  unfolding andAlso_def by auto

lemma builtForPlatform_total [no_abort]: "\<not> malformed_commands m \<Longrightarrow> builtForPlatform B m p one \<noteq> None"
  by (simp add: builtForPlatform_iff)

lemma walkDiag_total [no_abort]: "(\<And>s x. f s x \<noteq> None) \<Longrightarrow> walkDiag m f s d \<noteq> None"
  using forStop_total [of f "(s, d)" "load_commands m"]
  by (auto simp: walkDiag_def forEachLoadCommand_list)

lemma forStop_not_None [no_abort]: "(\<And>s x. f s x \<noteq> None) \<Longrightarrow> forStop f s xs \<noteq> None"
  using forStop_total [of f s xs] by auto

lemma preferredLoadAddress_total [no_abort]: "\<not> malformed_commands m \<Longrightarrow> preferredLoadAddress m \<noteq> None"
  unfolding preferredLoadAddress_def by (rule segs.walk_no_abort) auto

lemma segment_check_total [no_abort]:
  assumes "\<not> malformed_commands m"
  shows "segment_check B m L s info \<noteq> None"
proof -
  have "segment_permissions B m s info \<noteq> None"
    unfolding segment_permissions_def case_prod_beta
    by (intro if_no_abort bind_no_abort andAlso_total enforceFormat_total [OF assms]) auto
  then show ?thesis by (auto simp: segment_check_def split: prod.splits)
qed

lemma overlap_check_total [no_abort]:
  "\<not> malformed_commands m \<Longrightarrow> overlap_check B m i1 s i2 \<noteq> None"
  using enforceFormat_total [of m B segmentOrder]
  by (cases s) (auto simp: overlap_check_def andAlso_def Let_def split: prod.splits)

lemma overlap_pass_total [no_abort]: "\<not> malformed_commands m \<Longrightarrow> overlap_pass B m d \<noteq> None"
  unfolding overlap_pass_def
  by (rule segs.walk_no_abort) (auto simp del: not_None_eq simp: case_prod_beta segs.walk_no_abort overlap_check_total)

lemma section_pass_total [no_abort]:
  assumes "\<not> malformed_commands m"
  shows "section_pass B m d \<noteq> None"
proof -
  have "section_check64 B m c s sect \<noteq> None" "section_check32 m c s sect \<noteq> None" for c s sect
    using enforceFormat_total [OF assms, of B sectionsAddrRangeWithinSegment]
    by (simp_all add: section_check64_def section_check32_def Let_def case_prod_beta del: not_None_eq)
  then show ?thesis unfolding section_pass_def
    by (intro walkDiag_total if_no_abort forStop_not_None) (simp_all del: not_None_eq add: option.map_disc_iff)
qed

lemma validSegments_total [no_abort]:
  assumes "\<not> malformed_commands m"
  shows "validSegments B m d L \<noteq> None"
  unfolding validSegments_def case_prod_beta
  by (intro bind_no_abort if_no_abort walkDiag_total segs.walk_no_abort overlap_pass_total section_pass_total
      segment_check_total assms) (auto split: option.splits)

lemma validEmbeddedPaths_total [no_abort]: "validEmbeddedPaths m d \<noteq> None"
  unfolding validEmbeddedPaths_def case_prod_beta
  by (intro bind_no_abort if_no_abort walkDiag_total)
    (auto simp: path_step_def Let_def split: prod.splits option.splits)

lemma entry_segment_check_total [no_abort]:
  "\<not> malformed_commands m \<Longrightarrow> entry_segment_check m a b addr d \<noteq> None"
  unfolding entry_segment_check_def
  by (simp del: not_None_eq) (rule segs.walk_no_abort, auto)

lemma main_step_total [no_abort]:
  assumes "\<not> malformed_commands m"
  shows "main_step B m a z s c \<noteq> None"
proof -
  have "entryAddrFromThreadCmd m c \<noteq> None" if "lc_cmd m c = LC_UNIXTHREAD"
    using that by (simp add: entryAddrFromThreadCmd_def Let_def)
  moreover have "map_option f (entry_segment_check m p q addr d) \<noteq> None"
    for f :: "diag \<Rightarrow> ((nat \<times> nat) \<times> diag) \<times> bool" and p q addr d
    using entry_segment_check_total [OF assms] by (simp del: not_None_eq)
  ultimately show ?thesis
    unfolding main_step_def case_prod_beta Let_def
    by (intro if_no_abort bind_no_abort preferredLoadAddress_total [OF assms]) simp_all
qed

lemma validMain_total [no_abort]:
  assumes "\<not> malformed_commands m"
  shows "validMain B m d \<noteq> None"
  unfolding validMain_def case_prod_beta
  by (intro bind_no_abort if_no_abort walkDiag_total segs.walk_no_abort main_step_total builtForPlatform_total assms) auto

lemma toolPlatformError_total [no_abort]:
  assumes "\<not> malformed_commands m"
  shows "toolPlatformError B m p path \<noteq> None"
proof -
  have "loadableIntoProcess B m p path \<noteq> None"
    unfolding loadableIntoProcess_def Let_def
    by (intro bind_no_abort if_no_abort andAlso_total builtForPlatform_total assms) auto
  then show ?thesis
    using assms by (simp add: toolPlatformError_def forEachSupportedPlatform_fold split: prod.splits)
qed

lemma validLoadCommands_cases:
  "validLoadCommands m d L =
     (if commandsLength m > L then Some (False, error ''in '%s' load commands exceed length of file'' d)
      else case snd (load_commands_diag m) of
        Some msg \<Rightarrow> Some (False, error (''in '%s' '' @ msg) d)
      | None \<Rightarrow>
          (case List.find (\<lambda>seg. strcmp_eq m (segName seg) ''__TEXT'') (segments m) of
             Some seg \<Rightarrow>
               Some (True, if fileOffset seg \<noteq> 0 then Some ''in '%s' __TEXT segment not start of mach-o''
                           else if commandsLength m > fileSize seg
                                then Some ''in '%s' load commands exceed length of __TEXT segment'' else d)
           | None \<Rightarrow> if noError d then Some (True, d) else Some (False, Some ''in '%s' __TEXT segment not found'')))"
proof -
  let ?P = "\<lambda>seg. strcmp_eq m (segName seg) ''__TEXT''"
  let ?g = "\<lambda>(found, d) info. (True, if fileOffset info \<noteq> 0 then error ''in '%s' __TEXT segment not start of mach-o'' d
      else if commandsLength m > fileSize info then error ''in '%s' load commands exceed length of __TEXT segment'' d else d)"
  have block: "(\<lambda>(foundTEXT, d) info. if ?P info then
        (let d1 = (if commandsLength m > fileSize info then error ''in '%s' load commands exceed length of __TEXT segment'' d else d);
             d2 = (if fileOffset info \<noteq> 0 then error ''in '%s' __TEXT segment not start of mach-o'' d1 else d1)
         in Some ((True, d2), True))
      else Some ((foundTEXT, d), False)) = (\<lambda>s info. if ?P info then Some (?g s info, True) else Some (s, False))"
    by (intro ext) (auto simp: Let_def error_def)
  have walk: "forEachLoadCommand m (\<lambda>s c. Some (s, False)) () = Some ((), snd (load_commands_diag m))"
    using forStop_foldl [of "\<lambda>s c. ()" "()" "load_commands m"] by (simp add: forEachLoadCommand_list)
  show ?thesis
    unfolding validLoadCommands_def walk block segs.walk_find_state
    by (cases "commandsLength m > L"; cases "snd (load_commands_diag m)"; cases "List.find ?P (segments m)")
      (simp_all add: malformed_commands_def error_def noError_def)
qed

lemma commandsLength_nat: "unat (commandsLength m) = cmds_end m"
proof -
  have "unat (mh_sizeofcmds m) + machHeaderSize m < 2 ^ 64"
    using unat_u32_less [of "mh_sizeofcmds m"] by (simp add: machHeaderSize_def)
  then show ?thesis
    by (simp add: commandsLength_def cmds_end_def unat_word_ariths unat_of_nat unsigned_ucast_eq take_bit_eq_mod
        mod_add_right_eq mod_add_left_eq)
qed

lemma validLoadCommands_ok:
  assumes "validLoadCommands m d L = Some (True, d')"
  shows "\<not> malformed_commands m" and "cmds_end m \<le> unat L"
  using assms commandsLength_nat [of m]
  by (auto simp: validLoadCommands_cases malformed_commands_def word_less_nat_alt split: if_splits option.splits)

lemma validLoadCommands_total [no_abort]: "validLoadCommands m d L \<noteq> None"
  by (simp add: validLoadCommands_cases del: not_None_eq split: option.splits)

text \<open>
  \<open>validLoadCommands\<close> accepts a file whose load commands are in order but which has no
  \<open>__TEXT\<close> segment, and it answers yes for one whose \<open>__TEXT\<close> does not start the file,
  although it has just recorded the error: the condition \<open>!diag.noError() && !foundTEXT\<close> that
  should refuse both asks for an earlier error and for a missing segment.
\<close>

theorem validLoadCommands_accepts_missing_TEXT:
  assumes "commandsLength m \<le> fileLen" and "\<not> malformed_commands m"
  shows "((\<forall>seg\<in>set (segments m). \<not> strcmp_eq m (segName seg) ''__TEXT'') \<longrightarrow>
      validLoadCommands m None fileLen = Some (True, None))
    \<and> (\<forall>seg. List.find (\<lambda>seg. strcmp_eq m (segName seg) ''__TEXT'') (segments m) = Some seg \<and> fileOffset seg \<noteq> 0 \<longrightarrow>
      validLoadCommands m None fileLen = Some (True, Some ''in '%s' __TEXT segment not start of mach-o''))"
proof -
  let ?P = "\<lambda>seg. strcmp_eq m (segName seg) ''__TEXT''"
  have "List.find ?P (segments m) = None" if "\<forall>seg\<in>set (segments m). \<not> ?P seg"
    using that find_None_iff [of ?P "segments m"] by blast
  with assms have "validLoadCommands m None fileLen = Some (True, None)" if "\<forall>seg\<in>set (segments m). \<not> ?P seg"
    using that by (simp add: validLoadCommands_cases malformed_commands_def not_less)
  moreover have "validLoadCommands m None fileLen = Some (True, Some ''in '%s' __TEXT segment not start of mach-o'')"
    if "List.find ?P (segments m) = Some seg" "fileOffset seg \<noteq> 0" for seg
    using that assms by (simp add: validLoadCommands_cases malformed_commands_def not_less)
  ultimately show ?thesis by blast
qed

theorem validLoadCommands_accepts_missing_TEXT_witness:
  "segments two_commands = [] \<and> validLoadCommands two_commands None 56 = Some (True, None)"
proof -
  have "lc_cmd two_commands 32 = LC_SEGMENT_SPLIT_INFO" "lc_cmd two_commands 40 = LC_CODE_SIGNATURE"
    "mh_sizeofcmds two_commands = 24" "is64 two_commands"
    by (simp_all add: two_commands_def walk_eval is64_def)
  then have "segments two_commands = []" "commandsLength two_commands \<le> 56"
    by (simp_all add: segments_def segment_commands_def two_commands_list is_segment_command_def
        commandsLength_def machHeaderSize_def)
  then show ?thesis
    using validLoadCommands_accepts_missing_TEXT [of two_commands 56] two_commands_list(2) by simp
qed

text \<open>
  C30: validation never ends in a failed assertion, whatever bytes the file holds: every walk
  that asserts comes after \<open>validLoadCommands\<close> has accepted the load commands.
\<close>

theorem validation_never_aborts:
  "validMachOForArchAndPlatform B m d sliceLength path archs platform isOSBinary \<noteq> None
   \<and> validMainExecutable B m d path sliceLength archs platform \<noteq> None"
proof -
  have total: "validMachOForArchAndPlatform B m d sliceLength path archs platform os \<noteq> None" for os
  proof (cases "validLoadCommands m d sliceLength")
    case (Some r)
    obtain ok d1 where r: "r = (ok, d1)" by fastforce
    show ?thesis
    proof (cases ok)
      case True
      then have wf: "\<not> malformed_commands m" using validLoadCommands_ok(1) [of m d sliceLength d1] Some r by simp
      show ?thesis
        unfolding validMachOForArchAndPlatform_def Some r case_prod_beta
        by (intro if_no_abort bind_no_abort case_no_abort toolPlatformError_total [OF wf] validEmbeddedPaths_total
            validSegments_total [OF wf] validMain_total [OF wf]) simp_all
    qed (simp add: validMachOForArchAndPlatform_def Some r del: not_None_eq)
  qed (use validLoadCommands_total in blast)
  then have "validMainExecutable B m d path sliceLength archs platform \<noteq> None"
    unfolding validMainExecutable_def case_prod_beta by (intro bind_no_abort if_no_abort) simp_all
  with total show ?thesis by blast
qed

section \<open>What an accepted file satisfies\<close>

text \<open>A path in a load command: it starts inside the command and ends with a NUL inside it.\<close>

definition path_inside :: "memory \<Rightarrow> nat \<Rightarrow> bool" where
  "path_inside m c \<longleftrightarrow>
     (\<exists>i. c + unat (read32 m (c + 8)) \<le> i \<and> i < c + unat (lc_cmdsize m c) \<and> m i = 0)"

lemma embeddedPathError_None: "embeddedPathError m c = None \<Longrightarrow> path_inside m c"
  by (auto simp: embeddedPathError_def path_inside_def Let_def dest: find_nul_Some split: if_splits option.splits)

lemma path_step_cases:
  assumes "path_step m ((g, f, n), d) c = Some (((g', f', n'), d'), b)"
  shows "g' \<longrightarrow> g" and "b \<longrightarrow> \<not> g'" and "g' \<longrightarrow> hasPathCommand (lc_cmd m c) \<longrightarrow> path_inside m c"
    and "f' \<longleftrightarrow> f \<or> lc_cmd m c = LC_ID_DYLIB" and "n' = n + (if isDependentCommand (lc_cmd m c) then 1 else 0)"
  using assms
  by (auto simp: path_step_def Let_def hasPathCommand_def intro: embeddedPathError_None split: if_splits option.splits)

lemma path_steps:
  assumes "forStop (path_step m) ((g, f, n), d) cs = Some (((True, f', n'), d'), b)"
  shows "\<not> b \<and> f' = (f \<or> (\<exists>c\<in>set cs. lc_cmd m c = LC_ID_DYLIB))
    \<and> n' = n + length (filter (\<lambda>c. isDependentCommand (lc_cmd m c)) cs)"
  using assms
proof (induction cs arbitrary: g f n d)
  case (Cons c cs)
  from Cons.prems obtain s1 b1 where s1: "path_step m ((g, f, n), d) c = Some (s1, b1)"
      "if b1 then s1 = ((True, f', n'), d') \<and> b else forStop (path_step m) s1 cs = Some (((True, f', n'), d'), b)"
    by (auto simp: bind_eq_Some_conv split: if_splits)
  obtain g1 f1 n1 d1 where s1_eq: "s1 = ((g1, f1, n1), d1)" by (metis prod.exhaust)
  note step = path_step_cases [OF s1(1) [unfolded s1_eq]]
  have "\<not> b1" using s1(2) step(2) s1_eq by auto
  with Cons.IH [of g1 f1 n1 d1] s1(2) s1_eq step(4,5) show ?case by auto
qed simp

lemma validEmbeddedPaths_sound:
  assumes "validEmbeddedPaths m d = Some (True, d')"
  shows "\<forall>c\<in>set (load_commands m). hasPathCommand (lc_cmd m c) \<longrightarrow> path_inside m c"
    and "isDylib m \<longleftrightarrow> hasLoadCommand m LC_ID_DYLIB"
    and "isDynamicExecutable m \<longrightarrow> dependents m \<noteq> []"
proof -
  obtain found n e where run: "walkDiag m (path_step m) (True, False, 0) d = Some ((True, found, n), e)"
      and kind: "mh_filetype m = MH_DYLIB \<longleftrightarrow> found" "isDynamicExecutable m \<longrightarrow> n \<noteq> 0"
    using assms by (auto simp: validEmbeddedPaths_def bind_eq_Some_conv isDynamicExecutable_def split: if_splits)
  show "\<forall>c\<in>set (load_commands m). hasPathCommand (lc_cmd m c) \<longrightarrow> path_inside m c"
  proof (rule walkDiag_all_good [OF run, of fst])
    fix s d c s' d' b
    assume *: "path_step m (s, d) c = Some ((s', d'), b)"
    obtain g f n g' f' n' where eq: "s = (g, f, n)" "s' = (g', f', n')" by (metis prod.exhaust)
    note step = path_step_cases [OF * [unfolded eq]]
    show "fst s' \<Longrightarrow> fst s" "fst s' \<Longrightarrow> hasPathCommand (lc_cmd m c) \<longrightarrow> path_inside m c"
      using step(1,3) eq by auto
  next
    fix s d c s' d'
    assume *: "path_step m (s, d) c = Some ((s', d'), True)"
    obtain g f n g' f' n' where eq: "s = (g, f, n)" "s' = (g', f', n')" by (metis prod.exhaust)
    show "\<not> fst s'" using path_step_cases(2) [OF * [unfolded eq]] eq by simp
  qed simp
  obtain e' b where "forStop (path_step m) ((True, False, 0), d) (load_commands m) = Some (((True, found, n), e'), b)"
    using run by (rule walkDiag_run)
  from path_steps [OF this] kind
  show "isDylib m \<longleftrightarrow> hasLoadCommand m LC_ID_DYLIB" "isDynamicExecutable m \<longrightarrow> dependents m \<noteq> []"
    by (auto simp: isDylib_def hasLoadCommand_iff dependents_def)
qed

text \<open>An entry address inside an executable segment.\<close>

definition in_executable_segment :: "memory \<Rightarrow> u64 \<Rightarrow> bool" where
  "in_executable_segment m addr \<longleftrightarrow>
     (\<exists>seg\<in>set (segments m). vmAddr seg \<le> addr \<and> addr < vmAddr seg + vmSize seg \<and> seg_executable seg)"

lemma entry_segment_check_ok:
  assumes "entry_segment_check m p q addr d = Some d'" and "noError d'"
  shows "noError d \<and> in_executable_segment m addr"
proof -
  let ?P = "\<lambda>info. \<not> (addr < vmAddr info \<or> addr \<ge> vmAddr info + vmSize info)"
  let ?g = "\<lambda>s info. (True, if protections info AND VM_PROT_EXECUTE = 0 then error p (snd s) else snd s)"
  have block: "(\<lambda>(foundSegment, d) info. if addr < vmAddr info \<or> addr \<ge> vmAddr info + vmSize info
      then Some ((foundSegment, d), False)
      else Some ((True, if protections info AND VM_PROT_EXECUTE = 0 then error p d else d), True))
    = (\<lambda>s info. if ?P info then Some (?g s info, True) else Some (s, False))"
    by (intro ext) auto
  have "\<exists>seg. List.find ?P (segments m) = Some seg \<and> protections seg AND VM_PROT_EXECUTE \<noteq> 0 \<and> noError d"
    using assms unfolding entry_segment_check_def block segs.walk_find_state
    by (auto split: option.splits if_splits)
  then show ?thesis
    by (auto simp: in_executable_segment_def find_Some_iff seg_executable_def intro!: bexI nth_mem)
qed

text \<open>
  The range of the text segment: the first segment of the file with the name of the executable text
  segment (\<open>__TEXT\<close>; \<open>__HIB\<close> or \<open>__TEXT_EXEC\<close> for the kernel's tools), empty when there is none. The
  entry command \<open>c\<close> leads to an acceptable address: an offset below the size of that segment or an
  address in it, or else an address in an executable segment, where the code accepts one.
\<close>

definition text_range :: "build \<Rightarrow> memory \<Rightarrow> u64 \<times> u64" where
  "text_range B m =
     (case List.find (\<lambda>seg. strcmp_eq m (segName seg) (executableTextSegmentName B m)) (segments m) of
        Some seg \<Rightarrow> (vmAddr seg, vmSize seg)
      | None \<Rightarrow> (0, 0))"

definition entry_in :: "build \<Rightarrow> memory \<Rightarrow> u64 \<times> u64 \<Rightarrow> nat \<Rightarrow> bool" where
  "entry_in B m here c \<longleftrightarrow>
     lc_cmd m c = LC_MAIN \<and>
       (read64 m (c + 8) < snd here \<or>
        (\<exists>base. preferredLoadAddress m = Some base \<and> in_executable_segment m (base + read64 m (c + 8))))
     \<or> lc_cmd m c = LC_UNIXTHREAD \<and>
       (\<exists>addr. entryAddrFromThreadCmd m c = Some addr \<and> addr \<noteq> 0 \<and>
          (if BUILDING_DYLDINFO B \<and> isStaticExecutable m then in_executable_segment m addr
           else fst here \<le> addr \<and> addr < fst here + snd here))"

definition entry_ok :: "build \<Rightarrow> memory \<Rightarrow> nat \<Rightarrow> bool" where
  "entry_ok B m c \<longleftrightarrow> entry_in B m (text_range B m) c"

lemma main_step_ok:
  assumes "main_step B m a z s c = Some (s', b)" and "noError (snd s')"
  shows "noError (snd s)" and "fst s' = fst s \<or> entry_in B m (a, z) c"
proof -
  obtain mc tc d where s: "s = ((mc, tc), d)" by (metis prod.exhaust)
  have "noError d \<and> (fst s' = (mc, tc) \<or> entry_in B m (a, z) c)"
  proof (cases "lc_cmd m c = LC_MAIN \<and> \<not> read64 m (c + 8) < z")
    case True
    then obtain base d' where "preferredLoadAddress m = Some base"
        "entry_segment_check m ''LC_MAIN points to non-executable segment''
           ''LC_MAIN entryoff is out of range'' (base + read64 m (c + 8)) d = Some d'" "snd s' = d'"
      using assms(1) by (auto simp: s main_step_def Let_def bind_eq_Some_conv not_less)
    with entry_segment_check_ok assms(2) True show ?thesis by (fastforce simp: entry_in_def)
  next
    case False
    then show ?thesis
      using assms entry_segment_check_ok
      by (fastforce simp: s main_step_def entry_in_def Let_def bind_eq_Some_conv not_less not_le split: if_splits)
  qed
  then show "noError (snd s)" "fst s' = fst s \<or> entry_in B m (a, z) c" by (simp_all add: s)
qed

lemma text_walk:
  "forEachSegment m (\<lambda>text info. if strcmp_eq m (segName info) (executableTextSegmentName B m)
       then Some ((vmAddr info, vmSize info), True) else Some (text, False)) (0, 0)
     = (if malformed_commands m \<and> List.find (\<lambda>seg. strcmp_eq m (segName seg) (executableTextSegmentName B m)) (segments m) = None
        then None else Some (text_range B m))"
  unfolding segs.walk_find by (auto simp: text_range_def split: option.splits)

lemma validMain_sound:
  assumes "validMain B m d = Some (True, d')" and "\<not> malformed_commands m"
    and "\<not> built_for B (mh_cputype m) (platforms m) Platform_driverKit"
  shows "\<exists>c\<in>set (load_commands m). entry_ok B m c"
proof -
  obtain a z where here: "text_range B m = (a, z)" by fastforce
  from assms obtain mc tc where run: "walkDiag m (main_step B m a z) (0, 0) d = Some ((mc, tc), d')"
      and n: "mc + tc = 1" and d': "noError d'"
    by (auto simp: validMain_def text_walk here bind_eq_Some_conv builtForPlatform_iff hasError_noError split: if_splits)
  obtain e b where steps: "forStop (main_step B m a z) ((0, 0), d) (load_commands m) = Some (((mc, tc), e), b)"
      and "d' = then_diag e (if b then None else snd (load_commands_diag m))"
    using run by (rule walkDiag_run)
  with d' have "noError e" by simp
  have "noError (snd ((mc, tc), e)) \<longrightarrow> fst ((mc, tc), e) = (0, 0) \<or> (\<exists>c\<in>set (load_commands m). entry_ok B m c)"
    by (rule forStop_invariant [OF steps, of "\<lambda>s. noError (snd s) \<longrightarrow> fst s = (0, 0) \<or> (\<exists>c\<in>set (load_commands m). entry_ok B m c)"])
      (simp, metis main_step_ok entry_ok_def here)
  with \<open>noError e\<close> n show ?thesis by auto
qed

text \<open>
  C2: what validation establishes. When \<open>validMachOForArchAndPlatform\<close> accepts a file, its load
  commands walk without error and lie inside the slice, so the later walks, which assert
  that an earlier validation caught every malformation, cannot fail that assertion; the
  segment layout is sound; every section header and every embedded path, NUL included, lies
  inside its load command; exactly the dylibs have an install name; a dynamic executable
  has a dependent; and a main executable (other than DriverKit's) has an entry command whose
  address is in \<open>__TEXT\<close> (the segment \<open>executableTextSegmentName\<close> names) or in an executable segment.
\<close>

theorem validated_file_sound:
  assumes "validMachOForArchAndPlatform B m d sliceLength path archs platform isOSBinary = Some (True, d')"
  shows "hasMachOMagic m \<and> \<not> malformed_commands m \<and> cmds_end m \<le> unat sliceLength
    \<and> layout_sound m sliceLength
    \<and> (\<forall>c\<in>set (load_commands m). headers_inside m c \<and> (hasPathCommand (lc_cmd m c) \<longrightarrow> path_inside m c))
    \<and> (isDylib m \<longleftrightarrow> hasLoadCommand m LC_ID_DYLIB)
    \<and> (isDynamicExecutable m \<longrightarrow> dependents m \<noteq> [])
    \<and> (isMainExecutable m \<and> \<not> built_for B (mh_cputype m) (platforms m) Platform_driverKit \<longrightarrow>
         (\<exists>c\<in>set (load_commands m). entry_ok B m c))"
proof -
  from assms obtain d1 d2 d3 where
      lc: "validLoadCommands m d sliceLength = Some (True, d1)" and ep: "validEmbeddedPaths m d1 = Some (True, d2)"
      and sg: "validSegments B m d2 sliceLength = Some (True, d3)"
      and mn: "mh_filetype m = MH_EXECUTE \<longrightarrow> validMain B m d3 = Some (True, d')" and "hasMachOMagic m"
    by (auto simp: validMachOForArchAndPlatform_def hasMachOMagic_def bind_eq_Some_conv split: if_splits option.splits)
  note seg = validSegments_facts [OF sg]
  have "\<exists>c\<in>set (load_commands m). entry_ok B m c"
    if "isMainExecutable m" "\<not> built_for B (mh_cputype m) (platforms m) Platform_driverKit"
    using validMain_sound [of B m d3 d'] mn that seg by (simp add: isMainExecutable_def)
  with validLoadCommands_ok [OF lc] validEmbeddedPaths_sound [OF ep] seg \<open>hasMachOMagic m\<close> show ?thesis by blast
qed

section \<open>A valid dylib\<close>

text \<open>An x86\_64 dylib with \<open>__TEXT\<close>, \<open>__LINKEDIT\<close> and the install name \<open>/a\<close>.\<close>

definition valid_dylib :: memory where
  "valid_dylib = mem_words
     [0xFEEDFACF, 0x01000007, 3, 6, 3, 176, 0x80, 0,
      0x19, 72, 0x45545F5F, 0x00005458, 0, 0, 0, 0, 0x1000, 0, 0, 0, 0x1000, 0, 5, 5, 0, 0,
      0x19, 72, 0x494C5F5F, 0x44454B4E, 0x00005449, 0, 0x1000, 0, 0x1000, 0, 0x1000, 0, 0x100, 0, 1, 1, 0, 0,
      0xD, 32, 24, 0, 0x10000, 0x10000, 0x0000612F, 0]"

lemma valid_dylib_list: "load_commands valid_dylib = [32, 104, 176]" "\<not> malformed_commands valid_dylib"
  "snd (load_commands_diag valid_dylib) = None"
  by (simp_all add: valid_dylib_def walk_eval)

lemma valid_dylib_header: "mh_magic valid_dylib = MH_MAGIC_64" "mh_cputype valid_dylib = CPU_TYPE_X86_64"
  "mh_cpusubtype valid_dylib = 3" "mh_filetype valid_dylib = MH_DYLIB" "mh_sizeofcmds valid_dylib = 176"
  by (simp_all add: valid_dylib_def walk_eval)

lemma valid_dylib_cmds: "lc_cmd valid_dylib 32 = LC_SEGMENT_64" "lc_cmd valid_dylib 104 = LC_SEGMENT_64"
  "lc_cmd valid_dylib 176 = LC_ID_DYLIB" "lc_cmdsize valid_dylib 32 = 72" "lc_cmdsize valid_dylib 104 = 72"
  "lc_cmdsize valid_dylib 176 = 32" "read32 valid_dylib 96 = 0" "read32 valid_dylib 168 = 0"
  "read32 valid_dylib 184 = 24"
  by (simp_all add: valid_dylib_def walk_eval)

lemma valid_dylib_names:
  "strcmp_eq valid_dylib 40 ''__TEXT''" "\<not> strcmp_eq valid_dylib 112 ''__TEXT''" "strcmp_eq valid_dylib 112 ''__LINKEDIT''"
  by (simp_all add: strcmp_eq_def valid_dylib_def mem_words_def of_char_def)

lemma valid_dylib_segments: "segments valid_dylib =
   [\<lparr>fileOffset = 0, fileSize = 0x1000, vmAddr = 0, vmSize = 0x1000, sizeOfSections = 0x1000, segName = 40,
     loadCommandOffset = 32, protections = 5, textRelocs = False, readOnlyData = False, isProtected = False,
     segIndex = 0, p2align = 0\<rparr>,
    \<lparr>fileOffset = 0x1000, fileSize = 0x100, vmAddr = 0x1000, vmSize = 0x1000, sizeOfSections = 0x1000, segName = 112,
     loadCommandOffset = 104, protections = 1, textRelocs = False, readOnlyData = False, isProtected = False,
     segIndex = 1, p2align = 0\<rparr>]"
proof -
  have "read64 valid_dylib 56 = 0" "read64 valid_dylib 64 = 0x1000" "read64 valid_dylib 72 = 0" "read64 valid_dylib 80 = 0x1000"
    "read32 valid_dylib 92 = 5" "read32 valid_dylib 100 = 0" "read64 valid_dylib 128 = 0x1000" "read64 valid_dylib 136 = 0x1000"
    "read64 valid_dylib 144 = 0x1000" "read64 valid_dylib 152 = 0x100" "read32 valid_dylib 164 = 1" "read32 valid_dylib 172 = 0"
    by (simp_all add: valid_dylib_def walk_eval)
  then show ?thesis
    by (simp add: segments_def segment_commands_def valid_dylib_list is_segment_command_def valid_dylib_cmds
        segment_info_def segment_info64_def section_scan64_def sections64_def)
qed

lemma valid_dylib_commands_ok: "segmentCommandError valid_dylib 0x1100 32 = None"
  "segmentCommandError valid_dylib 0x1100 104 = None" "segmentCommandError valid_dylib 0x1100 176 = None"
proof -
  have "read64 valid_dylib 64 = 0x1000" "read64 valid_dylib 72 = 0" "read64 valid_dylib 80 = 0x1000"
    "read64 valid_dylib 136 = 0x1000" "read64 valid_dylib 144 = 0x1000" "read64 valid_dylib 152 = 0x100"
    by (simp_all add: valid_dylib_def walk_eval)
  then show "segmentCommandError valid_dylib 0x1100 32 = None"
    "segmentCommandError valid_dylib 0x1100 104 = None" "segmentCommandError valid_dylib 0x1100 176 = None"
    by (simp_all add: segmentCommandError_def segmentCommandError64_def valid_dylib_cmds Let_def greaterThanAddOrOverflow_def)
qed

lemma valid_dylib_validSegments: "validSegments dyld_build valid_dylib None 0x1100 = Some (True, None)"
proof -
  have "walkDiag valid_dylib (\<lambda>(bad, d) c. case segmentCommandError valid_dylib 0x1100 c of
      Some msg \<Rightarrow> Some ((True, error msg d), True) | None \<Rightarrow> Some ((bad, d), False)) False None = Some (False, None)"
    by (simp add: walkDiag_def forEachLoadCommand_list valid_dylib_list valid_dylib_commands_ok then_diag_def)
  moreover have "forEachSegment valid_dylib (segment_check dyld_build valid_dylib 0x1100)
      (\<lparr>badPermissions = False, badSize = False, hasTEXT = False, hasLINKEDIT = False\<rparr>, None)
      = Some (\<lparr>badPermissions = False, badSize = False, hasTEXT = True, hasLINKEDIT = True\<rparr>, None)"
    by (simp add: segs.walk_items valid_dylib_list valid_dylib_segments segment_check_def segment_permissions_def
        valid_dylib_names andAlso_def greaterThanAddOrOverflow_def vmRangeWraps_def is64_def valid_dylib_header)
  moreover have "overlap_pass dyld_build valid_dylib None = Some (False, None)"
    by (simp add: overlap_pass_def segs.walk_items valid_dylib_list valid_dylib_segments overlap_check_def
        rangesOverlap_def outOfOrder_def)
  moreover have "section_pass dyld_build valid_dylib None = Some (False, None)"
    by (simp add: section_pass_def walkDiag_def forEachLoadCommand_list valid_dylib_list valid_dylib_cmds
        sections64_def then_diag_def)
  ultimately show ?thesis by (simp add: validSegments_def)
qed

theorem validSegments_sound_witness:
  "layout_sound valid_dylib 0x1100 \<and> length (segments valid_dylib) = 2"
  using validSegments_sound [OF valid_dylib_validSegments] by (simp add: valid_dylib_segments)

lemma valid_dylib_valid:
  "validMachOForArchAndPlatform dyld_build valid_dylib None 0x1100 ''/a'' archs_x86_64 Platform_macOS True = Some (True, None)"
proof -
  have "grade archs_x86_64 (mh_cputype valid_dylib) (mh_cpusubtype valid_dylib) True \<noteq> 0"
    by (simp add: archs_defs masked_subtype_def valid_dylib_header)
  moreover have "validLoadCommands valid_dylib None 0x1100 = Some (True, None)"
    by (simp add: validLoadCommands_cases valid_dylib_list valid_dylib_segments valid_dylib_names commandsLength_def
        valid_dylib_header machHeaderSize_def is64_def)
  moreover have "find_nul valid_dylib 200 208 \<noteq> None"
    by (auto simp: find_nul_None valid_dylib_def mem_words_def intro!: exI [of _ 202])
  then have "validEmbeddedPaths valid_dylib None = Some (True, None)"
    by (auto simp: validEmbeddedPaths_def walkDiag_def forEachLoadCommand_list valid_dylib_list path_step_def
        hasPathCommand_def isDependentCommand_def valid_dylib_cmds embeddedPathError_def valid_dylib_header then_diag_def)
  moreover have "platforms valid_dylib = []"
    by (simp add: supported_platforms_def valid_dylib_list valid_dylib_cmds platform_of_command_def List.map_filter_simps Let_def)
  then have "toolPlatformError dyld_build valid_dylib Platform_macOS ''/a'' = Some None"
    by (simp add: toolPlatformError_def dyld_build_def loadableIntoProcess_def builtForPlatform_iff valid_dylib_list
        built_for_def valid_dylib_header Let_def)
  ultimately show ?thesis
    by (simp add: validMachOForArchAndPlatform_def valid_dylib_header loadableFiletype_def valid_dylib_validSegments)
qed

theorem validated_file_sound_witness:
  "\<not> malformed_commands valid_dylib \<and> layout_sound valid_dylib 0x1100 \<and> hasLoadCommand valid_dylib LC_ID_DYLIB"
  using validated_file_sound [OF valid_dylib_valid] by (simp add: isDylib_def valid_dylib_header)

end
