(* ===== verification/MachO_LinkEdit.thy ===== *)
theory MachO_LinkEdit
  imports MachO_Validate Cache_Eligibility "HOL-Library.Multiset"
begin

text \<open>
  The LINKEDIT segment: \<open>getLinkEditLoadCommands\<close>, \<open>getLayoutInfo\<close> and the accessors of
  \<open>src/dyld3/MachOLoaded.cpp\<close>, and \<open>validLinkeditLayout\<close> of \<open>src/dyld3/MachOAnalyzer.cpp\<close>. A
  pointer to a load command is its offset; \<open>None\<close> in a field of \<open>LinkEditInfo\<close> is \<open>nullptr\<close>.
\<close>

section \<open>The LINKEDIT load commands\<close>

text \<open>\<open>slide\<close> and the addresses are \<open>uintptr_t\<close>.\<close>

record LayoutInfo =
  li_slide :: u64
  textUnslidVMAddr :: u64
  linkeditUnslidVMAddr :: u64
  linkeditFileOffset :: u32
  linkeditFileSize :: u32
  linkeditSegIndex :: u32
  lastSegIndex :: u32

record LinkEditCommands =
  le_dyldInfo :: "nat option"
  le_exportsTrie :: "nat option"
  le_chainedFixups :: "nat option"
  le_symTab :: "nat option"
  le_dynSymTab :: "nat option"
  le_splitSegInfo :: "nat option"
  le_functionStarts :: "nat option"
  le_dataInCode :: "nat option"
  le_codeSig :: "nat option"
  le_hasUUID :: bool
  le_hasMinVersion :: bool
  le_hasEncrypt :: bool

definition no_commands :: LinkEditCommands where
  "no_commands = \<lparr>le_dyldInfo = None, le_exportsTrie = None, le_chainedFixups = None, le_symTab = None,
     le_dynSymTab = None, le_splitSegInfo = None, le_functionStarts = None, le_dataInCode = None,
     le_codeSig = None, le_hasUUID = False, le_hasMinVersion = False, le_hasEncrypt = False\<rparr>"

text \<open>The two checks every case of the switch makes before it records the command.\<close>

definition once_of_size :: "u64 \<Rightarrow> u64 \<Rightarrow> bool \<Rightarrow> string \<Rightarrow> string \<Rightarrow> diag \<Rightarrow> diag" where
  "once_of_size cmdsize wanted already wrongSize multiple d =
     (if cmdsize \<noteq> wanted then error wrongSize d else if already then error multiple d else d)"

definition linkedit_step :: "memory \<Rightarrow> LinkEditCommands \<times> diag \<Rightarrow> nat \<Rightarrow> LinkEditCommands \<times> diag" where
  "linkedit_step m s c =
     (let (r, d) = s; cmd = lc_cmd m c; size = ucast (lc_cmdsize m c) :: u64 in
      if cmd = LC_DYLD_INFO \<or> cmd = LC_DYLD_INFO_ONLY then
        (r\<lparr>le_dyldInfo := Some c\<rparr>, once_of_size size 48 (le_dyldInfo r \<noteq> None)
           ''LC_DYLD_INFO load command size wrong'' ''multiple LC_DYLD_INFO load commands'' d)
      else if cmd = LC_DYLD_EXPORTS_TRIE then
        (r\<lparr>le_exportsTrie := Some c\<rparr>, once_of_size size 16 (le_exportsTrie r \<noteq> None)
           ''LC_DYLD_EXPORTS_TRIE load command size wrong'' ''multiple LC_DYLD_EXPORTS_TRIE load commands'' d)
      else if cmd = LC_DYLD_CHAINED_FIXUPS then
        (r\<lparr>le_chainedFixups := Some c\<rparr>, once_of_size size 16 (le_chainedFixups r \<noteq> None)
           ''LC_DYLD_CHAINED_FIXUPS load command size wrong'' ''multiple LC_DYLD_CHAINED_FIXUPS load commands'' d)
      else if cmd = LC_SYMTAB then
        (r\<lparr>le_symTab := Some c\<rparr>, once_of_size size 24 (le_symTab r \<noteq> None)
           ''LC_SYMTAB load command size wrong'' ''multiple LC_SYMTAB load commands'' d)
      else if cmd = LC_DYSYMTAB then
        (r\<lparr>le_dynSymTab := Some c\<rparr>, once_of_size size 80 (le_dynSymTab r \<noteq> None)
           ''LC_DYSYMTAB load command size wrong'' ''multiple LC_DYSYMTAB load commands'' d)
      else if cmd = LC_SEGMENT_SPLIT_INFO then
        (r\<lparr>le_splitSegInfo := Some c\<rparr>, once_of_size size 16 (le_splitSegInfo r \<noteq> None)
           ''LC_SEGMENT_SPLIT_INFO load command size wrong'' ''multiple LC_SEGMENT_SPLIT_INFO load commands'' d)
      else if cmd = LC_FUNCTION_STARTS then
        (r\<lparr>le_functionStarts := Some c\<rparr>, once_of_size size 16 (le_functionStarts r \<noteq> None)
           ''LC_FUNCTION_STARTS load command size wrong'' ''multiple LC_FUNCTION_STARTS load commands'' d)
      else if cmd = LC_DATA_IN_CODE then
        (r\<lparr>le_dataInCode := Some c\<rparr>, once_of_size size 16 (le_dataInCode r \<noteq> None)
           ''LC_DATA_IN_CODE load command size wrong'' ''multiple LC_DATA_IN_CODE load commands'' d)
      else if cmd = LC_CODE_SIGNATURE then
        (r\<lparr>le_codeSig := Some c\<rparr>, once_of_size size 16 (le_codeSig r \<noteq> None)
           ''LC_CODE_SIGNATURE load command size wrong'' ''multiple LC_CODE_SIGNATURE load commands'' d)
      else if cmd = LC_UUID then
        (r\<lparr>le_hasUUID := True\<rparr>, once_of_size size 24 (le_hasUUID r)
           ''LC_UUID load command size wrong'' ''multiple LC_UUID load commands'' d)
      else if cmd = LC_VERSION_MIN_IPHONEOS \<or> cmd = LC_VERSION_MIN_MACOSX
              \<or> cmd = LC_VERSION_MIN_TVOS \<or> cmd = LC_VERSION_MIN_WATCHOS then
        (r\<lparr>le_hasMinVersion := True\<rparr>, once_of_size size 16 (le_hasMinVersion r)
           ''LC_VERSION_* load command size wrong'' ''multiple LC_VERSION_MIN_* load commands'' d)
      else if cmd = LC_BUILD_VERSION then
        (r, if size \<noteq> 24 + ucast (read32 m (c + 20)) * 8 then error ''LC_BUILD_VERSION load command size wrong'' d else d)
      else if cmd = LC_ENCRYPTION_INFO then
        (r\<lparr>le_hasEncrypt := True\<rparr>,
           if size \<noteq> 20 then error ''LC_ENCRYPTION_INFO load command size wrong'' d
           else if le_hasEncrypt r then error ''multiple LC_ENCRYPTION_INFO load commands'' d
           else if is64 m then error ''LC_ENCRYPTION_INFO found in 64-bit mach-o'' d else d)
      else if cmd = LC_ENCRYPTION_INFO_64 then
        (r\<lparr>le_hasEncrypt := True\<rparr>,
           if size \<noteq> 24 then error ''LC_ENCRYPTION_INFO_64 load command size wrong'' d
           else if le_hasEncrypt r then error ''multiple LC_ENCRYPTION_INFO_64 load commands'' d
           else if \<not> is64 m then error ''LC_ENCRYPTION_INFO_64 found in 32-bit mach-o'' d else d)
      else (r, d))"

definition getLinkEditLoadCommands :: "memory \<Rightarrow> diag \<Rightarrow> (LinkEditCommands \<times> diag) option" where
  "getLinkEditLoadCommands m d =
     map_option (\<lambda>(r, d').
         (r, if noError d' \<and> le_dynSymTab r \<noteq> None \<and> le_symTab r = None
             then error ''LC_DYSYMTAB but no LC_SYMTAB load command'' d' else d'))
       (walkDiag m (\<lambda>s c. Some (linkedit_step m s c, False)) no_commands d)"

section \<open>Layout\<close>

text \<open>
  \<open>loadAddr\<close> is the address of the mach header (\<open>this\<close>). A field whose segment is missing keeps
  what the caller's structure held.
\<close>

definition layout_of_segment :: "memory \<Rightarrow> u64 \<Rightarrow> LayoutInfo \<Rightarrow> SegmentInfo \<Rightarrow> LayoutInfo" where
  "layout_of_segment m loadAddr result info =
     (let r = (if strcmp_eq m (segName info) ''__TEXT'' then
                 result\<lparr>textUnslidVMAddr := vmAddr info, li_slide := loadAddr - vmAddr info\<rparr>
               else if strcmp_eq m (segName info) ''__LINKEDIT'' then
                 result\<lparr>linkeditUnslidVMAddr := vmAddr info, linkeditFileOffset := ucast (fileOffset info),
                        linkeditFileSize := ucast (fileSize info), linkeditSegIndex := ucast (segIndex info)\<rparr>
               else result)
      in r\<lparr>lastSegIndex := ucast (segIndex info)\<rparr>)"

definition getLayoutInfo :: "memory \<Rightarrow> u64 \<Rightarrow> LayoutInfo \<Rightarrow> LayoutInfo option" where
  "getLayoutInfo m loadAddr result =
     forEachSegment m (\<lambda>r info. Some (layout_of_segment m loadAddr r info, False)) result"

record LinkEditInfo =
  leCommands :: LinkEditCommands
  layout :: LayoutInfo

definition getLinkEditPointers :: "memory \<Rightarrow> u64 \<Rightarrow> LayoutInfo \<Rightarrow> diag \<Rightarrow> (LinkEditInfo \<times> diag) option" where
  "getLinkEditPointers m loadAddr uninit d =
     Option.bind (getLinkEditLoadCommands m d) (\<lambda>(cmds, d').
       if noError d'
       then map_option (\<lambda>l. (\<lparr>leCommands = cmds, layout = l\<rparr>, d')) (getLayoutInfo m loadAddr uninit)
       else Some (\<lparr>leCommands = cmds, layout = uninit\<rparr>, d'))"

definition getSlide :: "memory \<Rightarrow> u64 \<Rightarrow> u64 option" where
  "getSlide m loadAddr =
     walkAsserting m (\<lambda>slide c.
       if lc_cmd m c = LC_SEGMENT_64 then
         (if strcmp_eq m (c + 8) ''__TEXT'' then Some (loadAddr - read64 m (c + 24), True) else Some (slide, False))
       else if lc_cmd m c = LC_SEGMENT then
         (if strcmp_eq m (c + 8) ''__TEXT'' then Some (loadAddr - ucast (read32 m (c + 24)), True) else Some (slide, False))
       else Some (slide, False)) 0"

text \<open>The address of the LINKEDIT content at a file offset; the subtraction is in 32 bits.\<close>

definition getLinkEditContent :: "LayoutInfo \<Rightarrow> u32 \<Rightarrow> u64" where
  "getLinkEditContent info fileOff =
     linkeditUnslidVMAddr info + li_slide info + ucast (fileOff - linkeditFileOffset info)"

text \<open>The same as an offset from the mach header.\<close>

definition content_at :: "u64 \<Rightarrow> LayoutInfo \<Rightarrow> u32 \<Rightarrow> nat" where
  "content_at loadAddr l off = unat (getLinkEditContent l off - loadAddr)"

text \<open>The trie's offset from the mach header and its size.\<close>

definition getExportsTrie :: "memory \<Rightarrow> LinkEditInfo \<Rightarrow> (u64 \<times> u64) option" where
  "getExportsTrie m leInfo =
     (let at = (\<lambda>off. (linkeditUnslidVMAddr (layout leInfo) - textUnslidVMAddr (layout leInfo))
                       + ucast (off - linkeditFileOffset (layout leInfo)))
      in case le_exportsTrie (leCommands leInfo) of
           Some c \<Rightarrow> Some (at (read32 m (c + 8)), ucast (read32 m (c + 12)))
         | None \<Rightarrow>
             (case le_dyldInfo (leCommands leInfo) of
                Some c \<Rightarrow> Some (at (read32 m (c + 40)), ucast (read32 m (c + 44)))
              | None \<Rightarrow> None))"

definition hasExportTrie :: "memory \<Rightarrow> u64 \<Rightarrow> LayoutInfo \<Rightarrow> (bool \<times> u32 \<times> u32) option" where
  "hasExportTrie m loadAddr uninit =
     Option.bind (getLinkEditPointers m loadAddr uninit None) (\<lambda>(leInfo, d).
       if hasError d then None
       else case getExportsTrie m leInfo of
              Some (trie, trieSize) \<Rightarrow> Some (True, ucast trie, ucast trieSize)
            | None \<Rightarrow> Some (False, 0, 0))"

section \<open>Validating LINKEDIT\<close>

record LinkEditContentChunk =
  chunk_name :: string
  chunk_alignment :: u32
  fileOffsetStart :: u32
  chunk_size :: u32

definition chunk :: "string \<Rightarrow> u32 \<Rightarrow> u32 \<Rightarrow> u32 \<Rightarrow> LinkEditContentChunk" where
  "chunk name alignment off len =
     \<lparr>chunk_name = name, chunk_alignment = alignment, fileOffsetStart = off, chunk_size = len\<rparr>"

text \<open>A blob is listed when its size field is not zero.\<close>

definition blob_if :: "u32 \<Rightarrow> LinkEditContentChunk \<Rightarrow> LinkEditContentChunk list" where
  "blob_if n b = (if n \<noteq> 0 then [b] else [])"

definition data_blob :: "memory \<Rightarrow> string \<Rightarrow> nat option \<Rightarrow> LinkEditContentChunk list" where
  "data_blob m name slot =
     (case slot of None \<Rightarrow> []
      | Some c \<Rightarrow> blob_if (read32 m (c + 12)) (chunk name (pointerSize m) (read32 m (c + 8)) (read32 m (c + 12))))"

definition dyldInfo_blobs :: "memory \<Rightarrow> nat option \<Rightarrow> LinkEditContentChunk list" where
  "dyldInfo_blobs m slot =
     (case slot of None \<Rightarrow> []
      | Some c \<Rightarrow>
          blob_if (read32 m (c + 12)) (chunk ''rebase opcodes'' (pointerSize m) (read32 m (c + 8)) (read32 m (c + 12))) @
          blob_if (read32 m (c + 20)) (chunk ''bind opcodes'' (pointerSize m) (read32 m (c + 16)) (read32 m (c + 20))) @
          blob_if (read32 m (c + 28)) (chunk ''weak bind opcodes'' (pointerSize m) (read32 m (c + 24)) (read32 m (c + 28))) @
          blob_if (read32 m (c + 36)) (chunk ''lazy bind opcodes'' (pointerSize m) (read32 m (c + 32)) (read32 m (c + 36))) @
          blob_if (read32 m (c + 44)) (chunk ''exports trie'' (pointerSize m) (read32 m (c + 40)) (read32 m (c + 44))))"

text \<open>Sizes are truncated to 32 bits: \<open>static_cast<uint32_t>(nlocrel*sizeof(relocation_info))\<close> and the like.\<close>

definition dynSymTab_blobs :: "memory \<Rightarrow> nat option \<Rightarrow> LinkEditContentChunk list" where
  "dynSymTab_blobs m slot =
     (case slot of None \<Rightarrow> []
      | Some c \<Rightarrow>
          blob_if (read32 m (c + 76)) (chunk ''local relocations'' (pointerSize m) (read32 m (c + 72)) (read32 m (c + 76) * 8)) @
          blob_if (read32 m (c + 68)) (chunk ''external relocations'' (pointerSize m) (read32 m (c + 64)) (read32 m (c + 68) * 8)) @
          blob_if (read32 m (c + 60)) (chunk ''indirect symbol table'' 4 (read32 m (c + 56)) (read32 m (c + 60) * 4)))"

definition symTab_blobs :: "memory \<Rightarrow> nat option \<Rightarrow> LinkEditContentChunk list" where
  "symTab_blobs m slot =
     (case slot of None \<Rightarrow> []
      | Some c \<Rightarrow>
          blob_if (read32 m (c + 12)) (chunk ''symbol table'' (pointerSize m) (read32 m (c + 8))
             (read32 m (c + 12) * (if pointerSize m = 8 then 16 else 12))) @
          blob_if (read32 m (c + 20)) (chunk ''symbol table strings'' 1 (read32 m (c + 16)) (read32 m (c + 20))))"

definition linkedit_blobs :: "memory \<Rightarrow> LinkEditCommands \<Rightarrow> LinkEditContentChunk list" where
  "linkedit_blobs m le =
     dyldInfo_blobs m (le_dyldInfo le) @
     data_blob m ''exports trie'' (le_exportsTrie le) @
     data_blob m ''chained fixups'' (le_chainedFixups le) @
     dynSymTab_blobs m (le_dynSymTab le) @
     data_blob m ''shared cache info'' (le_splitSegInfo le) @
     data_blob m ''function starts'' (le_functionStarts le) @
     data_blob m ''data in code'' (le_dataInCode le) @
     symTab_blobs m (le_symTab le) @
     data_blob m ''code signature'' (le_codeSig le)"

text \<open>
  The loop over the sorted blobs: the verdict so far and the diagnostics. A misaligned blob
  is an error in the diagnostics but does not end the loop.
\<close>

fun blob_loop :: "build \<Rightarrow> memory \<Rightarrow> u32 \<Rightarrow> u32 \<Rightarrow> diag \<Rightarrow> LinkEditContentChunk list \<Rightarrow> (bool \<times> diag) option" where
  "blob_loop B m linkeditFileEnd prevEnd d [] = Some (True, d)"
| "blob_loop B m linkeditFileEnd prevEnd d (blob # blobs) =
     (if fileOffsetStart blob < prevEnd then
        Some (False, error ''in '%s' LINKEDIT overlap of %s and %s'' d)
      else if greaterThanAddOrOverflow (fileOffsetStart blob) (chunk_size blob) linkeditFileEnd then
        Some (False, error ''in '%s' LINKEDIT content '%s' extends beyond end of segment'' d)
      else
        Option.bind
          (if fileOffsetStart blob AND (chunk_alignment blob - 1) \<noteq> 0
           then map_option (\<lambda>enforce. if enforce
                    then error (''in '%s' mis-aligned LINKEDIT content '%s'' @ [CHR 0x27]) d else d)
                  (enforceFormat B m (if chunk_name blob = ''code signature'' then codeSigAlignment else linkeditAlignment))
           else Some d)
          (\<lambda>d'. blob_loop B m linkeditFileEnd (fileOffsetStart blob + chunk_size blob) d' blobs))"

text \<open>\<open>qsort\<close> with \<open>compareByFileOffset\<close>.\<close>

definition sort_blobs :: "LinkEditContentChunk list \<Rightarrow> LinkEditContentChunk list" where
  "sort_blobs blobs = sort_key (\<lambda>b. unat (fileOffsetStart b)) blobs"

definition symbolTableError :: "memory \<Rightarrow> nat option \<Rightarrow> nat option \<Rightarrow> string option" where
  "symbolTableError m symTab dynSymTab =
     (case symTab of None \<Rightarrow> None
      | Some s \<Rightarrow>
          (let nsyms = read32 m (s + 12) in
           if nsyms > 0x10000000 then Some ''in '%s' malformed mach-o image: symbol table too large''
           else case dynSymTab of None \<Rightarrow> None
           | Some c \<Rightarrow>
               (let ilocalsym = read32 m (c + 8); nlocalsym = read32 m (c + 12);
                    iextdefsym = read32 m (c + 16); nextdefsym = read32 m (c + 20);
                    iundefsym = read32 m (c + 24); nundefsym = read32 m (c + 28); nindirectsyms = read32 m (c + 60)
                in if nindirectsyms \<noteq> 0 \<and> nindirectsyms > 0x10000000 then
                     Some ''in '%s' malformed mach-o image: indirect symbol table too large''
                   else if nlocalsym > nsyms \<or> ilocalsym > nsyms then
                     Some ''in '%s' malformed mach-o image: indirect symbol table local symbol count exceeds total symbols''
                   else if ilocalsym + nlocalsym < ilocalsym then
                     Some ''in '%s' malformed mach-o image: indirect symbol table local symbol count wraps''
                   else if nextdefsym > nsyms \<or> iextdefsym > nsyms then
                     Some ''in '%s' malformed mach-o image: indirect symbol table extern symbol count exceeds total symbols''
                   else if iextdefsym + nextdefsym < iextdefsym then
                     Some ''in '%s' malformed mach-o image: indirect symbol table extern symbol count wraps''
                   else if nundefsym > nsyms \<or> iundefsym > nsyms then
                     Some ''in '%s' malformed mach-o image: indirect symbol table undefined symbol count exceeds total symbols''
                   else if iundefsym + nundefsym < iundefsym then
                     Some ''in '%s' malformed mach-o image: indirect symbol table undefined symbol count wraps''
                   else None)))"

text \<open>The checks for bad combinations: the message, when they end the function.\<close>

definition combinationError :: "build \<Rightarrow> memory \<Rightarrow> LinkEditCommands \<Rightarrow> string option option" where
  "combinationError B m le =
     Option.bind
       (case (le_dyldInfo le, le_dynSymTab le) of
          (Some i, Some c) \<Rightarrow>
            if lc_cmd m i = LC_DYLD_INFO_ONLY then
              Option.bind (andAlso (read32 m (c + 76) \<noteq> 0) (enforceFormat B m dyldInfoAndlocalRelocs)) (\<lambda>bad.
                if bad then Some (Some ''in '%s' malformed mach-o contains LC_DYLD_INFO_ONLY and local relocations'')
                else if read32 m (c + 68) \<noteq> 0
                then Some (Some ''in '%s' malformed mach-o contains LC_DYLD_INFO_ONLY and external relocations'')
                else Some None)
            else Some None
        | _ \<Rightarrow> Some None)
       (\<lambda>e. case e of Some msg \<Rightarrow> Some (Some msg)
          | None \<Rightarrow>
              (let checkMissingDyldInfo =
                     (if BUILDING_DYLDINFO B \<or> BUILDING_APP_CACHE_UTIL B
                      then \<not> isFileSet m \<and> \<not> isStaticExecutable m \<and> \<not> isKextBundle m else True)
               in Some (if le_dyldInfo le = None \<and> le_dynSymTab le = None \<and> checkMissingDyldInfo
                        then Some ''in '%s' malformed mach-o misssing LC_DYLD_INFO and LC_DYSYMTAB'' else None)))"

definition validLinkeditLayout :: "build \<Rightarrow> memory \<Rightarrow> u64 \<Rightarrow> LayoutInfo \<Rightarrow> diag \<Rightarrow> (bool \<times> diag) option" where
  "validLinkeditLayout B m loadAddr uninit d =
     Option.bind (getLinkEditPointers m loadAddr uninit d) (\<lambda>(leInfo, d1).
     if hasError d1 then Some (False, d1) else
     let le = leCommands leInfo; blobs = linkedit_blobs m le; lo = layout leInfo in
     Option.bind (combinationError B m le) (\<lambda>bad.
     case bad of Some msg \<Rightarrow> Some (False, error msg d1)
     | None \<Rightarrow>
         if BUILDING_APP_CACHE_UTIL B \<and> isFileSet m then Some (True, d1)
         else if blobs = [] then Some (False, error ''in '%s' malformed mach-o missing LINKEDIT'' d1)
         else
           Option.bind (blob_loop B m (linkeditFileOffset lo + linkeditFileSize lo) (linkeditFileOffset lo) d1
                          (sort_blobs blobs)) (\<lambda>(ok, d2).
           if \<not> ok then Some (False, d2)
           else case symbolTableError m (le_symTab le) (le_dynSymTab le) of
                  Some msg \<Rightarrow> Some (False, error msg d2)
                | None \<Rightarrow> Some (True, d2))))"

section \<open>Properties of the load command scan\<close>

text \<open>
  The contract of one field of \<open>LinkEditCommands\<close>: as long as no error has been recorded, the
  field is set by the first command of its kinds, that command has the expected size, and a
  second one is an error.
\<close>

locale command_slot =
  fixes slot :: "LinkEditCommands \<Rightarrow> nat option" and kinds :: "u32 set" and wanted :: u32
  assumes slot_step: "noError (snd (linkedit_step m s c)) \<Longrightarrow>
      noError (snd s) \<and>
      (if lc_cmd m c \<in> kinds then slot (fst s) = None \<and> slot (fst (linkedit_step m s c)) = Some c \<and> lc_cmdsize m c = wanted
       else slot (fst (linkedit_step m s c)) = slot (fst s))"
begin

lemma slot_fold:
  assumes "noError (snd (foldl (linkedit_step m) s cs))"
  shows "noError (snd s) \<and>
    (case slot (fst s) of
       None \<Rightarrow> filter (\<lambda>c. lc_cmd m c \<in> kinds) cs = (case slot (fst (foldl (linkedit_step m) s cs)) of None \<Rightarrow> [] | Some c \<Rightarrow> [c])
     | Some c \<Rightarrow> slot (fst (foldl (linkedit_step m) s cs)) = Some c \<and> filter (\<lambda>c. lc_cmd m c \<in> kinds) cs = [])
    \<and> (\<forall>c\<in>set cs. lc_cmd m c \<in> kinds \<longrightarrow> lc_cmdsize m c = wanted)"
  using assms
proof (induction cs arbitrary: s)
  case Nil
  then show ?case by (auto split: option.splits)
next
  case (Cons c cs)
  from Cons.IH [of "linkedit_step m s c"] Cons.prems
  have IH: "noError (snd (linkedit_step m s c))" by simp
  from Cons.IH [of "linkedit_step m s c"] Cons.prems slot_step [OF IH] show ?case
    by (auto split: option.splits if_splits)
qed

lemma slot_unique:
  assumes "noError (snd (foldl (linkedit_step m) (no_commands, d) cs))" and "slot no_commands = None"
  shows "filter (\<lambda>c. lc_cmd m c \<in> kinds) cs
      = (case slot (fst (foldl (linkedit_step m) (no_commands, d) cs)) of None \<Rightarrow> [] | Some c \<Rightarrow> [c])"
    and "\<forall>c\<in>set cs. lc_cmd m c \<in> kinds \<longrightarrow> lc_cmdsize m c = wanted"
  using slot_fold [OF assms(1)] assms(2) by auto

end

lemma once_of_size_ok:
  "noError (once_of_size a b already x y d) \<longleftrightarrow> noError d \<and> a = b \<and> \<not> already"
  by (simp add: once_of_size_def)

lemma ucast_size_eq:
  "(ucast (w::u32) :: u64) = 16 \<longleftrightarrow> w = 16" "(ucast (w::u32) :: u64) = 24 \<longleftrightarrow> w = 24"
  "(ucast (w::u32) :: u64) = 48 \<longleftrightarrow> w = 48" "(ucast (w::u32) :: u64) = 80 \<longleftrightarrow> w = 80"
  by (simp_all add: word_unat_eq_iff)

lemmas step_simps = linkedit_step_def Let_def case_prod_beta once_of_size_ok ucast_size_eq

interpretation dyldInfo: command_slot le_dyldInfo "{LC_DYLD_INFO, LC_DYLD_INFO_ONLY}" 48
  by unfold_locales (auto simp: step_simps split: if_splits)

interpretation exportsTrie: command_slot le_exportsTrie "{LC_DYLD_EXPORTS_TRIE}" 16
  by unfold_locales (auto simp: step_simps split: if_splits)

interpretation chainedFixups: command_slot le_chainedFixups "{LC_DYLD_CHAINED_FIXUPS}" 16
  by unfold_locales (auto simp: step_simps split: if_splits)

interpretation symTab: command_slot le_symTab "{LC_SYMTAB}" 24
  by unfold_locales (auto simp: step_simps split: if_splits)

interpretation dynSymTab: command_slot le_dynSymTab "{LC_DYSYMTAB}" 80
  by unfold_locales (auto simp: step_simps split: if_splits)

interpretation splitSegInfo: command_slot le_splitSegInfo "{LC_SEGMENT_SPLIT_INFO}" 16
  by unfold_locales (auto simp: step_simps split: if_splits)

interpretation functionStarts: command_slot le_functionStarts "{LC_FUNCTION_STARTS}" 16
  by unfold_locales (auto simp: step_simps split: if_splits)

interpretation dataInCode: command_slot le_dataInCode "{LC_DATA_IN_CODE}" 16
  by unfold_locales (auto simp: step_simps split: if_splits)

interpretation codeSig: command_slot le_codeSig "{LC_CODE_SIGNATURE}" 16
  by unfold_locales (auto simp: step_simps split: if_splits)

text \<open>A field names the only command of its kinds, which has the size of its C structure.\<close>

definition slot_ok :: "memory \<Rightarrow> nat option \<Rightarrow> u32 set \<Rightarrow> nat \<Rightarrow> bool" where
  "slot_ok m slot kinds n \<longleftrightarrow>
     filter (\<lambda>c. lc_cmd m c \<in> kinds) (load_commands m) = (case slot of None \<Rightarrow> [] | Some c \<Rightarrow> [c])
     \<and> (\<forall>c. slot = Some c \<longrightarrow> machHeaderSize m \<le> c \<and> c + n \<le> cmds_end m \<and> unat (lc_cmdsize m c) = n)"

lemma slot_okI:
  assumes "filter (\<lambda>c. lc_cmd m c \<in> kinds) (load_commands m) = (case slot of None \<Rightarrow> [] | Some c \<Rightarrow> [c])"
    and "\<forall>c\<in>set (load_commands m). lc_cmd m c \<in> kinds \<longrightarrow> lc_cmdsize m c = of_nat n" and "n < 4294967296"
  shows "slot_ok m slot kinds n"
proof -
  have "machHeaderSize m \<le> c \<and> c + n \<le> cmds_end m \<and> unat (lc_cmdsize m c) = n" if "slot = Some c" for c
  proof -
    have "c \<in> set (load_commands m)" "lc_cmd m c \<in> kinds"
      using arg_cong [OF assms(1), of set] that by auto
    then show ?thesis
      using assms(2,3) load_commands_bounds [of m] unat_of_nat_u32 [of n] by fastforce
  qed
  with assms(1) show ?thesis by (simp add: slot_ok_def)
qed

context command_slot
begin

lemma slot_ok_fold:
  assumes run: "foldl (linkedit_step m) (no_commands, d) (load_commands m) = (le, None)"
    and "slot no_commands = None" and "wanted = of_nat n" and "n < 4294967296"
  shows "slot_ok m (slot le) kinds n"
proof -
  have "noError (snd (foldl (linkedit_step m) (no_commands, d) (load_commands m)))" by (simp add: run)
  from slot_unique [OF this assms(2)] show ?thesis
    unfolding run using assms(3,4) by (intro slot_okI) simp_all
qed

end

lemma getLinkEditLoadCommands_run:
  assumes "getLinkEditLoadCommands m d = Some (le, None)"
  shows "\<not> malformed_commands m" and "le_dynSymTab le \<noteq> None \<longrightarrow> le_symTab le \<noteq> None"
    and "foldl (linkedit_step m) (no_commands, d) (load_commands m) = (le, None)"
  using assms
  by (auto simp: getLinkEditLoadCommands_def walkDiag_def forEachLoadCommand_list forStop_foldl malformed_commands_def
      diag_defs bind_eq_Some_conv split: if_splits option.splits prod.splits)

definition commands_ok :: "memory \<Rightarrow> LinkEditCommands \<Rightarrow> bool" where
  "commands_ok m le \<longleftrightarrow>
     slot_ok m (le_dyldInfo le) {LC_DYLD_INFO, LC_DYLD_INFO_ONLY} 48
     \<and> slot_ok m (le_exportsTrie le) {LC_DYLD_EXPORTS_TRIE} 16
     \<and> slot_ok m (le_chainedFixups le) {LC_DYLD_CHAINED_FIXUPS} 16
     \<and> slot_ok m (le_symTab le) {LC_SYMTAB} 24
     \<and> slot_ok m (le_dynSymTab le) {LC_DYSYMTAB} 80
     \<and> slot_ok m (le_splitSegInfo le) {LC_SEGMENT_SPLIT_INFO} 16
     \<and> slot_ok m (le_functionStarts le) {LC_FUNCTION_STARTS} 16
     \<and> slot_ok m (le_dataInCode le) {LC_DATA_IN_CODE} 16
     \<and> slot_ok m (le_codeSig le) {LC_CODE_SIGNATURE} 16"

lemma commands_ok_of_run:
  assumes "getLinkEditLoadCommands m d = Some (le, None)"
  shows "commands_ok m le"
  unfolding commands_ok_def
  using getLinkEditLoadCommands_run(3) [OF assms]
  by (intro conjI dyldInfo.slot_ok_fold exportsTrie.slot_ok_fold chainedFixups.slot_ok_fold symTab.slot_ok_fold
      dynSymTab.slot_ok_fold splitSegInfo.slot_ok_fold functionStarts.slot_ok_fold dataInCode.slot_ok_fold
      codeSig.slot_ok_fold) (simp_all add: no_commands_def)

text \<open>
  C32: when \<open>getLinkEditLoadCommands\<close> reports no error, the load commands walk without error and
  each of the nine pointers it returns is the only load command of its kind, null when there
  is none; the command has exactly the size of the C structure it is read as and lies inside
  the load command area, so reading any field of it stays there. A dynamic symbol table comes
  with a symbol table.
\<close>

theorem getLinkEditLoadCommands_sound:
  assumes "getLinkEditLoadCommands m d = Some (le, None)"
  shows "\<not> malformed_commands m \<and> commands_ok m le \<and> (le_dynSymTab le \<noteq> None \<longrightarrow> le_symTab le \<noteq> None)"
  using getLinkEditLoadCommands_run(1,2) [OF assms] commands_ok_of_run [OF assms] by blast

theorem getLinkEditLoadCommands_sound_witness:
  "\<exists>le. getLinkEditLoadCommands cache_dylib None = Some (le, None) \<and> le_splitSegInfo le = Some 72
     \<and> slot_ok cache_dylib (le_splitSegInfo le) {LC_SEGMENT_SPLIT_INFO} 16"
proof -
  have "lc_cmdsize cache_dylib 72 = 16" "lc_cmdsize cache_dylib 88 = 16" "lc_cmdsize cache_dylib 104 = 16" "snd (load_commands_diag cache_dylib) = None"
    by (simp_all add: cache_dylib_def walk_eval)
  then have "getLinkEditLoadCommands cache_dylib None =
      Some (no_commands\<lparr>le_splitSegInfo := Some 72, le_exportsTrie := Some 88, le_hasMinVersion := True\<rparr>, None)"
    by (simp add: getLinkEditLoadCommands_def walkDiag_def forEachLoadCommand_list cache_dylib_list linkedit_step_def
        cache_dylib_cmds once_of_size_def no_commands_def diag_defs)
  from this getLinkEditLoadCommands_sound [OF this] show ?thesis by (auto simp: commands_ok_def)
qed

section \<open>Properties of the LINKEDIT layout\<close>

abbreviation blob_end :: "LinkEditContentChunk \<Rightarrow> nat" where
  "blob_end b \<equiv> unat (fileOffsetStart b) + unat (chunk_size b)"

lemma blob_loop_sound:
  assumes "blob_loop B m e prevEnd d blobs = Some (True, d')"
  shows "sorted_wrt (\<lambda>a b. blob_end a \<le> unat (fileOffsetStart b)) blobs
    \<and> (\<forall>b\<in>set blobs. unat prevEnd \<le> unat (fileOffsetStart b) \<and> blob_end b \<le> unat e)"
  using assms
proof (induction blobs arbitrary: prevEnd d)
  case (Cons b bs)
  then have ok: "prevEnd \<le> fileOffsetStart b" "blob_end b \<le> unat e"
    by (auto simp: greaterThanAddOrOverflow_iff not_less split: if_splits)
  moreover obtain d1 where "blob_loop B m e (fileOffsetStart b + chunk_size b) d1 bs = Some (True, d')"
    using Cons.prems by (auto simp: bind_eq_Some_conv split: if_splits)
  note IH = Cons.IH [OF this]
  have "unat (fileOffsetStart b + chunk_size b) = blob_end b"
    using ok(2) unat_u32_less [of e] by (simp add: unat_word_ariths)
  ultimately show ?case using IH by (auto simp: word_le_nat_alt)
qed simp

text \<open>No recorded symbol range leaves the symbol table's index space.\<close>

definition symbol_ranges_ok :: "memory \<Rightarrow> LinkEditCommands \<Rightarrow> bool" where
  "symbol_ranges_ok m le \<longleftrightarrow>
     (\<forall>s c. le_symTab le = Some s \<and> le_dynSymTab le = Some c \<longrightarrow>
        (\<forall>(i, n)\<in>{(8, 12), (16, 20), (24, 28)}.
           unat (read32 m (c + i)) \<le> unat (read32 m (s + 12)) \<and> unat (read32 m (c + n)) \<le> unat (read32 m (s + 12))
           \<and> unat (read32 m (c + i)) + unat (read32 m (c + n)) < 2 ^ 32))"

lemma no_wrap_u32: "\<not> (a::u32) + b < a \<Longrightarrow> unat a + unat b < 2 ^ 32"
  using no_olen_add_nat [of a b] by (simp add: not_less)

lemma symbolTableError_None:
  "symbolTableError m (le_symTab le) (le_dynSymTab le) = None \<Longrightarrow> symbol_ranges_ok m le"
  using no_wrap_u32
  by (auto simp: symbol_ranges_ok_def symbolTableError_def Let_def not_less word_le_nat_alt
      split: option.splits if_splits)

lemma validLinkeditLayout_run:
  assumes "validLinkeditLayout B m loadAddr uninit d = Some (True, d')"
    and "\<not> (BUILDING_APP_CACHE_UTIL B \<and> isFileSet m)"
  obtains leInfo d1 d2 where "getLinkEditPointers m loadAddr uninit d = Some (leInfo, None)"
    and "linkedit_blobs m (leCommands leInfo) \<noteq> []"
    and "blob_loop B m (linkeditFileOffset (layout leInfo) + linkeditFileSize (layout leInfo))
      (linkeditFileOffset (layout leInfo)) d1 (sort_blobs (linkedit_blobs m (leCommands leInfo))) = Some (True, d2)"
    and "symbolTableError m (le_symTab (leCommands leInfo)) (le_dynSymTab (leCommands leInfo)) = None"
  using assms
  by (auto simp: validLinkeditLayout_def bind_eq_Some_conv Let_def hasError_noError split: if_splits option.splits)
     (auto simp: noError_def)

text \<open>
  C13: a file accepted by \<open>validLinkeditLayout\<close> has all its LINKEDIT blobs (opcodes, tries, symbol
  and relocation tables, signature), with the 32-bit sizes computed for them, inside the
  LINKEDIT segment's file range, no two of them overlapping, and its dynamic symbol table's
  ranges do not wrap; every load command the blobs are read from is the only one of its kind and
  has the size of its structure.
\<close>

theorem validLinkeditLayout_sound:
  assumes "validLinkeditLayout B m loadAddr uninit d = Some (True, d')"
    and "\<not> (BUILDING_APP_CACHE_UTIL B \<and> isFileSet m)"
  shows "\<exists>leInfo. getLinkEditPointers m loadAddr uninit d = Some (leInfo, None)
    \<and> commands_ok m (leCommands leInfo) \<and> symbol_ranges_ok m (leCommands leInfo)
    \<and> linkedit_blobs m (leCommands leInfo) \<noteq> []
    \<and> (\<exists>blobs. mset blobs = mset (linkedit_blobs m (leCommands leInfo))
         \<and> sorted_wrt (\<lambda>a b. blob_end a \<le> unat (fileOffsetStart b)) blobs
         \<and> (\<forall>b\<in>set blobs. unat (linkeditFileOffset (layout leInfo)) \<le> unat (fileOffsetStart b)
              \<and> blob_end b \<le> unat (linkeditFileOffset (layout leInfo) + linkeditFileSize (layout leInfo))))"
proof -
  obtain leInfo d1 d2 where run: "getLinkEditPointers m loadAddr uninit d = Some (leInfo, None)"
      "linkedit_blobs m (leCommands leInfo) \<noteq> []"
      "blob_loop B m (linkeditFileOffset (layout leInfo) + linkeditFileSize (layout leInfo))
        (linkeditFileOffset (layout leInfo)) d1 (sort_blobs (linkedit_blobs m (leCommands leInfo))) = Some (True, d2)"
      "symbolTableError m (le_symTab (leCommands leInfo)) (le_dynSymTab (leCommands leInfo)) = None"
    using assms by (rule validLinkeditLayout_run)
  have "getLinkEditLoadCommands m d = Some (leCommands leInfo, None)"
    using run(1) by (auto simp: getLinkEditPointers_def bind_eq_Some_conv split: if_splits)
  then have "commands_ok m (leCommands leInfo)" by (rule commands_ok_of_run)
  with run(1,2) blob_loop_sound [OF run(3)] symbolTableError_None [OF run(4)] show ?thesis
    by (intro exI [of _ leInfo] conjI exI [of _ "sort_blobs (linkedit_blobs m (leCommands leInfo))"])
      (simp_all add: sort_blobs_def)
qed

text \<open>A dylib with a symbol table of \<open>0x10000000\<close> entries and a LINKEDIT segment of 256 bytes.\<close>

definition huge_symtab :: memory where
  "huge_symtab = mem_words
     [0xFEEDFACF, 0x01000007, 3, 6, 4, 248, 0x80, 0,
      0x19, 72, 0x45545F5F, 0x00005458, 0, 0, 0, 0, 0x1000, 0, 0, 0, 0x1000, 0, 5, 5, 0, 0,
      0x19, 72, 0x494C5F5F, 0x44454B4E, 0x00005449, 0, 0x1000, 0, 0x1000, 0, 0x1000, 0, 0x100, 0, 1, 1, 0, 0,
      0x2, 24, 0x1000, 0x10000000, 0x1000, 0x10,
      0xB, 80, 0x10000000, 1, 0, 0, 0, 0, 0, 0, 0, 0, 0, 0, 0, 0, 0, 0, 0, 0]"

lemma huge_symtab_list: "load_commands huge_symtab = [32, 104, 176, 200]" "\<not> malformed_commands huge_symtab"
  "snd (load_commands_diag huge_symtab) = None"
  by (simp_all add: huge_symtab_def walk_eval)

lemma huge_symtab_cmds: "lc_cmd huge_symtab 32 = LC_SEGMENT_64" "lc_cmd huge_symtab 104 = LC_SEGMENT_64"
  "lc_cmd huge_symtab 176 = LC_SYMTAB" "lc_cmd huge_symtab 200 = LC_DYSYMTAB" "lc_cmdsize huge_symtab 176 = 24"
  "lc_cmdsize huge_symtab 200 = 80" "read32 huge_symtab 96 = 0" "read32 huge_symtab 168 = 0"
  by (simp_all add: huge_symtab_def walk_eval)

lemma huge_symtab_fields: "read32 huge_symtab 184 = 0x1000" "read32 huge_symtab 188 = 0x10000000"
  "read32 huge_symtab 192 = 0x1000" "read32 huge_symtab 196 = 0x10"
  "read32 huge_symtab 208 = 0x10000000" "read32 huge_symtab 212 = 1" "read32 huge_symtab 216 = 0" "read32 huge_symtab 220 = 0"
  "read32 huge_symtab 224 = 0" "read32 huge_symtab 228 = 0"
  "read32 huge_symtab 260 = 0" "read32 huge_symtab 268 = 0" "read32 huge_symtab 276 = 0"
  "mh_magic huge_symtab = MH_MAGIC_64"
  by (simp_all add: huge_symtab_def walk_eval)

lemma huge_symtab_commands: "getLinkEditLoadCommands huge_symtab None =
    Some (no_commands\<lparr>le_symTab := Some 176, le_dynSymTab := Some 200\<rparr>, None)"
  by (simp add: getLinkEditLoadCommands_def walkDiag_def forEachLoadCommand_list huge_symtab_list linkedit_step_def
      huge_symtab_cmds once_of_size_def no_commands_def diag_defs)

lemma huge_symtab_layout:
  "\<exists>l. getLayoutInfo huge_symtab 0 uninit = Some l \<and> linkeditFileOffset l = 0x1000 \<and> linkeditFileSize l = 0x100"
proof -
  have "read64 huge_symtab 144 = 0x1000" "read64 huge_symtab 152 = 0x100"
    by (simp_all add: huge_symtab_def walk_eval)
  moreover have "strcmp_eq huge_symtab 40 ''__TEXT''" "\<not> strcmp_eq huge_symtab 112 ''__TEXT''"
    "strcmp_eq huge_symtab 112 ''__LINKEDIT''"
    by (simp_all add: strcmp_eq_def huge_symtab_def mem_words_def of_char_def)
  ultimately show ?thesis
    by (simp add: getLayoutInfo_def segs.walk_fold huge_symtab_list segments_def segment_commands_def
        is_segment_command_def huge_symtab_cmds segment_info_def segment_info64_def section_scan64_def sections64_def
        layout_of_segment_def Let_def)
qed

lemma huge_symtab_blobs: "linkedit_blobs huge_symtab (no_commands\<lparr>le_symTab := Some 176, le_dynSymTab := Some 200\<rparr>) =
   [chunk ''symbol table'' 8 0x1000 0, chunk ''symbol table strings'' 1 0x1000 0x10]"
  by (simp add: linkedit_blobs_def dyldInfo_blobs_def data_blob_def dynSymTab_blobs_def symTab_blobs_def blob_if_def
      no_commands_def huge_symtab_fields pointerSize_def chunk_def)

lemma huge_symtab_valid: "validLinkeditLayout dyld_build huge_symtab 0 uninit None = Some (True, None)"
proof -
  let ?le = "no_commands\<lparr>le_symTab := Some 176, le_dynSymTab := Some 200\<rparr>"
  obtain l where l: "getLayoutInfo huge_symtab 0 uninit = Some l" "linkeditFileOffset l = 0x1000" "linkeditFileSize l = 0x100"
    using huge_symtab_layout by blast
  have "getLinkEditPointers huge_symtab 0 uninit None = Some (\<lparr>leCommands = ?le, layout = l\<rparr>, None)"
    by (simp add: getLinkEditPointers_def huge_symtab_commands l)
  moreover have "combinationError dyld_build huge_symtab ?le = Some None"
    by (simp add: combinationError_def no_commands_def)
  moreover have "blob_loop dyld_build huge_symtab 0x1100 0x1000 None
      (sort_blobs [chunk ''symbol table'' 8 0x1000 0, chunk ''symbol table strings'' 1 0x1000 0x10]) = Some (True, None)"
    by (simp add: sort_blobs_def chunk_def greaterThanAddOrOverflow_def)
  moreover have "symbolTableError huge_symtab (Some 176) (Some 200) = None"
    by (simp add: symbolTableError_def huge_symtab_fields Let_def)
  ultimately show ?thesis
    by (simp add: validLinkeditLayout_def huge_symtab_blobs l diag_defs dyld_build_def)
qed

text \<open>
  Two holes in the check of the symbol table. Its size is computed modulo \<open>2^32\<close>: a 64-bit
  file with \<open>0x10000000\<close> symbols of 16 bytes, the largest count the later check admits, is
  accepted with a LINKEDIT segment of 256 bytes. And the start and the count of the local symbols
  are each compared with the number of symbols, not their sum: the accepted file has local
  symbols past the end of its symbol table.
\<close>

theorem huge_symbol_table_accepted:
  "validLinkeditLayout dyld_build huge_symtab 0 uninit None = Some (True, None)
   \<and> 16 * unat (read32 huge_symtab (176 + 12)) = 4294967296
   \<and> unat (read32 huge_symtab (200 + 8)) + unat (read32 huge_symtab (200 + 12)) > unat (read32 huge_symtab (176 + 12))"
  by (simp add: huge_symtab_valid huge_symtab_fields)

theorem validLinkeditLayout_sound_witness:
  "\<forall>uninit. \<exists>leInfo. getLinkEditPointers huge_symtab 0 uninit None = Some (leInfo, None)
     \<and> commands_ok huge_symtab (leCommands leInfo) \<and> symbol_ranges_ok huge_symtab (leCommands leInfo)"
proof
  fix uninit
  have "\<not> (BUILDING_APP_CACHE_UTIL dyld_build \<and> isFileSet huge_symtab)" by (simp add: dyld_build_def)
  from validLinkeditLayout_sound [OF huge_symtab_valid this]
  show "\<exists>leInfo. getLinkEditPointers huge_symtab 0 uninit None = Some (leInfo, None)
     \<and> commands_ok huge_symtab (leCommands leInfo) \<and> symbol_ranges_ok huge_symtab (leCommands leInfo)" by blast
qed

end
