(* ===== verification/MachO_Rebase.thy ===== *)
theory MachO_Rebase
  imports MachO_LinkEdit Leb128
begin

text \<open>
  Rebases: the three sources \<open>forEachRebase\<close> of \<open>src/dyld3/MachOAnalyzer.cpp\<close> reads them from
  (rebase opcodes, local relocations, indirect symbols), the blocks built on it, and
  \<open>validRebaseInfo\<close>. \<open>loadAddr\<close> is the address of the mach header; the content at an address is
  read at its distance from there. The result \<open>None\<close> is a failed assertion, an access outside
  \<open>segmentsInfo\<close>, or a loop that does not end.
\<close>

section \<open>The segment array\<close>

text \<open>\<open>segmentsInfo\<close>: an entry that was not written is \<open>None\<close>.\<close>

type_synonym segment_array = "SegmentInfo option list"

definition seg_at :: "segment_array \<Rightarrow> nat \<Rightarrow> SegmentInfo option" where
  "seg_at segs i = (if i < length segs then segs ! i else None)"

definition getAllSegmentsInfos :: "memory \<Rightarrow> segment_array \<Rightarrow> segment_array option" where
  "getAllSegmentsInfos m segs =
     forEachSegment m (\<lambda>segs info.
       if unat (segIndex info) < length segs then Some (segs[unat (segIndex info) := Some info], False)
       else None) segs"

text \<open>The loops over the first \<open>segCount\<close> entries: the first index that satisfies the condition.\<close>

fun first_segment :: "segment_array \<Rightarrow> (SegmentInfo \<Rightarrow> bool) \<Rightarrow> nat list \<Rightarrow> (nat \<times> SegmentInfo) option option" where
  "first_segment segs P [] = Some None"
| "first_segment segs P (i # is) =
     Option.bind (seg_at segs i) (\<lambda>seg. if P seg then Some (Some (i, seg)) else first_segment segs P is)"

definition segIndexAndOffsetForAddress :: "u64 \<Rightarrow> segment_array \<Rightarrow> u32 \<Rightarrow> (u32 \<times> u64) option option" where
  "segIndexAndOffsetForAddress addr segmentsInfos segCount =
     map_option (map_option (\<lambda>(i, seg). (of_nat i, addr - vmAddr seg)))
       (first_segment segmentsInfos (\<lambda>seg. vmAddr seg \<le> addr \<and> addr < vmAddr seg + vmSize seg) [0 ..< unat segCount])"

definition localRelocBaseAddress :: "build \<Rightarrow> memory \<Rightarrow> segment_array \<Rightarrow> u32 \<Rightarrow> u64 option" where
  "localRelocBaseAddress B m segmentsInfos segCount =
     (if isArch B m ''x86_64'' \<or> isArch B m ''x86_64h'' then
        (if BUILDING_APP_CACHE_UTIL B \<and> isKextBundle m then map_option vmAddr (seg_at segmentsInfos 0)
         else Option.bind (first_segment segmentsInfos seg_writable [0 ..< unat segCount]) (\<lambda>r.
                case r of Some (i, seg) \<Rightarrow> Some (vmAddr seg) | None \<Rightarrow> map_option vmAddr (seg_at segmentsInfos 0)))
      else map_option vmAddr (seg_at segmentsInfos 0))"

definition externalRelocBaseAddress :: "build \<Rightarrow> memory \<Rightarrow> segment_array \<Rightarrow> u32 \<Rightarrow> u64 option" where
  "externalRelocBaseAddress B m segmentsInfos segCount =
     (if inDyldCache m \<or> BUILDING_APP_CACHE_UTIL B \<and> isKextBundle m then preferredLoadAddress m
      else if isArch B m ''x86_64'' \<or> isArch B m ''x86_64h'' then
        map_option (\<lambda>r. case r of Some (i, seg) \<Rightarrow> vmAddr seg | None \<Rightarrow> 0)
          (first_segment segmentsInfos seg_writable [0 ..< unat segCount])
      else Some 0)"

definition usesClassicRelocationsInKernelCollection :: "build \<Rightarrow> memory \<Rightarrow> bool" where
  "usesClassicRelocationsInKernelCollection B m \<longleftrightarrow>
     (isArch B m ''x86_64'' \<or> isArch B m ''x86_64h'') \<and> (isStaticExecutable m \<or> isFileSet m)"

section \<open>A rebase and its validity\<close>

datatype Rebase = unknown | pointer32 | pointer64 | textPCrel32 | textAbsolute32

text \<open>The arguments of the block that describe one location.\<close>

record rebase =
  re_opcodeName :: string
  re_segIndexSet :: bool
  re_ptrSize :: u32
  re_segmentIndex :: u8
  re_segmentOffset :: u64
  re_kind :: Rebase

text \<open>A block over its captured variables and the diagnostics.\<close>

type_synonym ('s, 'a) diag_block = "'s \<times> diag \<Rightarrow> 'a \<Rightarrow> (('s \<times> diag) \<times> bool) option"
type_synonym 's rebase_block = "('s, rebase) diag_block"

definition rebaseStateError :: "build \<Rightarrow> memory \<Rightarrow> LinkEditInfo \<Rightarrow> segment_array \<Rightarrow> rebase \<Rightarrow> string option option" where
  "rebaseStateError B m leInfo segs r =
     (if \<not> re_segIndexSet r then Some (Some ''in '%s' %s missing preceding REBASE_OPCODE_SET_SEGMENT_AND_OFFSET_ULEB'')
      else if ucast (re_segmentIndex r) \<ge> linkeditSegIndex (layout leInfo) then
        Some (Some ''in '%s' %s segment index %d too large'')
      else
        Option.bind (seg_at segs (unat (re_segmentIndex r))) (\<lambda>seg.
        if re_segmentOffset r > vmSize seg - ucast (re_ptrSize r) then
          Some (Some ''in '%s' %s current segment offset 0x%08llX beyond segment size (0x%08llX)'')
        else if re_kind r = pointer32 \<or> re_kind r = pointer64 then
          Option.bind (andAlso (\<not> seg_writable seg) (enforceFormat B m writableData)) (\<lambda>bad.
          if bad then Some (Some ''in '%s' %s pointer rebase is in non-writable segment'')
          else Option.bind (andAlso (seg_executable seg) (enforceFormat B m executableData)) (\<lambda>bad.
          if bad then Some (Some ''in '%s' %s pointer rebase is in executable segment'') else Some None))
        else if re_kind r = textAbsolute32 \<or> re_kind r = textPCrel32 then
          (if \<not> textRelocs seg then
             Some (Some ''in '%s' %s text rebase is in segment that does not support text relocations'')
           else if seg_writable seg then Some (Some ''in '%s' %s text rebase is in writable segment'')
           else if \<not> seg_executable seg then Some (Some ''in '%s' %s pointer rebase is in non-executable segment'')
           else Some None)
        else Some (Some ''in '%s' %s unknown rebase type'')))"

definition invalidRebaseState ::
    "build \<Rightarrow> memory \<Rightarrow> LinkEditInfo \<Rightarrow> segment_array \<Rightarrow> rebase \<Rightarrow> diag \<Rightarrow> (bool \<times> diag) option" where
  "invalidRebaseState B m leInfo segs r d =
     map_option (\<lambda>e. case e of Some msg \<Rightarrow> (True, error msg d) | None \<Rightarrow> (False, d)) (rebaseStateError B m leInfo segs r)"

section \<open>Rebase opcodes\<close>

text \<open>The loops \<open>for (uint32_t i=0; i < count; ++i)\<close> with a 64-bit \<open>count\<close>.\<close>

partial_function (option) rebase_times ::
    "('s, 'a) diag_block \<Rightarrow> (u64 \<Rightarrow> 'a) \<Rightarrow> u64 \<Rightarrow> u64 \<Rightarrow> u32 \<Rightarrow> u64 \<Rightarrow> 's \<times> diag \<Rightarrow> (('s \<times> diag) \<times> bool \<times> u64) option" where
  "rebase_times h loc stride cnt i segOffset s =
     (if ucast i < cnt then
        Option.bind (h s (loc segOffset)) (\<lambda>r.
          if snd r then Some (fst r, True, segOffset + stride)
          else rebase_times h loc stride cnt (i + 1) (segOffset + stride) (fst r))
      else Some (s, False, segOffset))"

record 's rebase_state =
  rb_kind :: Rebase
  rb_segIndex :: u8
  rb_segOffset :: u64
  rb_segIndexSet :: bool
  rb_p :: nat
  rb_stop :: bool
  rb_s :: "'s \<times> diag"

definition rb_uleb :: "memory \<Rightarrow> nat \<Rightarrow> 's rebase_state \<Rightarrow> u64 \<times> 's rebase_state" where
  "rb_uleb m e st =
     (let (v, p, d) = read_uleb128 m (rb_p st) e
      in (v, st\<lparr>rb_p := p, rb_s := (fst (rb_s st), then_diag (snd (rb_s st)) d)\<rparr>))"

definition rb_error :: "string \<Rightarrow> 's rebase_state \<Rightarrow> 's rebase_state" where
  "rb_error msg st = st\<lparr>rb_s := (fst (rb_s st), error msg (snd (rb_s st)))\<rparr>"

definition rb_location :: "string \<Rightarrow> u32 \<Rightarrow> 's rebase_state \<Rightarrow> u64 \<Rightarrow> rebase" where
  "rb_location name ptrSize st off =
     \<lparr>re_opcodeName = name, re_segIndexSet = rb_segIndexSet st, re_ptrSize = ptrSize,
      re_segmentIndex = rb_segIndex st, re_segmentOffset = off, re_kind = rb_kind st\<rparr>"

definition rb_times :: "'s rebase_block \<Rightarrow> string \<Rightarrow> u32 \<Rightarrow> u64 \<Rightarrow> u64 \<Rightarrow> 's rebase_state \<Rightarrow> 's rebase_state option" where
  "rb_times h name ptrSize stride cnt st =
     map_option (\<lambda>(s, stop, off). st\<lparr>rb_s := s, rb_stop := stop, rb_segOffset := off\<rparr>)
       (rebase_times h (rb_location name ptrSize st) stride cnt 0 (rb_segOffset st) (rb_s st))"

text \<open>\<open>REBASE_OPCODE_DO_REBASE_ADD_ADDR_ULEB\<close>: the operand is read after the block has been called.\<close>

definition rb_add_addr :: "memory \<Rightarrow> nat \<Rightarrow> u32 \<Rightarrow> 's rebase_block \<Rightarrow> 's rebase_state \<Rightarrow> 's rebase_state option" where
  "rb_add_addr m e ptrSize h st =
     Option.bind (h (rb_s st) (rb_location ''REBASE_OPCODE_DO_REBASE_ADD_ADDR_ULEB'' ptrSize st (rb_segOffset st)))
       (\<lambda>(s, stop).
          let (v, st') = rb_uleb m e (st\<lparr>rb_s := s, rb_stop := stop\<rparr>)
          in Some (st'\<lparr>rb_segOffset := rb_segOffset st' + v + ucast ptrSize\<rparr>))"

definition rebase_type :: "memory \<Rightarrow> u8 \<Rightarrow> Rebase" where
  "rebase_type m immediate =
     (if immediate = 1 then (if is64 m then pointer64 else pointer32)
      else if immediate = 2 then textAbsolute32
      else if immediate = 3 then textPCrel32
      else unknown)"

text \<open>One iteration of the \<open>while\<close> loop.\<close>

definition rebase_step :: "memory \<Rightarrow> nat \<Rightarrow> u32 \<Rightarrow> 's rebase_block \<Rightarrow> 's rebase_state \<Rightarrow> 's rebase_state option" where
  "rebase_step m e ptrSize h st0 =
     (let immediate = m (rb_p st0) AND 0x0F; opcode = m (rb_p st0) AND 0xF0;
          st = st0\<lparr>rb_p := rb_p st0 + 1\<rparr>
      in if opcode = 0x00 then
           Some ((if e - rb_p st > 8 then rb_error ''rebase opcodes terminated early at offset %d of %d'' st else st)
                 \<lparr>rb_stop := True\<rparr>)
         else if opcode = 0x10 then Some (st\<lparr>rb_kind := rebase_type m immediate\<rparr>)
         else if opcode = 0x20 then
           (let (v, st') = rb_uleb m e (st\<lparr>rb_segIndex := immediate\<rparr>)
            in Some (st'\<lparr>rb_segOffset := v, rb_segIndexSet := True\<rparr>))
         else if opcode = 0x30 then
           (let (v, st') = rb_uleb m e st in Some (st'\<lparr>rb_segOffset := rb_segOffset st' + v\<rparr>))
         else if opcode = 0x40 then Some (st\<lparr>rb_segOffset := rb_segOffset st + ucast (ucast immediate * ptrSize)\<rparr>)
         else if opcode = 0x50 then
           rb_times h ''REBASE_OPCODE_DO_REBASE_IMM_TIMES'' ptrSize (ucast ptrSize) (ucast immediate) st
         else if opcode = 0x60 then
           (let (cnt, st') = rb_uleb m e st
            in rb_times h ''REBASE_OPCODE_DO_REBASE_ADD_ADDR_ULEB'' ptrSize (ucast ptrSize) cnt st')
         else if opcode = 0x70 then
           rb_add_addr m e ptrSize h st
         else if opcode = 0x80 then
           (let (cnt, st') = rb_uleb m e st
            in if hasError (snd (rb_s st')) then Some st'
               else (let (skip, st'') = rb_uleb m e st'
                     in rb_times h ''REBASE_OPCODE_DO_REBASE_ULEB_TIMES_SKIPPING_ULEB'' ptrSize (skip + ucast ptrSize) cnt st''))
         else Some (rb_error ''unknown rebase opcode 0x%02X'' st))"

lemma rb_uleb_pos:
  assumes "rb_p st \<le> e"
  shows "rb_p st \<le> rb_p (snd (rb_uleb m e st)) \<and> rb_p (snd (rb_uleb m e st)) \<le> e"
proof -
  obtain v q d where run: "uleb_loop m e (rb_p st) 0 0 = (v, q, d)" by (metis prod_cases3)
  from uleb_loop_bounds [OF this assms, of m] show ?thesis by (simp add: rb_uleb_def read_uleb128_def run)
qed

lemma rb_times_pos: "rb_times h name ptrSize stride cnt st = Some st' \<Longrightarrow> rb_p st' = rb_p st"
  by (auto simp: rb_times_def)

lemma rebase_step_pos:
  assumes "rebase_step m e ptrSize h st = Some st'" and "rb_p st < e"
  shows "rb_p st < rb_p st' \<and> rb_p st' \<le> e"
proof -
  note pos = rb_uleb_pos [where e = e and m = m]
  have *: "rb_p s = Suc (rb_p st) \<Longrightarrow> rb_p st < rb_p (snd (rb_uleb m e s)) \<and> rb_p (snd (rb_uleb m e s)) \<le> e" for s :: "'a rebase_state"
    using pos [of s] assms(2) by simp
  have **: "rb_p s = Suc (rb_p st) \<Longrightarrow> rb_p st < rb_p (snd (rb_uleb m e (snd (rb_uleb m e s))))
      \<and> rb_p (snd (rb_uleb m e (snd (rb_uleb m e s)))) \<le> e" for s :: "'a rebase_state"
    using * [of s] pos [of "snd (rb_uleb m e s)"] by simp
  show ?thesis
    using assms by (auto simp: rebase_step_def rb_add_addr_def Let_def rb_error_def bind_eq_Some_conv case_prod_beta * **
        dest!: rb_times_pos split: if_splits)
qed

function rebase_loop :: "memory \<Rightarrow> nat \<Rightarrow> u32 \<Rightarrow> 's rebase_block \<Rightarrow> 's rebase_state \<Rightarrow> 's rebase_state option" where
  "rebase_loop m e ptrSize h st =
     (if \<not> rb_stop st \<and> noError (snd (rb_s st)) \<and> rb_p st < e
      then Option.bind (rebase_step m e ptrSize h st) (rebase_loop m e ptrSize h)
      else Some st)"
  by pat_completeness auto
termination
  by (relation "measure (\<lambda>(m, e, ptrSize, h, st). e - rb_p st)") (auto dest: rebase_step_pos)

declare rebase_loop.simps [simp del]

section \<open>Local relocations\<close>

text \<open>The fields of a \<open>relocation_info\<close> at an offset.\<close>

definition r_length :: "memory \<Rightarrow> nat \<Rightarrow> u32" where
  "r_length m r = drop_bit 25 (read32 m (r + 4)) AND 3"

definition r_type :: "memory \<Rightarrow> nat \<Rightarrow> u32" where
  "r_type m r = drop_bit 28 (read32 m (r + 4))"

text \<open>The relocations before the first unsupported one, and the error it gives.\<close>

fun collect_relocs :: "build \<Rightarrow> memory \<Rightarrow> nat list \<Rightarrow> diag \<Rightarrow> nat list \<times> diag" where
  "collect_relocs B m [] d = ([], d)"
| "collect_relocs B m (r # rs) d =
     (let relocSize = (if is64 m then 3 else 2) in
      if r_length m r \<noteq> relocSize
         \<and> \<not> (BUILDING_APP_CACHE_UTIL B \<and> usesClassicRelocationsInKernelCollection B m \<and> r_length m r = 2 \<and> relocSize = 3)
      then ([], error ''local relocation has wrong r_length'' d)
      else if r_type m r \<noteq> 0 then ([], error ''local relocation has wrong r_type'' d)
      else (let (relocs, d') = collect_relocs B m rs d in (r # relocs, d')))"

text \<open>\<open>qsort\<close> with \<open>relocSorter\<close>: \<open>r_address\<close> is signed.\<close>

definition sort_relocs :: "memory \<Rightarrow> nat list \<Rightarrow> nat list" where
  "sort_relocs m relocs = sort_key (\<lambda>r. sint (read32 m r)) relocs"

definition reloc_address :: "build \<Rightarrow> memory \<Rightarrow> u64 \<Rightarrow> nat \<Rightarrow> u64" where
  "reloc_address B m relocsStartAddress r =
     (if BUILDING_APP_CACHE_UTIL B \<and> (isStaticExecutable m \<or> isFileSet m)
      then relocsStartAddress + scast (read32 m r) else relocsStartAddress + ucast (read32 m r))"

text \<open>The loop over the sorted relocations; it does not look at \<open>stop\<close>.\<close>

fun reloc_loop :: "build \<Rightarrow> memory \<Rightarrow> segment_array \<Rightarrow> u32 \<Rightarrow> u64 \<Rightarrow> 's rebase_block \<Rightarrow> 's \<times> diag \<Rightarrow> nat list \<Rightarrow> ('s \<times> diag) option" where
  "reloc_loop B m segs segCount base h s [] = Some s"
| "reloc_loop B m segs segCount base h s (r # rs) =
     Option.bind (segIndexAndOffsetForAddress (reloc_address B m base r) segs segCount) (\<lambda>found.
     case found of
       Some (i, off) \<Rightarrow>
         Option.bind (seg_at segs (unat i)) (\<lambda>seg.
         Option.bind
           (h s \<lparr>re_opcodeName = ''local relocation'', re_segIndexSet = True, re_ptrSize = pointerSize m,
                 re_segmentIndex = ucast i, re_segmentOffset = off,
                 re_kind = (if mh_cputype m = CPU_TYPE_I386 \<and> seg_executable seg then textAbsolute32
                            else if r_length m r = 2 then pointer32 else pointer64)\<rparr>)
           (\<lambda>(s', stop). reloc_loop B m segs segCount base h s' rs))
     | None \<Rightarrow> Some (fst s, error ''local relocation has out of range r_address'' (snd s)))"

section \<open>Indirect pointers\<close>

abbreviation (input) "S_NON_LAZY_SYMBOL_POINTERS \<equiv> 6 :: u32"
abbreviation (input) "S_LAZY_SYMBOL_POINTERS \<equiv> 7 :: u32"
abbreviation (input) "S_SYMBOL_STUBS \<equiv> 8 :: u32"
abbreviation (input) "S_ATTR_SELF_MODIFYING_CODE \<equiv> 0x04000000 :: u32"
abbreviation (input) "S_ATTR_PURE_INSTRUCTIONS \<equiv> 0x80000000 :: u32"
abbreviation (input) "INDIRECT_SYMBOL_LOCAL \<equiv> 0x80000000 :: u32"
abbreviation (input) "INDIRECT_SYMBOL_ABS \<equiv> 0x40000000 :: u32"

definition libOrdinalFromDesc :: "memory \<Rightarrow> u16 \<Rightarrow> int" where
  "libOrdinalFromDesc m n_desc =
     (if mh_flags m AND MH_TWOLEVEL = 0 then -2
      else (let libIndex = drop_bit 8 n_desc AND 0xFF
            in if libIndex = 0 then 0 else if libIndex = 0xFE then -2 else if libIndex = 0xFF then -1 else uint libIndex))"

text \<open>The arguments of the block; the name of an entry without symbol is the empty string, \<open>None\<close>.\<close>

record indirect_pointer =
  ip_address :: u64
  ip_bind :: bool
  ip_libOrdinal :: int
  ip_symbolName :: "nat option"
  ip_weakImport :: bool
  ip_lazy :: bool
  ip_selfModifyingStub :: bool

text \<open>What a section needs of the LINKEDIT tables: their offsets from the header and sizes.\<close>

record indirect_tables =
  it_indirect :: nat
  it_indirectCount :: u32
  it_symbols :: nat
  it_symCount :: u32
  it_strings :: nat
  it_poolSize :: u32

definition selfModifyingStubs :: "memory \<Rightarrow> SectionInfo \<Rightarrow> bool" where
  "selfModifyingStubs m info \<longleftrightarrow>
     sectFlags info AND SECTION_TYPE = S_SYMBOL_STUBS \<and> sectFlags info AND S_ATTR_SELF_MODIFYING_CODE \<noteq> 0
     \<and> sect_reserved2 info = 5 \<and> mh_cputype m = CPU_TYPE_I386"

definition indirect_element ::
    "memory \<Rightarrow> indirect_tables \<Rightarrow> SectionInfo \<Rightarrow> u32 \<Rightarrow> ('s \<times> diag \<Rightarrow> indirect_pointer \<Rightarrow> (('s \<times> diag) \<times> bool) option)
     \<Rightarrow> 's \<times> diag \<Rightarrow> u32 \<Rightarrow> (('s \<times> diag) \<times> bool) option" where
  "indirect_element m t info elementSize h s i =
     (let symNum = read32 m (it_indirect t + 4 * unat (sect_reserved1 info + i));
          sym = it_symbols t + (if is64 m then 16 else 12) * unat symNum;
          n_strx = read32 m sym; n_type = m (sym + 4); n_desc = read16 m (sym + 6);
          address = sectAddr info + ucast (i * elementSize)
      in if symNum = INDIRECT_SYMBOL_ABS then Some (s, False)
         else if symNum = INDIRECT_SYMBOL_LOCAL then
           h s \<lparr>ip_address = address, ip_bind = False, ip_libOrdinal = 0, ip_symbolName = None,
                ip_weakImport = False, ip_lazy = False, ip_selfModifyingStub = False\<rparr>
         else if symNum > it_symCount t then
           Some ((fst s, error ''indirect symbol[%d] = %d which is invalid symbol index'' (snd s)), True)
         else if n_strx > it_poolSize t then
           Some ((fst s, error ''symbol[%d] string offset out of range'' (snd s)), True)
         else
           h s \<lparr>ip_address = address, ip_bind = True,
                ip_libOrdinal = (if n_type AND 0x0E = 0x0E \<and> n_type AND 0x01 \<noteq> 0 \<and> n_desc AND 0x0080 \<noteq> 0
                                 then -3 else libOrdinalFromDesc m n_desc),
                ip_symbolName = Some (it_strings t + unat n_strx), ip_weakImport = (n_desc AND 0x0040 \<noteq> 0),
                ip_lazy = (sectFlags info AND SECTION_TYPE = S_LAZY_SYMBOL_POINTERS),
                ip_selfModifyingStub = selfModifyingStubs m info\<rparr>)"

definition indirect_section ::
    "memory \<Rightarrow> indirect_tables \<Rightarrow> ('s \<times> diag \<Rightarrow> indirect_pointer \<Rightarrow> (('s \<times> diag) \<times> bool) option)
     \<Rightarrow> 's \<times> diag \<Rightarrow> SectionInfo \<times> bool \<Rightarrow> (('s \<times> diag) \<times> bool) option" where
  "indirect_section m t h s sect =
     (let info = fst sect; sectionType = sectFlags info AND SECTION_TYPE; selfModifyingStub = selfModifyingStubs m info;
          elementSize = (if selfModifyingStub then sect_reserved2 info else pointerSize m);
          elementCount = ucast (sectSize info div ucast elementSize) :: u32
      in if sectionType \<noteq> S_LAZY_SYMBOL_POINTERS \<and> sectionType \<noteq> S_NON_LAZY_SYMBOL_POINTERS \<and> \<not> selfModifyingStub
         then Some (s, False)
         else if mh_flags m AND S_ATTR_SELF_MODIFYING_CODE \<noteq> 0 \<and> \<not> selfModifyingStub then
           Some ((fst s, error ''S_ATTR_SELF_MODIFYING_CODE section type only valid in old i386 binaries'' (snd s)), True)
         else if greaterThanAddOrOverflow (sect_reserved1 info) elementCount (it_indirectCount t) then
           Some ((fst s, error ''section %s overflows indirect symbol table'' (snd s)), True)
         else forStop (indirect_element m t info elementSize h) s (map of_nat [0 ..< unat elementCount]))"

text \<open>\<open>None\<close> when there is no \<open>LC_DYSYMTAB\<close> or \<open>LC_SYMTAB\<close>: the code dereferences both.\<close>

definition indirect_tables_of :: "memory \<Rightarrow> u64 \<Rightarrow> LinkEditInfo \<Rightarrow> indirect_tables option" where
  "indirect_tables_of m loadAddr leInfo =
     Option.bind (le_dynSymTab (leCommands leInfo)) (\<lambda>dy.
     Option.bind (le_symTab (leCommands leInfo)) (\<lambda>sy.
       let at = (\<lambda>c. content_at loadAddr (layout leInfo) (read32 m c)) in
       Some \<lparr>it_indirect = at (dy + 56), it_indirectCount = read32 m (dy + 60),
             it_symbols = at (sy + 8), it_symCount = read32 m (sy + 12),
             it_strings = at (sy + 16), it_poolSize = read32 m (sy + 20)\<rparr>))"

definition forEachIndirectPointer ::
    "memory \<Rightarrow> u64 \<Rightarrow> LayoutInfo \<Rightarrow> ('s \<times> diag \<Rightarrow> indirect_pointer \<Rightarrow> (('s \<times> diag) \<times> bool) option)
     \<Rightarrow> 's \<times> diag \<Rightarrow> ('s \<times> diag) option" where
  "forEachIndirectPointer m loadAddr uninit h s =
     Option.bind (getLinkEditPointers m loadAddr uninit (snd s)) (\<lambda>(leInfo, d).
     if hasError d then Some (fst s, d)
     else Option.bind (indirect_tables_of m loadAddr leInfo) (\<lambda>t.
       if it_indirectCount t = 0 \<and> isKextBundle m then Some (fst s, d)
       else forEachSection m (indirect_section m t h) (fst s, d)))"

section \<open>All rebases\<close>

definition rebase_start :: "nat \<Rightarrow> 's \<times> diag \<Rightarrow> 's rebase_state" where
  "rebase_start p s =
     \<lparr>rb_kind = unknown, rb_segIndex = 0, rb_segOffset = 0, rb_segIndexSet = False, rb_p = p, rb_stop = False, rb_s = s\<rparr>"

definition rebase_indirect ::
    "memory \<Rightarrow> LinkEditInfo \<Rightarrow> segment_array \<Rightarrow> 's rebase_block \<Rightarrow> 's \<times> diag \<Rightarrow> indirect_pointer \<Rightarrow> (('s \<times> diag) \<times> bool) option" where
  "rebase_indirect m leInfo segs h s ip =
     (if ip_bind ip then Some (s, False)
      else Option.bind (segIndexAndOffsetForAddress (ip_address ip) segs (linkeditSegIndex (layout leInfo))) (\<lambda>found.
        case found of
          Some (i, off) \<Rightarrow>
            h s \<lparr>re_opcodeName = ''local relocation'', re_segIndexSet = True, re_ptrSize = pointerSize m,
                 re_segmentIndex = ucast i, re_segmentOffset = off,
                 re_kind = (if is64 m then pointer64 else pointer32)\<rparr>
        | None \<Rightarrow> Some ((fst s, error ''local relocation has out of range r_address'' (snd s)), True)))"

definition forEachRebase_location ::
    "build \<Rightarrow> memory \<Rightarrow> u64 \<Rightarrow> LayoutInfo \<Rightarrow> (LinkEditInfo \<Rightarrow> segment_array \<Rightarrow> 's rebase_block) \<Rightarrow> 's \<times> diag \<Rightarrow> ('s \<times> diag) option" where
  "forEachRebase_location B m loadAddr uninit handler s =
     Option.bind (getLinkEditPointers m loadAddr uninit (snd s)) (\<lambda>(leInfo, d).
     if hasError d then Some (fst s, d)
     else
       Option.bind (getAllSegmentsInfos m (replicate (unat (lastSegIndex (layout leInfo) + 1)) None)) (\<lambda>segs.
       let h = handler leInfo segs; lo = layout leInfo; cmds = leCommands leInfo in
       case le_dyldInfo cmds of
         Some c \<Rightarrow>
           (let start = content_at loadAddr lo (read32 m (c + 8))
            in map_option rb_s
                 (rebase_loop m (start + unat (read32 m (c + 12))) (pointerSize m) h (rebase_start start (fst s, d))))
       | None \<Rightarrow>
           if le_chainedFixups cmds \<noteq> None \<and> \<not> isFileSet m then Some (fst s, d)
           else case le_dynSymTab cmds of
             None \<Rightarrow> Some (fst s, d)
           | Some dy \<Rightarrow>
               Option.bind (localRelocBaseAddress B m segs (linkeditSegIndex lo)) (\<lambda>base.
               let relocsStart = content_at loadAddr lo (read32 m (dy + 72));
                   (relocs, d1) = collect_relocs B m (map (\<lambda>k. relocsStart + 8 * k) [0 ..< unat (read32 m (dy + 76))]) d
               in Option.bind (reloc_loop B m segs (linkeditSegIndex lo) base h (fst s, d1) (sort_relocs m relocs))
                    (forEachIndirectPointer m loadAddr uninit (rebase_indirect m leInfo segs h)))))"

definition validating_block :: "build \<Rightarrow> memory \<Rightarrow> LinkEditInfo \<Rightarrow> segment_array \<Rightarrow> unit rebase_block" where
  "validating_block B m leInfo segs s r =
     map_option (\<lambda>(invalid, d). (((), d), invalid)) (invalidRebaseState B m leInfo segs r (snd s))"

definition validRebaseInfo :: "build \<Rightarrow> memory \<Rightarrow> u64 \<Rightarrow> LayoutInfo \<Rightarrow> diag \<Rightarrow> (bool \<times> diag) option" where
  "validRebaseInfo B m loadAddr uninit d =
     map_option (\<lambda>(u, d'). (noError d', d'))
       (forEachRebase_location B m loadAddr uninit (validating_block B m) ((), d))"

section \<open>Blocks over the rebases\<close>

text \<open>The address of the first segment named \<open>__TEXT\<close> among the given indices.\<close>

definition text_address :: "memory \<Rightarrow> segment_array \<Rightarrow> nat list \<Rightarrow> u64 option option" where
  "text_address m segs is =
     map_option (map_option (\<lambda>(i, seg). vmAddr seg)) (first_segment segs (\<lambda>seg. strcmp_eq m (segName seg) ''__TEXT'') is)"

text \<open>\<open>startVmAddr\<close> is \<open>None\<close> as long as \<open>startVmAddrSet\<close> is false; it is then read as 0.\<close>

definition start_address :: "u64 option \<Rightarrow> u64" where
  "start_address a = (case a of Some v \<Rightarrow> v | None \<Rightarrow> 0)"

definition text_rebase_block ::
    "memory \<Rightarrow> ('s \<times> diag \<Rightarrow> u64 \<Rightarrow> (('s \<times> diag) \<times> bool) option) \<Rightarrow> LinkEditInfo \<Rightarrow> segment_array
     \<Rightarrow> ('s \<times> u64 option) rebase_block" where
  "text_rebase_block m handler leInfo segs s r =
     (let ((acc, startVmAddr), d) = s in
      if re_kind r \<noteq> textAbsolute32 then Some (s, False)
      else
        Option.bind (if startVmAddr = None then text_address m segs [0 ..< Suc (unat (re_segmentIndex r))] else Some startVmAddr)
          (\<lambda>startVmAddr.
        Option.bind (seg_at segs (unat (re_segmentIndex r))) (\<lambda>seg.
        Option.bind (handler (acc, d) (vmAddr seg + re_segmentOffset r - start_address startVmAddr)) (\<lambda>((acc, d), stop).
          Some (((acc, startVmAddr), d), stop)))))"

definition forEachTextRebase ::
    "build \<Rightarrow> memory \<Rightarrow> u64 \<Rightarrow> LayoutInfo \<Rightarrow> ('s \<times> diag \<Rightarrow> u64 \<Rightarrow> (('s \<times> diag) \<times> bool) option) \<Rightarrow> 's \<times> diag \<Rightarrow> ('s \<times> diag) option" where
  "forEachTextRebase B m loadAddr uninit handler s =
     map_option (\<lambda>((acc, a), d). (acc, d))
       (forEachRebase_location B m loadAddr uninit (text_rebase_block m handler) ((fst s, None), snd s))"

definition contentIsRegularStub :: "memory \<Rightarrow> nat \<Rightarrow> bool" where
  "contentIsRegularStub m p =
     (if mh_cputype m = CPU_TYPE_X86_64 then m p = 0x68 \<and> m (p + 5) = 0xE9
      else if mh_cputype m = CPU_TYPE_I386 then m p = 0x68 \<and> m (p + 5) = 0xFF \<and> m (p + 2) = 0x26
      else if mh_cputype m = CPU_TYPE_ARM then m p = 0x00 \<and> m (p + 1) = 0xC0 \<and> m (p + 2) = 0x9F \<and> m (p + 3) = 0xE5
      else if mh_cputype m = CPU_TYPE_ARM64 then m p = 0x50 \<and> m (p + 1) = 0x00 \<and> m (p + 2) = 0x00 \<and> m (p + 3) = 0x18
      else False)"

text \<open>The ranges of the lazy pointer and stub helper sections.\<close>

definition lazy_ranges :: "memory \<Rightarrow> ((u64 \<times> u64) \<times> (u64 \<times> u64)) option" where
  "lazy_ranges m =
     forEachSection m (\<lambda>(lp, sh) (info, malformedSectionRange).
       let range = (sectAddr info, sectAddr info + sectSize info) in
       if sectFlags info AND SECTION_TYPE = S_LAZY_SYMBOL_POINTERS then Some ((range, sh), False)
       else if sectFlags info AND S_ATTR_PURE_INSTRUCTIONS \<noteq> 0 \<and> sectName_is info ''__stub_helper'' then Some ((lp, range), False)
       else Some ((lp, sh), False)) ((0, 0), (0, 0))"

definition isLazyPointerRebase :: "memory \<Rightarrow> (u64 \<times> u64) \<times> (u64 \<times> u64) \<Rightarrow> u32 \<Rightarrow> u64 \<Rightarrow> u64 \<Rightarrow> bool" where
  "isLazyPointerRebase m ranges ptrSize startVmAddr rebaseVmAddr =
     (let ((lpVmAddr, lpEndVmAddr), (shVmAddr, shEndVmAddr)) = ranges;
          content = unat (rebaseVmAddr - startVmAddr);
          lpValue = (if ptrSize = 8 then read64 m content else ucast (read32 m content))
      in rebaseVmAddr \<ge> lpVmAddr \<and> rebaseVmAddr < lpEndVmAddr \<and> lpValue \<ge> shVmAddr \<and> lpValue < shEndVmAddr
         \<and> contentIsRegularStub m (unat (lpValue - startVmAddr)))"

definition pointer_rebase_block ::
    "memory \<Rightarrow> (u64 \<times> u64) \<times> (u64 \<times> u64) \<Rightarrow> ('s \<times> diag \<Rightarrow> u64 \<Rightarrow> bool \<Rightarrow> (('s \<times> diag) \<times> bool) option)
     \<Rightarrow> LinkEditInfo \<Rightarrow> segment_array \<Rightarrow> ('s \<times> u64 option) rebase_block" where
  "pointer_rebase_block m ranges callback leInfo segs s r =
     (let ((acc, startVmAddr), d) = s in
      if re_kind r \<noteq> pointer32 \<and> re_kind r \<noteq> pointer64 then Some (s, False)
      else
        Option.bind (if startVmAddr = None then text_address m segs [0 ..< unat (re_segmentIndex r)] else Some startVmAddr)
          (\<lambda>startVmAddr.
        Option.bind (seg_at segs (unat (re_segmentIndex r))) (\<lambda>seg.
        let rebaseVmAddr = vmAddr seg + re_segmentOffset r; start = start_address startVmAddr in
        Option.bind (callback (acc, d) (rebaseVmAddr - start) (isLazyPointerRebase m ranges (re_ptrSize r) start rebaseVmAddr))
          (\<lambda>((acc, d), stop). Some (((acc, startVmAddr), d), stop)))))"

definition forEachRebase_lazy ::
    "build \<Rightarrow> memory \<Rightarrow> u64 \<Rightarrow> LayoutInfo \<Rightarrow> ('s \<times> diag \<Rightarrow> u64 \<Rightarrow> bool \<Rightarrow> (('s \<times> diag) \<times> bool) option) \<Rightarrow> 's \<times> diag \<Rightarrow> ('s \<times> diag) option" where
  "forEachRebase_lazy B m loadAddr uninit callback s =
     Option.bind (lazy_ranges m) (\<lambda>ranges.
       map_option (\<lambda>((acc, a), d). (acc, d))
         (forEachRebase_location B m loadAddr uninit (pointer_rebase_block m ranges callback) ((fst s, None), snd s)))"

definition forEachRebase ::
    "build \<Rightarrow> memory \<Rightarrow> u64 \<Rightarrow> LayoutInfo \<Rightarrow> bool \<Rightarrow> ('s \<times> diag \<Rightarrow> u64 \<Rightarrow> (('s \<times> diag) \<times> bool) option) \<Rightarrow> 's \<times> diag \<Rightarrow> ('s \<times> diag) option" where
  "forEachRebase B m loadAddr uninit ignoreLazyPointers handler s =
     forEachRebase_lazy B m loadAddr uninit (\<lambda>s runtimeOffset isLazyPointerRebase.
       if isLazyPointerRebase \<and> ignoreLazyPointers then Some (s, False) else handler s runtimeOffset) s"

definition getLazyBindOpcodes :: "memory \<Rightarrow> u64 \<Rightarrow> LayoutInfo \<Rightarrow> (nat \<times> u32) option option" where
  "getLazyBindOpcodes m loadAddr uninit =
     map_option (\<lambda>(leInfo, d).
         case le_dyldInfo (leCommands leInfo) of
           Some c \<Rightarrow> if hasError d then None
                     else Some (content_at loadAddr (layout leInfo) (read32 m (c + 32)), read32 m (c + 36))
         | None \<Rightarrow> None)
       (getLinkEditPointers m loadAddr uninit None)"

definition hasStompedLazyOpcodes :: "memory \<Rightarrow> u64 \<Rightarrow> LayoutInfo \<Rightarrow> bool option" where
  "hasStompedLazyOpcodes m loadAddr uninit =
     map_option (\<lambda>r. case r of Some (p, len) \<Rightarrow> len > 8 \<and> read64 m p = 0 | None \<Rightarrow> False)
       (getLazyBindOpcodes m loadAddr uninit)"

section \<open>The counted loop\<close>

text \<open>
  For a count of at most \<open>2^32 - 1\<close> the loop visits the locations \<open>segOffset + k * stride\<close>, \<open>k < count\<close>,
  in order. A larger count is never reached by the 32-bit counter.
\<close>

definition offsets :: "u64 \<Rightarrow> u64 \<Rightarrow> nat \<Rightarrow> u64 list" where
  "offsets off stride n = map (\<lambda>k. off + of_nat k * stride) [0 ..< n]"

lemma offsets_0 [simp]: "offsets off stride 0 = []"
  by (simp add: offsets_def)

lemma offsets_Suc [simp]: "offsets off stride (Suc n) = off # offsets (off + stride) stride n"
proof -
  have "[0 ..< Suc n] = 0 # map Suc [0 ..< n]" by (simp add: map_Suc_upt upt_conv_Cons del: upt_Suc)
  then show ?thesis by (simp add: offsets_def algebra_simps del: upt_Suc)
qed

lemma rebase_times_forStop:
  assumes "unat cnt = unat i + n" and "unat i + n < 4294967296"
  shows "map_option (\<lambda>(s, stop, off). (s, stop)) (rebase_times h loc stride cnt i off s) =
    forStop (\<lambda>s off. h s (loc off)) s (offsets off stride n)"
  using assms
proof (induction n arbitrary: i off s)
  case 0
  then have "\<not> ucast i < cnt" by (simp add: word_less_nat_alt)
  then show ?case by (simp add: rebase_times.simps)
next
  case (Suc n)
  then have less: "ucast i < cnt" by (simp add: word_less_nat_alt)
  have "unat (i + 1) = Suc (unat i)"
    using Suc.prems by (simp add: unat_word_ariths)
  with Suc show ?case
    by (subst rebase_times.simps) (cases "h s (loc off)"; auto simp: less)
qed

lemma rebase_times_diverges:
  assumes big: "4294967296 \<le> unat cnt" and "I s off"
    and step: "\<And>s off. I s off \<Longrightarrow> \<exists>s'. h s (loc off) = Some (s', False) \<and> I s' (off + stride)"
  shows "rebase_times h loc stride cnt i off s = None"
proof (rule ccontr)
  assume "rebase_times h loc stride cnt i off s \<noteq> None"
  then obtain y where "rebase_times h loc stride cnt i off s = Some y" by auto
  then have "4294967296 \<le> unat cnt \<longrightarrow>
      (\<forall>s off. I s off \<longrightarrow> (\<exists>s'. h s (loc off) = Some (s', False) \<and> I s' (off + stride))) \<longrightarrow> \<not> I s off"
  proof (rule rebase_times.raw_induct [rotated], intro impI)
    fix rebase_times h loc stride and cnt :: u64 and i :: u32 and off s r
    assume IH: "\<And>h loc stride cnt i off s r. rebase_times h loc stride cnt i off s = Some r \<Longrightarrow>
        4294967296 \<le> unat cnt \<longrightarrow>
        (\<forall>s off. I s off \<longrightarrow> (\<exists>s'. h s (loc off) = Some (s', False) \<and> I s' (off + stride))) \<longrightarrow> \<not> I s off"
      and run: "(if ucast i < cnt then Option.bind (h s (loc off)) (\<lambda>r. if snd r then Some (fst r, True, off + stride)
          else rebase_times h loc stride cnt (i + 1) (off + stride) (fst r)) else Some (s, False, off)) = Some r"
      and big: "4294967296 \<le> unat cnt"
      and step: "\<forall>s off. I s off \<longrightarrow> (\<exists>s'. h s (loc off) = Some (s', False) \<and> I s' (off + stride))"
    have less: "ucast i < cnt" using big unat_u32_less [of i] by (simp add: word_less_nat_alt)
    show "\<not> I s off"
    proof
      assume "I s off"
      with step obtain s' where s': "h s (loc off) = Some (s', False)" "I s' (off + stride)" by blast
      with run less have "rebase_times h loc stride cnt (i + 1) (off + stride) s' = Some r" by simp
      from IH [OF this] big step s'(2) show False by blast
    qed
  qed
  with assms show False by blast
qed

section \<open>Checking a walk\<close>

text \<open>
  The contract of a block that validates: it leaves the diagnostics clean only at a location that
  is fine, and then neither stops nor was there an error before. When a checked walk ends clean, the
  same walk with any client that copes with fine locations runs to its end.
\<close>

definition serves :: "('s \<Rightarrow> bool) \<Rightarrow> ('a \<Rightarrow> bool) \<Rightarrow> ('s, 'a) diag_block \<Rightarrow> bool" where
  "serves I ok h \<longleftrightarrow> (\<forall>s r. I s \<and> ok r \<longrightarrow> (\<exists>s'. h (s, None) r = Some ((s', None), False) \<and> I s'))"

lemma servesE:
  assumes "serves I ok h" and "I s" and "ok r"
  obtains s' where "h (s, None) r = Some ((s', None), False)" and "I s'"
  using assms by (auto simp: serves_def)

definition same_position :: "'a rebase_state \<Rightarrow> 'b rebase_state \<Rightarrow> bool" where
  "same_position st st' \<longleftrightarrow> rb_kind st' = rb_kind st \<and> rb_segIndex st' = rb_segIndex st \<and> rb_segOffset st' = rb_segOffset st
     \<and> rb_segIndexSet st' = rb_segIndexSet st \<and> rb_p st' = rb_p st \<and> rb_stop st' = rb_stop st
     \<and> snd (rb_s st') = snd (rb_s st)"

lemma same_position_uleb:
  assumes "same_position st st'"
  shows "fst (rb_uleb m e st') = fst (rb_uleb m e st)" "same_position (snd (rb_uleb m e st)) (snd (rb_uleb m e st'))"
    "fst (rb_s (snd (rb_uleb m e st'))) = fst (rb_s st')"
  using assms by (simp_all add: rb_uleb_def same_position_def case_prod_beta)

lemma rb_uleb_noError: "noError (snd (rb_s (snd (rb_uleb m e st)))) \<Longrightarrow> noError (snd (rb_s st))"
  by (simp add: rb_uleb_def case_prod_beta)

lemma same_position_location: "same_position st st' \<Longrightarrow> rb_location name ptrSize st' = rb_location name ptrSize st"
  by (rule ext) (simp add: same_position_def rb_location_def)

locale block_checker =
  fixes check :: "(unit, 'a) diag_block" and ok :: "'a \<Rightarrow> bool"
  assumes check_clean: "check s r = Some (s', stop) \<Longrightarrow> noError (snd s') \<Longrightarrow> noError (snd s) \<and> \<not> stop \<and> ok r"
begin

lemma times_clean:
  assumes "rebase_times check loc stride cnt i off s = Some r" and clean: "noError (snd (fst r))" and client: "serves I ok h"
  shows "noError (snd s) \<and> \<not> fst (snd r) \<and> (\<forall>c. I c \<longrightarrow>
    (\<exists>c'. rebase_times h loc stride cnt i off (c, None) = Some ((c', None), False, snd (snd r)) \<and> I c'))"
proof -
  from assms(1) have "check = check \<longrightarrow> noError (snd (fst r)) \<longrightarrow> noError (snd s) \<and> \<not> fst (snd r) \<and> (\<forall>c. I c \<longrightarrow>
    (\<exists>c'. rebase_times h loc stride cnt i off (c, None) = Some ((c', None), False, snd (snd r)) \<and> I c'))"
  proof (rule rebase_times.raw_induct [rotated, where P = "\<lambda>chk loc stride cnt i off s r.
        chk = check \<longrightarrow> noError (snd (fst r)) \<longrightarrow> noError (snd s) \<and> \<not> fst (snd r) \<and> (\<forall>c. I c \<longrightarrow>
        (\<exists>c'. rebase_times h loc stride cnt i off (c, None) = Some ((c', None), False, snd (snd r)) \<and> I c'))"], intro impI)
    fix rt chk loc stride and cnt :: u64 and i :: u32 and off s r
    assume IH: "\<And>chk loc stride cnt i off s r. rt chk loc stride cnt i off s = Some r \<Longrightarrow>
        chk = check \<longrightarrow> noError (snd (fst r)) \<longrightarrow> noError (snd s) \<and> \<not> fst (snd r) \<and> (\<forall>c. I c \<longrightarrow>
        (\<exists>c'. rebase_times h loc stride cnt i off (c, None) = Some ((c', None), False, snd (snd r)) \<and> I c'))"
      and run: "(if ucast i < cnt then Option.bind (chk s (loc off)) (\<lambda>r. if snd r then Some (fst r, True, off + stride)
          else rt chk loc stride cnt (i + 1) (off + stride) (fst r)) else Some (s, False, off)) = Some r"
      and chk: "chk = check" and clean: "noError (snd (fst r))"
    show "noError (snd s) \<and> \<not> fst (snd r) \<and> (\<forall>c. I c \<longrightarrow>
        (\<exists>c'. rebase_times h loc stride cnt i off (c, None) = Some ((c', None), False, snd (snd r)) \<and> I c'))"
    proof (cases "ucast i < cnt")
      case False
      with run clean show ?thesis by (auto simp: rebase_times.simps [of h])
    next
      case True
      with run chk obtain s1 stop where s1: "check s (loc off) = Some (s1, stop)"
        and rest: "(if stop then Some (s1, True, off + stride) else rt check loc stride cnt (i + 1) (off + stride) s1) = Some r"
        by (auto simp: bind_eq_Some_conv cong: if_cong)
      have "\<not> stop" using rest clean check_clean [OF s1] by (auto split: if_splits)
      with rest have go: "rt check loc stride cnt (i + 1) (off + stride) s1 = Some r" by simp
      note next_run = IH [OF this, rule_format, OF refl clean]
      have now: "noError (snd s)" "ok (loc off)" using check_clean [OF s1] next_run by auto
      have "\<exists>c'. rebase_times h loc stride cnt i off (c, None) = Some ((c', None), False, snd (snd r)) \<and> I c'" if c: "I c" for c
      proof -
        obtain c1 where "h (c, None) (loc off) = Some ((c1, None), False)" "I c1" using client c now(2) by (rule servesE)
        with True next_run show ?thesis by (subst rebase_times.simps) simp
      qed
      with now next_run show ?thesis by blast
    qed
  qed
  with clean show ?thesis by simp
qed

end

locale rebase_checker = block_checker check ok for check :: "unit rebase_block" and ok :: "rebase \<Rightarrow> bool"

definition follows :: "('s \<Rightarrow> bool) \<Rightarrow> unit rebase_state \<Rightarrow> 's rebase_state option \<Rightarrow> bool" where
  "follows I st r \<longleftrightarrow> (\<exists>st'. r = Some st' \<and> same_position st st' \<and> I (fst (rb_s st')))"

lemma followsI: "same_position st st' \<Longrightarrow> I (fst (rb_s st')) \<Longrightarrow> follows I st (Some st')"
  by (simp add: follows_def)

lemma same_position_s: "same_position st st' \<Longrightarrow> noError (snd (rb_s st)) \<Longrightarrow> rb_s st' = (fst (rb_s st'), None)"
  by (simp add: same_position_def noError_def prod_eq_iff)

lemma same_position_upd:
  assumes "same_position st st'"
  shows "same_position (st\<lparr>rb_stop := b\<rparr>) (st'\<lparr>rb_stop := b\<rparr>)" "same_position (st\<lparr>rb_kind := k\<rparr>) (st'\<lparr>rb_kind := k\<rparr>)"
    "same_position (st\<lparr>rb_segOffset := v\<rparr>) (st'\<lparr>rb_segOffset := v\<rparr>)"
    "same_position (st\<lparr>rb_segOffset := v, rb_segIndexSet := b\<rparr>) (st'\<lparr>rb_segOffset := v, rb_segIndexSet := b\<rparr>)"
  using assms by (simp_all add: same_position_def)

context rebase_checker
begin

lemma rb_times_clean:
  assumes run: "rb_times check name ptrSize stride cnt st = Some st1" and clean: "noError (snd (rb_s st1))"
    and client: "serves I ok h" and pos: "same_position st st'" "I (fst (rb_s st'))"
  shows "noError (snd (rb_s st)) \<and> follows I st1 (rb_times h name ptrSize stride cnt st')"
proof -
  from run obtain s1 stop off where
    t: "rebase_times check (rb_location name ptrSize st) stride cnt 0 (rb_segOffset st) (rb_s st) = Some (s1, stop, off)"
    and st1: "st1 = st\<lparr>rb_s := s1, rb_stop := stop, rb_segOffset := off\<rparr>"
    by (auto simp: rb_times_def)
  have "noError (snd (fst (s1, stop, off)))" using clean st1 by simp
  note t1 = times_clean [OF t this client]
  with pos obtain c' where c': "rebase_times h (rb_location name ptrSize st) stride cnt 0 (rb_segOffset st) (rb_s st') =
      Some ((c', None), False, off)" "I c'"
    using same_position_s [OF pos(1)] by auto
  have "rb_segOffset st' = rb_segOffset st" using pos(1) by (simp add: same_position_def)
  with c' have "rb_times h name ptrSize stride cnt st' = Some (st'\<lparr>rb_s := (c', None), rb_stop := False, rb_segOffset := off\<rparr>)"
    unfolding rb_times_def same_position_location [OF pos(1)] by simp
  with c' t1 pos(1) clean st1 show ?thesis by (auto simp: follows_def same_position_def noError_def)
qed

lemma rb_add_addr_clean:
  assumes run: "rb_add_addr m e ptrSize check st = Some st1" and clean: "noError (snd (rb_s st1))"
    and client: "serves I ok h" and pos: "same_position st st'" "I (fst (rb_s st'))"
  shows "follows I st1 (rb_add_addr m e ptrSize h st')"
proof -
  let ?loc = "rb_location ''REBASE_OPCODE_DO_REBASE_ADD_ADDR_ULEB'' ptrSize st (rb_segOffset st)"
  from run obtain s1 stop where s1: "check (rb_s st) ?loc = Some (s1, stop)"
    and st1: "st1 = (let (v, b) = rb_uleb m e (st\<lparr>rb_s := s1, rb_stop := stop\<rparr>) in b\<lparr>rb_segOffset := rb_segOffset b + v + ucast ptrSize\<rparr>)"
    by (auto simp: rb_add_addr_def bind_eq_Some_conv case_prod_beta)
  from clean st1 have clean1: "noError (snd s1)" by (auto simp: case_prod_beta dest: rb_uleb_noError)
  from check_clean [OF s1 this] have ok: "noError (snd (rb_s st))" "\<not> stop" "ok ?loc" by simp_all
  obtain c' where "h (fst (rb_s st'), None) ?loc = Some ((c', None), False)" and c'2: "I c'"
    using client pos(2) ok(3) by (rule servesE)
  then have c': "h (rb_s st') ?loc = Some ((c', None), False)" using same_position_s [OF pos(1) ok(1)] by simp
  have off: "rb_segOffset st' = rb_segOffset st" using pos(1) by (simp add: same_position_def)
  have b: "same_position (st\<lparr>rb_s := s1, rb_stop := stop\<rparr>) (st'\<lparr>rb_s := (c', None), rb_stop := False\<rparr>)"
    using pos(1) ok(2) clean1 by (simp add: same_position_def noError_def)
  show ?thesis
    unfolding rb_add_addr_def same_position_location [OF pos(1)] off
    using same_position_uleb [OF b, of m e] c' c'2 st1 by (auto simp: follows_def case_prod_beta same_position_def)
qed

lemma step_clean:
  assumes run: "rebase_step m e ptrSize check st = Some st1" and clean: "noError (snd (rb_s st1))"
    and client: "serves I ok h" and pos: "same_position st st'" "I (fst (rb_s st'))"
  shows "follows I st1 (rebase_step m e ptrSize h st')"
proof -
  define a a' where "a = st\<lparr>rb_p := rb_p st + 1\<rparr>" and "a' = st'\<lparr>rb_p := rb_p st + 1\<rparr>"
  have A: "same_position a a'" "I (fst (rb_s a'))" using pos by (simp_all add: a_def a'_def same_position_def)
  have p: "rb_p st' = rb_p st" using pos(1) by (simp add: same_position_def)
  note U = same_position_uleb [OF A(1), of m e]
  have U2: "same_position (snd (rb_uleb m e a)) (snd (rb_uleb m e a'))" "I (fst (rb_s (snd (rb_uleb m e a'))))"
    using U A(2) by simp_all
  note V = same_position_uleb [OF U2(1), of m e]
  have V2: "same_position (snd (rb_uleb m e (snd (rb_uleb m e a)))) (snd (rb_uleb m e (snd (rb_uleb m e a'))))"
    "I (fst (rb_s (snd (rb_uleb m e (snd (rb_uleb m e a'))))))"
    using V U2(2) by simp_all
  note T = rb_times_clean [OF _ clean client, THEN conjunct2]
  have W: "same_position (a\<lparr>rb_segIndex := x\<rparr>) (a'\<lparr>rb_segIndex := x\<rparr>)" for x using A(1) by (simp add: same_position_def)
  note W' = same_position_uleb [OF W, of m e]
  have fields: "snd (rb_s (snd (rb_uleb m e a'))) = snd (rb_s (snd (rb_uleb m e a)))" "rb_segOffset a' = rb_segOffset a"
    "rb_segOffset (snd (rb_uleb m e a')) = rb_segOffset (snd (rb_uleb m e a))" "rb_p a' = rb_p a"
    using U2(1) A(1) by (simp_all add: same_position_def)
  show ?thesis
    using run clean unfolding rebase_step_def Let_def p a_def [symmetric] a'_def [symmetric]
    by (auto simp: case_prod_beta W' U(1) V(1) fields hasError_noError rb_error_def A(2) U2(2)
        intro!: followsI same_position_upd A(1) U2(1) W' T [OF _ A] T [OF _ U2] T [OF _ V2] rb_add_addr_clean [OF _ clean client A]
        split: if_splits)
qed

end

lemma forStop_follow:
  assumes "forStop f s xs = Some (r, b)" and "noError (snd r)"
    and "\<And>s x s' b. x \<in> set xs \<Longrightarrow> f s x = Some (s', b) \<Longrightarrow> noError (snd s') \<Longrightarrow> noError (snd s) \<and> \<not> b \<and>
      (\<forall>c. I c \<longrightarrow> (\<exists>c'. g (c, None) x = Some ((c', None), False) \<and> I c'))"
  shows "noError (snd s) \<and> \<not> b \<and> (\<forall>c. I c \<longrightarrow> (\<exists>c'. forStop g (c, None) xs = Some ((c', None), False) \<and> I c'))"
  using assms
proof (induction xs arbitrary: s)
  case (Cons x xs)
  from Cons.prems(1) show ?case
  proof (cases rule: forStop_ConsE)
    case 1
    with Cons.prems(3) [OF _ 1(1) Cons.prems(2)] show ?thesis by simp
  next
    case (2 s')
    note IH = Cons.IH [OF 2(2) Cons.prems(2) Cons.prems(3)]
    then have "noError (snd s')" by simp
    note now = Cons.prems(3) [OF _ 2(1) this]
    show ?thesis
    proof (intro conjI allI impI)
      show "noError (snd s)" "\<not> b" using now IH by simp_all
      fix c assume "I c"
      with now obtain c1 where "g (c, None) x = Some ((c1, None), False)" "I c1" by auto
      with IH show "\<exists>c'. forStop g (c, None) (x # xs) = Some ((c', None), False) \<and> I c'" by simp
    qed
  qed
qed simp

context rebase_checker
begin

lemma loop_clean:
  assumes run: "rebase_loop m e ptrSize check st = Some st1" and clean: "noError (snd (rb_s st1))"
    and client: "serves I ok h" and pos: "same_position st st'" "I (fst (rb_s st'))"
  shows "follows I st1 (rebase_loop m e ptrSize h st')"
  using run pos
proof (induction "e - rb_p st" arbitrary: st st' rule: less_induct)
  case less
  have guard: "rb_stop st' = rb_stop st" "snd (rb_s st') = snd (rb_s st)" "rb_p st' = rb_p st"
    using less.prems(2) by (simp_all add: same_position_def)
  show ?case
  proof (cases "\<not> rb_stop st \<and> noError (snd (rb_s st)) \<and> rb_p st < e")
    case True
    with less.prems(1) obtain st2 where st2: "rebase_step m e ptrSize check st = Some st2" "rebase_loop m e ptrSize check st2 = Some st1"
      by (subst (asm) rebase_loop.simps) (auto simp: bind_eq_Some_conv)
    have "noError (snd (rb_s st2))"
    proof (rule ccontr)
      assume "\<not> noError (snd (rb_s st2))"
      with st2(2) clean show False by (subst (asm) rebase_loop.simps) simp
    qed
    then obtain st2' where "rebase_step m e ptrSize h st' = Some st2'" "same_position st2 st2'" "I (fst (rb_s st2'))"
      using step_clean [OF st2(1) _ client less.prems(2,3)] by (auto simp: follows_def)
    moreover from True have "e - rb_p st2 < e - rb_p st" using rebase_step_pos [OF st2(1)] by (simp add: diff_less_mono2)
    ultimately show ?thesis using less.hyps [OF _ st2(2)] True guard by (subst rebase_loop.simps) simp
  next
    case False
    with less.prems guard show ?thesis
      by (subst rebase_loop.simps, subst (asm) rebase_loop.simps) (auto intro: followsI)
  qed
qed

lemma reloc_clean:
  assumes "reloc_loop B m segs segCount base check s rs = Some s1" and "noError (snd s1)" and client: "serves I ok h"
  shows "noError (snd s) \<and> (\<forall>c. I c \<longrightarrow>
    (\<exists>c'. reloc_loop B m segs segCount base h (c, None) rs = Some (c', None) \<and> I c'))"
  using assms(1,2)
proof (induction rs arbitrary: s)
  case Nil
  then show ?case by (simp add: noError_def)
next
  case (Cons r rs)
  from Cons.prems obtain i off seg where found: "segIndexAndOffsetForAddress (reloc_address B m base r) segs segCount = Some (Some (i, off))"
    "seg_at segs (unat i) = Some seg"
    by (auto simp: bind_eq_Some_conv split: option.splits)
  define loc where "loc = \<lparr>re_opcodeName = ''local relocation'', re_segIndexSet = True, re_ptrSize = pointerSize m,
    re_segmentIndex = ucast i, re_segmentOffset = off, re_kind = (if mh_cputype m = CPU_TYPE_I386 \<and> seg_executable seg then textAbsolute32
      else if r_length m r = 2 then pointer32 else pointer64)\<rparr>"
  from Cons.prems(1) obtain s' stop where s': "check s loc = Some (s', stop)" "reloc_loop B m segs segCount base check s' rs = Some s1"
    by (auto simp: found loc_def [symmetric] bind_eq_Some_conv)
  note IH = Cons.IH [OF s'(2) Cons.prems(2)]
  with check_clean [OF s'(1)] have now: "noError (snd s)" "ok loc" by simp_all
  show ?case
  proof (intro conjI allI impI)
    fix c assume "I c"
    obtain c1 where "h (c, None) loc = Some ((c1, None), False)" "I c1" using client \<open>I c\<close> now(2) by (rule servesE)
    with IH show "\<exists>c'. reloc_loop B m segs segCount base h (c, None) (r # rs) = Some (c', None) \<and> I c'"
      by (simp add: found loc_def [symmetric])
  qed (rule now(1))
qed

lemma indirect_step:
  assumes "rebase_indirect m leInfo segs check s ip = Some (s', b)" and "noError (snd s')" and client: "serves I ok h"
  shows "noError (snd s) \<and> \<not> b \<and> (\<forall>c. I c \<longrightarrow>
    (\<exists>c'. rebase_indirect m leInfo segs h (c, None) ip = Some ((c', None), False) \<and> I c'))"
proof (cases "ip_bind ip")
  case True
  with assms(1,2) show ?thesis by (simp add: rebase_indirect_def)
next
  case False
  with assms(1,2) obtain i off where found: "segIndexAndOffsetForAddress (ip_address ip) segs (linkeditSegIndex (layout leInfo)) = Some (Some (i, off))"
    by (auto simp: rebase_indirect_def bind_eq_Some_conv split: option.splits)
  define loc where "loc = \<lparr>re_opcodeName = ''local relocation'', re_segIndexSet = True, re_ptrSize = pointerSize m,
    re_segmentIndex = ucast i, re_segmentOffset = off, re_kind = (if is64 m then pointer64 else pointer32)\<rparr>"
  from assms(1) False have "check s loc = Some (s', b)" by (simp add: rebase_indirect_def found loc_def [symmetric])
  from check_clean [OF this assms(2)] show ?thesis
    using False by (auto simp: rebase_indirect_def found loc_def [symmetric] elim: servesE [OF client])
qed

end

text \<open>
  Two blocks that keep step as long as the first stays clean, in the walk over the indirect
  pointers.
\<close>

definition keepsStep :: "('s \<Rightarrow> bool) \<Rightarrow> ('t, 'a) diag_block \<Rightarrow> ('s, 'a) diag_block \<Rightarrow> bool" where
  "keepsStep I f g \<longleftrightarrow> (\<forall>s x s' b. f s x = Some (s', b) \<and> noError (snd s') \<longrightarrow> noError (snd s) \<and> \<not> b \<and>
     (\<forall>c. I c \<longrightarrow> (\<exists>c'. g (c, None) x = Some ((c', None), False) \<and> I c')))"

lemma keepsStepD:
  assumes "keepsStep I f g" and "f s x = Some (s', b)" and "noError (snd s')"
  shows "noError (snd s) \<and> \<not> b \<and> (\<forall>c. I c \<longrightarrow> (\<exists>c'. g (c, None) x = Some ((c', None), False) \<and> I c'))"
  using assms unfolding keepsStep_def by blast

lemma forStop_keepsStep:
  assumes "keepsStep I f g"
  shows "keepsStep I (\<lambda>s xs. forStop f s xs) (\<lambda>s xs. forStop g s xs)"
  unfolding keepsStep_def using forStop_follow [of f _ _ _ _ I g] keepsStepD [OF assms] by blast

lemma element_keepsStep:
  assumes "keepsStep I f g"
  shows "keepsStep I (indirect_element m t info sz f) (indirect_element m t info sz g)"
  unfolding keepsStep_def
proof (intro allI impI)
  fix s i s' b
  assume "indirect_element m t info sz f s i = Some (s', b) \<and> noError (snd s')"
  then show "noError (snd s) \<and> \<not> b \<and> (\<forall>c. I c \<longrightarrow> (\<exists>c'. indirect_element m t info sz g (c, None) i = Some ((c', None), False) \<and> I c'))"
    unfolding indirect_element_def Let_def by (auto split: if_splits dest!: keepsStepD [OF assms])
qed

lemma section_keepsStep:
  assumes "keepsStep I f g"
  shows "keepsStep I (indirect_section m t f) (indirect_section m t g)"
  unfolding keepsStep_def
proof (intro allI impI)
  fix s sect s' b
  assume "indirect_section m t f s sect = Some (s', b) \<and> noError (snd s')"
  then show "noError (snd s) \<and> \<not> b \<and> (\<forall>c. I c \<longrightarrow> (\<exists>c'. indirect_section m t g (c, None) sect = Some ((c', None), False) \<and> I c'))"
    unfolding indirect_section_def Let_def
    by (auto split: if_splits dest!: keepsStepD [OF forStop_keepsStep [OF element_keepsStep [OF assms]]])
qed

lemma indirect_pointers_clean:
  assumes run: "forEachIndirectPointer m loadAddr uninit f (u, None) = Some s'"
    and clean: "noError (snd s')" and step: "keepsStep I f g" and c: "I c"
  shows "\<exists>c'. forEachIndirectPointer m loadAddr uninit g (c, None) = Some (c', None) \<and> I c'"
proof -
  have "\<exists>c'. forEachSection m (indirect_section m t g) (c, None) = Some (c', None) \<and> I c'"
    if sections: "forEachSection m (indirect_section m t f) (u, None) = Some s'" for t
  proof -
    from sections obtain b where b: "forStop (indirect_section m t f) (u, None) (sections m) = Some (s', b)"
      "b \<or> \<not> malformed_commands m"
      by (auto simp: sects.walk_items bind_eq_Some_conv split: if_splits)
    from keepsStepD [OF forStop_keepsStep [OF section_keepsStep [OF step]] b(1) clean] b(2) c
    show ?thesis by (auto simp: sects.walk_items)
  qed
  moreover from run obtain le d1 where le: "getLinkEditPointers m loadAddr uninit None = Some (le, d1)"
    by (auto simp: forEachIndirectPointer_def bind_eq_Some_conv)
  moreover from run clean le have "d1 = None" by (auto simp: forEachIndirectPointer_def diag_defs split: if_splits)
  ultimately show ?thesis
    using run c unfolding forEachIndirectPointer_def by (cases "indirect_tables_of m loadAddr le") (auto simp: hasError_def split: if_splits)
qed

lemma getLinkEditPointers_clean:
  assumes "getLinkEditPointers m loadAddr uninit d = Some (leInfo, d')" and "noError d'"
  shows "d = None"
proof -
  have "getLinkEditLoadCommands m d = Some (leCommands leInfo, None)"
    using assms by (auto simp: getLinkEditPointers_def bind_eq_Some_conv noError_def split: if_splits)
  from getLinkEditLoadCommands_run(3) [OF this]
  have "noError (snd (foldl (linkedit_step m) (no_commands, d) (load_commands m)))" by simp
  from dyldInfo.slot_fold [OF this] show ?thesis by (simp add: noError_def)
qed

lemma getAllSegmentsInfos_sound:
  assumes "getAllSegmentsInfos m (replicate n None) = Some segs" and "seg_at segs i = Some seg"
  shows "seg \<in> set (segments m)"
proof -
  have "\<forall>i seg. seg_at segs i = Some seg \<longrightarrow> seg \<in> set (segments m)"
    using assms(1) unfolding getAllSegmentsInfos_def
    by (rule segs.walk_invariant) (auto simp: seg_at_def nth_list_update split: if_splits)
  with assms(2) show ?thesis by blast
qed

lemma location_clean:
  assumes run: "forEachRebase_location B m loadAddr uninit chk ((), d) = Some ((), d')" and clean: "noError d'"
    and chk: "\<And>leInfo segs. rebase_checker (chk leInfo segs) (ok leInfo segs)"
    and client: "\<And>leInfo segs. (\<And>i seg. seg_at segs i = Some seg \<Longrightarrow> seg \<in> set (segments m)) \<Longrightarrow> serves I (ok leInfo segs) (h leInfo segs)"
    and c: "I c"
  shows "\<exists>c'. forEachRebase_location B m loadAddr uninit h (c, None) = Some (c', None) \<and> I c'"
proof -
  from run obtain leInfo d1 where le: "getLinkEditPointers m loadAddr uninit d = Some (leInfo, d1)"
    by (auto simp: forEachRebase_location_def bind_eq_Some_conv)
  with run clean have "noError d1" by (auto simp: forEachRebase_location_def hasError_noError split: if_splits)
  with le getLinkEditPointers_clean have d: "d1 = None" "d = None" by (auto simp: noError_def)
  from run le d obtain segs where segs: "getAllSegmentsInfos m (replicate (unat (lastSegIndex (layout leInfo) + 1)) None) = Some segs"
    by (auto simp: forEachRebase_location_def bind_eq_Some_conv hasError_noError)
  note go = le [unfolded d] segs hasError_noError
  have ok: "serves I (ok leInfo segs) (h leInfo segs)"
    using getAllSegmentsInfos_sound [OF segs] by (rule client)
  show ?thesis
  proof (cases "le_dyldInfo (leCommands leInfo)")
    case (Some i)
    define start where "start = content_at loadAddr (layout leInfo) (read32 m (i + 8))"
    from run Some obtain st where st: "rebase_loop m (start + unat (read32 m (i + 12))) (pointerSize m) (chk leInfo segs)
        (rebase_start start ((), None)) = Some st" "noError (snd (rb_s st))"
      using clean by (auto simp: forEachRebase_location_def go start_def Let_def d)
    have "same_position (rebase_start start ((), None)) (rebase_start start (c, None))"
      "I (fst (rb_s (rebase_start start (c, None))))"
      using c by (simp_all add: rebase_start_def same_position_def)
    from rebase_checker.loop_clean [OF chk st ok this] obtain st' where
      "rebase_loop m (start + unat (read32 m (i + 12))) (pointerSize m) (h leInfo segs) (rebase_start start (c, None)) = Some st'"
      "same_position st st'" "I (fst (rb_s st'))" by (auto simp: follows_def)
    then show ?thesis
      using same_position_s [of st st'] st(2) Some by (auto simp: forEachRebase_location_def go start_def Let_def)
  next
    case None
    note dyldInfo = this
    show ?thesis
    proof (cases "le_chainedFixups (leCommands leInfo) \<noteq> None \<and> \<not> isFileSet m \<or> le_dynSymTab (leCommands leInfo) = None")
      case True
      with c dyldInfo show ?thesis by (auto simp: forEachRebase_location_def go Let_def split: option.splits)
    next
      case False
      then obtain dy where dy: "le_dynSymTab (leCommands leInfo) = Some dy" by auto
      have chained: "\<not> ((\<exists>y. le_chainedFixups (leCommands leInfo) = Some y) \<and> \<not> isFileSet m)" using False by auto
      define relocs where "relocs = collect_relocs B m (map (\<lambda>k. content_at loadAddr (layout leInfo) (read32 m (dy + 72)) + 8 * k)
        [0 ..< unat (read32 m (dy + 76))]) None"
      note local = forEachRebase_location_def go dyldInfo dy chained relocs_def [symmetric] Let_def case_prod_beta
      from run obtain base s1 where base: "localRelocBaseAddress B m segs (linkeditSegIndex (layout leInfo)) = Some base"
        and relocs: "reloc_loop B m segs (linkeditSegIndex (layout leInfo)) base (chk leInfo segs) ((), snd relocs) (sort_relocs m (fst relocs)) = Some s1"
        and ind: "forEachIndirectPointer m loadAddr uninit (rebase_indirect m leInfo segs (chk leInfo segs)) s1 = Some ((), d')"
        by (auto simp: local d bind_eq_Some_conv)
      have "noError (snd s1)"
        using ind clean by (auto simp: forEachIndirectPointer_def bind_eq_Some_conv hasError_noError
            dest!: getLinkEditPointers_clean split: if_splits)
      note relocs1 = rebase_checker.reloc_clean [OF chk relocs this ok]
      with c obtain c1 where c1: "reloc_loop B m segs (linkeditSegIndex (layout leInfo)) base (h leInfo segs) (c, None) (sort_relocs m (fst relocs)) = Some (c1, None)"
        "I c1" by blast
      have "s1 = ((), None)" using \<open>noError (snd s1)\<close> by (simp add: noError_def prod_eq_iff)
      have keep: "keepsStep I (rebase_indirect m leInfo segs (chk leInfo segs)) (rebase_indirect m leInfo segs (h leInfo segs))"
        unfolding keepsStep_def using rebase_checker.indirect_step [OF chk _ _ ok] by blast
      from \<open>s1 = ((), None)\<close> ind clean have "\<exists>c'. forEachIndirectPointer m loadAddr uninit (rebase_indirect m leInfo segs (h leInfo segs)) (c1, None) = Some (c', None) \<and> I c'"
        using indirect_pointers_clean [OF _ _ keep c1(2)] by fastforce
      with relocs1 c1 base show ?thesis by (auto simp: local noError_def)
    qed
  qed
qed

section \<open>Soundness of validRebaseInfo\<close>

text \<open>What the segment's protections must be for a rebase of the kind.\<close>

definition kind_allowed :: "build \<Rightarrow> memory \<Rightarrow> SegmentInfo \<Rightarrow> Rebase \<Rightarrow> bool" where
  "kind_allowed B m seg kind \<longleftrightarrow>
     (case kind of
        unknown \<Rightarrow> False
      | pointer32 \<Rightarrow> (seg_writable seg \<or> enforceFormat B m writableData = Some False)
                     \<and> (\<not> seg_executable seg \<or> enforceFormat B m executableData = Some False)
      | pointer64 \<Rightarrow> (seg_writable seg \<or> enforceFormat B m writableData = Some False)
                     \<and> (\<not> seg_executable seg \<or> enforceFormat B m executableData = Some False)
      | textPCrel32 \<Rightarrow> textRelocs seg \<and> \<not> seg_writable seg \<and> seg_executable seg
      | textAbsolute32 \<Rightarrow> textRelocs seg \<and> \<not> seg_writable seg \<and> seg_executable seg)"

definition rebase_ok :: "build \<Rightarrow> memory \<Rightarrow> LinkEditInfo \<Rightarrow> segment_array \<Rightarrow> rebase \<Rightarrow> bool" where
  "rebase_ok B m leInfo segs r \<longleftrightarrow>
     re_segIndexSet r \<and> ucast (re_segmentIndex r) < linkeditSegIndex (layout leInfo) \<and>
     (\<exists>seg. seg_at segs (unat (re_segmentIndex r)) = Some seg
        \<and> re_segmentOffset r \<le> vmSize seg - ucast (re_ptrSize r) \<and> kind_allowed B m seg (re_kind r))"

lemma rebaseStateError_None:
  assumes "rebaseStateError B m leInfo segs r = Some None"
  shows "rebase_ok B m leInfo segs r"
proof -
  from assms obtain seg where seg: "re_segIndexSet r" "ucast (re_segmentIndex r) < linkeditSegIndex (layout leInfo)"
    "seg_at segs (unat (re_segmentIndex r)) = Some seg" "re_segmentOffset r \<le> vmSize seg - ucast (re_ptrSize r)"
    by (auto simp: rebaseStateError_def bind_eq_Some_conv not_le not_less split: if_splits)
  moreover have "kind_allowed B m seg (re_kind r)"
    using assms seg by (cases "re_kind r") (auto simp: rebaseStateError_def kind_allowed_def andAlso_def bind_eq_Some_conv
        not_le not_less split: if_splits)
  ultimately show ?thesis by (auto simp: rebase_ok_def)
qed

interpretation validating: rebase_checker "validating_block B m leInfo segs" "rebase_ok B m leInfo segs" for B m leInfo segs
proof
  fix s r s' stop
  assume run: "validating_block B m leInfo segs s r = Some (s', stop)" and "noError (snd s')"
  then have "rebaseStateError B m leInfo segs r = Some None" and "snd s = snd s'" and "\<not> stop"
    by (auto simp: validating_block_def invalidRebaseState_def split: option.splits)
  with \<open>noError (snd s')\<close> show "noError (snd s) \<and> \<not> stop \<and> rebase_ok B m leInfo segs r"
    by (simp add: rebaseStateError_None)
qed

text \<open>The block that writes down every location and the segment it is in.\<close>

definition recording_block :: "LinkEditInfo \<Rightarrow> segment_array \<Rightarrow> (rebase \<times> SegmentInfo option) list rebase_block" where
  "recording_block leInfo segs s r = Some ((fst s @ [(r, seg_at segs (unat (re_segmentIndex r)))], snd s), False)"

text \<open>
  Where a validated rebase is. The bound on the offset is the code's; it is the intended one
  when the segment is at least as large as a pointer.
\<close>

definition location_ok :: "build \<Rightarrow> memory \<Rightarrow> rebase \<times> SegmentInfo option \<Rightarrow> bool" where
  "location_ok B m e \<longleftrightarrow>
     (\<exists>seg\<in>set (segments m). snd e = Some seg \<and> re_segIndexSet (fst e) \<and> kind_allowed B m seg (re_kind (fst e))
        \<and> re_segmentOffset (fst e) \<le> vmSize seg - ucast (re_ptrSize (fst e))
        \<and> (unat (re_ptrSize (fst e)) \<le> unat (vmSize seg) \<longrightarrow>
             unat (re_segmentOffset (fst e)) + unat (re_ptrSize (fst e)) \<le> unat (vmSize seg)))"

lemma rebase_ok_location:
  assumes "rebase_ok B m leInfo segs r" and "\<And>i seg. seg_at segs i = Some seg \<Longrightarrow> seg \<in> set (segments m)"
  shows "location_ok B m (r, seg_at segs (unat (re_segmentIndex r)))"
proof -
  from assms obtain seg where seg: "seg_at segs (unat (re_segmentIndex r)) = Some seg" "seg \<in> set (segments m)"
    "re_segmentOffset r \<le> vmSize seg - ucast (re_ptrSize r)" "kind_allowed B m seg (re_kind r)" "re_segIndexSet r"
    by (auto simp: rebase_ok_def)
  have "unat (re_segmentOffset r) + unat (re_ptrSize r) \<le> unat (vmSize seg)" if "unat (re_ptrSize r) \<le> unat (vmSize seg)"
    using seg(3) that by (simp add: word_le_nat_alt unat_sub)
  with seg show ?thesis by (auto simp: location_ok_def)
qed

lemma validRebaseInfo_visits:
  assumes "validRebaseInfo B m loadAddr uninit d = Some (True, d')"
  shows "\<exists>visited. forEachRebase_location B m loadAddr uninit recording_block ([], None) = Some (visited, None)
    \<and> (\<forall>e\<in>set visited. location_ok B m e)"
proof -
  from assms have "forEachRebase_location B m loadAddr uninit (validating_block B m) ((), d) = Some ((), d')" "noError d'"
    by (auto simp: validRebaseInfo_def)
  from location_clean [OF this, where h = recording_block and I = "\<lambda>tr. \<forall>e\<in>set tr. location_ok B m e" and c = "[]",
      OF validating.rebase_checker_axioms]
  show ?thesis by (auto simp: serves_def recording_block_def intro: rebase_ok_location)
qed

text \<open>
  C14: when \<open>validRebaseInfo\<close> accepts a file, walking its rebases visits no location outside the
  segment array and ends without error, and every location visited, whether it comes from
  opcodes, local relocations or indirect symbols, is in a segment of the file whose protections
  admit a rebase of its kind; the whole pointer lies inside the segment, if the
  segment is at least as large as a pointer.
\<close>

theorem validRebaseInfo_sound:
  assumes "validRebaseInfo B m loadAddr uninit d = Some (True, d')"
  shows "\<exists>visited. forEachRebase_location B m loadAddr uninit recording_block ([], None) = Some (visited, None)
    \<and> (\<forall>e\<in>set visited. location_ok B m e)"
  using assms by (rule validRebaseInfo_visits)

section \<open>Sample files\<close>

text \<open>
  A dylib with \<open>__TEXT\<close>, a writable \<open>__DATA\<close> of the given size, \<open>__LINKEDIT\<close> at \<open>0x2000\<close> and
  the given words as its rebase opcodes.
\<close>

definition with_words :: "memory \<Rightarrow> nat \<Rightarrow> u32 list \<Rightarrow> memory" where
  "with_words m p ws = (\<lambda>i. if p \<le> i then mem_words ws (i - p) else m i)"

lemma read32_with_words: "q + 4 \<le> p \<Longrightarrow> read32 (with_words m p ws) q = read32 m q"
  by (rule read32_agree) (simp add: agree_def with_words_def)

definition rebase_sample :: "u32 \<Rightarrow> u32 list \<Rightarrow> memory" where
  "rebase_sample dataSize ops = with_words (mem_words
     [0xFEEDFACF, 0x01000007, 3, 6, 4, 264, 0x80, 0,
      0x19, 72, 0x45545F5F, 0x00005458, 0, 0, 0, 0, 0x1000, 0, 0, 0, 0x1000, 0, 5, 5, 0, 0,
      0x19, 72, 0x41445F5F, 0x00004154, 0, 0, 0x1000, 0, dataSize, 0, 0x1000, 0, dataSize, 0, 3, 3, 0, 0,
      0x19, 72, 0x494C5F5F, 0x44454B4E, 0x00005449, 0, 0x2000, 0, 0x1000, 0, 0x2000, 0, 0x1000, 0, 1, 1, 0, 0,
      0x80000022, 48, 0x2000, 4 * of_nat (length ops), 0, 0, 0, 0, 0, 0, 0, 0]) 0x2000 ops"

lemma rebase_sample_list: "load_commands (rebase_sample n ops) = [32, 104, 176, 248]"
  "\<not> malformed_commands (rebase_sample n ops)" "snd (load_commands_diag (rebase_sample n ops)) = None"
  by (simp_all add: rebase_sample_def walk_eval read32_with_words)

lemma rebase_sample_cmds: "lc_cmd (rebase_sample n ops) 32 = LC_SEGMENT_64" "lc_cmd (rebase_sample n ops) 104 = LC_SEGMENT_64"
  "lc_cmd (rebase_sample n ops) 176 = LC_SEGMENT_64" "lc_cmd (rebase_sample n ops) 248 = LC_DYLD_INFO_ONLY"
  "lc_cmdsize (rebase_sample n ops) 248 = 48" "read32 (rebase_sample n ops) 96 = 0" "read32 (rebase_sample n ops) 168 = 0"
  "read32 (rebase_sample n ops) 240 = 0" "read32 (rebase_sample n ops) 256 = 0x2000"
  "read32 (rebase_sample n ops) 260 = 4 * of_nat (length ops)" "mh_magic (rebase_sample n ops) = MH_MAGIC_64"
  by (simp_all add: rebase_sample_def walk_eval read32_with_words)

lemma rebase_sample_names:
  "strcmp_eq (rebase_sample n ops) 40 ''__TEXT''" "\<not> strcmp_eq (rebase_sample n ops) 112 ''__TEXT''"
  "\<not> strcmp_eq (rebase_sample n ops) 112 ''__LINKEDIT''" "\<not> strcmp_eq (rebase_sample n ops) 184 ''__TEXT''"
  "strcmp_eq (rebase_sample n ops) 184 ''__LINKEDIT''"
  by (simp_all add: strcmp_eq_def rebase_sample_def with_words_def mem_words_def of_char_def)

definition sample_segment :: "u64 \<Rightarrow> u64 \<Rightarrow> nat \<Rightarrow> u32 \<Rightarrow> 13 word \<Rightarrow> SegmentInfo" where
  "sample_segment addr len c prot i = \<lparr>fileOffset = addr, fileSize = len, vmAddr = addr, vmSize = len, sizeOfSections = len,
     segName = c + 8, loadCommandOffset = of_nat c, protections = prot, textRelocs = False, readOnlyData = False,
     isProtected = False, segIndex = i, p2align = 0\<rparr>"

lemma rebase_sample_segments: "segments (rebase_sample n ops) =
   [sample_segment 0 0x1000 32 5 0, sample_segment 0x1000 (ucast n) 104 3 1, sample_segment 0x2000 0x1000 176 1 2]"
proof -
  have "read64 (rebase_sample n ops) 56 = 0" "read64 (rebase_sample n ops) 64 = 0x1000" "read64 (rebase_sample n ops) 72 = 0"
    "read64 (rebase_sample n ops) 80 = 0x1000" "read32 (rebase_sample n ops) 92 = 5" "read32 (rebase_sample n ops) 100 = 0"
    "read64 (rebase_sample n ops) 128 = 0x1000" "read64 (rebase_sample n ops) 136 = ucast n" "read64 (rebase_sample n ops) 144 = 0x1000"
    "read64 (rebase_sample n ops) 152 = ucast n" "read32 (rebase_sample n ops) 164 = 3" "read32 (rebase_sample n ops) 172 = 0"
    "read64 (rebase_sample n ops) 200 = 0x2000" "read64 (rebase_sample n ops) 208 = 0x1000" "read64 (rebase_sample n ops) 216 = 0x2000"
    "read64 (rebase_sample n ops) 224 = 0x1000" "read32 (rebase_sample n ops) 236 = 1" "read32 (rebase_sample n ops) 244 = 0"
    by (simp_all add: rebase_sample_def walk_eval read32_with_words)
  then show ?thesis
    by (simp add: segments_def segment_commands_def rebase_sample_list is_segment_command_def rebase_sample_cmds
        segment_info_def segment_info64_def section_scan64_def sections64_def sample_segment_def)
qed

definition sample_layout :: LayoutInfo where
  "sample_layout = \<lparr>li_slide = 0, textUnslidVMAddr = 0, linkeditUnslidVMAddr = 0x2000, linkeditFileOffset = 0x2000,
     linkeditFileSize = 0x1000, linkeditSegIndex = 2, lastSegIndex = 2\<rparr>"

definition sample_info :: LinkEditInfo where
  "sample_info = \<lparr>leCommands = no_commands\<lparr>le_dyldInfo := Some 248\<rparr>, layout = sample_layout\<rparr>"

lemma rebase_sample_pointers: "getLinkEditPointers (rebase_sample n ops) 0 uninit None = Some (sample_info, None)"
proof -
  have "getLinkEditLoadCommands (rebase_sample n ops) None = Some (no_commands\<lparr>le_dyldInfo := Some 248\<rparr>, None)"
    by (simp add: getLinkEditLoadCommands_def walkDiag_def forEachLoadCommand_list rebase_sample_list linkedit_step_def
        rebase_sample_cmds once_of_size_def no_commands_def diag_defs)
  moreover have "getLayoutInfo (rebase_sample n ops) 0 uninit = Some sample_layout"
    by (simp add: getLayoutInfo_def segs.walk_fold rebase_sample_list rebase_sample_segments layout_of_segment_def
        sample_segment_def rebase_sample_names Let_def sample_layout_def)
  ultimately show ?thesis by (simp add: getLinkEditPointers_def sample_info_def)
qed

lemma rebase_sample_infos: "getAllSegmentsInfos (rebase_sample n ops) (replicate 3 None) = Some (map Some (segments (rebase_sample n ops)))"
  by (simp add: getAllSegmentsInfos_def segs.walk_items rebase_sample_list rebase_sample_segments sample_segment_def numeral_3_eq_3)

lemma rebase_sample_walk:
  assumes "length ops < 1024"
  shows "forEachRebase_location B (rebase_sample n ops) 0 uninit h (c, None) =
    map_option rb_s (rebase_loop (rebase_sample n ops) (0x2000 + 4 * length ops) 8
      (h sample_info (map Some (segments (rebase_sample n ops)))) (rebase_start 0x2000 (c, None)))"
proof -
  have "unat (4 * of_nat (length ops) :: u32) = 4 * length ops"
    using assms unat_of_nat_u32 [of "4 * length ops"] by simp
  then show ?thesis
    by (simp add: forEachRebase_location_def rebase_sample_pointers rebase_sample_infos hasError_def Let_def sample_info_def
        sample_layout_def content_at_def getLinkEditContent_def rebase_sample_cmds pointerSize_def)
qed

lemma rebase_sample_byte: "0x2000 \<le> i \<Longrightarrow> rebase_sample n ops i = mem_words ops (i - 0x2000)"
  by (simp add: rebase_sample_def with_words_def)

definition three_pointers :: "u32 list" where
  "three_pointers = [0x53102111, 0]"

lemma three_pointers_bytes: "rebase_sample n three_pointers 8192 = 0x11" "rebase_sample n three_pointers 8193 = 0x21"
  "rebase_sample n three_pointers 8194 = 0x10" "rebase_sample n three_pointers 8195 = 0x53"
  "rebase_sample n three_pointers 8196 = 0" "length three_pointers = 2"
  by (simp_all add: rebase_sample_byte mem_words_def three_pointers_def)

lemma sample_pointer_ok:
  assumes "off \<le> ucast n - 8"
  shows "validating_block B (rebase_sample n ops) sample_info (map Some (segments (rebase_sample n ops))) ((), None)
     \<lparr>re_opcodeName = name, re_segIndexSet = True, re_ptrSize = 8, re_segmentIndex = 1, re_segmentOffset = off, re_kind = pointer64\<rparr>
     = Some (((), None), False)"
proof -
  let ?r = "\<lparr>re_opcodeName = name, re_segIndexSet = True, re_ptrSize = 8, re_segmentIndex = 1, re_segmentOffset = off, re_kind = pointer64\<rparr>"
  have "seg_at (map Some (segments (rebase_sample n ops))) 1 = Some (sample_segment 0x1000 (ucast n) 104 3 1)"
    by (simp add: seg_at_def rebase_sample_segments)
  moreover have "\<not> linkeditSegIndex (layout sample_info) \<le> ucast (re_segmentIndex ?r)"
    by (simp add: sample_info_def sample_layout_def word_le_nat_alt)
  ultimately have "rebaseStateError B (rebase_sample n ops) sample_info (map Some (segments (rebase_sample n ops))) ?r = Some None"
    using assms by (simp add: rebaseStateError_def sample_segment_def seg_writable_def seg_executable_def andAlso_def not_less)
  then show ?thesis by (simp add: validating_block_def invalidRebaseState_def)
qed

lemma three_pointers_valid:
  assumes "16 \<le> ucast n - (8 :: u64)" "24 \<le> ucast n - (8 :: u64)" "32 \<le> ucast n - (8 :: u64)"
  shows "validRebaseInfo B (rebase_sample n three_pointers) 0 uninit None = Some (True, None)"
proof -
  note step = rebase_step_def rb_uleb_def read_uleb128_def uleb_loop.simps rb_times_def rebase_times.simps rb_location_def
  show ?thesis
    using assms
    by (simp add: validRebaseInfo_def rebase_sample_walk three_pointers_bytes rebase_loop.simps step rebase_start_def
        three_pointers_bytes sample_pointer_ok rebase_type_def is64_def rebase_sample_cmds then_diag_def Let_def)
qed

definition sample_location :: "u64 \<Rightarrow> rebase" where
  "sample_location off = \<lparr>re_opcodeName = ''REBASE_OPCODE_DO_REBASE_IMM_TIMES'', re_segIndexSet = True, re_ptrSize = 8,
     re_segmentIndex = 1, re_segmentOffset = off, re_kind = pointer64\<rparr>"

lemma three_pointers_visited:
  "forEachRebase_location B (rebase_sample n three_pointers) 0 uninit recording_block ([], None) =
     Some (map (\<lambda>off. (sample_location off, Some (segments (rebase_sample n three_pointers) ! 1))) [16, 24, 32], None)"
proof -
  note step = rebase_step_def rb_uleb_def read_uleb128_def uleb_loop.simps rb_times_def rebase_times.simps rb_location_def
  have "seg_at (map Some (segments (rebase_sample n three_pointers))) 1 = Some (segments (rebase_sample n three_pointers) ! 1)"
    by (simp add: seg_at_def rebase_sample_segments)
  then show ?thesis
    by (simp add: rebase_sample_walk three_pointers_bytes rebase_loop.simps step rebase_start_def sample_location_def
        recording_block_def rebase_type_def is64_def rebase_sample_cmds then_diag_def Let_def)
qed

theorem validRebaseInfo_sound_witness:
  "\<forall>uninit. \<exists>visited. forEachRebase_location dyld_build (rebase_sample 0x1000 three_pointers) 0 uninit recording_block ([], None)
     = Some (visited, None) \<and> length visited = 3 \<and> (\<forall>e\<in>set visited. location_ok dyld_build (rebase_sample 0x1000 three_pointers) e)"
proof
  fix uninit
  have "validRebaseInfo dyld_build (rebase_sample 0x1000 three_pointers) 0 uninit None = Some (True, None)"
    by (rule three_pointers_valid) simp_all
  from validRebaseInfo_sound [OF this]
  show "\<exists>visited. forEachRebase_location dyld_build (rebase_sample 0x1000 three_pointers) 0 uninit recording_block ([], None)
     = Some (visited, None) \<and> length visited = 3 \<and> (\<forall>e\<in>set visited. location_ok dyld_build (rebase_sample 0x1000 three_pointers) e)"
    by (auto simp: three_pointers_visited)
qed

text \<open>
  The bound \<open>vmSize - ptrSize\<close> wraps when a segment is smaller than a pointer: a file with an
  empty \<open>__DATA\<close> segment passes \<open>validRebaseInfo\<close>, and its rebases, at the offsets 16, 24
  and 32 of that segment, are all outside it.
\<close>

theorem empty_segment_rebases_accepted:
  "validRebaseInfo B (rebase_sample 0 three_pointers) 0 uninit None = Some (True, None)
   \<and> (\<exists>seg. vmSize seg = 0 \<and>
        forEachRebase_location B (rebase_sample 0 three_pointers) 0 uninit recording_block ([], None) =
          Some ([(sample_location 16, Some seg), (sample_location 24, Some seg), (sample_location 32, Some seg)], None))"
proof
  show "validRebaseInfo B (rebase_sample 0 three_pointers) 0 uninit None = Some (True, None)"
    by (rule three_pointers_valid) simp_all
  show "\<exists>seg. vmSize seg = 0 \<and>
        forEachRebase_location B (rebase_sample 0 three_pointers) 0 uninit recording_block ([], None) =
          Some ([(sample_location 16, Some seg), (sample_location 24, Some seg), (sample_location 32, Some seg)], None)"
    by (simp add: three_pointers_visited rebase_sample_segments sample_segment_def)
qed

text \<open>Opcodes that rebase one pointer \<open>2^32\<close> times, moving by \<open>2^64 - 8 + 8\<close> after each.\<close>

definition endless :: "u32 list" where
  "endless = [0x80002111, 0x80808080, 0xFFFFF810, 0xFFFFFFFF, 0x0001FFFF]"

lemma endless_bytes: "rebase_sample n endless 8192 = 0x11" "rebase_sample n endless 8193 = 0x21"
  "rebase_sample n endless 8194 = 0" "rebase_sample n endless 8195 = 0x80" "rebase_sample n endless 8196 = 0x80"
  "rebase_sample n endless 8197 = 0x80" "rebase_sample n endless 8198 = 0x80" "rebase_sample n endless 8199 = 0x80"
  "rebase_sample n endless 8200 = 0x10" "rebase_sample n endless 8201 = 0xF8" "rebase_sample n endless 8202 = 0xFF"
  "rebase_sample n endless 8203 = 0xFF" "rebase_sample n endless 8204 = 0xFF" "rebase_sample n endless 8205 = 0xFF"
  "rebase_sample n endless 8206 = 0xFF" "rebase_sample n endless 8207 = 0xFF" "rebase_sample n endless 8208 = 0xFF"
  "rebase_sample n endless 8209 = 0xFF" "rebase_sample n endless 8210 = 1" "rebase_sample n endless 8211 = 0" "length endless = 5"
  by (simp_all add: rebase_sample_byte mem_words_def endless_def)

lemma endless_ulebs: "read_uleb128 (rebase_sample n endless) 8196 8212 = (4294967296, 8201, None)"
  "read_uleb128 (rebase_sample n endless) 8201 8212 = (18446744073709551608, 8211, None)"
  by (simp_all add: read_uleb128_def uleb_loop.simps endless_bytes)

text \<open>
  The validator's block with a limit on the number of calls: it makes the same test, counts the
  calls it has accepted, and asks the walk to stop at the \<open>n\<close>-th.
\<close>

definition stop_after :: "nat \<Rightarrow> build \<Rightarrow> memory \<Rightarrow> LinkEditInfo \<Rightarrow> segment_array \<Rightarrow> nat rebase_block" where
  "stop_after n B m leInfo segs s r =
     map_option (\<lambda>((u, d), invalid). ((if invalid then fst s else Suc (fst s), d), invalid \<or> Suc (fst s) = n))
       (validating_block B m leInfo segs ((), snd s) r)"

lemma endless_run:
  assumes "h ((), None) (loc 0) = Some (((), None), False)" and "k < n" and stride: "0 + stride = 0"
    and limit: "\<And>s. limited s = (\<lambda>r. map_option (\<lambda>((u, d), invalid).
      ((if invalid then fst s else Suc (fst s), d), invalid \<or> Suc (fst s) = n)) (h ((), snd s) r))"
  shows "rebase_times limited loc stride 4294967296 i 0 (k, None) = Some ((n, None), True, 0)"
  using assms(2)
proof (induction "n - k" arbitrary: k i)
  case (Suc x)
  have "ucast i < (4294967296 :: u64)" using unat_u32_less [of i] by (simp add: word_less_nat_alt)
  moreover have "limited (k, None) (loc 0) = Some ((Suc k, None), Suc k = n)" using assms(1) by (simp add: limit)
  moreover have "rebase_times limited loc stride 4294967296 (i + 1) 0 (Suc k, None) = Some ((n, None), True, 0)" if "Suc k \<noteq> n"
    using Suc that by simp
  ultimately show ?case using stride by (subst rebase_times.simps) auto
qed simp

text \<open>
  C40: \<open>validRebaseInfo\<close> does not return on a well-formed file whose rebase opcodes ask for
  \<open>2^32\<close> rebases: the loop counter has 32 bits, and with a skip of \<open>-8\<close> the location never moves,
  so the validator keeps accepting it. It loops, and does not abort: for every \<open>n\<close>, the same walk over
  the same file with the validator's own block, stopped from outside at the call \<open>n + 1\<close>, has by then
  made \<open>n + 1\<close> calls, every one of them accepted, and reports no error.
\<close>

theorem validRebaseInfo_hangs:
  "validRebaseInfo B (rebase_sample 0x1000 endless) 0 uninit None = None
   \<and> forEachRebase_location B (rebase_sample 0x1000 endless) 0 uninit (stop_after (Suc n) B (rebase_sample 0x1000 endless)) (0, None)
       = Some (Suc n, None)"
proof
  let ?m = "rebase_sample 0x1000 endless"
  let ?segs = "map Some (segments ?m)"
  let ?h = "validating_block B ?m sample_info ?segs"
  let ?loc = "\<lambda>off. (sample_location off)\<lparr>re_opcodeName := ''REBASE_OPCODE_DO_REBASE_ULEB_TIMES_SKIPPING_ULEB''\<rparr>"
  have ok: "?h ((), None) (?loc 0) = Some (((), None), False)"
    by (simp add: sample_location_def sample_pointer_ok)
  have loop: "rebase_times ?h ?loc 18446744073709551616 4294967296 0 0 ((), None) = None"
    by (rule rebase_times_diverges [where I = "\<lambda>s off. s = ((), None) \<and> off = 0"]) (simp_all add: ok)
  have limited: "rebase_times (stop_after (Suc n) B ?m sample_info ?segs) ?loc 18446744073709551616 4294967296 0 0 (0, None)
      = Some ((Suc n, None), True, 0)"
    using endless_run [of ?h ?loc 0 "Suc n" 18446744073709551616 "stop_after (Suc n) B ?m sample_info ?segs" 0] ok
    by (simp add: fun_eq_iff stop_after_def)
  note step = rebase_step_def rb_uleb_def rb_times_def
  have at: "rb_location name 8 st = (\<lambda>off. (sample_location off)\<lparr>re_opcodeName := name\<rparr>)"
    if "rb_segIndexSet st" "rb_segIndex st = 1" "rb_kind st = pointer64" for name and st :: "'s rebase_state"
    using that by (simp add: fun_eq_iff rb_location_def sample_location_def)
  have first: "read_uleb128 ?m 8194 8212 = (0, 8195, None)" by (simp add: read_uleb128_def uleb_loop.simps endless_bytes)
  show "validRebaseInfo B ?m 0 uninit None = None"
    using loop by (simp add: validRebaseInfo_def rebase_sample_walk endless_bytes rebase_loop.simps step rebase_start_def at first
        endless_ulebs rebase_type_def is64_def rebase_sample_cmds then_diag_def Let_def hasError_def)
  show "forEachRebase_location B ?m 0 uninit (stop_after (Suc n) B ?m) (0, None) = Some (Suc n, None)"
    using limited by (simp add: rebase_sample_walk endless_bytes rebase_loop.simps step rebase_start_def at first
        endless_ulebs rebase_type_def is64_def rebase_sample_cmds then_diag_def Let_def hasError_def)
qed

section \<open>Indirect pointers stay in their tables\<close>

definition recording_pointers :: "indirect_pointer list \<times> diag \<Rightarrow> indirect_pointer \<Rightarrow> ((indirect_pointer list \<times> diag) \<times> bool) option" where
  "recording_pointers s ip = Some ((fst s @ [ip], snd s), False)"

text \<open>
  Where an indirect pointer comes from: an entry of the indirect symbol table, for an element of a
  section. The symbol index and the string offset are at most the tables' sizes.
\<close>

definition pointer_source :: "memory \<Rightarrow> indirect_tables \<Rightarrow> indirect_pointer \<Rightarrow> bool" where
  "pointer_source m t ip \<longleftrightarrow>
     (\<exists>(info, malformed)\<in>set (sections m). \<exists>(i :: u32) elementSize.
        ip_address ip = sectAddr info + ucast (i * elementSize)
        \<and> unat (sect_reserved1 info) + unat i < unat (it_indirectCount t)
        \<and> (let symNum = read32 m (it_indirect t + 4 * (unat (sect_reserved1 info) + unat i));
               strx = read32 m (it_symbols t + (if is64 m then 16 else 12) * unat symNum)
           in if ip_bind ip then symNum \<le> it_symCount t \<and> strx \<le> it_poolSize t \<and> ip_symbolName ip = Some (it_strings t + unat strx)
              else symNum = INDIRECT_SYMBOL_LOCAL))"

lemma element_source:
  assumes run: "indirect_element m t info sz recording_pointers s i = Some (s', b)" and sect: "(info, x) \<in> set (sections m)"
    and bound: "unat (sect_reserved1 info) + unat i < unat (it_indirectCount t)"
    and tr: "\<forall>ip\<in>set (fst s). pointer_source m t ip"
  shows "\<forall>ip\<in>set (fst s'). pointer_source m t ip"
proof -
  have idx: "unat (sect_reserved1 info + i) = unat (sect_reserved1 info) + unat i"
    using bound unat_u32_less [of "it_indirectCount t"] by (simp add: unat_word_ariths)
  have new: "pointer_source m t ip"
    if "ip_address ip = sectAddr info + ucast (i * sz)"
      "let symNum = read32 m (it_indirect t + 4 * unat (sect_reserved1 info + i));
           strx = read32 m (it_symbols t + (if is64 m then 16 else 12) * unat symNum)
       in if ip_bind ip then symNum \<le> it_symCount t \<and> strx \<le> it_poolSize t \<and> ip_symbolName ip = Some (it_strings t + unat strx)
          else symNum = INDIRECT_SYMBOL_LOCAL" for ip
    unfolding pointer_source_def
    by (rule bexI [OF _ sect], unfold prod.case, intro exI [of _ i] exI [of _ sz] conjI)
      (rule that(1), rule bound, rule that(2) [unfolded idx])
  from run have "fst s' = fst s \<or> (\<exists>ip. fst s' = fst s @ [ip] \<and> ip_address ip = sectAddr info + ucast (i * sz) \<and>
      (let symNum = read32 m (it_indirect t + 4 * unat (sect_reserved1 info + i));
           strx = read32 m (it_symbols t + (if is64 m then 16 else 12) * unat symNum)
       in if ip_bind ip then symNum \<le> it_symCount t \<and> strx \<le> it_poolSize t \<and> ip_symbolName ip = Some (it_strings t + unat strx)
          else symNum = INDIRECT_SYMBOL_LOCAL))"
    unfolding indirect_element_def Let_def recording_pointers_def by (auto simp: not_less split: if_splits)
  with new tr show ?thesis by auto
qed

lemma section_source:
  assumes run: "indirect_section m t recording_pointers s sect = Some (s', b)" and sect: "sect \<in> set (sections m)"
    and tr: "\<forall>ip\<in>set (fst s). pointer_source m t ip"
  shows "\<forall>ip\<in>set (fst s'). pointer_source m t ip"
proof -
  obtain info x where sx: "sect = (info, x)" by (cases sect)
  have "\<forall>ip\<in>set (fst s'). pointer_source m t ip"
    if loop: "forStop (indirect_element m t info sz recording_pointers) s (map of_nat [0 ..< unat n]) = Some (s', b)"
      and bound: "unat (sect_reserved1 info) + unat n \<le> unat (it_indirectCount t)" for sz and n :: u32
    using loop tr
  proof (rule forStop_invariant)
    fix s i s' b
    assume "i \<in> set (map of_nat [0 ..< unat n])" and step: "indirect_element m t info sz recording_pointers s i = Some (s', b)"
      and "\<forall>ip\<in>set (fst s). pointer_source m t ip"
    moreover from this(1) have "unat i < unat n"
      using unat_u32_less [of n] by (auto simp: unat_of_nat_u32)
    ultimately show "\<forall>ip\<in>set (fst s'). pointer_source m t ip"
      using element_source [OF step, of x] sect sx bound by simp
  qed
  with run tr show ?thesis
    unfolding indirect_section_def Let_def sx by (auto simp: greaterThanAddOrOverflow_iff not_less split: if_splits)
qed

text \<open>
  C36: every pointer \<open>forEachIndirectPointer\<close> reports is an element of a section of the file whose entry
  is inside the indirect symbol table, without the 32-bit sum of start and index wrapping; a
  pointer to bind has a symbol index of at most the number of symbols and a
  name that starts at most at the end of the string pool.
\<close>

theorem forEachIndirectPointer_sound:
  assumes "forEachIndirectPointer m loadAddr uninit recording_pointers ([], d) = Some (pointers, d')" and "pointers \<noteq> []"
  shows "\<exists>leInfo t. getLinkEditPointers m loadAddr uninit d = Some (leInfo, None) \<and> indirect_tables_of m loadAddr leInfo = Some t
    \<and> (\<forall>ip\<in>set pointers. pointer_source m t ip)"
proof -
  from assms obtain leInfo t where t: "getLinkEditPointers m loadAddr uninit d = Some (leInfo, None)"
    "indirect_tables_of m loadAddr leInfo = Some t"
    "forEachSection m (indirect_section m t recording_pointers) ([], None) = Some (pointers, d')"
    by (auto simp: forEachIndirectPointer_def bind_eq_Some_conv hasError_def split: if_splits)
  have "\<forall>ip\<in>set (fst (pointers, d')). pointer_source m t ip"
    using t(3) by (rule sects.walk_invariant) (auto dest: section_source)
  with t show ?thesis by auto
qed

text \<open>
  C37: a counted rebase loop with a count below \<open>2^32\<close> returns, whatever the block does, and has
  called it exactly for the locations at distance \<open>stride\<close> in order, up to the first one at which the block
  stops.
\<close>

theorem rebase_times_terminates:
  assumes "unat cnt < 4294967296" and "\<And>s r. h s r \<noteq> None"
  shows "\<exists>s' stop off'. rebase_times h loc stride cnt 0 off s = Some (s', stop, off')
    \<and> forStop (\<lambda>s off. h s (loc off)) s (offsets off stride (unat cnt)) = Some (s', stop)"
proof -
  obtain s' stop where run: "forStop (\<lambda>s off. h s (loc off)) s (offsets off stride (unat cnt)) = Some (s', stop)"
    using forStop_total [of "\<lambda>s off. h s (loc off)" s] assms(2) by blast
  have "map_option (\<lambda>(s, stop, off). (s, stop)) (rebase_times h loc stride cnt 0 off s) = Some (s', stop)"
    using rebase_times_forStop [of cnt 0 "unat cnt" h loc stride off s] assms(1) run by simp
  with run show ?thesis by auto
qed

theorem rebase_times_terminates_witness:
  "\<exists>s' stop off'. rebase_times (recording_block sample_info []) sample_location 8 3 0 16 ([], None) = Some (s', stop, off')
     \<and> \<not> stop \<and> map fst (fst s') = [sample_location 16, sample_location 24, sample_location 32]"
proof -
  have three: "unat (3 :: u64) = Suc (Suc (Suc 0))" by simp
  have "recording_block sample_info [] s r \<noteq> None" for s r by (simp add: recording_block_def)
  then have "\<exists>s' stop off'. rebase_times (recording_block sample_info []) sample_location 8 3 0 16 ([], None) = Some (s', stop, off')
      \<and> forStop (\<lambda>s off. recording_block sample_info [] s (sample_location off)) ([], None) (offsets 16 8 (unat (3 :: u64))) = Some (s', stop)"
    by (intro rebase_times_terminates) simp_all
  then show ?thesis unfolding three by (auto simp: recording_block_def)
qed

text \<open>A dylib with one section of two non-lazy pointers, a local one and one bound to symbol 0.\<close>

definition indirect_sample :: memory where
  "indirect_sample = with_words (mem_words
     [0xFEEDFACF, 0x01000007, 3, 6, 5, 400, 0x80, 0,
      0x19, 72, 0x45545F5F, 0x00005458, 0, 0, 0, 0, 0x1000, 0, 0, 0, 0x1000, 0, 5, 5, 0, 0,
      0x19, 152, 0x41445F5F, 0x00004154, 0, 0, 0x1000, 0, 0x1000, 0, 0x1000, 0, 0x1000, 0, 3, 3, 1, 0,
      0x6F675F5F, 0x00000074, 0, 0, 0x41445F5F, 0x00004154, 0, 0, 0x1000, 0, 16, 0, 0x1000, 3, 0, 0, 6, 0, 0, 0,
      0x19, 72, 0x494C5F5F, 0x44454B4E, 0x00005449, 0, 0x2000, 0, 0x1000, 0, 0x2000, 0, 0x1000, 0, 1, 1, 0, 0,
      0x2, 24, 0x2008, 1, 0x2018, 4,
      0xB, 80, 0, 0, 0, 0, 0, 1, 0, 0, 0, 0, 0, 0, 0x2000, 2, 0, 0, 0, 0])
     0x2000 [0x80000000, 0, 1, 0x01000001, 0, 0, 0x00006100]"

lemma read32_with_words_in:
  assumes "p \<le> q"
  shows "read32 (with_words m p ws) q = read32 (mem_words ws) (q - p)"
proof -
  have "p \<le> q \<Longrightarrow> le_nat (with_words m p ws) q n = le_nat (mem_words ws) (q - p) n" for q n
    by (induction n arbitrary: q) (simp_all add: with_words_def Suc_diff_le)
  with assms show ?thesis by (simp add: read32_def)
qed

lemma indirect_sample_list: "load_commands indirect_sample = [32, 104, 256, 328, 352]"
  "\<not> malformed_commands indirect_sample" "snd (load_commands_diag indirect_sample) = None"
  by (simp_all add: indirect_sample_def walk_eval read32_with_words)

lemma indirect_sample_cmds: "lc_cmd indirect_sample 32 = LC_SEGMENT_64" "lc_cmd indirect_sample 104 = LC_SEGMENT_64"
  "lc_cmd indirect_sample 256 = LC_SEGMENT_64" "lc_cmd indirect_sample 328 = LC_SYMTAB" "lc_cmd indirect_sample 352 = LC_DYSYMTAB"
  "lc_cmdsize indirect_sample 328 = 24" "lc_cmdsize indirect_sample 352 = 80" "read32 indirect_sample 96 = 0"
  "read32 indirect_sample 168 = 1" "read32 indirect_sample 320 = 0" "mh_magic indirect_sample = MH_MAGIC_64" "mh_flags indirect_sample = 0x80"
  "read64 indirect_sample 56 = 0" "read64 indirect_sample 128 = 0x1000" "read64 indirect_sample 280 = 0x2000"
  "read64 indirect_sample 296 = 0x2000" "read64 indirect_sample 304 = 0x1000" "mh_filetype indirect_sample = 6"
  "mh_cputype indirect_sample = 0x01000007"
  "read64 indirect_sample 208 = 0x1000" "read64 indirect_sample 216 = 16" "read32 indirect_sample 240 = 6" "read32 indirect_sample 244 = 0"
  "read32 indirect_sample 336 = 0x2008" "read32 indirect_sample 340 = 1" "read32 indirect_sample 344 = 0x2018" "read32 indirect_sample 348 = 4"
  "read32 indirect_sample 408 = 0x2000" "read32 indirect_sample 412 = 2"
  "read32 indirect_sample 8192 = 0x80000000" "read32 indirect_sample 8196 = 0" "read32 indirect_sample 8200 = 1"
  by (simp_all add: indirect_sample_def walk_eval read32_with_words read32_with_words_in)

lemma indirect_sample_names:
  "strcmp_eq indirect_sample 40 ''__TEXT''" "\<not> strcmp_eq indirect_sample 112 ''__TEXT''" "\<not> strcmp_eq indirect_sample 112 ''__LINKEDIT''"
  "\<not> strcmp_eq indirect_sample 264 ''__TEXT''" "strcmp_eq indirect_sample 264 ''__LINKEDIT''"
  by (simp_all add: strcmp_eq_def indirect_sample_def with_words_def mem_words_def of_char_def)

lemma indirect_sample_section: "\<exists>info malformed. sections indirect_sample = [(info, malformed)] \<and> sectFlags info = 6
    \<and> sect_reserved1 info = 0 \<and> sectAddr info = 0x1000 \<and> sectSize info = 16"
  by (simp add: sections_def segment_commands_def indirect_sample_list is_segment_command_def indirect_sample_cmds section_infos_def
      sections64_def section_info64_def)

lemma indirect_sample_pointers: "\<exists>l. getLinkEditPointers indirect_sample 0 uninit None =
    Some (\<lparr>leCommands = no_commands\<lparr>le_symTab := Some 328, le_dynSymTab := Some 352\<rparr>, layout = l\<rparr>, None)
    \<and> linkeditUnslidVMAddr l = 0x2000 \<and> li_slide l = 0 \<and> linkeditFileOffset l = 0x2000"
proof -
  have "getLinkEditLoadCommands indirect_sample None = Some (no_commands\<lparr>le_symTab := Some 328, le_dynSymTab := Some 352\<rparr>, None)"
    by (simp add: getLinkEditLoadCommands_def walkDiag_def forEachLoadCommand_list indirect_sample_list linkedit_step_def
        indirect_sample_cmds once_of_size_def no_commands_def diag_defs)
  moreover have "\<exists>l. getLayoutInfo indirect_sample 0 uninit = Some l
      \<and> linkeditUnslidVMAddr l = 0x2000 \<and> li_slide l = 0 \<and> linkeditFileOffset l = 0x2000"
    by (simp add: getLayoutInfo_def segs.walk_fold indirect_sample_list segments_def segment_commands_def is_segment_command_def
        indirect_sample_cmds segment_info_def segment_info64_def case_prod_beta layout_of_segment_def indirect_sample_names Let_def)
  ultimately show ?thesis by (auto simp: getLinkEditPointers_def)
qed

lemma indirect_sample_run:
  "\<exists>pointers. forEachIndirectPointer indirect_sample 0 uninit recording_pointers ([], None) = Some (pointers, None)
     \<and> map ip_address pointers = [0x1000, 0x1008] \<and> map ip_bind pointers = [False, True]"
proof -
  obtain info malformed where sect: "sections indirect_sample = [(info, malformed)]" "sectFlags info = 6"
    "sect_reserved1 info = 0" "sectAddr info = 0x1000" "sectSize info = 16"
    using indirect_sample_section by blast
  obtain l where l: "getLinkEditPointers indirect_sample 0 uninit None =
      Some (\<lparr>leCommands = no_commands\<lparr>le_symTab := Some 328, le_dynSymTab := Some 352\<rparr>, layout = l\<rparr>, None)"
    "linkeditUnslidVMAddr l = 0x2000" "li_slide l = 0" "linkeditFileOffset l = 0x2000"
    using indirect_sample_pointers by blast
  let ?t = "\<lparr>it_indirect = 8192, it_indirectCount = 2, it_symbols = 8200, it_symCount = 1, it_strings = 8216, it_poolSize = 4\<rparr>"
  have tables: "indirect_tables_of indirect_sample 0 \<lparr>leCommands = no_commands\<lparr>le_symTab := Some 328, le_dynSymTab := Some 352\<rparr>, layout = l\<rparr> = Some ?t"
    by (simp add: indirect_tables_of_def content_at_def getLinkEditContent_def l indirect_sample_cmds Let_def)
  have two: "map word_of_nat [0 ..< 2] = [0, 1 :: u32]" by (simp add: numeral_2_eq_2)
  have "\<exists>ip0. indirect_element indirect_sample ?t info 8 recording_pointers ([], None) 0 = Some (([ip0], None), False)
      \<and> ip_address ip0 = 0x1000 \<and> \<not> ip_bind ip0"
    by (simp add: indirect_element_def sect indirect_sample_cmds recording_pointers_def Let_def is64_def)
  moreover have "\<exists>ip1. indirect_element indirect_sample ?t info 8 recording_pointers ([ip0], None) 1 = Some (([ip0, ip1], None), False)
      \<and> ip_address ip1 = 0x1008 \<and> ip_bind ip1" for ip0
    by (simp add: indirect_element_def sect indirect_sample_cmds recording_pointers_def Let_def is64_def)
  ultimately obtain ip0 ip1 where ips: "indirect_element indirect_sample ?t info 8 recording_pointers ([], None) 0 = Some (([ip0], None), False)"
    "indirect_element indirect_sample ?t info 8 recording_pointers ([ip0], None) 1 = Some (([ip0, ip1], None), False)"
    "ip_address ip0 = 0x1000" "ip_address ip1 = 0x1008" "\<not> ip_bind ip0" "ip_bind ip1" by blast
  have "indirect_section indirect_sample ?t recording_pointers ([], None) (info, malformed) = Some (([ip0, ip1], None), False)"
    using ips by (simp add: indirect_section_def sect selfModifyingStubs_def indirect_sample_cmds pointerSize_def
        greaterThanAddOrOverflow_def Let_def two)
  with ips(3-) show ?thesis
    by (simp add: forEachIndirectPointer_def l hasError_def tables sects.walk_items sect indirect_sample_list)
qed

theorem forEachIndirectPointer_sound_witness:
  "\<exists>pointers t. map ip_address pointers = [0x1000, 0x1008] \<and> (\<forall>ip\<in>set pointers. pointer_source indirect_sample t ip)"
proof -
  obtain pointers where run: "forEachIndirectPointer indirect_sample 0 sample_layout recording_pointers ([], None) = Some (pointers, None)"
    "map ip_address pointers = [0x1000, 0x1008]" using indirect_sample_run [of sample_layout] by (elim exE conjE)
  from run(2) have "pointers \<noteq> []" by (cases pointers) simp_all
  from forEachIndirectPointer_sound [OF run(1) this] obtain t where "\<forall>ip\<in>set pointers. pointer_source indirect_sample t ip"
    by (elim exE conjE)
  with run(2) show ?thesis by (intro exI conjI)
qed

end
