(* ===== verification/Hash_Map.thy ===== *)
theory Hash_Map
  imports Dyld_Prelude
begin

text \<open>
  The hash tables \<open>Map\<close> and \<open>MultiMap\<close> of \<open>src/dyld3/Map.h\<close>: an open-addressing table of node indices,
  probed quadratically, over an array of nodes in insertion order. The template arguments
  \<open>GetHash\<close> and \<open>IsEqual\<close> are the parameters \<open>hash\<close> and \<open>equal\<close>; \<open>size_t\<close> is \<open>u64\<close>. The result
  \<open>None\<close> is an out-of-range access (which \<open>Array\<close> asserts against) or a probe that does not end. The
  abstract view of a \<open>Map\<close> is the finite map of its nodes, that of a \<open>MultiMap\<close> the
  values of each key in insertion order.
\<close>

section \<open>Probing\<close>

abbreviation SentinelHash :: u64 where "SentinelHash \<equiv> - 1"

text \<open>\<open>Array::operator[]\<close>.\<close>

definition array_at :: "'a list \<Rightarrow> u64 \<Rightarrow> 'a option" where
  "array_at xs i = (if unat i < length xs then Some (xs ! unat i) else None)"

definition array_count :: "'a list \<Rightarrow> u64" where
  "array_count xs = of_nat (length xs)"

datatype probe_result = Vacant u64 | Found u64

text \<open>
  The three \<open>while (true)\<close> loops: \<open>hit\<close> is the test of a node that is in use. The loop that
  rehashes has no such test.
\<close>

partial_function (option) probe_loop ::
    "(u64 \<Rightarrow> bool option) \<Rightarrow> u64 list \<Rightarrow> u64 \<Rightarrow> u64 \<Rightarrow> probe_result option" where
  "probe_loop hit buf hashIndex probeAmount =
     Option.bind (array_at buf hashIndex) (\<lambda>nodeBufferIndex.
       if nodeBufferIndex = SentinelHash then Some (Vacant hashIndex)
       else Option.bind (hit nodeBufferIndex) (\<lambda>b.
         if b then Some (Found nodeBufferIndex)
         else probe_loop hit buf ((hashIndex + probeAmount) AND (array_count buf - 1)) (probeAmount + 1)))"

definition probe :: "(u64 \<Rightarrow> bool option) \<Rightarrow> u64 list \<Rightarrow> u64 \<Rightarrow> probe_result option" where
  "probe hit buf h = probe_loop hit buf (h AND (array_count buf - 1)) 1"

section \<open>Map\<close>

record ('k, 'v) Map =
  nextHashBufferGrowth :: u64
  hashBufferUseCount :: u64
  hashBuffer :: "u64 list"
  nodeBuffer :: "('k \<times> 'v) list"

definition Map_new :: "('k, 'v) Map" where
  "Map_new = \<lparr>nextHashBufferGrowth = 768, hashBufferUseCount = 0, hashBuffer = replicate 1024 SentinelHash, nodeBuffer = []\<rparr>"

definition key_test :: "('k \<Rightarrow> 'k \<Rightarrow> bool) \<Rightarrow> ('k \<times> 'v) list \<Rightarrow> 'k \<Rightarrow> u64 \<Rightarrow> bool option" where
  "key_test equal nodes key i = map_option (\<lambda>node. equal (fst node) key) (array_at nodes i)"

text \<open>\<open>find\<close>: the index of the node, or \<open>None\<close> for \<open>end()\<close>.\<close>

definition Map_find :: "('k \<Rightarrow> u64) \<Rightarrow> ('k \<Rightarrow> 'k \<Rightarrow> bool) \<Rightarrow> ('k, 'v) Map \<Rightarrow> 'k \<Rightarrow> u64 option option" where
  "Map_find hash equal M key =
     map_option (\<lambda>r. case r of Found i \<Rightarrow> Some i | Vacant s \<Rightarrow> None)
       (probe (key_test equal (nodeBuffer M) key) (hashBuffer M) (hash key))"

text \<open>The rehashing of a list of keys, with the index each is entered under.\<close>

fun rehash_loop :: "('k \<Rightarrow> u64) \<Rightarrow> u64 list \<Rightarrow> ('k \<times> u64) list \<Rightarrow> u64 list option" where
  "rehash_loop hash buf [] = Some buf"
| "rehash_loop hash buf ((key, i) # entries) =
     Option.bind (probe (\<lambda>n. Some False) buf (hash key)) (\<lambda>r.
       case r of Vacant s \<Rightarrow> rehash_loop hash (buf[unat s := i]) entries | Found n \<Rightarrow> None)"

definition node_entries :: "'k list \<Rightarrow> ('k \<times> u64) list" where
  "node_entries keys = map (\<lambda>i. (keys ! i, of_nat i)) [0 ..< length keys]"

text \<open>The growing step, when the table is three quarters full.\<close>

definition Map_grow :: "('k \<Rightarrow> u64) \<Rightarrow> ('k, 'v) Map \<Rightarrow> ('k, 'v) Map option" where
  "Map_grow hash M =
     (if hashBufferUseCount M = nextHashBufferGrowth M then
        (let newHashTableSize = array_count (hashBuffer M) * 2 in
         map_option (\<lambda>buf. M\<lparr>hashBuffer := buf, nextHashBufferGrowth := nextHashBufferGrowth M * 2\<rparr>)
           (rehash_loop hash (replicate (unat newHashTableSize) SentinelHash) (node_entries (map fst (nodeBuffer M)))))
      else Some M)"

text \<open>\<open>insert\<close>: the table, the node's index and whether it is new.\<close>

definition Map_insert ::
    "('k \<Rightarrow> u64) \<Rightarrow> ('k \<Rightarrow> 'k \<Rightarrow> bool) \<Rightarrow> ('k, 'v) Map \<Rightarrow> 'k \<times> 'v \<Rightarrow> (('k, 'v) Map \<times> u64 \<times> bool) option" where
  "Map_insert hash equal M0 v =
     Option.bind (Map_grow hash M0) (\<lambda>M.
     Option.bind (probe (key_test equal (nodeBuffer M) (fst v)) (hashBuffer M) (hash (fst v))) (\<lambda>r.
       case r of
         Vacant s \<Rightarrow>
           Some (M\<lparr>hashBuffer := (hashBuffer M)[unat s := array_count (nodeBuffer M)],
                   hashBufferUseCount := hashBufferUseCount M + 1, nodeBuffer := nodeBuffer M @ [v]\<rparr>,
                 array_count (nodeBuffer M), True)
       | Found i \<Rightarrow> Some (M, i, False)))"

text \<open>\<open>operator[]\<close>: the table and the index of the node the reference is into; \<open>ValueT()\<close> is an argument.\<close>

definition Map_subscript ::
    "('k \<Rightarrow> u64) \<Rightarrow> ('k \<Rightarrow> 'k \<Rightarrow> bool) \<Rightarrow> 'v \<Rightarrow> ('k, 'v) Map \<Rightarrow> 'k \<Rightarrow> (('k, 'v) Map \<times> u64) option" where
  "Map_subscript hash equal dflt M key =
     map_option (\<lambda>(M', i, inserted). (M', i)) (Map_insert hash equal M (key, dflt))"

section \<open>MultiMap\<close>

text \<open>\<open>nextIndex\<close> is a bit field of 29 bits.\<close>

record NextNode =
  isDuplicateHead :: bool
  isDuplicateEntry :: bool
  isDuplicateTail :: bool
  nextIndex :: "29 word"

definition hasAnyDuplicates :: "NextNode \<Rightarrow> bool" where
  "hasAnyDuplicates n \<longleftrightarrow> isDuplicateHead n \<or> isDuplicateEntry n \<or> isDuplicateTail n"

definition hasMoreDuplicates :: "NextNode \<Rightarrow> bool" where
  "hasMoreDuplicates n \<longleftrightarrow> isDuplicateHead n \<or> isDuplicateEntry n"

definition makeNoDuplicates :: NextNode where
  "makeNoDuplicates = \<lparr>isDuplicateHead = False, isDuplicateEntry = False, isDuplicateTail = False, nextIndex = 0\<rparr>"

definition makeDuplicateTailNode :: NextNode where
  "makeDuplicateTailNode = \<lparr>isDuplicateHead = False, isDuplicateEntry = False, isDuplicateTail = True, nextIndex = 0\<rparr>"

record ('k, 'v) MultiMap =
  mm_nextHashBufferGrowth :: u64
  mm_hashBufferUseCount :: u64
  mm_hashBuffer :: "u64 list"
  mm_nodeBuffer :: "('k \<times> 'v \<times> NextNode) list"

definition MultiMap_new :: "('k, 'v) MultiMap" where
  "MultiMap_new = \<lparr>mm_nextHashBufferGrowth = 768, mm_hashBufferUseCount = 0,
     mm_hashBuffer = replicate 1024 SentinelHash, mm_nodeBuffer = []\<rparr>"

text \<open>The loop that walks from a node to the end of its chain of duplicates.\<close>

partial_function (option) chain_tail :: "('k \<times> 'v \<times> NextNode) list \<Rightarrow> u64 \<Rightarrow> u64 option" where
  "chain_tail nodes i =
     Option.bind (array_at nodes i) (\<lambda>node.
       if hasMoreDuplicates (snd (snd node)) then chain_tail nodes (ucast (nextIndex (snd (snd node)))) else Some i)"

text \<open>The entries that are rehashed: not the later members of a chain.\<close>

definition head_entries :: "('k \<times> 'v \<times> NextNode) list \<Rightarrow> ('k \<times> u64) list" where
  "head_entries nodes =
     map (\<lambda>i. (fst (nodes ! i), of_nat i))
       (filter (\<lambda>i. \<not> isDuplicateEntry (snd (snd (nodes ! i))) \<and> \<not> isDuplicateTail (snd (snd (nodes ! i)))) [0 ..< length nodes])"

definition MultiMap_grow :: "('k \<Rightarrow> u64) \<Rightarrow> ('k, 'v) MultiMap \<Rightarrow> ('k, 'v) MultiMap option" where
  "MultiMap_grow hash M =
     (if mm_hashBufferUseCount M = mm_nextHashBufferGrowth M then
        (let newHashTableSize = array_count (mm_hashBuffer M) * 2 in
         map_option (\<lambda>buf. M\<lparr>mm_hashBuffer := buf, mm_nextHashBufferGrowth := mm_nextHashBufferGrowth M * 2\<rparr>)
           (rehash_loop hash (replicate (unat newHashTableSize) SentinelHash) (head_entries (mm_nodeBuffer M))))
      else Some M)"

definition set_next :: "('k \<times> 'v \<times> NextNode) list \<Rightarrow> u64 \<Rightarrow> NextNode \<Rightarrow> ('k \<times> 'v \<times> NextNode) list" where
  "set_next nodes i next = nodes[unat i := (fst (nodes ! unat i), fst (snd (nodes ! unat i)), next)]"

text \<open>Appending to the chain of a key that is present.\<close>

definition append_duplicate :: "('k \<times> 'v \<times> NextNode) list \<Rightarrow> u64 \<Rightarrow> 'k \<times> 'v \<Rightarrow> ('k \<times> 'v \<times> NextNode) list option" where
  "append_duplicate nodes i v =
     Option.bind (chain_tail nodes i) (\<lambda>t.
     Option.bind (array_at nodes t) (\<lambda>tail.
       let tailNode = snd (snd tail); here = ucast (array_count nodes);
           new = (fst v, snd v, makeDuplicateTailNode) in
       if \<not> hasAnyDuplicates tailNode then
         Some (set_next nodes t (tailNode\<lparr>isDuplicateHead := True, nextIndex := here\<rparr>) @ [new])
       else if isDuplicateTail tailNode then
         Some (set_next nodes t (tailNode\<lparr>isDuplicateTail := False, isDuplicateEntry := True, nextIndex := here\<rparr>) @ [new])
       else None))"

definition mm_test :: "('k \<Rightarrow> 'k \<Rightarrow> bool) \<Rightarrow> ('k \<times> 'v \<times> NextNode) list \<Rightarrow> 'k \<Rightarrow> u64 \<Rightarrow> bool option" where
  "mm_test equal nodes key i = map_option (\<lambda>node. equal (fst node) key) (array_at nodes i)"

definition MultiMap_insert ::
    "('k \<Rightarrow> u64) \<Rightarrow> ('k \<Rightarrow> 'k \<Rightarrow> bool) \<Rightarrow> ('k, 'v) MultiMap \<Rightarrow> 'k \<times> 'v \<Rightarrow> ('k, 'v) MultiMap option" where
  "MultiMap_insert hash equal M0 v =
     Option.bind (MultiMap_grow hash M0) (\<lambda>M.
     let nodes = mm_nodeBuffer M in
     Option.bind (probe (mm_test equal nodes (fst v)) (mm_hashBuffer M) (hash (fst v))) (\<lambda>r.
       case r of
         Vacant s \<Rightarrow>
           Some (M\<lparr>mm_hashBuffer := (mm_hashBuffer M)[unat s := array_count nodes],
                   mm_hashBufferUseCount := mm_hashBufferUseCount M + 1,
                   mm_nodeBuffer := nodes @ [(fst v, snd v, makeNoDuplicates)]\<rparr>)
       | Found i \<Rightarrow> map_option (\<lambda>nodes'. M\<lparr>mm_nodeBuffer := nodes'\<rparr>) (append_duplicate nodes i v)))"

text \<open>The values of the chain that starts at a node, as \<open>forEachEntry\<close> collects them.\<close>

partial_function (option) chain_values :: "('k \<times> 'v \<times> NextNode) list \<Rightarrow> u64 \<Rightarrow> 'v list option" where
  "chain_values nodes i =
     Option.bind (array_at nodes i) (\<lambda>node.
       if hasMoreDuplicates (snd (snd node))
       then Option.bind (chain_values nodes (ucast (nextIndex (snd (snd node))))) (\<lambda>vs. Some (fst (snd node) # vs))
       else Some [fst (snd node)])"

definition entry_at :: "('k \<times> 'v \<times> NextNode) list \<Rightarrow> nat \<Rightarrow> ('k \<times> 'v list) list option" where
  "entry_at nodes i =
     (let (key, val, next) = nodes ! i in
      if \<not> hasAnyDuplicates next then Some [(key, [val])]
      else if \<not> isDuplicateHead next then Some []
      else map_option (\<lambda>vs. [(key, vs)]) (chain_values nodes (of_nat i)))"

text \<open>The calls \<open>forEachEntry\<close> makes to its handler, in order.\<close>

fun entries_from :: "('k \<times> 'v \<times> NextNode) list \<Rightarrow> nat list \<Rightarrow> ('k \<times> 'v list) list option" where
  "entries_from nodes [] = Some []"
| "entries_from nodes (i # is) =
     Option.bind (entry_at nodes i) (\<lambda>e. Option.bind (entries_from nodes is) (\<lambda>es. Some (e @ es)))"

definition MultiMap_forEachEntry :: "('k, 'v) MultiMap \<Rightarrow> ('k \<times> 'v list) list option" where
  "MultiMap_forEachEntry M = entries_from (mm_nodeBuffer M) [0 ..< length (mm_nodeBuffer M)]"

section \<open>Quadratic probing visits every slot\<close>

definition triangle :: "nat \<Rightarrow> nat" where
  "triangle i = i * (i + 1) div 2"

lemma triangle_Suc: "triangle (Suc i) = triangle i + Suc i"
  by (simp add: triangle_def)

lemma triangle_0 [simp]: "triangle 0 = 0"
  by (simp add: triangle_def)

lemma double_triangle: "2 * triangle i = i * (i + 1)"
  by (simp add: triangle_def)

lemma triangle_mono: "i \<le> j \<Longrightarrow> triangle i \<le> triangle j"
  unfolding triangle_def by (intro div_le_mono mult_le_mono) auto

lemma triangle_inj:
  assumes "i < j" and "j < 2 ^ n"
  shows "triangle i mod 2 ^ n \<noteq> triangle j mod 2 ^ n"
proof
  assume "triangle i mod 2 ^ n = triangle j mod 2 ^ n"
  moreover have "triangle i \<le> triangle j" using assms(1) by (intro triangle_mono) simp
  ultimately have "2 ^ n dvd triangle j - triangle i" by (metis mod_eq_dvd_iff_nat)
  then have "2 * 2 ^ n dvd 2 * (triangle j - triangle i)" by simp
  also have "2 * (triangle j - triangle i) = (j - i) * (j + i + 1)"
  proof -
    obtain d where "j = i + d" using assms(1) less_imp_add_positive by blast
    then show ?thesis
      unfolding diff_mult_distrib2 double_triangle by (simp add: algebra_simps)
  qed
  finally have dvd: "2 ^ Suc n dvd (j - i) * (j + i + 1)" by simp
  show False
  proof (cases "odd (j - i)")
    case True
    then have "coprime (2 ^ Suc n) (j - i)" by simp
    with dvd have "2 ^ Suc n dvd j + i + 1" by (simp only: coprime_dvd_mult_right_iff)
    then have "2 ^ Suc n \<le> j + i + 1" by (rule dvd_imp_le) simp
    with assms show False by simp
  next
    case False
    then have "odd (j + i + 1)" using assms(1) by simp
    then have "coprime (2 ^ Suc n) (j + i + 1)" by simp
    with dvd have "2 ^ Suc n dvd j - i" by (simp only: coprime_dvd_mult_left_iff)
    then have "2 ^ Suc n \<le> j - i" using assms(1) by (intro dvd_imp_le) simp_all
    with assms show False by simp
  qed
qed

text \<open>The slot of the \<open>i\<close>-th probe in a table of \<open>2^n\<close> slots.\<close>

definition slot :: "nat \<Rightarrow> u64 \<Rightarrow> nat \<Rightarrow> nat" where
  "slot n h i = (unat h + triangle i) mod 2 ^ n"

lemma slot_less [simp]: "slot n h i < 2 ^ n"
  by (simp add: slot_def)

lemma slot_surj:
  assumes "s < 2 ^ n"
  shows "\<exists>i<2 ^ n. slot n h i = s"
proof -
  have "inj_on (slot n h) {..<2 ^ n}"
  proof (rule linorder_inj_onI')
    fix i j :: nat
    assume "i \<in> {..<2 ^ n}" "j \<in> {..<2 ^ n}" "i < j"
    then have "triangle i mod 2 ^ n \<noteq> triangle j mod 2 ^ n" by (intro triangle_inj) auto
    moreover have le: "triangle i \<le> triangle j" using \<open>i < j\<close> by (intro triangle_mono) simp
    ultimately have "\<not> 2 ^ n dvd triangle j - triangle i" using mod_eq_dvd_iff_nat [OF le] by metis
    with le show "slot n h i \<noteq> slot n h j"
      unfolding slot_def using mod_eq_dvd_iff_nat [of "unat h + triangle i" "unat h + triangle j" "2 ^ n"] by auto
  qed
  then have "slot n h ` {..<2 ^ n} = {..<2 ^ n}" by (intro endo_inj_surj) auto
  with assms show ?thesis by (metis (no_types) imageE lessThan_iff)
qed

section \<open>Tables\<close>

lemma unat_and_count:
  assumes "length buf = 2 ^ n" and "n < 64"
  shows "unat (w AND (array_count buf - 1)) = unat w mod 2 ^ n"
proof -
  have "array_count buf - 1 = (mask n :: u64)"
    using assms by (simp add: array_count_def mask_eq_exp_minus_1)
  then have "w AND (array_count buf - 1) = take_bit n w" by (simp add: take_bit_eq_mask)
  moreover have "unat (take_bit n w) = take_bit n (unat w)" by (rule unsigned_take_bit_eq)
  ultimately show ?thesis by (simp only: take_bit_eq_mod)
qed

lemma slot_step:
  assumes "length buf = 2 ^ n" and "n < 64"
  shows "(of_nat (slot n h i) + of_nat (Suc i)) AND (array_count buf - 1) = (of_nat (slot n h (Suc i)) :: u64)"
proof -
  have dvd: "2 ^ n dvd (2 ^ 64 :: nat)" using assms(2) by (intro le_imp_power_dvd) simp
  have "unat (of_nat (slot n h i + Suc i) :: u64) = (slot n h i + Suc i) mod 2 ^ 64"
    by (simp only: unat_of_nat take_bit_eq_mod) simp
  then have "unat (of_nat (slot n h i) + of_nat (Suc i) :: u64) = (slot n h i + Suc i) mod 2 ^ 64"
    by (simp only: of_nat_add)
  then have "unat ((of_nat (slot n h i) + of_nat (Suc i)) AND (array_count buf - 1) :: u64) = (slot n h i + Suc i) mod 2 ^ n"
    unfolding unat_and_count [OF assms] using mod_mod_cancel [OF dvd] by simp
  also have "\<dots> = slot n h (Suc i)" unfolding slot_def triangle_Suc by (simp only: mod_add_left_eq add.assoc)
  finally show ?thesis by (metis of_nat_unat ucast_id)
qed

lemma unat_slot: "n < 64 \<Longrightarrow> unat (of_nat (slot n h i) :: u64) = slot n h i"
proof -
  assume "n < 64"
  then have "(2 :: nat) ^ n \<le> 2 ^ 64" by (intro power_increasing) simp_all
  then have "slot n h i < 2 ^ 64" by (rule less_le_trans [OF slot_less])
  then show ?thesis by (simp add: unat_of_nat take_bit_nat_eq_self)
qed

lemma array_at_slot: "length buf = 2 ^ n \<Longrightarrow> n < 64 \<Longrightarrow> array_at buf (of_nat (slot n h i)) = Some (buf ! slot n h i)"
  by (simp add: array_at_def unat_slot)

lemma probe_run:
  assumes buf: "length buf = 2 ^ n" "n < 64"
    and busy: "\<And>j. j < k \<Longrightarrow> buf ! slot n h j \<noteq> SentinelHash \<and> hit (buf ! slot n h j) = Some False"
  shows "probe hit buf h = probe_loop hit buf (of_nat (slot n h k)) (of_nat (Suc k))"
  using busy
proof (induction k)
  case 0
  have "h AND (array_count buf - 1) = of_nat (slot n h 0)"
    using unat_and_count [OF buf, of h] by (metis slot_def triangle_0 add.right_neutral of_nat_unat ucast_id)
  then show ?case by (simp add: probe_def)
next
  case (Suc k)
  from Suc have "probe hit buf h = probe_loop hit buf (of_nat (slot n h k)) (of_nat (Suc k))" by simp
  also have "\<dots> = probe_loop hit buf ((of_nat (slot n h k) + of_nat (Suc k)) AND (array_count buf - 1)) (of_nat (Suc k) + 1)"
    using Suc.prems [of k] by (subst probe_loop.simps) (simp add: array_at_slot buf)
  also have "\<dots> = probe_loop hit buf (of_nat (slot n h (Suc k))) (of_nat (Suc (Suc k)))"
    unfolding slot_step [OF buf] by (simp add: add.commute)
  finally show ?case .
qed

lemma probe_Vacant:
  assumes "length buf = 2 ^ n" "n < 64"
    and "\<And>j. j < k \<Longrightarrow> buf ! slot n h j \<noteq> SentinelHash \<and> hit (buf ! slot n h j) = Some False"
    and "buf ! slot n h k = SentinelHash"
  shows "probe hit buf h = Some (Vacant (of_nat (slot n h k)))"
  using assms by (simp add: probe_run [of buf n k h hit] probe_loop.simps array_at_slot)

lemma probe_Found:
  assumes "length buf = 2 ^ n" "n < 64"
    and "\<And>j. j < k \<Longrightarrow> buf ! slot n h j \<noteq> SentinelHash \<and> hit (buf ! slot n h j) = Some False"
    and "buf ! slot n h k \<noteq> SentinelHash" and "hit (buf ! slot n h k) = Some True"
  shows "probe hit buf h = Some (Found (buf ! slot n h k))"
  using assms by (simp add: probe_run [of buf n k h hit] probe_loop.simps array_at_slot)

text \<open>
  A table holds a list of keys with their node indices: every slot in use holds one of the indices,
  and each key's index is met on the key's probe sequence before a free slot.
\<close>

definition on_probe_path :: "('k \<Rightarrow> u64) \<Rightarrow> nat \<Rightarrow> u64 list \<Rightarrow> 'k \<times> u64 \<Rightarrow> bool" where
  "on_probe_path hash n buf e \<longleftrightarrow>
     (\<exists>i. buf ! slot n (hash (fst e)) i = snd e \<and> (\<forall>j<i. buf ! slot n (hash (fst e)) j \<noteq> SentinelHash))"

definition table_ok :: "('k \<Rightarrow> u64) \<Rightarrow> nat \<Rightarrow> u64 list \<Rightarrow> ('k \<times> u64) list \<Rightarrow> bool" where
  "table_ok hash n buf E \<longleftrightarrow>
     length buf = 2 ^ n \<and> n < 64 \<and> distinct (map fst E) \<and> distinct (map snd E) \<and> SentinelHash \<notin> snd ` set E
     \<and> (\<forall>s<2 ^ n. buf ! s \<noteq> SentinelHash \<longrightarrow> buf ! s \<in> snd ` set E)
     \<and> length (filter (\<lambda>x. x \<noteq> SentinelHash) buf) = length E
     \<and> (\<forall>e\<in>set E. on_probe_path hash n buf e)"

lemma table_ok_empty: "n < 64 \<Longrightarrow> table_ok hash n (replicate (2 ^ n) SentinelHash) []"
  by (simp add: table_ok_def)

lemma table_slot: "table_ok hash n buf E \<Longrightarrow> buf ! slot n h j \<noteq> SentinelHash \<Longrightarrow> \<exists>e\<in>set E. snd e = buf ! slot n h j"
proof -
  assume "table_ok hash n buf E" "buf ! slot n h j \<noteq> SentinelHash"
  then have "buf ! slot n h j \<in> snd ` set E" using slot_less [of n h j] unfolding table_ok_def by blast
  then show ?thesis by (metis imageE)
qed

lemma table_vacancy:
  assumes ok: "table_ok hash n buf E" and free: "length E < 2 ^ n"
  obtains k where "buf ! slot n h k = SentinelHash" and "\<And>j. j < k \<Longrightarrow> buf ! slot n h j \<noteq> SentinelHash"
proof -
  have "\<exists>s<2 ^ n. buf ! s = SentinelHash"
  proof (rule ccontr)
    assume "\<not> (\<exists>s<2 ^ n. buf ! s = SentinelHash)"
    then have "filter (\<lambda>x. x \<noteq> SentinelHash) buf = buf"
      using ok by (auto simp: filter_id_conv in_set_conv_nth table_ok_def)
    with ok free show False by (simp add: table_ok_def)
  qed
  then obtain i where "buf ! slot n h i = SentinelHash" using slot_surj by metis
  then have "buf ! slot n h (LEAST i. buf ! slot n h i = SentinelHash) = SentinelHash" by (rule LeastI)
  then show ?thesis using not_less_Least that by blast
qed

lemma probe_absent:
  assumes ok: "table_ok hash n buf E" and free: "length E < 2 ^ n" and no: "\<And>e. e \<in> set E \<Longrightarrow> hit (snd e) = Some False"
  shows "\<exists>k. probe hit buf h = Some (Vacant (of_nat (slot n h k))) \<and> buf ! slot n h k = SentinelHash
    \<and> (\<forall>j<k. buf ! slot n h j \<noteq> SentinelHash)"
proof -
  obtain k where k: "buf ! slot n h k = SentinelHash" "\<And>j. j < k \<Longrightarrow> buf ! slot n h j \<noteq> SentinelHash"
    using table_vacancy [OF ok free] by blast
  have "hit (buf ! slot n h j) = Some False" if "j < k" for j
    using table_slot [OF ok k(2) [OF that]] no by auto
  with k ok have "probe hit buf h = Some (Vacant (of_nat (slot n h k)))"
    by (intro probe_Vacant) (simp_all add: table_ok_def)
  with k show ?thesis by blast
qed

lemma probe_present:
  assumes ok: "table_ok hash n buf E" and e: "(key, i) \<in> set E"
    and hit: "\<And>e. e \<in> set E \<Longrightarrow> hit (snd e) = Some (fst e = key)"
  shows "probe hit buf (hash key) = Some (Found i)"
proof -
  let ?P = "\<lambda>j. buf ! slot n (hash key) j = i"
  from ok e have "on_probe_path hash n buf (key, i)" by (simp add: table_ok_def)
  then obtain k where k: "?P k" "\<forall>j<k. buf ! slot n (hash key) j \<noteq> SentinelHash" by (auto simp: on_probe_path_def)
  define k' where "k' = (LEAST j. ?P j)"
  have k': "?P k'" "k' \<le> k" unfolding k'_def using k(1) by (rule LeastI, rule Least_le)
  have "buf ! slot n (hash key) j \<noteq> SentinelHash \<and> hit (buf ! slot n (hash key) j) = Some False" if "j < k'" for j
  proof -
    have busy: "buf ! slot n (hash key) j \<noteq> SentinelHash" using k(2) k'(2) that by simp
    with ok obtain e' where e': "e' \<in> set E" "snd e' = buf ! slot n (hash key) j" by (auto dest: table_slot)
    have "snd e' \<noteq> i" using not_less_Least that e'(2) unfolding k'_def by metis
    moreover have "fst e' = key \<Longrightarrow> snd e' = i"
      using ok e e'(1) by (metis table_ok_def eq_key_imp_eq_value prod.collapse)
    ultimately show ?thesis using hit [OF e'(1)] e'(2) busy by auto
  qed
  moreover have "i \<noteq> SentinelHash" using ok e by (force simp: table_ok_def)
  moreover have "hit i = Some True" using hit [OF e] by simp
  ultimately show ?thesis
    using ok k'(1) probe_Found [of buf n k' "hash key" hit] by (simp add: table_ok_def)
qed

lemma filter_update_length:
  "s < length xs \<Longrightarrow> \<not> P (xs ! s) \<Longrightarrow> P y \<Longrightarrow> length (filter P (xs[s := y])) = Suc (length (filter P xs))"
  by (induction xs arbitrary: s) (auto split: nat.splits)

lemma table_add:
  assumes ok: "table_ok hash n buf E" and k: "buf ! slot n (hash key) k = SentinelHash"
    and busy: "\<And>j. j < k \<Longrightarrow> buf ! slot n (hash key) j \<noteq> SentinelHash"
    and new: "key \<notin> fst ` set E" "i \<notin> snd ` set E" "i \<noteq> SentinelHash"
  shows "table_ok hash n (buf[slot n (hash key) k := i]) (E @ [(key, i)])"
proof -
  let ?s = "slot n (hash key) k"
  let ?buf = "buf[?s := i]"
  have len: "length buf = 2 ^ n" using ok by (simp add: table_ok_def)
  then have s: "?s < length buf" by simp
  have keep: "?buf ! t \<noteq> SentinelHash" if "buf ! t \<noteq> SentinelHash" for t
    using that new(3) s by (cases "t = ?s") simp_all
  have "on_probe_path hash n ?buf e" if "e \<in> set E" for e
  proof -
    have "on_probe_path hash n buf e" using ok that by (simp add: table_ok_def)
    then obtain j where j: "buf ! slot n (hash (fst e)) j = snd e" "\<forall>j'<j. buf ! slot n (hash (fst e)) j' \<noteq> SentinelHash"
      by (auto simp: on_probe_path_def)
    moreover have "snd e \<noteq> SentinelHash" using ok that by (force simp: table_ok_def)
    ultimately have "?buf ! slot n (hash (fst e)) j = snd e" using k by (metis nth_list_update_neq)
    with j(2) keep show ?thesis by (auto simp: on_probe_path_def)
  qed
  moreover have "on_probe_path hash n ?buf (key, i)"
    unfolding on_probe_path_def using s busy keep by (intro exI [of _ k]) simp
  moreover have "?buf ! t \<in> snd ` set (E @ [(key, i)])" if "t < 2 ^ n" "?buf ! t \<noteq> SentinelHash" for t
    using ok that s by (cases "t = ?s") (auto simp: table_ok_def)
  ultimately show ?thesis
    using ok new s k len filter_update_length [of ?s buf "\<lambda>x. x \<noteq> SentinelHash" i] by (auto simp: table_ok_def)
qed

lemma rehash_ok:
  assumes "table_ok hash n buf E" and "distinct (map fst (E @ F))" and "distinct (map snd (E @ F))"
    and "SentinelHash \<notin> snd ` set F" and "length (E @ F) \<le> 2 ^ n"
  shows "\<exists>buf'. rehash_loop hash buf F = Some buf' \<and> table_ok hash n buf' (E @ F)"
  using assms
proof (induction F arbitrary: buf E)
  case (Cons e F)
  obtain key i where e: "e = (key, i)" by (cases e)
  obtain k where k: "probe (\<lambda>n. Some False) buf (hash key) = Some (Vacant (of_nat (slot n (hash key) k)))"
    "buf ! slot n (hash key) k = SentinelHash" "\<And>j. j < k \<Longrightarrow> buf ! slot n (hash key) j \<noteq> SentinelHash"
    using probe_absent [OF Cons.prems(1), of "\<lambda>n. Some False" "hash key"] Cons.prems(5) by auto
  have "table_ok hash n (buf[slot n (hash key) k := i]) (E @ [(key, i)])"
    using Cons.prems k(2,3) by (intro table_add) (auto simp: e)
  from Cons.IH [OF this] Cons.prems obtain buf' where
    "rehash_loop hash (buf[slot n (hash key) k := i]) F = Some buf'" "table_ok hash n buf' (E @ e # F)"
    by (auto simp: e)
  moreover have "n < 64" using Cons.prems(1) by (simp add: table_ok_def)
  ultimately show ?case using k(1) by (simp add: e unat_slot)
qed simp

section \<open>Map implements finite maps\<close>

lemma node_entries_simps [simp]: "map fst (node_entries keys) = keys" "length (node_entries keys) = length keys"
  "map snd (node_entries keys) = map of_nat [0 ..< length keys]"
  by (simp_all add: node_entries_def comp_def map_nth)

lemma fst_node_entries [simp]: "fst ` set (node_entries keys) = set keys"
  by (metis node_entries_simps(1) set_map)

lemma snd_node_entries: "snd ` set (node_entries keys) = of_nat ` {..<length keys}"
  by (metis node_entries_simps(3) set_map set_upt atLeast0LessThan)

lemma node_entries_append: "node_entries (keys @ [key]) = node_entries keys @ [(key, of_nat (length keys))]"
  by (simp add: node_entries_def nth_append)

lemma of_nat_u64_eq:
  assumes "a < 2 ^ 64" and "b < 2 ^ 64"
  shows "of_nat a = (of_nat b :: u64) \<longleftrightarrow> a = b"
proof -
  have "unat (of_nat a :: u64) = a" "unat (of_nat b :: u64) = b" using assms by (simp_all add: unat_of_nat_u64)
  then show ?thesis by metis
qed

lemma distinct_of_nat: "n < 2 ^ 63 \<Longrightarrow> distinct (map (of_nat :: nat \<Rightarrow> u64) [0 ..< n])"
  by (auto simp: distinct_map inj_on_def of_nat_u64_eq)

lemma of_nat_not_sentinel: "i < 2 ^ 63 \<Longrightarrow> of_nat i \<noteq> SentinelHash"
proof
  assume "i < 2 ^ 63" "of_nat i = SentinelHash"
  then have "unat (of_nat i :: u64) = unat SentinelHash" by simp
  with \<open>i < 2 ^ 63\<close> show False by (simp add: unat_of_nat_u64 unsigned_minus_1_eq_mask mask_eq_exp_minus_1)
qed

lemma node_entries_index:
  assumes "e \<in> set (node_entries (map fst nodes))" and "length nodes < 2 ^ 63"
  shows "unat (snd e) < length nodes" and "fst (nodes ! unat (snd e)) = fst e"
  using assms by (auto simp: node_entries_def unat_of_nat_u64)

text \<open>The capacity is \<open>2^n\<close>, the table grows when three quarters of it are used.\<close>

definition sized_table :: "('k \<Rightarrow> u64) \<Rightarrow> nat \<Rightarrow> u64 list \<Rightarrow> u64 \<Rightarrow> u64 \<Rightarrow> ('k \<times> u64) list \<Rightarrow> bool" where
  "sized_table hash n buf used growth E \<longleftrightarrow> 2 \<le> n \<and> n \<le> 61 \<and> table_ok hash n buf E
     \<and> used = of_nat (length E) \<and> growth = of_nat (3 * 2 ^ (n - 2)) \<and> length E \<le> 3 * 2 ^ (n - 2)"

lemma sized_table_bounds:
  assumes "sized_table hash n buf used growth E"
  shows "length E < 2 ^ n" "length E < 2 ^ 63"
proof -
  obtain k where n: "n = Suc (Suc k)" using assms by (auto simp: sized_table_def numeral_2_eq_2 dest: le_Suc_ex)
  have len: "length E \<le> 3 * 2 ^ k" using assms by (simp add: sized_table_def n)
  have "3 * 2 ^ k < (2 ^ n :: nat)" by (simp add: n)
  with len show less: "length E < 2 ^ n" by linarith
  have "(2 :: nat) ^ n \<le> 2 ^ 63" using assms by (intro power_increasing) (simp_all add: sized_table_def)
  with less show "length E < 2 ^ 63" by linarith
qed

lemma sized_table_new: "sized_table hash 10 (replicate 1024 SentinelHash) 0 768 []"
  using table_ok_empty [of 10 hash] by (simp add: sized_table_def)

lemma sized_table_not_full:
  assumes "sized_table hash n buf used growth E" and "used \<noteq> growth"
  shows "length E < 3 * 2 ^ (n - 2)"
  using assms by (cases "length E = 3 * 2 ^ (n - 2)") (simp_all add: sized_table_def)

lemma sized_table_grow:
  assumes n: "sized_table hash n buf used growth E" and full: "used = growth" and small: "length E < 2 ^ 58"
  shows "\<exists>buf'. rehash_loop hash (replicate (unat (array_count buf * 2)) SentinelHash) E = Some buf'
    \<and> sized_table hash (Suc n) buf' used (growth * 2) E \<and> length E < 3 * 2 ^ (Suc n - 2)"
proof -
  have b: "2 \<le> n" "n \<le> 61" and ok: "table_ok hash n buf E" using n by (simp_all add: sized_table_def)
  have "(2 :: nat) ^ (n - 2) \<le> 2 ^ 59" using b by (intro power_increasing) simp_all
  then have p: "3 * 2 ^ (n - 2) < (2 ^ 64 :: nat)" by simp
  have "used = of_nat (length E)" "growth = of_nat (3 * 2 ^ (n - 2))" using n unfolding sized_table_def by blast+
  with full have "of_nat (length E) = (of_nat (3 * 2 ^ (n - 2)) :: u64)" by metis
  then have len: "length E = 3 * 2 ^ (n - 2)"
    using p sized_table_bounds(2) [OF n] of_nat_u64_eq [of "length E" "3 * 2 ^ (n - 2)"] by simp
  have "n < 60"
  proof (rule ccontr)
    assume "\<not> n < 60"
    then have "(2 :: nat) ^ 58 \<le> 2 ^ (n - 2)" by (intro power_increasing) simp_all
    with len small show False by simp
  qed
  have "length buf = 2 ^ n" using ok by (simp add: table_ok_def)
  then have "array_count buf * 2 = of_nat (2 ^ Suc n)" by (simp add: array_count_def)
  moreover have "(2 :: nat) ^ Suc n < 2 ^ 64" using \<open>n < 60\<close> by (intro power_strict_increasing) simp_all
  ultimately have size: "unat (array_count buf * 2) = 2 ^ Suc n"
    using unat_of_nat_u64 [of "2 ^ Suc n"] by simp
  have dist: "distinct (map fst ([] @ E))" "distinct (map snd ([] @ E))" "SentinelHash \<notin> snd ` set E"
    using ok by (simp_all add: table_ok_def)
  obtain buf' where buf': "rehash_loop hash (replicate (2 ^ Suc n) SentinelHash) E = Some buf'" "table_ok hash (Suc n) buf' E"
    using rehash_ok [OF table_ok_empty dist, of "Suc n" hash] sized_table_bounds(1) [OF n] \<open>n < 60\<close> by auto
  have dbl: "(2 :: nat) ^ (Suc n - 2) = 2 * 2 ^ (n - 2)" unfolding Suc_diff_le [OF b(1)] by simp
  have "sized_table hash (Suc n) buf' used (growth * 2) E"
    using n buf'(2) \<open>n < 60\<close> len unfolding sized_table_def dbl by (auto simp: algebra_simps)
  with buf'(1) size len dbl show ?thesis by (simp del: replicate.simps)
qed

lemma sized_table_add:
  assumes n: "sized_table hash n buf used growth E" and room: "length E < 3 * 2 ^ (n - 2)"
    and k: "buf ! slot n (hash key) k = SentinelHash" "\<forall>j<k. buf ! slot n (hash key) j \<noteq> SentinelHash"
    and new: "key \<notin> fst ` set E" "i \<notin> snd ` set E" "i \<noteq> SentinelHash"
  shows "sized_table hash n (buf[slot n (hash key) k := i]) (used + 1) growth (E @ [(key, i)])"
proof -
  have "table_ok hash n (buf[slot n (hash key) k := i]) (E @ [(key, i)])"
    using n k new by (intro table_add) (auto simp: sized_table_def)
  with n room show ?thesis by (simp add: sized_table_def add.commute)
qed

definition Map_size_inv :: "('k \<Rightarrow> u64) \<Rightarrow> nat \<Rightarrow> ('k, 'v) Map \<Rightarrow> bool" where
  "Map_size_inv hash n M \<longleftrightarrow>
     sized_table hash n (hashBuffer M) (hashBufferUseCount M) (nextHashBufferGrowth M) (node_entries (map fst (nodeBuffer M)))"

definition Map_inv :: "('k \<Rightarrow> u64) \<Rightarrow> ('k, 'v) Map \<Rightarrow> bool" where
  "Map_inv hash M \<longleftrightarrow> (\<exists>n. Map_size_inv hash n M)"

lemma Map_size_table: "Map_size_inv hash n M \<Longrightarrow> table_ok hash n (hashBuffer M) (node_entries (map fst (nodeBuffer M)))"
  by (simp add: Map_size_inv_def sized_table_def)

lemma Map_size_bounds:
  assumes "Map_size_inv hash n M"
  shows "length (nodeBuffer M) < 2 ^ n" "length (nodeBuffer M) < 2 ^ 63"
  using sized_table_bounds [of hash n _ _ _ "node_entries (map fst (nodeBuffer M))"] assms by (auto simp: Map_size_inv_def)

lemma Map_new_inv: "Map_inv hash Map_new"
  unfolding Map_inv_def Map_size_inv_def Map_new_def using sized_table_new by (intro exI [of _ 10]) (simp add: node_entries_def)

lemma Map_grow_ok:
  assumes "Map_inv hash M" and small: "length (nodeBuffer M) < 2 ^ 58"
  obtains M' n where "Map_grow hash M = Some M'" and "Map_size_inv hash n M'" and "nodeBuffer M' = nodeBuffer M"
    and "length (nodeBuffer M) < 3 * 2 ^ (n - 2)"
proof -
  from assms(1) obtain n where n: "Map_size_inv hash n M" by (auto simp: Map_inv_def)
  show thesis
  proof (cases "hashBufferUseCount M = nextHashBufferGrowth M")
    case False
    with n show thesis
      using sized_table_not_full [OF n [unfolded Map_size_inv_def] False] by (intro that [of M n]) (simp_all add: Map_grow_def)
  next
    case True
    from sized_table_grow [OF n [unfolded Map_size_inv_def] True] small True show thesis
      by (auto simp: Map_grow_def Map_size_inv_def intro!: that [of _ "Suc n"])
  qed
qed

text \<open>
  What \<open>Map\<close> asks of its template arguments: \<open>IsEqual\<close> is equality (then equal keys have equal
  hashes). \<open>EqualUInt64\<close>, \<open>EqualPointer\<close> and \<open>EqualCString\<close> on the strings they compare are instances, for
  any hash function.
\<close>

definition EqualUInt64 :: "u64 \<Rightarrow> u64 \<Rightarrow> bool" where
  "EqualUInt64 a b \<longleftrightarrow> a = b"

definition EqualPointer :: "nat \<Rightarrow> nat \<Rightarrow> bool" where
  "EqualPointer s1 s2 \<longleftrightarrow> s1 = s2"

definition EqualCString :: "string \<Rightarrow> string \<Rightarrow> bool" where
  "EqualCString s1 s2 \<longleftrightarrow> s1 = s2"

locale hash_traits =
  fixes hash :: "'k \<Rightarrow> u64" and equal :: "'k \<Rightarrow> 'k \<Rightarrow> bool"
  assumes equal_iff: "equal a b \<longleftrightarrow> a = b"
begin

lemma key_test_entry:
  assumes "e \<in> set (node_entries (map fst nodes))" and "length nodes < 2 ^ 63"
  shows "key_test equal nodes key (snd e) = Some (fst e = key)"
  using node_entries_index [OF assms] by (simp add: key_test_def array_at_def equal_iff)

lemma probe_key:
  assumes n: "Map_size_inv hash n M"
  shows "(\<exists>i<length (nodeBuffer M). fst (nodeBuffer M ! i) = key \<and>
       probe (key_test equal (nodeBuffer M) key) (hashBuffer M) (hash key) = Some (Found (of_nat i)))
     \<or> (key \<notin> fst ` set (nodeBuffer M) \<and> (\<exists>k. probe (key_test equal (nodeBuffer M) key) (hashBuffer M) (hash key)
          = Some (Vacant (of_nat (slot n (hash key) k))) \<and> hashBuffer M ! slot n (hash key) k = SentinelHash
          \<and> (\<forall>j<k. hashBuffer M ! slot n (hash key) j \<noteq> SentinelHash)))"
proof (cases "key \<in> fst ` set (nodeBuffer M)")
  case True
  then obtain i where i: "i < length (nodeBuffer M)" "fst (nodeBuffer M ! i) = key" by (auto simp: in_set_conv_nth)
  then have "(key, of_nat i) \<in> set (node_entries (map fst (nodeBuffer M)))" by (auto simp: node_entries_def)
  moreover have "table_ok hash n (hashBuffer M) (node_entries (map fst (nodeBuffer M)))" using n by (rule Map_size_table)
  ultimately have "probe (key_test equal (nodeBuffer M) key) (hashBuffer M) (hash key) = Some (Found (of_nat i))"
    using key_test_entry Map_size_bounds(2) [OF n] by (intro probe_present) auto
  with i show ?thesis by blast
next
  case False
  have no: "key_test equal (nodeBuffer M) key (snd e) = Some False" if e: "e \<in> set (node_entries (map fst (nodeBuffer M)))" for e
  proof -
    have "fst e \<in> fst ` set (node_entries (map fst (nodeBuffer M)))" using e by (rule imageI)
    then have "fst e \<noteq> key" using False by auto
    with key_test_entry [OF e Map_size_bounds(2) [OF n]] show ?thesis by simp
  qed
  have ok: "table_ok hash n (hashBuffer M) (node_entries (map fst (nodeBuffer M)))" using n by (rule Map_size_table)
  have free: "length (node_entries (map fst (nodeBuffer M))) < 2 ^ n" using Map_size_bounds(1) [OF n] by simp
  from probe_absent [OF ok free, of "key_test equal (nodeBuffer M) key", OF no, of "hash key"] False show ?thesis by simp
qed

lemma find_correct:
  assumes "Map_inv hash M"
  shows "\<exists>r. Map_find hash equal M key = Some r \<and>
    (case r of None \<Rightarrow> map_of (nodeBuffer M) key = None
     | Some i \<Rightarrow> unat i < length (nodeBuffer M) \<and> fst (nodeBuffer M ! unat i) = key
                \<and> map_of (nodeBuffer M) key = Some (snd (nodeBuffer M ! unat i)))"
proof -
  obtain n where n: "Map_size_inv hash n M" using assms by (auto simp: Map_inv_def)
  from probe_key [OF n, of key] show ?thesis
  proof (elim disjE exE conjE)
    fix i assume i: "i < length (nodeBuffer M)" "fst (nodeBuffer M ! i) = key"
      "probe (key_test equal (nodeBuffer M) key) (hashBuffer M) (hash key) = Some (Found (of_nat i))"
    have "distinct (map fst (nodeBuffer M))" using Map_size_table [OF n] by (simp add: table_ok_def)
    moreover have "nodeBuffer M ! i \<in> set (nodeBuffer M)" using i(1) by simp
    ultimately have "map_of (nodeBuffer M) key = Some (snd (nodeBuffer M ! i))"
      using i(2) by (metis map_of_is_SomeI prod.collapse)
    moreover have "unat (of_nat i :: u64) = i" using i(1) Map_size_bounds(2) [OF n] by (simp add: unat_of_nat_u64)
    ultimately show ?thesis using i by (simp add: Map_find_def)
  next
    fix k assume "key \<notin> fst ` set (nodeBuffer M)" and "probe (key_test equal (nodeBuffer M) key) (hashBuffer M) (hash key)
          = Some (Vacant (of_nat (slot n (hash key) k)))"
    then show ?thesis by (simp add: Map_find_def map_of_eq_None_iff)
  qed
qed

lemma insert_correct:
  assumes "Map_inv hash M" and "length (nodeBuffer M) < 2 ^ 58"
  shows "\<exists>M' i inserted. Map_insert hash equal M (key, val) = Some (M', i, inserted) \<and> Map_inv hash M'
    \<and> inserted = (key \<notin> fst ` set (nodeBuffer M))
    \<and> nodeBuffer M' = (if inserted then nodeBuffer M @ [(key, val)] else nodeBuffer M)
    \<and> unat i < length (nodeBuffer M') \<and> fst (nodeBuffer M' ! unat i) = key"
proof -
  obtain G n where G: "Map_grow hash M = Some G" "Map_size_inv hash n G" "nodeBuffer G = nodeBuffer M"
    "length (nodeBuffer M) < 3 * 2 ^ (n - 2)" using assms by (rule Map_grow_ok)
  have small: "length (nodeBuffer M) < 2 ^ 63" using Map_size_bounds(2) [OF G(2)] G(3) by simp
  from probe_key [OF G(2), of key] show ?thesis
  proof (elim disjE exE conjE)
    fix i assume i: "i < length (nodeBuffer G)" "fst (nodeBuffer G ! i) = key"
      "probe (key_test equal (nodeBuffer G) key) (hashBuffer G) (hash key) = Some (Found (of_nat i))"
    moreover have "key \<in> fst ` set (nodeBuffer M)" using i(1,2) G(3) by (metis image_eqI nth_mem)
    moreover have "unat (of_nat i :: u64) = i" using i(1) small G(3) by (simp add: unat_of_nat_u64)
    ultimately show ?thesis using G by (auto simp: Map_insert_def Map_inv_def)
  next
    fix k assume new: "key \<notin> fst ` set (nodeBuffer G)" and run: "probe (key_test equal (nodeBuffer G) key) (hashBuffer G) (hash key)
          = Some (Vacant (of_nat (slot n (hash key) k)))"
      and k: "hashBuffer G ! slot n (hash key) k = SentinelHash" "\<forall>j<k. hashBuffer G ! slot n (hash key) j \<noteq> SentinelHash"
    let ?i = "of_nat (length (nodeBuffer G)) :: u64"
    let ?M = "G\<lparr>hashBuffer := (hashBuffer G)[slot n (hash key) k := ?i], hashBufferUseCount := hashBufferUseCount G + 1,
      nodeBuffer := nodeBuffer G @ [(key, val)]\<rparr>"
    have "n < 64" using Map_size_table [OF G(2)] by (simp add: table_ok_def)
    have "?i \<notin> snd ` set (node_entries (map fst (nodeBuffer G)))"
      using small G(3) by (auto simp: snd_node_entries of_nat_u64_eq)
    moreover have "?i \<noteq> SentinelHash" using small G(3) by (intro of_nat_not_sentinel) simp
    ultimately have "Map_size_inv hash n ?M"
      using sized_table_add [OF G(2) [unfolded Map_size_inv_def] _ k, of ?i] new G(3,4)
        node_entries_append [of "map fst (nodeBuffer G)" key] by (simp add: Map_size_inv_def)
    moreover have "Map_insert hash equal M (key, val) = Some (?M, ?i, True)"
      using run G(1) \<open>n < 64\<close> by (simp add: Map_insert_def unat_slot array_count_def)
    moreover have "unat ?i = length (nodeBuffer M)" using small G(3) by (simp add: unat_of_nat_u64)
    ultimately show ?thesis using new G(3) by (auto simp: Map_inv_def)
  qed
qed

end

interpretation map_u64: hash_traits hash EqualUInt64 for hash
  by unfold_locales (simp add: EqualUInt64_def)

interpretation map_pointer: hash_traits hash EqualPointer for hash
  by unfold_locales (simp add: EqualPointer_def)

interpretation map_cstring: hash_traits hash EqualCString for hash
  by unfold_locales (simp add: EqualCString_def)

text \<open>A sequence of insertions.\<close>

fun Map_inserts :: "('k \<Rightarrow> u64) \<Rightarrow> ('k \<Rightarrow> 'k \<Rightarrow> bool) \<Rightarrow> ('k, 'v) Map \<Rightarrow> ('k \<times> 'v) list \<Rightarrow> ('k, 'v) Map option" where
  "Map_inserts hash equal M [] = Some M"
| "Map_inserts hash equal M (v # vs) =
     Option.bind (Map_insert hash equal M v) (\<lambda>(M', i, inserted). Map_inserts hash equal M' vs)"

context hash_traits
begin

lemma inserts_correct:
  assumes "Map_inv hash M" and "length (nodeBuffer M) + length vs \<le> 2 ^ 58"
  shows "\<exists>M'. Map_inserts hash equal M vs = Some M' \<and> Map_inv hash M'
    \<and> map_of (nodeBuffer M') = map_of vs ++ map_of (nodeBuffer M)"
  using assms
proof (induction vs arbitrary: M)
  case (Cons v vs)
  obtain key val where v: "v = (key, val)" by (cases v)
  have "length (nodeBuffer M) < 2 ^ 58" using Cons.prems(2) by simp
  from insert_correct [OF Cons.prems(1) this, of key val] obtain M1 i b where
    ins: "Map_insert hash equal M v = Some (M1, i, b)" "Map_inv hash M1" "b = (key \<notin> fst ` set (nodeBuffer M))"
      "nodeBuffer M1 = (if b then nodeBuffer M @ [v] else nodeBuffer M)" unfolding v by blast
  have "length (nodeBuffer M1) + length vs \<le> 2 ^ 58" using Cons.prems(2) ins(4) by simp
  from Cons.IH [OF ins(2) this] obtain M' where M': "Map_inserts hash equal M1 vs = Some M'" "Map_inv hash M'"
    "map_of (nodeBuffer M') = map_of vs ++ map_of (nodeBuffer M1)" by blast
  have eq: "map_of vs ++ map_of (nodeBuffer M1) = map_of (v # vs) ++ map_of (nodeBuffer M)"
  proof (cases b)
    case True
    with ins(3) have "map_of (nodeBuffer M) key = None" by (simp add: map_of_eq_None_iff)
    with True ins(4) show ?thesis by (auto simp: v map_add_def fun_eq_iff map_of_append split: option.splits)
  next
    case False
    with ins(3) have "map_of (nodeBuffer M) key \<noteq> None" by (simp add: map_of_eq_None_iff)
    with False ins(4) show ?thesis by (auto simp: v map_add_def fun_eq_iff split: option.splits)
  qed
  have "Map_inserts hash equal M (v # vs) = Some M'" using ins(1) M'(1) by simp
  with M'(2) trans [OF M'(3) eq] show ?case by blast
qed simp

end

text \<open>
  C9: a \<open>Map\<close> with string keys is a finite map. Inserting any sequence of fewer than \<open>2^58\<close> pairs into an
  empty table returns, whatever the hash function, collisions included: every probe ends, no
  access is out of range and the table is rehashed as it grows. Afterwards \<open>find\<close> ends for every key, with
  the end iterator exactly for the keys never inserted and otherwise with the node
  that holds the key and the value it was first inserted with.
\<close>

theorem Map_implements_finite_map:
  assumes "length vs < 2 ^ 58"
  shows "\<exists>M. Map_inserts hash EqualCString Map_new vs = Some M \<and>
    (\<forall>key. \<exists>r. Map_find hash EqualCString M key = Some r \<and>
       (case r of None \<Rightarrow> map_of vs key = None
        | Some i \<Rightarrow> unat i < length (nodeBuffer M) \<and> fst (nodeBuffer M ! unat i) = key
                   \<and> map_of vs key = Some (snd (nodeBuffer M ! unat i))))"
proof -
  have "length (nodeBuffer (Map_new :: (string, 'a) Map)) + length vs \<le> 2 ^ 58" using assms by (simp add: Map_new_def)
  from map_cstring.inserts_correct [OF Map_new_inv this] obtain M where M:
    "Map_inserts hash EqualCString Map_new vs = Some M" "Map_inv hash M" "map_of (nodeBuffer M) = map_of vs"
    by (auto simp: Map_new_def)
  with map_cstring.find_correct [OF M(2), unfolded M(3)] show ?thesis by blast
qed

theorem Map_implements_finite_map_witness:
  "\<exists>M. Map_inserts (\<lambda>s. 7) EqualCString Map_new [(''a'', 1 :: nat), (''b'', 2), (''a'', 3)] = Some M
     \<and> (\<exists>i. Map_find (\<lambda>s. 7) EqualCString M ''a'' = Some (Some i) \<and> snd (nodeBuffer M ! unat i) = 1)
     \<and> Map_find (\<lambda>s. 7) EqualCString M ''c'' = Some None"
proof -
  let ?vs = "[(''a'', 1 :: nat), (''b'', 2), (''a'', 3)]"
  obtain M where M: "Map_inserts (\<lambda>s. 7) EqualCString Map_new ?vs = Some M"
    "\<forall>key. \<exists>r. Map_find (\<lambda>s. 7) EqualCString M key = Some r \<and>
       (case r of None \<Rightarrow> map_of ?vs key = None
        | Some i \<Rightarrow> unat i < length (nodeBuffer M) \<and> fst (nodeBuffer M ! unat i) = key
                   \<and> map_of ?vs key = Some (snd (nodeBuffer M ! unat i)))"
    using Map_implements_finite_map [of ?vs "\<lambda>s. 7"] by auto
  from M(2) [rule_format, of "''a''"] M(2) [rule_format, of "''c''"] M(1) show ?thesis
    by (auto split: option.splits)
qed

section \<open>MultiMap groups values by key\<close>

text \<open>
  The links of a node are determined by where its key occurs before and after it. They hold as
  long as node indices fit the 29 bits of \<open>nextIndex\<close>.
\<close>

definition prev_use :: "'k list \<Rightarrow> nat \<Rightarrow> bool" where
  "prev_use keys i \<longleftrightarrow> (\<exists>j<i. keys ! j = keys ! i)"

definition next_use :: "'k list \<Rightarrow> nat \<Rightarrow> nat option" where
  "next_use keys i = List.find (\<lambda>j. keys ! j = keys ! i) [Suc i ..< length keys]"

definition links :: "'k list \<Rightarrow> nat \<Rightarrow> NextNode" where
  "links keys i =
     \<lparr>isDuplicateHead = (\<not> prev_use keys i \<and> next_use keys i \<noteq> None),
      isDuplicateEntry = (prev_use keys i \<and> next_use keys i \<noteq> None),
      isDuplicateTail = (prev_use keys i \<and> next_use keys i = None),
      nextIndex = (case next_use keys i of None \<Rightarrow> 0 | Some j \<Rightarrow> of_nat j)\<rparr>"

definition links_ok :: "('k \<times> 'v \<times> NextNode) list \<Rightarrow> bool" where
  "links_ok nodes \<longleftrightarrow> length nodes \<le> 2 ^ 29 \<and> (\<forall>i<length nodes. snd (snd (nodes ! i)) = links (map fst nodes) i)"

lemma next_use_Some: "next_use keys i = Some j \<Longrightarrow> i < j \<and> j < length keys \<and> keys ! j = keys ! i"
  by (auto simp: next_use_def find_Some_iff nth_upt)

lemma next_use_gap:
  assumes "next_use keys i = Some j" and "i < l" and "l < j"
  shows "keys ! l \<noteq> keys ! i"
proof -
  from assms(1) obtain m where m: "m < length keys - Suc i" "j = Suc i + m" "\<forall>n<m. keys ! (Suc i + n) \<noteq> keys ! i"
    unfolding next_use_def find_Some_iff by auto
  with assms(2,3) have "l - Suc i < m" "Suc i + (l - Suc i) = l" by simp_all
  with m(3) show ?thesis by metis
qed

lemma next_use_None: "next_use keys i = None \<longleftrightarrow> (\<forall>j. i < j \<and> j < length keys \<longrightarrow> keys ! j \<noteq> keys ! i)"
  by (auto simp: next_use_def find_None_iff)

lemma find_append: "List.find P (xs @ ys) = (case List.find P xs of None \<Rightarrow> List.find P ys | Some x \<Rightarrow> Some x)"
  by (induction xs) auto

lemma next_use_append:
  assumes "i < length keys"
  shows "next_use (keys @ [k]) i =
    (case next_use keys i of Some j \<Rightarrow> Some j | None \<Rightarrow> if k = keys ! i then Some (length keys) else None)"
proof -
  have "[Suc i ..< length (keys @ [k])] = [Suc i ..< length keys] @ [length keys]" using assms by simp
  moreover have "List.find (\<lambda>j. (keys @ [k]) ! j = (keys @ [k]) ! i) [Suc i ..< length keys] = next_use keys i"
    unfolding next_use_def using assms by (intro find_cong) (auto simp: nth_append)
  moreover have "(keys @ [k]) ! i = keys ! i" "(keys @ [k]) ! length keys = k" using assms by (simp_all add: nth_append)
  ultimately show ?thesis unfolding next_use_def [of "keys @ [k]"] by (simp add: find_append split: option.split)
qed

lemma prev_use_append: "i < length keys \<Longrightarrow> prev_use (keys @ [k]) i = prev_use keys i"
  unfolding prev_use_def by (intro ex_cong1 conj_cong refl) (simp add: nth_append)

lemma prev_use_new: "prev_use (keys @ [k]) (length keys) \<longleftrightarrow> k \<in> set keys"
  by (auto simp: prev_use_def nth_append in_set_conv_nth)

lemma next_use_new: "next_use (keys @ [k]) (length keys) = None"
  by (simp add: next_use_def)

lemma links_more: "hasMoreDuplicates (links keys i) \<longleftrightarrow> next_use keys i \<noteq> None"
  by (auto simp: hasMoreDuplicates_def links_def)

lemma links_index:
  assumes "length keys \<le> 2 ^ 29" and "next_use keys i = Some j"
  shows "ucast (nextIndex (links keys i)) = (of_nat j :: u64)"
proof -
  have "j < 2 ^ 29" using assms next_use_Some by fastforce
  then have "unat (ucast (of_nat j :: 29 word) :: u64) = unat (of_nat j :: u64)"
    by (simp add: unsigned_ucast_eq unat_of_nat take_bit_nat_eq_self)
  with assms(2) show ?thesis by (simp add: links_def word_unat_eq_iff)
qed

lemma array_at_of_nat: "i < length xs \<Longrightarrow> length xs \<le> 2 ^ 29 \<Longrightarrow> array_at xs (of_nat i) = Some (xs ! i)"
  by (simp add: array_at_def unat_of_nat_u64)

lemma links_node:
  assumes "links_ok nodes" and "i < length nodes"
  shows "array_at nodes (of_nat i) = Some (nodes ! i)" "snd (snd (nodes ! i)) = links (map fst nodes) i"
  using assms by (simp_all add: array_at_of_nat links_ok_def)

lemma chain_tail_ok:
  assumes ok: "links_ok nodes" and "i < length nodes"
  shows "\<exists>t. chain_tail nodes (of_nat i) = Some (of_nat t) \<and> t < length nodes \<and> fst (nodes ! t) = fst (nodes ! i)
    \<and> next_use (map fst nodes) t = None"
  using assms(2)
proof (induction "length nodes - i" arbitrary: i rule: less_induct)
  case less
  note node = links_node [OF ok less.prems]
  show ?case
  proof (cases "next_use (map fst nodes) i")
    case None
    with node less.prems show ?thesis by (intro exI [of _ i]) (simp add: chain_tail.simps links_more)
  next
    case (Some j)
    then have j: "i < j" "j < length nodes" "fst (nodes ! j) = fst (nodes ! i)" using next_use_Some [OF Some] less.prems by auto
    have "ucast (nextIndex (links (map fst nodes) i)) = (of_nat j :: u64)" using ok Some by (intro links_index) (simp_all add: links_ok_def)
    then have "chain_tail nodes (of_nat i) = chain_tail nodes (of_nat j)"
      using node Some by (subst chain_tail.simps) (simp add: links_more)
    with less.hyps [of j] j show ?thesis by auto
  qed
qed

lemma filter_drop_next:
  assumes "i < length nodes"
  shows "filter (\<lambda>n. fst n = fst (nodes ! i)) (drop (Suc i) nodes) =
    (case next_use (map fst nodes) i of None \<Rightarrow> [] | Some j \<Rightarrow> filter (\<lambda>n. fst n = fst (nodes ! i)) (drop j nodes))"
proof (cases "next_use (map fst nodes) i")
  case None
  then have "fst n \<noteq> fst (nodes ! i)" if "n \<in> set (drop (Suc i) nodes)" for n
    using that assms by (auto simp: next_use_None in_set_conv_nth)
  with None show ?thesis by (simp add: filter_empty_conv)
next
  case (Some j)
  then have j: "i < j" "j < length nodes" using next_use_Some [OF Some] by auto
  note gap = next_use_gap [OF Some]
  have "drop (Suc i) nodes = take (j - Suc i) (drop (Suc i) nodes) @ drop j nodes"
    using j by (metis append_take_drop_id drop_drop le_add_diff_inverse2 Suc_leI)
  moreover have "filter (\<lambda>n. fst n = fst (nodes ! i)) (take (j - Suc i) (drop (Suc i) nodes)) = []"
  proof -
    have "fst (nodes ! Suc (i + n)) \<noteq> fst (nodes ! i)" if "n < j - Suc i" for n
      using gap [of "Suc (i + n)"] that j by simp
    then show ?thesis using j by (auto simp: filter_empty_conv in_set_conv_nth) (metis fst_conv)
  qed
  ultimately have "filter (\<lambda>n. fst n = fst (nodes ! i)) (drop (Suc i) nodes) = filter (\<lambda>n. fst n = fst (nodes ! i)) (drop j nodes)"
    by (metis append_Nil filter_append)
  with Some show ?thesis by simp
qed

lemma chain_values_ok:
  assumes ok: "links_ok nodes" and "i < length nodes"
  shows "chain_values nodes (of_nat i) = Some (map (fst \<circ> snd) (filter (\<lambda>n. fst n = fst (nodes ! i)) (drop i nodes)))"
  using assms(2)
proof (induction "length nodes - i" arbitrary: i rule: less_induct)
  case less
  note node = links_node [OF ok less.prems]
  have head: "filter (\<lambda>n. fst n = fst (nodes ! i)) (drop i nodes) = nodes ! i # filter (\<lambda>n. fst n = fst (nodes ! i)) (drop (Suc i) nodes)"
    using less.prems by (simp add: Cons_nth_drop_Suc [symmetric])
  show ?case
  proof (cases "next_use (map fst nodes) i")
    case None
    with node head filter_drop_next [OF less.prems] show ?thesis by (simp add: chain_values.simps links_more)
  next
    case (Some j)
    then have j: "i < j" "j < length nodes" "fst (nodes ! j) = fst (nodes ! i)" using next_use_Some [OF Some] less.prems by auto
    have "ucast (nextIndex (links (map fst nodes) i)) = (of_nat j :: u64)" using ok Some by (intro links_index) (simp_all add: links_ok_def)
    with node Some have "chain_values nodes (of_nat i) = Option.bind (chain_values nodes (of_nat j)) (\<lambda>vs. Some (fst (snd (nodes ! i)) # vs))"
      by (subst chain_values.simps) (simp add: links_more)
    with less.hyps [of j] j head filter_drop_next [OF less.prems] Some show ?thesis by simp
  qed
qed

definition heads :: "'k list \<Rightarrow> ('k \<times> u64) list" where
  "heads keys = map (\<lambda>i. (keys ! i, of_nat i)) (filter (\<lambda>i. \<not> prev_use keys i) [0 ..< length keys])"

lemma heads_append: "heads (keys @ [k]) = heads keys @ (if k \<in> set keys then [] else [(k, of_nat (length keys))])"
proof -
  have "filter (\<lambda>i. \<not> prev_use (keys @ [k]) i) [0 ..< length keys] = filter (\<lambda>i. \<not> prev_use keys i) [0 ..< length keys]"
    by (intro filter_cong refl) (simp add: prev_use_append)
  moreover have "map (\<lambda>i. ((keys @ [k]) ! i, of_nat i)) (filter P [0 ..< length keys])
      = map (\<lambda>i. (keys ! i, of_nat i :: u64)) (filter P [0 ..< length keys])" for P
    by (simp add: nth_append)
  ultimately show ?thesis by (simp add: heads_def prev_use_new)
qed

lemma heads_keys: "fst ` set (heads keys) = set keys"
  by (induction keys rule: rev_induct) (auto simp: heads_append heads_def [of "[]"])

lemma heads_index: "e \<in> set (heads keys) \<Longrightarrow> \<exists>i<length keys. e = (keys ! i, of_nat i) \<and> \<not> prev_use keys i"
  by (auto simp: heads_def)

lemma heads_length: "length (heads keys) \<le> length keys"
  unfolding heads_def length_map by (rule order_trans [OF length_filter_le]) simp

lemma head_entries_ok:
  assumes "links_ok nodes"
  shows "head_entries nodes = heads (map fst nodes)"
proof -
  have "filter (\<lambda>i. \<not> isDuplicateEntry (snd (snd (nodes ! i))) \<and> \<not> isDuplicateTail (snd (snd (nodes ! i)))) [0 ..< length nodes]
      = filter (\<lambda>i. \<not> prev_use (map fst nodes) i) [0 ..< length nodes]"
    using assms by (intro filter_cong refl) (auto simp: links_ok_def links_def)
  then show ?thesis by (simp add: head_entries_def heads_def)
qed

lemma links_append:
  assumes "i < length keys" and "next_use keys i \<noteq> None \<or> k \<noteq> keys ! i"
  shows "links (keys @ [k]) i = links keys i"
  using assms by (auto simp: links_def prev_use_append next_use_append split: option.splits)

lemma links_new: "links (keys @ [k]) (length keys) = (if k \<in> set keys then makeDuplicateTailNode else makeNoDuplicates)"
  by (simp add: links_def next_use_new prev_use_new makeDuplicateTailNode_def makeNoDuplicates_def)

lemma last_use_unique:
  assumes "next_use keys t = None" and "t < length keys" and "keys ! t = k" and "i < length keys" and "i \<noteq> t"
  shows "next_use keys i \<noteq> None \<or> k \<noteq> keys ! i"
  using assms unfolding next_use_None by (metis nat_neq_iff)

lemma ucast_array_count: "(ucast (array_count xs) :: 29 word) = of_nat (length xs)"
  by (rule word_unat_eq_iff [THEN iffD2])
     (simp add: array_count_def unsigned_ucast_eq unat_of_nat take_bit_eq_mod mod_mod_cancel)

lemma links_ok_snoc:
  assumes ok: "links_ok nodes" and new: "key \<notin> fst ` set nodes" and len: "length nodes < 2 ^ 29"
  shows "links_ok (nodes @ [(key, val, makeNoDuplicates)])"
proof -
  have "links (map fst nodes @ [key]) i = links (map fst nodes) i" if "i < length nodes" for i
    using that new by (intro links_append) (auto simp: image_iff)
  moreover have "links (map fst nodes @ [key]) (length nodes) = makeNoDuplicates"
    using links_new [of "map fst nodes" key] new by simp
  ultimately show ?thesis using ok len by (auto simp: links_ok_def nth_append less_Suc_eq)
qed

lemma links_tail:
  assumes ok: "links_ok nodes" and t: "t < length nodes" "next_use (map fst nodes) t = None" and key: "fst (nodes ! t) = key"
  shows "links (map fst nodes @ [key]) t = (if hasAnyDuplicates (links (map fst nodes) t)
     then (links (map fst nodes) t)\<lparr>isDuplicateTail := False, isDuplicateEntry := True, nextIndex := of_nat (length nodes)\<rparr>
     else (links (map fst nodes) t)\<lparr>isDuplicateHead := True, nextIndex := of_nat (length nodes)\<rparr>)"
  using t key by (simp add: links_def hasAnyDuplicates_def prev_use_append next_use_append)

lemma append_duplicate_ok:
  assumes ok: "links_ok nodes" and i: "i < length nodes" "fst (nodes ! i) = key" and len: "length nodes < 2 ^ 29"
  shows "\<exists>nodes'. append_duplicate nodes (of_nat i) (key, val) = Some nodes' \<and> links_ok nodes'
    \<and> map fst nodes' = map fst nodes @ [key] \<and> map (fst \<circ> snd) nodes' = map (fst \<circ> snd) nodes @ [val]"
proof -
  obtain t where t: "chain_tail nodes (of_nat i) = Some (of_nat t)" "t < length nodes" "fst (nodes ! t) = key"
    "next_use (map fst nodes) t = None" using chain_tail_ok [OF ok i(1)] i(2) by blast
  let ?keys = "map fst nodes"
  let ?new = "nodes[t := (key, fst (snd (nodes ! t)), links (?keys @ [key]) t)] @ [(key, val, makeDuplicateTailNode)]"
  note node = links_node [OF ok t(2)]
  have u: "unat (of_nat t :: u64) = t" using t(2) len by (simp add: unat_of_nat_u64)
  have any: "hasAnyDuplicates (links ?keys t) \<Longrightarrow> isDuplicateTail (links ?keys t)"
    using t(4) by (simp add: links_def hasAnyDuplicates_def)
  have run: "append_duplicate nodes (of_nat i) (key, val) = Some ?new"
    using t(1,3) node any unfolding links_tail [OF ok t(2,4,3)]
    by (simp add: append_duplicate_def set_next_def u ucast_array_count Let_def)
  have keys: "map fst ?new = ?keys @ [key]" and vals: "map (fst \<circ> snd) ?new = map (fst \<circ> snd) nodes @ [val]"
    using t(2,3) by (auto simp: map_update intro!: list_update_same_conv [THEN iffD2])
  have "links (?keys @ [key]) j = links ?keys j" if "j < length nodes" "j \<noteq> t" for j
    using that t last_use_unique [of ?keys t key j] by (intro links_append) auto
  moreover have "links (?keys @ [key]) (length nodes) = makeDuplicateTailNode"
    using links_new [of ?keys key] t(2,3) by force
  ultimately have "links_ok ?new" using ok len t(2) unfolding links_ok_def keys
    by (auto simp: nth_append less_Suc_eq nth_list_update)
  with run keys vals show ?thesis by blast
qed

text \<open>The grouping that \<open>forEachEntry\<close> reports: each key at its first use, with its values in insertion order.\<close>

definition grouped :: "('k \<times> 'v) list \<Rightarrow> ('k \<times> 'v list) list" where
  "grouped vs = map (\<lambda>k. (k, map snd (filter (\<lambda>p. fst p = k) vs))) (rev (remdups (rev (map fst vs))))"

definition node_pairs :: "('k \<times> 'v \<times> NextNode) list \<Rightarrow> ('k \<times> 'v) list" where
  "node_pairs nodes = map (\<lambda>n. (fst n, fst (snd n))) nodes"

lemma node_pairs_zip: "node_pairs nodes = zip (map fst nodes) (map (fst \<circ> snd) nodes)"
  by (simp add: node_pairs_def zip_map_map list_eq_iff_nth_eq)

lemma heads_first_uses: "map fst (heads keys) = rev (remdups (rev keys))"
  by (induction keys rule: rev_induct) (simp_all add: heads_append heads_def [of "[]"])

lemma first_use_values:
  assumes "i < length nodes" and first: "\<not> prev_use (map fst nodes) i"
  shows "map (fst \<circ> snd) (filter (\<lambda>n. fst n = fst (nodes ! i)) (drop i nodes))
    = map snd (filter (\<lambda>p. fst p = fst (nodes ! i)) (node_pairs nodes))"
proof -
  have "filter (\<lambda>n. fst n = fst (nodes ! i)) (take i nodes) = []"
    using assms by (auto simp: filter_empty_conv in_set_conv_nth prev_use_def) (metis fst_conv less_trans nth_map)
  then have "filter (\<lambda>n. fst n = fst (nodes ! i)) (drop i nodes) = filter (\<lambda>n. fst n = fst (nodes ! i)) (take i nodes @ drop i nodes)"
    unfolding filter_append by simp
  then show ?thesis by (simp add: node_pairs_def filter_map o_def)
qed

lemma entry_at_ok:
  assumes ok: "links_ok nodes" and i: "i < length nodes"
  shows "entry_at nodes i = Some (if prev_use (map fst nodes) i then []
    else [(fst (nodes ! i), map snd (filter (\<lambda>p. fst p = fst (nodes ! i)) (node_pairs nodes)))])"
proof -
  note node = links_node(2) [OF ok i] and vals = chain_values_ok [OF ok i]
  have single: "filter (\<lambda>n. fst n = fst (nodes ! i)) (drop i nodes) = [nodes ! i]" if "next_use (map fst nodes) i = None"
    using that filter_drop_next [OF i] i by (simp add: Cons_nth_drop_Suc [symmetric])
  show ?thesis
  proof (cases "prev_use (map fst nodes) i")
    case True
    with node show ?thesis by (auto simp: entry_at_def links_def hasAnyDuplicates_def split: prod.split)
  next
    case False
    note first = first_use_values [OF i False]
    show ?thesis
    proof (cases "next_use (map fst nodes) i")
      case None
      have "map snd (filter (\<lambda>p. fst p = fst (nodes ! i)) (node_pairs nodes)) = [fst (snd (nodes ! i))]"
        unfolding first [symmetric] single [OF None] by simp
      with False None node show ?thesis by (auto simp: entry_at_def links_def hasAnyDuplicates_def split: prod.split)
    next
      case (Some j)
      with False node vals first show ?thesis by (auto simp: entry_at_def links_def hasAnyDuplicates_def split: prod.split)
    qed
  qed
qed

lemma entries_from_ok:
  assumes "links_ok nodes" and "\<forall>i\<in>set is. i < length nodes"
  shows "entries_from nodes is = Some (map (\<lambda>i. (fst (nodes ! i), map snd (filter (\<lambda>p. fst p = fst (nodes ! i)) (node_pairs nodes))))
    (filter (\<lambda>i. \<not> prev_use (map fst nodes) i) is))"
  using assms(2) by (induction "is") (simp_all add: entry_at_ok [OF assms(1)])

lemma forEachEntry_ok:
  assumes "links_ok (mm_nodeBuffer M)"
  shows "MultiMap_forEachEntry M = Some (grouped (node_pairs (mm_nodeBuffer M)))"
proof -
  let ?nodes = "mm_nodeBuffer M"
  let ?g = "\<lambda>k. (k, map snd (filter (\<lambda>p. fst p = k) (node_pairs ?nodes)))"
  have "MultiMap_forEachEntry M = Some (map (\<lambda>i. ?g (fst (?nodes ! i))) (filter (\<lambda>i. \<not> prev_use (map fst ?nodes) i) [0 ..< length ?nodes]))"
    unfolding MultiMap_forEachEntry_def by (rule entries_from_ok [OF assms]) simp
  also have "\<dots> = Some (map ?g (map fst (heads (map fst ?nodes))))" by (auto simp: heads_def)
  finally show ?thesis by (simp add: heads_first_uses grouped_def node_pairs_def o_def)
qed

definition MultiMap_size_inv :: "('k \<Rightarrow> u64) \<Rightarrow> nat \<Rightarrow> ('k, 'v) MultiMap \<Rightarrow> bool" where
  "MultiMap_size_inv hash n M \<longleftrightarrow> links_ok (mm_nodeBuffer M) \<and>
     sized_table hash n (mm_hashBuffer M) (mm_hashBufferUseCount M) (mm_nextHashBufferGrowth M) (heads (map fst (mm_nodeBuffer M)))"

definition MultiMap_inv :: "('k \<Rightarrow> u64) \<Rightarrow> ('k, 'v) MultiMap \<Rightarrow> bool" where
  "MultiMap_inv hash M \<longleftrightarrow> (\<exists>n. MultiMap_size_inv hash n M)"

lemma MultiMap_new_inv: "MultiMap_inv hash MultiMap_new"
  unfolding MultiMap_inv_def MultiMap_size_inv_def MultiMap_new_def
  using sized_table_new by (intro exI [of _ 10]) (simp add: heads_def links_ok_def)

lemma MultiMap_grow_ok:
  assumes "MultiMap_inv hash M"
  obtains M' n where "MultiMap_grow hash M = Some M'" and "MultiMap_size_inv hash n M'" and "mm_nodeBuffer M' = mm_nodeBuffer M"
    and "length (heads (map fst (mm_nodeBuffer M))) < 3 * 2 ^ (n - 2)"
proof -
  from assms obtain n where n: "links_ok (mm_nodeBuffer M)" "sized_table hash n (mm_hashBuffer M) (mm_hashBufferUseCount M)
      (mm_nextHashBufferGrowth M) (heads (map fst (mm_nodeBuffer M)))" by (auto simp: MultiMap_inv_def MultiMap_size_inv_def)
  show thesis
  proof (cases "mm_hashBufferUseCount M = mm_nextHashBufferGrowth M")
    case False
    with n show thesis
      using sized_table_not_full [OF n(2) False] by (intro that [of M n]) (simp_all add: MultiMap_grow_def MultiMap_size_inv_def)
  next
    case True
    have "length (heads (map fst (mm_nodeBuffer M))) < 2 ^ 58"
      using heads_length [of "map fst (mm_nodeBuffer M)"] n(1) by (simp add: links_ok_def)
    from sized_table_grow [OF n(2) True this] n(1) True show thesis
      by (auto simp: MultiMap_grow_def MultiMap_size_inv_def head_entries_ok intro!: that [of _ "Suc n"])
  qed
qed

fun MultiMap_inserts :: "('k \<Rightarrow> u64) \<Rightarrow> ('k \<Rightarrow> 'k \<Rightarrow> bool) \<Rightarrow> ('k, 'v) MultiMap \<Rightarrow> ('k \<times> 'v) list \<Rightarrow> ('k, 'v) MultiMap option" where
  "MultiMap_inserts hash equal M [] = Some M"
| "MultiMap_inserts hash equal M (v # vs) =
     Option.bind (MultiMap_insert hash equal M v) (\<lambda>M'. MultiMap_inserts hash equal M' vs)"

context hash_traits
begin

lemma mm_test_head:
  assumes "links_ok nodes" and "e \<in> set (heads (map fst nodes))"
  shows "mm_test equal nodes key (snd e) = Some (fst e = key)"
  using heads_index [OF assms(2)] links_node(1) [OF assms(1)] by (elim exE conjE) (simp add: mm_test_def equal_iff)

lemma mm_probe_present:
  assumes n: "MultiMap_size_inv hash n M" and key: "key \<in> fst ` set (mm_nodeBuffer M)"
  shows "\<exists>i<length (mm_nodeBuffer M). fst (mm_nodeBuffer M ! i) = key
    \<and> probe (mm_test equal (mm_nodeBuffer M) key) (mm_hashBuffer M) (hash key) = Some (Found (of_nat i))"
proof -
  let ?E = "heads (map fst (mm_nodeBuffer M))"
  from key have "key \<in> fst ` set ?E" by (simp add: heads_keys)
  then obtain e where e: "e \<in> set ?E" "fst e = key" by blast
  from heads_index [OF e(1)] obtain i where i: "i < length (mm_nodeBuffer M)" "e = (fst (mm_nodeBuffer M ! i), of_nat i)" by auto
  have "table_ok hash n (mm_hashBuffer M) ?E" using n by (simp add: MultiMap_size_inv_def sized_table_def)
  then have "probe (mm_test equal (mm_nodeBuffer M) key) (mm_hashBuffer M) (hash key) = Some (Found (snd e))"
    using e n mm_test_head by (intro probe_present [of hash n _ ?E]) (auto simp: MultiMap_size_inv_def)
  with i e(2) show ?thesis by auto
qed

lemma mm_probe_absent:
  assumes n: "MultiMap_size_inv hash n M" and key: "key \<notin> fst ` set (mm_nodeBuffer M)"
  shows "\<exists>k. probe (mm_test equal (mm_nodeBuffer M) key) (mm_hashBuffer M) (hash key) = Some (Vacant (of_nat (slot n (hash key) k)))
    \<and> mm_hashBuffer M ! slot n (hash key) k = SentinelHash \<and> (\<forall>j<k. mm_hashBuffer M ! slot n (hash key) j \<noteq> SentinelHash)"
proof (rule probe_absent)
  let ?E = "heads (map fst (mm_nodeBuffer M))"
  have sized: "sized_table hash n (mm_hashBuffer M) (mm_hashBufferUseCount M) (mm_nextHashBufferGrowth M) ?E"
    using n by (simp add: MultiMap_size_inv_def)
  then show "table_ok hash n (mm_hashBuffer M) ?E" by (simp add: sized_table_def)
  show "length ?E < 2 ^ n" by (rule sized_table_bounds(1) [OF sized])
  show "mm_test equal (mm_nodeBuffer M) key (snd e) = Some False" if e: "e \<in> set ?E" for e
  proof -
    have "fst e \<in> fst ` set ?E" using e by (rule imageI)
    with key have "fst e \<noteq> key" by (auto simp: heads_keys)
    with mm_test_head [OF _ e] n show ?thesis by (simp add: MultiMap_size_inv_def)
  qed
qed

lemma multi_insert_correct:
  assumes "MultiMap_inv hash M" and len: "length (mm_nodeBuffer M) < 2 ^ 29"
  shows "\<exists>M'. MultiMap_insert hash equal M (key, val) = Some M' \<and> MultiMap_inv hash M'
    \<and> node_pairs (mm_nodeBuffer M') = node_pairs (mm_nodeBuffer M) @ [(key, val)]"
proof -
  obtain G n where G: "MultiMap_grow hash M = Some G" "MultiMap_size_inv hash n G" "mm_nodeBuffer G = mm_nodeBuffer M"
    "length (heads (map fst (mm_nodeBuffer M))) < 3 * 2 ^ (n - 2)" using assms(1) by (rule MultiMap_grow_ok)
  have ok: "links_ok (mm_nodeBuffer G)" and sized: "sized_table hash n (mm_hashBuffer G) (mm_hashBufferUseCount G)
      (mm_nextHashBufferGrowth G) (heads (map fst (mm_nodeBuffer G)))" using G(2) by (simp_all add: MultiMap_size_inv_def)
  have len': "length (mm_nodeBuffer G) < 2 ^ 29" using len G(3) by simp
  show ?thesis
  proof (cases "key \<in> fst ` set (mm_nodeBuffer G)")
    case True
    from mm_probe_present [OF G(2) True] obtain i where i: "i < length (mm_nodeBuffer G)" "fst (mm_nodeBuffer G ! i) = key"
      "probe (mm_test equal (mm_nodeBuffer G) key) (mm_hashBuffer G) (hash key) = Some (Found (of_nat i))" by blast
    from append_duplicate_ok [OF ok i(1,2) len', of val] obtain nodes' where nodes':
      "append_duplicate (mm_nodeBuffer G) (of_nat i) (key, val) = Some nodes'" "links_ok nodes'"
      "map fst nodes' = map fst (mm_nodeBuffer G) @ [key]" "map (fst \<circ> snd) nodes' = map (fst \<circ> snd) (mm_nodeBuffer G) @ [val]" by blast
    have "MultiMap_insert hash equal M (key, val) = Some (G\<lparr>mm_nodeBuffer := nodes'\<rparr>)"
      using G(1) i(3) nodes'(1) by (simp add: MultiMap_insert_def)
    moreover have "MultiMap_size_inv hash n (G\<lparr>mm_nodeBuffer := nodes'\<rparr>)"
      using sized nodes'(2,3) True by (simp add: MultiMap_size_inv_def heads_append)
    moreover have "node_pairs nodes' = node_pairs (mm_nodeBuffer M) @ [(key, val)]"
      unfolding node_pairs_zip nodes'(3,4) G(3) by simp
    ultimately show ?thesis by (auto simp: MultiMap_inv_def)
  next
    case False
    let ?i = "of_nat (length (mm_nodeBuffer G)) :: u64" and ?new = "(key, val, makeNoDuplicates)"
    from mm_probe_absent [OF G(2) False] obtain k where k:
      "probe (mm_test equal (mm_nodeBuffer G) key) (mm_hashBuffer G) (hash key) = Some (Vacant (of_nat (slot n (hash key) k)))"
      "mm_hashBuffer G ! slot n (hash key) k = SentinelHash" "\<forall>j<k. mm_hashBuffer G ! slot n (hash key) j \<noteq> SentinelHash" by blast
    let ?M = "G\<lparr>mm_hashBuffer := (mm_hashBuffer G)[slot n (hash key) k := ?i], mm_hashBufferUseCount := mm_hashBufferUseCount G + 1,
      mm_nodeBuffer := mm_nodeBuffer G @ [?new]\<rparr>"
    have "n < 64" using sized by (simp add: sized_table_def)
    with G(1) k(1) have "MultiMap_insert hash equal M (key, val) = Some ?M"
      by (simp add: MultiMap_insert_def array_count_def unat_slot Let_def)
    moreover have "?i \<notin> snd ` set (heads (map fst (mm_nodeBuffer G)))"
      using len' by (auto dest!: heads_index simp: of_nat_u64_eq)
    then have "MultiMap_size_inv hash n ?M"
      using sized_table_add [OF sized _ k(2,3), of ?i] G(3,4) False len' links_ok_snoc [OF ok False len']
      by (simp add: MultiMap_size_inv_def heads_append heads_keys of_nat_not_sentinel)
    moreover have "node_pairs (mm_nodeBuffer G @ [?new]) = node_pairs (mm_nodeBuffer M) @ [(key, val)]"
      by (simp add: node_pairs_def G(3))
    ultimately show ?thesis by (auto simp: MultiMap_inv_def)
  qed
qed

lemma multi_inserts_correct:
  assumes "MultiMap_inv hash M" and "length (mm_nodeBuffer M) + length vs \<le> 2 ^ 29"
  shows "\<exists>M'. MultiMap_inserts hash equal M vs = Some M' \<and> MultiMap_inv hash M'
    \<and> node_pairs (mm_nodeBuffer M') = node_pairs (mm_nodeBuffer M) @ vs"
  using assms
proof (induction vs arbitrary: M)
  case (Cons v vs)
  have "length (mm_nodeBuffer M) < 2 ^ 29" using Cons.prems(2) by simp
  from multi_insert_correct [OF Cons.prems(1) this, of "fst v" "snd v"] obtain M1 where
    M1: "MultiMap_insert hash equal M v = Some M1" "MultiMap_inv hash M1" "node_pairs (mm_nodeBuffer M1) = node_pairs (mm_nodeBuffer M) @ [v]"
    by auto
  have "length (mm_nodeBuffer M1) = Suc (length (mm_nodeBuffer M))" using arg_cong [OF M1(3), of length] by (simp add: node_pairs_def)
  with Cons.prems(2) have "length (mm_nodeBuffer M1) + length vs \<le> 2 ^ 29" by simp
  from Cons.IH [OF M1(2) this] M1 show ?case by auto
qed simp

end

text \<open>
  C25: a \<open>MultiMap\<close> with pointer keys groups what is inserted into it. Inserting any sequence of at most \<open>2^29\<close> pairs
  into an empty table returns, whatever the hash function, and \<open>forEachEntry\<close> then ends, having called its
  handler once for every key, in the order in which the keys were first inserted, with all the values inserted for that key in
  insertion order. No chain loses, repeats or reorders a value, also across rehashes.
\<close>

theorem MultiMap_groups_by_key:
  assumes "length vs \<le> 2 ^ 29"
  shows "\<exists>M. MultiMap_inserts hash EqualPointer MultiMap_new vs = Some M \<and>
    MultiMap_forEachEntry M = Some (grouped vs)"
proof -
  have "length (mm_nodeBuffer (MultiMap_new :: (nat, 'a) MultiMap)) + length vs \<le> 2 ^ 29" using assms by (simp add: MultiMap_new_def)
  from map_pointer.multi_inserts_correct [OF MultiMap_new_inv this] obtain M where M:
    "MultiMap_inserts hash EqualPointer MultiMap_new vs = Some M" "MultiMap_inv hash M" "node_pairs (mm_nodeBuffer M) = vs"
    by (auto simp: MultiMap_new_def node_pairs_def)
  from M(2) have "links_ok (mm_nodeBuffer M)" by (auto simp: MultiMap_inv_def MultiMap_size_inv_def)
  with forEachEntry_ok [OF this] M(1,3) show ?thesis by simp
qed

theorem MultiMap_groups_by_key_witness:
  "\<exists>M. MultiMap_inserts (\<lambda>p. 3) EqualPointer MultiMap_new [(16, ''a''), (32, ''b''), (16, ''c''), (16, ''d'')] = Some M
     \<and> MultiMap_forEachEntry M = Some [(16, [''a'', ''c'', ''d'']), (32, [''b''])]"
  using MultiMap_groups_by_key [of "[(16, ''a''), (32, ''b''), (16, ''c''), (16, ''d'')]" "\<lambda>p. 3"]
  by (simp add: grouped_def)

end
