(* ===== verification/Closure_Image.thy ===== *)
theory Closure_Image
  imports MachO_LoadCommands
begin

text \<open>
  The \<open>Image\<close> of a closure (\<open>src/dyld3/Closure.h\<close>, \<open>src/dyld3/Closure.cpp\<close>): what dyld records about a
  mach-o file, and the queries the runtime makes. An \<open>Image\<close> is a record of its flags and of its typed attributes, an
  absent attribute being \<open>None\<close> (or the empty list where the code treats both alike). A \<open>forEach\<close>
  query that only passes its elements on is the list of the calls it makes to its handler. Failed
  assertions are \<open>None\<close>. \<open>macho addr\<close> is the mapped file seen from its load address.
\<close>

section \<open>Attributes\<close>

text \<open>Bit fields keep their width.\<close>

datatype LinkKind = regular | weak | upward | reExport

record LinkedImage =
  linkKind :: LinkKind
  imgNum :: "30 word"

record Flags =
  fl_imageNum :: u16
  fl_has16KBpages :: bool
  fl_is64 :: bool
  fl_hasObjC :: bool
  fl_mayHavePlusLoads :: bool
  fl_neverUnload :: bool
  fl_isDylib :: bool
  fl_inDyldCache :: bool
  fl_hasTerminators :: bool
  fl_hasOverrideImageNum :: bool
  fl_fixupsNotEncoded :: bool

record DiskSegment =
  filePageCount :: "30 word"
  vmPageCount :: "30 word"
  ds_permissions :: "3 word"
  paddingNotSeg :: bool

record DyldCacheSegment =
  cs_cacheOffset :: u32
  cs_size :: "28 word"
  cs_permissions :: "4 word"

record MappingInfo =
  totalVmPages :: u32
  sliceOffsetIn4K :: u32

record InitializerSectionRange =
  sectionOffset :: u32
  sectionSize :: u32

record Image =
  flags :: Flags
  pathWithHash :: "(u32 \<times> string) list"
  fileInodeAndTime :: "(u64 \<times> u64) option"
  codeSignLoc :: "(u32 \<times> u32) option"
  fairPlayLoc :: "(u32 \<times> u32) option"
  mappingInfo :: "MappingInfo option"
  diskSegment :: "DiskSegment list option"
  cacheSegment :: "DyldCacheSegment list option"
  dependentsArray :: "LinkedImage list"
  initOffsets :: "u32 list option"
  initsSection :: "InitializerSectionRange list"
  initBefores :: "u32 list"
  termOffsets :: "u32 list"
  dofOffsets :: "u32 list"
  imageOverride :: "u32 option"

section \<open>Identity\<close>

abbreviation kMissingWeakLinkedImage :: u32 where "kMissingWeakLinkedImage \<equiv> 0x0FFFFFFF"

definition imageNum :: "Image \<Rightarrow> u32" where
  "imageNum img = ucast (fl_imageNum (flags img))"

definition isOverrideOfDyldCacheImage :: "Image \<Rightarrow> u32 option" where
  "isOverrideOfDyldCacheImage img = imageOverride img"

definition representsImageNum :: "Image \<Rightarrow> u32 \<Rightarrow> bool" where
  "representsImageNum img num =
     (if imageNum img = num then True
      else if \<not> fl_isDylib (flags img) then False
      else if \<not> fl_hasOverrideImageNum (flags img) then False
      else case isOverrideOfDyldCacheImage img of Some cacheImageNum \<Rightarrow> cacheImageNum = num | None \<Rightarrow> False)"

definition hasObjC :: "Image \<Rightarrow> bool" where "hasObjC img = fl_hasObjC (flags img)"
definition mayHavePlusLoads :: "Image \<Rightarrow> bool" where "mayHavePlusLoads img = fl_mayHavePlusLoads (flags img)"
definition neverUnload :: "Image \<Rightarrow> bool" where "neverUnload img = fl_neverUnload (flags img)"
definition image_inDyldCache :: "Image \<Rightarrow> bool" where "image_inDyldCache img = fl_inDyldCache (flags img)"
definition hasTerminators :: "Image \<Rightarrow> bool" where "hasTerminators img = fl_hasTerminators (flags img)"

definition variantString :: "Image \<Rightarrow> string" where
  "variantString img = (if fl_fixupsNotEncoded (flags img) then ''minimal'' else ''full'')"

section \<open>Paths\<close>

text \<open>The first path is the canonical name, the others are aliases. A \<open>char\<close> is sign extended.\<close>

definition hashFunction :: "string \<Rightarrow> u32" where
  "hashFunction str = foldl (\<lambda>h s. h * 5 + signed (of_char s :: u8)) 0 str"

definition image_path :: "Image \<Rightarrow> string option" where
  "image_path img = (case pathWithHash img of [] \<Rightarrow> None | p # ps \<Rightarrow> Some (snd p))"

definition forEachAlias :: "Image \<Rightarrow> string list" where
  "forEachAlias img = map snd (tl (pathWithHash img))"

definition hasPathWithHash :: "Image \<Rightarrow> string \<Rightarrow> u32 \<Rightarrow> bool" where
  "hasPathWithHash img path h \<longleftrightarrow> (\<exists>p\<in>set (pathWithHash img). fst p = h \<and> snd p = path)"

definition hasFileModTimeAndInode :: "Image \<Rightarrow> (u64 \<times> u64) option" where
  "hasFileModTimeAndInode img = fileInodeAndTime img"

definition hasCodeSignature :: "Image \<Rightarrow> (u32 \<times> u32) option" where
  "hasCodeSignature img = codeSignLoc img"

definition image_isFairPlayEncrypted :: "Image \<Rightarrow> (u32 \<times> u32) option" where
  "image_isFairPlayEncrypted img = fairPlayLoc img"

section \<open>Dependents\<close>

definition linked_num :: "LinkedImage \<Rightarrow> u32" where
  "linked_num d = ucast (imgNum d)"

text \<open>The dependents passed to the handler: missing weak links are skipped.\<close>

definition forEachDependentImage :: "Image \<Rightarrow> (LinkKind \<times> u32) list" where
  "forEachDependentImage img =
     filter (\<lambda>(kind, num). \<not> (num = kMissingWeakLinkedImage \<and> kind = weak))
       (map (\<lambda>d. (linkKind d, linked_num d)) (dependentsArray img))"

definition dependentImageNum :: "Image \<Rightarrow> u32 \<Rightarrow> u32 option" where
  "dependentImageNum img depIndex =
     (if unat depIndex < length (dependentsArray img)
      then Some (linked_num (dependentsArray img ! unat depIndex)) else None)"

definition forEachImageToInitBefore :: "Image \<Rightarrow> u32 list" where
  "forEachImageToInitBefore img = initBefores img"

section \<open>Segments\<close>

definition pageSize :: "Image \<Rightarrow> u32" where
  "pageSize img = (if fl_has16KBpages (flags img) then 0x4000 else 0x1000)"

record SegmentRange =
  sr_segIndex :: u32
  sr_fileOffset :: u32
  sr_fileSize :: u32
  sr_vmOffset :: u64
  sr_vmSize :: u64
  sr_permissions :: u8
  sr_laterReadOnly :: bool

definition vm_bytes :: "Image \<Rightarrow> DiskSegment \<Rightarrow> u64" where
  "vm_bytes img seg = ucast (vmPageCount seg) * ucast (pageSize img)"

definition file_bytes :: "Image \<Rightarrow> DiskSegment \<Rightarrow> u32" where
  "file_bytes img seg = ucast (filePageCount seg) * pageSize img"

text \<open>The offset of the first segment: the segments before \<open>__TEXT\<close>, which have no file pages, lie below it.\<close>

definition first_vmOffset :: "Image \<Rightarrow> DiskSegment list \<Rightarrow> u64" where
  "first_vmOffset img segs = foldl (\<lambda>off seg. off - vm_bytes img seg) 0 (takeWhile (\<lambda>seg. filePageCount seg = 0) segs)"

fun disk_ranges :: "Image \<Rightarrow> u32 \<Rightarrow> u32 \<Rightarrow> u64 \<Rightarrow> DiskSegment list \<Rightarrow> SegmentRange list" where
  "disk_ranges img segIndex fileOff vmOff [] = []"
| "disk_ranges img segIndex fileOff vmOff (seg # segs) =
     (let size = file_bytes img seg;
          readOnlyData = (ds_permissions seg = 2);
          range = \<lparr>sr_segIndex = segIndex, sr_fileOffset = (if size = 0 then 0 else fileOff), sr_fileSize = size,
                   sr_vmOffset = vmOff, sr_vmSize = vm_bytes img seg,
                   sr_permissions = (if readOnlyData then 3 else ucast (ds_permissions seg)), sr_laterReadOnly = readOnlyData\<rparr>
      in if paddingNotSeg seg then disk_ranges img segIndex (fileOff + size) (vmOff + vm_bytes img seg) segs
         else range # disk_ranges img (segIndex + 1) (fileOff + size) (vmOff + vm_bytes img seg) segs)"

definition forEachDiskSegment :: "Image \<Rightarrow> SegmentRange list option" where
  "forEachDiskSegment img =
     map_option (\<lambda>segs. disk_ranges img 0 0 (first_vmOffset img segs) segs) (diskSegment img)"

definition cacheOffset :: "Image \<Rightarrow> u32 option" where
  "cacheOffset img = Option.bind (cacheSegment img) (\<lambda>segs. case segs of [] \<Rightarrow> None | s # ss \<Rightarrow> Some (cs_cacheOffset s))"

definition forEachCacheSegment :: "Image \<Rightarrow> SegmentRange list option" where
  "forEachCacheSegment img =
     map_option (\<lambda>segs. map (\<lambda>i. \<lparr>sr_segIndex = of_nat i, sr_fileOffset = 0, sr_fileSize = 0,
         sr_vmOffset = ucast (cs_cacheOffset (segs ! i) - cs_cacheOffset (segs ! 0)), sr_vmSize = ucast (cs_size (segs ! i)),
         sr_permissions = ucast (cs_permissions (segs ! i)), sr_laterReadOnly = False\<rparr>) [0 ..< length segs])
       (cacheSegment img)"

definition image_segments :: "Image \<Rightarrow> SegmentRange list option" where
  "image_segments img = (if image_inDyldCache img then forEachCacheSegment img else forEachDiskSegment img)"

definition textSize :: "Image \<Rightarrow> u64 option" where
  "textSize img =
     map_option (\<lambda>ranges. case List.find (\<lambda>r. image_inDyldCache img \<or> sr_permissions r \<noteq> 0) ranges of
         Some r \<Rightarrow> sr_vmSize r | None \<Rightarrow> 0)
       (image_segments img)"

definition range_contains :: "u64 \<Rightarrow> u64 \<Rightarrow> SegmentRange \<Rightarrow> bool" where
  "range_contains imageStart targetAddr r \<longleftrightarrow>
     targetAddr \<ge> imageStart + sr_vmOffset r \<and> targetAddr < imageStart + sr_vmOffset r + sr_vmSize r"

text \<open>\<open>containsAddress\<close>: the permissions of the segment that contains the address.\<close>

definition containsAddress :: "Image \<Rightarrow> u64 \<Rightarrow> u64 \<Rightarrow> u8 option option" where
  "containsAddress img addr imageLoadAddress =
     map_option (\<lambda>ranges. map_option sr_permissions (List.find (range_contains imageLoadAddress addr) ranges)) (image_segments img)"

text \<open>The product is one of 32-bit integers.\<close>

definition vmSizeToMap :: "Image \<Rightarrow> u64 option" where
  "vmSizeToMap img = map_option (\<lambda>info. ucast (totalVmPages info * pageSize img)) (mappingInfo img)"

definition sliceOffsetInFile :: "Image \<Rightarrow> u64 option" where
  "sliceOffsetInFile img = map_option (\<lambda>info. ucast (sliceOffsetIn4K info * 0x1000)) (mappingInfo img)"

section \<open>Initializers and terminators\<close>

definition offset_pointers :: "u64 \<Rightarrow> u32 list \<Rightarrow> u64 list" where
  "offset_pointers imageLoadAddress offsets = map (\<lambda>off. imageLoadAddress + ucast off) offsets"

definition section_pointers :: "(u64 \<Rightarrow> memory) \<Rightarrow> Image \<Rightarrow> u64 \<Rightarrow> InitializerSectionRange \<Rightarrow> u64 list" where
  "section_pointers macho img imageLoadAddress sect =
     (let m = macho imageLoadAddress; start = unat (sectionOffset sect); ptrSize = (if fl_is64 (flags img) then 8 else 4) in
      map (\<lambda>i. if ptrSize = 8 then read64 m (start + 8 * i) else ucast (read32 m (start + 4 * i)))
        [0 ..< unat (sectionSize sect) div ptrSize])"

definition forEachInitializer :: "(u64 \<Rightarrow> memory) \<Rightarrow> Image \<Rightarrow> u64 \<Rightarrow> u64 list" where
  "forEachInitializer macho img imageLoadAddress =
     (case initOffsets img of
        Some inits \<Rightarrow> offset_pointers imageLoadAddress inits
      | None \<Rightarrow> (case initsSection img of
          sect # sects \<Rightarrow> section_pointers macho img imageLoadAddress sect
        | [] \<Rightarrow> []))"

text \<open>The calls of the handler and the result.\<close>

definition forEachInitializerSection :: "Image \<Rightarrow> (u32 \<times> u32) list \<times> bool" where
  "forEachInitializerSection img =
     (map (\<lambda>sect. (sectionOffset sect, sectionSize sect)) (initsSection img), initsSection img \<noteq> [])"

definition hasInitializers :: "Image \<Rightarrow> bool" where
  "hasInitializers img \<longleftrightarrow> initOffsets img \<noteq> None"

definition forEachTerminator :: "Image \<Rightarrow> u64 \<Rightarrow> u64 list" where
  "forEachTerminator img imageLoadAddress = offset_pointers imageLoadAddress (termOffsets img)"

definition forEachDOF :: "Image \<Rightarrow> u64 \<Rightarrow> u64 list" where
  "forEachDOF img imageLoadAddress = offset_pointers imageLoadAddress (dofOffsets img)"

section \<open>Image arrays\<close>

record ImageArray =
  firstImageNum :: u32
  hasRoots :: bool
  array_images :: "Image list"

definition hasPath :: "ImageArray \<Rightarrow> string \<Rightarrow> u32 option" where
  "hasPath ia path = map_option imageNum (List.find (\<lambda>img. hasPathWithHash img path (hashFunction path)) (array_images ia))"

definition imageForNum :: "ImageArray \<Rightarrow> u32 \<Rightarrow> Image option" where
  "imageForNum ia num =
     (if hasRoots ia then List.find (\<lambda>img. imageNum img = num) (array_images ia)
      else if num < firstImageNum ia then None
      else (let index = num - firstImageNum ia in
            if unat index \<ge> length (array_images ia) then None else Some (array_images ia ! unat index)))"

text \<open>Later arrays take precedence.\<close>

fun findImage_from :: "ImageArray list \<Rightarrow> u32 \<Rightarrow> Image option" where
  "findImage_from [] num = None"
| "findImage_from (ia # ias) num = (case imageForNum ia num of Some img \<Rightarrow> Some img | None \<Rightarrow> findImage_from ias num)"

definition findImageInArrays :: "ImageArray list \<Rightarrow> u32 \<Rightarrow> Image option" where
  "findImageInArrays imagesArrays num = findImage_from (rev imagesArrays) num"

end
