(* ===== verification/Image_List.thy ===== *)
theory Image_List
  imports Closure_Image
begin

text \<open>
  The list of loaded images (\<open>src/dyld3/AllImages.cpp\<close>, \<open>src/dyld3/Loading.h\<close>): the packed \<open>LoadedImage\<close>, the reference
  counts of \<open>dlopen\<close>, and the mark and sweep collection that \<open>dlclose\<close> starts. The state is the record
  \<open>AllImages\<close>; its field \<open>events\<close> records, in order, the calls into code outside the loader (terminators, \<open>__cxa_finalize_ranges\<close>,
  notifiers, unmapping).

  A terminator may itself call \<open>dlclose\<close>, so a collection is re-entrant. The calls that are still to be made are an
  explicit stack of \<open>action\<close>s, and \<open>exec\<close> runs it; the handles a terminator or a finalizer closes are
  given by the parameter \<open>user\<close>. Code outside the loader that calls \<open>dlopen\<close> during a collection, which
  may move the array of images while the collector points into it, is not modelled, nor are locks: one thread runs. The mirror of the list for debuggers and the kernel
  (\<open>mirrorToOldAllImageInfos\<close>, tracing, monitors) is left out.
\<close>

section \<open>LoadedImage\<close>

text \<open>
  The load address of an image is page aligned; the low bits of the same word hold the state (3 bits) and two flags.
\<close>

type_synonym State = "3 word"

abbreviation unmapped :: State where "unmapped \<equiv> 0"
abbreviation mapped :: State where "mapped \<equiv> 1"
abbreviation fixedUp :: State where "fixedUp \<equiv> 2"
abbreviation beingInited :: State where "beingInited \<equiv> 3"
abbreviation inited :: State where "inited \<equiv> 4"

record LoadedImage =
  image :: Image
  li_loadAddr :: u64

definition loadedAddress :: "LoadedImage \<Rightarrow> u64" where
  "loadedAddress li = li_loadAddr li AND (- 4096)"

definition setLoadedAddress :: "u64 \<Rightarrow> LoadedImage \<Rightarrow> LoadedImage" where
  "setLoadedAddress a li = li\<lparr>li_loadAddr := li_loadAddr li OR (a AND (- 4096))\<rparr>"

definition state :: "LoadedImage \<Rightarrow> State" where
  "state li = ucast (li_loadAddr li)"

definition setState :: "State \<Rightarrow> LoadedImage \<Rightarrow> LoadedImage" where
  "setState s li = li\<lparr>li_loadAddr := (li_loadAddr li AND NOT 7) OR ucast s\<rparr>"

definition hideFromFlatSearch :: "LoadedImage \<Rightarrow> bool" where
  "hideFromFlatSearch li = bit (li_loadAddr li) 3"

definition setHideFromFlatSearch :: "bool \<Rightarrow> LoadedImage \<Rightarrow> LoadedImage" where
  "setHideFromFlatSearch h li = li\<lparr>li_loadAddr := (li_loadAddr li AND NOT 8) OR (if h then 8 else 0)\<rparr>"

definition leaveMapped :: "LoadedImage \<Rightarrow> bool" where
  "leaveMapped li = bit (li_loadAddr li) 4"

definition markLeaveMapped :: "LoadedImage \<Rightarrow> LoadedImage" where
  "markLeaveMapped li = li\<lparr>li_loadAddr := li_loadAddr li OR 16\<rparr>"

definition LoadedImage_make :: "Image \<Rightarrow> LoadedImage" where
  "LoadedImage_make img = \<lparr>image = img, li_loadAddr = 0\<rparr>"

definition LoadedImage_make_at :: "Image \<Rightarrow> u64 \<Rightarrow> LoadedImage" where
  "LoadedImage_make_at img mh = setLoadedAddress mh (LoadedImage_make img)"

section \<open>State\<close>

record DlopenCount =
  loadAddress :: u64
  refCount :: u64

datatype event =
    Terminator u64
  | FinalizeRanges "(u64 \<times> u64) list"
  | RemoveNotify u64 u64
  | ObjCUnmapped u64
  | Unmap u64 u64
  | PlusLoads u64
  | Initializer u64

record AllImages =
  loadedImages :: "LoadedImage list"
  initialImages :: "LoadedImage list option"
  dlopenRefCounts :: "DlopenCount list"
  gcCount :: u32
  lowestNonCached :: u64
  highestNonCached :: u64
  unloadNotifiers :: "u64 list"
  objcNotifyUnmapped :: bool
  objcNotifyInit :: bool
  initialLoadCount :: u32
  events :: "event list"

definition log_event :: "event \<Rightarrow> AllImages \<Rightarrow> AllImages" where
  "log_event e st = st\<lparr>events := events st @ [e]\<rparr>"

section \<open>Searching the list\<close>

definition addImages :: "LoadedImage list \<Rightarrow> AllImages \<Rightarrow> AllImages" where
  "addImages newImages st = st\<lparr>loadedImages := loadedImages st @ newImages\<rparr>"

definition findImage :: "AllImages \<Rightarrow> u64 \<Rightarrow> LoadedImage option" where
  "findImage st addr = List.find (\<lambda>li. loadedAddress li = addr) (loadedImages st)"

definition findImageNum :: "AllImages \<Rightarrow> u32 \<Rightarrow> LoadedImage option" where
  "findImageNum st num =
     List.find (\<lambda>li. representsImageNum (image li) num)
       (case initialImages st of Some initial \<Rightarrow> initial | None \<Rightarrow> loadedImages st)"

text \<open>\<open>None\<close> when the index is out of range, which \<open>dependentImageNum\<close> asserts against.\<close>

definition findDependent :: "AllImages \<Rightarrow> u64 \<Rightarrow> u32 \<Rightarrow> u64 option option" where
  "findDependent st mh depIndex =
     (case findImage st mh of
        None \<Rightarrow> Some None
      | Some li \<Rightarrow> map_option (\<lambda>num. map_option loadedAddress (findImageNum st num)) (dependentImageNum (image li) depIndex))"

definition recompute_step :: "(u64 \<Rightarrow> memory) \<Rightarrow> u64 \<times> u64 \<Rightarrow> LoadedImage \<Rightarrow> (u64 \<times> u64) option" where
  "recompute_step macho b li =
     (let start = loadedAddress li in
      if inDyldCache (macho start) then Some b
      else map_option (\<lambda>size. (min (fst b) start, max (snd b) (start + size))) (vmSizeToMap (image li)))"

fun recompute_loop :: "(u64 \<Rightarrow> memory) \<Rightarrow> u64 \<times> u64 \<Rightarrow> LoadedImage list \<Rightarrow> (u64 \<times> u64) option" where
  "recompute_loop macho b [] = Some b"
| "recompute_loop macho b (li # lis) = Option.bind (recompute_step macho b li) (\<lambda>b'. recompute_loop macho b' lis)"

definition recomputeBounds :: "(u64 \<Rightarrow> memory) \<Rightarrow> AllImages \<Rightarrow> AllImages option" where
  "recomputeBounds macho st =
     map_option (\<lambda>(low, high). st\<lparr>lowestNonCached := low, highestNonCached := high\<rparr>)
       (recompute_loop macho (- 1, 0) (loadedImages st))"

section \<open>Removing images\<close>

fun erase_first :: "('a \<Rightarrow> bool) \<Rightarrow> 'a list \<Rightarrow> 'a list" where
  "erase_first P [] = []"
| "erase_first P (x # xs) = (if P x then xs else x # erase_first P xs)"

definition erase_images :: "LoadedImage list \<Rightarrow> LoadedImage list \<Rightarrow> LoadedImage list" where
  "erase_images unloadImages images =
     foldl (\<lambda>images uli. erase_first (\<lambda>li. loadedAddress uli = loadedAddress li) images) images unloadImages"

definition removal_notices :: "AllImages \<Rightarrow> LoadedImage list \<Rightarrow> event list" where
  "removal_notices st unloadImages =
     concat (map (\<lambda>func. map (\<lambda>li. RemoveNotify func (loadedAddress li)) unloadImages) (unloadNotifiers st))
     @ (if objcNotifyUnmapped st
        then map (\<lambda>li. ObjCUnmapped (loadedAddress li)) (filter (\<lambda>li. hasObjC (image li)) unloadImages) else [])"

definition unmapImage :: "LoadedImage \<Rightarrow> event option" where
  "unmapImage li =
     (if loadedAddress li = 0 then None
      else map_option (Unmap (loadedAddress li)) (vmSizeToMap (image li)))"

fun unmap_all :: "LoadedImage list \<Rightarrow> event list option" where
  "unmap_all [] = Some []"
| "unmap_all (li # lis) =
     (if leaveMapped li then unmap_all lis
      else Option.bind (unmapImage li) (\<lambda>e. map_option ((#) e) (unmap_all lis)))"

definition removeImages :: "(u64 \<Rightarrow> memory) \<Rightarrow> LoadedImage list \<Rightarrow> AllImages \<Rightarrow> AllImages option" where
  "removeImages macho unloadImages st =
     Option.bind (recomputeBounds macho (st\<lparr>events := events st @ removal_notices st unloadImages,
                    loadedImages := erase_images unloadImages (loadedImages st)\<rparr>)) (\<lambda>st1.
       map_option (\<lambda>es. st1\<lparr>events := events st1 @ es\<rparr>) (unmap_all unloadImages))"

section \<open>Reference counts\<close>

fun inc_entry :: "u64 \<Rightarrow> DlopenCount list \<Rightarrow> DlopenCount list" where
  "inc_entry addr [] = [\<lparr>loadAddress = addr, refCount = 1\<rparr>]"
| "inc_entry addr (entry # entries) =
     (if loadAddress entry = addr then entry\<lparr>refCount := refCount entry + 1\<rparr> # entries
      else entry # inc_entry addr entries)"

definition incRefCount :: "u64 \<Rightarrow> AllImages \<Rightarrow> AllImages" where
  "incRefCount addr st = st\<lparr>dlopenRefCounts := inc_entry addr (dlopenRefCounts st)\<rparr>"

text \<open>The loop of \<open>decRefCount\<close>: the counts and \<open>doCollect\<close>.\<close>

fun dec_entry :: "u64 \<Rightarrow> DlopenCount list \<Rightarrow> DlopenCount list \<times> bool" where
  "dec_entry addr [] = ([], False)"
| "dec_entry addr (entry # entries) =
     (if loadAddress entry = addr then
        (let entry' = entry\<lparr>refCount := refCount entry - 1\<rparr> in
         if refCount entry' = 0 then (entries, True) else (entry' # entries, False))
      else (case dec_entry addr entries of (entries', doCollect) \<Rightarrow> (entry # entries', doCollect)))"

section \<open>The reaper\<close>

record ImageAndUse =
  iu_li :: LoadedImage
  inUse :: bool

fun mark_first :: "(ImageAndUse \<Rightarrow> bool) \<Rightarrow> ImageAndUse list \<Rightarrow> ImageAndUse list" where
  "mark_first P [] = []"
| "mark_first P (iu # us) = (if P iu then iu\<lparr>inUse := True\<rparr> # us else iu # mark_first P us)"

definition markDirectlyDlopenedImagesAsUsed :: "DlopenCount list \<Rightarrow> ImageAndUse list \<Rightarrow> ImageAndUse list" where
  "markDirectlyDlopenedImagesAsUsed entries unloadables =
     foldl (\<lambda>us entry. if refCount entry \<noteq> 0
              then mark_first (\<lambda>iu. loadedAddress (iu_li iu) = loadAddress entry) us else us)
       unloadables entries"

definition inUseCount :: "ImageAndUse list \<Rightarrow> u32" where
  "inUseCount us = of_nat (length (filter inUse us))"

definition markDependentsOf :: "LoadedImage \<Rightarrow> ImageAndUse list \<Rightarrow> ImageAndUse list" where
  "markDependentsOf li unloadables =
     foldl (\<lambda>us (kind, depImageNum). mark_first (\<lambda>iu. \<not> inUse iu \<and> representsImageNum (image (iu_li iu)) depImageNum) us)
       unloadables (forEachDependentImage (image li))"

definition markDependentOfInUseImages :: "ImageAndUse list \<Rightarrow> ImageAndUse list" where
  "markDependentOfInUseImages unloadables =
     foldl (\<lambda>us i. if inUse (us ! i) then markDependentsOf (iu_li (us ! i)) us else us)
       unloadables [0 ..< length unloadables]"

partial_function (option) gc_loop :: "ImageAndUse list \<Rightarrow> u32 \<Rightarrow> ImageAndUse list option" where
  "gc_loop us lastCount =
     (let us' = markDependentOfInUseImages us; newCount = inUseCount us' in
      if newCount \<noteq> lastCount then gc_loop us' newCount else Some us')"

text \<open>\<open>garbageCollect\<close>: the marked images and \<open>_deadCount\<close>.\<close>

definition garbageCollect :: "DlopenCount list \<Rightarrow> ImageAndUse list \<Rightarrow> (ImageAndUse list \<times> u32) option" where
  "garbageCollect entries unloadables =
     (let us = markDirectlyDlopenedImagesAsUsed entries unloadables in
      map_option (\<lambda>us'. (us', of_nat (length us') - inUseCount us')) (gc_loop us (inUseCount us)))"

definition executable_ranges :: "LoadedImage \<Rightarrow> (u64 \<times> u64) list option" where
  "executable_ranges li =
     map_option (\<lambda>segs. map (\<lambda>seg. (loadedAddress li + sr_vmOffset seg, sr_vmSize seg))
         (filter (\<lambda>seg. sr_permissions seg AND 4 \<noteq> 0) segs))
       (forEachDiskSegment (image li))"

section \<open>Collecting, with re-entry\<close>

datatype action =
    Dlclose u64
  | Collect
  | Pass
  | RunTerminators LoadedImage
  | CallTerminator u64
  | CxaFinalize "(u64 \<times> u64) list"
  | Sweep "ImageAndUse list"

record user_code =
  closes_in_terminator :: "u64 \<Rightarrow> u64 list"
  closes_in_finalizers :: "(u64 \<times> u64) list \<Rightarrow> u64 list"

definition decRefCount :: "u64 \<Rightarrow> AllImages \<Rightarrow> AllImages \<times> action list" where
  "decRefCount addr st =
     (case dec_entry addr (dlopenRefCounts st) of (entries, doCollect) \<Rightarrow>
        (st\<lparr>dlopenRefCounts := entries\<rparr>, if doCollect then [Collect] else []))"

text \<open>\<open>garbageCollectImages\<close> up to its loop: a request made during a collection only counts.\<close>

definition garbageCollectImages :: "AllImages \<Rightarrow> AllImages \<times> action list" where
  "garbageCollectImages st =
     (let newCount = gcCount st + 1 in
      (st\<lparr>gcCount := newCount\<rparr>, if newCount \<noteq> 1 then [] else [Pass]))"

definition unloadables_of :: "LoadedImage list \<Rightarrow> ImageAndUse list" where
  "unloadables_of images =
     map (\<lambda>li. \<lparr>iu_li = li, inUse = False\<rparr>) (filter (\<lambda>li. \<not> neverUnload (image li)) images)"

definition dead_images :: "ImageAndUse list \<Rightarrow> LoadedImage list" where
  "dead_images us = map iu_li (filter (\<lambda>iu. \<not> inUse iu) us)"

fun all_ranges :: "LoadedImage list \<Rightarrow> (u64 \<times> u64) list option" where
  "all_ranges [] = Some []"
| "all_ranges (li # lis) = Option.bind (executable_ranges li) (\<lambda>r. map_option ((@) r) (all_ranges lis))"

text \<open>\<open>finalizeDeadImages\<close>: the terminators of all dead images, then the C++ finalizers of their code.\<close>

definition finalizeDeadImages :: "u32 \<Rightarrow> ImageAndUse list \<Rightarrow> action list option" where
  "finalizeDeadImages deadCount us =
     (if deadCount = 0 then Some []
      else map_option (\<lambda>ranges. map RunTerminators (dead_images us) @ [CxaFinalize ranges]) (all_ranges (dead_images us)))"

definition runTerminators :: "build \<Rightarrow> (u64 \<Rightarrow> memory) \<Rightarrow> LoadedImage \<Rightarrow> action list" where
  "runTerminators B macho li =
     (if isArch B (macho (loadedAddress li)) ''arm64e'' then []
      else if hasTerminators (image li) then map CallTerminator (forEachTerminator (image li) (loadedAddress li)) else [])"

text \<open>The body of the loop of \<open>garbageCollectImages\<close>, before and after the calls it makes.\<close>

definition gc_pass :: "AllImages \<Rightarrow> (AllImages \<times> action list) option" where
  "gc_pass st =
     Option.bind (garbageCollect (dlopenRefCounts st) (unloadables_of (loadedImages st))) (\<lambda>(us, deadCount).
       map_option (\<lambda>calls. (st, calls @ [Sweep us])) (finalizeDeadImages deadCount us))"

definition gc_sweep :: "(u64 \<Rightarrow> memory) \<Rightarrow> ImageAndUse list \<Rightarrow> AllImages \<Rightarrow> (AllImages \<times> action list) option" where
  "gc_sweep macho us st =
     Option.bind (if dead_images us \<noteq> [] then removeImages macho (dead_images us) st else Some st) (\<lambda>st1.
       let newCount = gcCount st1 - 1 in
       Some (st1\<lparr>gcCount := newCount\<rparr>, if sint newCount > 0 then [Pass] else []))"

fun step :: "build \<Rightarrow> (u64 \<Rightarrow> memory) \<Rightarrow> user_code \<Rightarrow> AllImages \<Rightarrow> action \<Rightarrow> (AllImages \<times> action list) option" where
  "step B macho user st (Dlclose addr) = Some (decRefCount addr st)"
| "step B macho user st Collect = Some (garbageCollectImages st)"
| "step B macho user st Pass = gc_pass st"
| "step B macho user st (RunTerminators li) = Some (st, runTerminators B macho li)"
| "step B macho user st (CallTerminator addr) =
     Some (log_event (Terminator addr) st, map Dlclose (closes_in_terminator user addr))"
| "step B macho user st (CxaFinalize ranges) =
     Some (log_event (FinalizeRanges ranges) st, map Dlclose (closes_in_finalizers user ranges))"
| "step B macho user st (Sweep us) = gc_sweep macho us st"

partial_function (option) exec ::
    "build \<Rightarrow> (u64 \<Rightarrow> memory) \<Rightarrow> user_code \<Rightarrow> AllImages \<Rightarrow> action list \<Rightarrow> AllImages option" where
  "exec B macho user st actions =
     (case actions of
        [] \<Rightarrow> Some st
      | a # rest \<Rightarrow> Option.bind (step B macho user st a) (\<lambda>(st', more). exec B macho user st' (more @ rest)))"

section \<open>Packed fields\<close>

text \<open>Each setter of \<open>LoadedImage\<close> changes its own field only.\<close>

lemma bit_mask_fields: "bit (- 4096 :: int) n \<longleftrightarrow> 12 \<le> n" "bit (- 8 :: int) n \<longleftrightarrow> 3 \<le> n"
proof -
  have high: "(- 4096 :: int) = NOT (mask 12)" "(- 8 :: int) = NOT (mask 3)" by (simp_all add: mask_eq_exp_minus_1 not_int_def)
  show "bit (- 4096 :: int) n \<longleftrightarrow> 12 \<le> n" unfolding high bit_not_iff bit_mask_iff by auto
  show "bit (- 8 :: int) n \<longleftrightarrow> 3 \<le> n" unfolding high bit_not_iff bit_mask_iff by auto
qed

lemmas field_bits = bit_and_iff bit_or_iff bit_not_iff bit_unsigned_iff bit_mask_fields

lemma state_bits: "bit (state li) n \<longleftrightarrow> n < 3 \<and> bit (li_loadAddr li) n"
  by (auto simp: state_def bit_unsigned_iff dest: bit_imp_le_length)

lemma state_setState [simp]: "state (setState s li) = s"
  by (rule bit_eqI) (auto simp: state_bits setState_def field_bits dest: bit_imp_le_length)

lemma loadedAddress_setState [simp]: "loadedAddress (setState s li) = loadedAddress li"
  unfolding loadedAddress_def setState_def by (rule bit_eqI) (auto simp: field_bits dest: bit_imp_le_length)

lemma flags_setState [simp]:
  "hideFromFlatSearch (setState s li) = hideFromFlatSearch li" "leaveMapped (setState s li) = leaveMapped li"
  "image (setState s li) = image li"
  by (auto simp: setState_def hideFromFlatSearch_def leaveMapped_def field_bits dest: bit_imp_le_length)

lemma loadedAddress_make_at: "loadedAddress (LoadedImage_make_at img mh) = mh AND (- 4096)"
  by (simp add: LoadedImage_make_at_def LoadedImage_make_def setLoadedAddress_def loadedAddress_def and.assoc)

lemma setLoadedAddress_null: "setLoadedAddress 0 li = li"
  by (simp add: setLoadedAddress_def)

section \<open>Marking\<close>

definition mark_le :: "ImageAndUse list \<Rightarrow> ImageAndUse list \<Rightarrow> bool" where
  "mark_le us us' \<longleftrightarrow> list_all2 (\<lambda>a b. iu_li a = iu_li b \<and> (inUse a \<longrightarrow> inUse b)) us us'"

lemma mark_le_refl [simp]: "mark_le us us"
  by (simp add: mark_le_def list_all2_refl)

lemma mark_le_trans: "mark_le us us' \<Longrightarrow> mark_le us' us'' \<Longrightarrow> mark_le us us''"
  unfolding mark_le_def by (erule (1) list_all2_trans [rotated]) auto

lemma mark_le_antisym: "mark_le us us' \<Longrightarrow> mark_le us' us \<Longrightarrow> us = us'"
  unfolding mark_le_def by (erule (1) list_all2_antisym [rotated]) auto

lemma mark_le_images: "mark_le us us' \<Longrightarrow> map iu_li us' = map iu_li us"
  unfolding mark_le_def by (induction rule: list_all2_induct) simp_all

lemma mark_le_length: "mark_le us us' \<Longrightarrow> length us' = length us"
  by (simp add: mark_le_def list_all2_lengthD)

lemma mark_le_inUse: "mark_le us us' \<Longrightarrow> iu' \<in> set us' \<Longrightarrow> \<exists>iu\<in>set us. iu_li iu = iu_li iu' \<and> (inUse iu \<longrightarrow> inUse iu')"
  unfolding mark_le_def by (induction rule: list_all2_induct) auto

lemma mark_le_count:
  "mark_le us us' \<Longrightarrow> length (filter inUse us) \<le> length (filter inUse us')
     \<and> (length (filter inUse us) = length (filter inUse us') \<longrightarrow> us = us')"
  unfolding mark_le_def by (induction rule: list_all2_induct) auto

lemma mark_first_le: "mark_le us (mark_first P us)"
  by (induction us) (auto simp: mark_le_def list_all2_refl)

lemma foldl_le: "(\<And>us x. mark_le us (f us x)) \<Longrightarrow> mark_le us (foldl f us xs)"
  by (induction xs arbitrary: us) (auto intro: mark_le_trans)

text \<open>A chain of marking steps that ends where it began made no step.\<close>

lemma foldl_stable:
  assumes "\<And>us x. mark_le us (f us x)" and "foldl f us xs = us" and "x \<in> set xs"
  shows "f us x = us"
  using assms(2,3)
proof (induction xs)
  case (Cons y ys)
  have "mark_le (f us y) (foldl f (f us y) ys)" using assms(1) by (rule foldl_le)
  with Cons.prems(1) have "mark_le (f us y) us" by simp
  then have y: "f us y = us" using assms(1) by (intro mark_le_antisym)
  with Cons show ?case by auto
qed simp

lemma markDependentsOf_le: "mark_le us (markDependentsOf li us)"
  unfolding markDependentsOf_def by (intro foldl_le) (auto simp: mark_first_le split: prod.split)

lemma markDependentOfInUseImages_le: "mark_le us (markDependentOfInUseImages us)"
  unfolding markDependentOfInUseImages_def by (intro foldl_le) (auto simp: markDependentsOf_le)

lemma markDirectly_le: "mark_le us (markDirectlyDlopenedImagesAsUsed entries us)"
  unfolding markDirectlyDlopenedImagesAsUsed_def by (intro foldl_le) (auto simp: mark_first_le)

definition only_marks :: "(LoadedImage \<Rightarrow> bool) \<Rightarrow> ImageAndUse list \<Rightarrow> bool" where
  "only_marks N us \<longleftrightarrow> (\<forall>iu\<in>set us. inUse iu \<longrightarrow> N (iu_li iu))"

lemma only_marks_first:
  "only_marks N us \<Longrightarrow> (\<And>iu. iu \<in> set us \<Longrightarrow> P iu \<Longrightarrow> N (iu_li iu)) \<Longrightarrow> only_marks N (mark_first P us)"
  by (induction us) (auto simp: only_marks_def)

lemma only_marks_foldl:
  assumes "only_marks N us" and "\<And>us x. x \<in> set xs \<Longrightarrow> mark_le us0 us \<Longrightarrow> only_marks N us \<Longrightarrow> only_marks N (f us x)"
    and "\<And>us x. mark_le us (f us x)" and "mark_le us0 us"
  shows "only_marks N (foldl f us xs)"
  using assms(1,2,4)
proof (induction xs arbitrary: us)
  case (Cons x xs)
  have "only_marks N (f us x)" using Cons.prems by simp
  moreover have "mark_le us0 (f us x)" using Cons.prems(3) assms(3) by (rule mark_le_trans)
  ultimately show ?case using Cons by simp
qed simp

section \<open>The images in use\<close>

text \<open>
  What the marking reaches: images that may be unloaded and that \<open>dlopen\<close> holds a reference to, and the
  images that may be unloaded among what these depend on, directly or through other such images.
\<close>

inductive in_use :: "DlopenCount list \<Rightarrow> LoadedImage list \<Rightarrow> LoadedImage \<Rightarrow> bool"
  for entries images where
  opened: "\<lbrakk>li \<in> set images; \<not> neverUnload (image li); entry \<in> set entries; refCount entry \<noteq> 0;
     loadedAddress li = loadAddress entry\<rbrakk> \<Longrightarrow> in_use entries images li"
| dependent: "\<lbrakk>in_use entries images li; (kind, num) \<in> set (forEachDependentImage (image li));
     li' \<in> set images; \<not> neverUnload (image li'); representsImageNum (image li') num\<rbrakk> \<Longrightarrow> in_use entries images li'"

inductive_cases in_useE: "in_use entries images li"

lemma marked_same: "a\<lparr>inUse := True\<rparr> = a \<Longrightarrow> inUse a"
  by (cases a) simp

lemma mark_first_none: "mark_first P us = us \<Longrightarrow> (\<And>iu. P iu \<Longrightarrow> \<not> inUse iu) \<Longrightarrow> iu \<in> set us \<Longrightarrow> \<not> P iu"
  by (induction us) (auto split: if_splits dest: marked_same)

lemma marked_closed:
  assumes stable: "markDependentOfInUseImages us = us" and iu: "iu \<in> set us" "inUse iu"
    and dep: "(kind, num) \<in> set (forEachDependentImage (image (iu_li iu)))"
    and target: "iu' \<in> set us" "representsImageNum (image (iu_li iu')) num"
  shows "inUse iu'"
proof (rule ccontr)
  assume "\<not> inUse iu'"
  let ?P = "\<lambda>iu. \<not> inUse iu \<and> representsImageNum (image (iu_li iu)) num"
  obtain i where i: "i < length us" "us ! i = iu" using iu(1) by (auto simp: in_set_conv_nth)
  have "(if inUse (us ! i) then markDependentsOf (iu_li (us ! i)) us else us) = us"
    using stable i(1) unfolding markDependentOfInUseImages_def
    by (intro foldl_stable [where f = "\<lambda>us i. if inUse (us ! i) then markDependentsOf (iu_li (us ! i)) us else us"])
       (auto simp: markDependentsOf_le)
  with i(2) iu(2) have "markDependentsOf (iu_li iu) us = us" by simp
  then have "(case (kind, num) of (kind, num) \<Rightarrow> mark_first (\<lambda>iu. \<not> inUse iu \<and> representsImageNum (image (iu_li iu)) num) us) = us"
    using dep unfolding markDependentsOf_def
    by (intro foldl_stable [where f = "\<lambda>us (kind, num). mark_first (\<lambda>iu. \<not> inUse iu \<and> representsImageNum (image (iu_li iu)) num) us"])
       (auto simp: mark_first_le split: prod.split)
  then have "mark_first ?P us = us" by simp
  from mark_first_none [OF this _ target(1)] \<open>\<not> inUse iu'\<close> target(2) show False by auto
qed

lemma inUseCount_eq:
  assumes "mark_le us us'" and "length us < 2 ^ 32"
  shows "inUseCount us' = inUseCount us \<longleftrightarrow> us' = us"
proof
  assume eq: "inUseCount us' = inUseCount us"
  have "length (filter inUse us) < 2 ^ 32" "length (filter inUse us') < 2 ^ 32"
    using assms(2) mark_le_length [OF assms(1)] length_filter_le [of inUse us] length_filter_le [of inUse us'] by linarith+
  then have "unat (inUseCount us') = length (filter inUse us')" "unat (inUseCount us) = length (filter inUse us)"
    unfolding inUseCount_def by (simp_all add: unat_of_nat_u32)
  with eq have "length (filter inUse us') = length (filter inUse us)" by metis
  with mark_le_count [OF assms(1)] show "us' = us" by simp
qed simp

lemma gc_loop_fixpoint:
  assumes "length us < 2 ^ 32"
  shows "\<exists>us'. gc_loop us (inUseCount us) = Some us' \<and> mark_le us us' \<and> markDependentOfInUseImages us' = us'
    \<and> (\<forall>I. (\<forall>us. I us \<longrightarrow> I (markDependentOfInUseImages us)) \<longrightarrow> I us \<longrightarrow> I us')"
  using assms
proof (induction "length us - length (filter inUse us)" arbitrary: us rule: less_induct)
  case less
  let ?us = "markDependentOfInUseImages us"
  have le: "mark_le us ?us" by (rule markDependentOfInUseImages_le)
  show ?case
  proof (cases "?us = us")
    case True
    then show ?thesis by (intro exI [of _ us]) (simp add: gc_loop.simps)
  next
    case False
    have len: "length ?us = length us" using le by (rule mark_le_length)
    have "length (filter inUse us) < length (filter inUse ?us)" using mark_le_count [OF le] False by force
    moreover have "length (filter inUse ?us) \<le> length us" using length_filter_le [of inUse ?us] len by simp
    ultimately have "length ?us - length (filter inUse ?us) < length us - length (filter inUse us)" using len by linarith
    from less.hyps [OF this] less.prems len obtain us' where us': "gc_loop ?us (inUseCount ?us) = Some us'" "mark_le ?us us'"
      "markDependentOfInUseImages us' = us'"
      "\<forall>I. (\<forall>us. I us \<longrightarrow> I (markDependentOfInUseImages us)) \<longrightarrow> I ?us \<longrightarrow> I us'" by auto
    have "inUseCount ?us \<noteq> inUseCount us" using inUseCount_eq [OF le less.prems] False by simp
    then have "gc_loop us (inUseCount us) = Some us'" using us'(1) by (subst gc_loop.simps) (simp add: Let_def)
    moreover have "mark_le us us'" using le us'(2) by (rule mark_le_trans)
    ultimately show ?thesis using us'(3,4) by blast
  qed
qed

definition unloadable_images :: "LoadedImage list \<Rightarrow> LoadedImage list" where
  "unloadable_images images = filter (\<lambda>li. \<not> neverUnload (image li)) images"

lemma images_subset: "map iu_li us = unloadable_images images \<Longrightarrow> iu \<in> set us \<Longrightarrow>
    iu_li iu \<in> set images \<and> \<not> neverUnload (image (iu_li iu))"
  by (drule arg_cong [of _ _ set]) (auto simp: unloadable_images_def)

lemma markDependentsOf_sound:
  assumes us: "map iu_li us = unloadable_images images" and only: "only_marks (in_use entries images) us" and li: "in_use entries images li"
  shows "only_marks (in_use entries images) (markDependentsOf li us)"
  unfolding markDependentsOf_def using only
proof (rule only_marks_foldl [where ?us0.0 = us])
  fix us' and x :: "LinkKind \<times> u32"
  assume x: "x \<in> set (forEachDependentImage (image li))" and le: "mark_le us us'" and only': "only_marks (in_use entries images) us'"
  obtain kind num where [simp]: "x = (kind, num)" by (cases x)
  have "in_use entries images (iu_li iu)" if "iu \<in> set us'" "representsImageNum (image (iu_li iu)) num" for iu
    using images_subset [of us' images iu] mark_le_images [OF le] us li x that by (auto intro: in_use.dependent)
  then show "only_marks (in_use entries images)
      (case x of (kind, num) \<Rightarrow> mark_first (\<lambda>iu. \<not> inUse iu \<and> representsImageNum (image (iu_li iu)) num) us')"
    using only' by (auto intro!: only_marks_first)
qed (auto simp: mark_first_le split: prod.split)

lemma markDependentOfInUseImages_sound:
  assumes us: "map iu_li us = unloadable_images images" and only: "only_marks (in_use entries images) us"
  shows "only_marks (in_use entries images) (markDependentOfInUseImages us)"
  unfolding markDependentOfInUseImages_def using only
proof (rule only_marks_foldl [where ?us0.0 = us])
  fix us' i
  assume i: "i \<in> set [0 ..< length us]" and le: "mark_le us us'" and only': "only_marks (in_use entries images) us'"
  have "inUse (us' ! i) \<Longrightarrow> in_use entries images (iu_li (us' ! i))"
    using only' i mark_le_length [OF le] by (simp add: only_marks_def)
  then show "only_marks (in_use entries images) (if inUse (us' ! i) then markDependentsOf (iu_li (us' ! i)) us' else us')"
    using only' mark_le_images [OF le] us by (auto intro: markDependentsOf_sound)
qed (auto simp: markDependentsOf_le)

lemma mark_first_address:
  assumes "distinct (map (loadedAddress \<circ> iu_li) us)"
    and "iu \<in> set (mark_first (\<lambda>iu. loadedAddress (iu_li iu) = addr) us)" and "loadedAddress (iu_li iu) = addr"
  shows "inUse iu"
  using assms
proof (induction us)
  case (Cons a us)
  show ?case
  proof (cases "loadedAddress (iu_li a) = addr")
    case True
    have "iu \<notin> set us"
    proof
      assume "iu \<in> set us"
      then have "loadedAddress (iu_li iu) \<in> set (map (loadedAddress \<circ> iu_li) us)" by simp
      with Cons.prems(1,3) True show False by simp
    qed
    with Cons.prems(2) True show ?thesis by simp
  next
    case False
    then have "iu \<noteq> a" using Cons.prems(3) by blast
    with False Cons show ?thesis by simp
  qed
qed simp

lemma opened_marked:
  assumes "distinct (map (loadedAddress \<circ> iu_li) us)" and "entry \<in> set entries" and "refCount entry \<noteq> 0"
    and "iu \<in> set (markDirectlyDlopenedImagesAsUsed entries us)" and "loadedAddress (iu_li iu) = loadAddress entry"
  shows "inUse iu"
  using assms
proof (induction entries arbitrary: us)
  case (Cons e entries)
  let ?us = "if refCount e \<noteq> 0 then mark_first (\<lambda>iu. loadedAddress (iu_li iu) = loadAddress e) us else us"
  have le: "mark_le us ?us" by (simp add: mark_first_le)
  have rest: "markDirectlyDlopenedImagesAsUsed (e # entries) us = markDirectlyDlopenedImagesAsUsed entries ?us"
    by (simp add: markDirectlyDlopenedImagesAsUsed_def)
  have dist: "distinct (map (loadedAddress \<circ> iu_li) ?us)"
    using Cons.prems(1) unfolding map_map [symmetric] mark_le_images [OF le] by simp
  show ?case
  proof (cases "entry = e")
    case True
    obtain iu0 where iu0: "iu0 \<in> set ?us" "iu_li iu0 = iu_li iu" "inUse iu0 \<longrightarrow> inUse iu"
      using mark_le_inUse [OF markDirectly_le] Cons.prems(4) unfolding rest by blast
    have "inUse iu0" using mark_first_address [OF Cons.prems(1)] iu0(1,2) Cons.prems(3,5) True by auto
    with iu0(3) show ?thesis by simp
  next
    case False
    with Cons.IH [OF dist] Cons.prems rest show ?thesis by auto
  qed
qed simp

lemma markDirectly_sound:
  assumes us: "map iu_li us = unloadable_images images" and "only_marks (in_use entries images) us"
  shows "only_marks (in_use entries images) (markDirectlyDlopenedImagesAsUsed entries us)"
  unfolding markDirectlyDlopenedImagesAsUsed_def using assms(2)
proof (rule only_marks_foldl [where ?us0.0 = us])
  fix us' e
  assume e: "e \<in> set entries" and le: "mark_le us us'" and only': "only_marks (in_use entries images) us'"
  have "in_use entries images (iu_li iu)" if "iu \<in> set us'" "refCount e \<noteq> 0" "loadedAddress (iu_li iu) = loadAddress e" for iu
    using images_subset [of us' images iu] mark_le_images [OF le] us e that by (auto intro: in_use.opened)
  then show "only_marks (in_use entries images)
      (if refCount e \<noteq> 0 then mark_first (\<lambda>iu. loadedAddress (iu_li iu) = loadAddress e) us' else us')"
    using only' by (auto intro!: only_marks_first)
qed (auto simp: mark_first_le)

lemma in_use_marked:
  assumes "in_use entries images li"
    and us: "map iu_li us = unloadable_images images" and stable: "markDependentOfInUseImages us = us"
    and opened: "\<And>entry iu. entry \<in> set entries \<Longrightarrow> refCount entry \<noteq> 0 \<Longrightarrow> iu \<in> set us
       \<Longrightarrow> loadedAddress (iu_li iu) = loadAddress entry \<Longrightarrow> inUse iu"
  shows "\<forall>iu\<in>set us. iu_li iu = li \<longrightarrow> inUse iu"
  using assms(1)
proof induction
  case (opened li entry)
  then show ?case using assms(4) by blast
next
  case (dependent li kind num li')
  have "li \<in> set (unloadable_images images)" using dependent.hyps(1) by (cases rule: in_useE) (auto simp: unloadable_images_def)
  then obtain iu where "iu \<in> set us" "iu_li iu = li" unfolding us [symmetric] by auto
  with dependent marked_closed [OF stable] show ?case by blast
qed

lemma unloadables_of_simps:
  "map iu_li (unloadables_of images) = unloadable_images images" "length (unloadables_of images) \<le> length images"
  "only_marks N (unloadables_of images)"
  by (auto simp: unloadables_of_def unloadable_images_def only_marks_def o_def)

text \<open>The reaper ends and marks exactly the images in use.\<close>

lemma garbageCollect_exact:
  assumes small: "length images < 2 ^ 32" and dist: "distinct (map loadedAddress images)"
  shows "\<exists>us. garbageCollect entries (unloadables_of images) = Some (us, of_nat (length (dead_images us)))
    \<and> map iu_li us = unloadable_images images \<and> (\<forall>iu\<in>set us. inUse iu \<longleftrightarrow> in_use entries images (iu_li iu))"
proof -
  let ?us0 = "unloadables_of images" and ?U = "unloadable_images images" and ?N = "in_use entries images"
  let ?us1 = "markDirectlyDlopenedImagesAsUsed entries ?us0"
  have us1: "map iu_li ?us1 = ?U" "length ?us1 < 2 ^ 32" "only_marks ?N ?us1"
    using mark_le_images [OF markDirectly_le] mark_le_length [OF markDirectly_le, of entries ?us0] unloadables_of_simps(1,2) [of images] small
      markDirectly_sound [OF unloadables_of_simps(1) unloadables_of_simps(3)] by auto
  from gc_loop_fixpoint [OF us1(2)] obtain us where us: "gc_loop ?us1 (inUseCount ?us1) = Some us" "mark_le ?us1 us"
    "markDependentOfInUseImages us = us"
    "\<And>I. (\<forall>us. I us \<longrightarrow> I (markDependentOfInUseImages us)) \<Longrightarrow> I ?us1 \<Longrightarrow> I us" by blast
  have images: "map iu_li us = ?U" using mark_le_images [OF us(2)] us1(1) by simp
  have "(map iu_li us = ?U \<and> only_marks ?N us)"
  proof (rule us(4) [where I = "\<lambda>us. map iu_li us = ?U \<and> only_marks ?N us"], intro allI impI, elim conjE, intro conjI)
    fix us' assume us': "map iu_li us' = ?U" "only_marks ?N us'"
    show "map iu_li (markDependentOfInUseImages us') = ?U" using mark_le_images [OF markDependentOfInUseImages_le] us'(1) by metis
    show "only_marks ?N (markDependentOfInUseImages us')" using us' by (rule markDependentOfInUseImages_sound)
  qed (use us1 in simp_all)
  then have sound: "only_marks ?N us" by simp
  have dist': "distinct (map (loadedAddress \<circ> iu_li) ?us0)"
    using dist unfolding map_map [symmetric] unloadables_of_simps(1) unloadable_images_def by (rule distinct_map_filter)
  have opened: "inUse iu" if "entry \<in> set entries" "refCount entry \<noteq> 0" "iu \<in> set us" "loadedAddress (iu_li iu) = loadAddress entry" for entry iu
    using mark_le_inUse [OF us(2) that(3)] opened_marked [OF dist' that(1,2)] that(4) by metis
  have complete: "inUse iu" if "iu \<in> set us" "?N (iu_li iu)" for iu
    using in_use_marked [OF that(2) images us(3)] opened that(1) by blast
  have "length (dead_images us) + length (filter inUse us) = length us"
    using sum_length_filter_compl [of inUse us] by (simp add: dead_images_def)
  then have "of_nat (length us) - inUseCount us = of_nat (length (dead_images us))"
    unfolding inUseCount_def by (metis add_diff_cancel_right' of_nat_add)
  with us(1) have "garbageCollect entries ?us0 = Some (us, of_nat (length (dead_images us)))" by (simp add: garbageCollect_def Let_def)
  with images sound complete show ?thesis by (auto simp: only_marks_def)
qed

lemma dead_images_eq:
  assumes "map iu_li us = unloadable_images images" and "\<forall>iu\<in>set us. inUse iu \<longleftrightarrow> N (iu_li iu)"
  shows "dead_images us = filter (\<lambda>li. \<not> neverUnload (image li) \<and> \<not> N li) images"
proof -
  have "dead_images us = map iu_li (filter (\<lambda>iu. \<not> N (iu_li iu)) us)"
    unfolding dead_images_def using assms(2) by (intro arg_cong [of _ _ "map iu_li"] filter_cong refl) simp
  also have "\<dots> = filter (\<lambda>li. \<not> N li) (map iu_li us)" by (simp add: filter_map o_def)
  finally show ?thesis by (simp add: assms(1) unloadable_images_def conj_commute)
qed

lemma erase_first_filter:
  assumes "distinct (map f xs)" and "x \<in> set xs"
  shows "erase_first (\<lambda>y. f x = f y) xs = filter (\<lambda>y. f y \<noteq> f x) xs"
  using assms
proof (induction xs)
  case (Cons y ys)
  have "filter (\<lambda>z. f z \<noteq> f y) ys = ys"
    unfolding filter_id_conv using Cons.prems(1) by (metis distinct.simps(2) image_eqI list.simps(9) list.set_map)
  with Cons show ?case by auto
qed simp

lemma erase_images_filter:
  assumes "distinct (map loadedAddress images)" and "set dead \<subseteq> set images" and "distinct (map loadedAddress dead)"
  shows "erase_images dead images = filter (\<lambda>li. li \<notin> set dead) images"
  using assms
proof (induction dead arbitrary: images)
  case (Cons d dead)
  let ?rest = "filter (\<lambda>y. loadedAddress y \<noteq> loadedAddress d) images"
  have first: "erase_first (\<lambda>li. loadedAddress d = loadedAddress li) images = ?rest"
    using Cons.prems by (intro erase_first_filter) auto
  have same: "loadedAddress y = loadedAddress d \<longleftrightarrow> y = d" if "y \<in> set images" for y
    using Cons.prems(1,2) that inj_on_eq_iff [of loadedAddress "set images" y d] by (auto simp: distinct_map)
  have "erase_images dead ?rest = filter (\<lambda>li. li \<notin> set dead) ?rest"
    using Cons.prems by (intro Cons.IH) (auto simp: distinct_map_filter image_iff)
  also have "\<dots> = filter (\<lambda>li. li \<notin> set (d # dead)) images"
    using same by (auto intro!: filter_cong)
  finally show ?case by (simp add: erase_images_def first)
qed (simp add: erase_images_def)

section \<open>What the operations keep\<close>

definition roots :: "DlopenCount list \<Rightarrow> u64 set" where
  "roots entries = loadAddress ` {e \<in> set entries. refCount e \<noteq> 0}"

lemma in_use_mono:
  assumes "in_use E images li" and "roots E \<subseteq> roots E'" and "set images \<subseteq> set images'"
  shows "in_use E' images' li"
  using assms(1)
proof induction
  case (opened li entry)
  then have "loadAddress entry \<in> roots E'" using assms(2) by (auto simp: roots_def)
  with opened assms(3) show ?case by (auto simp: roots_def intro: in_use.opened)
next
  case (dependent li kind num li')
  with assms(3) show ?case by (auto intro: in_use.dependent)
qed

text \<open>The images a collection with these references keeps.\<close>

definition keep :: "DlopenCount list \<Rightarrow> LoadedImage list \<Rightarrow> LoadedImage \<Rightarrow> bool" where
  "keep entries images li \<longleftrightarrow> neverUnload (image li) \<or> in_use entries images li"

lemma in_use_kept:
  assumes "roots E' \<subseteq> roots E"
  shows "in_use E' (filter (keep E images) images) li \<longleftrightarrow> in_use E' images li"
proof
  assume "in_use E' images li"
  then show "in_use E' (filter (keep E images) images) li"
  proof induction
    case (opened li entry)
    have "in_use E images li" using in_use.opened [OF opened] assms by (rule in_use_mono) simp
    with opened show ?case by (auto simp: keep_def intro: in_use.opened)
  next
    case (dependent li kind num li')
    have "in_use E images li'" using in_use.dependent [OF dependent.hyps] assms by (rule in_use_mono) simp
    with dependent show ?case by (auto simp: keep_def intro: in_use.dependent)
  qed
qed (auto intro: in_use_mono)

lemma keep_twice:
  assumes "roots E' \<subseteq> roots E"
  shows "filter (keep E' (filter (keep E images) images)) (filter (keep E images) images) = filter (keep E' images) images"
proof -
  have "keep E images li" if "keep E' images li" for li
    using that in_use_mono [OF _ assms] by (auto simp: keep_def)
  then show ?thesis by (auto simp: keep_def [of E'] in_use_kept [OF assms] intro!: filter_cong)
qed

text \<open>
  What a program that goes on running needs: images that are never unloaded, images that \<open>dlopen\<close> holds a reference to, and
  everything these depend on. The marking keeps less: it does not follow the dependents of images that are never unloaded. Where
  those are never unloaded either, as when the closure builder hands the mark of an image on to the images it loads for
  its static links, the marking keeps exactly what is needed.
\<close>

inductive needed :: "DlopenCount list \<Rightarrow> LoadedImage list \<Rightarrow> LoadedImage \<Rightarrow> bool"
  for entries images where
  pinned: "\<lbrakk>li \<in> set images; neverUnload (image li)\<rbrakk> \<Longrightarrow> needed entries images li"
| opened: "\<lbrakk>li \<in> set images; entry \<in> set entries; refCount entry \<noteq> 0; loadedAddress li = loadAddress entry\<rbrakk>
    \<Longrightarrow> needed entries images li"
| dependent: "\<lbrakk>needed entries images li; (kind, num) \<in> set (forEachDependentImage (image li));
     li' \<in> set images; representsImageNum (image li') num\<rbrakk> \<Longrightarrow> needed entries images li'"

definition never_unload_closed :: "LoadedImage list \<Rightarrow> bool" where
  "never_unload_closed images \<longleftrightarrow>
     (\<forall>li\<in>set images. neverUnload (image li) \<longrightarrow>
        (\<forall>(kind, num)\<in>set (forEachDependentImage (image li)). \<forall>li'\<in>set images.
           representsImageNum (image li') num \<longrightarrow> neverUnload (image li')))"

lemma keep_needed:
  assumes "never_unload_closed images" and "li \<in> set images"
  shows "keep entries images li \<longleftrightarrow> needed entries images li"
proof
  have "in_use entries images li \<Longrightarrow> needed entries images li"
    by (induction rule: in_use.induct) (auto intro: needed.intros)
  then show "keep entries images li \<Longrightarrow> needed entries images li" using assms(2) by (auto simp: keep_def intro: needed.pinned)
  assume "needed entries images li"
  then show "keep entries images li"
  proof induction
    case (opened li entry)
    then show ?case by (auto simp: keep_def intro: in_use.opened)
  next
    case (dependent li kind num li')
    have "li \<in> set images" using dependent.hyps(1) by (cases rule: needed.cases) auto
    show ?case
    proof (cases "neverUnload (image li)")
      case True
      have "\<forall>x\<in>set (forEachDependentImage (image li)). \<forall>l\<in>set images. representsImageNum (image l) (snd x) \<longrightarrow> neverUnload (image l)"
        using assms(1) True \<open>li \<in> set images\<close> unfolding never_unload_closed_def case_prod_beta' by blast
      from bspec [OF this dependent.hyps(2)] dependent.hyps(3,4) show ?thesis by (simp add: keep_def)
    next
      case False
      with dependent.IH have "in_use entries images li" by (simp add: keep_def)
      from in_use.dependent [OF this dependent.hyps(2,3) _ dependent.hyps(4)] show ?thesis by (auto simp: keep_def)
    qed
  qed (simp add: keep_def)
qed

definition refs_ok :: "DlopenCount list \<Rightarrow> bool" where
  "refs_ok entries \<longleftrightarrow> distinct (map loadAddress entries) \<and> (\<forall>e\<in>set entries. refCount e \<noteq> 0)"

text \<open>The references held, by address.\<close>

definition refs :: "DlopenCount list \<Rightarrow> u64 \<Rightarrow> nat" where
  "refs entries addr = (case List.find (\<lambda>e. loadAddress e = addr) entries of Some e \<Rightarrow> unat (refCount e) | None \<Rightarrow> 0)"

lemma dec_entry_addresses: "dec_entry addr entries = (entries', c) \<Longrightarrow> set (map loadAddress entries') \<subseteq> set (map loadAddress entries)"
  by (induction entries arbitrary: entries') (fastforce simp: Let_def split: if_splits prod.splits)+

lemma roots_eq: "refs_ok entries \<Longrightarrow> roots entries = set (map loadAddress entries)"
  by (auto simp: roots_def refs_ok_def)

lemma dec_entry_ok:
  assumes "refs_ok entries" and "dec_entry addr entries = (entries', c)"
  shows "refs_ok entries' \<and> set (map loadAddress entries') \<subseteq> set (map loadAddress entries)
    \<and> (\<not> c \<longrightarrow> map loadAddress entries' = map loadAddress entries)
    \<and> length entries' = length entries - (if c then 1 else 0) \<and> (c \<longrightarrow> entries \<noteq> [])"
  using assms
proof (induction entries arbitrary: entries')
  case (Cons e entries)
  show ?case
  proof (cases "loadAddress e = addr")
    case True
    with Cons.prems show ?thesis by (auto simp: refs_ok_def Let_def split: if_splits)
  next
    case False
    then obtain es where es: "dec_entry addr entries = (es, c)" "entries' = e # es" using Cons.prems(2) by (auto split: prod.splits)
    have ok: "refs_ok entries" using Cons.prems(1) by (simp add: refs_ok_def)
    have "loadAddress e \<notin> set (map loadAddress es)"
      using Cons.prems(1) dec_entry_addresses [OF es(1)] by (auto simp: refs_ok_def)
    with Cons.IH [OF ok es(1)] Cons.prems(1) show ?thesis
      unfolding es(2) by (cases c; cases entries) (auto simp: refs_ok_def)
  qed
qed (simp add: refs_ok_def)

section \<open>Running actions\<close>

definition runs :: "build \<Rightarrow> (u64 \<Rightarrow> memory) \<Rightarrow> user_code \<Rightarrow> AllImages \<Rightarrow> action list \<Rightarrow> AllImages \<Rightarrow> bool" where
  "runs B macho user st cs st' \<longleftrightarrow> (\<forall>rest. exec B macho user st (cs @ rest) = exec B macho user st' rest)"

lemma runs_Nil: "runs B macho user st [] st"
  by (simp add: runs_def)

lemma runs_append: "runs B macho user st cs st1 \<Longrightarrow> runs B macho user st1 cs' st' \<Longrightarrow> runs B macho user st (cs @ cs') st'"
  by (simp add: runs_def)

lemma runs_step: "step B macho user st a = Some (st1, calls) \<Longrightarrow> runs B macho user st1 calls st' \<Longrightarrow> runs B macho user st [a] st'"
  unfolding runs_def by (subst exec.simps) simp

lemma runs_exec: "runs B macho user st cs st' \<Longrightarrow> exec B macho user st cs = Some st'"
  unfolding runs_def by (drule spec [of _ "[]"]) (simp add: exec.simps [of _ _ _ st' "[]"])

text \<open>
  During a collection every call into user code can close handles only: images stay, each handle that goes
  away is one more request, and without a new request the roots are the same.
\<close>

definition potential :: "AllImages \<Rightarrow> nat" where
  "potential st = unat (gcCount st) + length (dlopenRefCounts st)"

definition during :: "AllImages \<Rightarrow> AllImages \<Rightarrow> bool" where
  "during st st' \<longleftrightarrow> loadedImages st' = loadedImages st \<and> potential st' = potential st \<and> unat (gcCount st) \<le> unat (gcCount st')
     \<and> refs_ok (dlopenRefCounts st') \<and> roots (dlopenRefCounts st') \<subseteq> roots (dlopenRefCounts st)
     \<and> (gcCount st' = gcCount st \<longrightarrow> roots (dlopenRefCounts st') = roots (dlopenRefCounts st))"

definition collecting :: "AllImages \<Rightarrow> bool" where
  "collecting st \<longleftrightarrow> 0 < unat (gcCount st) \<and> potential st < 2 ^ 31 \<and> refs_ok (dlopenRefCounts st)"

lemma during_refl: "collecting st \<Longrightarrow> during st st"
  by (simp add: during_def collecting_def)

lemma during_log: "during (log_event e st) st' \<Longrightarrow> during st st'" "collecting (log_event e st) = collecting st"
  by (simp_all add: during_def collecting_def potential_def log_event_def)

lemma during_collecting: "collecting st \<Longrightarrow> during st st' \<Longrightarrow> collecting st'"
  by (auto simp: during_def collecting_def)

lemma during_trans: "during st st1 \<Longrightarrow> during st1 st2 \<Longrightarrow> during st st2"
  unfolding during_def by (auto simp: word_unat_eq_iff)

lemma nested_close:
  assumes "collecting st"
  shows "\<exists>st'. runs B macho user st [Dlclose addr] st' \<and> during st st'"
proof -
  obtain es c where dec: "dec_entry addr (dlopenRefCounts st) = (es, c)" by fastforce
  have ok: "refs_ok (dlopenRefCounts st)" using assms by (simp add: collecting_def)
  note es = dec_entry_ok [OF ok dec]
  have root: "roots es \<subseteq> roots (dlopenRefCounts st)" "\<not> c \<Longrightarrow> roots es = roots (dlopenRefCounts st)"
    using es ok by (simp_all add: roots_eq)
  let ?st = "st\<lparr>dlopenRefCounts := es\<rparr>"
  show ?thesis
  proof (cases c)
    case False
    then have "step B macho user st (Dlclose addr) = Some (?st, [])" using dec by (simp add: decRefCount_def)
    then have "runs B macho user st [Dlclose addr] ?st" by (rule runs_step) (rule runs_Nil)
    moreover have "during st ?st" using False es root by (simp add: during_def potential_def)
    ultimately show ?thesis by blast
  next
    case True
    let ?st' = "?st\<lparr>gcCount := gcCount st + 1\<rparr>"
    have gc: "gcCount st \<noteq> 0" "unat (gcCount st) < 2 ^ 31" using assms by (auto simp: collecting_def potential_def)
    then have inc: "unat (gcCount st + 1) = unat (gcCount st) + 1" by (simp add: unat_word_ariths)
    have "step B macho user st (Dlclose addr) = Some (?st, [Collect])" using dec True by (simp add: decRefCount_def)
    moreover have "step B macho user ?st Collect = Some (?st', [])"
      using gc(1) by (simp add: garbageCollectImages_def Let_def add_eq_self_zero)
    ultimately have "runs B macho user st [Dlclose addr] ?st'" by (blast intro: runs_step runs_Nil)
    moreover have "length (dlopenRefCounts st) > 0" "length es = length (dlopenRefCounts st) - 1" using es True by auto
    then have "during st ?st'" using es root inc by (auto simp: during_def potential_def word_unat_eq_iff)
    ultimately show ?thesis by blast
  qed
qed

lemma nested_all:
  assumes "collecting st" and one: "\<And>st x. collecting st \<Longrightarrow> \<exists>st'. runs B macho user st (f x) st' \<and> during st st'"
  shows "\<exists>st'. runs B macho user st (concat (map f xs)) st' \<and> during st st'"
  using assms(1)
proof (induction xs arbitrary: st)
  case Nil
  then show ?case by (auto intro: runs_Nil during_refl)
next
  case (Cons x xs)
  from one [OF Cons.prems] obtain st1 where st1: "runs B macho user st (f x) st1" "during st st1" by blast
  from Cons.IH [OF during_collecting [OF Cons.prems st1(2)]] obtain st' where "runs B macho user st1 (concat (map f xs)) st'" "during st1 st'" by blast
  with st1 show ?case by (auto intro: runs_append during_trans)
qed

lemma nested_each:
  assumes "collecting st" and "\<And>st x. collecting st \<Longrightarrow> \<exists>st'. runs B macho user st [f x] st' \<and> during st st'"
  shows "\<exists>st'. runs B macho user st (map f xs) st' \<and> during st st'"
  using nested_all [of st B macho user "\<lambda>x. [f x]" xs] assms by simp

lemma nested_user:
  assumes "collecting st" and "step B macho user st a = Some (log_event e st, map Dlclose addrs)"
  shows "\<exists>st'. runs B macho user st [a] st' \<and> during st st'"
proof -
  have "collecting (log_event e st)" using assms(1) by (simp add: during_log)
  then obtain st' where "runs B macho user (log_event e st) (map Dlclose addrs) st'" "during (log_event e st) st'"
    using nested_each [of "log_event e st" B macho user Dlclose addrs] nested_close by blast
  then have "runs B macho user st [a] st'" "during st st'" using assms(2) by (auto intro: runs_step during_log(1))
  then show ?thesis by blast
qed

lemma nested_terminator: "collecting st \<Longrightarrow> \<exists>st'. runs B macho user st [CallTerminator addr] st' \<and> during st st'"
  by (erule nested_user) simp

lemma nested_finalize: "collecting st \<Longrightarrow> \<exists>st'. runs B macho user st [CxaFinalize ranges] st' \<and> during st st'"
  by (erule nested_user) simp

lemma nested_runTerminators:
  assumes "collecting st"
  shows "\<exists>st'. runs B macho user st [RunTerminators li] st' \<and> during st st'"
proof -
  have "\<exists>addrs. runTerminators B macho li = map CallTerminator addrs" by (auto simp: runTerminators_def)
  then obtain addrs where addrs: "runTerminators B macho li = map CallTerminator addrs" ..
  from assms obtain st' where "runs B macho user st (map CallTerminator addrs) st'" "during st st'"
    using nested_each [of st B macho user CallTerminator addrs] nested_terminator by blast
  then have "runs B macho user st [RunTerminators li] st'" "during st st'" by (auto intro: runs_step simp: addrs)
  then show ?thesis by blast
qed

section \<open>A collection\<close>

text \<open>What the closures of loaded images provide: the attributes the collector asserts on.\<close>

definition image_ok :: "(u64 \<Rightarrow> memory) \<Rightarrow> LoadedImage \<Rightarrow> bool" where
  "image_ok macho li \<longleftrightarrow>
     (\<not> neverUnload (image li) \<longrightarrow> diskSegment (image li) \<noteq> None \<and> mappingInfo (image li) \<noteq> None \<and> loadedAddress li \<noteq> 0)
     \<and> (\<not> inDyldCache (macho (loadedAddress li)) \<longrightarrow> mappingInfo (image li) \<noteq> None)"

definition images_ok :: "(u64 \<Rightarrow> memory) \<Rightarrow> LoadedImage list \<Rightarrow> bool" where
  "images_ok macho images \<longleftrightarrow> length images < 2 ^ 32 \<and> distinct (map loadedAddress images) \<and> (\<forall>li\<in>set images. image_ok macho li)"

lemma images_ok_filter: "images_ok macho images \<Longrightarrow> images_ok macho (filter P images)"
  by (auto simp: images_ok_def distinct_map_filter intro: le_less_trans [OF length_filter_le])

lemma recompute_total:
  "(\<And>li. li \<in> set images \<Longrightarrow> image_ok macho li) \<Longrightarrow> \<exists>b'. recompute_loop macho b images = Some b'"
proof (induction images arbitrary: b)
  case (Cons li images)
  have "image_ok macho li" using Cons.prems by simp
  then have "\<exists>b'. recompute_step macho b li = Some b'"
    by (cases "mappingInfo (image li)") (auto simp: recompute_step_def image_ok_def vmSizeToMap_def Let_def)
  with Cons show ?case by fastforce
qed simp

lemma unmap_total:
  "(\<And>li. li \<in> set dead \<Longrightarrow> image_ok macho li \<and> \<not> neverUnload (image li)) \<Longrightarrow> \<exists>es. unmap_all dead = Some es"
proof (induction dead)
  case (Cons li dead)
  have "\<exists>e. unmapImage li = Some e" using Cons.prems [of li] by (auto simp: unmapImage_def image_ok_def vmSizeToMap_def)
  with Cons show ?case by fastforce
qed simp

lemma ranges_total:
  "(\<And>li. li \<in> set dead \<Longrightarrow> image_ok macho li \<and> \<not> neverUnload (image li)) \<Longrightarrow> \<exists>rs. all_ranges dead = Some rs"
proof (induction dead)
  case (Cons li dead)
  have "\<exists>r. executable_ranges li = Some r"
    using Cons.prems [of li] by (auto simp: executable_ranges_def image_ok_def forEachDiskSegment_def)
  with Cons show ?case by fastforce
qed simp

lemma removeImages_ok:
  assumes ok: "images_ok macho (loadedImages st)" and dead: "dead = filter (\<lambda>li. \<not> neverUnload (image li) \<and> \<not> N li) (loadedImages st)"
  shows "\<exists>st'. removeImages macho dead st = Some st' \<and> dlopenRefCounts st' = dlopenRefCounts st \<and> gcCount st' = gcCount st
    \<and> loadedImages st' = filter (\<lambda>li. neverUnload (image li) \<or> N li) (loadedImages st)"
proof -
  let ?es = "events st @ removal_notices st dead"
  let ?st = "st\<lparr>events := ?es, loadedImages := erase_images dead (loadedImages st)\<rparr>"
  have images: "erase_images dead (loadedImages st) = filter (\<lambda>li. neverUnload (image li) \<or> N li) (loadedImages st)"
    using ok by (subst erase_images_filter) (auto simp: images_ok_def dead distinct_map_filter intro!: filter_cong)
  obtain low high where b: "recompute_loop macho (- 1, 0) (loadedImages ?st) = Some (low, high)"
    using recompute_total [of "loadedImages ?st" macho "(- 1, 0)"] ok by (auto simp: images images_ok_def)
  obtain es where es: "unmap_all dead = Some es" using unmap_total [of dead macho] ok by (auto simp: dead images_ok_def)
  have "removeImages macho dead st = Some (?st\<lparr>lowestNonCached := low, highestNonCached := high, events := ?es @ es\<rparr>)"
    using b es by (simp add: removeImages_def recomputeBounds_def)
  then show ?thesis by (simp add: images)
qed

lemma pass_calls:
  assumes ok: "images_ok macho (loadedImages st)" and st: "collecting st"
  shows "\<exists>us st1. (\<forall>st'. runs B macho user st1 [Sweep us] st' \<longrightarrow> runs B macho user st [Pass] st') \<and> during st st1
    \<and> dead_images us = filter (\<lambda>li. \<not> neverUnload (image li) \<and> \<not> in_use (dlopenRefCounts st) (loadedImages st) li) (loadedImages st)"
proof -
  let ?E = "dlopenRefCounts st" and ?L = "loadedImages st"
  obtain us where us: "garbageCollect ?E (unloadables_of ?L) = Some (us, of_nat (length (dead_images us)))"
    "map iu_li us = unloadable_images ?L" "\<forall>iu\<in>set us. inUse iu \<longleftrightarrow> in_use ?E ?L (iu_li iu)"
    using garbageCollect_exact [of ?L ?E] ok by (auto simp: images_ok_def)
  have dead: "dead_images us = filter (\<lambda>li. \<not> neverUnload (image li) \<and> \<not> in_use ?E ?L li) ?L"
    using dead_images_eq [OF us(2), of "in_use ?E ?L"] us(3) by simp
  obtain rs where rs: "all_ranges (dead_images us) = Some rs"
    using ranges_total [of "dead_images us" macho] ok by (auto simp: dead images_ok_def)
  have "\<exists>calls. finalizeDeadImages (of_nat (length (dead_images us))) us = Some calls
      \<and> (calls = [] \<or> calls = map RunTerminators (dead_images us) @ [CxaFinalize rs])"
    using rs by (simp add: finalizeDeadImages_def)
  then obtain calls where calls: "finalizeDeadImages (of_nat (length (dead_images us))) us = Some calls"
    "calls = [] \<or> calls = map RunTerminators (dead_images us) @ [CxaFinalize rs]" by blast
  obtain st0 where st0: "runs B macho user st (map RunTerminators (dead_images us)) st0" "during st st0"
    using nested_each [of st B macho user RunTerminators] nested_runTerminators st by blast
  obtain st2 where "runs B macho user st0 [CxaFinalize rs] st2" "during st0 st2"
    using nested_finalize [OF during_collecting [OF st st0(2)]] by blast
  with st0 have "\<exists>st1. runs B macho user st calls st1 \<and> during st st1"
    using calls(2) runs_Nil during_refl [OF st] by (blast intro: runs_append during_trans)
  then obtain st1 where st1: "runs B macho user st calls st1" "during st st1" by blast
  have "step B macho user st Pass = Some (st, calls @ [Sweep us])" using us(1) calls(1) by (simp add: gc_pass_def)
  then have "runs B macho user st [Pass] st'" if "runs B macho user st1 [Sweep us] st'" for st'
    by (rule runs_step) (rule runs_append [OF st1(1) that])
  with st1(2) dead show ?thesis by blast
qed

lemma sweep_run:
  assumes ok: "images_ok macho (loadedImages st1)" and gc: "collecting st1"
    and dead: "dead_images us = filter (\<lambda>li. \<not> neverUnload (image li) \<and> \<not> N li) (loadedImages st1)"
  shows "\<exists>st2. step B macho user st1 (Sweep us) = Some (st2, if unat (gcCount st1) = 1 then [] else [Pass])
    \<and> dlopenRefCounts st2 = dlopenRefCounts st1 \<and> unat (gcCount st2) = unat (gcCount st1) - 1
    \<and> loadedImages st2 = filter (\<lambda>li. neverUnload (image li) \<or> N li) (loadedImages st1)"
proof -
  have pos: "0 < unat (gcCount st1)" "unat (gcCount st1) < 2 ^ 31" using gc by (simp_all add: collecting_def potential_def)
  then have less: "unat (gcCount st1 - 1) = unat (gcCount st1) - 1" by (simp add: unat_minus_one unat_gt_0)
  then have "uint (gcCount st1 - 1) = int (unat (gcCount st1) - 1)" by (metis uint_nat)
  moreover have "signed_take_bit 31 (int n) = int n" if "n < 2 ^ 31" for n
    using that by (intro signed_take_bit_int_eq_self) (simp_all add: le_less_trans [of _ 0])
  then have "signed_take_bit 31 (int (unat (gcCount st1) - 1)) = int (unat (gcCount st1) - 1)" using pos by (metis less_imp_diff_less)
  ultimately have signed: "sint (gcCount st1 - 1) = int (unat (gcCount st1) - 1)" by (simp only: sint_uint) simp
  have more_passes: "0 < sint (gcCount st1 - 1) \<longleftrightarrow> unat (gcCount st1) \<noteq> 1" unfolding signed using pos(1) by linarith
  have nil: "filter (\<lambda>li. neverUnload (image li) \<or> N li) (loadedImages st1) = loadedImages st1" if "dead_images us = []"
    using that unfolding dead filter_empty_conv filter_id_conv by blast
  from removeImages_ok [OF ok dead] obtain st' where st': "(if dead_images us \<noteq> [] then removeImages macho (dead_images us) st1 else Some st1) = Some st'"
    "dlopenRefCounts st' = dlopenRefCounts st1" "gcCount st' = gcCount st1"
    "loadedImages st' = filter (\<lambda>li. neverUnload (image li) \<or> N li) (loadedImages st1)"
    using nil by (cases "dead_images us = []") auto
  have "step B macho user st1 (Sweep us) = Some (st'\<lparr>gcCount := gcCount st1 - 1\<rparr>, if unat (gcCount st1) = 1 then [] else [Pass])"
    using st'(1,3) more_passes by (simp add: gc_sweep_def Let_def)
  with st' less show ?thesis by (intro exI [of _ "st'\<lparr>gcCount := gcCount st1 - 1\<rparr>"]) simp
qed

text \<open>The loop of \<open>garbageCollectImages\<close> ends, with nothing left that is not in use.\<close>

lemma collection_ends:
  assumes "images_ok macho (loadedImages st)" and "collecting st"
  shows "\<exists>st'. runs B macho user st [Pass] st' \<and> gcCount st' = 0 \<and> refs_ok (dlopenRefCounts st')
    \<and> roots (dlopenRefCounts st') \<subseteq> roots (dlopenRefCounts st)
    \<and> loadedImages st' = filter (keep (dlopenRefCounts st') (loadedImages st)) (loadedImages st)"
  using assms
proof (induction "potential st" arbitrary: st rule: less_induct)
  case less
  let ?E = "dlopenRefCounts st" and ?L = "loadedImages st"
  from pass_calls [OF less.prems] obtain us st1 where pass: "\<And>st'. runs B macho user st1 [Sweep us] st' \<Longrightarrow> runs B macho user st [Pass] st'"
    "during st st1" "dead_images us = filter (\<lambda>li. \<not> neverUnload (image li) \<and> \<not> in_use ?E ?L li) ?L" by blast
  have L: "loadedImages st1 = ?L" using pass(2) by (simp add: during_def)
  have gc: "collecting st1" using less.prems(2) pass(2) by (rule during_collecting)
  have keep_eq: "keep ?E ?L = (\<lambda>li. neverUnload (image li) \<or> in_use ?E ?L li)" by (simp add: keep_def fun_eq_iff)
  have ok1: "images_ok macho (loadedImages st1)" unfolding L by (rule less.prems(1))
  from sweep_run [OF ok1 gc, unfolded L, OF pass(3)] obtain st2 where
    st2: "step B macho user st1 (Sweep us) = Some (st2, if unat (gcCount st1) = 1 then [] else [Pass])"
      "dlopenRefCounts st2 = dlopenRefCounts st1" "unat (gcCount st2) = unat (gcCount st1) - 1" "loadedImages st2 = filter (keep ?E ?L) ?L"
    unfolding keep_eq by blast
  have sub: "roots (dlopenRefCounts st1) \<subseteq> roots ?E" using pass(2) by (simp add: during_def)
  show ?case
  proof (cases "unat (gcCount st1) = 1")
    case True
    then have "runs B macho user st [Pass] st2" using st2(1) by (intro pass(1) runs_step [OF _ runs_Nil]) simp
    moreover have "unat (gcCount st) = 1" using True pass(2) less.prems(2) by (auto simp: during_def collecting_def)
    then have "gcCount st1 = gcCount st" using True by (simp add: word_unat_eq_iff)
    then have "roots (dlopenRefCounts st1) = roots ?E" using pass(2) by (simp add: during_def)
    then have "keep (dlopenRefCounts st1) ?L = keep ?E ?L" by (auto simp: keep_def fun_eq_iff intro: in_use_mono)
    moreover have "gcCount st2 = 0" using st2(3) True by (simp add: unat_eq_0)
    ultimately show ?thesis using st2(2,4) sub gc by (auto simp: collecting_def intro!: exI [of _ st2])
  next
    case False
    have pos: "potential st1 = potential st" "1 < unat (gcCount st1)" using pass(2) gc False by (auto simp: during_def collecting_def)
    have "potential st2 < potential st" using st2(2,3) pos unfolding potential_def by simp
    moreover have "collecting st2" using gc st2(2,3) pos by (auto simp: collecting_def potential_def)
    moreover have "images_ok macho (loadedImages st2)" unfolding st2(4) using less.prems(1) by (rule images_ok_filter)
    ultimately obtain st' where st': "runs B macho user st2 [Pass] st'" "gcCount st' = 0" "refs_ok (dlopenRefCounts st')"
      "roots (dlopenRefCounts st') \<subseteq> roots (dlopenRefCounts st2)"
      "loadedImages st' = filter (keep (dlopenRefCounts st') (loadedImages st2)) (loadedImages st2)" using less.hyps by blast
    have "runs B macho user st [Pass] st'" using st2(1) False st'(1) by (intro pass(1) runs_step [OF _ st'(1)]) simp
    moreover have sub': "roots (dlopenRefCounts st') \<subseteq> roots ?E" using st'(4) st2(2) sub by auto
    moreover have "loadedImages st' = filter (keep (dlopenRefCounts st') ?L) ?L"
      unfolding st'(5) st2(4) by (rule keep_twice [OF sub'])
    ultimately show ?thesis using st'(2,3) by blast
  qed
qed

section \<open>Reference counts and collection\<close>

lemma refs_simps [simp]:
  "refs [] = (\<lambda>addr. 0)"
  "refs (e # es) = (\<lambda>addr. if loadAddress e = addr then unat (refCount e) else refs es addr)"
  by (simp_all add: refs_def fun_eq_iff)

lemma refs_absent: "addr \<notin> set (map loadAddress es) \<Longrightarrow> refs es addr = 0"
  by (induction es) auto

lemma roots_refs: "refs_ok es \<Longrightarrow> a \<in> roots es \<longleftrightarrow> refs es a \<noteq> 0"
proof (induction es)
  case (Cons e es)
  then have "refs_ok es" "refs es (loadAddress e) = 0" "refCount e \<noteq> 0" by (auto simp: refs_ok_def intro!: refs_absent)
  with Cons show ?case by (auto simp: roots_eq unat_eq_0)
qed (simp add: roots_def)

lemma in_use_rooted: "in_use E images li \<Longrightarrow> roots E \<noteq> {}"
  by (induction rule: in_use.induct) (auto simp: roots_def)

lemma dec_entry_refs:
  assumes "refs_ok es"
  shows "refs (fst (dec_entry addr es)) = (refs es)(addr := refs es addr - 1)" "snd (dec_entry addr es) \<longleftrightarrow> refs es addr = 1"
proof -
  have "refs (fst (dec_entry addr es)) = (refs es)(addr := refs es addr - 1) \<and> (snd (dec_entry addr es) \<longleftrightarrow> refs es addr = 1)"
    using assms
  proof (induction es)
    case (Cons e es)
    have ok: "refs_ok es" and nz: "refCount e \<noteq> 0" and new: "refs es (loadAddress e) = 0"
      using Cons.prems by (auto simp: refs_ok_def intro!: refs_absent)
    have dec: "unat (refCount e - 1) = unat (refCount e) - 1" using nz by (rule unat_minus_one)
    have one: "refCount e - 1 = 0 \<longleftrightarrow> unat (refCount e) = 1" by (metis unat_1 word_unat_eq_iff right_minus_eq)
    from Cons.IH [OF ok] dec one new show ?case by (auto simp: Let_def fun_eq_iff split: prod.split)
  qed (simp add: fun_eq_iff)
  then show "refs (fst (dec_entry addr es)) = (refs es)(addr := refs es addr - 1)" "snd (dec_entry addr es) \<longleftrightarrow> refs es addr = 1" by simp_all
qed

lemma inc_entry_addresses: "set (map loadAddress (inc_entry addr es)) = insert addr (set (map loadAddress es))"
  by (induction es) auto

lemma inc_entry_ok:
  assumes "refs_ok es" and "refs es addr < 2 ^ 64 - 1"
  shows "refs (inc_entry addr es) = (refs es)(addr := refs es addr + 1)" "refs_ok (inc_entry addr es)"
proof -
  have "refs (inc_entry addr es) = (refs es)(addr := refs es addr + 1) \<and> refs_ok (inc_entry addr es)"
    using assms
  proof (induction es)
    case (Cons e es)
    have ok: "refs_ok es" using Cons.prems(1) by (simp add: refs_ok_def)
    show ?case
    proof (cases "loadAddress e = addr")
      case True
      with Cons.prems(2) have "unat (refCount e + 1) = unat (refCount e) + 1" by (simp add: unat_word_ariths)
      moreover from this have "refCount e + 1 \<noteq> 0" by (metis add_is_0 one_neq_zero unat_0)
      ultimately show ?thesis using True Cons.prems(1) by (auto simp: refs_ok_def fun_eq_iff)
    next
      case False
      with Cons.IH [OF ok] Cons.prems inc_entry_addresses [of addr es] show ?thesis by (auto simp: refs_ok_def fun_eq_iff)
    qed
  qed (simp add: refs_ok_def fun_eq_iff)
  then show "refs (inc_entry addr es) = (refs es)(addr := refs es addr + 1)" "refs_ok (inc_entry addr es)" by simp_all
qed

text \<open>
  C27: the table of \<open>DlopenCount\<close> entries implements a count per load address. From a table with one non-zero entry per address,
  \<open>incRefCount\<close> adds one to the count of its address and \<open>decRefCount\<close> takes one off (nothing when there
  is none), leaving all other counts alone and the table in that form; \<open>decRefCount\<close> asks for a collection exactly when the
  count goes from one to zero.
\<close>

theorem refcounts_refine_counts:
  assumes "refs_ok (dlopenRefCounts st)" and "refs (dlopenRefCounts st) addr < 2 ^ 64 - 1"
  shows "refs (dlopenRefCounts (incRefCount addr st)) = (refs (dlopenRefCounts st))(addr := refs (dlopenRefCounts st) addr + 1)
    \<and> refs_ok (dlopenRefCounts (incRefCount addr st))
    \<and> refs (dlopenRefCounts (fst (decRefCount addr st))) = (refs (dlopenRefCounts st))(addr := refs (dlopenRefCounts st) addr - 1)
    \<and> refs_ok (dlopenRefCounts (fst (decRefCount addr st)))
    \<and> snd (decRefCount addr st) = (if refs (dlopenRefCounts st) addr = 1 then [Collect] else [])"
  using assms inc_entry_ok [OF assms] dec_entry_refs [OF assms(1), of addr] dec_entry_ok [OF assms(1), of addr]
  by (auto simp: incRefCount_def decRefCount_def split: prod.split)

definition no_images :: AllImages where
  "no_images = \<lparr>loadedImages = [], initialImages = None, dlopenRefCounts = [], gcCount = 0, lowestNonCached = - 1, highestNonCached = 0,
     unloadNotifiers = [], objcNotifyUnmapped = False, objcNotifyInit = False, initialLoadCount = 0, events = []\<rparr>"

theorem refcounts_refine_counts_witness:
  "refs (dlopenRefCounts (incRefCount 0x1000 (incRefCount 0x1000 no_images))) 0x1000 = 2
     \<and> snd (decRefCount 0x1000 (incRefCount 0x1000 no_images)) = [Collect]"
proof -
  let ?st = "incRefCount 0x1000 no_images"
  have "refs_ok (dlopenRefCounts ?st)" "refs (dlopenRefCounts ?st) 0x1000 = 1"
    by (simp_all add: incRefCount_def no_images_def refs_ok_def)
  with refcounts_refine_counts [where st = ?st and addr = "0x1000"] show ?thesis by simp
qed

text \<open>
  C4: closing a handle unloads what the marking does not reach. \<open>dlclose\<close> of a load address returns, also when
  terminators and C++ finalizers of unloaded images close further handles. When it drops the last reference, the images that
  remain are, in their old order, those that may never be unloaded and those reached from a remaining reference through images
  that may be unloaded; otherwise the list is unchanged. When the dependents of images that are never unloaded are never
  unloaded either, this is exactly what is needed: an image remains if and only if it may never be unloaded, or a remaining
  reference holds it, or an image that is needed depends on it. (Without that condition an unloadable image that only an image
  that is never unloaded depends on is unloaded.) The references that remain are among those there were before. No
  request for a collection is left pending.
\<close>

theorem dlclose_unloads_exactly:
  assumes "images_ok macho (loadedImages st)" and "refs_ok (dlopenRefCounts st)"
    and "gcCount st = 0" and "length (dlopenRefCounts st) < 2 ^ 31"
  shows "\<exists>st'. exec B macho user st [Dlclose addr] = Some st' \<and> gcCount st' = 0 \<and> refs_ok (dlopenRefCounts st')
    \<and> roots (dlopenRefCounts st') \<subseteq> roots (dlopenRefCounts st) - (if refs (dlopenRefCounts st) addr = 1 then {addr} else {})
    \<and> loadedImages st' = (if refs (dlopenRefCounts st) addr = 1
         then filter (keep (dlopenRefCounts st') (loadedImages st)) (loadedImages st) else loadedImages st)
    \<and> (refs (dlopenRefCounts st) addr = 1 \<and> never_unload_closed (loadedImages st) \<longrightarrow>
         loadedImages st' = filter (needed (dlopenRefCounts st') (loadedImages st)) (loadedImages st))"
proof (cases "refs (dlopenRefCounts st) addr = 1")
  case False
  obtain es where es: "dec_entry addr (dlopenRefCounts st) = (es, False)"
    using dec_entry_refs(2) [OF assms(2), of addr] False by (cases "dec_entry addr (dlopenRefCounts st)") auto
  then have "runs B macho user st [Dlclose addr] (st\<lparr>dlopenRefCounts := es\<rparr>)"
    by (intro runs_step [OF _ runs_Nil]) (simp add: decRefCount_def)
  then have "exec B macho user st [Dlclose addr] = Some (st\<lparr>dlopenRefCounts := es\<rparr>)" by (rule runs_exec)
  with False dec_entry_ok [OF assms(2) es] assms(2,3) show ?thesis by (simp add: roots_eq)
next
  case True
  obtain es where es: "dec_entry addr (dlopenRefCounts st) = (es, True)"
    using dec_entry_refs(2) [OF assms(2), of addr] True by (cases "dec_entry addr (dlopenRefCounts st)") auto
  let ?st = "st\<lparr>dlopenRefCounts := es, gcCount := 1\<rparr>"
  have "collecting ?st" using dec_entry_ok [OF assms(2) es] assms(4) by (auto simp: collecting_def potential_def)
  with collection_ends [of macho ?st B user] assms(1) obtain st' where st': "runs B macho user ?st [Pass] st'" "gcCount st' = 0"
    "refs_ok (dlopenRefCounts st')" "loadedImages st' = filter (keep (dlopenRefCounts st') (loadedImages st)) (loadedImages st)"
    "roots (dlopenRefCounts st') \<subseteq> roots es" by auto
  have "refs es addr = 0" using dec_entry_refs(1) [OF assms(2), of addr] True es by simp
  then have "addr \<notin> roots es" using roots_refs dec_entry_ok [OF assms(2) es] by simp
  moreover have "roots es \<subseteq> roots (dlopenRefCounts st)" using dec_entry_ok [OF assms(2) es] assms(2) by (simp add: roots_eq)
  ultimately have sub: "roots (dlopenRefCounts st') \<subseteq> roots (dlopenRefCounts st) - {addr}" using st'(5) by blast
  have "runs B macho user (st\<lparr>dlopenRefCounts := es\<rparr>) [Collect] st'"
    using assms(3) by (intro runs_step [OF _ st'(1)]) (simp add: garbageCollectImages_def)
  then have "runs B macho user st [Dlclose addr] st'" using es by (intro runs_step) (auto simp: decRefCount_def)
  then have "exec B macho user st [Dlclose addr] = Some st'" by (rule runs_exec)
  moreover have "never_unload_closed (loadedImages st) \<Longrightarrow>
      loadedImages st' = filter (needed (dlopenRefCounts st') (loadedImages st)) (loadedImages st)"
    unfolding st'(4) by (rule filter_cong) (simp_all add: keep_needed)
  ultimately show ?thesis using st'(2-4) sub True by (intro exI [of _ st']) simp
qed

text \<open>A program, a plugin it opened and a library only the plugin needs.\<close>

definition sample_flags :: "u16 \<Rightarrow> bool \<Rightarrow> Flags" where
  "sample_flags num never = \<lparr>fl_imageNum = num, fl_has16KBpages = False, fl_is64 = True, fl_hasObjC = False, fl_mayHavePlusLoads = False,
     fl_neverUnload = never, fl_isDylib = True, fl_inDyldCache = False, fl_hasTerminators = True, fl_hasOverrideImageNum = False,
     fl_fixupsNotEncoded = False\<rparr>"

definition sample_image :: "u16 \<Rightarrow> bool \<Rightarrow> 30 word list \<Rightarrow> Image" where
  "sample_image num never deps = \<lparr>flags = sample_flags num never, pathWithHash = [], fileInodeAndTime = None, codeSignLoc = None,
     fairPlayLoc = None, mappingInfo = Some \<lparr>totalVmPages = 2, sliceOffsetIn4K = 0\<rparr>,
     diskSegment = Some [\<lparr>filePageCount = 1, vmPageCount = 1, ds_permissions = 5, paddingNotSeg = False\<rparr>], cacheSegment = None,
     dependentsArray = map (\<lambda>n. \<lparr>linkKind = regular, imgNum = n\<rparr>) deps, initOffsets = Some [0x100], initsSection = [],
     initBefores = [], termOffsets = [0x200], dofOffsets = [], imageOverride = None\<rparr>"

definition sample_program :: LoadedImage where
  "sample_program = \<lparr>image = sample_image 0x2000 True [], li_loadAddr = 0x10000\<rparr>"
definition sample_plugin :: LoadedImage where
  "sample_plugin = \<lparr>image = sample_image 0x2001 False [0x2002], li_loadAddr = 0x20000\<rparr>"
definition sample_library :: LoadedImage where
  "sample_library = \<lparr>image = sample_image 0x2002 False [], li_loadAddr = 0x30000\<rparr>"

definition sample_images :: AllImages where
  "sample_images = incRefCount 0x20000 (addImages [sample_program, sample_plugin, sample_library] no_images)"

lemmas sample_image_defs = sample_images_def sample_program_def sample_plugin_def sample_library_def sample_image_def sample_flags_def
  addImages_def incRefCount_def no_images_def

theorem dlclose_unloads_exactly_witness:
  "\<exists>st'. exec dyld_build (\<lambda>addr i. 0) \<lparr>closes_in_terminator = \<lambda>f. [0x30000], closes_in_finalizers = \<lambda>r. []\<rparr> sample_images [Dlclose 0x20000] = Some st'
     \<and> loadedImages st' = [sample_program]
     \<and> loadedImages st' = filter (needed (dlopenRefCounts st') (loadedImages sample_images)) (loadedImages sample_images)"
proof -
  let ?user = "\<lparr>closes_in_terminator = \<lambda>f. [0x30000], closes_in_finalizers = \<lambda>r. []\<rparr>" and ?macho = "\<lambda>addr i. 0"
  have "images_ok ?macho (loadedImages sample_images)"
    by (simp add: images_ok_def image_ok_def sample_image_defs loadedAddress_def neverUnload_def)
  moreover have "refs_ok (dlopenRefCounts sample_images)" "gcCount sample_images = 0" "length (dlopenRefCounts sample_images) < 2 ^ 31"
    by (simp_all add: sample_image_defs refs_ok_def)
  moreover have "refs (dlopenRefCounts sample_images) 0x20000 = 1" "roots (dlopenRefCounts sample_images) = {0x20000}"
    by (auto simp: sample_image_defs roots_def)
  moreover have closed: "never_unload_closed (loadedImages sample_images)"
    by (auto simp: never_unload_closed_def neverUnload_def forEachDependentImage_def sample_image_defs)
  ultimately obtain st' where st': "exec dyld_build ?macho ?user sample_images [Dlclose 0x20000] = Some st'" "roots (dlopenRefCounts st') = {}"
    "loadedImages st' = filter (keep (dlopenRefCounts st') (loadedImages sample_images)) (loadedImages sample_images)"
    "loadedImages st' = filter (needed (dlopenRefCounts st') (loadedImages sample_images)) (loadedImages sample_images)"
    using dlclose_unloads_exactly [where macho = ?macho and st = sample_images and B = dyld_build and user = ?user and addr = "0x20000"] by auto
  have "\<not> in_use (dlopenRefCounts st') (loadedImages sample_images) li" for li using in_use_rooted st'(2) by blast
  then have "keep (dlopenRefCounts st') (loadedImages sample_images) = (\<lambda>li. neverUnload (image li))" by (simp add: keep_def fun_eq_iff)
  with st'(3) have "loadedImages st' = filter (\<lambda>li. neverUnload (image li)) (loadedImages sample_images)" by simp
  also have "\<dots> = [sample_program]" by (simp add: sample_image_defs neverUnload_def)
  finally show ?thesis using st'(1,4) by blast
qed

end
