(* ===== verification/Image_Init.thy ===== *)
theory Image_Init
  imports Image_List
begin

text \<open>
  Running initializers (\<open>src/dyld3/AllImages.cpp\<close>). The closure lists, for each image, what is to be initialized
  before it; \<open>runInitialzersBottomUp\<close> walks that list. An initializer may call \<open>dlopen\<close>, which adds images and
  starts another walk on the same thread, and several threads may do so at once: \<open>init_step\<close> is the
  interleaving of these walks. What is atomic in it is what runs under the lock of the image list
  (\<open>findImageNum\<close>, \<open>swapImageState\<close>, \<open>addImages\<close>) or is one call of an initializer. Images are not unloaded meanwhile.
\<close>

section \<open>Finding and changing an image's state\<close>

definition image_represents :: "LoadedImage list \<Rightarrow> u32 \<Rightarrow> u32 \<Rightarrow> bool" where
  "image_represents images indexHint num \<longleftrightarrow>
     unat indexHint < length images \<and> representsImageNum (image (images ! unat indexHint)) num"

fun search_from :: "LoadedImage list \<Rightarrow> u32 \<Rightarrow> nat \<Rightarrow> nat option" where
  "search_from [] num i = None"
| "search_from (li # lis) num i = (if representsImageNum (image li) num then Some i else search_from lis num (i + 1))"

text \<open>The index with the hint tried first; \<open>None\<close> when the assertion fails.\<close>

definition hinted_index :: "LoadedImage list \<Rightarrow> u32 \<Rightarrow> u32 \<Rightarrow> u32 option" where
  "hinted_index images num indexHint =
     (if image_represents images indexHint num then Some indexHint
      else map_option of_nat (search_from images num 0))"

definition findImageNum_hinted :: "AllImages \<Rightarrow> u32 \<Rightarrow> u32 \<Rightarrow> (LoadedImage \<times> u32) option" where
  "findImageNum_hinted st num indexHint =
     map_option (\<lambda>h. (loadedImages st ! unat h, h)) (hinted_index (loadedImages st) num indexHint)"

definition swapImageState :: "AllImages \<Rightarrow> u32 \<Rightarrow> u32 \<Rightarrow> State \<Rightarrow> State \<Rightarrow> (bool \<times> u32 \<times> AllImages) option" where
  "swapImageState st num indexHint expectedCurrentState newState =
     map_option (\<lambda>h.
         if state (loadedImages st ! unat h) = expectedCurrentState
         then (True, h, st\<lparr>loadedImages := (loadedImages st)[unat h := setState newState (loadedImages st ! unat h)]\<rparr>)
         else (False, h, st))
       (hinted_index (loadedImages st) num indexHint)"

definition notify_objc :: "LoadedImage \<Rightarrow> AllImages \<Rightarrow> AllImages" where
  "notify_objc li st =
     (if objcNotifyInit st \<and> mayHavePlusLoads (image li) then log_event (PlusLoads (loadedAddress li)) st else st)"

text \<open>The calls \<open>runAllInitializersInImage\<close> makes.\<close>

definition runAllInitializersInImage :: "(u64 \<Rightarrow> memory) \<Rightarrow> LoadedImage \<Rightarrow> u64 list" where
  "runAllInitializersInImage macho li = forEachInitializer macho (image li) (loadedAddress li)"

section \<open>One thread, initializers that do not call back\<close>

definition init_image :: "(u64 \<Rightarrow> memory) \<Rightarrow> AllImages \<Rightarrow> u32 \<Rightarrow> AllImages option" where
  "init_image macho st num =
     Option.bind (findImageNum_hinted st num 0) (\<lambda>(loadedImageCopy, h0).
       if state loadedImageCopy = fixedUp then
         Option.bind (swapImageState st num h0 fixedUp beingInited) (\<lambda>(swapped, h1, st1).
           if swapped then
             (let st2 = notify_objc loadedImageCopy st1;
                  st3 = st2\<lparr>events := events st2 @ map Initializer (runAllInitializersInImage macho loadedImageCopy)\<rparr>
              in map_option (\<lambda>(b, h2, st4). st4) (swapImageState st3 num h1 beingInited inited))
           else Some st1)
       else Some st)"

fun init_each :: "(u64 \<Rightarrow> memory) \<Rightarrow> AllImages \<Rightarrow> u32 list \<Rightarrow> AllImages option" where
  "init_each macho st [] = Some st"
| "init_each macho st (num # nums) = Option.bind (init_image macho st num) (\<lambda>st'. init_each macho st' nums)"

definition runInitialzersBottomUp :: "(u64 \<Rightarrow> memory) \<Rightarrow> Image \<Rightarrow> AllImages \<Rightarrow> AllImages option" where
  "runInitialzersBottomUp macho topImage st = init_each macho st (forEachImageToInitBefore topImage)"

lemma log_event_images [simp]: "loadedImages (log_event e st) = loadedImages st"
  by (simp add: log_event_def)

lemma notify_objc_images [simp]: "loadedImages (notify_objc li st) = loadedImages st"
  by (simp add: notify_objc_def)

lemma swap_length: "swapImageState st num h e s = Some (b, h', st') \<Longrightarrow> length (loadedImages st') = length (loadedImages st)"
  by (auto simp: swapImageState_def split: if_splits)

lemma init_image_length: "init_image macho st num = Some st' \<Longrightarrow> length (loadedImages st') = length (loadedImages st)"
  by (auto simp: init_image_def bind_eq_Some_conv Let_def dest!: swap_length split: if_splits)

lemma init_each_length: "init_each macho st nums = Some st' \<Longrightarrow> length (loadedImages st') = length (loadedImages st)"
  by (induction nums arbitrary: st) (auto simp: bind_eq_Some_conv dest: init_image_length)

text \<open>
  \<open>runStartupInitialzers\<close>: every image up to the main executable, in load order; \<open>None\<close> when there is none.
\<close>

function run_startup :: "(u64 \<Rightarrow> memory) \<Rightarrow> AllImages \<Rightarrow> nat \<Rightarrow> AllImages option" where
  "run_startup macho st imageIndex =
     (if imageIndex < length (loadedImages st) then
        (let li = loadedImages st ! imageIndex in
         case runInitialzersBottomUp macho (image li) st of
           None \<Rightarrow> None
         | Some st' \<Rightarrow>
             if isMainExecutable (macho (loadedAddress li)) then Some st' else run_startup macho st' (imageIndex + 1))
      else None)"
  by pat_completeness auto
termination
  by (relation "measure (\<lambda>(macho, st, i). length (loadedImages st) - i)")
     (auto simp: runInitialzersBottomUp_def dest!: init_each_length)

definition runStartupInitialzers :: "(u64 \<Rightarrow> memory) \<Rightarrow> AllImages \<Rightarrow> AllImages option" where
  "runStartupInitialzers macho st = run_startup macho st 0"

section \<open>Many threads\<close>

datatype frame =
    Each "u32 list"
  | Swap u32 LoadedImage u32
  | Running u32 LoadedImage u32 "u64 list"

record config =
  all_images :: AllImages
  threads :: "frame list list"
  ran :: "(u64 \<times> u64) list"

text \<open>One step of one thread: the stack of walks it is in, innermost first, and the calls of initializers so far.\<close>

inductive thread_step :: "(u64 \<Rightarrow> memory) \<Rightarrow> AllImages \<times> frame list \<times> (u64 \<times> u64) list \<Rightarrow>
    AllImages \<times> frame list \<times> (u64 \<times> u64) list \<Rightarrow> bool" for macho where
  walk_ends: "thread_step macho (st, Each [] # fs, r) (st, fs, r)"
| look_skips: "\<lbrakk>findImageNum_hinted st num 0 = Some (li, h); state li \<noteq> fixedUp\<rbrakk> \<Longrightarrow>
    thread_step macho (st, Each (num # nums) # fs, r) (st, Each nums # fs, r)"
| look_finds: "\<lbrakk>findImageNum_hinted st num 0 = Some (li, h); state li = fixedUp\<rbrakk> \<Longrightarrow>
    thread_step macho (st, Each (num # nums) # fs, r) (st, Swap num li h # Each nums # fs, r)"
| swap_fails: "swapImageState st num h fixedUp beingInited = Some (False, h', st') \<Longrightarrow>
    thread_step macho (st, Swap num li h # fs, r) (st', fs, r)"
| swap_succeeds: "swapImageState st num h fixedUp beingInited = Some (True, h', st') \<Longrightarrow>
    thread_step macho (st, Swap num li h # fs, r)
      (notify_objc li st', Running num li h' (runAllInitializersInImage macho li) # fs, r)"
| call_init: "thread_step macho (st, Running num li h (f # inits) # fs, r) (st, Running num li h inits # fs, r @ [(loadedAddress li, f)])"
| nested_walk: "thread_step macho (st, Running num li h inits # fs, r) (st, Each nums # Running num li h inits # fs, r)"
| init_ends: "swapImageState st num h beingInited inited = Some (b, h', st') \<Longrightarrow>
    thread_step macho (st, Running num li h [] # fs, r) (st', fs, r)"

inductive init_step :: "(u64 \<Rightarrow> memory) \<Rightarrow> config \<Rightarrow> config \<Rightarrow> bool" for macho where
  thread: "\<lbrakk>t < length (threads c); thread_step macho (all_images c, threads c ! t, ran c) (st', fs', r')\<rbrakk> \<Longrightarrow>
    init_step macho c (c\<lparr>all_images := st', threads := (threads c)[t := fs'], ran := r'\<rparr>)"
| spawn: "init_step macho c (c\<lparr>threads := threads c @ [[Each nums]]\<rparr>)"
| load: "\<lbrakk>\<forall>li\<in>set new. state li = fixedUp; distinct (map loadedAddress (loadedImages (all_images c) @ new));
     length (loadedImages (all_images c) @ new) < 2 ^ 32\<rbrakk> \<Longrightarrow>
    init_step macho c (c\<lparr>all_images := addImages new (all_images c)\<rparr>)"

inductive_cases thread_stepE: "thread_step macho (st, fs, r) (st', fs', r')"

section \<open>Every initializer runs once\<close>

text \<open>
  The invariant. An image that no thread is initializing is either waiting, with none of its initializers called, or done, with each called once, in order.
  An image being initialized belongs to one walk, which still has exactly the remaining calls to make.
\<close>

definition calls_of :: "u64 \<Rightarrow> (u64 \<times> u64) list \<Rightarrow> u64 list" where
  "calls_of addr r = map snd (filter (\<lambda>c. fst c = addr) r)"

fun running_at :: "frame \<Rightarrow> nat list" where
  "running_at (Running num li h inits) = [unat h]"
| "running_at f = []"

definition running :: "frame list list \<Rightarrow> nat list" where
  "running ts = concat (map (\<lambda>fs. concat (map running_at fs)) ts)"

definition same_image :: "LoadedImage list \<Rightarrow> u32 \<Rightarrow> LoadedImage \<Rightarrow> u32 \<Rightarrow> bool" where
  "same_image images num li h \<longleftrightarrow> image_represents images h num
     \<and> image (images ! unat h) = image li \<and> loadedAddress (images ! unat h) = loadedAddress li"

fun frame_ok :: "(u64 \<Rightarrow> memory) \<Rightarrow> LoadedImage list \<Rightarrow> (u64 \<times> u64) list \<Rightarrow> frame \<Rightarrow> bool" where
  "frame_ok macho images r (Each nums) = True"
| "frame_ok macho images r (Swap num li h) = same_image images num li h"
| "frame_ok macho images r (Running num li h inits) \<longleftrightarrow> same_image images num li h \<and> state (images ! unat h) = beingInited
     \<and> calls_of (loadedAddress li) r @ inits = runAllInitializersInImage macho li"

definition settled :: "(u64 \<Rightarrow> memory) \<Rightarrow> (u64 \<times> u64) list \<Rightarrow> LoadedImage \<Rightarrow> bool" where
  "settled macho r li \<longleftrightarrow>
     (state li = fixedUp \<and> calls_of (loadedAddress li) r = [])
     \<or> (state li = inited \<and> calls_of (loadedAddress li) r = runAllInitializersInImage macho li)"

definition images_inv :: "(u64 \<Rightarrow> memory) \<Rightarrow> LoadedImage list \<Rightarrow> nat list \<Rightarrow> (u64 \<times> u64) list \<Rightarrow> bool" where
  "images_inv macho images run r \<longleftrightarrow> length images < 2 ^ 32 \<and> distinct (map loadedAddress images) \<and> distinct run
     \<and> (\<forall>i<length images. i \<notin> set run \<longrightarrow> settled macho r (images ! i)) \<and> fst ` set r \<subseteq> set (map loadedAddress images)"

definition init_inv :: "(u64 \<Rightarrow> memory) \<Rightarrow> config \<Rightarrow> bool" where
  "init_inv macho c \<longleftrightarrow> images_inv macho (loadedImages (all_images c)) (running (threads c)) (ran c)
     \<and> (\<forall>fs\<in>set (threads c). \<forall>f\<in>set fs. frame_ok macho (loadedImages (all_images c)) (ran c) f)"

text \<open>The index of an image does not change once it is found.\<close>

lemma search_from_Some:
  "search_from images num i = Some j \<Longrightarrow> i \<le> j \<and> j - i < length images \<and> representsImageNum (image (images ! (j - i))) num"
proof (induction images arbitrary: i)
  case (Cons li images)
  show ?case
  proof (cases "representsImageNum (image li) num")
    case False
    with Cons.prems have "search_from images num (i + 1) = Some j" by simp
    from Cons.IH [OF this] have "i < j" "j - (i + 1) < length images" "representsImageNum (image (images ! (j - (i + 1)))) num" by auto
    moreover from this have "j - i = Suc (j - (i + 1))" by simp
    ultimately show ?thesis by simp
  qed (use Cons.prems in simp)
qed simp

lemma hinted_index_ok:
  assumes "length images < 2 ^ 32" and "hinted_index images num h0 = Some h"
  shows "image_represents images h num"
proof (cases "image_represents images h0 num")
  case False
  with assms(2) obtain j where j: "search_from images num 0 = Some j" "h = of_nat j" by (auto simp: hinted_index_def)
  from search_from_Some [OF j(1)] assms(1) have "j < length images" "unat (of_nat j :: u32) = j" "representsImageNum (image (images ! j)) num"
    by (auto simp: unat_of_nat_u32)
  with j(2) show ?thesis by (simp add: image_represents_def)
qed (use assms(2) in \<open>simp add: hinted_index_def\<close>)

lemma swap_at:
  assumes "image_represents (loadedImages st) h num"
  shows "swapImageState st num h e s = Some (b, h', st') \<longleftrightarrow> h' = h \<and> b = (state (loadedImages st ! unat h) = e)
    \<and> st' = (if b then st\<lparr>loadedImages := (loadedImages st)[unat h := setState s (loadedImages st ! unat h)]\<rparr> else st)"
  using assms by (auto simp: swapImageState_def hinted_index_def)

lemma calls_of_append: "calls_of a (r @ [(b, f)]) = calls_of a r @ (if b = a then [f] else [])"
  by (simp add: calls_of_def)

lemma running_split: "running (pre @ fs # post) = running pre @ concat (map running_at fs) @ running post"
  by (simp add: running_def)

lemma same_image_update [simp]: "same_image (images[i := setState s (images ! i)]) num li h = same_image images num li h"
  by (cases "i = unat h") (auto simp: same_image_def image_represents_def nth_list_update)

lemma frame_ok_update:
  assumes "frame_ok macho images r f" and "i \<notin> set (running_at f)"
  shows "frame_ok macho (images[i := setState s (images ! i)]) r f"
  using assms by (cases f) auto

lemma frame_ok_call:
  assumes "frame_ok macho images r f" and "distinct (map loadedAddress images)" and "i < length images" and "i \<notin> set (running_at f)"
  shows "frame_ok macho images (r @ [(loadedAddress (images ! i), x)]) f"
proof (cases f)
  case (Running num li h inits)
  with assms have h: "unat h < length images" "i \<noteq> unat h" "loadedAddress (images ! unat h) = loadedAddress li"
    by (auto simp: same_image_def image_represents_def)
  then have "loadedAddress (images ! i) \<noteq> loadedAddress li"
    using assms(2,3) nth_eq_iff_index_eq [of "map loadedAddress images" i "unat h"] by auto
  with assms(1) Running show ?thesis by (simp add: calls_of_append)
qed (use assms in auto)

lemma inv_update:
  assumes inv: "images_inv macho images run r" and "i < length images"
    and "distinct run'" and "set run - {i} \<subseteq> set run'" and "i \<notin> set run' \<Longrightarrow> settled macho r (setState s (images ! i))"
  shows "images_inv macho (images[i := setState s (images ! i)]) run' r"
proof -
  have "map loadedAddress (images[i := setState s (images ! i)]) = map loadedAddress images"
    using assms(2) by (simp add: map_update list_update_same_conv)
  then show ?thesis using assms unfolding images_inv_def by (auto simp: nth_list_update)
qed

lemma inv_call:
  assumes inv: "images_inv macho images run r" and "i < length images" and "i \<in> set run"
  shows "images_inv macho images run (r @ [(loadedAddress (images ! i), x)])"
proof -
  have "loadedAddress (images ! i) \<noteq> loadedAddress (images ! j)" if "j < length images" "j \<notin> set run" for j
    using inv assms(2,3) that nth_eq_iff_index_eq [of "map loadedAddress images" i j] by (auto simp: images_inv_def)
  then show ?thesis using inv assms(2) unfolding images_inv_def by (auto simp: settled_def calls_of_append)
qed

lemma settled_states: "settled macho r li \<Longrightarrow> state li = fixedUp \<Longrightarrow> calls_of (loadedAddress li) r = []"
  by (auto simp: settled_def)

lemma thread_step_inv:
  assumes "thread_step macho (st, fs, r) (st', fs', r')"
    and inv: "images_inv macho (loadedImages st) (pre @ concat (map running_at fs) @ post) r"
    and mine: "\<forall>f\<in>set fs. frame_ok macho (loadedImages st) r f"
    and others: "\<forall>f\<in>F. frame_ok macho (loadedImages st) r f \<and> set (running_at f) \<subseteq> set (pre @ post)"
    and busy: "\<forall>j\<in>set (pre @ post). state (loadedImages st ! j) = beingInited"
  shows "images_inv macho (loadedImages st') (pre @ concat (map running_at fs') @ post) r'
    \<and> (\<forall>f\<in>set fs' \<union> F. frame_ok macho (loadedImages st') r' f)"
  using assms(1)
proof (cases rule: thread_step.cases)
  case walk_ends
  then show ?thesis using inv mine others by auto
next
  case look_skips
  then show ?thesis using inv mine others by auto
next
  case (look_finds num li h nums fs0)
  have "image_represents (loadedImages st) h num"
    using look_finds inv by (auto simp: findImageNum_hinted_def images_inv_def intro: hinted_index_ok)
  with look_finds inv mine others show ?thesis by (auto simp: findImageNum_hinted_def same_image_def)
next
  case (swap_fails num h h' li)
  have "image_represents (loadedImages st) h num" using mine swap_fails by (simp add: same_image_def)
  with swap_fails inv mine others show ?thesis by (auto simp: swap_at)
next
  case nested_walk
  then show ?thesis using inv mine others by auto
next
  case (call_init num li h f inits fs0)
  have h: "unat h < length (loadedImages st)" "loadedAddress li = loadedAddress (loadedImages st ! unat h)"
    using mine call_init by (auto simp: same_image_def image_represents_def)
  have dist: "distinct (map loadedAddress (loadedImages st))" "unat h \<notin> set (pre @ concat (map running_at fs0) @ post)"
    using inv call_init by (auto simp: images_inv_def)
  have "images_inv macho (loadedImages st') (pre @ concat (map running_at fs') @ post) r'"
    using inv_call [OF inv h(1)] call_init unfolding h(2) by simp
  moreover have "frame_ok macho (loadedImages st) (r @ [(loadedAddress li, f)]) f'" if "f' \<in> set fs0 \<union> F" for f'
    using that mine others call_init dist(2) unfolding h(2) by (intro frame_ok_call dist(1) h(1)) auto
  moreover have "frame_ok macho (loadedImages st) (r @ [(loadedAddress li, f)]) (Running num li h inits)"
    using mine call_init by (simp add: calls_of_append)
  ultimately show ?thesis using call_init by auto
next
  case (swap_succeeds num h h' st1 li fs0)
  let ?L = "loadedImages st" and ?i = "unat h"
  have same: "same_image ?L num li h" using mine swap_succeeds by simp
  then have i: "?i < length ?L" "image_represents ?L h num" by (auto simp: same_image_def image_represents_def)
  have st1: "h' = h" "state (?L ! ?i) = fixedUp" "loadedImages st' = ?L[?i := setState beingInited (?L ! ?i)]"
    using swap_succeeds by (auto simp: swap_at [OF i(2)])
  have free: "?i \<notin> set (running_at f)" if "f \<in> set fs0" for f
  proof -
    have "frame_ok macho ?L r f" using that mine swap_succeeds(1) by simp
    with st1(2) show ?thesis by (cases f) auto
  qed
  then have out: "?i \<notin> set (pre @ concat (map running_at fs0) @ post)" using busy st1(2) by auto
  have fs': "concat (map running_at fs') = ?i # concat (map running_at fs0)" "concat (map running_at fs) = concat (map running_at fs0)"
    using swap_succeeds st1(1) by simp_all
  have none: "calls_of (loadedAddress li) r = []"
  proof -
    have "settled macho r (?L ! ?i)" using inv i(1) out fs'(2) by (simp add: images_inv_def)
    from settled_states [OF this st1(2)] same show ?thesis by (simp add: same_image_def)
  qed
  have "images_inv macho (loadedImages st') (pre @ concat (map running_at fs') @ post) r'"
    unfolding st1(3) fs'(1) \<open>r' = r\<close>
  proof (rule inv_update [OF inv i(1)])
    have "distinct (pre @ concat (map running_at fs0) @ post)" using inv fs'(2) by (simp add: images_inv_def)
    with out show "distinct (pre @ (?i # concat (map running_at fs0)) @ post)" by auto
  qed (auto simp: fs'(2))
  moreover have "frame_ok macho (loadedImages st') r f" if "f \<in> set fs0 \<union> F" for f
    using that mine others swap_succeeds out free unfolding st1(3) by (intro frame_ok_update) auto
  moreover have "frame_ok macho (loadedImages st') r (Running num li h (runAllInitializersInImage macho li))"
    using same none i(1) unfolding st1(3) by simp
  ultimately show ?thesis using swap_succeeds st1(1) by auto
next
  case (init_ends num h b h' li)
  let ?L = "loadedImages st" and ?i = "unat h"
  have same: "same_image ?L num li h" and state: "state (?L ! ?i) = beingInited" and all: "calls_of (loadedAddress li) r = runAllInitializersInImage macho li"
    using mine init_ends by simp_all
  then have i: "?i < length ?L" "image_represents ?L h num" by (auto simp: same_image_def image_represents_def)
  have st': "loadedImages st' = ?L[?i := setState inited (?L ! ?i)]" using init_ends state by (auto simp: swap_at [OF i(2)])
  have fs: "concat (map running_at fs) = ?i # concat (map running_at fs')" using init_ends by simp
  have out: "?i \<notin> set (pre @ concat (map running_at fs') @ post)" using inv fs by (auto simp: images_inv_def)
  have "settled macho r (setState inited (?L ! ?i))"
    using same all by (simp add: settled_def same_image_def runAllInitializersInImage_def)
  then have "images_inv macho (loadedImages st') (pre @ concat (map running_at fs') @ post) r'"
    unfolding st' \<open>r' = r\<close>
  proof (intro inv_update [OF inv i(1)])
    show "distinct (pre @ concat (map running_at fs') @ post)" using inv fs by (simp add: images_inv_def)
  qed (auto simp: fs)
  moreover have "frame_ok macho (loadedImages st') r f" if "f \<in> set fs' \<union> F" for f
    using that mine others init_ends out unfolding st' by (intro frame_ok_update) auto
  ultimately show ?thesis using init_ends by auto
qed

lemma running_states:
  assumes "\<forall>fs\<in>set ts. \<forall>f\<in>set fs. frame_ok macho images r f" and "j \<in> set (running ts)"
  shows "j < length images \<and> state (images ! j) = beingInited"
proof -
  from assms(2) obtain fs f where f: "fs \<in> set ts" "f \<in> set fs" "j \<in> set (running_at f)" by (auto simp: running_def)
  with assms(1) have "frame_ok macho images r f" by blast
  with f(3) show ?thesis by (cases f) (auto simp: same_image_def image_represents_def)
qed

lemma frame_ok_load:
  assumes "frame_ok macho images r f"
  shows "frame_ok macho (images @ new) r f"
  using assms by (cases f) (auto simp: same_image_def image_represents_def nth_append)

lemma init_step_inv:
  assumes "init_step macho c c'" and "init_inv macho c"
  shows "init_inv macho c'"
  using assms
proof cases
  case (thread t st' fs' r')
  let ?ts = "threads c" and ?pre = "take t (threads c)" and ?post = "drop (Suc t) (threads c)"
  have ts: "?ts = ?pre @ ?ts ! t # ?post" "?ts[t := fs'] = ?pre @ fs' # ?post"
    using thread(2) by (rule id_take_nth_drop, rule upd_conv_take_nth_drop)
  have run: "running ?ts = running ?pre @ concat (map running_at (?ts ! t)) @ running ?post" using ts(1) running_split by metis
  have sub: "set ?pre \<union> set ?post \<subseteq> set ?ts" using set_take_subset set_drop_subset by fastforce
  have frames: "\<forall>fs\<in>set ?ts. \<forall>f\<in>set fs. frame_ok macho (loadedImages (all_images c)) (ran c) f" using assms(2) by (simp add: init_inv_def)
  let ?F = "\<Union>fs\<in>set ?pre \<union> set ?post. set fs"
  have inv: "images_inv macho (loadedImages (all_images c)) (running ?pre @ concat (map running_at (?ts ! t)) @ running ?post) (ran c)"
    using assms(2) unfolding init_inv_def run by blast
  have mine: "\<forall>f\<in>set (?ts ! t). frame_ok macho (loadedImages (all_images c)) (ran c) f"
    using frames nth_mem [OF thread(2)] by blast
  have others: "\<forall>f\<in>?F. frame_ok macho (loadedImages (all_images c)) (ran c) f \<and> set (running_at f) \<subseteq> set (running ?pre @ running ?post)"
    using frames sub by (auto simp: running_def)
  have busy: "\<forall>j\<in>set (running ?pre @ running ?post). state (loadedImages (all_images c) ! j) = beingInited"
    using running_states [OF frames] unfolding run by auto
  from thread_step_inv [OF thread(3) inv mine others busy]
  have "images_inv macho (loadedImages st') (running (?ts[t := fs'])) r'" "\<forall>f\<in>set fs' \<union> ?F. frame_ok macho (loadedImages st') r' f"
    unfolding ts(2) running_split by blast+
  then show ?thesis unfolding thread(1) init_inv_def ts(2) by auto
next
  case (spawn nums)
  then show ?thesis using assms(2) by (auto simp: init_inv_def running_def)
next
  case (load new)
  let ?L = "loadedImages (all_images c)"
  have inv: "images_inv macho ?L (running (threads c)) (ran c)" using assms(2) by (simp add: init_inv_def)
  have fresh: "calls_of (loadedAddress li) (ran c) = []" if "li \<in> set new" for li
  proof -
    have "loadedAddress li \<notin> set (map loadedAddress ?L)" using that load(3) by auto
    moreover have "fst ` set (ran c) \<subseteq> set (map loadedAddress ?L)" using inv by (simp add: images_inv_def)
    ultimately have "loadedAddress li \<notin> fst ` set (ran c)" by blast
    then show ?thesis by (auto simp: calls_of_def filter_empty_conv image_iff)
  qed
  have "settled macho (ran c) ((?L @ new) ! i)" if "i < length (?L @ new)" "i \<notin> set (running (threads c))" for i
    using that inv load(2) fresh by (cases "i < length ?L") (auto simp: images_inv_def settled_def nth_append)
  then have "images_inv macho (?L @ new) (running (threads c)) (ran c)"
    using inv load(3,4) unfolding images_inv_def by auto
  then show ?thesis unfolding load(1) using assms(2) by (auto simp: init_inv_def addImages_def intro: frame_ok_load)
qed

text \<open>
  C10: initializers run once. Start with no walk under way and every image either fixed up, with none of its initializers
  called, or initialized, with each called once. Then after any interleaving of walks on any number of threads, with
  initializers that start further walks and images that are added meanwhile, the calls made of the initializers of an image are, in order, a
  beginning of its list: none is called twice. They are none while the image is fixed up and all of them
  once it is initialized.
\<close>

theorem initializers_run_once:
  assumes "(init_step macho)\<^sup>*\<^sup>* c c'" and "threads c = []" and "length (loadedImages (all_images c)) < 2 ^ 32"
    and "distinct (map loadedAddress (loadedImages (all_images c)))" and "fst ` set (ran c) \<subseteq> set (map loadedAddress (loadedImages (all_images c)))"
    and "\<forall>li\<in>set (loadedImages (all_images c)). settled macho (ran c) li"
    and "li \<in> set (loadedImages (all_images c'))"
  shows "(\<exists>rest. runAllInitializersInImage macho li = calls_of (loadedAddress li) (ran c') @ rest)
    \<and> (state li = fixedUp \<longrightarrow> calls_of (loadedAddress li) (ran c') = [])
    \<and> (state li = inited \<longrightarrow> calls_of (loadedAddress li) (ran c') = runAllInitializersInImage macho li)"
proof -
  have "init_inv macho c" using assms(2-6) by (auto simp: init_inv_def images_inv_def running_def)
  with assms(1) have inv: "init_inv macho c'" by (induction rule: rtranclp_induct) (auto intro: init_step_inv)
  obtain i where i: "i < length (loadedImages (all_images c'))" "loadedImages (all_images c') ! i = li"
    using assms(7) by (auto simp: in_set_conv_nth)
  show ?thesis
  proof (cases "i \<in> set (running (threads c'))")
    case True
    then obtain fs f where f: "fs \<in> set (threads c')" "f \<in> set fs" "i \<in> set (running_at f)" by (auto simp: running_def)
    then have "frame_ok macho (loadedImages (all_images c')) (ran c') f" using inv by (auto simp: init_inv_def)
    with f(3) i(2) show ?thesis by (cases f) (auto simp: same_image_def runAllInitializersInImage_def intro: sym)
  next
    case False
    then have "settled macho (ran c') li" using inv i by (auto simp: init_inv_def images_inv_def)
    then show ?thesis by (auto simp: settled_def)
  qed
qed

definition waiting_program :: LoadedImage where
  "waiting_program = \<lparr>image = sample_image 0x2000 True [], li_loadAddr = 0x10002\<rparr>"

definition before_init :: config where
  "before_init = \<lparr>all_images = addImages [waiting_program] no_images, threads = [], ran = []\<rparr>"

definition after_call :: config where
  "after_call = \<lparr>all_images = addImages [setState beingInited waiting_program] no_images,
     threads = [[Running 0x2000 waiting_program 0 [], Each []]], ran = [(0x10000, 0x10100)]\<rparr>"

lemma waiting_program_simps [simp]:
  "state waiting_program = fixedUp" "loadedAddress waiting_program = 0x10000" "runAllInitializersInImage macho waiting_program = [0x10100]"
  "representsImageNum (image waiting_program) 0x2000" "mayHavePlusLoads (image waiting_program) = False"
  by (simp_all add: waiting_program_def state_def loadedAddress_def runAllInitializersInImage_def forEachInitializer_def sample_image_def
      offset_pointers_def representsImageNum_def imageNum_def sample_flags_def mayHavePlusLoads_def)

lemma init_runs: "(init_step macho)\<^sup>*\<^sup>* before_init after_call"
proof -
  let ?st = "addImages [waiting_program] no_images" and ?st' = "addImages [setState beingInited waiting_program] no_images"
  let ?c = "\<lambda>st fs r. \<lparr>all_images = st, threads = [fs], ran = r\<rparr>"
  have run: "init_step macho (?c st fs r) (?c st2 fs2 r2)" if "thread_step macho (st, fs, r) (st2, fs2, r2)" for st fs r st2 fs2 r2
    using init_step.thread [of 0 "?c st fs r" macho st2 fs2 r2] that by simp
  have index: "hinted_index (loadedImages ?st) 0x2000 0 = Some 0"
    by (simp add: hinted_index_def image_represents_def addImages_def no_images_def)
  have s1: "init_step macho before_init (?c ?st [Each [0x2000]] [])"
    using init_step.spawn [of macho before_init "[0x2000]"] by (simp add: before_init_def)
  have s2: "init_step macho (?c ?st [Each [0x2000]] []) (?c ?st [Swap 0x2000 waiting_program 0, Each []] [])"
    by (rule run, rule thread_step.look_finds) (simp_all add: findImageNum_hinted_def index, simp add: addImages_def no_images_def)
  have "thread_step macho (?st, [Swap 0x2000 waiting_program 0, Each []], [])
      (notify_objc waiting_program ?st', Running 0x2000 waiting_program 0 (runAllInitializersInImage macho waiting_program) # [Each []], [])"
    by (rule thread_step.swap_succeeds) (simp add: swapImageState_def index, simp add: addImages_def no_images_def)
  then have s3: "init_step macho (?c ?st [Swap 0x2000 waiting_program 0, Each []] []) (?c ?st' [Running 0x2000 waiting_program 0 [0x10100], Each []] [])"
    by (intro run) (simp add: notify_objc_def)
  have s4: "init_step macho (?c ?st' [Running 0x2000 waiting_program 0 [0x10100], Each []] []) after_call"
    unfolding after_call_def using thread_step.call_init [of macho ?st' "0x2000" waiting_program 0 "0x10100" "[]" "[Each []]" "[]"]
    by (intro run) simp
  show ?thesis
    using s1 s2 s3 s4 by (blast intro: converse_rtranclp_into_rtranclp [of "init_step macho"])
qed

theorem initializers_run_once_witness:
  "\<exists>rest. runAllInitializersInImage (\<lambda>a i. 0) (setState beingInited waiting_program)
     = calls_of 0x10000 (ran after_call) @ rest"
proof -
  have "settled (\<lambda>a i. 0) (ran before_init) waiting_program" by (simp add: settled_def before_init_def calls_of_def)
  with initializers_run_once [OF init_runs [of "\<lambda>a i. 0"], where li = "setState beingInited waiting_program"] show ?thesis
    by (simp add: before_init_def after_call_def addImages_def no_images_def)
qed

end
