(* ===== verification/Closure_Bytes.thy ===== *)
theory Closure_Bytes
  imports MachO_LoadCommands
begin

text \<open>
  The container format of closures: \<open>TypedBytes\<close> and \<open>ContainerTypedBytes\<close> (\<open>src/dyld3/Closure.cpp\<close>) and the writer that makes them,
  \<open>ContainerTypedBytesWriter\<close> (\<open>src/dyld3/ClosureWriter.cpp\<close>). A container is a header of one 32-bit word, an 8-bit type and a
  24-bit length, followed by attributes of the same form. The writer's buffer is a memory, with the size that is allocated and the
  offset of the end; a write outside the allocation and a failed assertion are \<open>None\<close>, so a run that returns wrote in bounds.
  The abstract view of a container is the list of its attributes, each a type and its payload.
\<close>

section \<open>Typed bytes\<close>

definition typed_header :: "u8 \<Rightarrow> 24 word \<Rightarrow> u32" where
  "typed_header t len = ucast t OR push_bit 8 (ucast len)"

definition tb_type :: "memory \<Rightarrow> nat \<Rightarrow> u8" where
  "tb_type m p = ucast (read32 m p)"

definition payloadLength :: "memory \<Rightarrow> nat \<Rightarrow> nat" where
  "payloadLength m p = unat (drop_bit 8 (read32 m p))"

definition payload :: "nat \<Rightarrow> nat" where
  "payload p = p + 4"

section \<open>Reading a container\<close>

definition next_tb :: "memory \<Rightarrow> nat \<Rightarrow> nat option" where
  "next_tb m p = (if payloadLength m p mod 4 \<noteq> 0 then None else Some (payload p + payloadLength m p))"

lemma next_tb_Some: "next_tb m p = Some q \<longleftrightarrow> payloadLength m p mod 4 = 0 \<and> q = p + 4 + payloadLength m p"
  by (auto simp: next_tb_def payload_def)

text \<open>The handler gets the attribute's offset. The loop steps to the next attribute before it looks at \<open>stop\<close>.\<close>

function attribute_loop :: "memory \<Rightarrow> ('s \<Rightarrow> nat \<Rightarrow> ('s \<times> bool) option) \<Rightarrow> nat \<Rightarrow> nat \<Rightarrow> 's \<Rightarrow> 's option" where
  "attribute_loop m handler e p s =
     (if p < e then
        Option.bind (handler s p) (\<lambda>(s', stop).
          case next_tb m p of None \<Rightarrow> None | Some q \<Rightarrow> if stop then Some s' else attribute_loop m handler e q s')
      else Some s)"
  by pat_completeness auto
termination
  by (relation "measure (\<lambda>(m, handler, e, p, s). e - p)") (auto simp: next_tb_Some)

definition forEachAttribute :: "memory \<Rightarrow> nat \<Rightarrow> ('s \<Rightarrow> nat \<Rightarrow> ('s \<times> bool) option) \<Rightarrow> 's \<Rightarrow> 's option" where
  "forEachAttribute m this handler s =
     (if this mod 4 \<noteq> 0 then None
      else Option.bind (next_tb m this) (\<lambda>e. attribute_loop m handler e (payload this) s))"

text \<open>The handler gets the payload's offset and its size.\<close>

definition forEachAttributePayload :: "memory \<Rightarrow> nat \<Rightarrow> u8 \<Rightarrow> ('s \<Rightarrow> nat \<times> nat \<Rightarrow> ('s \<times> bool) option) \<Rightarrow> 's \<Rightarrow> 's option" where
  "forEachAttributePayload m this requestedType handler s =
     forEachAttribute m this
       (\<lambda>s p. if tb_type m p \<noteq> requestedType then Some (s, False) else handler s (payload p, payloadLength m p)) s"

function find_loop :: "memory \<Rightarrow> u8 \<Rightarrow> nat \<Rightarrow> nat \<Rightarrow> (nat \<times> nat) option option" where
  "find_loop m requestedType e p =
     (if p < e then
        (if tb_type m p = requestedType then Some (Some (payload p, payloadLength m p))
         else case next_tb m p of None \<Rightarrow> None | Some q \<Rightarrow> find_loop m requestedType e q)
      else Some None)"
  by pat_completeness auto
termination
  by (relation "measure (\<lambda>(m, t, e, p). e - p)") (auto simp: next_tb_Some)

text \<open>\<open>Some None\<close> is the null pointer of a missing attribute.\<close>

definition findAttributePayload :: "memory \<Rightarrow> nat \<Rightarrow> u8 \<Rightarrow> (nat \<times> nat) option option" where
  "findAttributePayload m this requestedType =
     (if this mod 4 \<noteq> 0 then None
      else Option.bind (next_tb m this) (\<lambda>e. find_loop m requestedType e (payload this)))"

section \<open>Writing a container\<close>

definition store_bytes :: "nat \<Rightarrow> u8 list \<Rightarrow> memory \<Rightarrow> memory" where
  "store_bytes p bs m = (\<lambda>i. if p \<le> i \<and> i < p + length bs then bs ! (i - p) else m i)"

definition le_bytes :: "nat \<Rightarrow> 'a::len word \<Rightarrow> u8 list" where
  "le_bytes n v = map (\<lambda>i. ucast (drop_bit (8 * i) v)) [0 ..< n]"

text \<open>
  \<open>w_mem\<close> is the allocation at \<open>_vmAllocationStart\<close>, \<open>w_size\<close> its size (0 before \<open>setContainerType\<close>), \<open>w_end\<close> the
  offset of \<open>_end\<close>. \<open>vm_allocate\<close> returns zeroed memory.
\<close>

record Writer =
  w_mem :: memory
  w_size :: nat
  w_end :: nat

definition Writer_new :: Writer where
  "Writer_new = \<lparr>w_mem = (\<lambda>_. 0), w_size = 0, w_end = 0\<rparr>"

definition write_at :: "nat \<Rightarrow> u8 list \<Rightarrow> Writer \<Rightarrow> Writer option" where
  "write_at p bs w = (if p + length bs \<le> w_size w then Some (w\<lparr>w_mem := store_bytes p bs (w_mem w)\<rparr>) else None)"

definition setContainerType :: "u8 \<Rightarrow> Writer \<Rightarrow> Writer option" where
  "setContainerType containerType w =
     (if w_size w \<noteq> 0 then None
      else write_at 0 (le_bytes 4 (typed_header containerType 0)) \<lparr>w_mem = (\<lambda>_. 0), w_size = 1024 * 1024, w_end = 4\<rparr>)"

definition grow :: "nat \<Rightarrow> Writer \<Rightarrow> Writer option" where
  "grow payloadSize w =
     (if w_size w = 0 then None
      else
        (let growth = (if w_size w < payloadSize then w_size w * (payloadSize div w_size w + 1) else w_size w) in
         Some (w\<lparr>w_mem := (\<lambda>i. if i < w_end w then w_mem w i else 0), w_size := w_size w + growth\<rparr>)))"

definition reserve :: "nat \<Rightarrow> Writer \<Rightarrow> Writer option" where
  "reserve payloadSize w =
     Option.bind (if w_end w + payloadSize \<ge> w_size w then grow payloadSize w else Some w)
       (\<lambda>w. if w_end w + payloadSize < w_size w then Some w else None)"

text \<open>The result is the writer and the offset of the new payload; a payload that is \<open>None\<close> is left for the caller to fill.\<close>

definition append_tb :: "u8 \<Rightarrow> u8 list option \<Rightarrow> nat \<Rightarrow> Writer \<Rightarrow> (Writer \<times> nat) option" where
  "append_tb t pl payloadSize w =
     (if payloadSize mod 4 \<noteq> 0 then None
      else
        Option.bind (reserve payloadSize w) (\<lambda>w.
        Option.bind (write_at (w_end w) (le_bytes 4 (typed_header t (of_nat payloadSize))) w) (\<lambda>w1.
        Option.bind (case pl of None \<Rightarrow> Some w1 | Some bs \<Rightarrow> write_at (payload (w_end w)) (take payloadSize bs) w1) (\<lambda>w2.
          let len = payloadLength (w_mem w2) 0 + 4 + payloadSize in
          if len < 16 * 1024 * 1024
          then Option.bind (write_at 0 (le_bytes 4 (typed_header (tb_type (w_mem w2) 0) (of_nat len)))
                 (w2\<lparr>w_end := w_end w + 4 + payloadSize\<rparr>)) (\<lambda>w3. Some (w3, payload (w_end w)))
          else None))))"

text \<open>
  \<open>round_page\<close> for pages of \<open>2 ^ pageShift\<close> bytes. The allocation is trimmed to whole pages: the bytes behind them are
  unmapped, and count as 0 here.
\<close>

definition round_page :: "nat \<Rightarrow> nat \<Rightarrow> nat" where
  "round_page pageShift n = (n + (2 ^ pageShift - 1)) div 2 ^ pageShift * 2 ^ pageShift"

definition finalizeContainer :: "nat \<Rightarrow> Writer \<Rightarrow> memory \<times> Writer" where
  "finalizeContainer pageShift w =
     (let used = round_page pageShift (w_end w);
          w' = (if used < w_size w then w\<lparr>w_mem := (\<lambda>i. if i < used then w_mem w i else 0), w_end := 0, w_size := used\<rparr> else w)
      in (w_mem w', w'))"

section \<open>Bytes\<close>

lemma length_le_bytes [simp]: "length (le_bytes n v) = n"
  by (simp add: le_bytes_def)

lemma store_bytes_in: "i < length bs \<Longrightarrow> store_bytes p bs m (p + i) = bs ! i"
  by (simp add: store_bytes_def)

lemma store_bytes_out: "i < p \<or> p + length bs \<le> i \<Longrightarrow> store_bytes p bs m i = m i"
  by (auto simp: store_bytes_def)

lemma typed_header_fields:
  "ucast (typed_header t len) = t" "unat (drop_bit 8 (typed_header t len)) = unat len"
proof -
  show "ucast (typed_header t len) = t"
    by (rule bit_word_eqI) (auto simp: typed_header_def bit_simps)
  have "drop_bit 8 (typed_header t len) = ucast len"
    by (rule bit_word_eqI) (auto simp: typed_header_def bit_simps dest: bit_imp_le_length)
  moreover have "unat len < 2 ^ 24" by (rule order_less_le_trans [OF unsigned_less]) simp
  ultimately show "unat (drop_bit 8 (typed_header t len)) = unat len"
    by (simp add: unsigned_ucast_eq take_bit_nat_eq_self)
qed

lemma store_word: "store_bytes p (le_bytes 4 v) m = write32 m p v"
  by (rule ext) (auto simp: store_bytes_def le_bytes_def write32_def)

lemma header_fields:
  "tb_type (store_bytes p (le_bytes 4 (typed_header t len)) m) p = t"
  "payloadLength (store_bytes p (le_bytes 4 (typed_header t len)) m) p = unat len"
  by (simp_all add: tb_type_def payloadLength_def store_word read32_write32_same typed_header_fields)

lemma header_agree:
  assumes "agree p (p + 4) m m'"
  shows "tb_type m p = tb_type m' p" "payloadLength m p = payloadLength m' p"
  using read32_agree [OF assms] by (simp_all add: tb_type_def payloadLength_def)

lemma agree_store: "hi \<le> p \<or> p + length bs \<le> lo \<Longrightarrow> agree lo hi (store_bytes p bs m) m"
  by (auto simp: agree_def store_bytes_def)

section \<open>The attributes of a container\<close>

type_synonym attribute = "u8 \<times> u8 list"

fun attrs_size :: "attribute list \<Rightarrow> nat" where
  "attrs_size [] = 0"
| "attrs_size ((t, bs) # as) = 4 + length bs + attrs_size as"

definition attr_at :: "memory \<Rightarrow> nat \<Rightarrow> attribute \<Rightarrow> bool" where
  "attr_at m p a \<longleftrightarrow> tb_type m p = fst a \<and> payloadLength m p = length (snd a) \<and> length (snd a) mod 4 = 0
     \<and> (\<forall>i < length (snd a). m (p + 4 + i) = snd a ! i)"

fun attrs_at :: "memory \<Rightarrow> nat \<Rightarrow> attribute list \<Rightarrow> bool" where
  "attrs_at m p [] = True"
| "attrs_at m p (a # as) \<longleftrightarrow> attr_at m p a \<and> attrs_at m (p + 4 + length (snd a)) as"

definition container_at :: "memory \<Rightarrow> nat \<Rightarrow> u8 \<Rightarrow> attribute list \<Rightarrow> bool" where
  "container_at m this t as \<longleftrightarrow> this mod 4 = 0 \<and> tb_type m this = t \<and> payloadLength m this = attrs_size as
     \<and> attrs_at m (this + 4) as"

lemma attrs_size_append [simp]: "attrs_size (as @ bs) = attrs_size as + attrs_size bs"
  by (induction as rule: attrs_size.induct) simp_all

lemma attrs_at_append: "attrs_at m p (as @ bs) \<longleftrightarrow> attrs_at m p as \<and> attrs_at m (p + attrs_size as) bs"
  by (induction as arbitrary: p rule: attrs_size.induct) (auto simp: algebra_simps)

lemma attrs_size_mod: "attrs_at m p as \<Longrightarrow> attrs_size as mod 4 = 0"
  by (induction as arbitrary: p rule: attrs_size.induct) (auto simp: attr_at_def mod_add_eq [symmetric])

lemma attr_at_agree: "agree p (p + 4 + length (snd a)) m m' \<Longrightarrow> attr_at m p a = attr_at m' p a"
  using header_agree [of p m m'] by (auto simp: attr_at_def agree_def)

lemma attrs_at_agree: "agree p (p + attrs_size as) m m' \<Longrightarrow> attrs_at m p as = attrs_at m' p as"
proof (induction as arbitrary: p rule: attrs_size.induct)
  case (2 t bs as)
  have "agree p (p + 4 + length bs) m m'" "agree (p + 4 + length bs) (p + 4 + length bs + attrs_size as) m m'"
    using 2(2) by (auto elim: agree_mono)
  with 2(1) attr_at_agree [of p "(t, bs)" m m'] show ?case by simp
qed simp

lemma container_at_agree:
  assumes "agree this (this + 4 + attrs_size as) m m'"
  shows "container_at m this t as = container_at m' this t as"
  using header_agree [OF agree_mono [OF assms]] attrs_at_agree [OF agree_mono [OF assms, of "this + 4"]]
  by (simp add: container_at_def add.assoc)

section \<open>Reading back the attributes\<close>

declare attribute_loop.simps [simp del] find_loop.simps [simp del]

fun attr_offsets :: "nat \<Rightarrow> attribute list \<Rightarrow> nat list" where
  "attr_offsets p [] = []"
| "attr_offsets p (a # as) = p # attr_offsets (p + 4 + length (snd a)) as"

lemma attribute_loop_run:
  assumes "attrs_at m p as"
  shows "attribute_loop m h (p + attrs_size as) p s = map_option fst (forStop h s (attr_offsets p as))"
  using assms
proof (induction as arbitrary: p s rule: attrs_size.induct)
  case (1 p s)
  then show ?case by (simp add: attribute_loop.simps)
next
  case (2 t bs as)
  have "next_tb m p = Some (p + 4 + length bs)" using 2(2) by (auto simp: attr_at_def next_tb_def payload_def)
  moreover have "p + attrs_size ((t, bs) # as) = p + 4 + length bs + attrs_size as" by simp
  moreover have "attrs_at m (p + 4 + length bs) as" using 2(2) by simp
  note IH = 2(1) [OF this]
  ultimately show ?case
    by (subst attribute_loop.simps) (auto simp: IH add.assoc split: Option.bind_split prod.split)
qed

lemma forEachAttribute_run:
  assumes "container_at m this t as"
  shows "forEachAttribute m this h s = map_option fst (forStop h s (attr_offsets (this + 4) as))"
proof -
  have "next_tb m this = Some (this + 4 + attrs_size as)"
    using assms attrs_size_mod [of m "this + 4" as] by (simp add: container_at_def next_tb_def payload_def)
  then show ?thesis using assms attribute_loop_run [of m "this + 4" as] by (simp add: forEachAttribute_def container_at_def payload_def)
qed

text \<open>Where the first attribute of a type has its payload, and its size.\<close>

fun attr_place :: "u8 \<Rightarrow> nat \<Rightarrow> attribute list \<Rightarrow> (nat \<times> nat) option" where
  "attr_place ty p [] = None"
| "attr_place ty p (a # as) = (if fst a = ty then Some (p + 4, length (snd a)) else attr_place ty (p + 4 + length (snd a)) as)"

lemma find_loop_run:
  assumes "attrs_at m p as"
  shows "find_loop m ty (p + attrs_size as) p = Some (attr_place ty p as)"
  using assms
proof (induction as arbitrary: p rule: attrs_size.induct)
  case (1 p)
  then show ?case by (simp add: find_loop.simps)
next
  case (2 t bs as)
  have "next_tb m p = Some (p + 4 + length bs)" "tb_type m p = t" "payloadLength m p = length bs"
    using 2(2) by (auto simp: attr_at_def next_tb_def payload_def)
  moreover have "p + attrs_size ((t, bs) # as) = p + 4 + length bs + attrs_size as" by simp
  moreover have "attrs_at m (p + 4 + length bs) as" using 2(2) by simp
  note IH = 2(1) [OF this]
  ultimately show ?case by (subst find_loop.simps) (simp add: IH payload_def add.assoc)
qed

lemma findAttributePayload_run:
  assumes "container_at m this t as"
  shows "findAttributePayload m this ty = Some (attr_place ty (this + 4) as)"
proof -
  have "next_tb m this = Some (this + 4 + attrs_size as)"
    using assms attrs_size_mod [of m "this + 4" as] by (simp add: container_at_def next_tb_def payload_def)
  then show ?thesis using assms find_loop_run [of m "this + 4" as] by (simp add: findAttributePayload_def container_at_def payload_def)
qed

lemma attr_place_map_of:
  assumes "attrs_at m p as"
  shows "case attr_place ty p as of None \<Rightarrow> map_of as ty = None
    | Some (q, n) \<Rightarrow> \<exists>bs. map_of as ty = Some bs \<and> n = length bs \<and> (\<forall>i < n. m (q + i) = bs ! i)"
  using assms
proof (induction as arbitrary: p rule: attrs_size.induct)
  case (2 t bs as)
  then have "attrs_at m (p + 4 + length bs) as" by simp
  from 2(1) [OF this] 2(2) show ?case by (cases "t = ty") (auto simp: attr_at_def split: option.splits)
qed simp

text \<open>What \<open>findAttributePayload\<close> finds: the payload of the first attribute of that type.\<close>

lemma findAttributePayload_cases:
  assumes "container_at m this t as"
  obtains (missing) "findAttributePayload m this ty = Some None" "map_of as ty = None"
    | (found) q bs where "findAttributePayload m this ty = Some (Some (q, length bs))" "map_of as ty = Some bs" "\<forall>i < length bs. m (q + i) = bs ! i"
  using attr_place_map_of [of m "this + 4" as ty] assms findAttributePayload_run [OF assms, of ty]
  by (cases "attr_place ty (this + 4) as") (auto simp: container_at_def)

section \<open>The writer's buffer\<close>

definition writer_for :: "u8 \<Rightarrow> attribute list \<Rightarrow> Writer \<Rightarrow> bool" where
  "writer_for t as w \<longleftrightarrow> container_at (w_mem w) 0 t as \<and> attrs_size as < 16 * 1024 * 1024
     \<and> w_end w = 4 + attrs_size as \<and> w_end w \<le> w_size w \<and> w_size w mod (1024 * 1024) = 0 \<and> (\<forall>i \<ge> w_end w. w_mem w i = 0)"

text \<open>Rounding up keeps the bytes that were written.\<close>

lemma round_page_ge: "n \<le> round_page pageShift n"
proof -
  let ?k = "2 ^ pageShift :: nat"
  have "n + (?k - 1) = (n + (?k - 1)) div ?k * ?k + (n + (?k - 1)) mod ?k"
    by (rule div_mult_mod_eq [symmetric])
  moreover have "(n + (?k - 1)) mod ?k < ?k" by (rule mod_less_divisor) simp
  ultimately show ?thesis unfolding round_page_def by linarith
qed

lemma finalized: "writer_for t as w \<Longrightarrow> fst (finalizeContainer pageShift w) = w_mem w"
  using round_page_ge [of "w_end w" pageShift] by (auto simp: finalizeContainer_def writer_for_def Let_def fun_eq_iff)

lemma setContainerType_ok: "\<exists>w. setContainerType t Writer_new = Some w \<and> writer_for t [] w"
  by (simp add: setContainerType_def Writer_new_def write_at_def writer_for_def container_at_def header_fields)
    (simp add: store_bytes_def)

lemma mb_mod_4: "n mod (1024 * 1024) = 0 \<Longrightarrow> n mod 4 = 0" for n :: nat
  by (rule dvd_imp_mod_0, rule dvd_trans [of _ "1024 * 1024"]) (simp_all only: mod_eq_0_iff_dvd, simp_all)

lemma reserve_ok:
  assumes w: "writer_for t as w" and n: "n mod 4 = 0" "n mod (1024 * 1024) \<noteq> 0 \<or> n = 0"
  shows "\<exists>w'. reserve n w = Some w' \<and> writer_for t as w' \<and> w_end w' = w_end w \<and> w_end w' + 4 + n \<le> w_size w'"
proof (cases "w_end w + n \<ge> w_size w")
  case True
  have pos: "0 < w_size w" "w_end w \<le> w_size w" "w_size w mod (1024 * 1024) = 0" using w by (auto simp: writer_for_def)
  define growth where "growth = (if w_size w < n then w_size w * (n div w_size w + 1) else w_size w)"
  let ?w = "w\<lparr>w_mem := (\<lambda>i. if i < w_end w then w_mem w i else 0), w_size := w_size w + growth\<rparr>"
  have "n < w_size w * (n div w_size w + 1)" using pos(1) dividend_less_div_times [of "w_size w" n] by (simp add: algebra_simps)
  moreover have "growth mod (1024 * 1024) = 0" using pos(3) by (auto simp: growth_def mod_mult_left_eq [symmetric])
  moreover have "n \<noteq> w_size w" using n(2) pos by auto
  ultimately have big: "n < growth" "growth mod (1024 * 1024) = 0" by (auto simp: growth_def)
  have "growth mod 4 = 0" by (rule mb_mod_4 [OF big(2)])
  with big(1) n(1) have "n + 4 \<le> growth" by presburger
  then have room: "w_end w + 4 + n \<le> w_size w + growth" using pos(2) by simp
  have "(\<lambda>i. if i < w_end w then w_mem w i else 0) = w_mem w" using w by (auto simp: writer_for_def)
  moreover have "(w_size w + growth) mod (1024 * 1024) = 0" using big(2) pos(3) by (metis mod_add_eq add_0 mod_0)
  ultimately have "writer_for t as ?w" using w by (simp add: writer_for_def)
  with True pos room show ?thesis by (simp add: reserve_def grow_def growth_def Let_def)
next
  case False
  have "w_end w mod 4 = 0" using w attrs_size_mod [of "w_mem w" 4 as] by (auto simp: writer_for_def container_at_def)
  moreover have "w_size w mod 4 = 0" using w by (intro mb_mod_4) (simp add: writer_for_def)
  ultimately have "w_end w + 4 + n \<le> w_size w" using False n(1) by presburger
  with False w show ?thesis by (simp add: reserve_def)
qed

lemma container_at_snoc:
  assumes old: "container_at m 0 t as" and new: "attr_at m (4 + attrs_size as) a" and t: "tb_type m' 0 = t"
    and len: "payloadLength m' 0 = attrs_size as + 4 + length (snd a)" and same: "agree 4 (8 + attrs_size as + length (snd a)) m m'"
  shows "container_at m' 0 t (as @ [a])"
proof -
  have "attrs_at m' 4 as"
    using old attrs_at_agree [of 4 as m m'] agree_mono [OF same, of 4 "4 + attrs_size as"] by (simp add: container_at_def)
  moreover have "attr_at m' (4 + attrs_size as) a"
    using new attr_at_agree [of "4 + attrs_size as" a m m'] agree_mono [OF same, of "4 + attrs_size as" "4 + attrs_size as + 4 + length (snd a)"] by simp
  ultimately show ?thesis using t len by (cases a) (simp add: container_at_def attrs_at_append)
qed

lemma append_tb_ok:
  assumes w: "writer_for t as w" and n: "n mod 4 = 0" "n mod (1024 * 1024) \<noteq> 0 \<or> n = 0" "attrs_size as + 4 + n < 16 * 1024 * 1024"
    and pl: "pl = Some bs \<and> length bs = n \<or> pl = None \<and> bs = replicate n 0"
  shows "\<exists>w'. append_tb ty pl n w = Some (w', 8 + attrs_size as) \<and> writer_for t (as @ [(ty, bs)]) w'"
proof -
  obtain w1 where w1: "reserve n w = Some w1" "writer_for t as w1" "w_end w1 + 4 + n \<le> w_size w1"
    using reserve_ok [OF w n(1,2)] by blast
  let ?e = "4 + attrs_size as" and ?h = "le_bytes 4 (typed_header ty (of_nat n))"
  have e: "w_end w1 = ?e" using w1(2) by (simp add: writer_for_def)
  define m1 where "m1 = store_bytes ?e ?h (w_mem w1)"
  define m2 where "m2 = (case pl of None \<Rightarrow> m1 | Some bs \<Rightarrow> store_bytes (?e + 4) bs m1)"
  define m3 where "m3 = store_bytes 0 (le_bytes 4 (typed_header t (of_nat (attrs_size as + 4 + n)))) m2"
  have len: "length bs = n" and small: "n < 2 ^ 24" "attrs_size as + 4 + n < 2 ^ 24" using pl n(3) by auto
  have total: "unat (of_nat (attrs_size as + 4 + n) :: 24 word) = attrs_size as + 4 + n"
    using small(2) by (simp only: unsigned_of_nat) (simp add: take_bit_nat_eq_self)
  have keep: "agree 0 ?e m2 (w_mem w1)" by (auto simp: m2_def m1_def agree_def store_bytes_def split: option.split)
  have bytes: "\<forall>i < n. m2 (?e + 4 + i) = bs ! i"
    using pl w1(2) e by (auto simp: m2_def m1_def store_bytes_def writer_for_def)
  have "agree ?e (?e + 4) m2 m1" by (auto simp: m2_def agree_def store_bytes_def split: option.split)
  then have "attr_at m2 ?e (ty, bs)"
    using bytes len n(1) small header_fields [of ?e ty "of_nat n" "w_mem w1"] header_agree [of ?e m2 m1]
    by (simp add: attr_at_def m1_def unat_of_nat take_bit_nat_eq_self unsigned_of_nat)
  moreover have old: "container_at m2 0 t as"
    using w1(2) keep container_at_agree [of 0 as m2 "w_mem w1"] by (simp add: writer_for_def)
  moreover have "agree 4 (8 + attrs_size as + length (snd (ty, bs))) m2 m3" by (auto simp: m3_def agree_def store_bytes_def)
  moreover have "tb_type m3 0 = t" "payloadLength m3 0 = attrs_size as + 4 + length (snd (ty, bs))"
    using total len by (simp_all only: m3_def header_fields snd_conv)
  ultimately have c: "container_at m3 0 t (as @ [(ty, bs)])" by (intro container_at_snoc)
  have zero: "\<forall>i \<ge> ?e + 4 + n. m3 i = 0"
    using w1(2) e len pl by (auto simp: m3_def m2_def m1_def store_bytes_def writer_for_def)
  have h: "tb_type m2 0 = t" "payloadLength m2 0 = attrs_size as" using old by (simp_all add: container_at_def)
  have s1: "write_at ?e ?h w1 = Some (w1\<lparr>w_mem := m1\<rparr>)" using w1(3) e by (simp add: write_at_def m1_def)
  have s2: "(case pl of None \<Rightarrow> Some (w1\<lparr>w_mem := m1\<rparr>) | Some bs \<Rightarrow> write_at (payload ?e) (take n bs) (w1\<lparr>w_mem := m1\<rparr>)) = Some (w1\<lparr>w_mem := m2\<rparr>)"
    using w1(3) e pl by (auto simp: write_at_def m2_def payload_def)
  have s3: "write_at 0 (le_bytes 4 (typed_header t (of_nat (attrs_size as + 4 + n)))) (w1\<lparr>w_mem := m2, w_end := ?e + 4 + n\<rparr>)
      = Some (w1\<lparr>w_mem := m3, w_end := ?e + 4 + n\<rparr>)"
    using w1(3) unfolding m3_def by (simp add: write_at_def)
  have "append_tb ty pl n w = Some (w1\<lparr>w_mem := m3, w_end := ?e + 4 + n\<rparr>, 8 + attrs_size as)"
    unfolding append_tb_def w1(1) bind.bind_lunit e s1 s2 Let_def using n h s3 by (simp add: payload_def del: of_nat_add)
  moreover have "writer_for t (as @ [(ty, bs)]) (w1\<lparr>w_mem := m3, w_end := ?e + 4 + n\<rparr>)"
    using w1 n c zero e len by (simp add: writer_for_def)
  ultimately show ?thesis by blast
qed

section \<open>What is written is what is read\<close>

fun append_all :: "attribute list \<Rightarrow> Writer \<Rightarrow> Writer option" where
  "append_all [] w = Some w"
| "append_all ((t, bs) # as) w = Option.bind (append_tb t (Some bs) (length bs) w) (\<lambda>(w', _). append_all as w')"

definition attr_ok :: "attribute \<Rightarrow> bool" where
  "attr_ok a \<longleftrightarrow> length (snd a) mod 4 = 0 \<and> (length (snd a) mod (1024 * 1024) \<noteq> 0 \<or> snd a = [])"

lemma append_all_ok:
  assumes "writer_for t as w" and "\<forall>a\<in>set bs. attr_ok a" and "attrs_size (as @ bs) < 16 * 1024 * 1024"
  shows "\<exists>w'. append_all bs w = Some w' \<and> writer_for t (as @ bs) w'"
  using assms
proof (induction bs arbitrary: as w)
  case (Cons a bs)
  obtain ty pl where a: "a = (ty, pl)" by (cases a)
  from append_tb_ok [OF Cons.prems(1), of "length pl" "Some pl" pl ty] Cons.prems(2,3) obtain w1 where
    "append_tb ty (Some pl) (length pl) w = Some (w1, 8 + attrs_size as)" "writer_for t (as @ [a]) w1"
    by (auto simp: attr_ok_def a)
  with Cons.IH [of "as @ [a]" w1] Cons.prems(2,3) show ?case by (simp add: a)
qed simp

text \<open>The attribute at an offset, as its header describes it.\<close>

definition attribute_of :: "memory \<Rightarrow> nat \<Rightarrow> attribute" where
  "attribute_of m p = (tb_type m p, map m [payload p ..< payload p + payloadLength m p])"

lemma attribute_of_at: "attr_at m p a \<Longrightarrow> attribute_of m p = a"
  by (cases a) (auto simp: attribute_of_def attr_at_def payload_def intro: nth_equalityI)

lemma attributes_of_offsets: "attrs_at m p as \<Longrightarrow> map (attribute_of m) (attr_offsets p as) = as"
  by (induction as arbitrary: p) (simp_all add: attribute_of_at)

lemma forEachAttribute_collect:
  assumes "container_at m this t as"
  shows "forEachAttribute m this (\<lambda>acc p. Some (acc @ [attribute_of m p], False)) [] = Some as"
proof -
  have "foldl (\<lambda>acc p. acc @ [attribute_of m p]) acc ps = acc @ map (attribute_of m) ps" for acc ps
    by (induction ps arbitrary: acc) simp_all
  then show ?thesis
    using assms attributes_of_offsets [of m "this + 4" as] by (simp add: forEachAttribute_run [OF assms] forStop_foldl container_at_def)
qed

text \<open>
  C17: a closure container holds exactly what was appended to it. For any list of attributes whose payloads are multiples of four
  bytes, none of them a multiple of a megabyte, with less than 16 MB in all, the writer returns, so that every write was inside its
  allocation, however often the buffer had to grow; and in the finished container the walk over the attributes reports the
  same attributes in the same order, and a search by type finds the first one of that type or reports that there is none.
\<close>

theorem closure_container_roundtrip:
  assumes "\<forall>a\<in>set as. attr_ok a" and "attrs_size as < 16 * 1024 * 1024"
  shows "\<exists>w. Option.bind (setContainerType t Writer_new) (append_all as) = Some w
    \<and> (let m = fst (finalizeContainer pageShift w) in
       tb_type m 0 = t
       \<and> forEachAttribute m 0 (\<lambda>acc p. Some (acc @ [attribute_of m p], False)) [] = Some as
       \<and> (\<exists>found. findAttributePayload m 0 ty = Some found
            \<and> map_option (\<lambda>(q, n). map m [q ..< q + n]) found = map_of as ty))"
proof -
  obtain w0 where w0: "setContainerType t Writer_new = Some w0" "writer_for t [] w0" using setContainerType_ok by blast
  with append_all_ok [of t "[]" w0 as] assms obtain w where w: "append_all as w0 = Some w" "writer_for t as w" by auto
  have c: "container_at (w_mem w) 0 t as" using w(2) by (simp add: writer_for_def)
  have "\<exists>found. findAttributePayload (w_mem w) 0 ty = Some found \<and> map_option (\<lambda>(q, n). map (w_mem w) [q ..< q + n]) found = map_of as ty"
    using c by (cases rule: findAttributePayload_cases [where ty = ty]) (auto intro: nth_equalityI)
  with w0 w forEachAttribute_collect [OF c] c show ?thesis by (simp add: finalized [OF w(2)] container_at_def)
qed

theorem closure_container_roundtrip_witness:
  "\<exists>w. Option.bind (setContainerType 3 Writer_new) (append_all [(7, replicate 8 1), (11, replicate 16 9)]) = Some w
    \<and> (let m = fst (finalizeContainer 12 w) in
       tb_type m 0 = 3
       \<and> forEachAttribute m 0 (\<lambda>acc p. Some (acc @ [attribute_of m p], False)) [] = Some [(7, replicate 8 1), (11, replicate 16 9)]
       \<and> (\<exists>found. findAttributePayload m 0 11 = Some found
            \<and> map_option (\<lambda>(q, n). map m [q ..< q + n]) found = Some (replicate 16 9)))"
  using closure_container_roundtrip [of "[(7, replicate 8 1), (11, replicate 16 9)]" 3 12 11] by (simp add: attr_ok_def)

text \<open>
  A buffer that is full to the last byte cannot take a payload of exactly its own size: the growth equals the payload, the end
  of the payload is the end of the new buffer, and the assertion that follows fails. A first attribute that fills the first
  megabyte and a second one of a megabyte abort the writer.
\<close>

theorem full_buffer_aborts:
  "Option.bind (setContainerType 1 Writer_new) (append_all [(2, replicate (1024 * 1024 - 8) 0), (3, replicate (1024 * 1024) 0)]) = None"
proof -
  obtain w0 where w0: "setContainerType 1 Writer_new = Some w0" "writer_for 1 [] w0" using setContainerType_ok by blast
  have size: "w_size w0 = 1024 * 1024" using w0(1) by (auto simp: setContainerType_def Writer_new_def write_at_def)
  from append_tb_ok [OF w0(2), of "1024 * 1024 - 8" "Some (replicate (1024 * 1024 - 8) 0)" "replicate (1024 * 1024 - 8) 0" 2]
  obtain w1 where w1: "append_tb 2 (Some (replicate (1024 * 1024 - 8) 0)) (1024 * 1024 - 8) w0 = Some (w1, 8)"
    "writer_for 1 [(2, replicate (1024 * 1024 - 8) 0)] w1" by auto
  have "w_end w1 = 1024 * 1024" using w1(2) by (simp add: writer_for_def)
  moreover have "w_size w1 = 1024 * 1024"
    using w1(1) size w0(2) by (auto simp: append_tb_def reserve_def write_at_def writer_for_def bind_eq_Some_conv Let_def split: if_splits)
  ultimately have "append_tb 3 (Some bs) (1024 * 1024) w1 = None" for bs by (simp add: append_tb_def reserve_def grow_def Let_def)
  then show ?thesis using w0(1) w1(1) by (simp del: replicate.simps)
qed
end
