(* ===== verification/Closure_Patterns.thy ===== *)
theory Closure_Patterns
  imports Dyld_Prelude
begin

text \<open>
  The compressed fixup lists of a closure: \<open>RebasePatternBuilder\<close>, \<open>BindPatternBuilder\<close> and the text rebases of
  \<open>src/dyld3/ClosureBuilder.cpp\<close>, and the walks of \<open>src/dyld3/Closure.cpp\<close> that expand them (\<open>forEachFixup\<close>,
  \<open>forEachBind\<close>, \<open>forEachTextReloc\<close>), as the list of calls they make to their handlers; a handler that stops sees
  a beginning of that list. The pointer size is an argument of these loops; \<open>image_forEachFixup\<close> and \<open>image_forEachBind\<close>
  (\<open>Closure_Writer\<close>) give them the size the flags of the image say. Bit fields keep their width; a failed assertion is \<open>None\<close>. The abstract view of a
  builder is the list of locations added to it.
\<close>

section \<open>Rebase patterns\<close>

record RebasePattern =
  repeatCount :: "20 word"
  contigCount :: u8
  skipCount :: "4 word"

abbreviation one_rebase :: RebasePattern where
  "one_rebase \<equiv> \<lparr>repeatCount = 1, contigCount = 1, skipCount = 0\<rparr>"

definition s_maxLeapPattern :: RebasePattern where
  "s_maxLeapPattern = \<lparr>repeatCount = 0xFFFFF, contigCount = 0, skipCount = 0xF\<rparr>"

definition s_maxLeapCount :: u64 where
  "s_maxLeapCount = ucast (repeatCount s_maxLeapPattern) * ucast (skipCount s_maxLeapPattern)"

text \<open>The two inner loops of \<open>forEachFixup\<close>: the locations rebased and the offset after them.\<close>

fun repeat_locations :: "u64 \<Rightarrow> nat \<Rightarrow> nat \<Rightarrow> u64 \<Rightarrow> u64 \<Rightarrow> u64 list \<times> u64" where
  "repeat_locations pointerSize 0 contig skip cur = ([], cur)"
| "repeat_locations pointerSize (Suc r) contig skip cur =
     (let run = map (\<lambda>i. cur + of_nat i * pointerSize) [0 ..< contig];
          (rest, cur') = repeat_locations pointerSize r contig skip (cur + of_nat contig * pointerSize + pointerSize * skip)
      in (run @ rest, cur'))"

definition pattern_locations :: "u64 \<Rightarrow> RebasePattern \<Rightarrow> u64 \<Rightarrow> u64 list \<times> u64" where
  "pattern_locations pointerSize pat cur =
     (if contigCount pat = 0 then
        (if repeatCount pat = 0 \<and> skipCount pat = 0 then ([], 0)
         else ([], cur + ucast (repeatCount pat) * ucast (skipCount pat)))
      else repeat_locations pointerSize (unat (repeatCount pat)) (unat (contigCount pat)) (ucast (skipCount pat)) cur)"

fun rebase_run :: "u64 \<Rightarrow> RebasePattern list \<Rightarrow> u64 \<Rightarrow> u64 list \<times> u64" where
  "rebase_run pointerSize [] cur = ([], cur)"
| "rebase_run pointerSize (pat # pats) cur =
     (let (ls, cur1) = pattern_locations pointerSize pat cur; (ls', cur2) = rebase_run pointerSize pats cur1 in (ls @ ls', cur2))"

definition forEachFixup_rebases :: "u64 \<Rightarrow> RebasePattern list \<Rightarrow> u64 list" where
  "forEachFixup_rebases pointerSize pats = fst (rebase_run pointerSize pats 0)"

text \<open>The two \<open>while\<close> loops that leap to a far location: the patterns and the distance left.\<close>

lemma s_maxLeapCount_value [simp]: "s_maxLeapCount = 15728625"
  by (simp add: s_maxLeapCount_def s_maxLeapPattern_def)

function far_leaps :: "u64 \<Rightarrow> RebasePattern list \<times> u64" where
  "far_leaps advanceCount =
     (if advanceCount > s_maxLeapCount
      then (let (pats, left) = far_leaps (advanceCount - s_maxLeapCount) in (s_maxLeapPattern # pats, left))
      else ([], advanceCount))"
  by pat_completeness auto
termination
  by (relation "measure unat") (auto simp: word_less_nat_alt unat_sub word_le_nat_alt)

function near_leaps :: "u64 \<Rightarrow> RebasePattern list \<times> u64" where
  "near_leaps advanceCount =
     (if advanceCount > ucast (repeatCount s_maxLeapPattern) then
        (let leap = advanceCount div ucast (skipCount s_maxLeapPattern);
             (pats, left) = near_leaps (advanceCount - leap * ucast (skipCount s_maxLeapPattern))
         in (\<lparr>repeatCount = ucast leap, contigCount = 0, skipCount = skipCount s_maxLeapPattern\<rparr> # pats, left))
      else ([], advanceCount))"
  by pat_completeness auto
termination
proof (relation "measure unat", simp, goal_cases)
  case (1 adv leap)
  have big: "unat adv > 0xFFFFF" using 1(1) by (simp add: s_maxLeapPattern_def word_less_nat_alt)
  have le: "unat (leap * 15) = unat adv div 15 * 15"
  proof -
    have "unat leap = unat adv div 15" using 1(2) by (simp add: s_maxLeapPattern_def unat_div)
    moreover have "unat adv div 15 * 15 < 2 ^ 64"
      using unat_u64_less [of adv] div_times_less_eq_dividend [of "unat adv" 15] by simp
    ultimately show ?thesis by (simp add: unat_word_ariths)
  qed
  then have "unat (adv - leap * 15) = unat adv - unat adv div 15 * 15" by (simp add: unat_sub word_le_nat_alt)
  with big show ?case by (simp add: s_maxLeapPattern_def)
qed

record RebasePatternBuilder =
  rebaseEntries :: "RebasePattern list"
  lastLocation :: u64

definition RebasePatternBuilder_new :: "u64 \<Rightarrow> RebasePatternBuilder" where
  "RebasePatternBuilder_new ptrSize = \<lparr>rebaseEntries = [], lastLocation = - ptrSize\<rparr>"

definition add_contiguous :: "RebasePattern list \<Rightarrow> RebasePattern list option" where
  "add_contiguous entries =
     (if entries = [] then None
      else if contigCount (last entries) < 255
      then Some (butlast entries @ [(last entries)\<lparr>contigCount := contigCount (last entries) + 1\<rparr>])
      else Some (entries @ [one_rebase]))"

text \<open>Whether the last entry has the same run and gap as the one before it.\<close>

definition mergeable :: "RebasePattern list \<Rightarrow> bool" where
  "mergeable entries \<longleftrightarrow>
     (let lastIndex = length entries - 1 in
      lastIndex > 1 \<and> contigCount (entries ! lastIndex) = contigCount (entries ! (lastIndex - 1))
      \<and> skipCount (entries ! lastIndex) = skipCount (entries ! (lastIndex - 1)))"

definition bump_repeat :: "RebasePattern list \<Rightarrow> RebasePattern list" where
  "bump_repeat entries = butlast entries @ [(last entries)\<lparr>repeatCount := repeatCount (last entries) + 1\<rparr>]"

definition add_skipped :: "u64 \<Rightarrow> u64 \<Rightarrow> RebasePattern list \<Rightarrow> RebasePattern list option" where
  "add_skipped ptrSize delta entries =
     (if entries = [] then None
      else
        (let entries1 = butlast entries @ [(last entries)\<lparr>skipCount := ucast (ucast ((delta - ptrSize) div ptrSize) :: u8)\<rparr>];
             entries2 = (if mergeable entries1 then bump_repeat (butlast entries1) else entries1)
         in Some (entries2 @ [one_rebase])))"

definition leap_patterns :: "u64 \<Rightarrow> RebasePattern list" where
  "leap_patterns advanceCount =
     (let (far, left) = far_leaps advanceCount; (near, left') = near_leaps left in
      far @ near @ (if left' \<noteq> 0 then [\<lparr>repeatCount = ucast left', contigCount = 0, skipCount = 1\<rparr>] else []))"

definition RebasePatternBuilder_add :: "u64 \<Rightarrow> u64 \<Rightarrow> RebasePatternBuilder \<Rightarrow> RebasePatternBuilder option" where
  "RebasePatternBuilder_add ptrSize runtimeOffset b =
     (let delta = runtimeOffset - lastLocation b; aligned = (delta mod ptrSize = 0);
          entries = rebaseEntries b in
      map_option (\<lambda>entries'. \<lparr>rebaseEntries = entries', lastLocation = runtimeOffset\<rparr>)
       (if delta = ptrSize then add_contiguous entries
        else if aligned \<and> delta \<le> ptrSize * 15 then add_skipped ptrSize delta entries
        else if runtimeOffset < lastLocation b \<and> lastLocation b \<noteq> - ptrSize
        then Some (entries @ [\<lparr>repeatCount = 0, contigCount = 0, skipCount = 0\<rparr>] @ leap_patterns runtimeOffset @ [one_rebase])
        else Some (entries @ leap_patterns (delta - ptrSize) @ [one_rebase])))"

fun rebase_adds :: "u64 \<Rightarrow> u64 list \<Rightarrow> RebasePatternBuilder \<Rightarrow> RebasePatternBuilder option" where
  "rebase_adds ptrSize [] b = Some b"
| "rebase_adds ptrSize (off # offs) b = Option.bind (RebasePatternBuilder_add ptrSize off b) (rebase_adds ptrSize offs)"

section \<open>Bind patterns\<close>

text \<open>A target is the raw 64-bit \<open>ResolvedSymbolTarget\<close>.\<close>

record BindPattern =
  bp_target :: u64
  bp_startVmOffset :: "40 word"
  bp_skipCount :: u8
  bp_repeatCount :: u16

definition bind_locations :: "u64 \<Rightarrow> BindPattern \<Rightarrow> (u64 \<times> u64) list" where
  "bind_locations pointerSize pat =
     map (\<lambda>i. (ucast (bp_startVmOffset pat) + of_nat i * (pointerSize * (1 + ucast (bp_skipCount pat))), bp_target pat))
       [0 ..< unat (bp_repeatCount pat)]"

definition forEachBind :: "u64 \<Rightarrow> BindPattern list \<Rightarrow> (u64 \<times> u64) list" where
  "forEachBind pointerSize pats = concat (map (bind_locations pointerSize) pats)"

record BindPatternBuilder =
  bindEntries :: "BindPattern list"
  lastOffset :: u64
  lastTarget :: u64

definition BindPatternBuilder_new :: "u64 \<Rightarrow> BindPatternBuilder" where
  "BindPatternBuilder_new ptrSize = \<lparr>bindEntries = [], lastOffset = - ptrSize, lastTarget = 0\<rparr>"

text \<open>The pattern a weak bind replaces, if there is one.\<close>

fun retarget :: "u64 \<Rightarrow> u64 \<Rightarrow> BindPattern list \<Rightarrow> BindPattern list option" where
  "retarget runtimeOffset target [] = None"
| "retarget runtimeOffset target (aBind # binds) =
     (if ucast (bp_startVmOffset aBind) = runtimeOffset \<and> bp_repeatCount aBind = 1 \<and> bp_skipCount aBind = 0
      then Some (aBind\<lparr>bp_target := target\<rparr> # binds) else map_option ((#) aBind) (retarget runtimeOffset target binds))"

text \<open>The attempt to extend the last pattern: \<open>None\<close> when it is not extended.\<close>

definition merge_bind :: "u64 \<Rightarrow> u64 \<Rightarrow> BindPatternBuilder \<Rightarrow> u64 \<Rightarrow> BindPattern option" where
  "merge_bind ptrSize runtimeOffset b target =
     (if target = lastTarget b \<and> runtimeOffset > lastOffset b \<and> bindEntries b \<noteq> [] then
        (let back = last (bindEntries b); gap = runtimeOffset - lastOffset b - ptrSize; skipAmount = gap div ptrSize in
         if skipAmount * ptrSize \<noteq> gap then None
         else if bp_repeatCount back = 1 \<and> bp_skipCount back = 0 \<and> skipAmount \<le> 255
         then Some (back\<lparr>bp_repeatCount := 2, bp_skipCount := ucast skipAmount\<rparr>)
         else if ucast (bp_skipCount back) = skipAmount \<and> bp_repeatCount back < 0xfff
         then Some (back\<lparr>bp_repeatCount := bp_repeatCount back + 1\<rparr>)
         else None)
      else None)"

definition append_bind :: "u64 \<Rightarrow> u64 \<Rightarrow> BindPatternBuilder \<Rightarrow> BindPatternBuilder option" where
  "append_bind runtimeOffset target b =
     (let pattern = \<lparr>bp_target = target, bp_startVmOffset = ucast runtimeOffset, bp_skipCount = 0, bp_repeatCount = 1\<rparr> in
      if ucast (bp_startVmOffset pattern) \<noteq> runtimeOffset then None
      else Some \<lparr>bindEntries = bindEntries b @ [pattern], lastOffset = runtimeOffset, lastTarget = target\<rparr>)"

definition BindPatternBuilder_add :: "u64 \<Rightarrow> u64 \<Rightarrow> u64 \<Rightarrow> bool \<Rightarrow> BindPatternBuilder \<Rightarrow> BindPatternBuilder option" where
  "BindPatternBuilder_add ptrSize runtimeOffset target weakBindCoalese b =
     (case (if weakBindCoalese then retarget runtimeOffset target (bindEntries b) else None) of
        Some binds \<Rightarrow> Some (b\<lparr>bindEntries := binds\<rparr>)
      | None \<Rightarrow>
          (case merge_bind ptrSize runtimeOffset b target of
             Some back \<Rightarrow> Some \<lparr>bindEntries = butlast (bindEntries b) @ [back], lastOffset = runtimeOffset, lastTarget = target\<rparr>
           | None \<Rightarrow>
               if target = lastTarget b \<and> runtimeOffset = lastOffset b \<and> bindEntries b \<noteq> []
               then Some (b\<lparr>lastOffset := runtimeOffset, lastTarget := target\<rparr>)
               else append_bind runtimeOffset target b))"

fun bind_adds :: "u64 \<Rightarrow> (u64 \<times> u64 \<times> bool) list \<Rightarrow> BindPatternBuilder \<Rightarrow> BindPatternBuilder option" where
  "bind_adds ptrSize [] b = Some b"
| "bind_adds ptrSize ((off, target, weakCoalesced) # adds) b =
     Option.bind (BindPatternBuilder_add ptrSize off target weakCoalesced b) (bind_adds ptrSize adds)"

section \<open>Text rebases\<close>

text \<open>A pattern with target 0 is a rebase; the call made to the handler is an offset and, for a bind, its target.\<close>

record TextFixupPattern =
  tp_target :: u64
  tp_startVmOffset :: u32
  tp_repeatCount :: u16
  tp_skipCount :: u16

definition text_locations :: "TextFixupPattern \<Rightarrow> (u32 \<times> u64 option) list" where
  "text_locations pat =
     map (\<lambda>i. (tp_startVmOffset pat + of_nat i * ucast (tp_skipCount pat), if tp_target pat = 0 then None else Some (tp_target pat)))
       [0 ..< unat (tp_repeatCount pat)]"

definition forEachTextReloc :: "TextFixupPattern list \<Rightarrow> (u32 \<times> u64 option) list" where
  "forEachTextReloc pats = concat (map text_locations pats)"

text \<open>
  The block that collects the text rebases of an i386 image: the patterns, the last offset and whether the error about too
  many locations was raised, which stops the walk after the current location. \<open>capacity\<close> is the number of entries
  allocated.
\<close>

record TextRebases =
  textRebases :: "TextFixupPattern list"
  lastTextOffset :: u64

definition TextRebases_new :: TextRebases where
  "TextRebases_new = \<lparr>textRebases = [], lastTextOffset = - 4\<rparr>"

definition merge_text :: "u64 \<Rightarrow> TextRebases \<Rightarrow> TextFixupPattern option" where
  "merge_text runtimeOffset t =
     (if runtimeOffset > lastTextOffset t \<and> textRebases t \<noteq> [] then
        (let pat = last (textRebases t); skipAmount = (ucast (runtimeOffset - lastTextOffset t) :: u32) in
         if tp_repeatCount pat = 1 \<and> tp_skipCount pat = 0
         then Some (pat\<lparr>tp_repeatCount := 2, tp_skipCount := ucast skipAmount\<rparr>)
         else if ucast (tp_skipCount pat) = skipAmount then Some (pat\<lparr>tp_repeatCount := tp_repeatCount pat + 1\<rparr>)
         else None)
      else None)"

definition text_rebase_add :: "u64 \<Rightarrow> TextRebases \<Rightarrow> TextRebases" where
  "text_rebase_add runtimeOffset t =
     \<lparr>textRebases =
        (case merge_text runtimeOffset t of
           Some pat \<Rightarrow> butlast (textRebases t) @ [pat]
         | None \<Rightarrow> textRebases t
             @ [\<lparr>tp_target = 0, tp_startVmOffset = ucast runtimeOffset, tp_repeatCount = 1, tp_skipCount = 0\<rparr>]),
      lastTextOffset = runtimeOffset\<rparr>"

fun text_rebase_adds :: "nat \<Rightarrow> u64 list \<Rightarrow> TextRebases \<Rightarrow> TextRebases \<times> bool" where
  "text_rebase_adds capacity [] t = (t, False)"
| "text_rebase_adds capacity (off # offs) t =
     (if capacity - length (textRebases t) < 2 then (text_rebase_add off t, True)
      else text_rebase_adds capacity offs (text_rebase_add off t))"

section \<open>Expanding rebase patterns\<close>

declare far_leaps.simps [simp del] near_leaps.simps [simp del]

lemma rebase_run_append:
  "rebase_run p (xs @ ys) cur = (fst (rebase_run p xs cur) @ fst (rebase_run p ys (snd (rebase_run p xs cur))),
     snd (rebase_run p ys (snd (rebase_run p xs cur))))"
  by (induction xs arbitrary: cur) (auto simp: Let_def split: prod.split)

lemma rebase_run_snoc:
  "rebase_run p (xs @ [pat]) cur = (fst (rebase_run p xs cur) @ fst (pattern_locations p pat (snd (rebase_run p xs cur))),
     snd (pattern_locations p pat (snd (rebase_run p xs cur))))"
  by (simp add: rebase_run_append Let_def split: prod.split)

lemma repeat_locations_Suc:
  "repeat_locations p (Suc r) c s cur = (fst (repeat_locations p r c s cur) @ fst (repeat_locations p 1 c s (snd (repeat_locations p r c s cur))),
     snd (repeat_locations p 1 c s (snd (repeat_locations p r c s cur))))"
proof (induction r arbitrary: cur)
  case (Suc r)
  let ?next = "cur + of_nat c * p + p * s"
  have unfold: "repeat_locations p (Suc n) c s cur = (map (\<lambda>i. cur + of_nat i * p) [0 ..< c] @ fst (repeat_locations p n c s ?next),
      snd (repeat_locations p n c s ?next))" for n
    by (simp add: Let_def split: prod.split)
  show ?case unfolding unfold [of "Suc r"] unfolding unfold [of r] Suc.IH [of ?next] fst_conv snd_conv append_assoc ..
qed (simp add: Let_def)

lemma far_leaps_run:
  "rebase_run p (fst (far_leaps adv)) cur = ([], cur + (adv - snd (far_leaps adv))) \<and> snd (far_leaps adv) \<le> 15728625"
proof (induction adv arbitrary: cur rule: far_leaps.induct)
  case (1 adv)
  show ?case
  proof (cases "adv > s_maxLeapCount")
    case True
    let ?r = "far_leaps (adv - s_maxLeapCount)"
    have far: "far_leaps adv = (s_maxLeapPattern # fst ?r, snd ?r)" using True by (subst far_leaps.simps) (simp add: Let_def split: prod.split)
    have "pattern_locations p s_maxLeapPattern cur = ([], cur + 15728625)" by (simp add: pattern_locations_def s_maxLeapPattern_def)
    with "1.IH" [OF True, of "cur + 15728625"] show ?thesis by (simp add: far Let_def algebra_simps)
  next
    case False
    then have "far_leaps adv = ([], adv)" by (subst far_leaps.simps) simp
    with False show ?thesis by (simp add: not_less)
  qed
qed

lemma ucast_back:
  fixes w :: "'b::len word"
  assumes "unat w < 2 ^ LENGTH('a::len)" and "LENGTH('a) \<le> LENGTH('b)"
  shows "ucast (ucast w :: 'a word) = w"
  using assms by (simp add: word_unat_eq_iff unsigned_ucast_eq unsigned_take_bit_eq take_bit_nat_eq_self)

lemma near_leaps_run:
  assumes "adv \<le> 15728625"
  shows "rebase_run p (fst (near_leaps adv)) cur = ([], cur + (adv - snd (near_leaps adv))) \<and> unat (snd (near_leaps adv)) < 2 ^ 20"
  using assms
proof (induction adv arbitrary: cur rule: near_leaps.induct)
  case (1 adv)
  have limit: "ucast (repeatCount s_maxLeapPattern) = (0xFFFFF :: u64)" "ucast (skipCount s_maxLeapPattern) = (15 :: u64)"
    "skipCount s_maxLeapPattern = 15" by (simp_all add: s_maxLeapPattern_def)
  show ?case
  proof (cases "adv > 0xFFFFF")
    case True
    let ?leap = "adv div 15" and ?r = "near_leaps (adv - adv div 15 * 15)"
    have near: "near_leaps adv = (\<lparr>repeatCount = ucast ?leap, contigCount = 0, skipCount = 15\<rparr> # fst ?r, snd ?r)"
      using True by (subst near_leaps.simps) (simp add: Let_def limit split: prod.split)
    have "unat ?leap < 2 ^ 20" using "1.prems" by (simp add: unat_div word_le_nat_alt)
    then have "ucast (ucast ?leap :: 20 word) = ?leap" by (intro ucast_back) simp_all
    then have step: "pattern_locations p \<lparr>repeatCount = ucast ?leap, contigCount = 0, skipCount = 15\<rparr> cur = ([], cur + ?leap * 15)"
      by (simp add: pattern_locations_def)
    have "adv - ?leap * 15 \<le> 15728625"
    proof -
      have "unat ?leap * 15 \<le> unat adv" using div_times_less_eq_dividend [of "unat adv" 15] by (simp add: unat_div)
      moreover from this have "unat ?leap * 15 < 2 ^ 64" using unat_u64_less [of adv] by simp
      then have "unat (?leap * 15) = unat ?leap * 15" unfolding unat_word_ariths by simp
      ultimately have "unat (adv - ?leap * 15) = unat adv - unat ?leap * 15" by (metis unat_sub word_le_nat_alt)
      with "1.prems" show ?thesis by (simp add: word_le_nat_alt)
    qed
    then have rest: "rebase_run p (fst ?r) (cur + ?leap * 15) = ([], cur + ?leap * 15 + (adv - ?leap * 15 - snd ?r)) \<and> unat (snd ?r) < 2 ^ 20"
      using "1.IH" [OF _ refl, unfolded limit(1,2), OF True] by blast
    have "cur + ?leap * 15 + (adv - ?leap * 15 - snd ?r) = cur + (adv - snd ?r)" by simp
    with rest step show ?thesis unfolding near by simp
  next
    case False
    then have "near_leaps adv = ([], adv)" by (subst near_leaps.simps) (simp add: limit)
    moreover have "unat adv < 2 ^ 20" using False by (simp add: not_less word_le_nat_alt)
    ultimately show ?thesis by simp
  qed
qed

text \<open>The leap patterns move the offset by exactly the distance, and rebase nothing.\<close>

lemma leap_run: "rebase_run p (leap_patterns adv) cur = ([], cur + adv)"
proof -
  obtain far left near left' where parts: "far_leaps adv = (far, left)" "near_leaps left = (near, left')" by fastforce
  note far = far_leaps_run [of p adv, unfolded parts(1), simplified]
  note near = near_leaps_run [of left p, unfolded parts(2), simplified]
  have "rebase_run p near (cur + (adv - left)) = ([], cur + (adv - left) + (left - left'))" "unat left' < 2 ^ 20" using far near by auto
  moreover have "rebase_run p far cur = ([], cur + (adv - left))" using far by simp
  moreover have "left' \<noteq> 0 \<Longrightarrow> pattern_locations p \<lparr>repeatCount = ucast left', contigCount = 0, skipCount = 1\<rparr> c = ([], c + left')" for c
    using \<open>unat left' < 2 ^ 20\<close> by (simp add: pattern_locations_def ucast_back)
  ultimately show ?thesis by (simp add: leap_patterns_def parts rebase_run_append)
qed

section \<open>The rebase builder\<close>

text \<open>
  What the entries of a builder always look like: expanding them gives the locations added so far and ends one
  pointer after the last, the last entry is a single run, and repeat counts are bounded by the number of locations.
\<close>

definition entries_for :: "u64 \<Rightarrow> RebasePattern list \<Rightarrow> u64 list \<Rightarrow> u64 \<Rightarrow> bool" where
  "entries_for p entries locs cur \<longleftrightarrow> rebase_run p entries 0 = (locs, cur)
     \<and> (\<exists>pre c. entries = pre @ [\<lparr>repeatCount = 1, contigCount = c, skipCount = 0\<rparr>] \<and> c \<noteq> 0)
     \<and> (\<forall>e\<in>set entries. contigCount e \<noteq> 0 \<longrightarrow> unat (repeatCount e) \<le> length locs)"

lemma single_run: "c \<noteq> 0 \<Longrightarrow> pattern_locations p \<lparr>repeatCount = 1, contigCount = c, skipCount = s\<rparr> cur
    = (map (\<lambda>i. cur + of_nat i * p) [0 ..< unat c], cur + of_nat (unat c) * p + p * ucast s)"
  by (simp add: pattern_locations_def Let_def)

lemma entries_for_new:
  assumes "rebase_run p entries 0 = (locs, off)" and "\<forall>e\<in>set entries. contigCount e \<noteq> 0 \<longrightarrow> unat (repeatCount e) \<le> Suc (length locs)"
  shows "entries_for p (entries @ [one_rebase]) (locs @ [off]) (off + p)"
  using assms by (auto simp: entries_for_def rebase_run_snoc single_run le_SucI)

lemma contiguous_ok:
  assumes "entries_for p entries locs off"
  shows "\<exists>entries'. add_contiguous entries = Some entries' \<and> entries_for p entries' (locs @ [off]) (off + p)"
proof -
  from assms obtain pre c where pre: "entries = pre @ [\<lparr>repeatCount = 1, contigCount = c, skipCount = 0\<rparr>]" "c \<noteq> 0"
    and run: "rebase_run p entries 0 = (locs, off)"
    and reps: "\<forall>e\<in>set entries. contigCount e \<noteq> 0 \<longrightarrow> unat (repeatCount e) \<le> length locs" by (auto simp: entries_for_def)
  show ?thesis
  proof (cases "c < 255")
    case True
    then have c: "unat (c + 1) = unat c + 1" by (simp add: unat_word_ariths word_less_nat_alt)
    then have nz: "c + 1 \<noteq> 0" by (metis add_is_0 one_neq_zero unat_0)
    let ?e = "pre @ [\<lparr>repeatCount = 1, contigCount = c + 1, skipCount = 0\<rparr>]"
    obtain l0 c0 where pre_run: "rebase_run p pre 0 = (l0, c0)" by fastforce
    have "locs = l0 @ map (\<lambda>i. c0 + of_nat i * p) [0 ..< unat c]" "off = c0 + of_nat (unat c) * p"
      using run pre unfolding pre(1) rebase_run_snoc by (auto simp: single_run pre_run)
    then have "rebase_run p ?e 0 = (locs @ [off], off + p)"
      unfolding rebase_run_snoc single_run [OF nz] pre_run c by (simp add: algebra_simps)
    moreover have "add_contiguous entries = Some ?e" using True by (simp add: add_contiguous_def pre(1))
    ultimately show ?thesis using reps nz by (auto simp: entries_for_def pre(1) le_SucI)
  next
    case False
    then have "add_contiguous entries = Some (entries @ [one_rebase])" by (simp add: add_contiguous_def pre(1))
    moreover have "\<forall>e\<in>set entries. contigCount e \<noteq> 0 \<longrightarrow> unat (repeatCount e) \<le> Suc (length locs)" using reps le_SucI by blast
    ultimately show ?thesis using entries_for_new [OF run] by blast
  qed
qed

lemma repeat_bump:
  assumes "c \<noteq> 0" and "unat r < 2 ^ 20 - 1"
  shows "rebase_run p (pre @ [\<lparr>repeatCount = r, contigCount = c, skipCount = s\<rparr>, \<lparr>repeatCount = 1, contigCount = c, skipCount = s\<rparr>]) cur
    = rebase_run p (pre @ [\<lparr>repeatCount = r + 1, contigCount = c, skipCount = s\<rparr>]) cur"
proof -
  have r: "unat (r + 1) = Suc (unat r)" using assms(2) by (simp add: unat_word_ariths)
  have "rebase_run p [\<lparr>repeatCount = r, contigCount = c, skipCount = s\<rparr>, \<lparr>repeatCount = 1, contigCount = c, skipCount = s\<rparr>] cur'
      = rebase_run p [\<lparr>repeatCount = r + 1, contigCount = c, skipCount = s\<rparr>] cur'" for cur'
    using assms(1) by (simp add: pattern_locations_def r repeat_locations_Suc [of p "unat r"] Let_def del: repeat_locations.simps split: prod.split)
  then show ?thesis by (simp add: rebase_run_append)
qed

lemma mergeable_shape:
  assumes "mergeable (pre @ [\<lparr>repeatCount = 1, contigCount = c, skipCount = s\<rparr>])"
  shows "\<exists>pre' r. pre = pre' @ [\<lparr>repeatCount = r, contigCount = c, skipCount = s\<rparr>]"
proof (cases pre rule: rev_cases)
  case Nil
  with assms show ?thesis by (simp add: mergeable_def)
next
  case (snoc pre' e)
  with assms have "contigCount e = c" "skipCount e = s" by (auto simp: mergeable_def Let_def nth_append)
  then have "e = \<lparr>repeatCount = repeatCount e, contigCount = c, skipCount = s\<rparr>" by (cases e) simp
  with snoc show ?thesis by blast
qed

lemma skipped_ok:
  assumes ent: "entries_for p entries locs cur" and len: "length locs < 2 ^ 20 - 1"
    and s: "ucast (ucast ((delta - p) div p) :: u8) = (s :: 4 word)" and off: "off = cur + p * ucast s"
  shows "\<exists>entries'. add_skipped p delta entries = Some entries' \<and> entries_for p entries' (locs @ [off]) (off + p)"
proof -
  from ent obtain pre c where pre: "entries = pre @ [\<lparr>repeatCount = 1, contigCount = c, skipCount = 0\<rparr>]" "c \<noteq> 0"
    and run: "rebase_run p entries 0 = (locs, cur)"
    and reps: "\<forall>e\<in>set entries. contigCount e \<noteq> 0 \<longrightarrow> unat (repeatCount e) \<le> length locs" by (auto simp: entries_for_def)
  let ?e1 = "pre @ [\<lparr>repeatCount = 1, contigCount = c, skipCount = s\<rparr>]"
  let ?e2 = "if mergeable ?e1 then bump_repeat pre else ?e1"
  have run1: "rebase_run p ?e1 0 = (locs, off)"
    using run pre(2) unfolding pre(1) rebase_run_snoc off by (simp add: single_run)
  have "rebase_run p ?e2 0 = (locs, off) \<and> (\<forall>e\<in>set ?e2. contigCount e \<noteq> 0 \<longrightarrow> unat (repeatCount e) \<le> Suc (length locs))"
  proof (cases "mergeable ?e1")
    case False
    then show ?thesis using run1 reps by (auto simp: pre(1) le_SucI)
  next
    case True
    from mergeable_shape [OF True] obtain pre' r where r: "pre = pre' @ [\<lparr>repeatCount = r, contigCount = c, skipCount = s\<rparr>]" by blast
    have "unat r \<le> length locs" using reps pre(2) by (simp add: pre(1) r)
    then have small: "unat r < 2 ^ 20 - 1" "unat (r + 1) = Suc (unat r)" using len by (simp_all add: unat_word_ariths)
    have "bump_repeat pre = pre' @ [\<lparr>repeatCount = r + 1, contigCount = c, skipCount = s\<rparr>]" by (simp add: r bump_repeat_def)
    with run1 repeat_bump [OF pre(2) small(1), of p pre' s 0] small(2) \<open>unat r \<le> length locs\<close> reps show ?thesis
      by (auto simp: True r pre(1) le_SucI)
  qed
  then have "entries_for p (?e2 @ [one_rebase]) (locs @ [off]) (off + p)" using entries_for_new by blast
  moreover have "add_skipped p delta entries = Some (?e2 @ [one_rebase])"
    by (simp add: add_skipped_def pre(1) s Let_def)
  ultimately show ?thesis by blast
qed

definition far_enough :: "u64 \<Rightarrow> u64 \<Rightarrow> u64 \<Rightarrow> bool" where
  "far_enough p prev off \<longleftrightarrow> off < 2 ^ 63 \<and> (off < prev \<or> prev + p \<le> off)"

lemma skip_amount:
  fixes delta p :: u64
  assumes p: "p = 4 \<or> p = 8" and "delta mod p = 0" and "p \<le> delta" and "delta \<le> p * 15"
  shows "p * ucast (ucast (ucast ((delta - p) div p) :: u8) :: 4 word) = delta - p"
proof -
  have "unat delta mod unat p = 0" using assms(2) by (metis unat_mod unat_0)
  then obtain k where d: "unat delta = unat p * k" by (metis mod_0_imp_dvd dvdE)
  have "unat p * 1 \<le> unat delta" "unat delta \<le> unat p * 15" using assms by (auto simp: word_le_nat_alt)
  then have "1 \<le> k" "k \<le> 15" using p unfolding d by auto
  then have "k = 1 \<or> k = 2 \<or> k = 3 \<or> k = 4 \<or> k = 5 \<or> k = 6 \<or> k = 7 \<or> k = 8 \<or> k = 9 \<or> k = 10 \<or> k = 11 \<or> k = 12 \<or> k = 13 \<or> k = 14 \<or> k = 15"
    by presburger
  moreover have "delta = p * of_nat k" using arg_cong [OF d, of "of_nat :: nat \<Rightarrow> u64"] by simp
  ultimately show ?thesis using p by (elim disjE) (simp_all only:, simp_all)
qed

lemma leap_patterns_plain: "e \<in> set (leap_patterns adv) \<Longrightarrow> contigCount e = 0"
proof -
  have far: "\<forall>e\<in>set (fst (far_leaps adv)). contigCount e = 0" for adv
  proof (induction adv rule: far_leaps.induct)
    case (1 adv)
    then show ?case by (subst far_leaps.simps) (auto simp: Let_def s_maxLeapPattern_def split: prod.split)
  qed
  have near: "\<forall>e\<in>set (fst (near_leaps adv)). contigCount e = 0" for adv
  proof (induction adv rule: near_leaps.induct)
    case (1 adv)
    then show ?case by (subst near_leaps.simps) (auto simp: Let_def split: prod.split)
  qed
  assume "e \<in> set (leap_patterns adv)"
  with far [of adv] near [of "snd (far_leaps adv)"] show ?thesis
    by (cases "far_leaps adv"; cases "near_leaps (snd (far_leaps adv))") (auto simp: leap_patterns_def Let_def split: if_splits)
qed

lemma forward_distance:
  fixes prev off p :: u64
  assumes "p = 4 \<or> p = 8" and "prev < 2 ^ 63" and "far_enough p prev off" and "off - prev \<le> p * 15"
  shows "p \<le> off - prev"
proof (cases "off < prev")
  case True
  then have "unat (off - prev) = 2 ^ 64 - unat prev + unat off"
    using unat_u64_less [of prev] by (simp add: unat_sub_if' word_less_nat_alt)
  moreover have "unat (off - prev) \<le> 120" "unat prev < 2 ^ 63" using assms by (auto simp: word_le_nat_alt word_less_nat_alt)
  ultimately show ?thesis by simp
next
  case False
  with assms(3) have "prev + p \<le> off" by (simp add: far_enough_def)
  moreover have "unat (prev + p) = unat prev + unat p" using assms(1,2) by (auto simp: unat_word_ariths word_less_nat_alt)
  ultimately have "unat p \<le> unat off - unat prev" "unat prev \<le> unat off" by (simp_all add: word_le_nat_alt)
  then show ?thesis by (simp add: word_le_nat_alt unat_sub)
qed

lemma add_ok:
  assumes p: "p = 4 \<or> p = 8" and ent: "entries_for p (rebaseEntries b) locs (lastLocation b + p)"
    and last: "lastLocation b < 2 ^ 63" and far: "far_enough p (lastLocation b) off" and len: "length locs < 2 ^ 20 - 1"
  shows "\<exists>b'. RebasePatternBuilder_add p off b = Some b' \<and> lastLocation b' = off \<and> entries_for p (rebaseEntries b') (locs @ [off]) (off + p)"
proof -
  let ?E = "rebaseEntries b" and ?L = "lastLocation b" and ?d = "off - lastLocation b"
  have run: "rebase_run p ?E 0 = (locs, ?L + p)" and reps: "\<forall>e\<in>set ?E. contigCount e \<noteq> 0 \<longrightarrow> unat (repeatCount e) \<le> Suc (length locs)"
    using ent by (auto simp: entries_for_def le_SucI)
  have leap: "entries_for p (?E @ mid @ leap_patterns adv @ [one_rebase]) (locs @ [off]) (off + p)"
    if "rebase_run p (?E @ mid) 0 = (locs, c)" "c + adv = off" "\<forall>e\<in>set mid. contigCount e = 0" for mid c adv
  proof -
    have "rebase_run p ((?E @ mid) @ leap_patterns adv) 0 = (locs, off)" unfolding rebase_run_append [of p "?E @ mid"] that(1) by (simp add: leap_run that(2))
    then show ?thesis using reps leap_patterns_plain that(3) entries_for_new [of p "(?E @ mid) @ leap_patterns adv" locs off] by auto
  qed
  have "?L \<noteq> - p" using last p by (auto simp: word_less_nat_alt)
  consider (contiguous) "?d = p" | (skipped) "?d \<noteq> p" "?d mod p = 0" "?d \<le> p * 15" | (backward) "?d \<noteq> p" "\<not> (?d mod p = 0 \<and> ?d \<le> p * 15)" "off < ?L"
    | (forward) "?d \<noteq> p" "\<not> (?d mod p = 0 \<and> ?d \<le> p * 15)" "\<not> off < ?L" by blast
  then show ?thesis
  proof cases
    case contiguous
    then have "off = ?L + p" by (simp add: algebra_simps)
    with contiguous_ok [OF ent] contiguous show ?thesis by (auto simp: RebasePatternBuilder_add_def Let_def)
  next
    case skipped
    have "p \<le> ?d" using forward_distance [OF p last far skipped(3)] .
    then have "off = ?L + p + p * ucast (ucast (ucast ((?d - p) div p) :: u8) :: 4 word)"
      using skip_amount [OF p skipped(2) _ skipped(3)] by simp
    from skipped_ok [OF ent len refl this] skipped show ?thesis by (auto simp: RebasePatternBuilder_add_def Let_def)
  next
    case backward
    let ?reset = "\<lparr>repeatCount = 0, contigCount = 0, skipCount = 0\<rparr>"
    have "rebase_run p (?E @ [?reset]) 0 = (locs, 0)" unfolding rebase_run_snoc run by (simp add: pattern_locations_def)
    from leap [OF this, of off] backward \<open>?L \<noteq> - p\<close> show ?thesis by (auto simp: RebasePatternBuilder_add_def Let_def)
  next
    case forward
    from leap [of "[]" "?L + p" "?d - p"] run forward show ?thesis by (auto simp: RebasePatternBuilder_add_def Let_def)
  qed
qed

fun separated :: "u64 \<Rightarrow> u64 \<Rightarrow> u64 list \<Rightarrow> bool" where
  "separated p prev [] = True"
| "separated p prev (off # offs) \<longleftrightarrow> far_enough p prev off \<and> separated p off offs"

lemma adds_ok:
  assumes p: "p = 4 \<or> p = 8" and "entries_for p (rebaseEntries b) locs (lastLocation b + p)" and "lastLocation b < 2 ^ 63"
    and "separated p (lastLocation b) offs" and "length locs + length offs < 2 ^ 20"
  shows "\<exists>b'. rebase_adds p offs b = Some b' \<and> fst (rebase_run p (rebaseEntries b') 0) = locs @ offs"
  using assms(2-)
proof (induction offs arbitrary: b locs)
  case Nil
  then show ?case by (auto simp: entries_for_def)
next
  case (Cons off offs)
  have far: "far_enough p (lastLocation b) off" "length locs < 2 ^ 20 - 1" using Cons.prems(3,4) by simp_all
  from add_ok [OF p Cons.prems(1,2) far] obtain b1 where b1: "RebasePatternBuilder_add p off b = Some b1" "lastLocation b1 = off"
    "entries_for p (rebaseEntries b1) (locs @ [off]) (off + p)" by blast
  have "off < 2 ^ 63" using far(1) by (simp add: far_enough_def)
  with Cons.IH [of b1 "locs @ [off]"] b1 Cons.prems(3,4) show ?case by auto
qed

lemma first_add:
  assumes "p = 4 \<or> p = 8" and "14 * p < off" and "off < 2 ^ 63"
  shows "RebasePatternBuilder_add p off (RebasePatternBuilder_new p) = Some \<lparr>rebaseEntries = leap_patterns off @ [one_rebase], lastLocation = off\<rparr>"
proof -
  have "unat (off + p) = unat off + unat p" "14 * unat p < unat off" using assms by (auto simp: unat_word_ariths word_less_nat_alt)
  then have "\<not> off + p \<le> p * 15" "off + p \<noteq> p" using assms(1) by (auto simp: word_le_nat_alt)
  then show ?thesis by (simp add: RebasePatternBuilder_add_def RebasePatternBuilder_new_def Let_def)
qed

lemma rebase_patterns_ok:
  assumes "p = 4 \<or> p = 8" and "14 * p < off" and "off < 2 ^ 63" and "separated p off offs" and "length offs < 2 ^ 20 - 1"
  shows "\<exists>b. rebase_adds p (off # offs) (RebasePatternBuilder_new p) = Some b
    \<and> forEachFixup_rebases p (rebaseEntries b) = off # offs"
proof -
  let ?b = "\<lparr>rebaseEntries = leap_patterns off @ [one_rebase], lastLocation = off\<rparr>"
  have "entries_for p (leap_patterns off @ [one_rebase]) ([] @ [off]) (off + p)"
    using leap_patterns_plain by (intro entries_for_new) (auto simp: leap_run)
  with adds_ok [OF assms(1), of ?b "[off]" offs] assms(3-5) first_add [OF assms(1-3)] show ?thesis
    by (auto simp: forEachFixup_rebases_def)
qed

text \<open>
  C12: the rebase patterns a builder produces expand to exactly the locations added to it, in order. This holds for either pointer size and any
  fewer than \<open>2^20\<close> locations, in any order, the first past the header's first fourteen words, where consecutive ones do
  not overlap: runs, gaps that are folded into a repeated pattern, leaps to far locations and returns to lower ones included.
\<close>

theorem rebase_patterns_roundtrip:
  assumes "p = 4 \<or> p = 8" and "14 * p < off" and "off < 2 ^ 63" and "separated p off offs" and "length offs < 2 ^ 20 - 1"
  shows "\<exists>b. rebase_adds p (off # offs) (RebasePatternBuilder_new p) = Some b
    \<and> forEachFixup_rebases p (rebaseEntries b) = off # offs"
  using assms by (rule rebase_patterns_ok)

theorem rebase_patterns_roundtrip_witness:
  "\<exists>b. rebase_adds 8 [0x4000, 0x4008, 0x4018, 0x4028, 0x2000000, 0x3000] (RebasePatternBuilder_new 8) = Some b
    \<and> forEachFixup_rebases 8 (rebaseEntries b) = [0x4000, 0x4008, 0x4018, 0x4028, 0x2000000, 0x3000]"
  using rebase_patterns_roundtrip [of 8 "0x4000" "[0x4008, 0x4018, 0x4028, 0x2000000, 0x3000]"] by (simp add: far_enough_def)

section \<open>The bind builder\<close>

definition bind_stride :: "u64 \<Rightarrow> BindPattern \<Rightarrow> u64" where
  "bind_stride p pat = p * (1 + ucast (bp_skipCount pat))"

lemma bind_locations_alt: "bind_locations p pat =
    map (\<lambda>i. (ucast (bp_startVmOffset pat) + of_nat i * bind_stride p pat, bp_target pat)) [0 ..< unat (bp_repeatCount pat)]"
  by (simp add: bind_locations_def bind_stride_def)

text \<open>The last pattern ends at the last location added.\<close>

definition ends_at :: "u64 \<Rightarrow> BindPattern \<Rightarrow> u64 \<Rightarrow> u64 \<Rightarrow> bool" where
  "ends_at p pat off target \<longleftrightarrow> bp_repeatCount pat \<noteq> 0 \<and> bp_target pat = target
     \<and> off = ucast (bp_startVmOffset pat) + of_nat (unat (bp_repeatCount pat) - 1) * bind_stride p pat"

definition binds_for :: "u64 \<Rightarrow> BindPatternBuilder \<Rightarrow> (u64 \<times> u64) list \<Rightarrow> bool" where
  "binds_for p b binds \<longleftrightarrow> forEachBind p (bindEntries b) = binds \<and> bindEntries b \<noteq> []
     \<and> ends_at p (last (bindEntries b)) (lastOffset b) (lastTarget b)"

lemma extend_pattern:
  assumes ends: "ends_at p pat prev target" and more: "unat (bp_repeatCount pat') = Suc (unat (bp_repeatCount pat))"
    and same: "bp_startVmOffset pat' = bp_startVmOffset pat" "bp_target pat' = bp_target pat"
    and stride: "bind_stride p pat' = bind_stride p pat \<or> bp_repeatCount pat = 1" and off: "off = prev + bind_stride p pat'"
  shows "bind_locations p pat' = bind_locations p pat @ [(off, target)]" "ends_at p pat' off target"
proof -
  have r: "bp_repeatCount pat \<noteq> 0" "bp_target pat = target" using ends by (simp_all add: ends_at_def)
  then obtain n where n: "unat (bp_repeatCount pat) = Suc n" by (metis unat_eq_0 not0_implies_Suc)
  have prev: "prev = ucast (bp_startVmOffset pat) + of_nat n * bind_stride p pat" using ends n by (simp add: ends_at_def)
  have stride': "bind_stride p pat' = bind_stride p pat \<or> n = 0" using stride n by auto
  have first: "map (\<lambda>i. (ucast (bp_startVmOffset pat) + of_nat i * bind_stride p pat', target)) [0 ..< Suc n]
      = map (\<lambda>i. (ucast (bp_startVmOffset pat) + of_nat i * bind_stride p pat, target)) [0 ..< Suc n]"
    using stride' by auto
  have there: "off = ucast (bp_startVmOffset pat) + of_nat (Suc n) * bind_stride p pat'"
    using stride' unfolding off prev by (auto simp: algebra_simps)
  have "[0 ..< Suc (Suc n)] = [0 ..< Suc n] @ [Suc n]" by simp
  then show "bind_locations p pat' = bind_locations p pat @ [(off, target)]"
    unfolding bind_locations_alt more n same r(2) there by (simp only: map_append first) simp
  show "ends_at p pat' off target"
    using more n same r(2) there unfolding ends_at_def by (metis diff_Suc_1 nat.distinct(1) unat_0)
qed

lemma forEachBind_back: "entries \<noteq> [] \<Longrightarrow> forEachBind p entries = forEachBind p (butlast entries) @ bind_locations p (last entries)"
  by (cases entries rule: rev_cases) (simp_all add: forEachBind_def)

lemma merge_cases:
  assumes "merge_bind p off b target = Some pat"
  obtains (second) "target = lastTarget b" "(off - lastOffset b - p) div p * p = off - lastOffset b - p"
      "bp_repeatCount (last (bindEntries b)) = 1" "(off - lastOffset b - p) div p \<le> 255"
      "pat = last (bindEntries b)\<lparr>bp_repeatCount := 2, bp_skipCount := ucast ((off - lastOffset b - p) div p)\<rparr>"
    | (later) "target = lastTarget b" "(off - lastOffset b - p) div p * p = off - lastOffset b - p"
      "ucast (bp_skipCount (last (bindEntries b))) = (off - lastOffset b - p) div p" "bp_repeatCount (last (bindEntries b)) < 0xfff"
      "pat = last (bindEntries b)\<lparr>bp_repeatCount := bp_repeatCount (last (bindEntries b)) + 1\<rparr>"
proof -
  let ?gap = "off - lastOffset b - p" and ?r = "bp_repeatCount (last (bindEntries b))"
  have t: "target = lastTarget b" using assms unfolding merge_bind_def by (rule contrapos_pp) simp
  have g: "?gap div p * p = ?gap" using assms unfolding merge_bind_def Let_def by (rule contrapos_pp) simp
  from assms have "(if ?r = 1 \<and> bp_skipCount (last (bindEntries b)) = 0 \<and> ?gap div p \<le> 255
      then Some (last (bindEntries b)\<lparr>bp_repeatCount := 2, bp_skipCount := ucast (?gap div p)\<rparr>)
      else if ucast (bp_skipCount (last (bindEntries b))) = ?gap div p \<and> ?r < 0xfff
      then Some (last (bindEntries b)\<lparr>bp_repeatCount := ?r + 1\<rparr>) else None) = Some pat"
    unfolding merge_bind_def Let_def g by (metis option.distinct(1))
  then show ?thesis using that t g by (metis option.distinct(1) option.inject)
qed

lemma word_stride: "(off - prev - p) div p * p = off - prev - p \<Longrightarrow> off = prev + p * (1 + (off - prev - p) div p)" for p :: u64
  by (simp add: algebra_simps)

lemma merge_ok:
  assumes b: "binds_for p b binds" and merge: "merge_bind p off b target = Some pat"
  shows "forEachBind p (butlast (bindEntries b) @ [pat]) = binds @ [(off, target)] \<and> ends_at p pat off target"
proof -
  let ?pat = "last (bindEntries b)"
  define skip where "skip = (off - lastOffset b - p) div p"
  have "bind_locations p pat = bind_locations p ?pat @ [(off, target)] \<and> ends_at p pat off target"
  using merge proof (cases rule: merge_cases)
    case second
    have ends: "ends_at p ?pat (lastOffset b) target" using b second(1) by (simp add: binds_for_def)
    have "ucast (ucast skip :: u8) = skip" using second(4) unfolding skip_def by (intro ucast_back) (simp_all add: word_le_nat_alt)
    moreover have "off = lastOffset b + p * (1 + skip)" using word_stride [OF second(2)] by (simp add: skip_def)
    moreover have "pat = ?pat\<lparr>bp_repeatCount := 2, bp_skipCount := ucast skip\<rparr>" using second(5) by (simp add: skip_def)
    ultimately show ?thesis using extend_pattern [OF ends, of pat off] second(3) by (simp add: bind_stride_def)
  next
    case later
    have ends: "ends_at p ?pat (lastOffset b) target" using b later(1) by (simp add: binds_for_def)
    have "unat (bp_repeatCount ?pat + 1) = Suc (unat (bp_repeatCount ?pat))" using later(4) by (simp add: unat_word_ariths word_less_nat_alt)
    moreover have "off = lastOffset b + p * (1 + ucast (bp_skipCount ?pat))" using word_stride [OF later(2)] later(3) by simp
    ultimately show ?thesis using extend_pattern [OF ends, of pat off] later(5) by (simp add: bind_stride_def)
  qed
  moreover have "binds = forEachBind p (butlast (bindEntries b)) @ bind_locations p ?pat"
    using b forEachBind_back [of "bindEntries b" p] by (simp add: binds_for_def)
  ultimately show ?thesis by (simp add: forEachBind_def)
qed

lemma append_ok:
  assumes "off < 2 ^ 40"
  shows "\<exists>b'. append_bind off target b = Some b' \<and> lastOffset b' = off \<and> lastTarget b' = target
    \<and> binds_for p b' (forEachBind p (bindEntries b) @ [(off, target)])"
proof -
  have "ucast (ucast off :: 40 word) = off" using assms by (intro ucast_back) (simp_all add: word_less_nat_alt)
  then show ?thesis by (simp add: append_bind_def Let_def binds_for_def forEachBind_def bind_locations_def ends_at_def)
qed

lemma bind_add_ok:
  assumes p: "p = 4 \<or> p = 8" and b: "binds_for p b binds" and off: "off < 2 ^ 40"
  shows "\<exists>b'. BindPatternBuilder_add p off target False b = Some b' \<and> lastOffset b' = off \<and> lastTarget b' = target
    \<and> binds_for p b' (if (off, target) = (lastOffset b, lastTarget b) then binds else binds @ [(off, target)])"
proof (cases "merge_bind p off b target")
  case (Some pat)
  then have "off \<noteq> lastOffset b" by (auto simp: merge_bind_def split: if_splits)
  with Some merge_ok [OF b Some] show ?thesis by (auto simp: BindPatternBuilder_add_def binds_for_def)
next
  case None
  show ?thesis
  proof (cases "(off, target) = (lastOffset b, lastTarget b)")
    case True
    with None b show ?thesis by (auto simp: BindPatternBuilder_add_def binds_for_def)
  next
    case False
    with None append_ok [OF off, of target b p] b show ?thesis by (auto simp: BindPatternBuilder_add_def binds_for_def)
  qed
qed

lemma remdups_adj_snoc: "xs \<noteq> [] \<Longrightarrow> remdups_adj (xs @ [x]) = (if x = last xs then remdups_adj xs else remdups_adj xs @ [x])"
  by (cases xs rule: rev_cases) (auto simp: remdups_adj_append_two)

lemma bind_adds_ok:
  assumes p: "p = 4 \<or> p = 8" and "binds_for p b (remdups_adj added)" and "added \<noteq> []" and "last added = (lastOffset b, lastTarget b)"
    and "\<forall>x\<in>set binds. fst x < 2 ^ 40"
  shows "\<exists>b'. bind_adds p (map (\<lambda>(off, target). (off, target, False)) binds) b = Some b'
    \<and> forEachBind p (bindEntries b') = remdups_adj (added @ binds)"
  using assms(2-)
proof (induction binds arbitrary: b added)
  case Nil
  then show ?case by (simp add: binds_for_def)
next
  case (Cons x binds)
  obtain off target where x: "x = (off, target)" by (cases x)
  have "off < 2 ^ 40" using Cons.prems(4) x by simp
  from bind_add_ok [OF p Cons.prems(1) this, of target] obtain b1 where b1: "BindPatternBuilder_add p off target False b = Some b1"
    "lastOffset b1 = off" "lastTarget b1 = target"
    "binds_for p b1 (if (off, target) = (lastOffset b, lastTarget b) then remdups_adj added else remdups_adj added @ [(off, target)])" by blast
  then have "binds_for p b1 (remdups_adj (added @ [x]))" using Cons.prems(2,3) by (simp add: remdups_adj_snoc x)
  with Cons.IH [of b1 "added @ [x]"] b1 Cons.prems(4) show ?case by (simp add: x)
qed

lemma bind_patterns_ok:
  assumes "p = 4 \<or> p = 8" and "\<forall>x\<in>set binds. fst x < 2 ^ 40"
  shows "\<exists>b. bind_adds p (map (\<lambda>(off, target). (off, target, False)) binds) (BindPatternBuilder_new p) = Some b
    \<and> forEachBind p (bindEntries b) = remdups_adj binds"
proof (cases binds)
  case Nil
  then show ?thesis by (simp add: BindPatternBuilder_new_def forEachBind_def)
next
  case (Cons x xs)
  obtain off target where x: "x = (off, target)" by (cases x)
  have "off < 2 ^ 40" using assms(2) Cons x by simp
  from append_ok [OF this, of target "BindPatternBuilder_new p" p] obtain b where b:
    "BindPatternBuilder_add p off target False (BindPatternBuilder_new p) = Some b" "lastOffset b = off" "lastTarget b = target" "binds_for p b [x]"
    by (auto simp: BindPatternBuilder_new_def BindPatternBuilder_add_def merge_bind_def forEachBind_def x)
  with bind_adds_ok [OF assms(1), of b "[x]" xs] assms(2) show ?thesis by (simp add: Cons x)
qed

text \<open>
  C19: the bind patterns a builder produces expand to exactly the binds added to it, each location with its target,
  in order, a bind that repeats the one just before it being dropped. This holds for either pointer size and any
  binds at offsets below \<open>2^40\<close> that are not coalesced weak binds, also where binds to the same target are folded into a repeated
  pattern.
\<close>

theorem bind_patterns_roundtrip:
  assumes "p = 4 \<or> p = 8" and "\<forall>x\<in>set binds. fst x < 2 ^ 40"
  shows "\<exists>b. bind_adds p (map (\<lambda>(off, target). (off, target, False)) binds) (BindPatternBuilder_new p) = Some b
    \<and> forEachBind p (bindEntries b) = remdups_adj binds"
  using assms by (rule bind_patterns_ok)

theorem bind_patterns_roundtrip_witness:
  "\<exists>b. bind_adds 8 [(0x4000, 5, False), (0x4010, 5, False), (0x4020, 5, False), (0x4020, 5, False), (0x4028, 9, False)] (BindPatternBuilder_new 8) = Some b
    \<and> forEachBind 8 (bindEntries b) = [(0x4000, 5), (0x4010, 5), (0x4020, 5), (0x4028, 9)]"
  using bind_patterns_roundtrip [of 8 "[(0x4000, 5), (0x4010, 5), (0x4020, 5), (0x4020, 5), (0x4028, 9)]"] by simp


section \<open>Inputs the builders do not handle\<close>

text \<open>
  A location that is added twice in a row is not ignored: the distance of zero is divided as if it had wrapped past the pointer, and the second copy is replaced by a
  rebase of another location sixteen pointers on.
\<close>

theorem duplicate_rebase_misplaced:
  "map_option (\<lambda>b. forEachFixup_rebases 8 (rebaseEntries b)) (rebase_adds 8 [0x4000, 0x4000] (RebasePatternBuilder_new 8)) = Some [0x4000, 0x4080]"
  by code_simp

text \<open>
  A weak bind that takes over an earlier bind's pattern does not update the builder's last target, so the next bind to the
  old target extends the pattern that has just been given the new one: the location \<open>0x4008\<close> is bound to target 2 where target 1 was added.
\<close>

theorem coalesced_bind_changes_next_target:
  "map_option (\<lambda>b. forEachBind 8 (bindEntries b))
     (bind_adds 8 [(0x4000, 1, False), (0x4000, 2, True), (0x4008, 1, True)] (BindPatternBuilder_new 8)) = Some [(0x4000, 2), (0x4008, 2)]"
  by code_simp

section \<open>The text rebases\<close>

definition text_ends_at :: "TextFixupPattern \<Rightarrow> u64 \<Rightarrow> nat \<Rightarrow> bool" where
  "text_ends_at pat off count \<longleftrightarrow> tp_target pat = 0 \<and> tp_repeatCount pat \<noteq> 0 \<and> unat (tp_repeatCount pat) \<le> count
     \<and> ucast off = tp_startVmOffset pat + of_nat (unat (tp_repeatCount pat) - 1) * ucast (tp_skipCount pat)"

definition text_for :: "TextRebases \<Rightarrow> u64 list \<Rightarrow> bool" where
  "text_for t offs \<longleftrightarrow> forEachTextReloc (textRebases t) = map (\<lambda>off. (ucast off, None)) offs \<and> textRebases t \<noteq> []
     \<and> text_ends_at (last (textRebases t)) (lastTextOffset t) (length offs)"

lemma extend_text:
  assumes ends: "text_ends_at pat prev count" and r: "unat (tp_repeatCount pat') = Suc (unat (tp_repeatCount pat))"
    and same: "tp_startVmOffset pat' = tp_startVmOffset pat" "tp_target pat' = tp_target pat"
    and stride: "tp_skipCount pat' = tp_skipCount pat \<or> tp_repeatCount pat = 1"
    and off: "(ucast off :: u32) = ucast prev + ucast (tp_skipCount pat')"
  shows "text_locations pat' = text_locations pat @ [(ucast off, None)]" "text_ends_at pat' off (Suc count)"
proof -
  have t: "tp_target pat = 0" "tp_repeatCount pat \<noteq> 0" "unat (tp_repeatCount pat) \<le> count" using ends by (simp_all add: text_ends_at_def)
  then obtain n where n: "unat (tp_repeatCount pat) = Suc n" by (metis unat_eq_0 not0_implies_Suc)
  have stride': "tp_skipCount pat' = tp_skipCount pat \<or> n = 0" using stride n by auto
  have "ucast prev = tp_startVmOffset pat + of_nat n * ucast (tp_skipCount pat)" using ends n by (simp add: text_ends_at_def)
  then have there: "ucast off = tp_startVmOffset pat + of_nat (Suc n) * ucast (tp_skipCount pat')"
    using stride' unfolding off by (auto simp: algebra_simps)
  have first: "map (\<lambda>i. (tp_startVmOffset pat + of_nat i * ucast (tp_skipCount pat'), None)) [0 ..< Suc n]
      = map (\<lambda>i. (tp_startVmOffset pat + of_nat i * ucast (tp_skipCount pat), None :: u64 option)) [0 ..< Suc n]"
    using stride' by auto
  have "[0 ..< Suc (Suc n)] = [0 ..< Suc n] @ [Suc n]" by simp
  then show "text_locations pat' = text_locations pat @ [(ucast off, None)]"
    unfolding text_locations_def r n same t(1) there by (simp only: map_append first if_True refl) simp
  show "text_ends_at pat' off (Suc count)"
    using r n same t there unfolding text_ends_at_def by (metis Suc_le_mono diff_Suc_1 nat.distinct(1) unat_0)
qed

lemma text_gap:
  fixes off prev :: u64
  assumes "prev < off" "off - prev < 2 ^ 16"
  shows "ucast (ucast (ucast (off - prev) :: u32) :: u16) = (ucast (off - prev) :: u32)"
    "(ucast off :: u32) = ucast prev + ucast (off - prev)"
proof -
  have "unat (ucast (off - prev) :: u32) < 2 ^ 16" using assms(2) by (simp add: word_less_nat_alt unsigned_ucast_eq take_bit_nat_eq_self)
  then show "ucast (ucast (ucast (off - prev) :: u32) :: u16) = (ucast (off - prev) :: u32)"
    by (intro ucast_back) (simp_all add: word_less_nat_alt)
  have "(ucast (a + b) :: u32) = ucast a + ucast b" for a b :: u64
  proof -
    have "(x mod 2 ^ 64 + y mod 2 ^ 64) mod 2 ^ 32 = (x + y) mod 2 ^ 32" for x y :: int
      by (intro mod_add_cong mod_mod_cancel) simp_all
    then show ?thesis by transfer (simp add: take_bit_eq_mod mod_mod_cancel)
  qed
  from this [of prev "off - prev"] show "(ucast off :: u32) = ucast prev + ucast (off - prev)" by simp
qed

lemma text_add_ok:
  assumes t: "text_for t offs" and gap: "off \<le> lastTextOffset t \<or> off - lastTextOffset t < 2 ^ 16" and len: "length offs < 2 ^ 16 - 1"
  shows "text_for (text_rebase_add off t) (offs @ [off])"
proof (cases "merge_text off t")
  case None
  then show ?thesis using t by (simp add: text_for_def text_rebase_add_def forEachTextReloc_def text_locations_def text_ends_at_def)
next
  case (Some pat)
  let ?pat = "last (textRebases t)" and ?gap = "off - lastTextOffset t"
  have ends: "text_ends_at ?pat (lastTextOffset t) (length offs)" using t by (simp add: text_for_def)
  have "lastTextOffset t < off" using Some unfolding merge_text_def by (rule contrapos_pp) simp
  with gap have small: "?gap < 2 ^ 16" and up: "lastTextOffset t < off" by (auto simp: not_le [symmetric])
  have "unat (tp_repeatCount ?pat) < 2 ^ 16 - 1" using ends len by (simp add: text_ends_at_def)
  then have bump: "unat (tp_repeatCount ?pat + 1) = Suc (unat (tp_repeatCount ?pat))" by (simp add: unat_word_ariths)
  have "(if tp_repeatCount ?pat = 1 \<and> tp_skipCount ?pat = 0
      then Some (?pat\<lparr>tp_repeatCount := 2, tp_skipCount := ucast (ucast ?gap :: u32)\<rparr>)
      else if ucast (tp_skipCount ?pat) = (ucast ?gap :: u32) then Some (?pat\<lparr>tp_repeatCount := tp_repeatCount ?pat + 1\<rparr>) else None) = Some pat"
    using Some unfolding merge_text_def Let_def by (metis option.distinct(1))
  then consider (second) "tp_repeatCount ?pat = 1" "pat = ?pat\<lparr>tp_repeatCount := 2, tp_skipCount := ucast (ucast ?gap :: u32)\<rparr>"
    | (later) "ucast (tp_skipCount ?pat) = (ucast ?gap :: u32)" "pat = ?pat\<lparr>tp_repeatCount := tp_repeatCount ?pat + 1\<rparr>"
    by (metis option.distinct(1) option.inject)
  then have "text_locations pat = text_locations ?pat @ [(ucast off, None)] \<and> text_ends_at pat off (Suc (length offs))"
  proof cases
    case second
    then show ?thesis using extend_text [OF ends, of pat off] text_gap [OF up small] by simp
  next
    case later
    then show ?thesis using extend_text [OF ends, of pat off] text_gap [OF up small] bump by simp
  qed
  moreover have "map (\<lambda>off. (ucast off, None)) offs = forEachTextReloc (butlast (textRebases t)) @ text_locations ?pat"
    using t by (cases "textRebases t" rule: rev_cases) (simp_all add: text_for_def forEachTextReloc_def)
  ultimately show ?thesis using Some by (simp add: text_for_def text_rebase_add_def forEachTextReloc_def)
qed

fun text_gaps :: "u64 \<Rightarrow> u64 list \<Rightarrow> bool" where
  "text_gaps prev [] = True"
| "text_gaps prev (off # offs) \<longleftrightarrow> (off \<le> prev \<or> off - prev < 2 ^ 16) \<and> text_gaps off offs"

lemma text_adds_ok:
  assumes "text_for t added" and "text_gaps (lastTextOffset t) offs" and "length added + length offs < 2 ^ 16"
    and "text_rebase_adds capacity offs t = (t', False)"
  shows "text_for t' (added @ offs)"
  using assms
proof (induction offs arbitrary: t "added")
  case (Cons off offs)
  have "text_for (text_rebase_add off t) (added @ [off])" using Cons.prems by (intro text_add_ok) auto
  moreover have "lastTextOffset (text_rebase_add off t) = off" by (simp add: text_rebase_add_def)
  ultimately show ?case using Cons.IH [of "text_rebase_add off t" "added @ [off]"] Cons.prems by (simp split: if_splits)
qed simp

text \<open>The text patterns expand to the locations added, when no forward gap reaches 64 KB and there are fewer than \<open>2^16\<close> of them.\<close>

theorem text_rebases_roundtrip:
  assumes "text_gaps off offs" and "length offs < 2 ^ 16 - 1" and "text_rebase_adds 512 (off # offs) TextRebases_new = (t, False)"
  shows "forEachTextReloc (textRebases t) = map (\<lambda>off. (ucast off, None)) (off # offs)"
proof -
  have "text_for (text_rebase_add off TextRebases_new) [off]"
    by (simp add: text_for_def TextRebases_new_def text_rebase_add_def merge_text_def forEachTextReloc_def text_locations_def text_ends_at_def)
  moreover have "lastTextOffset (text_rebase_add off TextRebases_new) = off" by (simp add: text_rebase_add_def)
  ultimately have "text_for t ([off] @ offs)"
    using assms by (intro text_adds_ok [of "text_rebase_add off TextRebases_new" _ offs 512]) (auto simp: TextRebases_new_def)
  then show ?thesis by (simp add: text_for_def)
qed

text \<open>A forward gap of 64 KB is truncated to 0 in the pattern.\<close>

theorem text_gap_truncated:
  "forEachTextReloc (textRebases (fst (text_rebase_adds 512 [0x1000, 0x11000] TextRebases_new))) = [(0x1000, None), (0x1000, None)]"
  by code_simp
end
