(* ===== verification/Closure_ObjC.thy ===== *)
theory Closure_ObjC
  imports Closure_Patterns
begin

text \<open>
  The Objective-C fixups of a closure image: the compressed lists \<open>optimizeObjC\<close> of \<open>src/dyld3/ClosureBuilder.cpp\<close> makes
  (protocol ISAs, stable Swift classes, method lists and selector references) and the walks of \<open>Image::forEachFixup\<close> in
  \<open>src/dyld3/Closure.cpp\<close> that expand them. A selector reference entry is a union: a 32-bit chain start, or a chain entry of a
  24-bit index, a 7-bit link and a flag; it is modelled as the 32-bit value with accessors for the fields.
\<close>

section \<open>Offset patterns\<close>

record ProtocolISAFixup =
  pf_startVmOffset :: "40 word"
  pf_skipCount :: u8
  pf_repeatCount :: u16

type_synonym ClassStableSwiftFixup = ProtocolISAFixup
type_synonym MethodListFixup = ProtocolISAFixup

definition fixup_locations :: "u64 \<Rightarrow> ProtocolISAFixup \<Rightarrow> u64 list" where
  "fixup_locations pointerSize pat =
     map (\<lambda>i. ucast (pf_startVmOffset pat) + of_nat i * (pointerSize * (1 + ucast (pf_skipCount pat)))) [0 ..< unat (pf_repeatCount pat)]"

definition forEachFixup_offsets :: "u64 \<Rightarrow> ProtocolISAFixup list \<Rightarrow> u64 list" where
  "forEachFixup_offsets pointerSize pats = concat (map (fixup_locations pointerSize) pats)"

definition merge_fixup :: "u64 \<Rightarrow> u64 \<Rightarrow> u64 \<Rightarrow> ProtocolISAFixup list \<Rightarrow> ProtocolISAFixup option" where
  "merge_fixup pointerSize prevOffset runtimeOffset pats =
     (if runtimeOffset > prevOffset \<and> pats \<noteq> [] then
        (let pat = last pats; gap = runtimeOffset - prevOffset - pointerSize; skipAmount = gap div pointerSize in
         if skipAmount * pointerSize \<noteq> gap then None
         else if pf_repeatCount pat = 1 \<and> pf_skipCount pat = 0 \<and> skipAmount \<le> 255
         then Some (pat\<lparr>pf_repeatCount := 2, pf_skipCount := ucast skipAmount\<rparr>)
         else if ucast (pf_skipCount pat) = skipAmount \<and> pf_repeatCount pat < 0xfff
         then Some (pat\<lparr>pf_repeatCount := pf_repeatCount pat + 1\<rparr>)
         else None)
      else None)"

fun fixup_patterns :: "u64 \<Rightarrow> u64 \<Rightarrow> ProtocolISAFixup list \<Rightarrow> u64 list \<Rightarrow> ProtocolISAFixup list option" where
  "fixup_patterns pointerSize prevOffset pats [] = Some pats"
| "fixup_patterns pointerSize prevOffset pats (runtimeOffset # offs) =
     (case merge_fixup pointerSize prevOffset runtimeOffset pats of
        Some pat \<Rightarrow> fixup_patterns pointerSize runtimeOffset (butlast pats @ [pat]) offs
      | None \<Rightarrow>
          (let pat = \<lparr>pf_startVmOffset = ucast runtimeOffset, pf_skipCount = 0, pf_repeatCount = 1\<rparr> in
           if ucast (pf_startVmOffset pat) \<noteq> runtimeOffset then None
           else fixup_patterns pointerSize runtimeOffset (pats @ [pat]) offs))"

definition protocolFixups :: "u64 \<Rightarrow> u64 list \<Rightarrow> ProtocolISAFixup list option" where
  "protocolFixups pointerSize offs = fixup_patterns pointerSize (- pointerSize) [] offs"

definition stableSwiftFixups :: "u64 \<Rightarrow> u64 list \<Rightarrow> ClassStableSwiftFixup list option" where
  "stableSwiftFixups pointerSize offs = fixup_patterns pointerSize (- pointerSize) [] offs"

definition methodListFixups :: "u64 \<Rightarrow> u64 list \<Rightarrow> MethodListFixup list option" where
  "methodListFixups pointerSize offs = fixup_patterns pointerSize (- pointerSize) [] offs"

section \<open>Selector references\<close>

type_synonym SelectorReferenceFixup = u32

definition chainEntry :: "24 word \<Rightarrow> 7 word \<Rightarrow> bool \<Rightarrow> SelectorReferenceFixup" where
  "chainEntry index nxt inCache = ucast index OR push_bit 24 (ucast nxt) OR push_bit 31 (of_bool inCache)"

definition ce_index :: "SelectorReferenceFixup \<Rightarrow> 24 word" where
  "ce_index e = ucast e"

definition ce_next :: "SelectorReferenceFixup \<Rightarrow> 7 word" where
  "ce_next e = ucast (drop_bit 24 e)"

definition ce_inSharedCache :: "SelectorReferenceFixup \<Rightarrow> bool" where
  "ce_inSharedCache e = bit e 31"

definition set_ce_next :: "7 word \<Rightarrow> SelectorReferenceFixup \<Rightarrow> SelectorReferenceFixup" where
  "set_ce_next nxt e = chainEntry (ce_index e) nxt (ce_inSharedCache e)"

text \<open>Where a selector reference found by the builder points: an index into the cache's table, or a selector string of the closure.\<close>

datatype SelectorTarget = SharedCacheSelector u32 | ClosureSelector string

record SelectorFixup =
  fixupVMOffset :: u32
  selectorTarget :: SelectorTarget

definition maxChainOffset :: u64 where
  "maxChainOffset = 4 * (2 ^ 7 - 1)"

definition indexNotFound :: u32 where
  "indexNotFound = - 1"

text \<open>\<open>getIndex\<close> is the closure's selector string table.\<close>

fun selector_entry :: "(string \<Rightarrow> u32) \<Rightarrow> SelectorTarget \<Rightarrow> SelectorReferenceFixup option" where
  "selector_entry getIndex (SharedCacheSelector selectorTableIndex) = Some (chainEntry (ucast selectorTableIndex) 0 True)"
| "selector_entry getIndex (ClosureSelector selectorString) =
     (if getIndex selectorString = indexNotFound then None else Some (chainEntry (ucast (getIndex selectorString)) 0 False))"

definition link_selector :: "u64 \<Rightarrow> u32 \<Rightarrow> SelectorReferenceFixup list \<Rightarrow> SelectorReferenceFixup list option" where
  "link_selector prevVMOffset off entries =
     (if ucast off - prevVMOffset \<le> maxChainOffset then
        (if entries = [] then None
         else Some (butlast entries @ [set_ce_next (ucast ((ucast (ucast off - prevVMOffset) :: u32) div 4)) (last entries)]))
      else Some (entries @ [off]))"

fun selRefFixups_from :: "(string \<Rightarrow> u32) \<Rightarrow> u64 \<Rightarrow> SelectorReferenceFixup list \<Rightarrow> SelectorFixup list \<Rightarrow> SelectorReferenceFixup list option" where
  "selRefFixups_from getIndex prevVMOffset entries [] = Some entries"
| "selRefFixups_from getIndex prevVMOffset entries (f # fs) =
     (if fixupVMOffset f AND 3 \<noteq> 0 then None
      else
        Option.bind (link_selector prevVMOffset (fixupVMOffset f) entries) (\<lambda>entries1.
        Option.bind (selector_entry getIndex (selectorTarget f)) (\<lambda>entry.
          selRefFixups_from getIndex (ucast (fixupVMOffset f)) (entries1 @ [entry]) fs)))"

definition selRefFixups :: "(string \<Rightarrow> u32) \<Rightarrow> SelectorFixup list \<Rightarrow> SelectorReferenceFixup list option" where
  "selRefFixups getIndex fixups = selRefFixups_from getIndex 0 [] fixups"

text \<open>
  The walk over the chains. A call of the handler gets the offset, the index and the table flag; \<open>stop\<close> ends only the chain, and
  the outer loop goes on with the entry after it. Running off the array fails the index assertion.
\<close>

type_synonym selref_call = "u64 \<times> u32 \<times> bool"

fun selref_chain :: "('s \<Rightarrow> selref_call \<Rightarrow> 's \<times> bool) \<Rightarrow> SelectorReferenceFixup list \<Rightarrow> u64 \<Rightarrow> 's \<Rightarrow> bool
    \<Rightarrow> ('s \<times> bool \<times> SelectorReferenceFixup list) option" where
  "selref_chain h [] curFixupOffset s stop = None"
| "selref_chain h (e # es) curFixupOffset s stop =
     (let (s', stopped) = h s (curFixupOffset, ucast (ce_index e), ce_inSharedCache e); stop' = (stop \<or> stopped) in
      if stop' \<or> ce_next e = 0 then Some (s', stop', es)
      else selref_chain h es (curFixupOffset + 4 * ucast (ce_next e)) s' stop')"

lemma selref_chain_shorter: "selref_chain h es cur s stop = Some (s', stop', rest) \<Longrightarrow> length rest < length es"
  by (induction es arbitrary: cur s stop) (fastforce simp: Let_def split: prod.splits if_splits)+

function selref_walk :: "('s \<Rightarrow> selref_call \<Rightarrow> 's \<times> bool) \<Rightarrow> SelectorReferenceFixup list \<Rightarrow> 's \<Rightarrow> bool \<Rightarrow> ('s \<times> bool) option" where
  "selref_walk h [] s stop = Some (s, stop)"
| "selref_walk h (start # es) s stop =
     (case selref_chain h es (ucast start) s stop of
        None \<Rightarrow> None
      | Some (s', stop', rest) \<Rightarrow> selref_walk h rest s' stop')"
  by pat_completeness auto
termination
  by (relation "measure (\<lambda>(h, es, s, stop). length es)") (auto dest: selref_chain_shorter)


section \<open>Offset patterns are bind patterns to one target\<close>

definition as_bind :: "ProtocolISAFixup \<Rightarrow> BindPattern" where
  "as_bind pat = \<lparr>bp_target = 0, bp_startVmOffset = pf_startVmOffset pat, bp_skipCount = pf_skipCount pat, bp_repeatCount = pf_repeatCount pat\<rparr>"

definition as_builder :: "u64 \<Rightarrow> ProtocolISAFixup list \<Rightarrow> BindPatternBuilder" where
  "as_builder prev pats = \<lparr>bindEntries = map as_bind pats, lastOffset = prev, lastTarget = 0\<rparr>"

lemma merge_as_bind: "merge_bind p off (as_builder prev pats) 0 = map_option as_bind (merge_fixup p prev off pats)"
  by (simp add: merge_bind_def merge_fixup_def as_builder_def as_bind_def last_map Let_def)

lemma forEachBind_as_bind: "forEachBind p (map as_bind pats) = map (\<lambda>off. (off, 0)) (forEachFixup_offsets p pats)"
  by (simp add: forEachBind_def forEachFixup_offsets_def bind_locations_def fixup_locations_def as_bind_def map_concat o_def)

lemma fixup_patterns_ok:
  assumes "pats \<noteq> [] \<Longrightarrow> binds_for p (as_builder prev pats) (map (\<lambda>off. (off, 0)) added)" and "pats = [] \<Longrightarrow> added = []"
    and "\<forall>off\<in>set offs. off < 2 ^ 40"
  shows "\<exists>pats'. fixup_patterns p prev pats offs = Some pats' \<and> forEachFixup_offsets p pats' = added @ offs"
  using assms
proof (induction offs arbitrary: prev pats added)
  case Nil
  have "forEachFixup_offsets p pats = added"
  proof (cases "pats = []")
    case False
    then have "map (\<lambda>off. (off, 0 :: u64)) (forEachFixup_offsets p pats) = map (\<lambda>off. (off, 0)) added"
      using Nil.prems(1) by (simp add: binds_for_def as_builder_def forEachBind_as_bind)
    then show ?thesis by (rule map_injective) (simp add: inj_def)
  qed (simp add: Nil.prems(2) forEachFixup_offsets_def)
  then show ?case by simp
next
  case (Cons off offs)
  let ?b = "as_builder prev pats"
  show ?case
  proof (cases "merge_fixup p prev off pats")
    case (Some pat)
    then have ne: "pats \<noteq> []" by (auto simp: merge_fixup_def)
    have "merge_bind p off ?b 0 = Some (as_bind pat)" by (simp add: merge_as_bind Some)
    from merge_ok [OF Cons.prems(1) [OF ne] this]
    have "binds_for p (as_builder off (butlast pats @ [pat])) (map (\<lambda>off. (off, 0)) (added @ [off]))"
      by (simp add: binds_for_def as_builder_def map_butlast)
    from Cons.IH [OF this] Cons.prems(3) Some show ?thesis by simp
  next
    case None
    let ?pat = "\<lparr>pf_startVmOffset = ucast off, pf_skipCount = 0, pf_repeatCount = 1\<rparr>"
    have small: "off < 2 ^ 40" using Cons.prems(3) by simp
    then have fits: "ucast (ucast off :: 40 word) = off" by (intro ucast_back) (simp_all add: word_less_nat_alt)
    have "forEachBind p (bindEntries ?b) = map (\<lambda>off. (off, 0)) added"
      using Cons.prems(1,2) by (cases "pats = []") (simp_all add: binds_for_def as_builder_def forEachBind_def)
    with append_ok [OF small, of 0 ?b p] fits
    have "binds_for p (as_builder off (pats @ [?pat])) (map (\<lambda>off. (off, 0)) (added @ [off]))"
      by (simp add: append_bind_def Let_def as_builder_def as_bind_def)
    from Cons.IH [OF this] Cons.prems(3) None fits show ?thesis by simp
  qed
qed

text \<open>
  The protocol, stable Swift and method list patterns expand to the offsets they were built from, in order.
\<close>

theorem objc_offsets_roundtrip:
  assumes "\<forall>off\<in>set offs. off < 2 ^ 40"
  shows "\<exists>pats. protocolFixups p offs = Some pats \<and> stableSwiftFixups p offs = Some pats \<and> methodListFixups p offs = Some pats
    \<and> forEachFixup_offsets p pats = offs"
  using fixup_patterns_ok [of "[]" p _ "[]", OF _ _ assms]
  by (simp add: protocolFixups_def stableSwiftFixups_def methodListFixups_def)

section \<open>Selector chains\<close>

lemma bit_2_31 [simp]: "bit (2147483648 :: int) n \<longleftrightarrow> n = 31"
  using bit_exp_iff [of 31 n, where 'a = int] by simp

lemma bit_2_7 [simp]: "bit (128 :: int) n \<longleftrightarrow> n = 7"
  using bit_exp_iff [of 7 n, where 'a = int] by simp

lemma index_high_bits [simp]: "\<not> bit (i :: 24 word) (24 + n)"
  by (auto dest: bit_imp_le_length)

lemma chainEntry_fields [simp]:
  "ce_index (chainEntry i n s) = i" "ce_next (chainEntry i n s) = n" "ce_inSharedCache (chainEntry i n s) = s"
  by (auto simp: ce_index_def ce_next_def ce_inSharedCache_def chainEntry_def bit_simps intro!: bit_word_eqI dest: bit_imp_le_length)


text \<open>A chain as the calls it stands for, and its entries.\<close>

fun chain_entries :: "selref_call list \<Rightarrow> SelectorReferenceFixup list" where
  "chain_entries [] = []"
| "chain_entries [(off, i, s)] = [chainEntry (ucast i) 0 s]"
| "chain_entries ((off, i, s) # (off', i', s') # cs) =
     chainEntry (ucast i) (ucast ((ucast (off' - off) :: u32) div 4)) s # chain_entries ((off', i', s') # cs)"

definition linked :: "u64 \<Rightarrow> u64 \<Rightarrow> bool" where
  "linked off off' \<longleftrightarrow> ucast (ucast ((ucast (off' - off) :: u32) div 4) :: 7 word) * 4 = off' - off \<and> off' \<noteq> off"

fun linked_chain :: "selref_call list \<Rightarrow> bool" where
  "linked_chain [] = True"
| "linked_chain [c] = (fst (snd c) < 2 ^ 24)"
| "linked_chain (c # c' # cs) = (fst (snd c) < 2 ^ 24 \<and> linked (fst c) (fst c') \<and> linked_chain (c' # cs))"

lemma index_fits: "(i :: u32) < 2 ^ 24 \<Longrightarrow> ucast (ucast i :: 24 word) = i"
  by (intro ucast_back) (simp_all add: word_less_nat_alt)

lemma selref_chain_run:
  assumes "cs \<noteq> []" and "linked_chain cs"
  shows "selref_chain (\<lambda>s c. (g s c, False)) (chain_entries cs @ es) (fst (hd cs)) s False = Some (foldl g s cs, False, es)"
  using assms
proof (induction cs arbitrary: s rule: chain_entries.induct)
  case (2 off i sh)
  then show ?case by (simp add: index_fits)
next
  case (3 off i sh off' i' sh' cs)
  let ?n = "ucast ((ucast (off' - off) :: u32) div 4) :: 7 word"
  have l: "ucast ?n * 4 = off' - off" "off' \<noteq> off" and i: "i < 2 ^ 24" using 3(3) by (simp_all add: linked_def)
  have "off + 4 * ucast ?n = off'" using l(1) by (metis add.commute diff_add_cancel mult.commute)
  moreover have "?n \<noteq> 0" using l by (metis diff_eq_diff_eq eq_iff_diff_eq_0 mult_zero_left unsigned_0)
  ultimately show ?case using 3(1) [of "g s (off, i, sh)"] 3(3) by (simp add: index_fits [OF i] Let_def)
qed simp

text \<open>The array for a list of chains.\<close>

definition encode_chains :: "selref_call list list \<Rightarrow> SelectorReferenceFixup list" where
  "encode_chains css = concat (map (\<lambda>cs. ucast (fst (hd cs)) # chain_entries cs) css)"

lemma selref_walk_run:
  assumes "\<forall>cs\<in>set css. cs \<noteq> [] \<and> linked_chain cs \<and> fst (hd cs) < 2 ^ 32"
  shows "selref_walk (\<lambda>s c. (g s c, False)) (encode_chains css) s False = Some (foldl g s (concat css), False)"
  using assms
proof (induction css arbitrary: s)
  case (Cons cs css)
  have "ucast (ucast (fst (hd cs)) :: u32) = fst (hd cs)" using Cons.prems by (intro ucast_back) (simp_all add: word_less_nat_alt)
  with Cons selref_chain_run [of cs g "encode_chains css" s] show ?case by (simp add: encode_chains_def)
qed (simp add: encode_chains_def)

lemma chain_entries_nonempty [simp]: "chain_entries cs = [] \<longleftrightarrow> cs = []"
  by (induction cs rule: chain_entries.induct) auto

lemma chain_entries_snoc:
  "chain_entries (cs @ [c, c']) =
     butlast (chain_entries (cs @ [c])) @ [set_ce_next (ucast ((ucast (fst c' - fst c) :: u32) div 4)) (last (chain_entries (cs @ [c])))]
     @ [chainEntry (ucast (fst (snd c'))) 0 (snd (snd c'))]"
proof (induction cs rule: chain_entries.induct)
  case 1
  then show ?case by (cases c; cases c') (simp add: set_ce_next_def)
next
  case (2 off i sh)
  then show ?case by (cases c; cases c') (simp add: set_ce_next_def)
qed simp

lemma linked_chain_snoc: "linked_chain (cs @ [c, c']) \<longleftrightarrow> linked_chain (cs @ [c]) \<and> linked (fst c) (fst c') \<and> fst (snd c') < 2 ^ 24"
  by (induction cs rule: linked_chain.induct) auto

lemma u32_u64_u32 [simp]: "ucast (ucast off :: u64) = (off :: u32)"
  by (rule bit_word_eqI) (simp add: bit_simps)

lemma linkedI:
  assumes "off < 2 ^ 32" "unat off mod 4 = 0" "unat off' mod 4 = 0" "off' - off \<le> maxChainOffset" "off' \<noteq> off"
  shows "linked off off'"
proof -
  let ?d = "off' - off"
  have d: "unat ?d \<le> 508" using assms(4) by (simp add: maxChainOffset_def word_le_nat_alt)
  have "off \<le> off'"
    using d assms(1) unat_sub_if_size [of off' off] by (auto simp: word_le_nat_alt word_less_nat_alt word_size split: if_splits)
  then have "unat ?d = unat off' - unat off" by (intro unat_sub)
  then have m: "unat ?d mod 4 = 0" using assms(2,3) \<open>off \<le> off'\<close> by (simp add: word_le_nat_alt mod_eq_0_iff_dvd dvd_diff_nat)
  have "unat (ucast ?d :: u32) = unat ?d" using d by (simp add: unsigned_ucast_eq take_bit_nat_eq_self)
  then have "unat ((ucast ?d :: u32) div 4) = unat ?d div 4" by (simp add: unat_div)
  then have "unat (ucast ((ucast ?d :: u32) div 4) :: 7 word) = unat ?d div 4"
    using d by (simp add: unsigned_ucast_eq unsigned_take_bit_eq take_bit_nat_eq_self)
  then have "unat (ucast (ucast ((ucast ?d :: u32) div 4) :: 7 word) :: u64) = unat ?d div 4"
    using d by (simp add: unsigned_ucast_eq unsigned_take_bit_eq take_bit_nat_eq_self)
  then have "unat (ucast (ucast ((ucast ?d :: u32) div 4) :: 7 word) * 4 :: u64) = unat ?d"
    using d m by (simp add: unat_word_ariths dvd_imp_mod_0 mod_0_imp_dvd)
  then show ?thesis using assms(5) by (simp add: linked_def word_unat_eq_iff)
qed

definition selector_call :: "(string \<Rightarrow> u32) \<Rightarrow> SelectorFixup \<Rightarrow> selref_call" where
  "selector_call getIndex f = (ucast (fixupVMOffset f),
     case selectorTarget f of SharedCacheSelector i \<Rightarrow> (i, True) | ClosureSelector str \<Rightarrow> (getIndex str, False))"

definition selector_ok :: "(string \<Rightarrow> u32) \<Rightarrow> SelectorFixup \<Rightarrow> bool" where
  "selector_ok getIndex f \<longleftrightarrow> fixupVMOffset f AND 3 = 0 \<and> fst (snd (selector_call getIndex f)) < 2 ^ 24"

lemma selector_entry_ok:
  assumes "selector_ok getIndex f"
  shows "selector_entry getIndex (selectorTarget f)
    = Some (chainEntry (ucast (fst (snd (selector_call getIndex f)))) 0 (snd (snd (selector_call getIndex f))))"
  using assms by (cases "selectorTarget f") (auto simp: selector_ok_def selector_call_def indexNotFound_def)

lemma selector_offset:
  assumes "selector_ok getIndex f"
  shows "fst (selector_call getIndex f) = ucast (fixupVMOffset f)" "(ucast (fixupVMOffset f) :: u64) < 2 ^ 32"
    "unat (ucast (fixupVMOffset f) :: u64) mod 4 = 0"
proof -
  let ?off = "fixupVMOffset f"
  show "fst (selector_call getIndex f) = ucast ?off" by (simp add: selector_call_def)
  have u: "unat (ucast ?off :: u64) = unat ?off" using unsigned_less [of ?off] by (simp add: unsigned_ucast_eq take_bit_nat_eq_self)
  show "(ucast ?off :: u64) < 2 ^ 32" using unsigned_less [of ?off] by (simp add: word_less_nat_alt u)
  have "?off AND 3 = take_bit 2 ?off" by (simp add: take_bit_eq_mask mask_eq_exp_minus_1)
  then have "take_bit 2 ?off = 0" using assms by (simp add: selector_ok_def)
  then have "unat (take_bit 2 ?off) = 0" by simp
  then show "unat (ucast ?off :: u64) mod 4 = 0" by (simp add: u take_bit_eq_mod unat_mod)
qed

lemma encode_chains_snoc:
  "encode_chains (css @ [cs @ [c]]) = encode_chains css @ ucast (fst (hd (cs @ [c]))) # chain_entries (cs @ [c])"
  by (simp add: encode_chains_def)

lemma link_selector_ok:
  assumes c: "fst c < 2 ^ 32" "unat (fst c) mod 4 = 0" and f: "selector_ok getIndex f" and ne: "ucast (fixupVMOffset f) \<noteq> fst c"
    and ok: "\<forall>ds\<in>set (css @ [cs @ [c]]). ds \<noteq> [] \<and> linked_chain ds \<and> fst (hd ds) < 2 ^ 32"
  shows "\<exists>entries css' cs'. link_selector (fst c) (fixupVMOffset f) (encode_chains (css @ [cs @ [c]])) = Some entries
    \<and> entries @ [chainEntry (ucast (fst (snd (selector_call getIndex f)))) 0 (snd (snd (selector_call getIndex f)))]
        = encode_chains (css' @ [cs' @ [selector_call getIndex f]])
    \<and> concat (css' @ [cs' @ [selector_call getIndex f]]) = concat (css @ [cs @ [c]]) @ [selector_call getIndex f]
    \<and> (\<forall>ds\<in>set (css' @ [cs' @ [selector_call getIndex f]]). ds \<noteq> [] \<and> linked_chain ds \<and> fst (hd ds) < 2 ^ 32)"
proof -
  let ?c = "selector_call getIndex f" and ?off = "ucast (fixupVMOffset f) :: u64"
  note off = selector_offset [OF f]
  have i: "fst (snd ?c) < 2 ^ 24" using f by (simp add: selector_ok_def)
  show ?thesis
  proof (cases "?off - fst c \<le> maxChainOffset")
    case True
    have l: "linked (fst c) (fst ?c)" using linkedI [OF c _ True ne] off by simp
    have hd: "hd (cs @ [c, ?c]) = hd (cs @ [c])" by (cases cs) simp_all
    have "encode_chains (css @ [(cs @ [c]) @ [?c]]) = butlast (encode_chains (css @ [cs @ [c]]))
        @ [set_ce_next (ucast ((ucast (?off - fst c) :: u32) div 4)) (last (encode_chains (css @ [cs @ [c]])))]
        @ [chainEntry (ucast (fst (snd ?c))) 0 (snd (snd ?c))]"
      unfolding encode_chains_snoc using chain_entries_snoc [of cs c ?c] by (simp add: hd off(1) butlast_append)
    moreover have "\<forall>ds\<in>set (css @ [(cs @ [c]) @ [?c]]). ds \<noteq> [] \<and> linked_chain ds \<and> fst (hd ds) < 2 ^ 32"
      using ok l i hd by (simp add: linked_chain_snoc)
    ultimately show ?thesis using True
      by (intro exI [of _ "butlast (encode_chains (css @ [cs @ [c]]))
          @ [set_ce_next (ucast ((ucast (?off - fst c) :: u32) div 4)) (last (encode_chains (css @ [cs @ [c]])))]"]
          exI [of _ css] exI [of _ "cs @ [c]"]) (simp add: link_selector_def encode_chains_def)
  next
    case False
    have "linked_chain [?c]" using i by simp
    moreover have "chain_entries [?c] = [chainEntry (ucast (fst (snd ?c))) 0 (snd (snd ?c))]" by (cases ?c) simp
    moreover have "ucast (fst ?c) = fixupVMOffset f" by (simp add: off(1))
    ultimately show ?thesis using False ok off
      by (intro exI [of _ "encode_chains (css @ [cs @ [c]]) @ [fixupVMOffset f]"] exI [of _ "css @ [cs @ [c]]"] exI [of _ "[]"])
        (simp add: link_selector_def encode_chains_def)
  qed
qed

lemma selRefFixups_from_ok:
  assumes "\<forall>f\<in>set fs. selector_ok getIndex f" and "fst c < 2 ^ 32" and "unat (fst c) mod 4 = 0"
    and "distinct_adj (fst c # map (\<lambda>f. ucast (fixupVMOffset f)) fs)"
    and "\<forall>ds\<in>set (css @ [cs @ [c]]). ds \<noteq> [] \<and> linked_chain ds \<and> fst (hd ds) < 2 ^ 32"
  shows "\<exists>css'. selRefFixups_from getIndex (fst c) (encode_chains (css @ [cs @ [c]])) fs = Some (encode_chains css')
    \<and> concat css' = concat (css @ [cs @ [c]]) @ map (selector_call getIndex) fs
    \<and> (\<forall>ds\<in>set css'. ds \<noteq> [] \<and> linked_chain ds \<and> fst (hd ds) < 2 ^ 32)"
  using assms
proof (induction fs arbitrary: c cs css)
  case Nil
  then show ?case by (intro exI [of _ "css @ [cs @ [c]]"]) simp
next
  case (Cons f fs)
  let ?c = "selector_call getIndex f"
  have f: "selector_ok getIndex f" using Cons.prems(1) by simp
  have "ucast (fixupVMOffset f) \<noteq> fst c" using Cons.prems(4) by auto
  from link_selector_ok [OF Cons.prems(2,3) f this Cons.prems(5)] obtain entries css1 cs1 where
    e: "link_selector (fst c) (fixupVMOffset f) (encode_chains (css @ [cs @ [c]])) = Some entries"
      "entries @ [chainEntry (ucast (fst (snd ?c))) 0 (snd (snd ?c))] = encode_chains (css1 @ [cs1 @ [?c]])"
      "concat (css1 @ [cs1 @ [?c]]) = concat (css @ [cs @ [c]]) @ [?c]"
      "\<forall>ds\<in>set (css1 @ [cs1 @ [?c]]). ds \<noteq> [] \<and> linked_chain ds \<and> fst (hd ds) < 2 ^ 32" by blast
  have "fst ?c < 2 ^ 32" "unat (fst ?c) mod 4 = 0" "distinct_adj (fst ?c # map (\<lambda>f. ucast (fixupVMOffset f)) fs)"
    using selector_offset [OF f] Cons.prems(4) by simp_all
  with Cons.IH [of ?c css1 cs1] Cons.prems(1) e obtain css' where
    "selRefFixups_from getIndex (fst ?c) (encode_chains (css1 @ [cs1 @ [?c]])) fs = Some (encode_chains css')"
    "concat css' = concat (css1 @ [cs1 @ [?c]]) @ map (selector_call getIndex) fs"
    "\<forall>ds\<in>set css'. ds \<noteq> [] \<and> linked_chain ds \<and> fst (hd ds) < 2 ^ 32" by auto
  then show ?case using e f selector_entry_ok [OF f] selector_offset(1) [OF f] by (intro exI [of _ css']) (simp add: selector_ok_def)
qed

lemma selector_chains_ok:
  assumes "\<forall>f\<in>set (f # fs). selector_ok getIndex f" and "distinct_adj (map fixupVMOffset (f # fs))" and "508 < fixupVMOffset f"
  shows "\<exists>entries. selRefFixups getIndex (f # fs) = Some entries
    \<and> selref_walk (\<lambda>s c. (g s c, False)) entries s False = Some (foldl g s (map (selector_call getIndex) (f # fs)), False)"
proof -
  let ?c = "selector_call getIndex f"
  have f: "selector_ok getIndex f" using assms(1) by simp
  note off = selector_offset [OF f]
  have "508 < (ucast (fixupVMOffset f) :: u64)"
    using assms(3) by (simp add: word_less_nat_alt unsigned_ucast_eq take_bit_nat_eq_self)
  then have "link_selector 0 (fixupVMOffset f) [] = Some [fixupVMOffset f]" by (simp add: link_selector_def maxChainOffset_def not_le)
  moreover have "chain_entries [?c] = [chainEntry (ucast (fst (snd ?c))) 0 (snd (snd ?c))]" by (cases ?c) simp
  moreover have "ucast (fst ?c) = fixupVMOffset f" by (simp add: off(1))
  ultimately have first: "selRefFixups getIndex (f # fs) = selRefFixups_from getIndex (fst ?c) (encode_chains ([] @ [[] @ [?c]])) fs"
    using f selector_entry_ok [OF f] off(1) by (simp add: selRefFixups_def selector_ok_def encode_chains_def)
  have "inj (ucast :: u32 \<Rightarrow> u64)" by (rule injI) (metis u32_u64_u32)
  then have "distinct_adj (map (ucast :: u32 \<Rightarrow> u64) (map fixupVMOffset (f # fs)))"
    using assms(2) by (metis distinct_adj_mapI inj_on_subset subset_UNIV)
  then have "distinct_adj (fst ?c # map (\<lambda>f. ucast (fixupVMOffset f)) fs)" by (simp add: off(1) o_def)
  from selRefFixups_from_ok [OF _ _ _ this, of getIndex "[]" "[]"] assms(1) off f
  show ?thesis unfolding first using selref_walk_run [of _ g s] by (auto simp: selector_ok_def)
qed

text \<open>
  C18: the selector references of an image survive their encoding as chains. For any selector fixups at 4-byte aligned offsets, no two
  in a row at the same one, the first past the reach of a link from the image's start, with table indexes below \<open>2^24\<close>, the builder makes an array
  that the walk decodes into exactly the fixups it was made from, in order, each with its offset, its index and its table: the
  fixups may be in any order, and near ones share a chain.
\<close>

theorem selector_chains_roundtrip:
  assumes "\<forall>f\<in>set (f # fs). selector_ok getIndex f" and "distinct_adj (map fixupVMOffset (f # fs))" and "508 < fixupVMOffset f"
  shows "\<exists>entries. selRefFixups getIndex (f # fs) = Some entries
    \<and> selref_walk (\<lambda>s c. (g s c, False)) entries s False = Some (foldl g s (map (selector_call getIndex) (f # fs)), False)"
  using assms by (rule selector_chains_ok)

definition sample_selectors :: "SelectorFixup list" where
  "sample_selectors = [\<lparr>fixupVMOffset = 0x4000, selectorTarget = SharedCacheSelector 7\<rparr>,
     \<lparr>fixupVMOffset = 0x4008, selectorTarget = ClosureSelector ''init''\<rparr>, \<lparr>fixupVMOffset = 0x3000, selectorTarget = SharedCacheSelector 9\<rparr>]"

theorem selector_chains_roundtrip_witness:
  "\<exists>entries. selRefFixups (\<lambda>_. 3) sample_selectors = Some entries
    \<and> selref_walk (\<lambda>s c. (s @ [c], False)) entries [] False = Some ([(0x4000, 7, True), (0x4008, 3, False), (0x3000, 9, True)], False)"
  using selector_chains_roundtrip [of "hd sample_selectors" "tl sample_selectors" "\<lambda>_. 3" "\<lambda>s c. s @ [c]" "[]"]
  by (simp add: sample_selectors_def selector_ok_def selector_call_def)

text \<open>
  A handler that stops at the first selector is called again: the rest of the broken chain is read as the start of another one, here
  at offset \<open>0x83000005\<close>.
\<close>

theorem selref_stop_ignored:
  "Option.bind (selRefFixups (\<lambda>_. 0)
     [\<lparr>fixupVMOffset = 0x4000, selectorTarget = SharedCacheSelector 7\<rparr>, \<lparr>fixupVMOffset = 0x4008, selectorTarget = SharedCacheSelector 5\<rparr>,
      \<lparr>fixupVMOffset = 0x4014, selectorTarget = SharedCacheSelector 6\<rparr>])
     (\<lambda>entries. selref_walk (\<lambda>s c. (s @ [fst c], True)) entries [] False) = Some ([0x4000, 0x83000005], True)"
  by code_simp
end
