(* ===== verification/Closure_Writer.thy ===== *)
theory Closure_Writer
  imports Closure_Bytes Closure_ObjC
begin

text \<open>
  \<open>ImageWriter\<close> of \<open>src/dyld3/ClosureWriter.cpp\<close>, which writes what the closure builder found out about an image, and the accessors of
  \<open>Image\<close> in \<open>src/dyld3/Closure.cpp\<close> that read it. Structs are written as the words they are laid out in (bit fields from the
  low bit up); arrays of structs the development does not look into are lists of such words. The abstract view of an
  image being written is its flags word and the list of its other attributes.
\<close>

section \<open>Attribute types\<close>

abbreviation T_image :: u8 where "T_image \<equiv> 3"
abbreviation T_imageFlags :: u8 where "T_imageFlags \<equiv> 7"
abbreviation T_pathWithHash :: u8 where "T_pathWithHash \<equiv> 8"
abbreviation T_fileInodeAndTime :: u8 where "T_fileInodeAndTime \<equiv> 9"
abbreviation T_cdHash :: u8 where "T_cdHash \<equiv> 10"
abbreviation T_uuid :: u8 where "T_uuid \<equiv> 11"
abbreviation T_mappingInfo :: u8 where "T_mappingInfo \<equiv> 12"
abbreviation T_diskSegment :: u8 where "T_diskSegment \<equiv> 13"
abbreviation T_cacheSegment :: u8 where "T_cacheSegment \<equiv> 14"
abbreviation T_dependents :: u8 where "T_dependents \<equiv> 15"
abbreviation T_initOffsets :: u8 where "T_initOffsets \<equiv> 16"
abbreviation T_dofOffsets :: u8 where "T_dofOffsets \<equiv> 17"
abbreviation T_codeSignLoc :: u8 where "T_codeSignLoc \<equiv> 18"
abbreviation T_fairPlayLoc :: u8 where "T_fairPlayLoc \<equiv> 19"
abbreviation T_rebaseFixups :: u8 where "T_rebaseFixups \<equiv> 20"
abbreviation T_bindFixups :: u8 where "T_bindFixups \<equiv> 21"
abbreviation T_textFixups :: u8 where "T_textFixups \<equiv> 23"
abbreviation T_imageOverride :: u8 where "T_imageOverride \<equiv> 24"
abbreviation T_initBefores :: u8 where "T_initBefores \<equiv> 25"
abbreviation T_initsSection :: u8 where "T_initsSection \<equiv> 26"
abbreviation T_chainedFixupsTargets :: u8 where "T_chainedFixupsTargets \<equiv> 27"
abbreviation T_termOffsets :: u8 where "T_termOffsets \<equiv> 28"
abbreviation T_chainedStartsOffset :: u8 where "T_chainedStartsOffset \<equiv> 29"
abbreviation T_objcFixups :: u8 where "T_objcFixups \<equiv> 30"

section \<open>Structs as words\<close>

definition words32 :: "u32 list \<Rightarrow> u8 list" where
  "words32 ws = concat (map (le_bytes 4) ws)"

definition words64 :: "u64 list \<Rightarrow> u8 list" where
  "words64 ws = concat (map (le_bytes 8) ws)"

definition rebase_word :: "RebasePattern \<Rightarrow> u32" where
  "rebase_word pat = ucast (repeatCount pat) OR push_bit 20 (ucast (contigCount pat)) OR push_bit 28 (ucast (skipCount pat))"

definition rebase_of_word :: "u32 \<Rightarrow> RebasePattern" where
  "rebase_of_word w = \<lparr>repeatCount = ucast w, contigCount = ucast (drop_bit 20 w), skipCount = ucast (drop_bit 28 w)\<rparr>"

definition location_word :: "40 word \<Rightarrow> u8 \<Rightarrow> u16 \<Rightarrow> u64" where
  "location_word start skip rep = ucast start OR push_bit 40 (ucast skip) OR push_bit 48 (ucast rep)"

definition bind_words :: "BindPattern \<Rightarrow> u64 list" where
  "bind_words pat = [bp_target pat, location_word (bp_startVmOffset pat) (bp_skipCount pat) (bp_repeatCount pat)]"

definition bind_of_words :: "u64 \<Rightarrow> u64 \<Rightarrow> BindPattern" where
  "bind_of_words target w =
     \<lparr>bp_target = target, bp_startVmOffset = ucast w, bp_skipCount = ucast (drop_bit 40 w), bp_repeatCount = ucast (drop_bit 48 w)\<rparr>"

definition fixup_word :: "ProtocolISAFixup \<Rightarrow> u64" where
  "fixup_word pat = location_word (pf_startVmOffset pat) (pf_skipCount pat) (pf_repeatCount pat)"

definition fixup_of_word :: "u64 \<Rightarrow> ProtocolISAFixup" where
  "fixup_of_word w = \<lparr>pf_startVmOffset = ucast w, pf_skipCount = ucast (drop_bit 40 w), pf_repeatCount = ucast (drop_bit 48 w)\<rparr>"

definition text_fixup_bytes :: "TextFixupPattern \<Rightarrow> u8 list" where
  "text_fixup_bytes pat = le_bytes 8 (tp_target pat) @ le_bytes 4 (tp_startVmOffset pat) @ le_bytes 2 (tp_repeatCount pat) @ le_bytes 2 (tp_skipCount pat)"

section \<open>The image writer\<close>

text \<open>\<open>flagsOffset\<close> is \<open>None\<close> where the source has -1.\<close>

record ImageWriter =
  iw_writer :: Writer
  flagsOffset :: "nat option"

definition ImageWriter_new :: ImageWriter where
  "ImageWriter_new = \<lparr>iw_writer = Writer_new, flagsOffset = None\<rparr>"

definition iw_append :: "u8 \<Rightarrow> u8 list option \<Rightarrow> nat \<Rightarrow> ImageWriter \<Rightarrow> (ImageWriter \<times> nat) option" where
  "iw_append t pl n iw = map_option (\<lambda>(w, p). (iw\<lparr>iw_writer := w\<rparr>, p)) (append_tb t pl n (iw_writer iw))"

text \<open>A payload that is copied from the caller; its size is a \<open>uint32_t\<close>.\<close>

definition iw_append_bytes :: "u8 \<Rightarrow> u8 list \<Rightarrow> ImageWriter \<Rightarrow> ImageWriter option" where
  "iw_append_bytes t bs iw = map_option fst (iw_append t (Some bs) (length bs mod 2 ^ 32) iw)"

definition iw_write :: "nat \<Rightarrow> u8 list \<Rightarrow> ImageWriter \<Rightarrow> ImageWriter option" where
  "iw_write p bs iw = map_option (\<lambda>w. iw\<lparr>iw_writer := w\<rparr>) (write_at p bs (iw_writer iw))"

definition writer_getFlags :: "ImageWriter \<Rightarrow> (ImageWriter \<times> nat) option" where
  "writer_getFlags iw =
     (case flagsOffset iw of
        Some off \<Rightarrow> Some (iw, off)
      | None \<Rightarrow>
          Option.bind (setContainerType T_image (iw_writer iw)) (\<lambda>w.
          Option.bind (append_tb T_imageFlags (Some (replicate 8 0)) 8 w) (\<lambda>(w, p).
            Some (\<lparr>iw_writer = w, flagsOffset = Some p\<rparr>, p))))"

text \<open>An assignment to a field of the flags.\<close>

definition update_flags :: "(u64 \<Rightarrow> u64) \<Rightarrow> ImageWriter \<Rightarrow> ImageWriter option" where
  "update_flags f iw =
     Option.bind (writer_getFlags iw) (\<lambda>(iw, off). iw_write off (le_bytes 8 (f (read64 (w_mem (iw_writer iw)) off))) iw)"

definition flag_bit :: "nat \<Rightarrow> bool \<Rightarrow> u64 \<Rightarrow> u64" where
  "flag_bit k v fl = (if v then fl OR push_bit k 1 else fl AND NOT (push_bit k 1))"

definition setImageNum :: "u32 \<Rightarrow> ImageWriter \<Rightarrow> ImageWriter option" where
  "setImageNum num = update_flags (\<lambda>fl. (fl AND NOT 0xFFFF) OR (ucast num AND 0xFFFF))"

definition setHasObjC :: "bool \<Rightarrow> ImageWriter \<Rightarrow> ImageWriter option" where
  "setHasObjC v = update_flags (flag_bit 31 v)"

definition setIs64 :: "bool \<Rightarrow> ImageWriter \<Rightarrow> ImageWriter option" where
  "setIs64 v = update_flags (flag_bit 30 v)"

definition setHasPlusLoads :: "bool \<Rightarrow> ImageWriter \<Rightarrow> ImageWriter option" where
  "setHasPlusLoads v = update_flags (flag_bit 32 v)"

definition setIsBundle :: "bool \<Rightarrow> ImageWriter \<Rightarrow> ImageWriter option" where
  "setIsBundle v = update_flags (flag_bit 38 v)"

definition setIsDylib :: "bool \<Rightarrow> ImageWriter \<Rightarrow> ImageWriter option" where
  "setIsDylib v = update_flags (flag_bit 39 v)"

definition setIsExecutable :: "bool \<Rightarrow> ImageWriter \<Rightarrow> ImageWriter option" where
  "setIsExecutable v = update_flags (flag_bit 40 v)"

definition setHasWeakDefs :: "bool \<Rightarrow> ImageWriter \<Rightarrow> ImageWriter option" where
  "setHasWeakDefs v = update_flags (flag_bit 34 v)"

definition setUses16KPages :: "bool \<Rightarrow> ImageWriter \<Rightarrow> ImageWriter option" where
  "setUses16KPages v = update_flags (flag_bit 29 v)"

definition setOverridableDylib :: "bool \<Rightarrow> ImageWriter \<Rightarrow> ImageWriter option" where
  "setOverridableDylib v = update_flags (flag_bit 41 v)"

definition setInvalid :: "ImageWriter \<Rightarrow> ImageWriter option" where
  "setInvalid = update_flags (flag_bit 28 True)"

definition setInDyldCache :: "bool \<Rightarrow> ImageWriter \<Rightarrow> ImageWriter option" where
  "setInDyldCache v = update_flags (flag_bit 42 v)"

definition setHasPrecomputedObjC :: "bool \<Rightarrow> ImageWriter \<Rightarrow> ImageWriter option" where
  "setHasPrecomputedObjC v = update_flags (flag_bit 46 v)"

definition setNeverUnload :: "bool \<Rightarrow> ImageWriter \<Rightarrow> ImageWriter option" where
  "setNeverUnload v = update_flags (flag_bit 35 v)"

definition setFixupsNotEncoded :: "ImageWriter \<Rightarrow> ImageWriter option" where
  "setFixupsNotEncoded = update_flags (flag_bit 47 True)"

definition setRebasesNotEncoded :: "ImageWriter \<Rightarrow> ImageWriter option" where
  "setRebasesNotEncoded = update_flags (flag_bit 48 True)"

text \<open>\<open>strlen(path) + 1\<close> rounded up to a multiple of four, as a \<open>uint32_t\<close>.\<close>

definition rounded_len :: "string \<Rightarrow> nat" where
  "rounded_len path = (length path + 1 + 3) div 4 * 4 mod 2 ^ 32"

definition path_cstring :: "string \<Rightarrow> u8 list" where
  "path_cstring str = map of_char str @ [0]"

text \<open>\<open>hash\<close> is \<open>Image::hashFunction\<close>.\<close>

definition addPath :: "(string \<Rightarrow> u32) \<Rightarrow> string \<Rightarrow> ImageWriter \<Rightarrow> ImageWriter option" where
  "addPath hash path iw =
     Option.bind (iw_append T_pathWithHash None (4 + rounded_len path) iw) (\<lambda>(iw, ph).
     Option.bind (iw_write ph (le_bytes 4 (hash path)) iw) (\<lambda>iw.
       iw_write (ph + 4) (path_cstring path) iw))"

definition setUUID :: "u8 list \<Rightarrow> ImageWriter \<Rightarrow> ImageWriter option" where
  "setUUID uuid iw = map_option fst (iw_append T_uuid (Some uuid) 16 iw)"

definition addCDHash :: "u8 list \<Rightarrow> ImageWriter \<Rightarrow> ImageWriter option" where
  "addCDHash cdHash iw = map_option fst (iw_append T_cdHash (Some cdHash) 20 iw)"

definition setDependents :: "u32 list \<Rightarrow> ImageWriter \<Rightarrow> ImageWriter option" where
  "setDependents deps = iw_append_bytes T_dependents (words32 deps)"

definition setDofOffsets :: "u32 list \<Rightarrow> ImageWriter \<Rightarrow> ImageWriter option" where
  "setDofOffsets offs iw = (if offs = [] then None else iw_append_bytes T_dofOffsets (words32 offs) iw)"

definition setInitOffsets :: "u32 list \<Rightarrow> ImageWriter \<Rightarrow> ImageWriter option" where
  "setInitOffsets offs = iw_append_bytes T_initOffsets (words32 offs)"

definition setTermOffsets :: "u32 list \<Rightarrow> ImageWriter \<Rightarrow> ImageWriter option" where
  "setTermOffsets offs iw = Option.bind (update_flags (flag_bit 43 True) iw) (iw_append_bytes T_termOffsets (words32 offs))"

definition setInitSectRange :: "u32 \<Rightarrow> u32 \<Rightarrow> ImageWriter \<Rightarrow> ImageWriter option" where
  "setInitSectRange sectionOffset sectionSize = iw_append_bytes T_initsSection (words32 [sectionOffset, sectionSize])"

text \<open>\<open>kReadOnlyDataPermissions\<close> is \<open>VM_PROT_WRITE\<close>, 2, in bits 60 to 62 of a segment.\<close>

fun mark_read_only :: "u64 list \<Rightarrow> ImageWriter \<Rightarrow> ImageWriter option" where
  "mark_read_only [] iw = Some iw"
| "mark_read_only (seg # segs) iw =
     Option.bind (if (ucast (drop_bit 60 seg) :: 3 word) = 2 then update_flags (flag_bit 44 True) iw else Some iw) (mark_read_only segs)"

definition setDiskSegments :: "u64 list \<Rightarrow> ImageWriter \<Rightarrow> ImageWriter option" where
  "setDiskSegments segs iw = Option.bind (iw_append_bytes T_diskSegment (words64 segs) iw) (mark_read_only segs)"

definition setCachedSegments :: "u64 list \<Rightarrow> ImageWriter \<Rightarrow> ImageWriter option" where
  "setCachedSegments segs = iw_append_bytes T_cacheSegment (words64 segs)"

definition setCodeSignatureLocation :: "u32 \<Rightarrow> u32 \<Rightarrow> ImageWriter \<Rightarrow> ImageWriter option" where
  "setCodeSignatureLocation fileOffset sz = iw_append_bytes T_codeSignLoc (words32 [fileOffset, sz])"

definition setFairPlayEncryptionRange :: "u32 \<Rightarrow> u32 \<Rightarrow> ImageWriter \<Rightarrow> ImageWriter option" where
  "setFairPlayEncryptionRange fileOffset sz = iw_append_bytes T_fairPlayLoc (words32 [fileOffset, sz])"

definition setMappingInfo :: "u64 \<Rightarrow> u64 \<Rightarrow> ImageWriter \<Rightarrow> ImageWriter option" where
  "setMappingInfo sliceOffset vmSize iw =
     Option.bind (writer_getFlags iw) (\<lambda>(iw, off).
       let pageSize = (if bit (read64 (w_mem (iw_writer iw)) off) 29 then 0x4000 else 0x1000) in
       iw_append_bytes T_mappingInfo (words32 [ucast (vmSize div pageSize), ucast (sliceOffset div 0x1000)]) iw)"

definition setFileInfo :: "u64 \<Rightarrow> u64 \<Rightarrow> ImageWriter \<Rightarrow> ImageWriter option" where
  "setFileInfo inode mTime = iw_append_bytes T_fileInodeAndTime (words64 [inode, mTime])"

definition setRebaseInfo :: "RebasePattern list \<Rightarrow> ImageWriter \<Rightarrow> ImageWriter option" where
  "setRebaseInfo fixups = iw_append_bytes T_rebaseFixups (words32 (map rebase_word fixups))"

definition setTextRebaseInfo :: "TextFixupPattern list \<Rightarrow> ImageWriter \<Rightarrow> ImageWriter option" where
  "setTextRebaseInfo fixups = iw_append_bytes T_textFixups (concat (map text_fixup_bytes fixups))"

definition setBindInfo :: "BindPattern list \<Rightarrow> ImageWriter \<Rightarrow> ImageWriter option" where
  "setBindInfo fixups = iw_append_bytes T_bindFixups (words64 (concat (map bind_words fixups)))"

definition setChainedFixups :: "u64 \<Rightarrow> u64 list \<Rightarrow> ImageWriter \<Rightarrow> ImageWriter option" where
  "setChainedFixups runtimeStartsStructOffset targets iw =
     Option.bind (update_flags (flag_bit 45 True) iw) (\<lambda>iw.
     Option.bind (iw_append_bytes T_chainedStartsOffset (words64 [runtimeStartsStructOffset]) iw)
       (iw_append_bytes T_chainedFixupsTargets (words64 targets)))"

definition setAsOverrideOf :: "u32 \<Rightarrow> ImageWriter \<Rightarrow> ImageWriter option" where
  "setAsOverrideOf imageNum iw = Option.bind (iw_append_bytes T_imageOverride (words32 [imageNum]) iw) (update_flags (flag_bit 49 True))"

definition setInitsOrder :: "u32 list \<Rightarrow> ImageWriter \<Rightarrow> ImageWriter option" where
  "setInitsOrder images = iw_append_bytes T_initBefores (words32 images)"

record ObjCFixups =
  objcProtocolClassTarget :: u64
  objcImageInfoVMOffset :: u64
  of_protocols :: "ProtocolISAFixup list"
  of_selRefs :: "SelectorReferenceFixup list"
  of_stableSwift :: "ClassStableSwiftFixup list"
  of_methodLists :: "MethodListFixup list"

text \<open>The size of the attribute, and the writes into it: each array follows what was written before it.\<close>

definition objc_total_size :: "ObjCFixups \<Rightarrow> nat" where
  "objc_total_size f = 8 + 8 + 4 * 4 + 8 * length (of_protocols f) + 4 * length (of_selRefs f)
     + 8 * length (of_stableSwift f) + 8 * length (of_methodLists f)"

definition objc_bytes :: "ObjCFixups \<Rightarrow> u8 list" where
  "objc_bytes f =
     le_bytes 8 (objcProtocolClassTarget f) @ le_bytes 8 (objcImageInfoVMOffset f)
     @ le_bytes 4 (of_nat (length (of_protocols f)) :: u32) @ le_bytes 4 (of_nat (length (of_selRefs f)) :: u32)
     @ words64 (map fixup_word (of_protocols f)) @ words32 (of_selRefs f)
     @ le_bytes 4 (of_nat (length (of_stableSwift f)) :: u32) @ le_bytes 4 (of_nat (length (of_methodLists f)) :: u32)
     @ words64 (map fixup_word (of_stableSwift f)) @ words64 (map fixup_word (of_methodLists f))"

definition setObjCFixupInfo :: "ObjCFixups \<Rightarrow> ImageWriter \<Rightarrow> ImageWriter option" where
  "setObjCFixupInfo f iw =
     (if objc_total_size f mod 4 \<noteq> 0 then None
      else Option.bind (iw_append T_objcFixups None (objc_total_size f mod 2 ^ 32) iw) (\<lambda>(iw, buffer). iw_write buffer (objc_bytes f) iw))"


section \<open>Reading an image\<close>

text \<open>The flags are expected in the first attribute.\<close>

definition image_flags :: "memory \<Rightarrow> nat \<Rightarrow> u64" where
  "image_flags m this = read64 m (this + 2 * 4)"

definition flags_imageNum :: "memory \<Rightarrow> nat \<Rightarrow> u32" where
  "flags_imageNum m this = ucast (image_flags m this AND 0xFFFF)"

text \<open>A payload as an array of elements of \<open>sz\<close> bytes; a missing attribute is an empty array.\<close>

definition payload_array :: "memory \<Rightarrow> nat \<Rightarrow> u8 \<Rightarrow> nat \<Rightarrow> (nat \<Rightarrow> 'a) \<Rightarrow> 'a list option" where
  "payload_array m this ty sz element =
     (case findAttributePayload m this ty of
        None \<Rightarrow> None
      | Some None \<Rightarrow> Some []
      | Some (Some (q, n)) \<Rightarrow> Some (map (\<lambda>i. element (q + sz * i)) [0 ..< n div sz]))"

definition rebaseFixups :: "memory \<Rightarrow> nat \<Rightarrow> RebasePattern list option" where
  "rebaseFixups m this = payload_array m this T_rebaseFixups 4 (\<lambda>q. rebase_of_word (read32 m q))"

definition bindFixups :: "memory \<Rightarrow> nat \<Rightarrow> BindPattern list option" where
  "bindFixups m this = payload_array m this T_bindFixups 16 (\<lambda>q. bind_of_words (read64 m q) (read64 m (q + 8)))"

definition textFixups :: "memory \<Rightarrow> nat \<Rightarrow> TextFixupPattern list option" where
  "textFixups m this = payload_array m this T_textFixups 16
     (\<lambda>q. \<lparr>tp_target = read64 m q, tp_startVmOffset = read32 m (q + 8), tp_repeatCount = read16 m (q + 12), tp_skipCount = read16 m (q + 14)\<rparr>)"

definition chainedTargets :: "memory \<Rightarrow> nat \<Rightarrow> u64 list option" where
  "chainedTargets m this = payload_array m this T_chainedFixupsTargets 8 (read64 m)"

definition chainedStartsOffset :: "memory \<Rightarrow> nat \<Rightarrow> u64 option" where
  "chainedStartsOffset m this =
     (case findAttributePayload m this T_chainedStartsOffset of
        None \<Rightarrow> None
      | Some None \<Rightarrow> Some 0
      | Some (Some (q, n)) \<Rightarrow> if n = 8 then Some (read64 m q) else None)"

definition fixup_array :: "memory \<Rightarrow> nat \<Rightarrow> nat \<Rightarrow> ProtocolISAFixup list" where
  "fixup_array m q n = map (\<lambda>i. fixup_of_word (read64 m (q + 8 * i))) [0 ..< n]"

text \<open>\<open>Some None\<close> is an image without precomputed Objective-C data; a missing payload is a null pointer that is read.\<close>

definition objcFixups :: "memory \<Rightarrow> nat \<Rightarrow> ObjCFixups option option" where
  "objcFixups m this =
     (if \<not> bit (image_flags m this) 46 then Some None
      else
        (case findAttributePayload m this T_objcFixups of
           None \<Rightarrow> None
         | Some None \<Rightarrow> None
         | Some (Some (q, contentSize)) \<Rightarrow>
             let protocolFixupCount = unat (read32 m (q + 16)); selRefFixupCount = unat (read32 m (q + 20));
                 p1 = q + 24 + 8 * protocolFixupCount; p2 = p1 + 4 * selRefFixupCount;
                 old = \<lparr>objcProtocolClassTarget = read64 m q, objcImageInfoVMOffset = read64 m (q + 8),
                   of_protocols = fixup_array m (q + 24) protocolFixupCount, of_selRefs = map (\<lambda>i. read32 m (p1 + 4 * i)) [0 ..< selRefFixupCount],
                   of_stableSwift = [], of_methodLists = []\<rparr> in
             if p2 = q + contentSize then Some (Some old)
             else
               let stableSwiftFixupCount = unat (read32 m p2); methodListFixupCount = unat (read32 m (p2 + 4)); p3 = p2 + 8;
                   p4 = p3 + 8 * stableSwiftFixupCount in
               Some (Some (old\<lparr>of_stableSwift := fixup_array m p3 stableSwiftFixupCount, of_methodLists := fixup_array m p4 methodListFixupCount\<rparr>))))"

section \<open>Handing the fixups to the loader\<close>

definition image_is64 :: "memory \<Rightarrow> nat \<Rightarrow> bool" where
  "image_is64 m this \<longleftrightarrow> bit (image_flags m this) 30"

definition image_hasChainedFixups :: "memory \<Rightarrow> nat \<Rightarrow> bool" where
  "image_hasChainedFixups m this \<longleftrightarrow> bit (image_flags m this) 45"

definition image_hasPrecomputedObjC :: "memory \<Rightarrow> nat \<Rightarrow> bool" where
  "image_hasPrecomputedObjC m this \<longleftrightarrow> bit (image_flags m this) 46"

definition image_pointerSize :: "memory \<Rightarrow> nat \<Rightarrow> u64" where
  "image_pointerSize m this = (if image_is64 m this then 8 else 4)"

text \<open>
  The loops of \<open>forEachFixup\<close> and \<open>forEachBind\<close> call a handler at each of a list of places until \<open>stop\<close> is set. \<open>call_each\<close> is such a
  loop, \<open>call_patterns\<close> the loop over patterns around it, which is also left when \<open>stop\<close> was set before.
\<close>

fun call_each :: "('s \<Rightarrow> 'a \<Rightarrow> 's \<times> bool) \<Rightarrow> 'a list \<Rightarrow> 's \<Rightarrow> bool \<Rightarrow> 's \<times> bool" where
  "call_each h [] s stop = (s, stop)"
| "call_each h (x # xs) s stop =
     (let (s', stopped) = h s x; stop' = (stop \<or> stopped) in if stop' then (s', stop') else call_each h xs s' stop')"

fun call_patterns :: "('s \<Rightarrow> 'a \<Rightarrow> 's \<times> bool) \<Rightarrow> 'a list list \<Rightarrow> 's \<Rightarrow> bool \<Rightarrow> 's \<times> bool" where
  "call_patterns h [] s stop = (s, stop)"
| "call_patterns h (xs # pats) s stop =
     (let (s', stop') = call_each h xs s stop in if stop' then (s', stop') else call_patterns h pats s' stop')"

text \<open>\<open>Image::forEachBind\<close>: a bind is an offset and its target.\<close>

definition image_forEachBind :: "memory \<Rightarrow> nat \<Rightarrow> ('s \<Rightarrow> u64 \<times> u64 \<Rightarrow> 's \<times> bool) \<Rightarrow> 's \<Rightarrow> ('s \<times> bool) option" where
  "image_forEachBind m this bind s =
     map_option (\<lambda>pats. call_patterns bind (map (bind_locations (image_pointerSize m this)) pats) s False) (bindFixups m this)"

text \<open>
  The handlers of \<open>Image::forEachFixup\<close> as one: which of them is called, with its arguments. The one for the image info cannot
  stop the walk; after the one for chained fixups \<open>stop\<close> is looked at only by the loops that follow.
\<close>

datatype fixup_call =
    Rebase u64 | Bind "u64 \<times> u64" | ChainedFixups u64 "u64 list" | FixupObjCImageInfo u64 | FixupObjCProtocol u64 u64
  | FixupObjCSelRef selref_call | FixupObjCStableSwift u64 | FixupObjCMethodList u64

definition objc_fixup_calls :: "u64 \<Rightarrow> ObjCFixups \<Rightarrow> ('s \<Rightarrow> fixup_call \<Rightarrow> 's \<times> bool) \<Rightarrow> 's \<Rightarrow> bool \<Rightarrow> 's option" where
  "objc_fixup_calls ptrSize f h s stop =
     (let places = map (fixup_locations ptrSize);
          s1 = fst (h s (FixupObjCImageInfo (objcImageInfoVMOffset f)));
          (s2, stop2) = call_patterns (\<lambda>s off. h s (FixupObjCProtocol off (objcProtocolClassTarget f))) (places (of_protocols f)) s1 stop
      in map_option (\<lambda>(s3, stop3).
           let (s4, stop4) = call_patterns (\<lambda>s off. h s (FixupObjCStableSwift off)) (places (of_stableSwift f)) s3 stop3
           in fst (call_patterns (\<lambda>s off. h s (FixupObjCMethodList off)) (places (of_methodLists f)) s4 stop4))
         (selref_walk (\<lambda>s c. h s (FixupObjCSelRef c)) (of_selRefs f) s2 stop2))"

definition image_forEachFixup :: "memory \<Rightarrow> nat \<Rightarrow> ('s \<Rightarrow> fixup_call \<Rightarrow> 's \<times> bool) \<Rightarrow> 's \<Rightarrow> 's option" where
  "image_forEachFixup m this h s =
     (let ptrSize = image_pointerSize m this in
      Option.bind (rebaseFixups m this) (\<lambda>pats.
        let (s1, stop1) = call_each (\<lambda>s off. h s (Rebase off)) (forEachFixup_rebases ptrSize pats) s False in
        if stop1 then Some s1
        else
          Option.bind (image_forEachBind m this (\<lambda>s b. h s (Bind b)) s1) (\<lambda>(s2, stop2).
          if stop2 then Some s2
          else
            Option.bind
              (if image_hasChainedFixups m this then
                 Option.bind (chainedStartsOffset m this) (\<lambda>off.
                   map_option (\<lambda>targets. h s2 (ChainedFixups off targets)) (chainedTargets m this))
               else Some (s2, False)) (\<lambda>(s3, stop3).
            if \<not> image_hasPrecomputedObjC m this then Some s3
            else
              Option.bind (objcFixups m this) (\<lambda>objc.
                case objc of None \<Rightarrow> None | Some f \<Rightarrow> objc_fixup_calls ptrSize f h s3 stop3)))))"

text \<open>A handler that writes down its calls and does not stop sees every place, in order.\<close>

definition record_call :: "fixup_call list \<Rightarrow> fixup_call \<Rightarrow> fixup_call list \<times> bool" where
  "record_call calls call = (calls @ [call], False)"

lemma call_each_record: "call_each (\<lambda>s x. record_call s (g x)) xs s False = (s @ map g xs, False)"
  by (induction xs arbitrary: s) (simp_all add: record_call_def)

lemma call_patterns_record: "call_patterns (\<lambda>s x. record_call s (g x)) pats s False = (s @ map g (concat pats), False)"
  by (induction pats arbitrary: s) (simp_all add: call_each_record)

text \<open>The calls made for an image with these fixups: none of them chained.\<close>

lemma image_forEachFixup_record:
  assumes "rebaseFixups m this = Some rb" and "bindFixups m this = Some bb" and "objcFixups m this = Some (Some f)"
    and "\<not> image_hasChainedFixups m this" and "image_hasPrecomputedObjC m this" and p: "image_pointerSize m this = p"
    and sels: "\<And>s. selref_walk (\<lambda>s c. record_call s (FixupObjCSelRef c)) (of_selRefs f) s False = Some (s @ map FixupObjCSelRef cs, False)"
  shows "image_forEachFixup m this record_call [] = Some
    (map Rebase (forEachFixup_rebases p rb) @ map Bind (forEachBind p bb) @ [FixupObjCImageInfo (objcImageInfoVMOffset f)]
     @ map (\<lambda>off. FixupObjCProtocol off (objcProtocolClassTarget f)) (forEachFixup_offsets p (of_protocols f))
     @ map FixupObjCSelRef cs @ map FixupObjCStableSwift (forEachFixup_offsets p (of_stableSwift f))
     @ map FixupObjCMethodList (forEachFixup_offsets p (of_methodLists f)))"
proof -
  have "fst (record_call s c) = s @ [c]" for s c by (simp add: record_call_def)
  then show ?thesis
    unfolding image_forEachFixup_def image_forEachBind_def objc_fixup_calls_def p using assms(1-5)
    by (simp add: call_each_record call_patterns_record sels forEachBind_def forEachFixup_offsets_def Let_def)
qed

section \<open>The calls of an image writer\<close>

text \<open>
  The public methods with their arguments, what they do to the writer, and what they mean for the flags and the attributes.
\<close>

datatype ImageCall =
    SetImageNum u32 | SetFlag nat bool | AddPath string | SetUUID "u8 list" | AddCDHash "u8 list" | SetDependents "u32 list"
  | SetDofOffsets "u32 list" | SetInitOffsets "u32 list" | SetTermOffsets "u32 list" | SetInitSectRange u32 u32 | SetDiskSegments "u64 list"
  | SetCachedSegments "u64 list" | SetCodeSignatureLocation u32 u32 | SetFairPlayEncryptionRange u32 u32 | SetMappingInfo u64 u64
  | SetFileInfo u64 u64 | SetRebaseInfo "RebasePattern list" | SetTextRebaseInfo "TextFixupPattern list" | SetBindInfo "BindPattern list"
  | SetChainedFixups u64 "u64 list" | SetAsOverrideOf u32 | SetInitsOrder "u32 list" | SetObjCFixupInfo ObjCFixups

text \<open>The setters of a single flag, by the flag's bit.\<close>

definition flag_setter :: "nat \<Rightarrow> bool \<Rightarrow> ImageWriter \<Rightarrow> ImageWriter option" where
  "flag_setter k v =
     (if k = 28 \<and> v then setInvalid else if k = 29 then setUses16KPages v else if k = 30 then setIs64 v else if k = 31 then setHasObjC v
      else if k = 32 then setHasPlusLoads v else if k = 34 then setHasWeakDefs v else if k = 35 then setNeverUnload v
      else if k = 38 then setIsBundle v else if k = 39 then setIsDylib v else if k = 40 then setIsExecutable v
      else if k = 41 then setOverridableDylib v else if k = 42 then setInDyldCache v else if k = 46 then setHasPrecomputedObjC v
      else if k = 47 \<and> v then setFixupsNotEncoded else if k = 48 \<and> v then setRebasesNotEncoded else (\<lambda>_. None))"

fun image_call :: "(string \<Rightarrow> u32) \<Rightarrow> ImageCall \<Rightarrow> ImageWriter \<Rightarrow> ImageWriter option" where
  "image_call hash (SetImageNum n) = setImageNum n"
| "image_call hash (SetFlag k v) = flag_setter k v"
| "image_call hash (AddPath path) = addPath hash path"
| "image_call hash (SetUUID u) = setUUID u"
| "image_call hash (AddCDHash h) = addCDHash h"
| "image_call hash (SetDependents deps) = setDependents deps"
| "image_call hash (SetDofOffsets offs) = setDofOffsets offs"
| "image_call hash (SetInitOffsets offs) = setInitOffsets offs"
| "image_call hash (SetTermOffsets offs) = setTermOffsets offs"
| "image_call hash (SetInitSectRange off sz) = setInitSectRange off sz"
| "image_call hash (SetDiskSegments segs) = setDiskSegments segs"
| "image_call hash (SetCachedSegments segs) = setCachedSegments segs"
| "image_call hash (SetCodeSignatureLocation off sz) = setCodeSignatureLocation off sz"
| "image_call hash (SetFairPlayEncryptionRange off sz) = setFairPlayEncryptionRange off sz"
| "image_call hash (SetMappingInfo sl vm) = setMappingInfo sl vm"
| "image_call hash (SetFileInfo inode mTime) = setFileInfo inode mTime"
| "image_call hash (SetRebaseInfo pats) = setRebaseInfo pats"
| "image_call hash (SetTextRebaseInfo pats) = setTextRebaseInfo pats"
| "image_call hash (SetBindInfo pats) = setBindInfo pats"
| "image_call hash (SetChainedFixups off targets) = setChainedFixups off targets"
| "image_call hash (SetAsOverrideOf num) = setAsOverrideOf num"
| "image_call hash (SetInitsOrder images) = setInitsOrder images"
| "image_call hash (SetObjCFixupInfo f) = setObjCFixupInfo f"

fun image_calls :: "(string \<Rightarrow> u32) \<Rightarrow> ImageCall list \<Rightarrow> ImageWriter \<Rightarrow> ImageWriter option" where
  "image_calls hash [] iw = Some iw"
| "image_calls hash (c # cs) iw = Option.bind (image_call hash c iw) (image_calls hash cs)"

text \<open>The attributes a call adds, given the flags, and the flags after it.\<close>

fun call_attrs :: "(string \<Rightarrow> u32) \<Rightarrow> ImageCall \<Rightarrow> u64 \<Rightarrow> attribute list" where
  "call_attrs hash (SetImageNum n) fl = []"
| "call_attrs hash (SetFlag k v) fl = []"
| "call_attrs hash (AddPath path) fl =
     [(T_pathWithHash, le_bytes 4 (hash path) @ path_cstring path @ replicate (rounded_len path - Suc (length path)) 0)]"
| "call_attrs hash (SetUUID u) fl = [(T_uuid, u)]"
| "call_attrs hash (AddCDHash h) fl = [(T_cdHash, h)]"
| "call_attrs hash (SetDependents deps) fl = [(T_dependents, words32 deps)]"
| "call_attrs hash (SetDofOffsets offs) fl = [(T_dofOffsets, words32 offs)]"
| "call_attrs hash (SetInitOffsets offs) fl = [(T_initOffsets, words32 offs)]"
| "call_attrs hash (SetTermOffsets offs) fl = [(T_termOffsets, words32 offs)]"
| "call_attrs hash (SetInitSectRange off sz) fl = [(T_initsSection, words32 [off, sz])]"
| "call_attrs hash (SetDiskSegments segs) fl = [(T_diskSegment, words64 segs)]"
| "call_attrs hash (SetCachedSegments segs) fl = [(T_cacheSegment, words64 segs)]"
| "call_attrs hash (SetCodeSignatureLocation off sz) fl = [(T_codeSignLoc, words32 [off, sz])]"
| "call_attrs hash (SetFairPlayEncryptionRange off sz) fl = [(T_fairPlayLoc, words32 [off, sz])]"
| "call_attrs hash (SetMappingInfo sl vm) fl =
     [(T_mappingInfo, words32 [ucast (vm div (if bit fl 29 then 0x4000 else 0x1000)), ucast (sl div 0x1000)])]"
| "call_attrs hash (SetFileInfo inode mTime) fl = [(T_fileInodeAndTime, words64 [inode, mTime])]"
| "call_attrs hash (SetRebaseInfo pats) fl = [(T_rebaseFixups, words32 (map rebase_word pats))]"
| "call_attrs hash (SetTextRebaseInfo pats) fl = [(T_textFixups, concat (map text_fixup_bytes pats))]"
| "call_attrs hash (SetBindInfo pats) fl = [(T_bindFixups, words64 (concat (map bind_words pats)))]"
| "call_attrs hash (SetChainedFixups off targets) fl = [(T_chainedStartsOffset, words64 [off]), (T_chainedFixupsTargets, words64 targets)]"
| "call_attrs hash (SetAsOverrideOf num) fl = [(T_imageOverride, words32 [num])]"
| "call_attrs hash (SetInitsOrder images) fl = [(T_initBefores, words32 images)]"
| "call_attrs hash (SetObjCFixupInfo f) fl = [(T_objcFixups, objc_bytes f)]"

fun call_flags :: "ImageCall \<Rightarrow> u64 \<Rightarrow> u64" where
  "call_flags (SetImageNum n) fl = (fl AND NOT 0xFFFF) OR (ucast n AND 0xFFFF)"
| "call_flags (SetFlag k v) fl = flag_bit k v fl"
| "call_flags (SetTermOffsets offs) fl = flag_bit 43 True fl"
| "call_flags (SetDiskSegments segs) fl = (if \<exists>seg\<in>set segs. (ucast (drop_bit 60 seg) :: 3 word) = 2 then flag_bit 44 True fl else fl)"
| "call_flags (SetChainedFixups off targets) fl = flag_bit 45 True fl"
| "call_flags (SetAsOverrideOf num) fl = flag_bit 49 True fl"
| "call_flags c fl = fl"

fun calls_image :: "(string \<Rightarrow> u32) \<Rightarrow> ImageCall list \<Rightarrow> u64 \<times> attribute list \<Rightarrow> u64 \<times> attribute list" where
  "calls_image hash [] img = img"
| "calls_image hash (c # cs) (fl, as) = calls_image hash cs (call_flags c fl, as @ call_attrs hash c fl)"

section \<open>Words in memory\<close>

lemma take_unat: "n = LENGTH('a) \<Longrightarrow> take_bit n (unat v) = unat v" for v :: "'a::len word"
  by (simp add: take_bit_nat_eq_self_iff unsigned_less)

lemma le_nat_bytes:
  assumes "\<forall>i < n. m (p + i) = ucast (drop_bit (8 * i) v)"
  shows "le_nat m p n = take_bit (8 * n) (unat v)"
  using assms
proof (induction n arbitrary: p v)
  case (Suc n)
  have "m (Suc p + i) = ucast (drop_bit (8 * i) (drop_bit 8 v))" if "i < n" for i
    using Suc.prems [rule_format, of "Suc i"] that by (simp add: add.commute)
  then have rest: "le_nat m (Suc p) n = take_bit (8 * n) (unat (drop_bit 8 v))" by (intro Suc.IH) simp
  have "unat (m p) = take_bit 8 (unat v)" using Suc.prems [rule_format, of 0] by (simp add: unsigned_ucast_eq)
  moreover have "(x :: nat) mod (256 * y) = x mod 256 + 256 * (x div 256 mod y)" for x y using mod_mult2_eq [of x 256 y] by simp
  moreover have "unat (drop_bit 8 v) = unat v div 256"
    unfolding unsigned_drop_bit_eq by (simp add: drop_bit_eq_div take_unat)
  moreover have "(2 :: nat) ^ (8 * Suc n) = 256 * 2 ^ (8 * n)" by (simp add: power_add)
  ultimately show ?case using rest by (simp add: take_bit_eq_mod)
qed simp

lemma le_bytes_nth [simp]: "i < n \<Longrightarrow> le_bytes n v ! i = ucast (drop_bit (8 * i) v)"
  by (simp add: le_bytes_def)

lemma read_bytes_at:
  "bytes_at m q (le_bytes 8 (v :: u64)) \<Longrightarrow> read64 m q = v"
  "bytes_at m q (le_bytes 4 (w :: u32)) \<Longrightarrow> read32 m q = w"
  "bytes_at m q (le_bytes 2 (h :: u16)) \<Longrightarrow> read16 m q = h"
  using le_nat_bytes [of 8 m q v] le_nat_bytes [of 4 m q w] le_nat_bytes [of 2 m q h]
  by (simp_all add: bytes_at_def read64_def read32_def read16_def take_unat)

text \<open>Arrays of elements of equal size.\<close>

lemma length_concat_map: "(\<And>x. length (f x) = k) \<Longrightarrow> length (concat (map f xs)) = k * length xs"
  by (induction xs) simp_all

lemma bytes_at_array:
  assumes "bytes_at m q (concat (map f xs))" and "\<And>x. length (f x) = k" and "i < length xs"
  shows "bytes_at m (q + k * i) (f (xs ! i))"
  using assms(1,3)
proof (induction xs arbitrary: q i)
  case (Cons x xs)
  then show ?case using Cons.IH [of "q + k"] by (cases i) (auto simp: bytes_at_append assms(2) algebra_simps)
qed simp

lemma array_of_bytes:
  assumes "bytes_at m q (concat (map f xs))" and "\<And>x. length (f x) = k"
    and "\<And>x p. bytes_at m p (f x) \<Longrightarrow> element p = g x"
  shows "map (\<lambda>i. element (q + k * i)) [0 ..< length xs] = map g xs"
  using bytes_at_array [OF assms(1,2)] assms(3) by (auto intro: nth_equalityI)

lemma length_words [simp]: "length (words32 ws) = 4 * length ws" "length (words64 vs) = 8 * length vs"
  by (simp_all add: words32_def words64_def length_concat_map)

section \<open>Structs and the words they are laid out in\<close>

lemma rebase_of_rebase_word [simp]: "rebase_of_word (rebase_word pat) = pat"
proof -
  have "ucast (rebase_word pat) = repeatCount pat" "ucast (drop_bit 20 (rebase_word pat)) = contigCount pat"
    "ucast (drop_bit 28 (rebase_word pat)) = skipCount pat"
    by (rule bit_word_eqI; auto simp: rebase_word_def bit_simps dest: bit_imp_le_length)+
  then show ?thesis by (simp add: rebase_of_word_def)
qed

lemma location_word_fields:
  "ucast (location_word start skip rep) = start" "ucast (drop_bit 40 (location_word start skip rep)) = skip"
  "ucast (drop_bit 48 (location_word start skip rep)) = rep"
  by (rule bit_word_eqI; auto simp: location_word_def bit_simps dest: bit_imp_le_length)+

lemma fixup_of_fixup_word [simp]: "fixup_of_word (fixup_word pat) = pat"
  by (simp add: fixup_of_word_def fixup_word_def location_word_fields)

lemma bind_of_bind_words: "bind_of_words (bind_words pat ! 0) (bind_words pat ! 1) = pat"
  by (simp add: bind_of_words_def bind_words_def location_word_fields)

section \<open>The calls implement their meaning\<close>

definition image_for :: "ImageWriter \<Rightarrow> u64 \<Rightarrow> attribute list \<Rightarrow> bool" where
  "image_for iw fl as \<longleftrightarrow> flagsOffset iw = Some 8 \<and> writer_for T_image ((T_imageFlags, le_bytes 8 fl) # as) (iw_writer iw)"

lemma attrs_at_overwrite:
  assumes at: "attrs_at m p (as @ (ty, old) # bs)" and fits: "k + length new \<le> length old"
  shows "attrs_at (store_bytes (p + attrs_size as + 4 + k) new m) p (as @ (ty, take k old @ new @ drop (k + length new) old) # bs)"
proof -
  let ?q = "p + attrs_size as" and ?old' = "take k old @ new @ drop (k + length new) old"
  let ?m = "store_bytes (?q + 4 + k) new m"
  have len: "length ?old' = length old" using fits by simp
  have a: "attrs_at m p as" "attr_at m ?q (ty, old)" "attrs_at m (?q + 4 + length old) bs" using at by (simp_all add: attrs_at_append)
  have "attrs_at ?m p as" using a(1) attrs_at_agree [of p as ?m m] agree_store by simp
  moreover have "attr_at ?m ?q (ty, ?old')"
  proof -
    have "?m (?q + 4 + i) = ?old' ! i" if "i < length old" for i
      using a(2) that fits by (auto simp: attr_at_def store_bytes_def nth_append)
    moreover have "agree ?q (?q + 4) ?m m" by (rule agree_store) simp
    ultimately show ?thesis using a(2) header_agree [of ?q ?m m] unfolding attr_at_def fst_conv snd_conv len by simp
  qed
  moreover have "attrs_at ?m (?q + 4 + length old) bs"
    using a(3) attrs_at_agree [of "?q + 4 + length old" bs ?m m] agree_store [of _ "?q + 4 + k" new "?q + 4 + length old" m] fits by simp
  ultimately show ?thesis using len by (simp add: attrs_at_append)
qed

lemma writer_overwrite:
  assumes w: "writer_for t (as @ (ty, old) # bs) w" and fits: "k + length new \<le> length old"
  shows "\<exists>w'. write_at (8 + attrs_size as + k) new w = Some w'
    \<and> writer_for t (as @ (ty, take k old @ new @ drop (k + length new) old) # bs) w'"
proof -
  let ?old' = "take k old @ new @ drop (k + length new) old" and ?m = "store_bytes (8 + attrs_size as + k) new (w_mem w)"
  have size: "attrs_size (as @ (ty, ?old') # bs) = attrs_size (as @ (ty, old) # bs)" using fits by simp
  have c: "container_at (w_mem w) 0 t (as @ (ty, old) # bs)" using w by (simp add: writer_for_def)
  then have "attrs_at ?m 4 (as @ (ty, ?old') # bs)"
    using attrs_at_overwrite [of "w_mem w" 4 as ty old bs k new] fits by (simp add: container_at_def add.commute add.left_commute)
  moreover have "tb_type ?m 0 = t" "payloadLength ?m 0 = attrs_size (as @ (ty, ?old') # bs)"
    using c header_agree [of 0 ?m "w_mem w"] agree_store [of 4 "8 + attrs_size as + k" new 0 "w_mem w"] size
    by (simp_all add: container_at_def)
  ultimately have "container_at ?m 0 t (as @ (ty, ?old') # bs)" by (simp add: container_at_def)
  moreover have "\<forall>i \<ge> w_end w. ?m i = 0" using w fits by (auto simp: writer_for_def store_bytes_def)
  ultimately have "writer_for t (as @ (ty, ?old') # bs) (w\<lparr>w_mem := ?m\<rparr>)" using w size by (simp add: writer_for_def)
  moreover have "write_at (8 + attrs_size as + k) new w = Some (w\<lparr>w_mem := ?m\<rparr>)" using w fits by (simp add: write_at_def writer_for_def)
  ultimately show ?thesis by blast
qed

lemma image_attrs_size: "attrs_size ((T_imageFlags, le_bytes 8 fl) # as) = 12 + attrs_size as"
  by simp

lemma iw_append_ok:
  assumes iw: "image_for iw fl as" and n: "attr_ok (t, bs)" "12 + attrs_size (as @ [(t, bs)]) < 16 * 1024 * 1024"
    and pl: "pl = Some bs \<or> pl = None \<and> bs = replicate (length bs) 0"
  shows "\<exists>iw'. iw_append t pl (length bs) iw = Some (iw', 20 + attrs_size as) \<and> image_for iw' fl (as @ [(t, bs)])"
proof -
  have "\<exists>w'. append_tb t pl (length bs) (iw_writer iw) = Some (w', 8 + attrs_size ((T_imageFlags, le_bytes 8 fl) # as))
      \<and> writer_for T_image (((T_imageFlags, le_bytes 8 fl) # as) @ [(t, bs)]) w'"
    using iw n pl by (intro append_tb_ok) (auto simp: image_for_def attr_ok_def)
  then show ?thesis using iw by (auto simp: iw_append_def image_for_def)
qed

lemma iw_append_bytes_ok:
  assumes "image_for iw fl as" and "attr_ok (t, bs)" and "12 + attrs_size (as @ [(t, bs)]) < 16 * 1024 * 1024"
  shows "\<exists>iw'. iw_append_bytes t bs iw = Some iw' \<and> image_for iw' fl (as @ [(t, bs)])"
  using iw_append_ok [OF assms, of "Some bs"] assms(3) by (auto simp: iw_append_bytes_def)

lemma iw_write_ok:
  assumes "image_for iw fl (as @ [(t, old)])" and "k + length new \<le> length old"
  shows "\<exists>iw'. iw_write (20 + attrs_size as + k) new iw = Some iw'
    \<and> image_for iw' fl (as @ [(t, take k old @ new @ drop (k + length new) old)])"
  using writer_overwrite [of T_image "(T_imageFlags, le_bytes 8 fl) # as" t old "[]" "iw_writer iw" k new] assms
  by (auto simp: iw_write_def image_for_def)

lemma image_for_flags: "image_for iw fl as \<Longrightarrow> read64 (w_mem (iw_writer iw)) 8 = fl"
  by (rule read_bytes_at(1)) (simp add: image_for_def writer_for_def container_at_def attr_at_def bytes_at_def)

lemma update_flags_ok:
  assumes "image_for iw fl as"
  shows "\<exists>iw'. update_flags f iw = Some iw' \<and> image_for iw' (f fl) as"
  using writer_overwrite [of T_image "[]" T_imageFlags "le_bytes 8 fl" as "iw_writer iw" 0 "le_bytes 8 (f fl)"] assms image_for_flags [OF assms]
  by (auto simp: update_flags_def writer_getFlags_def iw_write_def image_for_def)

lemma first_update: "\<exists>iw. update_flags f ImageWriter_new = Some iw \<and> image_for iw (f 0) []"
proof -
  obtain w0 where w0: "setContainerType T_image Writer_new = Some w0" "writer_for T_image [] w0" using setContainerType_ok by blast
  have zero: "le_bytes 8 (0 :: u64) = replicate 8 0" by (rule nth_equalityI) simp_all
  from append_tb_ok [OF w0(2), of 8 "Some (replicate 8 0)" "replicate 8 0" T_imageFlags]
  obtain w1 where w1: "append_tb T_imageFlags (Some (replicate 8 0)) 8 w0 = Some (w1, 8)" "writer_for T_image [(T_imageFlags, replicate 8 0)] w1" by auto
  have "image_for \<lparr>iw_writer = w1, flagsOffset = Some 8\<rparr> 0 []" using w1(2) zero by (simp add: image_for_def)
  from update_flags_ok [OF this, of f] w0(1) w1(1) show ?thesis
    by (simp add: update_flags_def writer_getFlags_def ImageWriter_new_def)
qed

lemma mark_read_only_ok:
  assumes "image_for iw fl as"
  shows "\<exists>iw'. mark_read_only segs iw = Some iw'
    \<and> image_for iw' (if \<exists>seg\<in>set segs. (ucast (drop_bit 60 seg) :: 3 word) = 2 then flag_bit 44 True fl else fl) as"
  using assms
proof (induction segs arbitrary: iw fl)
  case (Cons seg segs)
  have twice: "flag_bit 44 True (flag_bit 44 True fl) = flag_bit 44 True fl" by (simp add: flag_bit_def or.assoc)
  show ?case
  proof (cases "(ucast (drop_bit 60 seg) :: 3 word) = 2")
    case True
    obtain iw1 where "update_flags (flag_bit 44 True) iw = Some iw1" "image_for iw1 (flag_bit 44 True fl) as"
      using update_flags_ok [OF Cons.prems] by blast
    with True Cons.IH [of iw1 "flag_bit 44 True fl"] show ?thesis by (auto simp: twice split: if_splits)
  next
    case False
    with Cons show ?thesis by simp
  qed
qed simp

text \<open>What a caller has to respect: fixed sizes, a non-empty list where the code takes the address of its first element, and the flags there are.\<close>

fun call_ok :: "ImageCall \<Rightarrow> bool" where
  "call_ok (SetUUID u) \<longleftrightarrow> length u = 16"
| "call_ok (AddCDHash h) \<longleftrightarrow> length h = 20"
| "call_ok (SetDofOffsets offs) \<longleftrightarrow> offs \<noteq> []"
| "call_ok (SetFlag k v) \<longleftrightarrow> k \<in> {29, 30, 31, 32, 34, 35, 38, 39, 40, 41, 42, 46} \<or> k \<in> {28, 47, 48} \<and> v"
| "call_ok c \<longleftrightarrow> True"

lemma flag_setter_ok: "call_ok (SetFlag k v) \<Longrightarrow> flag_setter k v = update_flags (flag_bit k v)"
  unfolding flag_setter_def setInvalid_def setUses16KPages_def setIs64_def setHasObjC_def setHasPlusLoads_def setHasWeakDefs_def
    setNeverUnload_def setIsBundle_def setIsDylib_def setIsExecutable_def setOverridableDylib_def setInDyldCache_def
    setHasPrecomputedObjC_def setFixupsNotEncoded_def setRebasesNotEncoded_def by auto

lemma addPath_ok:
  assumes iw: "image_for iw fl as" and ok: "\<forall>a\<in>set (call_attrs hash (AddPath path) fl). attr_ok a"
    and room: "12 + attrs_size (as @ call_attrs hash (AddPath path) fl) < 16 * 1024 * 1024"
  shows "\<exists>iw'. addPath hash path iw = Some iw' \<and> image_for iw' fl (as @ call_attrs hash (AddPath path) fl)"
proof -
  define n where "n = rounded_len path"
  have "length path < 16 * 1024 * 1024" using room by (simp add: path_cstring_def)
  then have n: "n = (length path + 4) div 4 * 4" "Suc (length path) \<le> n" by (auto simp: rounded_len_def n_def)
  have zeros: "image_for iw fl as" "attr_ok (T_pathWithHash, replicate (4 + n) 0)" "12 + attrs_size (as @ [(T_pathWithHash, replicate (4 + n) 0)]) < 16 * 1024 * 1024"
    using iw ok room n by (simp_all add: attr_ok_def path_cstring_def n_def [symmetric])
  obtain iw1 where iw1: "iw_append T_pathWithHash None (4 + n) iw = Some (iw1, 20 + attrs_size as)"
    "image_for iw1 fl (as @ [(T_pathWithHash, replicate (4 + n) 0)])"
    using iw_append_ok [OF zeros, of None] by auto
  from iw_write_ok [OF iw1(2), of 0 "le_bytes 4 (hash path)"] obtain iw2 where
    iw2: "iw_write (20 + attrs_size as) (le_bytes 4 (hash path)) iw1 = Some iw2"
    "image_for iw2 fl (as @ [(T_pathWithHash, le_bytes 4 (hash path) @ replicate n 0)])" by auto
  from iw_write_ok [OF iw2(2), of 4 "path_cstring path"] n(2) obtain iw3 where
    iw3: "iw_write (24 + attrs_size as) (path_cstring path) iw2 = Some iw3"
    "image_for iw3 fl (as @ [(T_pathWithHash, le_bytes 4 (hash path) @ path_cstring path @ replicate (n - Suc (length path)) 0)])"
    by (auto simp: path_cstring_def add.commute)
  show ?thesis using iw1(1) iw2(1) iw3 by (simp add: addPath_def n_def [symmetric])
qed

lemma length_objc_bytes: "length (objc_bytes f) = objc_total_size f"
  by (simp add: objc_bytes_def objc_total_size_def)

lemma setObjCFixupInfo_ok:
  assumes iw: "image_for iw fl as" and ok: "attr_ok (T_objcFixups, objc_bytes f)"
    and room: "12 + attrs_size (as @ [(T_objcFixups, objc_bytes f)]) < 16 * 1024 * 1024"
  shows "\<exists>iw'. setObjCFixupInfo f iw = Some iw' \<and> image_for iw' fl (as @ [(T_objcFixups, objc_bytes f)])"
proof -
  let ?n = "objc_total_size f"
  have zeros: "attr_ok (T_objcFixups, replicate ?n 0)" "12 + attrs_size (as @ [(T_objcFixups, replicate ?n 0)]) < 16 * 1024 * 1024"
    using ok room length_objc_bytes [of f] by (auto simp: attr_ok_def)
  obtain iw1 where iw1: "iw_append T_objcFixups None ?n iw = Some (iw1, 20 + attrs_size as)" "image_for iw1 fl (as @ [(T_objcFixups, replicate ?n 0)])"
    using iw_append_ok [OF iw zeros, of None] by auto
  from iw_write_ok [OF iw1(2), of 0 "objc_bytes f"] obtain iw2 where "iw_write (20 + attrs_size as) (objc_bytes f) iw1 = Some iw2"
    "image_for iw2 fl (as @ [(T_objcFixups, objc_bytes f)])" by (auto simp: length_objc_bytes)
  moreover have "?n mod 4 = 0" "?n mod 2 ^ 32 = ?n" using ok room by (simp_all add: attr_ok_def length_objc_bytes)
  ultimately show ?thesis using iw1(1) by (simp add: setObjCFixupInfo_def)
qed

lemmas plain_setters = setDependents_def setInitOffsets_def setInitSectRange_def setCachedSegments_def setCodeSignatureLocation_def
  setFairPlayEncryptionRange_def setFileInfo_def setRebaseInfo_def setTextRebaseInfo_def setBindInfo_def setInitsOrder_def

lemma image_call_ok:
  assumes iw: "image_for iw fl as" and c: "call_ok c" and ok: "\<forall>a\<in>set (call_attrs hash c fl). attr_ok a"
    and room: "12 + attrs_size (as @ call_attrs hash c fl) < 16 * 1024 * 1024"
  shows "\<exists>iw'. image_call hash c iw = Some iw' \<and> image_for iw' (call_flags c fl) (as @ call_attrs hash c fl)"
proof (cases c)
  case (SetFlag k v)
  then show ?thesis using flag_setter_ok [of k v] update_flags_ok [OF iw] c by simp
next
  case (AddPath path)
  then show ?thesis using addPath_ok [of iw fl as hash path] iw ok room by simp
next
  case (SetObjCFixupInfo f)
  then show ?thesis using setObjCFixupInfo_ok [of iw fl as f] iw ok room by simp
next
  case (SetDofOffsets offs)
  then show ?thesis using iw_append_bytes_ok [OF iw, of T_dofOffsets "words32 offs"] c ok room by (simp add: setDofOffsets_def)
next
  case (SetUUID u)
  then show ?thesis using iw_append_ok [OF iw, of T_uuid u "Some u"] c ok room by (auto simp: setUUID_def)
next
  case (AddCDHash h)
  then show ?thesis using iw_append_ok [OF iw, of T_cdHash h "Some h"] c ok room by (auto simp: addCDHash_def)
next
  case (SetTermOffsets offs)
  obtain iw1 where "update_flags (flag_bit 43 True) iw = Some iw1" "image_for iw1 (flag_bit 43 True fl) as" using update_flags_ok [OF iw] by blast
  then show ?thesis using iw_append_bytes_ok [of iw1 _ as T_termOffsets "words32 offs"] SetTermOffsets ok room by (simp add: setTermOffsets_def)
next
  case (SetDiskSegments segs)
  obtain iw1 where "iw_append_bytes T_diskSegment (words64 segs) iw = Some iw1" "image_for iw1 fl (as @ [(T_diskSegment, words64 segs)])"
    using iw_append_bytes_ok [OF iw, of T_diskSegment "words64 segs"] SetDiskSegments ok room by auto
  then show ?thesis using mark_read_only_ok [of iw1 fl _ segs] SetDiskSegments by (simp add: setDiskSegments_def)
next
  case (SetChainedFixups off targets)
  obtain iw1 where iw1: "update_flags (flag_bit 45 True) iw = Some iw1" "image_for iw1 (flag_bit 45 True fl) as" using update_flags_ok [OF iw] by blast
  from iw_append_bytes_ok [OF this(2), of T_chainedStartsOffset "words64 [off]"] SetChainedFixups ok room obtain iw2 where
    iw2: "iw_append_bytes T_chainedStartsOffset (words64 [off]) iw1 = Some iw2"
    "image_for iw2 (flag_bit 45 True fl) (as @ [(T_chainedStartsOffset, words64 [off])])" by auto
  from iw_append_bytes_ok [OF this(2), of T_chainedFixupsTargets "words64 targets"] iw1(1) iw2(1) SetChainedFixups ok room
  show ?thesis by (simp add: setChainedFixups_def)
next
  case (SetAsOverrideOf num)
  obtain iw1 where "iw_append_bytes T_imageOverride (words32 [num]) iw = Some iw1" "image_for iw1 fl (as @ [(T_imageOverride, words32 [num])])"
    using iw_append_bytes_ok [OF iw, of T_imageOverride "words32 [num]"] SetAsOverrideOf ok room by auto
  then show ?thesis using update_flags_ok [of iw1] SetAsOverrideOf by (simp add: setAsOverrideOf_def)
next
  case (SetMappingInfo sl vm)
  have "flagsOffset iw = Some 8" using iw by (simp add: image_for_def)
  then show ?thesis using iw_append_bytes_ok [OF iw, of T_mappingInfo] image_for_flags [OF iw] SetMappingInfo ok room
    by (simp add: setMappingInfo_def writer_getFlags_def Let_def)
qed (use iw ok room update_flags_ok [OF iw] iw_append_bytes_ok [OF iw] in \<open>simp_all add: setImageNum_def plain_setters\<close>)

lemma calls_image_extends: "calls_image hash cs (fl, as) = (fl', as') \<Longrightarrow> \<exists>bs. as' = as @ bs"
  by (induction cs arbitrary: fl as) fastforce+

lemma image_calls_ok:
  assumes "image_for iw fl as" and "\<forall>c\<in>set cs. call_ok c" and "calls_image hash cs (fl, as) = (fl', as')"
    and "\<forall>a\<in>set as'. attr_ok a" and "12 + attrs_size as' < 16 * 1024 * 1024"
  shows "\<exists>iw'. image_calls hash cs iw = Some iw' \<and> image_for iw' fl' as'"
  using assms(1-3)
proof (induction cs arbitrary: iw fl as)
  case (Cons c cs)
  from Cons.prems(3) have rest: "calls_image hash cs (call_flags c fl, as @ call_attrs hash c fl) = (fl', as')" by simp
  then obtain bs where "as' = (as @ call_attrs hash c fl) @ bs" using calls_image_extends by blast
  with assms(4,5) have "\<forall>a\<in>set (call_attrs hash c fl). attr_ok a" "12 + attrs_size (as @ call_attrs hash c fl) < 16 * 1024 * 1024" by auto
  with image_call_ok [OF Cons.prems(1)] Cons.prems(2) obtain iw1 where
    "image_call hash c iw = Some iw1" "image_for iw1 (call_flags c fl) (as @ call_attrs hash c fl)" by (meson list.set_intros(1))
  with Cons.IH [OF this(2) _ rest] Cons.prems(2) show ?case by simp
qed simp

lemma image_for_container:
  assumes "image_for iw fl as"
  shows "container_at (w_mem (iw_writer iw)) 0 T_image ((T_imageFlags, le_bytes 8 fl) # as)" "image_flags (w_mem (iw_writer iw)) 0 = fl"
  using assms image_for_flags [OF assms] by (auto simp: image_for_def writer_for_def image_flags_def)

lemma image_finalized: "image_for iw fl as \<Longrightarrow> fst (finalizeContainer pageShift (iw_writer iw)) = w_mem (iw_writer iw)"
  by (auto simp: image_for_def dest: finalized)

lemma image_from_new:
  assumes "\<forall>c\<in>set cs. call_ok c" and "calls_image hash (SetImageNum n # cs) (0, []) = (fl, as)"
    and "\<forall>a\<in>set as. attr_ok a" and "12 + attrs_size as < 16 * 1024 * 1024"
  shows "\<exists>iw. image_calls hash (SetImageNum n # cs) ImageWriter_new = Some iw \<and> image_for iw fl as"
proof -
  have "call_flags (SetImageNum n) = (\<lambda>fl. (fl AND NOT 0xFFFF) OR (ucast n AND 0xFFFF))" by (rule ext) (rule call_flags.simps)
  then have "setImageNum n = update_flags (call_flags (SetImageNum n))" by (simp only: setImageNum_def)
  then obtain iw where "setImageNum n ImageWriter_new = Some iw" "image_for iw (call_flags (SetImageNum n) 0) []"
    using first_update [of "call_flags (SetImageNum n)"] by auto
  with image_calls_ok [OF this(2) assms(1) _ assms(3,4), of hash fl] assms(2) show ?thesis by simp
qed

text \<open>
  C5: an image writer implements its abstract meaning. Whatever methods are called after \<open>setImageNum\<close>, in any order and
  any number, with arguments of the right size and less than 16 MB in all, the writer returns (no write left its buffer, no
  assertion failed), the finished bytes are an image whose flags word has exactly the fields that were last set, and whose attributes are, in
  order, exactly the ones the calls stand for.
\<close>

theorem image_writer_refines:
  assumes "\<forall>c\<in>set cs. call_ok c" and "calls_image hash (SetImageNum n # cs) (0, []) = (fl, as)"
    and "\<forall>a\<in>set as. attr_ok a" and "12 + attrs_size as < 16 * 1024 * 1024"
  shows "\<exists>iw. image_calls hash (SetImageNum n # cs) ImageWriter_new = Some iw
    \<and> (let m = fst (finalizeContainer pageShift (iw_writer iw)) in
       image_flags m 0 = fl
       \<and> forEachAttribute m 0 (\<lambda>acc p. Some (acc @ [attribute_of m p], False)) [] = Some ((T_imageFlags, le_bytes 8 fl) # as))"
  using image_from_new [OF assms] image_for_container forEachAttribute_collect image_finalized
  by (fastforce simp: Let_def)

theorem image_writer_refines_witness:
  "\<exists>iw. image_calls (\<lambda>_. 77) [SetImageNum 0x1001, SetFlag 30 True, SetUUID (replicate 16 5), AddPath ''/a'', SetTermOffsets [0x10]] ImageWriter_new = Some iw
    \<and> (let m = fst (finalizeContainer 12 (iw_writer iw)) in
       image_flags m 0 = 0x80040001001
       \<and> forEachAttribute m 0 (\<lambda>acc p. Some (acc @ [attribute_of m p], False)) [] =
         Some [(T_imageFlags, le_bytes 8 (0x80040001001 :: u64)), (T_uuid, replicate 16 5),
           (T_pathWithHash, [77, 0, 0, 0, 0x2F, 0x61, 0, 0]), (T_termOffsets, [0x10, 0, 0, 0])])"
proof -
  let ?cs = "[SetFlag 30 True, SetUUID (replicate 16 5), AddPath ''/a'', SetTermOffsets [0x10]]"
  have "calls_image (\<lambda>_. 77) (SetImageNum 0x1001 # ?cs) (0, [])
      = (0x80040001001, [(T_uuid, replicate 16 5), (T_pathWithHash, [77, 0, 0, 0, 0x2F, 0x61, 0, 0]), (T_termOffsets, [0x10, 0, 0, 0])])"
    by (simp add: flag_bit_def path_cstring_def words32_def le_bytes_def rounded_len_def upt_rec)
  from image_writer_refines [OF _ this, of 12] show ?thesis by (simp add: attr_ok_def)
qed

section \<open>Reading back arrays of fixups\<close>

lemma payload_array_ok:
  assumes c: "container_at m this t as" and at: "map_of as ty = Some (concat (map f xs))"
    and f: "\<And>x. length (f x) = k" "0 < k" and el: "\<And>x p. bytes_at m p (f x) \<Longrightarrow> element p = g x"
  shows "payload_array m this ty k element = Some (map g xs)"
  using c
proof (cases rule: findAttributePayload_cases [where ty = ty])
  case (found q bs)
  with at have "bytes_at m q (concat (map f xs))" "length bs = k * length xs" by (simp_all add: bytes_at_def length_concat_map [OF f(1)])
  with found(1) f(2) array_of_bytes [of m q f xs k element g, OF _ f(1) el] show ?thesis by (simp add: payload_array_def)
qed (simp add: at)

lemma rebaseFixups_ok:
  assumes "container_at m this t as" and "map_of as T_rebaseFixups = Some (words32 (map rebase_word pats))"
  shows "rebaseFixups m this = Some pats"
  using payload_array_ok [OF assms(1), of T_rebaseFixups "\<lambda>pat. le_bytes 4 (rebase_word pat)" pats 4 "\<lambda>q. rebase_of_word (read32 m q)" id]
    assms(2) by (simp add: rebaseFixups_def words32_def o_def read_bytes_at)

lemma bindFixups_ok:
  assumes "container_at m this t as" and "map_of as T_bindFixups = Some (words64 (concat (map bind_words pats)))"
  shows "bindFixups m this = Some pats"
proof -
  let ?f = "\<lambda>pat. words64 (bind_words pat)"
  have "words64 (concat (map bind_words pats)) = concat (map ?f pats)" by (induction pats) (simp_all add: words64_def)
  moreover have "bind_of_words (read64 m p) (read64 m (p + 8)) = pat" if "bytes_at m p (?f pat)" for pat p
    using that bind_of_bind_words [of pat] by (auto simp: words64_def bind_words_def bytes_at_append dest!: read_bytes_at)
  ultimately show ?thesis
    using payload_array_ok [OF assms(1), of T_bindFixups ?f pats 16 "\<lambda>q. bind_of_words (read64 m q) (read64 m (q + 8))" id] assms(2)
    by (simp add: bindFixups_def bind_words_def)
qed

lemma textFixups_ok:
  assumes "container_at m this t as" and "map_of as T_textFixups = Some (concat (map text_fixup_bytes pats))"
  shows "textFixups m this = Some pats"
proof -
  let ?el = "\<lambda>q. \<lparr>tp_target = read64 m q, tp_startVmOffset = read32 m (q + 8), tp_repeatCount = read16 m (q + 12), tp_skipCount = read16 m (q + 14)\<rparr>"
  have "?el p = pat" if "bytes_at m p (text_fixup_bytes pat)" for pat p
    using that by (auto simp: text_fixup_bytes_def bytes_at_append add.commute dest!: read_bytes_at)
  then show ?thesis using payload_array_ok [OF assms, of 16 ?el id] by (simp add: textFixups_def text_fixup_bytes_def)
qed

lemma chainedTargets_ok:
  assumes "container_at m this t as" and "map_of as T_chainedFixupsTargets = Some (words64 targets)"
  shows "chainedTargets m this = Some targets"
  using payload_array_ok [OF assms(1), of T_chainedFixupsTargets "le_bytes 8" targets 8 "read64 m" id] assms(2)
  by (simp add: chainedTargets_def words64_def read_bytes_at)

lemma fixup_array_ok: "bytes_at m q (words64 (map fixup_word pats)) \<Longrightarrow> fixup_array m q (length pats) = pats"
  using array_of_bytes [of m q "\<lambda>pat. le_bytes 8 (fixup_word pat)" pats 8 "\<lambda>q. fixup_of_word (read64 m q)" id]
  by (simp add: fixup_array_def words64_def o_def read_bytes_at)

lemma selref_array_ok: "bytes_at m q (words32 ws) \<Longrightarrow> map (\<lambda>i. read32 m (q + 4 * i)) [0 ..< length ws] = ws"
  using array_of_bytes [of m q "le_bytes 4" ws 4 "read32 m" id] by (simp add: words32_def read_bytes_at)

lemma objcFixups_ok:
  assumes c: "container_at m this t as" and at: "map_of as T_objcFixups = Some (objc_bytes f)" and flag: "bit (image_flags m this) 46"
    and small: "objc_total_size f < 2 ^ 32"
  shows "objcFixups m this = Some (Some f)"
  using c
proof (cases rule: findAttributePayload_cases [where ty = T_objcFixups])
  case (found q bs)
  let ?a = "length (of_protocols f)" and ?b = "length (of_selRefs f)" and ?c = "length (of_stableSwift f)" and ?d = "length (of_methodLists f)"
  have b: "bytes_at m q (objc_bytes f)" "length bs = objc_total_size f"
    using found(2,3) at by (auto simp: bytes_at_def length_objc_bytes)
  have n: "unat (of_nat k :: u32) = k" if "k \<le> objc_total_size f" for k
    using that small by (intro unat_of_nat_u32) simp
  have le: "?a \<le> objc_total_size f" "?b \<le> objc_total_size f" "?c \<le> objc_total_size f" "?d \<le> objc_total_size f"
    by (simp_all add: objc_total_size_def)
  let ?p2 = "q + 24 + 8 * ?a + 4 * ?b"
  have B: "bytes_at m q (le_bytes 8 (objcProtocolClassTarget f))" "bytes_at m (q + 8) (le_bytes 8 (objcImageInfoVMOffset f))"
    "bytes_at m (q + 16) (le_bytes 4 (of_nat ?a :: u32))" "bytes_at m (q + 20) (le_bytes 4 (of_nat ?b :: u32))"
    "bytes_at m (q + 24) (words64 (map fixup_word (of_protocols f)))" "bytes_at m (q + 24 + 8 * ?a) (words32 (of_selRefs f))"
    "bytes_at m ?p2 (le_bytes 4 (of_nat ?c :: u32))" "bytes_at m (?p2 + 4) (le_bytes 4 (of_nat ?d :: u32))"
    "bytes_at m (?p2 + 8) (words64 (map fixup_word (of_stableSwift f)))" "bytes_at m (?p2 + 8 + 8 * ?c) (words64 (map fixup_word (of_methodLists f)))"
    using b(1) by (simp_all add: objc_bytes_def bytes_at_append add.assoc)
  note parts = B(1,2) [THEN read_bytes_at(1)] B(3,4,7,8) [THEN read_bytes_at(2)] B(5,9,10) [THEN fixup_array_ok] B(6) [THEN selref_array_ok]
    n [OF le(1)] n [OF le(2)] n [OF le(3)] n [OF le(4)]
  have "q + 24 + 8 * ?a + 4 * ?b \<noteq> q + objc_total_size f" by (simp add: objc_total_size_def)
  then show ?thesis unfolding objcFixups_def found(1) b(2) using flag parts by (simp add: Let_def)
qed (simp add: at)

text \<open>A sequence of calls whose attributes fit into a container.\<close>

definition image_fits :: "(string \<Rightarrow> u32) \<Rightarrow> ImageCall list \<Rightarrow> bool" where
  "image_fits hash cs \<longleftrightarrow> (\<forall>a\<in>set (snd (calls_image hash cs (0, []))). attr_ok a) \<and> 12 + attrs_size (snd (calls_image hash cs (0, []))) < 16 * 1024 * 1024"

lemma image_fits_ok:
  assumes "\<forall>c\<in>set cs. call_ok c" and "image_fits hash (SetImageNum n # cs)"
  shows "\<exists>iw. image_calls hash (SetImageNum n # cs) ImageWriter_new = Some iw
    \<and> image_for iw (fst (calls_image hash (SetImageNum n # cs) (0, []))) (snd (calls_image hash (SetImageNum n # cs) (0, [])))"
proof (rule image_from_new [OF assms(1)])
  show "calls_image hash (SetImageNum n # cs) (0, [])
      = (fst (calls_image hash (SetImageNum n # cs) (0, [])), snd (calls_image hash (SetImageNum n # cs) (0, [])))" by (rule prod.collapse [symmetric])
qed (use assms(2) [unfolded image_fits_def] in blast)+

lemma fixups_written_and_read:
  assumes fits: "image_fits hash [SetImageNum n, SetFlag 30 wide, SetFlag 46 True, SetRebaseInfo rb, SetBindInfo bb, SetObjCFixupInfo f]"
  shows "\<exists>iw. image_calls hash [SetImageNum n, SetFlag 30 wide, SetFlag 46 True, SetRebaseInfo rb, SetBindInfo bb, SetObjCFixupInfo f]
       ImageWriter_new = Some iw
    \<and> (let m = fst (finalizeContainer pageShift (iw_writer iw)) in
       rebaseFixups m 0 = Some rb \<and> bindFixups m 0 = Some bb \<and> objcFixups m 0 = Some (Some f)
       \<and> (image_is64 m 0 \<longleftrightarrow> wide) \<and> \<not> image_hasChainedFixups m 0 \<and> image_hasPrecomputedObjC m 0)"
proof -
  let ?cs = "[SetFlag 30 wide, SetFlag 46 True, SetRebaseInfo rb, SetBindInfo bb, SetObjCFixupInfo f]"
  have img: "snd (calls_image hash (SetImageNum n # ?cs) (0, [])) =
      [(T_rebaseFixups, words32 (map rebase_word rb)), (T_bindFixups, words64 (concat (map bind_words bb))), (T_objcFixups, objc_bytes f)]" by simp
  obtain iw fl where iw: "image_calls hash (SetImageNum n # ?cs) ImageWriter_new = Some iw" "fl = fst (calls_image hash (SetImageNum n # ?cs) (0, []))"
    "image_for iw fl [(T_rebaseFixups, words32 (map rebase_word rb)), (T_bindFixups, words64 (concat (map bind_words bb))), (T_objcFixups, objc_bytes f)]"
    using image_fits_ok [of ?cs hash n] fits unfolding img by auto
  note c = image_for_container [OF iw(3)]
  have "bit fl 30 = wide" "\<not> bit fl 45" "bit fl 46"
    unfolding iw(2) by (simp_all add: flag_bit_def bit_simps)
  note flags = this
  have "objc_total_size f < 2 ^ 32" using fits unfolding image_fits_def img by (simp add: length_objc_bytes)
  then have "objcFixups (w_mem (iw_writer iw)) 0 = Some (Some f)" using objcFixups_ok [OF c(1)] c(2) flags(3) by simp
  moreover have "rebaseFixups (w_mem (iw_writer iw)) 0 = Some rb" "bindFixups (w_mem (iw_writer iw)) 0 = Some bb"
    using rebaseFixups_ok [OF c(1)] bindFixups_ok [OF c(1)] by simp_all
  ultimately show ?thesis
    using iw(1) c(2) flags image_finalized [OF iw(3)]
    by (simp add: image_is64_def image_hasChainedFixups_def image_hasPrecomputedObjC_def Let_def)
qed

end
