(* ===== verification/Launch_Closure.thy ===== *)
theory Launch_Closure
  imports Closure_Writer
begin

text \<open>
  The attributes of a closure itself: \<open>ClosureWriter\<close>, \<open>LaunchClosureWriter\<close> and \<open>DlopenClosureWriter\<close> of
  \<open>src/dyld3/ClosureWriter.cpp\<close>, and the accessors of \<open>Closure\<close> and \<open>LaunchClosure\<close> in \<open>src/dyld3/Closure.cpp\<close>. A C string is the
  list of its bytes without the final NUL; \<open>limit\<close> is the end of the mapped memory, past which a \<open>strlen\<close>
  faults. Walks that pass each element to a handler are the list of the elements.
\<close>

abbreviation T_launchClosure :: u8 where "T_launchClosure \<equiv> 1"
abbreviation T_imageArray :: u8 where "T_imageArray \<equiv> 2"
abbreviation T_dlopenClosure :: u8 where "T_dlopenClosure \<equiv> 4"
abbreviation T_closureFlags :: u8 where "T_closureFlags \<equiv> 32"
abbreviation T_dyldCacheUUID :: u8 where "T_dyldCacheUUID \<equiv> 33"
abbreviation T_missingFiles :: u8 where "T_missingFiles \<equiv> 34"
abbreviation T_envVar :: u8 where "T_envVar \<equiv> 35"
abbreviation T_topImage :: u8 where "T_topImage \<equiv> 36"
abbreviation T_libDyldEntry :: u8 where "T_libDyldEntry \<equiv> 37"
abbreviation T_libSystemNum :: u8 where "T_libSystemNum \<equiv> 38"
abbreviation T_mainEntry :: u8 where "T_mainEntry \<equiv> 40"
abbreviation T_startEntry :: u8 where "T_startEntry \<equiv> 41"
abbreviation T_cacheOverrides :: u8 where "T_cacheOverrides \<equiv> 42"
abbreviation T_interposeTuples :: u8 where "T_interposeTuples \<equiv> 43"
abbreviation T_existingFiles :: u8 where "T_existingFiles \<equiv> 44"
abbreviation T_selectorTable :: u8 where "T_selectorTable \<equiv> 45"
abbreviation T_classTable :: u8 where "T_classTable \<equiv> 46"
abbreviation T_warning :: u8 where "T_warning \<equiv> 47"
abbreviation T_duplicateClassesTable :: u8 where "T_duplicateClassesTable \<equiv> 48"
abbreviation T_progVars :: u8 where "T_progVars \<equiv> 49"

section \<open>Writing a closure\<close>

record ClosureWriter =
  cw_writer :: Writer
  cw_flagsOffset :: "nat option"

definition cw_append :: "u8 \<Rightarrow> u8 list option \<Rightarrow> nat \<Rightarrow> ClosureWriter \<Rightarrow> (ClosureWriter \<times> nat) option" where
  "cw_append t pl n cw = map_option (\<lambda>(w, p). (cw\<lparr>cw_writer := w\<rparr>, p)) (append_tb t pl n (cw_writer cw))"

definition cw_append_bytes :: "u8 \<Rightarrow> u8 list \<Rightarrow> ClosureWriter \<Rightarrow> ClosureWriter option" where
  "cw_append_bytes t bs cw = map_option fst (cw_append t (Some bs) (length bs mod 2 ^ 32) cw)"

definition cw_write :: "nat \<Rightarrow> u8 list \<Rightarrow> ClosureWriter \<Rightarrow> ClosureWriter option" where
  "cw_write p bs cw = map_option (\<lambda>w. cw\<lparr>cw_writer := w\<rparr>) (write_at p bs (cw_writer cw))"

text \<open>Reserve an attribute of \<open>n\<close> bytes and fill its beginning.\<close>

definition cw_fill :: "u8 \<Rightarrow> nat \<Rightarrow> u8 list \<Rightarrow> ClosureWriter \<Rightarrow> ClosureWriter option" where
  "cw_fill t n bs cw = Option.bind (cw_append t None n cw) (\<lambda>(cw, p). cw_write p bs cw)"

definition align4 :: "nat \<Rightarrow> nat" where
  "align4 n = (n + 3) div 4 * 4 mod 2 ^ 32"

text \<open>The constructors copy the payload of an image array.\<close>

definition closure_writer :: "u8 \<Rightarrow> u8 list \<Rightarrow> ClosureWriter option" where
  "closure_writer t images =
     Option.bind (setContainerType t Writer_new) (\<lambda>w. cw_append_bytes T_imageArray images \<lparr>cw_writer = w, cw_flagsOffset = None\<rparr>)"

definition LaunchClosureWriter :: "u8 list \<Rightarrow> ClosureWriter option" where
  "LaunchClosureWriter images = closure_writer T_launchClosure images"

definition DlopenClosureWriter :: "u8 list \<Rightarrow> ClosureWriter option" where
  "DlopenClosureWriter images = closure_writer T_dlopenClosure images"

definition setTopImageNum :: "u32 \<Rightarrow> ClosureWriter \<Rightarrow> ClosureWriter option" where
  "setTopImageNum num = cw_append_bytes T_topImage (words32 [num])"

text \<open>A patch entry is an image number, an offset and a target.\<close>

definition patch_bytes :: "u32 \<times> u32 \<times> u64 \<Rightarrow> u8 list" where
  "patch_bytes e = (case e of (num, off, target) \<Rightarrow> le_bytes 4 num @ le_bytes 4 off @ le_bytes 8 target)"

definition addCachePatches :: "(u32 \<times> u32 \<times> u64) list \<Rightarrow> ClosureWriter \<Rightarrow> ClosureWriter option" where
  "addCachePatches patches = cw_append_bytes T_cacheOverrides (concat (map patch_bytes patches))"

definition addWarning :: "u32 \<Rightarrow> u8 list \<Rightarrow> ClosureWriter \<Rightarrow> ClosureWriter option" where
  "addWarning warningType msg = cw_fill T_warning (4 + align4 (length msg + 1)) (le_bytes 4 warningType @ msg @ [0])"

definition setLibSystemImageNum :: "u32 \<Rightarrow> ClosureWriter \<Rightarrow> ClosureWriter option" where
  "setLibSystemImageNum num = cw_append_bytes T_libSystemNum (words32 [num])"

definition setLibDyldEntry :: "u64 \<Rightarrow> ClosureWriter \<Rightarrow> ClosureWriter option" where
  "setLibDyldEntry entry = cw_append_bytes T_libDyldEntry (words64 [entry])"

definition setMainEntry :: "u64 \<Rightarrow> ClosureWriter \<Rightarrow> ClosureWriter option" where
  "setMainEntry entry = cw_append_bytes T_mainEntry (words64 [entry])"

definition setStartEntry :: "u64 \<Rightarrow> ClosureWriter \<Rightarrow> ClosureWriter option" where
  "setStartEntry entry = cw_append_bytes T_startEntry (words64 [entry])"

definition closure_getFlags :: "ClosureWriter \<Rightarrow> (ClosureWriter \<times> nat) option" where
  "closure_getFlags cw =
     (case cw_flagsOffset cw of
        Some off \<Rightarrow> Some (cw, off)
      | None \<Rightarrow>
          Option.bind (cw_append T_closureFlags (Some (replicate 4 0)) 4 cw) (\<lambda>(cw, p). Some (cw\<lparr>cw_flagsOffset := Some p\<rparr>, p)))"

definition update_closure_flags :: "(u32 \<Rightarrow> u32) \<Rightarrow> ClosureWriter \<Rightarrow> ClosureWriter option" where
  "update_closure_flags f cw =
     Option.bind (closure_getFlags cw) (\<lambda>(cw, off). cw_write off (le_bytes 4 (f (read32 (w_mem (cw_writer cw)) off))) cw)"

definition flag_bit32 :: "nat \<Rightarrow> bool \<Rightarrow> u32 \<Rightarrow> u32" where
  "flag_bit32 k v fl = (if v then fl OR push_bit k 1 else fl AND NOT (push_bit k 1))"

definition setUsedAtPaths :: "bool \<Rightarrow> ClosureWriter \<Rightarrow> ClosureWriter option" where
  "setUsedAtPaths v = update_closure_flags (flag_bit32 0 v)"

definition setUsedFallbackPaths :: "bool \<Rightarrow> ClosureWriter \<Rightarrow> ClosureWriter option" where
  "setUsedFallbackPaths v = update_closure_flags (flag_bit32 1 v)"

text \<open>A 16-bit field: a larger count is truncated.\<close>

definition init_count :: "u32 \<Rightarrow> u32 \<Rightarrow> u32" where
  "init_count count fl = (fl AND NOT (push_bit 2 0xFFFF)) OR push_bit 2 (count AND 0xFFFF)"

definition setInitImageCount :: "u32 \<Rightarrow> ClosureWriter \<Rightarrow> ClosureWriter option" where
  "setInitImageCount count = update_closure_flags (init_count count)"

definition setHasInsertedLibraries :: "bool \<Rightarrow> ClosureWriter \<Rightarrow> ClosureWriter option" where
  "setHasInsertedLibraries v = update_closure_flags (flag_bit32 18 v)"

definition setUsedInterposing :: "bool \<Rightarrow> ClosureWriter \<Rightarrow> ClosureWriter option" where
  "setUsedInterposing v = update_closure_flags (flag_bit32 20 v)"

definition path_list :: "u8 list list \<Rightarrow> u8 list" where
  "path_list paths = concat (map (\<lambda>path. path @ [0]) paths)"

definition setMustBeMissingFiles :: "u8 list list \<Rightarrow> ClosureWriter \<Rightarrow> ClosureWriter option" where
  "setMustBeMissingFiles paths =
     (let totalSize = align4 (length (path_list paths) mod 2 ^ 32) in
      cw_fill T_missingFiles totalSize (path_list paths @ replicate (totalSize - length (path_list paths)) 0))"

text \<open>A skipped file is its path, inode and modification time.\<close>

definition existing_bytes :: "(u8 list \<times> u64 \<times> u64) list \<Rightarrow> u8 list" where
  "existing_bytes files =
     le_bytes 8 (of_nat (length files) :: u64) @ words64 (concat (map (\<lambda>(path, inode, mtime). [inode, mtime]) files)) @ path_list (map fst files)"

definition setMustExistFiles :: "(u8 list \<times> u64 \<times> u64) list \<Rightarrow> ClosureWriter \<Rightarrow> ClosureWriter option" where
  "setMustExistFiles files =
     (let totalSize = align4 (length (existing_bytes files) mod 2 ^ 32) in
      cw_fill T_existingFiles totalSize (existing_bytes files @ replicate (totalSize - length (existing_bytes files)) 0))"

definition addEnvVar :: "u8 list \<Rightarrow> ClosureWriter \<Rightarrow> ClosureWriter option" where
  "addEnvVar envVar = cw_append_bytes T_envVar (envVar @ [0] @ replicate ((4 - (length envVar + 1) mod 4) mod 4) 0)"

definition addInterposingTuples :: "(u64 \<times> u64) list \<Rightarrow> ClosureWriter \<Rightarrow> ClosureWriter option" where
  "addInterposingTuples tuples = cw_append_bytes T_interposeTuples (words64 (concat (map (\<lambda>(stock, new). [stock, new]) tuples)))"

definition setDyldCacheUUID :: "u8 list \<Rightarrow> ClosureWriter \<Rightarrow> ClosureWriter option" where
  "setDyldCacheUUID uuid cw = map_option fst (cw_append T_dyldCacheUUID (Some uuid) 16 cw)"

definition setHasProgramVars :: "u32 \<Rightarrow> ClosureWriter \<Rightarrow> ClosureWriter option" where
  "setHasProgramVars offset cw = Option.bind (update_closure_flags (flag_bit32 19 True) cw) (cw_append_bytes T_progVars (words32 [offset]))"

text \<open>An image of a selector table is two words, an image of a class table three, of 32 bits.\<close>

definition setObjCSelectorInfo :: "u8 list \<Rightarrow> u8 list list \<Rightarrow> ClosureWriter \<Rightarrow> ClosureWriter option" where
  "setObjCSelectorInfo hashTable images =
     cw_fill T_selectorTable (align4 ((4 + length (concat images) + length hashTable) mod 2 ^ 32))
       (le_bytes 4 (of_nat (length images) :: u32) @ concat images @ hashTable)"

definition setObjCDuplicateClassesInfo :: "u8 list \<Rightarrow> ClosureWriter \<Rightarrow> ClosureWriter option" where
  "setObjCDuplicateClassesInfo hashTable = cw_fill T_duplicateClassesTable (align4 (length hashTable mod 2 ^ 32)) hashTable"

definition pad4 :: "u8 list \<Rightarrow> u8 list" where
  "pad4 bs = bs @ replicate ((length bs + 3) div 4 * 4 - length bs) 0"

definition setObjCClassAndProtocolInfo :: "u8 list \<Rightarrow> u8 list \<Rightarrow> u8 list list \<Rightarrow> ClosureWriter \<Rightarrow> ClosureWriter option" where
  "setObjCClassAndProtocolInfo classHashTable protocolHashTable images =
     (let headerSize = 12; imagesSize = length (concat images); classTableSize = length (pad4 classHashTable); protocolTableSize = length (pad4 protocolHashTable);
          offsetToClassTable = (if classTableSize = 0 then 0 else headerSize + imagesSize);
          offsetToProtocolTable = (if protocolTableSize = 0 then 0 else headerSize + imagesSize + classTableSize) in
      cw_fill T_classTable (headerSize + imagesSize + classTableSize + protocolTableSize)
        (le_bytes 4 (of_nat offsetToClassTable :: u32) @ le_bytes 4 (of_nat offsetToProtocolTable :: u32) @ le_bytes 4 (of_nat (length images) :: u32)
         @ concat images @ pad4 classHashTable @ pad4 protocolHashTable))"

section \<open>Reading a closure\<close>

definition images_of :: "memory \<Rightarrow> nat \<Rightarrow> nat option option" where
  "images_of m this = forEachAttribute m this (\<lambda>r p. if tb_type m p = T_imageArray then Some (Some p, True) else Some (r, False)) None"

text \<open>A required attribute of one size; \<open>None\<close> is a failed assertion.\<close>

definition required_payload :: "memory \<Rightarrow> nat \<Rightarrow> u8 \<Rightarrow> nat \<Rightarrow> nat option" where
  "required_payload m this ty n =
     (case findAttributePayload m this ty of Some (Some (q, k)) \<Rightarrow> if k = n then Some q else None | _ \<Rightarrow> None)"

definition optional_payload :: "memory \<Rightarrow> nat \<Rightarrow> u8 \<Rightarrow> nat \<Rightarrow> nat option option" where
  "optional_payload m this ty n =
     (case findAttributePayload m this ty of
        None \<Rightarrow> None | Some None \<Rightarrow> Some None | Some (Some (q, k)) \<Rightarrow> if k = n then Some (Some q) else None)"

definition topImageNum :: "memory \<Rightarrow> nat \<Rightarrow> u32 option" where
  "topImageNum m this = map_option (read32 m) (required_payload m this T_topImage 4)"

definition libSystemImageNum :: "memory \<Rightarrow> nat \<Rightarrow> u32 option" where
  "libSystemImageNum m this = map_option (read32 m) (required_payload m this T_libSystemNum 4)"

definition libDyldEntry :: "memory \<Rightarrow> nat \<Rightarrow> u64 option" where
  "libDyldEntry m this = map_option (read64 m) (required_payload m this T_libDyldEntry 8)"

definition mainEntry :: "memory \<Rightarrow> nat \<Rightarrow> u64 option option" where
  "mainEntry m this = map_option (map_option (read64 m)) (optional_payload m this T_mainEntry 8)"

definition startEntry :: "memory \<Rightarrow> nat \<Rightarrow> u64 option option" where
  "startEntry m this = map_option (map_option (read64 m)) (optional_payload m this T_startEntry 8)"

definition builtAgainstDyldCache :: "memory \<Rightarrow> nat \<Rightarrow> u8 list option option" where
  "builtAgainstDyldCache m this = map_option (map_option (\<lambda>q. map m [q ..< q + 16])) (optional_payload m this T_dyldCacheUUID 16)"

definition closure_flags :: "memory \<Rightarrow> nat \<Rightarrow> u32 option" where
  "closure_flags m this = (case findAttributePayload m this T_closureFlags of Some (Some (q, n)) \<Rightarrow> Some (read32 m q) | _ \<Rightarrow> None)"

definition usedAtPaths :: "memory \<Rightarrow> nat \<Rightarrow> bool option" where
  "usedAtPaths m this = map_option (\<lambda>fl. bit fl 0) (closure_flags m this)"

definition usedFallbackPaths :: "memory \<Rightarrow> nat \<Rightarrow> bool option" where
  "usedFallbackPaths m this = map_option (\<lambda>fl. bit fl 1) (closure_flags m this)"

definition initialLoadCount :: "memory \<Rightarrow> nat \<Rightarrow> u32 option" where
  "initialLoadCount m this = map_option (\<lambda>fl. drop_bit 2 fl AND 0xFFFF) (closure_flags m this)"

definition hasInsertedLibraries :: "memory \<Rightarrow> nat \<Rightarrow> bool option" where
  "hasInsertedLibraries m this = map_option (\<lambda>fl. bit fl 18) (closure_flags m this)"

definition usedInterposing :: "memory \<Rightarrow> nat \<Rightarrow> bool option" where
  "usedInterposing m this = map_option (\<lambda>fl. bit fl 20) (closure_flags m this)"

definition hasProgramVars :: "memory \<Rightarrow> nat \<Rightarrow> u32 option option" where
  "hasProgramVars m this =
     Option.bind (closure_flags m this) (\<lambda>fl.
       if \<not> bit fl 19 then Some None
       else map_option (map_option (\<lambda>(q, n). read32 m q)) (findAttributePayload m this T_progVars))"

text \<open>The elements of every payload of a type, one after the other; a size that is no multiple fails an assertion.\<close>

definition payload_elements :: "memory \<Rightarrow> nat \<Rightarrow> u8 \<Rightarrow> nat \<Rightarrow> (nat \<Rightarrow> 'a) \<Rightarrow> 'a list option" where
  "payload_elements m this ty sz element =
     forEachAttributePayload m this ty
       (\<lambda>acc (q, n). if n mod sz \<noteq> 0 then None else Some (acc @ map (\<lambda>i. element (q + sz * i)) [0 ..< n div sz], False)) []"

definition forEachPatchEntry :: "memory \<Rightarrow> nat \<Rightarrow> (u32 \<times> u32 \<times> u64) list option" where
  "forEachPatchEntry m this = payload_elements m this T_cacheOverrides 16 (\<lambda>q. (read32 m q, read32 m (q + 4), read64 m (q + 8)))"

definition forEachInterposingTuple :: "memory \<Rightarrow> nat \<Rightarrow> (u64 \<times> u64) list option" where
  "forEachInterposingTuple m this = payload_elements m this T_interposeTuples 16 (\<lambda>q. (read64 m q, read64 m (q + 8)))"

definition hasInterposings :: "memory \<Rightarrow> nat \<Rightarrow> bool option" where
  "hasInterposings m this =
     forEachAttributePayload m this T_interposeTuples
       (\<lambda>r (q, n). if n mod 16 \<noteq> 0 then None else if n div 16 > 0 then Some (True, True) else Some (r, False)) False"

definition c_string :: "memory \<Rightarrow> nat \<Rightarrow> nat \<Rightarrow> u8 list option" where
  "c_string m limit s = map_option (\<lambda>z. map m [s ..< z]) (find_nul m s limit)"

definition forEachEnvVar :: "memory \<Rightarrow> nat \<Rightarrow> nat \<Rightarrow> u8 list list option" where
  "forEachEnvVar m limit this =
     forEachAttributePayload m this T_envVar (\<lambda>acc (q, n). map_option (\<lambda>str. (acc @ [str], False)) (c_string m limit q)) []"

definition forEachWarning :: "memory \<Rightarrow> nat \<Rightarrow> nat \<Rightarrow> u32 \<Rightarrow> u8 list list option" where
  "forEachWarning m limit this ty =
     forEachAttributePayload m this T_warning
       (\<lambda>acc (q, n). if read32 m q \<noteq> ty then Some (acc, False) else map_option (\<lambda>str. (acc @ [str], False)) (c_string m limit (q + 4))) []"

lemma find_nul_ge: "find_nul m s limit = Some z \<Longrightarrow> s \<le> z"
  using find_nul_Some by blast

text \<open>The walk over NUL-terminated paths: each non-empty one is reported.\<close>

function path_loop :: "memory \<Rightarrow> nat \<Rightarrow> nat \<Rightarrow> nat \<Rightarrow> u8 list list option" where
  "path_loop m limit e s =
     (if s < e then
        (case find_nul m s limit of
           None \<Rightarrow> None
         | Some z \<Rightarrow> map_option (\<lambda>rest. if m s \<noteq> 0 then map m [s ..< z] # rest else rest) (path_loop m limit e (z + 1)))
      else Some [])"
  by pat_completeness auto
termination
  by (relation "measure (\<lambda>(m, limit, e, s). e - s)") (auto dest: find_nul_ge)

definition forEachMustBeMissingFile :: "memory \<Rightarrow> nat \<Rightarrow> nat \<Rightarrow> u8 list list option" where
  "forEachMustBeMissingFile m limit this =
     (case findAttributePayload m this T_missingFiles of
        None \<Rightarrow> None
      | Some None \<Rightarrow> Some []
      | Some (Some (q, n)) \<Rightarrow> path_loop m limit (q + n) q)"

text \<open>\<open>files\<close> is the pointer to the next inode and time. The bound is computed from the start of the paths.\<close>

function skip_loop :: "memory \<Rightarrow> nat \<Rightarrow> nat \<Rightarrow> nat \<Rightarrow> nat \<Rightarrow> (u8 list \<times> u64 \<times> u64) list option" where
  "skip_loop m limit e files s =
     (if s < e then
        (case find_nul m s limit of
           None \<Rightarrow> None
         | Some z \<Rightarrow>
             if m s \<noteq> 0
             then map_option ((#) (map m [s ..< z], read64 m files, read64 m (files + 8))) (skip_loop m limit e (files + 16) (z + 1))
             else skip_loop m limit e files (z + 1))
      else Some [])"
  by pat_completeness auto
termination
  by (relation "measure (\<lambda>(m, limit, e, files, s). e - s)") (auto dest: find_nul_ge)

definition forEachSkipIfExistsFile :: "memory \<Rightarrow> nat \<Rightarrow> nat \<Rightarrow> (u8 list \<times> u64 \<times> u64) list option" where
  "forEachSkipIfExistsFile m limit this =
     (case findAttributePayload m this T_existingFiles of
        None \<Rightarrow> None
      | Some None \<Rightarrow> Some []
      | Some (Some (q, n)) \<Rightarrow>
          (let fileCount = unat (read64 m q); paths = q + 8 + 16 * fileCount in skip_loop m limit (paths + n) (q + 8) paths))"

definition selectorHashTable :: "memory \<Rightarrow> nat \<Rightarrow> (nat \<times> nat \<times> nat) option option" where
  "selectorHashTable m this =
     map_option (map_option (\<lambda>(q, n). (q + 4, unat (read32 m q), q + 4 + 8 * unat (read32 m q)))) (findAttributePayload m this T_selectorTable)"

definition classAndProtocolHashTables :: "memory \<Rightarrow> nat \<Rightarrow> ((nat \<times> nat) \<times> nat option \<times> nat option) option option" where
  "classAndProtocolHashTables m this =
     map_option (map_option (\<lambda>(q, n).
       ((q + 12, unat (read32 m (q + 8))),
        if read32 m q \<noteq> 0 then Some (q + unat (read32 m q)) else None,
        if read32 m (q + 4) \<noteq> 0 then Some (q + unat (read32 m (q + 4))) else None))) (findAttributePayload m this T_classTable)"

definition duplicateClassesHashTable :: "memory \<Rightarrow> nat \<Rightarrow> nat option option" where
  "duplicateClassesHashTable m this = map_option (map_option fst) (findAttributePayload m this T_duplicateClassesTable)"


section \<open>The calls of a closure writer\<close>

datatype ClosureCall =
    SetTopImageNum u32 | AddCachePatches "(u32 \<times> u32 \<times> u64) list" | AddWarning u32 "u8 list" | SetLibSystemImageNum u32 | SetLibDyldEntry u64
  | SetMainEntry u64 | SetStartEntry u64 | SetUsedAtPaths bool | SetUsedFallbackPaths bool | SetInitImageCount u32 | SetHasInsertedLibraries bool
  | SetUsedInterposing bool | SetMustBeMissingFiles "u8 list list" | SetMustExistFiles "(u8 list \<times> u64 \<times> u64) list" | AddEnvVar "u8 list"
  | AddInterposingTuples "(u64 \<times> u64) list" | SetDyldCacheUUID "u8 list" | SetHasProgramVars u32

fun closure_call :: "ClosureCall \<Rightarrow> ClosureWriter \<Rightarrow> ClosureWriter option" where
  "closure_call (SetTopImageNum n) = setTopImageNum n"
| "closure_call (AddCachePatches ps) = addCachePatches ps"
| "closure_call (AddWarning t msg) = addWarning t msg"
| "closure_call (SetLibSystemImageNum n) = setLibSystemImageNum n"
| "closure_call (SetLibDyldEntry e) = setLibDyldEntry e"
| "closure_call (SetMainEntry e) = setMainEntry e"
| "closure_call (SetStartEntry e) = setStartEntry e"
| "closure_call (SetUsedAtPaths v) = setUsedAtPaths v"
| "closure_call (SetUsedFallbackPaths v) = setUsedFallbackPaths v"
| "closure_call (SetInitImageCount n) = setInitImageCount n"
| "closure_call (SetHasInsertedLibraries v) = setHasInsertedLibraries v"
| "closure_call (SetUsedInterposing v) = setUsedInterposing v"
| "closure_call (SetMustBeMissingFiles paths) = setMustBeMissingFiles paths"
| "closure_call (SetMustExistFiles files) = setMustExistFiles files"
| "closure_call (AddEnvVar v) = addEnvVar v"
| "closure_call (AddInterposingTuples ts) = addInterposingTuples ts"
| "closure_call (SetDyldCacheUUID u) = setDyldCacheUUID u"
| "closure_call (SetHasProgramVars off) = setHasProgramVars off"

fun closure_calls :: "ClosureCall list \<Rightarrow> ClosureWriter \<Rightarrow> ClosureWriter option" where
  "closure_calls [] cw = Some cw"
| "closure_calls (c # cs) cw = Option.bind (closure_call c cw) (closure_calls cs)"

text \<open>The meaning of a call for the list of attributes: the flags are one attribute, made when the first flag is set.\<close>

fun set_closure_flags :: "(u32 \<Rightarrow> u32) \<Rightarrow> attribute list \<Rightarrow> attribute list" where
  "set_closure_flags f [] = [(T_closureFlags, le_bytes 4 (f 0))]"
| "set_closure_flags f (a # as) =
     (if fst a = T_closureFlags then (T_closureFlags, le_bytes 4 (f (read32 (mem_of (snd a)) 0))) # as else a # set_closure_flags f as)"

definition padded :: "u8 list \<Rightarrow> u8 list" where
  "padded bs = bs @ replicate ((length bs + 3) div 4 * 4 - length bs) 0"

fun closure_meaning :: "ClosureCall \<Rightarrow> attribute list \<Rightarrow> attribute list" where
  "closure_meaning (SetTopImageNum n) as = as @ [(T_topImage, words32 [n])]"
| "closure_meaning (AddCachePatches ps) as = as @ [(T_cacheOverrides, concat (map patch_bytes ps))]"
| "closure_meaning (AddWarning t msg) as = as @ [(T_warning, le_bytes 4 t @ padded (msg @ [0]))]"
| "closure_meaning (SetLibSystemImageNum n) as = as @ [(T_libSystemNum, words32 [n])]"
| "closure_meaning (SetLibDyldEntry e) as = as @ [(T_libDyldEntry, words64 [e])]"
| "closure_meaning (SetMainEntry e) as = as @ [(T_mainEntry, words64 [e])]"
| "closure_meaning (SetStartEntry e) as = as @ [(T_startEntry, words64 [e])]"
| "closure_meaning (SetUsedAtPaths v) as = set_closure_flags (flag_bit32 0 v) as"
| "closure_meaning (SetUsedFallbackPaths v) as = set_closure_flags (flag_bit32 1 v) as"
| "closure_meaning (SetInitImageCount n) as = set_closure_flags (init_count n) as"
| "closure_meaning (SetHasInsertedLibraries v) as = set_closure_flags (flag_bit32 18 v) as"
| "closure_meaning (SetUsedInterposing v) as = set_closure_flags (flag_bit32 20 v) as"
| "closure_meaning (SetMustBeMissingFiles paths) as = as @ [(T_missingFiles, padded (path_list paths))]"
| "closure_meaning (SetMustExistFiles files) as = as @ [(T_existingFiles, padded (existing_bytes files))]"
| "closure_meaning (AddEnvVar v) as = as @ [(T_envVar, padded (v @ [0]))]"
| "closure_meaning (AddInterposingTuples ts) as = as @ [(T_interposeTuples, words64 (concat (map (\<lambda>(stock, new). [stock, new]) ts)))]"
| "closure_meaning (SetDyldCacheUUID u) as = as @ [(T_dyldCacheUUID, u)]"
| "closure_meaning (SetHasProgramVars off) as = set_closure_flags (flag_bit32 19 True) as @ [(T_progVars, words32 [off])]"

definition closure_attrs :: "u8 list \<Rightarrow> ClosureCall list \<Rightarrow> attribute list" where
  "closure_attrs images cs = foldl (\<lambda>as c. closure_meaning c as) [(T_imageArray, images)] cs"

section \<open>The calls implement their meaning\<close>

declare path_loop.simps [simp del] skip_loop.simps [simp del]

lemma attr_place_append:
  "attr_place ty p (as @ bs) = (case attr_place ty p as of None \<Rightarrow> attr_place ty (p + attrs_size as) bs | Some x \<Rightarrow> Some x)"
  by (induction as arbitrary: p rule: attrs_size.induct) (simp_all add: algebra_simps split: option.split)

lemma attr_place_Some:
  assumes "attr_place ty p as = Some (q, n)"
  obtains pre bs post where "as = pre @ (ty, bs) # post" "q = p + attrs_size pre + 4" "n = length bs" "attr_place ty p pre = None"
  using assms
proof (induction as arbitrary: p thesis rule: attrs_size.induct)
  case (2 t bs as)
  show ?case
  proof (cases "t = ty")
    case True
    with 2(2) [of "[]" bs as] 2(3) show ?thesis by simp
  next
    case False
    with 2(3) have "attr_place ty (p + 4 + length bs) as = Some (q, n)" by simp
    from 2(1) [OF _ this] obtain pre bs' post where "as = pre @ (ty, bs') # post" "q = p + 4 + length bs + attrs_size pre + 4" "n = length bs'"
      "attr_place ty (p + 4 + length bs) pre = None" by blast
    with 2(2) [of "(t, bs) # pre" bs' post] False show ?thesis by simp
  qed
qed simp

lemma attr_place_None: "attr_place ty p as = None \<longleftrightarrow> ty \<notin> fst ` set as"
  by (induction as arbitrary: p) auto

lemma set_closure_flags_append:
  "T_closureFlags \<notin> fst ` set pre \<Longrightarrow> set_closure_flags f (pre @ as) = pre @ set_closure_flags f as"
  by (induction pre) auto

definition closure_for :: "ClosureWriter \<Rightarrow> u8 \<Rightarrow> attribute list \<Rightarrow> bool" where
  "closure_for cw t as \<longleftrightarrow> writer_for t as (cw_writer cw) \<and> cw_flagsOffset cw = map_option fst (attr_place T_closureFlags 4 as)
     \<and> (\<forall>n. attr_place T_closureFlags 4 as = Some n \<longrightarrow> snd n = 4)"

lemma cw_append_ok:
  assumes cw: "closure_for cw t as" and n: "attr_ok (ty, bs)" "attrs_size (as @ [(ty, bs)]) < 16 * 1024 * 1024"
    and pl: "pl = Some bs \<or> pl = None \<and> bs = replicate (length bs) 0"
  shows "\<exists>w. cw_append ty pl (length bs) cw = Some (cw\<lparr>cw_writer := w\<rparr>, 8 + attrs_size as) \<and> writer_for t (as @ [(ty, bs)]) w"
  using append_tb_ok [of t as "cw_writer cw" "length bs" pl bs ty] cw n pl by (auto simp: cw_append_def closure_for_def attr_ok_def)

lemma closure_for_snoc:
  assumes "closure_for cw t as" and "writer_for t (as @ [(ty, bs)]) w" and "ty \<noteq> T_closureFlags"
  shows "closure_for (cw\<lparr>cw_writer := w\<rparr>) t (as @ [(ty, bs)])"
  using assms by (auto simp: closure_for_def attr_place_append split: option.splits)

lemma cw_append_bytes_ok:
  assumes "closure_for cw t as" and "attr_ok (ty, bs)" and "attrs_size (as @ [(ty, bs)]) < 16 * 1024 * 1024" and "ty \<noteq> T_closureFlags"
  shows "\<exists>cw'. cw_append_bytes ty bs cw = Some cw' \<and> closure_for cw' t (as @ [(ty, bs)])"
  using cw_append_ok [OF assms(1-3), of "Some bs"] assms closure_for_snoc [OF assms(1) _ assms(4)] by (auto simp: cw_append_bytes_def)

lemma cw_fill_ok:
  assumes cw: "closure_for cw t as" and ok: "attr_ok (ty, bs @ replicate k 0)" "attrs_size (as @ [(ty, bs @ replicate k 0)]) < 16 * 1024 * 1024"
    and ty: "ty \<noteq> T_closureFlags"
  shows "\<exists>cw'. cw_fill ty (length bs + k) bs cw = Some cw' \<and> closure_for cw' t (as @ [(ty, bs @ replicate k 0)])"
proof -
  let ?n = "length bs + k"
  have "attr_ok (ty, replicate ?n 0)" "attrs_size (as @ [(ty, replicate ?n 0)]) < 16 * 1024 * 1024" using ok by (auto simp: attr_ok_def)
  from cw_append_ok [OF cw this, of None] obtain w where
    w: "cw_append ty None ?n cw = Some (cw\<lparr>cw_writer := w\<rparr>, 8 + attrs_size as)" "writer_for t (as @ [(ty, replicate ?n 0)]) w" by auto
  from writer_overwrite [OF w(2), of 0 bs] obtain w' where
    "write_at (8 + attrs_size as) bs w = Some w'" "writer_for t (as @ [(ty, bs @ replicate k 0)]) w'" by (auto simp: drop_replicate)
  with w(1) closure_for_snoc [OF cw this(2) ty] show ?thesis by (simp add: cw_fill_def cw_write_def)
qed

lemma closure_flags_cases:
  assumes "closure_for cw t as"
  obtains (missing) "cw_flagsOffset cw = None" "T_closureFlags \<notin> fst ` set as" "set_closure_flags f as = as @ [(T_closureFlags, le_bytes 4 (f 0))]"
    | (present) pre bs post where "as = pre @ (T_closureFlags, bs) # post" "cw_flagsOffset cw = Some (8 + attrs_size pre)" "length bs = 4"
      "T_closureFlags \<notin> fst ` set pre" "set_closure_flags f as = pre @ (T_closureFlags, le_bytes 4 (f (read32 (mem_of bs) 0))) # post"
proof (cases "attr_place T_closureFlags 4 as")
  case None
  then have "T_closureFlags \<notin> fst ` set as" by (simp add: attr_place_None)
  with None assms missing set_closure_flags_append [of as f "[]"] show ?thesis by (simp add: closure_for_def)
next
  case (Some x)
  obtain q n where x: "x = (q, n)" by (cases x)
  from attr_place_Some [OF Some [unfolded x]] obtain pre bs post where
    pre: "as = pre @ (T_closureFlags, bs) # post" "q = 4 + attrs_size pre + 4" "n = length bs" "attr_place T_closureFlags 4 pre = None" .
  have "T_closureFlags \<notin> fst ` set pre" using pre(4) by (simp add: attr_place_None)
  with present [of pre bs post] pre assms Some x set_closure_flags_append [of pre f "(T_closureFlags, bs) # post"] show ?thesis
    by (auto simp: closure_for_def)
qed

lemma read_payload_word:
  assumes w: "writer_for t (pre @ (ty, bs) # post) w" and len: "length bs = 4"
  shows "read32 (w_mem w) (8 + attrs_size pre) = read32 (mem_of bs) 0"
proof -
  have at: "\<forall>i < 4. w_mem w (8 + attrs_size pre + i) = bs ! i"
    using w len by (auto simp: writer_for_def container_at_def attrs_at_append attr_at_def algebra_simps)
  then have "w_mem w (8 + attrs_size pre) = bs ! 0" "w_mem w (8 + attrs_size pre + 1) = bs ! 1"
    "w_mem w (8 + attrs_size pre + 2) = bs ! 2" "w_mem w (8 + attrs_size pre + 3) = bs ! 3"
    using at [rule_format, of 0] at [rule_format, of 1] at [rule_format, of 2] at [rule_format, of 3] by simp_all
  then show ?thesis using len by (simp add: read32_def le_nat_4 mem_of_def numeral_2_eq_2)
qed

lemma closure_for_flags:
  assumes w: "writer_for t (pre @ (T_closureFlags, bs) # post) w" and "T_closureFlags \<notin> fst ` set pre" and "length bs = 4"
    and "cw_flagsOffset cw = Some (8 + attrs_size pre)"
  shows "closure_for (cw\<lparr>cw_writer := w\<rparr>) t (pre @ (T_closureFlags, bs) # post)"
  using assms attr_place_None [of T_closureFlags 4 pre] by (simp add: closure_for_def attr_place_append)

lemma update_closure_flags_ok:
  assumes cw: "closure_for cw t as" and room: "attrs_size (set_closure_flags f as) < 16 * 1024 * 1024"
  shows "\<exists>cw'. update_closure_flags f cw = Some cw' \<and> closure_for cw' t (set_closure_flags f as)"
  using cw
proof (cases rule: closure_flags_cases [where f = f])
  case missing
  have zero: "le_bytes 4 (0 :: u32) = replicate 4 0" by (rule nth_equalityI) simp_all
  have "attr_ok (T_closureFlags, replicate 4 0)" "attrs_size (as @ [(T_closureFlags, replicate 4 0)]) < 16 * 1024 * 1024"
    using room missing(3) by (simp_all add: attr_ok_def)
  from cw_append_ok [OF cw this, of "Some (replicate 4 0)"] obtain w where
    w: "cw_append T_closureFlags (Some (replicate 4 0)) 4 cw = Some (cw\<lparr>cw_writer := w\<rparr>, 8 + attrs_size as)"
      "writer_for t (as @ [(T_closureFlags, le_bytes 4 (0 :: u32))]) w" by (auto simp: zero)
  have "read32 (w_mem w) (8 + attrs_size as) = 0"
    unfolding read_payload_word [OF w(2) length_le_bytes] by (rule read_bytes_at(2)) (simp add: bytes_at_def mem_of_def)
  moreover from writer_overwrite [OF w(2), of 0 "le_bytes 4 (f 0)"] obtain w' where
    "write_at (8 + attrs_size as) (le_bytes 4 (f 0)) w = Some w'" "writer_for t (as @ [(T_closureFlags, le_bytes 4 (f 0))]) w'" by auto
  ultimately show ?thesis
    using w(1) missing closure_for_flags [of t as "le_bytes 4 (f 0)" "[]" w' "cw\<lparr>cw_flagsOffset := Some (8 + attrs_size as)\<rparr>"]
    by (simp add: update_closure_flags_def closure_getFlags_def cw_write_def)
next
  case (present pre bs post)
  have w: "writer_for t (pre @ (T_closureFlags, bs) # post) (cw_writer cw)" using cw present(1) by (simp add: closure_for_def)
  let ?new = "le_bytes 4 (f (read32 (mem_of bs) 0))"
  from writer_overwrite [OF w, of 0 ?new] present(3) obtain w' where
    "write_at (8 + attrs_size pre) ?new (cw_writer cw) = Some w'" "writer_for t (pre @ (T_closureFlags, ?new) # post) w'" by auto
  with present read_payload_word [OF w present(3)] closure_for_flags [of t pre ?new post w' cw] show ?thesis
    by (simp add: update_closure_flags_def closure_getFlags_def cw_write_def)
qed

lemma length_padded: "length (padded bs) = (length bs + 3) div 4 * 4"
  by (simp add: padded_def)

lemma padded_fill:
  assumes cw: "closure_for cw t as" and ok: "attr_ok (ty, padded bs)" "attrs_size (as @ [(ty, padded bs)]) < 16 * 1024 * 1024" and ty: "ty \<noteq> T_closureFlags"
  shows "\<exists>cw'. cw_fill ty (align4 (length bs mod 2 ^ 32)) (bs @ replicate (align4 (length bs mod 2 ^ 32) - length bs) 0) cw = Some cw'
    \<and> closure_for cw' t (as @ [(ty, padded bs)])"
proof -
  have "(length bs + 3) div 4 * 4 < 16 * 1024 * 1024" using ok(2) by (simp add: length_padded)
  moreover have "length bs \<le> (length bs + 3) div 4 * 4" by presburger
  ultimately have n: "align4 (length bs mod 2 ^ 32) = length (padded bs)" by (simp add: align4_def length_padded)
  then have "bs @ replicate (align4 (length bs mod 2 ^ 32) - length bs) 0 = padded bs" by (simp add: padded_def length_padded)
  with cw_fill_ok [OF cw, of ty "padded bs" 0] ok ty n show ?thesis by simp
qed

lemma addWarning_ok:
  assumes cw: "closure_for cw t as" and ok: "attr_ok (T_warning, le_bytes 4 ty @ padded (msg @ [0]))"
    "attrs_size (as @ [(T_warning, le_bytes 4 ty @ padded (msg @ [0]))]) < 16 * 1024 * 1024"
  shows "\<exists>cw'. addWarning ty msg cw = Some cw' \<and> closure_for cw' t (as @ [(T_warning, le_bytes 4 ty @ padded (msg @ [0]))])"
proof -
  let ?k = "(length msg + 4) div 4 * 4 - (length msg + 1)"
  have "length msg + 1 \<le> (length msg + 4) div 4 * 4" by presburger
  moreover have "(length msg + 4) div 4 * 4 < 16 * 1024 * 1024" using ok(2) by (simp add: length_padded)
  ultimately have n: "4 + align4 (length msg + 1) = length (le_bytes 4 ty @ msg @ [0]) + ?k" by (simp add: align4_def)
  have pad: "le_bytes 4 ty @ padded (msg @ [0]) = (le_bytes 4 ty @ msg @ [0]) @ replicate ?k 0" by (simp add: padded_def add.commute)
  show ?thesis using cw_fill_ok [OF cw, of T_warning "le_bytes 4 ty @ msg @ [0]" ?k] ok unfolding addWarning_def n pad by simp
qed

lemma env_padding: "v @ [0] @ replicate ((4 - (length v + 1) mod 4) mod 4) 0 = padded (v @ [0])"
proof -
  have "(4 - k mod 4) mod 4 = (k + 3) div 4 * 4 - k" for k :: nat
  proof -
    define q r where "q = k div 4" and "r = k mod 4"
    then have k: "k = 4 * q + r" and "r < 4" by simp_all
    then have "r = 0 \<or> r = 1 \<or> r = 2 \<or> r = 3" by auto
    then show ?thesis unfolding k by auto
  qed
  then show ?thesis by (simp add: padded_def)
qed

fun closure_call_ok :: "ClosureCall \<Rightarrow> bool" where
  "closure_call_ok (SetDyldCacheUUID u) \<longleftrightarrow> length u = 16"
| "closure_call_ok c \<longleftrightarrow> True"

lemmas closure_setters = setTopImageNum_def addCachePatches_def setLibSystemImageNum_def setLibDyldEntry_def setMainEntry_def setStartEntry_def
  addInterposingTuples_def
lemmas closure_flag_setters = setUsedAtPaths_def setUsedFallbackPaths_def setInitImageCount_def setHasInsertedLibraries_def setUsedInterposing_def

lemma closure_call_step:
  assumes cw: "closure_for cw t as" and c: "closure_call_ok c" and ok: "\<forall>a\<in>set (closure_meaning c as). attr_ok a"
    and room: "attrs_size (closure_meaning c as) < 16 * 1024 * 1024"
  shows "\<exists>cw'. closure_call c cw = Some cw' \<and> closure_for cw' t (closure_meaning c as)"
proof (cases c)
  case (AddWarning ty msg)
  then show ?thesis using addWarning_ok [OF cw, of ty msg] ok room by simp
next
  case (SetMustBeMissingFiles paths)
  then show ?thesis using padded_fill [OF cw, of T_missingFiles "path_list paths"] ok room by (simp add: setMustBeMissingFiles_def Let_def)
next
  case (SetMustExistFiles files)
  then show ?thesis using padded_fill [OF cw, of T_existingFiles "existing_bytes files"] ok room by (simp add: setMustExistFiles_def Let_def)
next
  case (AddEnvVar v)
  moreover have "addEnvVar v = cw_append_bytes T_envVar (padded (v @ [0]))" by (simp only: addEnvVar_def env_padding)
  ultimately show ?thesis using cw_append_bytes_ok [OF cw, of T_envVar "padded (v @ [0])"] ok room by simp
next
  case (SetDyldCacheUUID u)
  then show ?thesis using cw_append_ok [OF cw, of T_dyldCacheUUID u "Some u"] closure_for_snoc [OF cw, of T_dyldCacheUUID u] c ok room
    by (auto simp: setDyldCacheUUID_def)
next
  case (SetHasProgramVars off)
  from room have "attrs_size (set_closure_flags (flag_bit32 19 True) as) < 16 * 1024 * 1024" by (simp add: SetHasProgramVars)
  from update_closure_flags_ok [OF cw this] obtain cw1 where cw1: "update_closure_flags (flag_bit32 19 True) cw = Some cw1"
    "closure_for cw1 t (set_closure_flags (flag_bit32 19 True) as)" by blast
  with cw_append_bytes_ok [OF cw1(2), of T_progVars "words32 [off]"] SetHasProgramVars ok room show ?thesis by (simp add: setHasProgramVars_def)
qed (use ok room update_closure_flags_ok [OF cw] cw_append_bytes_ok [OF cw] in \<open>simp_all add: closure_setters closure_flag_setters\<close>)

text \<open>The attributes fit into a container after every call.\<close>

definition attrs_fit :: "attribute list \<Rightarrow> bool" where
  "attrs_fit as \<longleftrightarrow> (\<forall>a\<in>set as. attr_ok a) \<and> attrs_size as < 16 * 1024 * 1024"

fun closure_fits :: "attribute list \<Rightarrow> ClosureCall list \<Rightarrow> bool" where
  "closure_fits as [] \<longleftrightarrow> attrs_fit as"
| "closure_fits as (c # cs) \<longleftrightarrow> attrs_fit as \<and> closure_call_ok c \<and> closure_fits (closure_meaning c as) cs"

lemma closure_fits_attrs_fit: "closure_fits as cs \<Longrightarrow> attrs_fit as"
  by (cases cs) simp_all

lemma closure_calls_ok:
  assumes "closure_for cw t as" and "closure_fits as cs"
  shows "\<exists>cw'. closure_calls cs cw = Some cw' \<and> closure_for cw' t (foldl (\<lambda>as c. closure_meaning c as) as cs)"
  using assms
proof (induction cs arbitrary: cw as)
  case (Cons c cs)
  have "attrs_fit (closure_meaning c as)" using Cons.prems(2) closure_fits_attrs_fit [of "closure_meaning c as" cs] by simp
  with closure_call_step [OF Cons.prems(1), of c] Cons.prems(2) obtain cw1 where
    "closure_call c cw = Some cw1" "closure_for cw1 t (closure_meaning c as)" by (auto simp: attrs_fit_def)
  with Cons.IH [OF this(2)] Cons.prems(2) show ?case by simp
qed simp

lemma closure_writer_ok:
  assumes "closure_fits [(T_imageArray, images)] cs"
  shows "\<exists>cw. Option.bind (closure_writer t images) (closure_calls cs) = Some cw \<and> closure_for cw t (closure_attrs images cs)"
proof -
  obtain w where w: "setContainerType t Writer_new = Some w" "writer_for t [] w" using setContainerType_ok by blast
  then have "closure_for \<lparr>cw_writer = w, cw_flagsOffset = None\<rparr> t []" by (simp add: closure_for_def)
  from cw_append_bytes_ok [OF this, of T_imageArray images] closure_fits_attrs_fit [OF assms] obtain cw where
    "cw_append_bytes T_imageArray images \<lparr>cw_writer = w, cw_flagsOffset = None\<rparr> = Some cw" "closure_for cw t [(T_imageArray, images)]"
    by (auto simp: attrs_fit_def)
  with closure_calls_ok [OF this(2) assms] w(1) show ?thesis by (simp add: closure_writer_def closure_attrs_def)
qed

section \<open>Paths\<close>

lemma path_loop_zeros:
  assumes "bytes_at m s (replicate k 0)" and "s + k \<le> limit"
  shows "path_loop m limit (s + k) s = Some []"
  using assms
proof (induction k arbitrary: s)
  case (Suc k)
  have "bytes_at m s ([] @ [0])" "bytes_at m (Suc s) (replicate k 0)"
    using Suc.prems(1) bytes_at_append [of m s "[0]" "replicate k 0"] by simp_all
  moreover from find_nul_string [OF this(1)] Suc.prems(2) have "find_nul m s limit = Some s" by simp
  moreover have "m s = 0" using \<open>bytes_at m s ([] @ [0])\<close> by (simp add: bytes_at_def)
  ultimately show ?case using Suc.IH [of "Suc s"] Suc.prems(2) by (subst path_loop.simps) simp
qed (simp add: path_loop.simps)

lemma path_loop_paths:
  assumes "bytes_at m s (path_list paths @ replicate k 0)" and "\<forall>path\<in>set paths. 0 \<notin> set path" and "s + length (path_list paths) + k \<le> limit"
  shows "path_loop m limit (s + length (path_list paths) + k) s = Some (filter (\<lambda>path. path \<noteq> []) paths)"
  using assms
proof (induction paths arbitrary: s)
  case Nil
  then show ?case using path_loop_zeros [of m s k limit] by (simp add: path_list_def)
next
  case (Cons path paths)
  let ?z = "s + length path"
  have here: "bytes_at m s (path @ [0])" and rest: "bytes_at m (Suc ?z) (path_list paths @ replicate k 0)"
    using Cons.prems(1) bytes_at_append [of m s "path @ [0]" "path_list paths @ replicate k 0"] by (simp_all add: path_list_def)
  have len: "s + length (path_list (path # paths)) + k = Suc ?z + length (path_list paths) + k" by (simp add: path_list_def)
  have nul: "find_nul m s limit = Some ?z" using find_nul_string [OF here] Cons.prems(2,3) len by simp
  have "map m [s ..< ?z] = path" using here by (auto simp: bytes_at_def nth_append intro!: nth_equalityI)
  moreover have "m s \<noteq> 0 \<longleftrightarrow> path \<noteq> []"
    using here Cons.prems(2) by (cases path) (auto simp: bytes_at_def dest: spec [of _ 0])
  moreover have "path_loop m limit (Suc ?z + length (path_list paths) + k) (Suc ?z) = Some (filter (\<lambda>path. path \<noteq> []) paths)"
    using Cons.IH [OF rest] Cons.prems(2,3) len by simp
  ultimately show ?case unfolding len by (subst path_loop.simps) (simp add: nul)
qed

lemma closure_meaning_keeps:
  assumes "map_of as T_missingFiles = Some bs"
  shows "map_of (closure_meaning c as) T_missingFiles = Some bs"
proof -
  have flags: "map_of (set_closure_flags f as) T_missingFiles = map_of as T_missingFiles" for f by (induction as) auto
  show ?thesis using assms by (cases c) (simp_all add: flags map_add_def)
qed

lemma closure_attrs_missing:
  assumes "\<forall>paths. SetMustBeMissingFiles paths \<notin> set cs" and "map_of as T_missingFiles = None"
  shows "map_of (foldl (\<lambda>as c. closure_meaning c as) as cs) T_missingFiles = None"
  using assms
proof (induction cs arbitrary: as)
  case (Cons c cs)
  have flags: "map_of (set_closure_flags f as) T_missingFiles = map_of as T_missingFiles" for f by (induction as) auto
  have "map_of (closure_meaning c as) T_missingFiles = None"
    using Cons.prems by (cases c) (auto simp: flags map_add_def)
  with Cons show ?case by simp
qed simp

lemma missing_files_attr:
  assumes "\<forall>paths. SetMustBeMissingFiles paths \<notin> set cs1"
  shows "map_of (closure_attrs images (cs1 @ SetMustBeMissingFiles paths # cs2)) T_missingFiles = Some (padded (path_list paths))"
proof -
  let ?as = "foldl (\<lambda>as c. closure_meaning c as) [(T_imageArray, images)] cs1"
  have "map_of ?as T_missingFiles = None" by (rule closure_attrs_missing [OF assms]) simp
  then have "map_of (closure_meaning (SetMustBeMissingFiles paths) ?as) T_missingFiles = Some (padded (path_list paths))" by (simp add: map_add_def)
  then have "map_of (foldl (\<lambda>as c. closure_meaning c as) (closure_meaning (SetMustBeMissingFiles paths) ?as) cs) T_missingFiles
      = Some (padded (path_list paths))" for cs
    by (induction cs rule: rev_induct) (simp_all add: closure_meaning_keeps)
  then show ?thesis by (simp add: closure_attrs_def)
qed

text \<open>
  C20: a launch closure keeps the list of files that must not exist. Whatever else is written into the closure before and after, in any order, as long
  as the attributes fit, the writer returns and the finished closure reports exactly the paths that were given, in order, the
  empty ones left out; a closure can be trusted only while these files are missing. The paths contain no NUL.
\<close>

theorem missing_files_roundtrip:
  assumes "closure_fits [(T_imageArray, images)] (cs1 @ SetMustBeMissingFiles paths # cs2)"
    and "\<forall>paths. SetMustBeMissingFiles paths \<notin> set cs1" and "\<forall>path\<in>set paths. 0 \<notin> set path"
  shows "\<exists>cw. Option.bind (LaunchClosureWriter images) (closure_calls (cs1 @ SetMustBeMissingFiles paths # cs2)) = Some cw
    \<and> forEachMustBeMissingFile (fst (finalizeContainer pageShift (cw_writer cw))) (w_end (cw_writer cw)) 0 = Some (filter (\<lambda>path. path \<noteq> []) paths)"
proof -
  let ?as = "closure_attrs images (cs1 @ SetMustBeMissingFiles paths # cs2)"
  obtain cw where cw: "Option.bind (LaunchClosureWriter images) (closure_calls (cs1 @ SetMustBeMissingFiles paths # cs2)) = Some cw"
    "closure_for cw T_launchClosure ?as" using closure_writer_ok [OF assms(1)] by (auto simp: LaunchClosureWriter_def)
  let ?m = "w_mem (cw_writer cw)"
  have w: "writer_for T_launchClosure ?as (cw_writer cw)" using cw(2) by (simp add: closure_for_def)
  then have c: "container_at ?m 0 T_launchClosure ?as" and e: "w_end (cw_writer cw) = 4 + attrs_size ?as" by (simp_all add: writer_for_def)
  have found: "map_of ?as T_missingFiles = Some (padded (path_list paths))" by (rule missing_files_attr [OF assms(2)])
  have "attr_place T_missingFiles 4 ?as \<noteq> None" using found by (metis attr_place_None map_of_eq_None_iff option.distinct(1))
  then obtain q n where place: "attr_place T_missingFiles 4 ?as = Some (q, n)" by auto
  from attr_place_Some [OF this] obtain pre bs post where split: "?as = pre @ (T_missingFiles, bs) # post" "q = 4 + attrs_size pre + 4" "n = length bs" by metis
  have b: "n = length (padded (path_list paths))" "\<forall>i < n. ?m (q + i) = padded (path_list paths) ! i"
    using attr_place_map_of [of ?m 4 ?as T_missingFiles] c place found by (auto simp: container_at_def)
  define k where "k = n - length (path_list paths)"
  have bytes: "bytes_at ?m q (path_list paths @ replicate k 0)" and n: "q + n = q + length (path_list paths) + k"
    using b by (auto simp: bytes_at_def padded_def k_def)
  have "q + n \<le> w_end (cw_writer cw)" using e split by simp
  then have "path_loop ?m (w_end (cw_writer cw)) (q + n) q = Some (filter (\<lambda>path. path \<noteq> []) paths)"
    using path_loop_paths [OF bytes assms(3)] by (simp only: n)
  with cw(1) place findAttributePayload_run [OF c, of T_missingFiles] show ?thesis
    by (simp add: forEachMustBeMissingFile_def finalized [OF w])
qed

theorem missing_files_roundtrip_witness:
  "\<exists>cw. Option.bind (LaunchClosureWriter (replicate 8 0)) (closure_calls [SetUsedAtPaths True, SetMustBeMissingFiles [[47, 97], [], [47, 98, 99]], SetTopImageNum 3]) = Some cw
    \<and> forEachMustBeMissingFile (fst (finalizeContainer 12 (cw_writer cw))) (w_end (cw_writer cw)) 0 = Some [[47, 97], [47, 98, 99]]"
  using missing_files_roundtrip [of "replicate 8 0" "[SetUsedAtPaths True]" "[[47, 97], [], [47, 98, 99]]" "[SetTopImageNum 3]" 12]
  by (simp add: attrs_fit_def attr_ok_def length_padded path_list_def del: closure_calls.simps)

text \<open>A launch closure with one skipped file and an environment variable.\<close>

definition skip_sample :: memory where
  "skip_sample = mem_of
     [1, 40, 0, 0, 44, 28, 0, 0, 1, 0, 0, 0, 0, 0, 0, 0, 5, 0, 0, 0, 0, 0, 0, 0, 6, 0, 0, 0, 0, 0, 0, 0, 47, 97, 0, 0,
      35, 4, 0, 0, 65, 61, 49, 0]"

lemma skip_sample_byte: "skip_sample i = (if i < 44 then [1, 40, 0, 0, 44, 28, 0, 0, 1, 0, 0, 0, 0, 0, 0, 0, 5, 0, 0, 0, 0, 0, 0, 0, 6, 0, 0, 0, 0, 0, 0, 0,
    47, 97, 0, 0, 35, 4, 0, 0, 65, 61, 49, 0] ! i else 0)"
  by (simp add: skip_sample_def mem_of_def)

lemma skip_sample_header [simp]:
  "read32 skip_sample 0 = 0x2801" "read32 skip_sample 4 = 0x1C2C" "read32 skip_sample 36 = 0x423"
  "read64 skip_sample 8 = 1" "read64 skip_sample 16 = 5" "read64 skip_sample 24 = 6" "read64 skip_sample 32 = 0x4230000612F"
  "read64 skip_sample 40 = 0x313D41" "read64 skip_sample 48 = 0" "read64 skip_sample 56 = 0"
  by (simp_all add: read64_halves read32_def le_nat_4 skip_sample_byte)

lemma skip_sample_strings [simp]:
  "find_nul skip_sample 32 64 = Some 34" "find_nul skip_sample 35 64 = Some 35" "find_nul skip_sample 36 64 = Some 38"
  "find_nul skip_sample 39 64 = Some 39" "find_nul skip_sample 40 64 = Some 43"
  by (simp_all add: find_nul.simps skip_sample_byte)

lemma skip_sample_tail: "44 \<le> s \<Longrightarrow> s \<le> 60 \<Longrightarrow> skip_loop skip_sample 64 60 files s = Some []"
proof (induction "60 - s" arbitrary: s)
  case (Suc k)
  have "skip_sample s = 0" using Suc.prems by (simp add: skip_sample_byte)
  moreover from this Suc have "find_nul skip_sample s 64 = Some s" by (simp add: find_nul.simps)
  ultimately show ?case using Suc by (subst skip_loop.simps) simp
qed (simp add: skip_loop.simps)

lemma skip_sample_closure:
  "container_at skip_sample 0 T_launchClosure [(T_existingFiles, padded (existing_bytes [([47, 97], 5, 6)])), (T_envVar, padded ([65, 61, 49] @ [0]))]"
proof -
  have files: "padded (existing_bytes [([47, 97], 5, 6)]) = [1, 0, 0, 0, 0, 0, 0, 0, 5, 0, 0, 0, 0, 0, 0, 0, 6, 0, 0, 0, 0, 0, 0, 0, 47, 97, 0, 0]"
    by (simp add: padded_def existing_bytes_def path_list_def words64_def le_bytes_def upt_rec)
  have env: "padded ([65, 61, 49] @ [0]) = [65, 61, 49, 0]" by (simp add: padded_def)
  have bytes: "\<forall>i\<in>set [0 ..< 28]. skip_sample (8 + i) = [1, 0, 0, 0, 0, 0, 0, 0, 5, 0, 0, 0, 0, 0, 0, 0, 6, 0, 0, 0, 0, 0, 0, 0, 47, 97, 0, 0] ! i"
    "\<forall>i\<in>set [0 ..< 4]. skip_sample (40 + i) = [65, 61, 49, 0] ! i"
    by (simp_all add: upt_rec skip_sample_byte)
  have "attr_at skip_sample 4 (T_existingFiles, padded (existing_bytes [([47, 97], 5, 6)]))"
    unfolding attr_at_def files using bytes(1) by (simp add: tb_type_def payloadLength_def)
  moreover have "attr_at skip_sample 36 (T_envVar, padded ([65, 61, 49] @ [0]))"
    unfolding attr_at_def env using bytes(2) by (simp add: tb_type_def payloadLength_def)
  ultimately show ?thesis unfolding container_at_def files env by (simp add: tb_type_def payloadLength_def)
qed

text \<open>
  The walk over the files that may exist leaves its attribute. Its bound is the size of the attribute counted from the first path
  and not from the attribute's start, so it reads on into the attribute that follows: in a closure written for one skipped file
  and an environment variable, three files are reported, the second with the next attribute's header as its path and with bytes of paths
  as its inode and time, the third with the variable's text as its path.
\<close>

theorem skip_files_read_past_attribute:
  "forEachAttribute skip_sample 0 (\<lambda>acc p. Some (acc @ [attribute_of skip_sample p], False)) []
     = Some [(T_existingFiles, padded (existing_bytes [([47, 97], 5, 6)])), (T_envVar, padded ([65, 61, 49] @ [0]))]
   \<and> forEachSkipIfExistsFile skip_sample 64 0 = Some [([47, 97], 5, 6), ([35, 4], 0x4230000612F, 0x313D41), ([65, 61, 49], 0, 0)]"
proof
  show "forEachAttribute skip_sample 0 (\<lambda>acc p. Some (acc @ [attribute_of skip_sample p], False)) []
     = Some [(T_existingFiles, padded (existing_bytes [([47, 97], 5, 6)])), (T_envVar, padded ([65, 61, 49] @ [0]))]"
    by (rule forEachAttribute_collect [OF skip_sample_closure])
  have "length (padded (existing_bytes [([47, 97], 5, 6)])) = 28" by (simp add: length_padded existing_bytes_def path_list_def)
  then have "findAttributePayload skip_sample 0 T_existingFiles = Some (Some (8, 28))"
    by (simp add: findAttributePayload_run [OF skip_sample_closure])
  moreover have "skip_loop skip_sample 64 60 16 32 = Some [([47, 97], 5, 6), ([35, 4], 0x4230000612F, 0x313D41), ([65, 61, 49], 0, 0)]"
    by (simp add: skip_loop.simps [of _ _ _ _ 32] skip_loop.simps [of _ _ _ _ 35] skip_loop.simps [of _ _ _ _ 36] skip_loop.simps [of _ _ _ _ 39]
        skip_loop.simps [of _ _ _ _ 40] skip_sample_tail skip_sample_byte upt_rec)
  ultimately show "forEachSkipIfExistsFile skip_sample 64 0 = Some [([47, 97], 5, 6), ([35, 4], 0x4230000612F, 0x313D41), ([65, 61, 49], 0, 0)]"
    by (simp add: forEachSkipIfExistsFile_def Let_def)
qed
end
