(* ===== verification/Export_Trie.thy ===== *)
theory Export_Trie
  imports Leb128 "HOL-Library.List_Lexorder" "HOL-Library.Multiset"
begin

text \<open>
  The prefix tree of \<open>src/dyld3/shared-cache/Trie.hpp\<close>: building it from entries, choosing the offsets of its nodes and writing it
  as a stream of bytes. A name is a list of bytes without the terminating NUL. The template's
  parameter is a type of values with the operations \<open>willInsertAs\<close>, \<open>encodedSize\<close> and \<open>appendToStream\<close>;
  \<open>trie_value\<close> states what the tree relies on, and \<open>ExportInfo\<close> and \<open>DylibIndex\<close> provide it. \<open>entries\<close> is what a
  tree stands for: the list of names and values it holds.
\<close>

section \<open>Nodes\<close>

text \<open>
  \<open>fInfo\<close> is \<open>Some\<close> exactly when \<open>fIsTerminal\<close> is set; the value of a node that is not terminal is never read. The children
  are a \<open>std::map\<close>: a list in the order of its keys.
\<close>

datatype 'v Node = Node (fChildren: "(u8 list \<times> 'v Node) list") (fInfo: "'v option") (fTrieOffset: u32)

lemma size_child [termination_simp]: "(e, c) \<in> set cs \<Longrightarrow> size c < Suc (size_list (size_prod (\<lambda>_. 0) size) cs)"
  by (induction cs) auto

fun map_insert :: "u8 list \<Rightarrow> 'a \<Rightarrow> (u8 list \<times> 'a) list \<Rightarrow> (u8 list \<times> 'a) list" where
  "map_insert k v [] = [(k, v)]"
| "map_insert k v ((k', v') # kvs) =
     (if k < k' then (k, v) # (k', v') # kvs else if k = k' then (k', v') # kvs else (k', v') # map_insert k v kvs)"

definition map_erase :: "u8 list \<Rightarrow> (u8 list \<times> 'a) list \<Rightarrow> (u8 list \<times> 'a) list" where
  "map_erase k kvs = filter (\<lambda>kv. fst kv \<noteq> k) kvs"

section \<open>Adding an entry\<close>

text \<open>
  \<open>std::mismatch\<close> of an edge with the rest of the name: how many bytes agree. At the end of the name it reads the terminating
  NUL, which no edge contains.
\<close>

fun mismatch :: "u8 list \<Rightarrow> u8 list \<Rightarrow> nat" where
  "mismatch (x # xs) (y # ys) = (if x = y then Suc (mismatch xs ys) else 0)"
| "mismatch _ _ = 0"

text \<open>The first child whose edge matches in full or in part.\<close>

fun first_match :: "u8 list \<Rightarrow> (u8 list \<times> 'v Node) list \<Rightarrow> nat option" where
  "first_match start [] = None"
| "first_match start ((edge, child) # cs) =
     (if mismatch edge start = length edge \<or> mismatch edge start \<noteq> 0 then Some 0 else map_option Suc (first_match start cs))"

text \<open>The end of \<open>addEntry\<close>: the rest of the name becomes an edge, or nothing is left and the node is terminal.\<close>

definition finish_entry :: "'v \<Rightarrow> u8 list \<Rightarrow> 'v Node \<Rightarrow> 'v Node" where
  "finish_entry v edgeStr n =
     (if edgeStr = [] then Node (fChildren n) (Some v) (fTrieOffset n)
      else Node (map_insert edgeStr (Node [] (Some v) 0) (fChildren n)) (fInfo n) (fTrieOffset n))"

lemma first_match_less: "first_match start cs = Some i \<Longrightarrow> i < length cs"
  by (induction start cs arbitrary: i rule: first_match.induct) (auto split: if_splits)

function add_at :: "'v \<Rightarrow> u8 list \<Rightarrow> 'v Node \<Rightarrow> 'v Node" where
  "add_at v start (Node cs info off) =
     (case first_match start cs of
        None \<Rightarrow> finish_entry v start (Node cs info off)
      | Some i \<Rightarrow>
          (let (edge, child) = cs ! i; k = mismatch edge start in
           if k = length edge then Node (cs[i := (edge, add_at v (drop k start) child)]) info off
           else
             (let nodeB = Node [(drop k edge, child)] None 0 in
              Node (map_insert (take k edge) (finish_entry v (drop k start) nodeB) (map_erase edge cs)) info off)))"
  by pat_completeness auto
termination
proof (relation "measure (\<lambda>(v, start, n). size n)")
  fix v :: 'v and start off and cs :: "(u8 list \<times> 'v Node) list" and info i x edge child k
  assume "first_match start cs = Some i" "x = cs ! i" "(edge, child) = x"
  then have "(edge, child) \<in> set cs" by (metis first_match_less nth_mem)
  then show "((v, drop k start, child), v, start, Node cs info off) \<in> measure (\<lambda>(v, start, n). size n)"
    using size_child [of edge child cs] by simp
qed simp

declare add_at.simps [simp del]

definition addEntry :: "(u8 list \<Rightarrow> 'v \<Rightarrow> 'v) \<Rightarrow> u8 list \<times> 'v \<Rightarrow> 'v Node \<Rightarrow> 'v Node" where
  "addEntry willInsertAs entry root = add_at (willInsertAs (fst entry) (snd entry)) (fst entry) root"

definition Trie :: "(u8 list \<Rightarrow> 'v \<Rightarrow> 'v) \<Rightarrow> (u8 list \<times> 'v) list \<Rightarrow> 'v Node" where
  "Trie willInsertAs es = foldl (\<lambda>root entry. addEntry willInsertAs entry root) (Node [] None 0) es"

section \<open>What a tree holds\<close>

fun terminal_entry :: "'v option \<Rightarrow> (u8 list \<times> 'v) list" where
  "terminal_entry None = []"
| "terminal_entry (Some v) = [([], v)]"

fun entries :: "'v Node \<Rightarrow> (u8 list \<times> 'v) list" where
  "entries (Node cs info off) = terminal_entry info @ concat (map (\<lambda>(e, c). map (\<lambda>(s, v). (e @ s, v)) (entries c)) cs)"

fun wf_node :: "'v Node \<Rightarrow> bool" where
  "wf_node (Node cs info off) \<longleftrightarrow>
     list_all (\<lambda>(e, c). e \<noteq> [] \<and> 0 \<notin> set e \<and> wf_node c) cs \<and> distinct (map (\<lambda>(e, c). hd e) cs)"

definition below :: "u8 list \<Rightarrow> 'v Node \<Rightarrow> (u8 list \<times> 'v) set" where
  "below e c = (\<lambda>(s, v). (e @ s, v)) ` set (entries c)"

lemma entries_set: "set (entries (Node cs info off)) = set (terminal_entry info) \<union> (\<Union>(e, c)\<in>set cs. below e c)"
  by (simp add: below_def split_def)

lemma set_map_insert: "k \<notin> fst ` set kvs \<Longrightarrow> set (map_insert k v kvs) = insert (k, v) (set kvs)"
  by (induction k v kvs rule: map_insert.induct) auto

lemma map_fst_map_insert: "k \<notin> fst ` set kvs \<Longrightarrow> mset (map fst (map_insert k v kvs)) = add_mset k (mset (map fst kvs))"
  by (induction k v kvs rule: map_insert.induct) auto

lemma mismatch_take: "take (mismatch e s) e = take (mismatch e s) s"
  by (induction e s rule: mismatch.induct) auto

lemma mismatch_le: "mismatch e s \<le> length e" "mismatch e s \<le> length s"
  by (induction e s rule: mismatch.induct) auto

lemma mismatch_full: "mismatch e s = length e \<longleftrightarrow> (\<exists>r. s = e @ r)"
  by (induction e s rule: mismatch.induct) auto

lemma mismatch_0: "mismatch e s = 0 \<longleftrightarrow> e = [] \<or> s = [] \<or> hd e \<noteq> hd s"
  by (cases e; cases s) auto

lemma mismatch_stops: "mismatch e s \<noteq> length e \<Longrightarrow> mismatch (drop (mismatch e s) e) (drop (mismatch e s) s) = 0"
  by (induction e s rule: mismatch.induct) auto

lemma first_match_None: "first_match s cs = None \<longleftrightarrow> (\<forall>(e, c)\<in>set cs. mismatch e s \<noteq> length e \<and> mismatch e s = 0)"
  by (induction s cs rule: first_match.induct) auto

lemma first_match_Some: "first_match s cs = Some i \<Longrightarrow> mismatch (fst (cs ! i)) s = length (fst (cs ! i)) \<or> mismatch (fst (cs ! i)) s \<noteq> 0"
  by (induction s cs arbitrary: i rule: first_match.induct) (auto split: if_splits)

text \<open>An entry of a tree with a given first byte lies below the edge with that byte.\<close>

definition edges_ok :: "(u8 list \<times> 'v Node) list \<Rightarrow> bool" where
  "edges_ok cs \<longleftrightarrow> list_all (\<lambda>(e, c). e \<noteq> [] \<and> 0 \<notin> set e \<and> wf_node c) cs \<and> distinct (map (\<lambda>(e, c). hd e) cs)"

lemma wf_node_edges: "wf_node (Node cs info off) \<longleftrightarrow> edges_ok cs"
  by (simp add: edges_ok_def)

declare wf_node.simps [simp del] wf_node_edges [simp]

lemma edges_ok_Cons: "edges_ok ((e, c) # cs) \<longleftrightarrow> e \<noteq> [] \<and> 0 \<notin> set e \<and> wf_node c \<and> hd e \<notin> set (map (\<lambda>(e, c). hd e) cs) \<and> edges_ok cs"
  by (auto simp: edges_ok_def)

lemma edges_okD: "edges_ok cs \<Longrightarrow> (e, c) \<in> set cs \<Longrightarrow> e \<noteq> [] \<and> 0 \<notin> set e \<and> wf_node c"
  by (auto simp: edges_ok_def list_all_iff)

lemma edges_ok_hd: "edges_ok cs \<Longrightarrow> (e, c) \<in> set cs \<Longrightarrow> (e', c') \<in> set cs \<Longrightarrow> hd e = hd e' \<Longrightarrow> (e, c) = (e', c')"
  unfolding edges_ok_def using distinct_map [of "\<lambda>(e, c). hd e" cs] inj_onD [of "\<lambda>(e, c). hd e" "set cs" "(e, c)" "(e', c')"] by auto

lemma edges_ok_add:
  assumes "edges_ok cs" and "e \<noteq> []" and "0 \<notin> set e" and "wf_node c" and "\<forall>(e', c')\<in>set cs. hd e' \<noteq> hd e"
  shows "edges_ok (map_insert e c cs) \<and> set (map_insert e c cs) = insert (e, c) (set cs)"
proof -
  have key: "e \<notin> fst ` set cs" using assms(5) by auto
  then have s: "set (map_insert e c cs) = insert (e, c) (set cs)" by (rule set_map_insert)
  have "mset (map (\<lambda>(e, c). hd e) kvs) = image_mset hd (mset (map fst kvs))" for kvs :: "(u8 list \<times> 'a Node) list"
    by (simp add: multiset.map_comp comp_def split_def)
  then have "mset (map (\<lambda>(e, c). hd e) (map_insert e c cs)) = mset (map (\<lambda>(e, c). hd e) ((e, c) # cs))"
    using map_fst_map_insert [OF key, of c] by simp
  then have "distinct (map (\<lambda>(e, c). hd e) (map_insert e c cs)) \<longleftrightarrow> distinct (map (\<lambda>(e, c). hd e) ((e, c) # cs))"
    by (rule mset_eq_imp_distinct_iff)
  moreover have "hd e \<notin> (\<lambda>(e, c). hd e) ` set cs" using assms(5) by auto
  moreover have "list_all (\<lambda>(e, c). e \<noteq> [] \<and> 0 \<notin> set e \<and> wf_node c) (map_insert e c cs)"
    using assms(1-4) by (simp add: list_all_iff s edges_ok_def)
  ultimately show ?thesis using s assms(1) by (simp add: edges_ok_def)
qed

lemma edges_ok_erase:
  assumes "edges_ok cs" and "(e, c) \<in> set cs"
  shows "edges_ok (map_erase e cs) \<and> set (map_erase e cs) = set cs - {(e, c)}"
proof -
  have "distinct (map (\<lambda>(e, c). hd e) (map_erase e cs))"
    using assms(1) distinct_map_filter unfolding edges_ok_def map_erase_def by blast
  moreover have "x \<in> set (map_erase e cs) \<longleftrightarrow> x \<in> set cs - {(e, c)}" for x
    using edges_ok_hd [OF assms(1) _ assms(2), of e "snd x"] by (cases x) (auto simp: map_erase_def)
  then have "set (map_erase e cs) = set cs - {(e, c)}" by blast
  ultimately show ?thesis using assms(1) by (auto simp: edges_ok_def list_all_iff)
qed

lemma edges_ok_update:
  assumes "edges_ok cs" and "i < length cs" and "cs ! i = (e, c)" and "wf_node c'"
  shows "edges_ok (cs[i := (e, c')]) \<and> set (cs[i := (e, c')]) = insert (e, c') (set cs - {(e, c)})"
proof -
  have "map (\<lambda>(e, c). hd e) (cs[i := (e, c')]) = map (\<lambda>(e, c). hd e) cs"
    using assms(2,3) by (simp add: map_update list_update_same_conv)
  moreover have "distinct cs" using assms(1) distinct_map unfolding edges_ok_def by blast
  then have "set (cs[i := (e, c')]) = insert (e, c') (set cs - {(e, c)})" using assms(2,3) by (simp add: set_update_distinct)
  moreover have "(e, c) \<in> set cs" using assms(2,3) nth_mem by metis
  ultimately show ?thesis using assms(1,4) edges_okD [OF assms(1), of e c] by (auto simp: edges_ok_def list_all_iff)
qed

text \<open>\<open>holds_more n' s v n\<close>: the tree \<open>n'\<close> is well formed and holds what \<open>n\<close> holds, with \<open>v\<close> under the name \<open>s\<close>.\<close>

definition holds_more :: "'v Node \<Rightarrow> u8 list \<Rightarrow> 'v \<Rightarrow> 'v Node \<Rightarrow> bool" where
  "holds_more n' s v n \<longleftrightarrow> wf_node n' \<and> set (entries n') = insert (s, v) {x \<in> set (entries n). fst x \<noteq> s}"

lemma below_leaf [simp]: "below e (Node [] (Some v) off) = {(e, v)}"
  by (simp add: below_def)

lemma below_below: "below a (Node [(b, c)] None off) = below (a @ b) c"
  by (auto simp: below_def image_iff)

declare entries.simps [simp del]

lemma terminal_names: "x \<in> set (terminal_entry info) \<Longrightarrow> fst x = []"
  by (cases info) auto

lemma below_hd: "x \<in> below e c \<Longrightarrow> e \<noteq> [] \<Longrightarrow> fst x \<noteq> [] \<and> hd (fst x) = hd e"
  by (auto simp: below_def)

lemma below_more:
  assumes "holds_more n' r v n"
  shows "below a n' = insert (a @ r, v) {x \<in> below a n. fst x \<noteq> a @ r}"
proof -
  have "below a n' = (\<lambda>(s, v). (a @ s, v)) ` insert (r, v) {x \<in> set (entries n). fst x \<noteq> r}"
    using assms by (simp add: below_def holds_more_def)
  also have "\<dots> = insert (a @ r, v) {x \<in> below a n. fst x \<noteq> a @ r}" unfolding below_def by auto
  finally show ?thesis .
qed

lemma finish_entry_holds_more:
  assumes "edges_ok cs" and "0 \<notin> set s" and "\<forall>(e, c)\<in>set cs. mismatch e s = 0"
  shows "holds_more (finish_entry v s (Node cs info off)) s v (Node cs info off)"
proof (cases "s = []")
  case True
  have "fst x \<noteq> []" if "x \<in> (\<Union>(e, c)\<in>set cs. below e c)" for x
    using that edges_okD [OF assms(1)] below_hd by fastforce
  with True assms(1) show ?thesis using terminal_names [of _ info]
    by (auto simp: holds_more_def finish_entry_def entries_set)
next
  case False
  have other: "hd e \<noteq> hd s" "e \<noteq> []" if "(e, c) \<in> set cs" for e c
    using assms(3) that edges_okD [OF assms(1) that] False by (auto simp: mismatch_0)
  let ?cs = "map_insert s (Node [] (Some v) 0) cs"
  have ok: "edges_ok ?cs" "set ?cs = insert (s, Node [] (Some v) 0) (set cs)"
    using edges_ok_add [OF assms(1) False assms(2), of "Node [] (Some v) 0"] other by (auto simp: edges_ok_def)
  have "fst x \<noteq> s" if x: "x \<in> (\<Union>(e, c)\<in>set cs. below e c)" for x
  proof -
    from x obtain e c where "(e, c) \<in> set cs" "x \<in> below e c" by auto
    then show ?thesis using other [of e c] below_hd [of x e c] by auto
  qed
  moreover have "fst x \<noteq> s" if "x \<in> set (terminal_entry info)" for x using terminal_names [OF that] False by simp
  ultimately have "{x \<in> set (entries (Node cs info off)). fst x \<noteq> s} = set (entries (Node cs info off))"
    unfolding entries_set by blast
  with ok False show ?thesis by (simp add: holds_more_def finish_entry_def entries_set)
qed

text \<open>Replacing what lies below one edge by more of it.\<close>

lemma below_edge_holds_more:
  assumes cs: "edges_ok cs" and cs': "edges_ok cs'" and edge: "(e, c) \<in> set cs" "hd a = hd e" "a \<noteq> []"
    and set: "set cs' = insert (a, n') (set cs - {(e, c)})"
    and n': "below a n' = insert (a @ r, v) {x \<in> below e c. fst x \<noteq> a @ r}"
  shows "holds_more (Node cs' info off) (a @ r) v (Node cs info off)"
proof -
  define R where "R = (\<Union>(e', c')\<in>set cs - {(e, c)}. below e' c')"
  have R: "fst x \<noteq> a @ r" if x: "x \<in> R" for x
  proof
    assume eq: "fst x = a @ r"
    from x obtain e' c' where e': "(e', c') \<in> set cs" "(e', c') \<noteq> (e, c)" "x \<in> below e' c'" by (auto simp: R_def)
    then have "hd e' = hd e" using below_hd [OF e'(3)] edges_okD [OF cs e'(1)] eq edge by simp
    then show False using edges_ok_hd [OF cs e'(1) edge(1)] e'(2) by simp
  qed
  have T: "fst x \<noteq> a @ r" if "x \<in> set (terminal_entry info)" for x using terminal_names [OF that] edge(3) by simp
  have "set (entries (Node cs info off)) = set (terminal_entry info) \<union> below e c \<union> R"
    using edge(1) by (auto simp: entries_set R_def)
  moreover have "set (entries (Node cs' info off)) = set (terminal_entry info) \<union> below a n' \<union> R"
    by (auto simp: entries_set R_def set)
  ultimately show ?thesis using R T cs' by (auto simp: holds_more_def n')
qed

lemma add_at_holds_more: "wf_node n \<Longrightarrow> 0 \<notin> set s \<Longrightarrow> holds_more (add_at v s n) s v n"
proof (induction v s n rule: add_at.induct)
  case (1 v s cs info off)
  then have cs: "edges_ok cs" by simp
  show ?case
  proof (cases "first_match s cs")
    case None
    then have "\<forall>(e, c)\<in>set cs. mismatch e s = 0" by (auto simp: first_match_None)
    from finish_entry_holds_more [OF cs "1.prems"(2) this] None show ?thesis by (simp add: add_at.simps)
  next
    case (Some i)
    obtain e c where ec: "cs ! i = (e, c)" by fastforce
    have i: "i < length cs" using first_match_less [OF Some] .
    then have mem: "(e, c) \<in> set cs" using ec nth_mem by metis
    note e = edges_okD [OF cs mem]
    define k where "k = mismatch e s"
    have "k = length e \<or> k \<noteq> 0" using first_match_Some [OF Some] ec k_def by simp
    then have k: "k \<noteq> 0" "k \<le> length e" using e mismatch_le [of e s] by (auto simp: k_def)
    have s: "s = take k e @ drop k s" using mismatch_take [of e s] unfolding k_def by (metis append_take_drop_id)
    have rest: "0 \<notin> set (drop k s)" using "1.prems"(2) in_set_dropD by metis
    show ?thesis
    proof (cases "k = length e")
      case True
      let ?n = "add_at v (drop k s) c"
      have IH: "holds_more ?n (drop k s) v c" using "1.IH" [OF Some refl ec [symmetric] _ _ _ rest] True e by (simp add: k_def)
      note upd = edges_ok_update [OF cs i ec, of ?n]
      have "holds_more (Node (cs[i := (e, ?n)]) info off) (e @ drop k s) v (Node cs info off)"
        using below_edge_holds_more [OF cs _ mem refl _ _ below_more [OF IH]] upd IH e by (simp add: holds_more_def)
      then show ?thesis using s True Some ec by (simp add: add_at.simps Let_def k_def)
    next
      case False
      let ?B = "Node [(drop k e, c)] None 0" and ?cs = "map_erase e cs"
      have B: "edges_ok [(drop k e, c)]" using False k e by (auto simp: edges_ok_def dest: in_set_dropD)
      have "mismatch (drop k e) (drop k s) = 0" using mismatch_stops [of e s] False by (simp add: k_def)
      then have fin: "holds_more (finish_entry v (drop k s) ?B) (drop k s) v ?B"
        by (intro finish_entry_holds_more [OF B rest]) simp
      note erase = edges_ok_erase [OF cs mem]
      have take: "take k e \<noteq> []" "hd (take k e) = hd e" "0 \<notin> set (take k e)" using k e by (auto simp: hd_take dest: in_set_takeD)
      have "\<forall>(e', c')\<in>set ?cs. hd e' \<noteq> hd (take k e)" using erase edges_ok_hd [OF cs _ mem] take(2) by fastforce
      from edges_ok_add [OF _ take(1,3) _ this, of "finish_entry v (drop k s) ?B"] erase fin
      have add: "edges_ok (map_insert (take k e) (finish_entry v (drop k s) ?B) ?cs)"
        "set (map_insert (take k e) (finish_entry v (drop k s) ?B) ?cs) = insert (take k e, finish_entry v (drop k s) ?B) (set cs - {(e, c)})"
        by (auto simp: holds_more_def)
      have "holds_more (Node (map_insert (take k e) (finish_entry v (drop k s) ?B) ?cs) info off) (take k e @ drop k s) v (Node cs info off)"
        using below_edge_holds_more [OF cs add(1) mem take(2,1) add(2)] below_more [OF fin] by (simp add: below_below)
      then show ?thesis using s False Some ec by (simp add: add_at.simps Let_def k_def)
    qed
  qed
qed
lemma holds_more_assoc:
  assumes "holds_more n' s v n" and "\<And>s w. (s, w) \<in> set (entries n) \<longleftrightarrow> f s = Some w"
  shows "wf_node n' \<and> (\<forall>t w. (t, w) \<in> set (entries n') \<longleftrightarrow> (f(s \<mapsto> v)) t = Some w)"
  using assms by (auto simp: holds_more_def)

text \<open>The tree built from a list of entries holds for each name the value given last.\<close>

lemma Trie_entries:
  assumes "\<forall>(s, v)\<in>set es. 0 \<notin> set s"
  shows "wf_node (Trie willInsertAs es)
    \<and> (\<forall>s v. (s, v) \<in> set (entries (Trie willInsertAs es)) \<longleftrightarrow> map_of (rev (map (\<lambda>(s, v). (s, willInsertAs s v)) es)) s = Some v)"
  using assms
proof (induction es rule: rev_induct)
  case Nil
  then show ?case by (simp add: Trie_def entries.simps edges_ok_def)
next
  case (snoc x es)
  obtain s v where x: "x = (s, v)" by fastforce
  have IH: "wf_node (Trie willInsertAs es)" "(t, w) \<in> set (entries (Trie willInsertAs es))
      \<longleftrightarrow> map_of (rev (map (\<lambda>(s, v). (s, willInsertAs s v)) es)) t = Some w" for t w
    using snoc by auto
  have "Trie willInsertAs (es @ [x]) = add_at (willInsertAs s v) s (Trie willInsertAs es)"
    by (simp add: Trie_def addEntry_def x)
  with holds_more_assoc [OF add_at_holds_more [OF IH(1), of s "willInsertAs s v"] IH(2)] snoc.prems show ?case
    by (simp add: x)
qed

section \<open>The offsets of the nodes\<close>

definition node_size :: "('v \<Rightarrow> u32) \<Rightarrow> 'v Node \<Rightarrow> u32" where
  "node_size encodedSize n =
     (case fInfo n of None \<Rightarrow> 1 | Some v \<Rightarrow> encodedSize v + uleb128_size (ucast (encodedSize v))) + 1
     + (\<Sum>(e, c)\<leftarrow>fChildren n. of_nat (length e) + 1 + uleb128_size (ucast (fTrieOffset c)))"

text \<open>
  One round of \<open>updateOffset\<close> over the nodes in the order of \<open>orderTrie\<close>, each node before its children. The state is the
  running offset and \<open>more\<close> (\<open>again\<close> here). A node's size is computed from the offsets its children had before the round.
\<close>

fun update_node :: "('v \<Rightarrow> u32) \<Rightarrow> 'v Node \<Rightarrow> u32 \<times> bool \<Rightarrow> 'v Node \<times> u32 \<times> bool"
and update_nodes :: "('v \<Rightarrow> u32) \<Rightarrow> (u8 list \<times> 'v Node) list \<Rightarrow> u32 \<times> bool \<Rightarrow> (u8 list \<times> 'v Node) list \<times> u32 \<times> bool" where
  "update_node encodedSize (Node cs info off) (offset, again) =
     (let nodeSize = node_size encodedSize (Node cs info off); result = (off \<noteq> offset);
          (cs', st) = update_nodes encodedSize cs (offset + nodeSize, again \<or> result)
      in (Node cs' info offset, st))"
| "update_nodes encodedSize [] st = ([], st)"
| "update_nodes encodedSize ((e, c) # cs) st =
     (let (c', st1) = update_node encodedSize c st; (cs', st2) = update_nodes encodedSize cs st1
      in ((e, c') # cs', st2))"

text \<open>The rounds are repeated until no offset changes; that this happens is shown below.\<close>

partial_function (option) settle :: "('v \<Rightarrow> u32) \<Rightarrow> 'v Node \<Rightarrow> 'v Node option" where
  "settle encodedSize root =
     (case update_node encodedSize root (0, False) of
        (root', offset, again) \<Rightarrow> if again then settle encodedSize root' else Some root')"

section \<open>The stream of bytes\<close>

definition append_string :: "u8 list \<Rightarrow> u8 list" where
  "append_string str = str @ [0]"

definition node_bytes :: "('v \<Rightarrow> u8 list) \<Rightarrow> 'v Node \<Rightarrow> u8 list" where
  "node_bytes appendToStream n =
     (case fInfo n of None \<Rightarrow> [0] | Some v \<Rightarrow> appendToStream v) @ [of_nat (length (fChildren n))]
     @ concat (map (\<lambda>(e, c). append_string e @ append_uleb128 (ucast (fTrieOffset c))) (fChildren n))"

fun tree_bytes :: "('v \<Rightarrow> u8 list) \<Rightarrow> 'v Node \<Rightarrow> u8 list" where
  "tree_bytes appendToStream (Node cs info off) =
     node_bytes appendToStream (Node cs info off) @ concat (map (\<lambda>(e, c). tree_bytes appendToStream c) cs)"

definition emit :: "('v \<Rightarrow> u32) \<Rightarrow> ('v \<Rightarrow> u8 list) \<Rightarrow> 'v Node \<Rightarrow> u8 list option" where
  "emit encodedSize appendToStream root = map_option (tree_bytes appendToStream) (settle encodedSize root)"

section \<open>The values\<close>

text \<open>
  \<open>ExportInfo\<close>: flag 8 marks a re-export from another dylib, flag 16 a stub with a resolver. The byte in front of the
  data is its size, written with \<open>push_back\<close> and so reduced to 8 bits.
\<close>

record ExportInfo =
  ei_address :: u64
  ei_flags :: u64
  ei_other :: u64
  importName :: "u8 list"

definition ExportInfo_new :: ExportInfo where
  "ExportInfo_new = \<lparr>ei_address = 0, ei_flags = 0, ei_other = 0, importName = []\<rparr>"

definition EXPORT_SYMBOL_FLAGS_REEXPORT :: u64 where
  "EXPORT_SYMBOL_FLAGS_REEXPORT = 8"

definition EXPORT_SYMBOL_FLAGS_STUB_AND_RESOLVER :: u64 where
  "EXPORT_SYMBOL_FLAGS_STUB_AND_RESOLVER = 16"

definition export_encodedSize :: "ExportInfo \<Rightarrow> u32" where
  "export_encodedSize i =
     (if ei_flags i AND EXPORT_SYMBOL_FLAGS_REEXPORT \<noteq> 0
      then uleb128_size (ei_flags i) + uleb128_size (ei_other i) + of_nat (length (importName i)) + 1
      else uleb128_size (ei_flags i) + uleb128_size (ei_address i)
        + (if ei_flags i AND EXPORT_SYMBOL_FLAGS_STUB_AND_RESOLVER \<noteq> 0 then uleb128_size (ei_other i) else 0))"

definition export_appendToStream :: "ExportInfo \<Rightarrow> u8 list" where
  "export_appendToStream i =
     (if ei_flags i AND EXPORT_SYMBOL_FLAGS_REEXPORT \<noteq> 0 then
        (if importName i \<noteq> []
         then ucast (uleb128_size (ei_flags i) + uleb128_size (ei_other i) + of_nat (length (importName i)) + 1)
           # append_uleb128 (ei_flags i) @ append_uleb128 (ei_other i) @ append_string (importName i)
         else ucast (uleb128_size (ei_flags i) + uleb128_size (ei_other i) + 1)
           # append_uleb128 (ei_flags i) @ append_uleb128 (ei_other i) @ [0])
      else if ei_flags i AND EXPORT_SYMBOL_FLAGS_STUB_AND_RESOLVER \<noteq> 0
      then ucast (uleb128_size (ei_flags i) + uleb128_size (ei_address i) + uleb128_size (ei_other i))
        # append_uleb128 (ei_flags i) @ append_uleb128 (ei_address i) @ append_uleb128 (ei_other i)
      else ucast (uleb128_size (ei_flags i) + uleb128_size (ei_address i))
        # append_uleb128 (ei_flags i) @ append_uleb128 (ei_address i))"

definition export_willInsertAs :: "u8 list \<Rightarrow> ExportInfo \<Rightarrow> ExportInfo" where
  "export_willInsertAs name i = (if name = importName i then i\<lparr>importName := []\<rparr> else i)"

text \<open>\<open>DylibIndex\<close>, the value of the shared cache's table of paths.\<close>

definition index_encodedSize :: "u32 \<Rightarrow> u32" where
  "index_encodedSize index = uleb128_size (ucast index)"

definition index_appendToStream :: "u32 \<Rightarrow> u8 list" where
  "index_appendToStream index = ucast (uleb128_size (ucast index)) # append_uleb128 (ucast index)"

definition index_willInsertAs :: "u8 list \<Rightarrow> u32 \<Rightarrow> u32" where
  "index_willInsertAs name index = index"
section \<open>Where the nodes are in the stream\<close>

text \<open>
  What the tree relies on: the data of an encodable value is its size in one byte and a payload of 1 to 127 bytes, and
  \<open>encodedSize\<close> is the length of the payload.
\<close>

locale trie_value =
  fixes encodedSize :: "'v \<Rightarrow> u32" and appendToStream :: "'v \<Rightarrow> u8 list"
    and payload_of :: "'v \<Rightarrow> u8 list" and encodable :: "'v \<Rightarrow> bool"
  assumes stream: "encodable v \<Longrightarrow> appendToStream v = of_nat (length (payload_of v)) # payload_of v"
    and payload: "encodable v \<Longrightarrow> payload_of v \<noteq> [] \<and> length (payload_of v) < 128"
    and sized: "encodable v \<Longrightarrow> encodedSize v = of_nat (length (payload_of v))"

lemma uleb128_size_small: "unat v < 128 \<Longrightarrow> uleb128_size v = 1"
proof -
  assume v: "unat v < 128"
  let ?n = "length (append_uleb128 v)"
  have "?n = 1 \<or> 128 ^ (?n - 1) \<le> unat v" and "?n \<noteq> 0" and size: "of_nat ?n = uleb128_size v"
    using append_uleb128_value [of v] by auto
  then have "?n = 1"
  proof (elim disjE)
    assume "128 ^ (?n - 1) \<le> unat v"
    then have "(128::nat) ^ (?n - 1) < 128 ^ 1" using v by simp
    then have "?n - 1 < 1" using power_less_imp_less_exp by (metis one_less_numeral_iff semiring_norm(76))
    with \<open>?n \<noteq> 0\<close> show ?thesis by linarith
  qed
  with size show ?thesis by simp
qed

lemma uleb128_size_length: "uleb128_size v = of_nat (length (append_uleb128 v))"
  using append_uleb128_value [of v] by simp

lemma append_uleb128_mono:
  assumes "v \<le> w"
  shows "length (append_uleb128 v) \<le> length (append_uleb128 w)"
proof (rule ccontr)
  assume "\<not> length (append_uleb128 v) \<le> length (append_uleb128 w)"
  then have lens: "length (append_uleb128 w) \<le> length (append_uleb128 v) - 1" by simp
  moreover have "append_uleb128 w \<noteq> []" using append_uleb128_value [of w] by auto
  ultimately have "128 ^ (length (append_uleb128 v) - 1) \<le> unat v" using append_uleb128_value [of v] by auto
  moreover have "unat w < 128 ^ (length (append_uleb128 v) - 1)"
    using append_uleb128_value [of w] power_increasing [OF lens, of "128::nat"] by linarith
  ultimately show False using assms by (simp add: word_le_nat_alt)
qed

lemma append_uleb128_u32: "length (append_uleb128 (ucast (v :: u32))) \<le> 5"
proof (rule ccontr)
  let ?n = "length (append_uleb128 (ucast v))"
  assume "\<not> ?n \<le> 5"
  then have "5 \<le> ?n - 1" "?n \<noteq> 1" by auto
  then have "(128::nat) ^ 5 \<le> unat (ucast v :: u64)"
    using append_uleb128_value [of "ucast v"] power_increasing [of 5 "?n - 1" "128::nat"] by auto
  moreover have "unat (ucast v :: u64) = unat v" by (simp add: unsigned_ucast_eq take_bit_nat_eq_self)
  ultimately show False using unat_u32_less [of v] by simp
qed

text \<open>\<open>laid_out appendToStream p n\<close>: the offsets of \<open>n\<close> and all nodes below it are those of their bytes, when the stream of \<open>n\<close> starts at \<open>p\<close>.\<close>

fun laid_out :: "('v \<Rightarrow> u8 list) \<Rightarrow> nat \<Rightarrow> 'v Node \<Rightarrow> bool"
and laid_out_all :: "('v \<Rightarrow> u8 list) \<Rightarrow> nat \<Rightarrow> (u8 list \<times> 'v Node) list \<Rightarrow> bool" where
  "laid_out app p (Node cs info off) \<longleftrightarrow> off = of_nat p \<and> laid_out_all app (p + length (node_bytes app (Node cs info off))) cs"
| "laid_out_all app p [] \<longleftrightarrow> True"
| "laid_out_all app p ((e, c) # cs) \<longleftrightarrow> laid_out app p c \<and> laid_out_all app (p + length (tree_bytes app c)) cs"

lemma Node_list_induct [case_names Node Nil Cons]:
  assumes "\<And>cs info off. Q cs \<Longrightarrow> P (Node cs info off)" and "Q []" and "\<And>e c cs. P c \<Longrightarrow> Q cs \<Longrightarrow> Q ((e, c) # cs)"
  shows "P n" and "Q cs"
proof -
  have "P n \<and> Q cs"
    using laid_out_laid_out_all.induct [where P = "\<lambda>_ _ n. P n" and Q = "\<lambda>_ _ cs. Q cs"] assms by blast
  then show "P n" and "Q cs" by auto
qed

lemma Node_values: "(\<forall>v\<in>set_Node (Node cs info off). ok v) \<longleftrightarrow> (\<forall>v\<in>set_option info. ok v) \<and> (\<forall>(e, c)\<in>set cs. \<forall>v\<in>set_Node c. ok v)"
  by (force simp: prod_set_defs)

lemma update_again:
  shows "update_node enc n (p, True) = (n', q, b) \<Longrightarrow> b"
    and "update_nodes enc cs (p, True) = (cs', q, b) \<Longrightarrow> b"
proof (induction n and cs arbitrary: p n' q b and p cs' q b rule: Node_list_induct)
  case (Cons e c cs)
  from Cons.prems obtain c' q1 b1 cs1 where "update_node enc c (p, True) = (c', q1, b1)" "update_nodes enc cs (q1, b1) = (cs1, q, b)"
    by (auto simp: Let_def split: prod.splits)
  with Cons.IH(1) [of p c' q1 b1] Cons.IH(2) [of q1 cs1 q b] show ?case by (cases b1) auto
qed (auto simp: Let_def split: prod.splits)

context trie_value
begin

lemma node_size_length:
  assumes "\<forall>v\<in>set_option info. encodable v"
  shows "node_size encodedSize (Node cs info off) = of_nat (length (node_bytes appendToStream (Node cs info off)))"
proof -
  have "(\<Sum>(e, c)\<leftarrow>cs. of_nat (length e) + 1 + uleb128_size (ucast (fTrieOffset c)))
      = (of_nat (length (concat (map (\<lambda>(e, c). append_string e @ append_uleb128 (ucast (fTrieOffset c))) cs))) :: u32)"
    by (induction cs) (auto simp: append_string_def uleb128_size_length)
  moreover have "(case info of None \<Rightarrow> 1 | Some v \<Rightarrow> encodedSize v + uleb128_size (ucast (encodedSize v)))
      = (of_nat (length (case info of None \<Rightarrow> [0] | Some v \<Rightarrow> appendToStream v)) :: u32)"
  proof (cases info)
    case (Some v)
    then have v: "encodable v" using assms by simp
    then have "unat (ucast (encodedSize v) :: u64) < 128"
      using payload [OF v] sized [OF v] by (simp add: unsigned_ucast_eq take_bit_nat_eq_self unsigned_of_nat)
    then show ?thesis using Some stream [OF v] sized [OF v] by (simp add: uleb128_size_small)
  qed simp
  ultimately show ?thesis by (simp add: node_size_def node_bytes_def)
qed

lemma unchanged_laid_out:
  shows "update_node encodedSize n (of_nat p, b) = (n', q, False) \<Longrightarrow> \<forall>v\<in>set_Node n. encodable v \<Longrightarrow>
      \<not> b \<and> n' = n \<and> laid_out appendToStream p n \<and> q = of_nat (p + length (tree_bytes appendToStream n))"
    and "update_nodes encodedSize cs (of_nat p, b) = (cs', q, False) \<Longrightarrow> \<forall>(e, c)\<in>set cs. \<forall>v\<in>set_Node c. encodable v \<Longrightarrow>
      \<not> b \<and> cs' = cs \<and> laid_out_all appendToStream p cs \<and> q = of_nat (p + length (concat (map (\<lambda>(e, c). tree_bytes appendToStream c) cs)))"
proof (induction n and cs arbitrary: p b n' q and p b cs' q rule: Node_list_induct)
  case (Node cs info off)
  let ?p = "p + length (node_bytes appendToStream (Node cs info off))"
  have size: "of_nat p + node_size encodedSize (Node cs info off) = of_nat ?p"
    using node_size_length [of info cs off] Node.prems(2) unfolding Node_values by simp
  obtain cs' where upd: "update_nodes encodedSize cs (of_nat ?p, b \<or> off \<noteq> of_nat p) = (cs', q, False)" and n': "n' = Node cs' info (of_nat p)"
    using Node.prems(1) by (auto simp: Let_def size split: prod.splits)
  from Node.IH [OF upd] Node.prems(2) n' show ?case unfolding Node_values by (auto simp: add.assoc)
next
  case (Cons e c cs)
  from Cons.prems(1) obtain c' q1 b1 cs1 where c: "update_node encodedSize c (of_nat p, b) = (c', q1, b1)"
    and cs: "update_nodes encodedSize cs (q1, b1) = (cs1, q, False)" and cs': "cs' = (e, c') # cs1"
    by (auto simp: Let_def split: prod.splits)
  have "\<not> b1" using update_again(2) [of encodedSize cs q1 cs1 q False] cs by (cases b1) auto
  with Cons.IH(1) [of p b c' q1] c Cons.prems(2)
  have IH: "\<not> b" "c' = c" "laid_out appendToStream p c" "q1 = of_nat (p + length (tree_bytes appendToStream c))" by auto
  from Cons.IH(2) [of "p + length (tree_bytes appendToStream c)" b1 cs1 q] cs Cons.prems(2) \<open>\<not> b1\<close> IH cs'
  show ?case by (simp add: add.assoc)
qed simp

end

section \<open>The rounds end\<close>

text \<open>The same tree with offsets that are at least as large.\<close>

fun offs_le :: "'v Node \<Rightarrow> 'v Node \<Rightarrow> bool"
and offs_le_all :: "(u8 list \<times> 'v Node) list \<Rightarrow> (u8 list \<times> 'v Node) list \<Rightarrow> bool" where
  "offs_le (Node cs info off) (Node cs' info' off') \<longleftrightarrow> info = info' \<and> off \<le> off' \<and> offs_le_all cs cs'"
| "offs_le_all [] cs' \<longleftrightarrow> cs' = []"
| "offs_le_all ((e, c) # cs) cs' \<longleftrightarrow> (case cs' of [] \<Rightarrow> False | (e', c') # cs'' \<Rightarrow> e = e' \<and> offs_le c c' \<and> offs_le_all cs cs'')"

lemma offs_le_refl [simp]:
  fixes n :: "'v Node" and cs :: "(u8 list \<times> 'v Node) list"
  shows "offs_le n n" and "offs_le_all cs cs"
  by (induction n and cs rule: Node_list_induct) auto

lemma offs_le_trans:
  fixes n :: "'v Node" and cs :: "(u8 list \<times> 'v Node) list"
  shows "offs_le n n1 \<Longrightarrow> offs_le n1 n2 \<Longrightarrow> offs_le n n2" and "offs_le_all cs cs1 \<Longrightarrow> offs_le_all cs1 cs2 \<Longrightarrow> offs_le_all cs cs2"
proof (induction n and cs arbitrary: n1 n2 and cs1 cs2 rule: Node_list_induct)
  case (Node cs info off)
  then show ?case by (cases n1; cases n2) auto
qed (force split: list.splits)+

fun offset_sum :: "'v Node \<Rightarrow> nat" where
  "offset_sum (Node cs info off) = unat off + (\<Sum>(e, c)\<leftarrow>cs. offset_sum c)"

fun node_count :: "'v Node \<Rightarrow> nat" where
  "node_count (Node cs info off) = 1 + (\<Sum>(e, c)\<leftarrow>cs. node_count c)"

lemma offset_sum_bound:
  fixes n :: "'v Node" and cs :: "(u8 list \<times> 'v Node) list"
  shows "offset_sum n \<le> node_count n * 2 ^ 32" and "(\<Sum>(e, c)\<leftarrow>cs. offset_sum c) \<le> (\<Sum>(e, c)\<leftarrow>cs. node_count c) * 2 ^ 32"
proof (induction n and cs rule: Node_list_induct)
  case (Node cs info off)
  then show ?case using unat_u32_less [of off] by simp
qed (auto simp: algebra_simps)

lemma offs_le_same:
  fixes n :: "'v Node" and cs :: "(u8 list \<times> 'v Node) list"
  shows "offs_le n n' \<Longrightarrow> entries n' = entries n \<and> wf_node n' = wf_node n \<and> set_Node n' = set_Node n \<and> node_count n' = node_count n"
    and "offs_le_all cs cs' \<Longrightarrow> map fst cs' = map fst cs \<and> map (\<lambda>(e, c). (e, entries c)) cs' = map (\<lambda>(e, c). (e, entries c)) cs
      \<and> edges_ok cs' = edges_ok cs \<and> (\<Union>(e, c)\<in>set cs'. set_Node c) = (\<Union>(e, c)\<in>set cs. set_Node c)
      \<and> (\<Sum>(e, c)\<leftarrow>cs'. node_count c) = (\<Sum>(e, c)\<leftarrow>cs. node_count c)"
proof (induction n and cs arbitrary: n' and cs' rule: Node_list_induct)
  case (Node cs info off)
  have *: "entries (Node xs info off) = terminal_entry info @ concat (map (\<lambda>(e, es). map (\<lambda>(s, v). (e @ s, v)) es) (map (\<lambda>(e, c). (e, entries c)) xs))" for xs off
    by (simp add: entries.simps comp_def split_def)
  have **: "set_Node (Node xs info off) = (\<Union>(e, c)\<in>set xs. set_Node c) \<union> set_option info" for xs and off :: u32
    by (auto simp: prod_set_defs split_def)
  obtain cs' off' where n': "n' = Node cs' info off'" and le: "offs_le_all cs cs'" using Node.prems by (cases n') auto
  show ?case using Node.IH [OF le] unfolding n' * ** by simp
next
  case (Cons e c cs)
  obtain c' cs1 where cs': "cs' = (e, c') # cs1" and c: "offs_le c c'" and cs: "offs_le_all cs cs1"
    using Cons.prems by (auto split: list.splits)
  have fst: "map fst cs1 = map fst cs" using Cons.IH(2) [OF cs] by blast
  have "map (\<lambda>(e, c). hd e) xs = map hd (map fst xs)" for xs :: "(u8 list \<times> 'v Node) list" by (simp add: comp_def split_def)
  then have "map (\<lambda>(e, c). hd e) cs1 = map (\<lambda>(e, c). hd e) cs" by (simp only: fst)
  with Cons.IH(1) [OF c] Cons.IH(2) [OF cs] show ?case unfolding cs' edges_ok_Cons by simp
qed (auto)

lemma offs_le_strict:
  fixes n :: "'v Node" and cs :: "(u8 list \<times> 'v Node) list"
  shows "offs_le n n' \<Longrightarrow> offset_sum n \<le> offset_sum n' \<and> (n \<noteq> n' \<longrightarrow> offset_sum n < offset_sum n')"
    and "offs_le_all cs cs' \<Longrightarrow> (\<Sum>(e, c)\<leftarrow>cs. offset_sum c) \<le> (\<Sum>(e, c)\<leftarrow>cs'. offset_sum c)
      \<and> (cs \<noteq> cs' \<longrightarrow> (\<Sum>(e, c)\<leftarrow>cs. offset_sum c) < (\<Sum>(e, c)\<leftarrow>cs'. offset_sum c))"
proof (induction n and cs arbitrary: n' and cs' rule: Node_list_induct)
  case (Node cs info off)
  obtain cs' off' where n': "n' = Node cs' info off'" and le: "offs_le_all cs cs'" "off \<le> off'" using Node.prems by (cases n') auto
  then have "unat off \<le> unat off'" "off \<noteq> off' \<longrightarrow> unat off < unat off'" by (auto simp: word_le_nat_alt word_unat_eq_iff)
  with Node.IH [OF le(1)] show ?case unfolding n' by auto
next
  case (Cons e c cs)
  obtain c' cs1 where cs': "cs' = (e, c') # cs1" and c: "offs_le c c'" and cs: "offs_le_all cs cs1"
    using Cons.prems by (auto split: list.splits)
  show ?case using Cons.IH(1) [OF c] Cons.IH(2) [OF cs] unfolding cs' by auto
qed auto

lemma update_changes:
  shows "update_node enc n (p, False) = (n, q, b) \<Longrightarrow> \<not> b" and "update_nodes enc cs (p, False) = (cs, q, b) \<Longrightarrow> \<not> b"
proof (induction n and cs arbitrary: p q b and p q b rule: Node_list_induct)
  case (Cons e c cs)
  then obtain q1 b1 where "update_node enc c (p, False) = (c, q1, b1)" "update_nodes enc cs (q1, b1) = (cs, q, b)"
    by (auto simp: Let_def split: prod.splits)
  with Cons.IH(1) [of p q1 b1] Cons.IH(2) [of q1 q b] show ?case by (cases b1) auto
qed (auto simp: Let_def split: prod.splits)
text \<open>The largest the stream of a tree can be, with five bytes for each offset.\<close>

definition node_bound :: "('v \<Rightarrow> u8 list) \<Rightarrow> (u8 list \<times> 'v Node) list \<Rightarrow> 'v option \<Rightarrow> nat" where
  "node_bound app cs info = (case info of None \<Rightarrow> 1 | Some v \<Rightarrow> length (app v)) + 1 + (\<Sum>(e, c)\<leftarrow>cs. length e + 6)"

fun stream_bound :: "('v \<Rightarrow> u8 list) \<Rightarrow> 'v Node \<Rightarrow> nat" where
  "stream_bound app (Node cs info off) = node_bound app cs info + (\<Sum>(e, c)\<leftarrow>cs. stream_bound app c)"

lemma node_bytes_mono:
  assumes "offs_le_all cs cs'"
  shows "length (node_bytes app (Node cs info off)) \<le> length (node_bytes app (Node cs' info off'))"
    and "length (node_bytes app (Node cs info off)) \<le> node_bound app cs info"
    and "node_bound app cs' info = node_bound app cs info"
proof -
  let ?edges = "\<lambda>cs. length (concat (map (\<lambda>(e, c). append_string e @ append_uleb128 (ucast (fTrieOffset c))) cs))"
  have "?edges cs \<le> ?edges cs' \<and> (\<Sum>(e, c)\<leftarrow>cs'. length e + 6) = (\<Sum>(e, c)\<leftarrow>cs. length e + 6)"
    using assms
  proof (induction cs arbitrary: cs')
    case (Cons ec cs)
    obtain e c where ec: "ec = (e, c)" by fastforce
    obtain c' cs1 where cs': "cs' = (e, c') # cs1" "offs_le c c'" "offs_le_all cs cs1"
      using Cons.prems by (auto simp: ec split: list.splits)
    then have "fTrieOffset c \<le> fTrieOffset c'" by (cases c; cases c') auto
    then have "(ucast (fTrieOffset c) :: u64) \<le> ucast (fTrieOffset c')"
      by (simp add: word_le_nat_alt unsigned_ucast_eq take_bit_nat_eq_self)
    from append_uleb128_mono [OF this] Cons.IH [OF cs'(3)] show ?case unfolding cs'(1) ec by simp
  qed simp
  then show "length (node_bytes app (Node cs info off)) \<le> length (node_bytes app (Node cs' info off'))"
    "node_bound app cs' info = node_bound app cs info" by (auto simp: node_bytes_def node_bound_def)
  have "length (append_string e @ append_uleb128 (ucast (x :: u32))) \<le> length e + 6" for e x
    using append_uleb128_u32 [of x] by (simp add: append_string_def)
  then have "?edges cs \<le> (\<Sum>(e, c)\<leftarrow>cs. length e + 6)"
    by (induction cs) (auto simp del: length_append intro: add_mono simp: length_append [of _ "concat _"])
  then show "length (node_bytes app (Node cs info off)) \<le> node_bound app cs info"
    by (auto simp: node_bytes_def node_bound_def split: option.splits)
qed

lemma offs_le_bound:
  fixes n :: "'v Node" and cs :: "(u8 list \<times> 'v Node) list"
  shows "offs_le n n' \<Longrightarrow> stream_bound app n' = stream_bound app n"
    and "offs_le_all cs cs' \<Longrightarrow> (\<Sum>(e, c)\<leftarrow>cs'. stream_bound app c) = (\<Sum>(e, c)\<leftarrow>cs. stream_bound app c)"
proof (induction n and cs arbitrary: n' and cs' rule: Node_list_induct)
  case (Node cs info off)
  obtain cs' off' where n': "n' = Node cs' info off'" and le: "offs_le_all cs cs'" "off \<le> off'" using Node.prems by (cases n') auto
  show ?case using Node.IH [OF le(1)] node_bytes_mono(3) [OF le(1)] unfolding n' by simp
next
  case (Cons e c cs)
  obtain c' cs1 where cs': "cs' = (e, c') # cs1" and c: "offs_le c c'" and cs: "offs_le_all cs cs1"
    using Cons.prems by (auto split: list.splits)
  show ?case using Cons.IH(1) [OF c] Cons.IH(2) [OF cs] unfolding cs' by simp
qed simp

lemma of_nat_u32_mono: "p \<le> q \<Longrightarrow> q < 2 ^ 32 \<Longrightarrow> (of_nat p :: u32) \<le> of_nat q"
  by (simp add: word_le_nat_alt unsigned_of_nat take_bit_nat_eq_self)

context trie_value
begin

text \<open>A round keeps the order of two trees that differ in their offsets only.\<close>

lemma update_mono:
  shows "offs_le n n' \<Longrightarrow> \<forall>v\<in>set_Node n. encodable v \<Longrightarrow> p \<le> p' \<Longrightarrow> p' + stream_bound appendToStream n < 2 ^ 32 \<Longrightarrow>
      update_node encodedSize n (of_nat p, b) = (u, r, d) \<Longrightarrow> update_node encodedSize n' (of_nat p', b') = (u', r', d') \<Longrightarrow>
      \<exists>q q'. r = of_nat q \<and> r' = of_nat q' \<and> q \<le> q' \<and> q' \<le> p' + stream_bound appendToStream n \<and> offs_le u u'"
    and "offs_le_all cs cs' \<Longrightarrow> \<forall>(e, c)\<in>set cs. \<forall>v\<in>set_Node c. encodable v \<Longrightarrow> p \<le> p' \<Longrightarrow>
      p' + (\<Sum>(e, c)\<leftarrow>cs. stream_bound appendToStream c) < 2 ^ 32 \<Longrightarrow>
      update_nodes encodedSize cs (of_nat p, b) = (us, r, d) \<Longrightarrow> update_nodes encodedSize cs' (of_nat p', b') = (us', r', d') \<Longrightarrow>
      \<exists>q q'. r = of_nat q \<and> r' = of_nat q' \<and> q \<le> q' \<and> q' \<le> p' + (\<Sum>(e, c)\<leftarrow>cs. stream_bound appendToStream c) \<and> offs_le_all us us'"
proof (induction n and cs arbitrary: n' p p' b u r d b' u' r' d' and cs' p p' b us r d b' us' r' d' rule: Node_list_induct)
  case (Node cs info off)
  obtain cs' off' where n': "n' = Node cs' info off'" and le: "offs_le_all cs cs'" "off \<le> off'" using Node.prems(1) by (cases n') auto
  let ?l = "length (node_bytes appendToStream (Node cs info off))" and ?l' = "length (node_bytes appendToStream (Node cs' info off'))"
  have vals: "\<forall>v\<in>set_option info. encodable v" "\<forall>(e, c)\<in>set cs. \<forall>v\<in>set_Node c. encodable v" using Node.prems(2) unfolding Node_values by auto
  note len = node_bytes_mono(1) [OF le(1), of appendToStream info off off']
  have len': "?l' \<le> node_bound appendToStream cs info" using node_bytes_mono(2) [of cs' cs' appendToStream info off'] node_bytes_mono(3) [OF le(1)] by simp
  obtain us where u: "u = Node us info (of_nat p)" "update_nodes encodedSize cs (of_nat (p + ?l), b \<or> off \<noteq> of_nat p) = (us, r, d)"
    using Node.prems(5) node_size_length [OF vals(1)] by (auto simp: Let_def split: prod.splits)
  obtain us' where u': "u' = Node us' info (of_nat p')" "update_nodes encodedSize cs' (of_nat (p' + ?l'), b' \<or> off' \<noteq> of_nat p') = (us', r', d')"
    using Node.prems(6) node_size_length [OF vals(1)] by (auto simp: n' Let_def split: prod.splits)
  obtain q q' where q: "r = of_nat q" "r' = of_nat q'" "q \<le> q'" "q' \<le> p' + ?l' + (\<Sum>(e, c)\<leftarrow>cs. stream_bound appendToStream c)" "offs_le_all us us'"
    using Node.IH [OF le(1) vals(2) _ _ u(2) u'(2)] Node.prems(3,4) len len' by fastforce
  have "(of_nat p :: u32) \<le> of_nat p'" by (rule of_nat_u32_mono) (use Node.prems(3,4) in auto)
  with q len' u(1) u'(1) show ?case by (intro exI [of _ q] exI [of _ q']) auto
next
  case (Cons e c cs)
  obtain c' cs1 where cs': "cs' = (e, c') # cs1" and c: "offs_le c c'" and cs: "offs_le_all cs cs1"
    using Cons.prems(1) by (auto split: list.splits)
  obtain v vs r1 d1 where u: "us = (e, v) # vs" "update_node encodedSize c (of_nat p, b) = (v, r1, d1)" "update_nodes encodedSize cs (r1, d1) = (vs, r, d)"
    using Cons.prems(5) by (auto simp: Let_def split: prod.splits)
  obtain v' vs' r1' d1' where u': "us' = (e, v') # vs'" "update_node encodedSize c' (of_nat p', b') = (v', r1', d1')" "update_nodes encodedSize cs1 (r1', d1') = (vs', r', d')"
    using Cons.prems(6) by (auto simp: cs' Let_def split: prod.splits)
  obtain q q' where q: "r1 = of_nat q" "r1' = of_nat q'" "q \<le> q'" "q' \<le> p' + stream_bound appendToStream c" "offs_le v v'"
    using Cons.IH(1) [OF c _ Cons.prems(3) _ u(2) u'(2)] Cons.prems(2,4) by auto
  obtain s s' where "r = of_nat s" "r' = of_nat s'" "s \<le> s'" "s' \<le> q' + (\<Sum>(e, c)\<leftarrow>cs. stream_bound appendToStream c)" "offs_le_all vs vs'"
    using Cons.IH(2) [OF cs _ q(3) _ u(3) [unfolded q(1)] u'(3) [unfolded q(2)]] Cons.prems(2,4) q(4) by auto
  with q u(1) u'(1) show ?case by (intro exI [of _ s] exI [of _ s']) auto
qed auto

lemma settle_laid_out:
  assumes "offs_le n (fst (update_node encodedSize n (0, False)))" and "\<forall>v\<in>set_Node n. encodable v" and "stream_bound appendToStream n < 2 ^ 32"
  shows "\<exists>n'. settle encodedSize n = Some n' \<and> offs_le n n' \<and> laid_out appendToStream 0 n'"
  using assms
proof (induction "node_count n * 2 ^ 32 - offset_sum n" arbitrary: n rule: less_induct)
  case less
  obtain n1 q b where upd: "update_node encodedSize n (0, False) = (n1, q, b)" by (metis prod_cases3)
  show ?case
  proof (cases b)
    case False
    from unchanged_laid_out(1) [of n 0 False n1 q] upd False less.prems(2) have "n1 = n" "laid_out appendToStream 0 n" by auto
    with upd False show ?thesis by (simp add: settle.simps [of encodedSize n])
  next
    case True
    have le: "offs_le n n1" using less.prems(1) upd by simp
    have "n \<noteq> n1" using update_changes(1) [of encodedSize n 0 q b] upd True by auto
    then have "offset_sum n < offset_sum n1" using offs_le_strict(1) [OF le] by simp
    moreover have "offset_sum n1 \<le> node_count n * 2 ^ 32" using offset_sum_bound(1) [of n1] offs_le_same(1) [OF le] by simp
    ultimately have smaller: "node_count n1 * 2 ^ 32 - offset_sum n1 < node_count n * 2 ^ 32 - offset_sum n" using offs_le_same(1) [OF le] by simp
    obtain n2 q2 b2 where upd2: "update_node encodedSize n1 (0, False) = (n2, q2, b2)" by (metis prod_cases3)
    have "offs_le n1 n2" using update_mono(1) [OF le less.prems(2), of 0 0 False n1 q b False n2 q2 b2] upd upd2 less.prems(3) by auto
    then obtain n' where "settle encodedSize n1 = Some n'" "offs_le n1 n'" "laid_out appendToStream 0 n'"
      using less.hyps [OF smaller] upd2 less.prems(2,3) offs_le_same(1) [OF le] offs_le_bound(1) [OF le] by auto
    with upd True offs_le_trans(1) [OF le] show ?thesis by (simp add: settle.simps [of encodedSize n])
  qed
qed

end
section \<open>New trees and their streams\<close>

fun zeroed :: "'v Node \<Rightarrow> bool" where
  "zeroed (Node cs info off) \<longleftrightarrow> off = 0 \<and> list_all (\<lambda>(e, c). zeroed c) cs"

lemma set_map_insert_subset: "set (map_insert k v kvs) \<subseteq> insert (k, v) (set kvs)"
  by (induction k v kvs rule: map_insert.induct) auto

lemma zeroed_insert:
  assumes "list_all (\<lambda>(e, c). zeroed c) cs" and "zeroed n"
  shows "list_all (\<lambda>(e, c). zeroed c) (map_insert e n cs)"
  using assms set_map_insert_subset [of e n cs] unfolding list_all_iff by (auto dest: subsetD)

lemma zeroed_finish: "zeroed n \<Longrightarrow> zeroed (finish_entry v s n)"
  by (cases n) (simp add: finish_entry_def zeroed_insert)

lemma zeroed_add_at: "zeroed n \<Longrightarrow> zeroed (add_at v s n)"
proof (induction v s n rule: add_at.induct)
  case (1 v s cs info off)
  then have cs: "list_all (\<lambda>(e, c). zeroed c) cs" "off = 0" by auto
  show ?case
  proof (cases "first_match s cs")
    case None
    then show ?thesis using zeroed_finish [OF "1.prems"] by (simp add: add_at.simps)
  next
    case (Some i)
    obtain e c where ec: "cs ! i = (e, c)" by fastforce
    have i: "i < length cs" using first_match_less [OF Some] .
    then have c: "zeroed c" using cs(1) ec by (metis case_prod_conv list_all_length)
    have erased: "list_all (\<lambda>(e, c). zeroed c) (map_erase e cs)" using cs(1) by (auto simp: list_all_iff map_erase_def)
    show ?thesis
    proof (cases "mismatch e s = length e")
      case True
      then have "zeroed (add_at v (drop (mismatch e s) s) c)" using "1.IH" [OF Some refl ec [symmetric] refl _ c] by simp
      then have "list_all (\<lambda>(e, c). zeroed c) (cs[i := (e, add_at v (drop (mismatch e s) s) c)])"
        using cs(1) set_update_subset_insert unfolding list_all_iff by fastforce
      with True Some ec cs(2) show ?thesis by (simp add: add_at.simps Let_def)
    next
      case False
      have "zeroed (finish_entry v (drop (mismatch e s) s) (Node [(drop (mismatch e s) e, c)] None 0))" by (rule zeroed_finish) (simp add: c)
      from zeroed_insert [OF erased this] False Some ec cs(2) show ?thesis by (simp add: add_at.simps Let_def)
    qed
  qed
qed

lemma zeroed_Trie: "zeroed (Trie willInsertAs es)"
  by (induction es rule: rev_induct) (simp_all add: Trie_def addEntry_def zeroed_add_at)

lemma zeroed_offs_le:
  fixes n :: "'v Node" and cs :: "(u8 list \<times> 'v Node) list"
  shows "zeroed n \<Longrightarrow> offs_le n (fst (update_node enc n st))"
    and "list_all (\<lambda>(e, c). zeroed c) cs \<Longrightarrow> offs_le_all cs (fst (update_nodes enc cs st))"
proof (induction n and cs arbitrary: st and st rule: Node_list_induct)
  case (Node cs info off)
  then show ?case by (cases st) (auto simp: Let_def split_def)
next
  case (Cons e c cs)
  then show ?case by (auto simp: Let_def split_def)
qed simp

lemma set_Node_entries:
  fixes n :: "'v Node" and cs :: "(u8 list \<times> 'v Node) list"
  shows "set_Node n = snd ` set (entries n)" and "(\<Union>(e, c)\<in>set cs. set_Node c) = (\<Union>(e, c)\<in>set cs. snd ` set (entries c))"
proof (induction n and cs rule: Node_list_induct)
  case (Node cs info off)
  have "set_Node (Node cs info off) = set_option info \<union> (\<Union>(e, c)\<in>set cs. set_Node c)" by (auto simp: prod_set_defs split_def)
  also have "\<dots> = set_option info \<union> (\<Union>(e, c)\<in>set cs. snd ` set (entries c))" by (simp only: Node)
  also have "\<dots> = snd ` set (entries (Node cs info off))"
    by (cases info) (auto simp: entries_set below_def image_UN image_comp comp_def split_def)
  finally show ?case .
qed auto

context trie_value
begin

lemma emit_laid_out:
  assumes "zeroed n" and "\<forall>(s, v)\<in>set (entries n). encodable v" and "stream_bound appendToStream n < 2 ^ 32"
  shows "\<exists>n'. emit encodedSize appendToStream n = Some (tree_bytes appendToStream n') \<and> offs_le n n' \<and> laid_out appendToStream 0 n'"
proof -
  have "\<forall>v\<in>set_Node n. encodable v" using assms(2) by (auto simp: set_Node_entries)
  from settle_laid_out [OF zeroed_offs_le(1) [OF assms(1)] this assms(3)] show ?thesis by (auto simp: emit_def)
qed

end

definition export_payload :: "ExportInfo \<Rightarrow> u8 list" where
  "export_payload i = append_uleb128 (ei_flags i)
     @ (if ei_flags i AND EXPORT_SYMBOL_FLAGS_REEXPORT \<noteq> 0 then append_uleb128 (ei_other i) @ importName i @ [0]
        else append_uleb128 (ei_address i)
          @ (if ei_flags i AND EXPORT_SYMBOL_FLAGS_STUB_AND_RESOLVER \<noteq> 0 then append_uleb128 (ei_other i) else []))"

definition export_encodable :: "ExportInfo \<Rightarrow> bool" where
  "export_encodable i \<longleftrightarrow> length (export_payload i) < 128"

lemma ucast_of_nat_u8: "n < 128 \<Longrightarrow> ucast (of_nat n :: u32) = (of_nat n :: u8)"
  by (simp add: word_unat_eq_iff unsigned_ucast_eq unsigned_of_nat take_bit_nat_eq_self)

lemma append_uleb128_nonempty: "append_uleb128 v \<noteq> []"
  using append_uleb128_value [of v] by auto

interpretation export_value: trie_value export_encodedSize export_appendToStream export_payload export_encodable
proof
  fix i assume ok: "export_encodable i"
  let ?n = "length (export_payload i)"
  have size: "export_encodedSize i = of_nat ?n"
    by (simp add: export_encodedSize_def export_payload_def uleb128_size_length)
  then show "export_encodedSize i = of_nat ?n" .
  show "export_payload i \<noteq> [] \<and> ?n < 128" using ok by (simp add: export_encodable_def export_payload_def append_uleb128_nonempty)
  have "export_appendToStream i = ucast (export_encodedSize i) # export_payload i"
    by (simp add: export_appendToStream_def export_encodedSize_def export_payload_def append_string_def)
  also have "ucast (export_encodedSize i) = (of_nat ?n :: u8)"
    unfolding size using ok by (intro ucast_of_nat_u8) (simp add: export_encodable_def)
  finally show "export_appendToStream i = of_nat ?n # export_payload i" .
qed

interpretation index_value: trie_value index_encodedSize index_appendToStream "\<lambda>index. append_uleb128 (ucast index)" "\<lambda>_. True"
proof
  fix i :: u32
  let ?n = "length (append_uleb128 (ucast i))"
  have n: "?n < 128" using append_uleb128_u32 [of i] by simp
  show "append_uleb128 (ucast i) \<noteq> [] \<and> ?n < 128" using n append_uleb128_nonempty by simp
  show "index_encodedSize i = of_nat ?n" by (simp add: index_encodedSize_def uleb128_size_length)
  show "index_appendToStream i = of_nat ?n # append_uleb128 (ucast i)"
    using ucast_of_nat_u8 [OF n] by (simp add: index_appendToStream_def uleb128_size_length)
qed
end
