(* ===== verification/Trie_Walk.thy ===== *)
theory Trie_Walk
  imports Export_Trie
begin

text \<open>
  Looking up a name in the stream of an export trie: \<open>MachOLoaded::trieWalk\<close> (\<open>src/dyld3/MachOLoaded.cpp\<close>). The stream
  lies at \<open>start\<close> up to \<open>e\<close> in a memory of which the bytes below \<open>limit\<close> are mapped; the walk reads without a bound in
  several places, and a read at \<open>limit\<close> or above is the outcome \<open>OutOfBounds\<close>. Pointers are natural numbers and do not wrap. The
  caller's \<open>Diagnostics\<close> holds no error when the walk starts. A name is given without its terminating NUL.
\<close>

section \<open>The walk\<close>

datatype walk_result = OutOfBounds | NotFound diag | Found nat

definition c_char :: "u8 list \<Rightarrow> u8" where
  "c_char s = (case s of [] \<Rightarrow> 0 | c # _ \<Rightarrow> c)"

text \<open>The scan over one edge: the address of its NUL, the name after the bytes compared, and \<open>wrongEdge\<close>.\<close>

function scan_edge :: "memory \<Rightarrow> nat \<Rightarrow> nat \<Rightarrow> u8 list \<Rightarrow> bool \<Rightarrow> (nat \<times> u8 list \<times> bool) option" where
  "scan_edge m limit p ss wrongEdge =
     (if p \<ge> limit then None
      else if m p = 0 then Some (p, ss, wrongEdge)
      else if wrongEdge then scan_edge m limit (p + 1) ss True
      else scan_edge m limit (p + 1) (tl ss) (m p \<noteq> c_char ss))"
  by pat_completeness auto
termination
  by (relation "measure (\<lambda>(m, limit, p, ss, w). limit - p)") auto

function skip_uleb128 :: "memory \<Rightarrow> nat \<Rightarrow> nat \<Rightarrow> nat option" where
  "skip_uleb128 m limit p =
     (if p \<ge> limit then None else if m p AND 0x80 \<noteq> 0 then skip_uleb128 m limit (p + 1) else Some (p + 1))"
  by pat_completeness auto
termination
  by (relation "measure (\<lambda>(m, limit, p). limit - p)") auto

declare scan_edge.simps [simp del] skip_uleb128.simps [simp del]

definition checked_uleb128 :: "memory \<Rightarrow> nat \<Rightarrow> nat \<Rightarrow> nat \<Rightarrow> (u64 \<times> nat \<times> diag) option" where
  "checked_uleb128 m limit p e = (case read_uleb128 m p e of (v, q, d) \<Rightarrow> if q > limit then None else Some (v, q, d))"

text \<open>The loop over the children: the offset of the child to go to (0 when no edge fits) and the rest of the name.\<close>

fun walk_children :: "memory \<Rightarrow> nat \<Rightarrow> nat \<Rightarrow> nat \<Rightarrow> nat \<Rightarrow> nat \<Rightarrow> u8 list \<Rightarrow> walk_result + u64 \<times> u8 list" where
  "walk_children m limit start e 0 p symbol = Inr (0, symbol)"
| "walk_children m limit start e (Suc childrenRemaining) p symbol =
     (case scan_edge m limit p symbol False of
        None \<Rightarrow> Inl OutOfBounds
      | Some (p1, ss, wrongEdge) \<Rightarrow>
          if wrongEdge then
            (case skip_uleb128 m limit (p1 + 1) of
               None \<Rightarrow> Inl OutOfBounds
             | Some p2 \<Rightarrow>
                 if p2 > e then Inl (NotFound (Some ''malformed trie node, child node extends past end of trie''))
                 else walk_children m limit start e childrenRemaining p2 symbol)
          else
            (case checked_uleb128 m limit (p1 + 1) e of
               None \<Rightarrow> Inl OutOfBounds
             | Some (nodeOffset, p2, d) \<Rightarrow>
                 if hasError d then Inl (NotFound d)
                 else if nodeOffset = 0 \<or> start + unat nodeOffset > e
                 then Inl (NotFound (Some ''malformed trie child, nodeOffset out of range''))
                 else Inr (nodeOffset, ss)))"

text \<open>The size in front of a node and the address behind it.\<close>

definition node_header :: "memory \<Rightarrow> nat \<Rightarrow> nat \<Rightarrow> nat \<Rightarrow> (u64 \<times> nat \<times> diag) option" where
  "node_header m limit p e =
     (if p \<ge> limit then None
      else if m p > 127 then checked_uleb128 m limit p e
      else Some (ucast (m p), p + 1, None))"

partial_function (option) trie_loop ::
  "memory \<Rightarrow> nat \<Rightarrow> nat \<Rightarrow> nat \<Rightarrow> u32 list \<Rightarrow> nat \<Rightarrow> u8 list \<Rightarrow> walk_result option" where
  "trie_loop m limit start e visited p symbol =
     (if p < e then
        (case node_header m limit p e of
           None \<Rightarrow> Some OutOfBounds
         | Some (terminalSize, p1, d) \<Rightarrow>
             if hasError d then Some (NotFound d)
             else if symbol = [] \<and> terminalSize \<noteq> 0 then Some (Found p1)
             else
               (let children = p1 + unat terminalSize in
                if children > e then Some (NotFound None)
                else if children \<ge> limit then Some OutOfBounds
                else
                  (case walk_children m limit start e (unat (m children)) (children + 1) symbol of
                     Inl r \<Rightarrow> Some r
                   | Inr (nodeOffset, symbol') \<Rightarrow>
                       if nodeOffset \<noteq> 0 then
                         (if unat nodeOffset > e - start
                          then Some (NotFound (Some ''malformed trie child, nodeOffset out of range''))
                          else if list_ex (\<lambda>v. ucast v = nodeOffset) visited
                          then Some (NotFound (Some ''malformed trie child, cycle to nodeOffset''))
                          else trie_loop m limit start e (visited @ [ucast nodeOffset]) (start + unat nodeOffset) symbol')
                       else Some (NotFound None))))
      else Some (NotFound None))"

definition trieWalk :: "memory \<Rightarrow> nat \<Rightarrow> nat \<Rightarrow> nat \<Rightarrow> u8 list \<Rightarrow> walk_result option" where
  "trieWalk m limit start e symbol = trie_loop m limit start e [0] start symbol"

section \<open>The walk ends\<close>

lemma trie_loop_returns:
  assumes "e - start < 2 ^ 32"
  shows "\<exists>r. trie_loop m limit start e visited p s = Some r"
proof (induction "card ({1 ..< 2 ^ 32} - unat ` set visited)" arbitrary: visited p s rule: less_induct)
  case less
  have "\<exists>r. trie_loop m limit start e (visited @ [ucast off]) q s' = Some r"
    if off: "off \<noteq> 0" "\<not> unat off > e - start" "\<not> list_ex (\<lambda>v. ucast v = off) visited" for off :: u64 and q s'
  proof (rule less)
    have small: "unat off < 2 ^ 32" using off(2) assms by simp
    then have u: "unat (ucast off :: u32) = unat off" by (simp add: unsigned_ucast_eq take_bit_nat_eq_self)
    have new: "unat off \<notin> unat ` set visited"
    proof
      assume "unat off \<in> unat ` set visited"
      then obtain v where v: "v \<in> set visited" "unat off = unat v" by auto
      then have "ucast v = off" by (simp add: word_unat_eq_iff unsigned_ucast_eq take_bit_nat_eq_self)
      with v(1) off(3) show False by (auto simp: list_ex_iff)
    qed
    moreover have "unat off \<in> {1 ..< 2 ^ 32}" using off(1) small by (simp add: unat_gt_0 Suc_le_eq)
    ultimately have "{1 ..< 2 ^ 32} - unat ` set (visited @ [ucast off]) \<subset> {1 ..< 2 ^ 32} - unat ` set visited" using u by auto
    then show "card ({1 ..< 2 ^ 32} - unat ` set (visited @ [ucast off])) < card ({1 ..< 2 ^ 32} - unat ` set visited)"
      by (intro psubset_card_mono) simp_all
  qed
  then show ?case
    by (subst trie_loop.simps) (auto simp: Let_def split: option.splits sum.splits)
qed

section \<open>One node\<close>

lemma scan_edge_bytes:
  assumes "bytes_at m p (edge @ [0])" and "0 \<notin> set edge" and "p + length edge < limit"
  shows "\<exists>ss. scan_edge m limit p s w = Some (p + length edge, ss, w \<or> (\<nexists>r. s = edge @ r)) \<and> (\<not> w \<longrightarrow> (\<forall>r. s = edge @ r \<longrightarrow> ss = r))"
  using assms
proof (induction edge arbitrary: p s w)
  case Nil
  then show ?case by (auto simp: scan_edge.simps [of m limit p])
next
  case (Cons x edge)
  have x: "m p = x" "x \<noteq> 0" "p < limit" and rest: "bytes_at m (p + 1) (edge @ [0])" "0 \<notin> set edge" "p + 1 + length edge < limit"
    using Cons.prems by auto
  show ?case
  proof (cases w)
    case True
    from Cons.IH [OF rest, of s True] obtain ss where "scan_edge m limit (p + 1) s True = Some (p + 1 + length edge, ss, True)" by auto
    with x True show ?thesis by (simp add: scan_edge.simps [of m limit p])
  next
    case False
    have match: "(\<exists>r. s = (x # edge) @ r) \<longleftrightarrow> x = c_char s \<and> (\<exists>r. tl s = edge @ r)"
      using x(2) by (cases s) (auto simp: c_char_def)
    from Cons.IH [OF rest, of "tl s" "x \<noteq> c_char s"] obtain ss where
      "scan_edge m limit (p + 1) (tl s) (x \<noteq> c_char s) = Some (p + 1 + length edge, ss, x \<noteq> c_char s \<or> (\<nexists>r. tl s = edge @ r))"
      "x = c_char s \<longrightarrow> (\<forall>r. tl s = edge @ r \<longrightarrow> ss = r)" by auto
    with x False match show ?thesis by (auto simp: scan_edge.simps [of m limit p] c_char_def)
  qed
qed

lemma skip_uleb128_bytes:
  assumes "bytes_at m p bs" and "leb_terminated bs" and "p + length bs \<le> limit"
  shows "skip_uleb128 m limit p = Some (p + length bs)"
  using assms
proof (induction bs arbitrary: p)
  case (Cons b bs)
  then show ?case by (cases "unat b < 128") (auto simp: skip_uleb128.simps [of m limit p] leb_terminated_Cons byte_and_80)
qed simp

lemma checked_uleb128_bytes:
  assumes "bytes_at m p (append_uleb128 v)" and "p + length (append_uleb128 v) \<le> e" and "e \<le> limit"
  shows "checked_uleb128 m limit p e = Some (v, p + length (append_uleb128 v), None)"
  using rd.decode_append [of m p v e] assms unfolding bytes_at_map read_uleb128_ok_iff by (simp add: checked_uleb128_def)
abbreviation edge_stream :: "(u8 list \<times> 'v Node) list \<Rightarrow> u8 list" where
  "edge_stream cs \<equiv> concat (map (\<lambda>(e, c). append_string e @ append_uleb128 (ucast (fTrieOffset c))) cs)"

lemma walk_children_bytes:
  assumes "bytes_at m p (edge_stream cs)" and "p + length (edge_stream cs) \<le> e" and "e \<le> limit"
    and "\<forall>(edge, c)\<in>set cs. edge \<noteq> [] \<and> 0 \<notin> set edge"
    and "\<forall>(edge, c)\<in>set cs. fTrieOffset c \<noteq> 0 \<and> start + unat (fTrieOffset c) \<le> e"
  shows "walk_children m limit start e (length cs) p s =
    (case List.find (\<lambda>(edge, c). \<exists>r. s = edge @ r) cs of
       None \<Rightarrow> Inr (0, s) | Some (edge, c) \<Rightarrow> Inr (ucast (fTrieOffset c), drop (length edge) s))"
  using assms
proof (induction cs arbitrary: p)
  case (Cons ec cs)
  obtain edge c where ec: "ec = (edge, c)" by fastforce
  let ?off = "append_uleb128 (ucast (fTrieOffset c))"
  have bytes: "bytes_at m p (edge @ [0])" "bytes_at m (p + length edge + 1) ?off" "bytes_at m (p + length edge + 1 + length ?off) (edge_stream cs)"
    and room: "p + length edge + 1 + length ?off + length (edge_stream cs) \<le> e"
    using Cons.prems(1,2) by (simp_all add: ec append_string_def bytes_at_append add.assoc)
  have edge: "0 \<notin> set edge" "fTrieOffset c \<noteq> 0" "start + unat (fTrieOffset c) \<le> e" using Cons.prems(4,5) by (auto simp: ec)
  have lim: "p + length edge < limit" using room Cons.prems(3) by simp
  obtain ss where scan: "scan_edge m limit p s False = Some (p + length edge, ss, \<nexists>r. s = edge @ r)" "\<forall>r. s = edge @ r \<longrightarrow> ss = r"
    using scan_edge_bytes [OF bytes(1) edge(1) lim, of s False] by auto
  show ?case
  proof (cases "\<exists>r. s = edge @ r")
    case True
    then obtain r where r: "s = edge @ r" ..
    have "(ucast (fTrieOffset c) :: u64) \<noteq> 0" using edge(2) by (metis unat_eq_0 unat_ucast_u64)
    with r scan edge checked_uleb128_bytes [OF bytes(2) _ Cons.prems(3)] room show ?thesis
      by (simp add: ec unat_ucast_u64 hasError_def)
  next
    case False
    have "skip_uleb128 m limit (p + length edge + 1) = Some (p + length edge + 1 + length ?off)"
      by (rule skip_uleb128_bytes [OF bytes(2)]) (use append_uleb128_value [of "ucast (fTrieOffset c)"] room Cons.prems(3) in auto)
    with False scan Cons.IH [OF bytes(3) room Cons.prems(3)] Cons.prems(4,5) room show ?thesis by (simp add: ec)
  qed
qed simp

lemma children_count:
  assumes "edges_ok cs"
  shows "unat (of_nat (length cs) :: u8) = length cs"
proof -
  have "hd e \<noteq> 0" if "(e, c) \<in> set cs" for e c using edges_okD [OF assms that] by (metis hd_in_set)
  then have "set (map (\<lambda>(e, c). hd e) cs) \<subseteq> UNIV - {0 :: u8}" by auto
  then have "card (set (map (\<lambda>(e, c). hd e) cs)) \<le> card (UNIV - {0 :: u8})" by (intro card_mono) simp_all
  moreover have "card (set (map (\<lambda>(e, c). hd e) cs)) = length cs"
    using assms distinct_card [of "map (\<lambda>(e, c). hd e) cs"] by (simp add: edges_ok_def)
  moreover have "card (UNIV - {0 :: u8}) = 255" by (simp add: card_Diff_singleton card_word)
  ultimately have "length cs \<le> 255" by simp
  then show ?thesis by (simp add: unsigned_of_nat take_bit_nat_eq_self)
qed

lemma child_place:
  assumes "laid_out_all app p cs" and "bytes_at m (start + p) (concat (map (\<lambda>(e, c). tree_bytes app c) cs))" and "(e, c) \<in> set cs"
  shows "\<exists>p'. p \<le> p' \<and> laid_out app p' c \<and> bytes_at m (start + p') (tree_bytes app c)
    \<and> p' + length (tree_bytes app c) \<le> p + length (concat (map (\<lambda>(e, c). tree_bytes app c) cs))"
  using assms
proof (induction cs arbitrary: p)
  case (Cons ec cs)
  obtain e1 c1 where ec: "ec = (e1, c1)" by fastforce
  show ?case
  proof (cases "(e, c) = ec")
    case True
    then show ?thesis using Cons.prems by (intro exI [of _ p]) (simp add: ec bytes_at_append)
  next
    case False
    then have "(e, c) \<in> set cs" using Cons.prems(3) by auto
    moreover have "laid_out_all app (p + length (tree_bytes app c1)) cs"
      "bytes_at m (start + (p + length (tree_bytes app c1))) (concat (map (\<lambda>(e, c). tree_bytes app c) cs))"
      using Cons.prems(1,2) by (simp_all add: ec bytes_at_append add.assoc)
    ultimately obtain p' where "p + length (tree_bytes app c1) \<le> p'" "laid_out app p' c" "bytes_at m (start + p') (tree_bytes app c)"
      "p' + length (tree_bytes app c) \<le> p + length (tree_bytes app c1) + length (concat (map (\<lambda>(e, c). tree_bytes app c) cs))"
      using Cons.IH by blast
    then show ?thesis by (intro exI [of _ p']) (simp add: ec)
  qed
qed simp

lemma node_bytes_nonempty: "node_bytes app n \<noteq> []"
  by (simp add: node_bytes_def)

lemma tree_bytes_pos: "0 < length (tree_bytes app n)"
  by (cases n) (simp add: node_bytes_nonempty)

lemma entries_via_edge:
  assumes "edges_ok cs" and "(edge, c) \<in> set cs"
  shows "(edge @ r, v) \<in> set (entries (Node cs info off)) \<longleftrightarrow> (r, v) \<in> set (entries c)"
proof
  assume "(edge @ r, v) \<in> set (entries (Node cs info off))"
  moreover have "edge \<noteq> []" using edges_okD [OF assms] by simp
  ultimately obtain e' c' where e': "(e', c') \<in> set cs" "(edge @ r, v) \<in> below e' c'"
    using terminal_names [of "(edge @ r, v)" info] by (auto simp: entries_set)
  then have "hd e' = hd edge" using below_hd [OF e'(2)] edges_okD [OF assms(1) e'(1)] \<open>edge \<noteq> []\<close> by simp
  then have "(e', c') = (edge, c)" using edges_ok_hd [OF assms(1) e'(1) assms(2)] by simp
  then show "(r, v) \<in> set (entries c)" using e'(2) by (auto simp: below_def)
next
  assume "(r, v) \<in> set (entries c)"
  then show "(edge @ r, v) \<in> set (entries (Node cs info off))" using assms(2) by (force simp: entries_set below_def)
qed
lemma find_SomeD: "List.find P xs = Some x \<Longrightarrow> x \<in> set xs \<and> P x"
  by (auto simp: find_Some_iff)

text \<open>What the walk finds for the name \<open>s\<close> at a node, given the entries below the node.\<close>

definition finds :: "('v \<Rightarrow> u8 list) \<Rightarrow> memory \<Rightarrow> nat \<Rightarrow> (u8 list \<times> 'v) list \<Rightarrow> u8 list \<Rightarrow> walk_result option \<Rightarrow> bool" where
  "finds payload_of m e es s r \<longleftrightarrow>
     (\<forall>v. (s, v) \<in> set es \<longrightarrow> (\<exists>q. r = Some (Found q) \<and> bytes_at m q (payload_of v) \<and> q + length (payload_of v) \<le> e))
     \<and> ((\<nexists>v. (s, v) \<in> set es) \<longrightarrow> r = Some (NotFound None))"

context trie_value
begin

lemma node_header_bytes:
  assumes "\<forall>v\<in>set_option info. encodable v" and "p < limit"
    and "bytes_at m p (case info of None \<Rightarrow> [0] | Some v \<Rightarrow> appendToStream v)"
  shows "\<exists>size. node_header m limit p e = Some (size, p + 1, None)
    \<and> p + 1 + unat size = p + length (case info of None \<Rightarrow> [0] | Some v \<Rightarrow> appendToStream v)
    \<and> (case info of None \<Rightarrow> size = 0 | Some v \<Rightarrow> size \<noteq> 0 \<and> bytes_at m (p + 1) (payload_of v) \<and> unat size = length (payload_of v))"
proof (cases info)
  case None
  then show ?thesis using assms(2,3) by (simp add: node_header_def)
next
  case (Some v)
  then have v: "encodable v" using assms(1) by simp
  let ?n = "length (payload_of v)"
  have "m p = of_nat ?n" "bytes_at m (p + 1) (payload_of v)" using assms(3) by (auto simp: Some stream [OF v])
  moreover have n: "?n < 128" "?n \<noteq> 0" using payload [OF v] by auto
  then have "unat (of_nat ?n :: u8) = ?n" by (simp add: unsigned_of_nat take_bit_nat_eq_self)
  moreover from this n have "\<not> (of_nat ?n :: u8) > 127" "unat (ucast (of_nat ?n :: u8) :: u64) = ?n"
    by (simp_all add: word_less_nat_alt unsigned_ucast_eq take_bit_nat_eq_self)
  ultimately show ?thesis using assms(2) n(2) by (auto simp: node_header_def Some stream [OF v] simp flip: unat_eq_0)
qed

lemma trie_loop_finds:
  fixes cs :: "(u8 list \<times> 'v Node) list"
  assumes lim: "e \<le> limit" and small: "e - start < 2 ^ 32"
  shows "wf_node n \<Longrightarrow> \<forall>v\<in>set_Node n. encodable v \<Longrightarrow> laid_out appendToStream p n \<Longrightarrow> bytes_at m (start + p) (tree_bytes appendToStream n) \<Longrightarrow>
      start + p + length (tree_bytes appendToStream n) \<le> e \<Longrightarrow> \<forall>v\<in>set visited. unat v \<le> p \<Longrightarrow>
      finds payload_of m e (entries n) s (trie_loop m limit start e visited (start + p) s)"
    and "\<forall>(edge, c)\<in>set cs. \<forall>p visited s. wf_node c \<longrightarrow> (\<forall>v\<in>set_Node c. encodable v) \<longrightarrow> laid_out appendToStream p c \<longrightarrow>
      bytes_at m (start + p) (tree_bytes appendToStream c) \<longrightarrow> start + p + length (tree_bytes appendToStream c) \<le> e \<longrightarrow>
      (\<forall>v\<in>set visited. unat v \<le> p) \<longrightarrow> finds payload_of m e (entries c) s (trie_loop m limit start e visited (start + p) s)"
proof (induction n and cs arbitrary: p visited s rule: Node_list_induct)
  case (Node cs info off)
  let ?t = "case info of None \<Rightarrow> [0] | Some v \<Rightarrow> appendToStream v" and ?rest = "concat (map (\<lambda>(e, c). tree_bytes appendToStream c) cs)"
  let ?node = "node_bytes appendToStream (Node cs info off)"
  have cs: "edges_ok cs" using Node.prems(1) by simp
  have vals: "\<forall>v\<in>set_option info. encodable v" "\<forall>(edge, c)\<in>set cs. \<forall>v\<in>set_Node c. encodable v" using Node.prems(2) unfolding Node_values by auto
  have node: "?node = ?t @ of_nat (length cs) # edge_stream cs" by (simp add: node_bytes_def)
  have bytes: "bytes_at m (start + p) ?t" "m (start + p + length ?t) = of_nat (length cs)"
      "bytes_at m (start + p + length ?t + 1) (edge_stream cs)" "bytes_at m (start + (p + length ?node)) ?rest"
    using Node.prems(4) by (simp_all add: bytes_at_append node add.assoc)
  have room: "start + p + length ?t + 1 + length (edge_stream cs) + length ?rest \<le> e" using Node.prems(5) by (simp add: node)
  have places: "\<exists>p'. p < p' \<and> laid_out appendToStream p' c \<and> bytes_at m (start + p') (tree_bytes appendToStream c)
      \<and> start + p' + length (tree_bytes appendToStream c) \<le> e \<and> unat (fTrieOffset c) = p'" if mem: "(edge, c) \<in> set cs" for edge c
  proof -
    obtain p' where p': "p + length ?node \<le> p'" "laid_out appendToStream p' c" "bytes_at m (start + p') (tree_bytes appendToStream c)"
      "p' + length (tree_bytes appendToStream c) \<le> p + length ?node + length ?rest"
      using child_place [OF _ bytes(4) mem] Node.prems(3) by auto
    moreover have "fTrieOffset c = of_nat p'" using p'(2) by (cases c) simp
    moreover have "start + p' + length (tree_bytes appendToStream c) \<le> e" using p'(4) room by (simp add: node)
    ultimately show ?thesis using small by (intro exI [of _ p']) (auto simp: node unsigned_of_nat take_bit_nat_eq_self)
  qed
  obtain size where hdr: "node_header m limit (start + p) e = Some (size, start + p + 1, None)" "start + p + 1 + unat size = start + p + length ?t"
      "case info of None \<Rightarrow> size = 0 | Some v \<Rightarrow> size \<noteq> 0 \<and> bytes_at m (start + p + 1) (payload_of v) \<and> unat size = length (payload_of v)"
    using node_header_bytes [OF vals(1) _ bytes(1), of limit e] room lim by auto
  have edges: "\<forall>(edge, c)\<in>set cs. edge \<noteq> [] \<and> 0 \<notin> set edge" using edges_okD [OF cs] by blast
  have offs: "\<forall>(edge, c)\<in>set cs. fTrieOffset c \<noteq> 0 \<and> start + unat (fTrieOffset c) \<le> e" using places by (fastforce simp flip: unat_eq_0)
  have kids: "walk_children m limit start e (unat (m (start + p + 1 + unat size))) (start + p + 1 + unat size + 1) s =
      (case List.find (\<lambda>(edge, c). \<exists>r. s = edge @ r) cs of
         None \<Rightarrow> Inr (0, s) | Some (edge, c) \<Rightarrow> Inr (ucast (fTrieOffset c), drop (length edge) s))"
    using walk_children_bytes [OF bytes(3) _ lim edges offs] room unfolding hdr(2) by (simp add: bytes(2) children_count [OF cs])
  have room': "start + p < e" "start + p + 1 + unat size < e" using room hdr(2) by simp_all
  have step: "trie_loop m limit start e visited (start + p) s =
      (if s = [] \<and> size \<noteq> 0 then Some (Found (start + p + 1))
       else case List.find (\<lambda>(edge, c). \<exists>r. s = edge @ r) cs of
         None \<Rightarrow> Some (NotFound None)
       | Some (edge, c) \<Rightarrow> trie_loop m limit start e (visited @ [fTrieOffset c]) (start + unat (fTrieOffset c)) (drop (length edge) s))"
  proof (cases "List.find (\<lambda>(edge, c). \<exists>r. s = edge @ r) cs")
    case None
    then show ?thesis using hdr(1) kids room' lim by (subst trie_loop.simps) (simp add: hasError_def Let_def)
  next
    case (Some ec)
    obtain edge c where ec: "ec = (edge, c)" by fastforce
    have "(edge, c) \<in> set cs" using find_SomeD [OF Some] by (simp add: ec)
    from places [OF this] obtain p' where p': "p < p'" "start + p' + length (tree_bytes appendToStream c) \<le> e" "unat (fTrieOffset c) = p'" by blast
    then have "\<not> list_ex (\<lambda>v. ucast v = (ucast (fTrieOffset c) :: u64)) visited"
      using Node.prems(6) by (auto simp: list_ex_iff word_unat_eq_iff unat_ucast_u64)
    moreover have "(ucast (fTrieOffset c) :: u64) \<noteq> 0" using p' by (simp add: word_unat_eq_iff unat_ucast_u64)
    moreover have "ucast (ucast (fTrieOffset c) :: u64) = fTrieOffset c" by (rule bit_word_eqI) (simp add: bit_simps)
    moreover have "\<not> e - start < p'" using p'(2) by simp
    ultimately show ?thesis using hdr(1) kids room' lim p' Some ec by (subst trie_loop.simps) (simp add: hasError_def Let_def unat_ucast_u64)
  qed
  show ?case
  proof (cases "s = [] \<and> size \<noteq> 0")
    case True
    then obtain v where v: "info = Some v" using hdr(3) by (cases info) auto
    have "([], w) \<notin> below edge c" if "(edge, c) \<in> set cs" for w edge c
      using edges that below_hd [of "([], w)" edge c] by auto
    then have "(s, w) \<in> set (entries (Node cs info off)) \<longleftrightarrow> w = v" for w using True v by (auto simp: entries_set)
    then show ?thesis using True v hdr(2,3) room step by (auto simp: finds_def)
  next
    case False
    show ?thesis
    proof (cases "List.find (\<lambda>(edge, c). \<exists>r. s = edge @ r) cs")
      case None
      then have "(s, v) \<notin> (\<Union>(edge, c)\<in>set cs. below edge c)" for v by (auto simp: find_None_iff below_def)
      moreover have "(s, v) \<notin> set (terminal_entry info)" for v using False hdr(3) by (cases info) auto
      ultimately show ?thesis using False None step by (auto simp: finds_def entries_set)
    next
      case (Some ec)
      obtain edge c where ec: "ec = (edge, c)" by fastforce
      obtain r where c: "(edge, c) \<in> set cs" and r: "s = edge @ r" using find_SomeD [OF Some] by (auto simp: ec)
      obtain p' where p': "p < p'" "laid_out appendToStream p' c" "bytes_at m (start + p') (tree_bytes appendToStream c)"
          "start + p' + length (tree_bytes appendToStream c) \<le> e" "unat (fTrieOffset c) = p'"
        using places [OF c] by blast
      have "\<forall>v\<in>set (visited @ [fTrieOffset c]). unat v \<le> p'" using Node.prems(6) p'(1,5) by auto
      then have "finds payload_of m e (entries c) r (trie_loop m limit start e (visited @ [fTrieOffset c]) (start + p') r)"
        using Node.IH vals(2) c p' edges_okD [OF cs c] by fastforce
      moreover have "drop (length edge) s = r" using r by simp
      then have "trie_loop m limit start e visited (start + p) s = trie_loop m limit start e (visited @ [fTrieOffset c]) (start + p') r"
        unfolding step if_not_P [OF False] Some ec by (simp add: p'(5))
      ultimately show ?thesis by (simp add: r finds_def entries_via_edge [OF cs c])
    qed
  qed
qed auto

end

lemma tree_bytes_bound:
  fixes cs :: "(u8 list \<times> 'v Node) list"
  shows "length (tree_bytes app n) \<le> stream_bound app n"
    and "length (concat (map (\<lambda>(e, c). tree_bytes app c) cs)) \<le> (\<Sum>(e, c)\<leftarrow>cs. stream_bound app c)"
proof (induction n and cs rule: Node_list_induct)
  case (Node cs info off)
  then show ?case using node_bytes_mono(2) [OF offs_le_refl(2), of app cs info off] by simp
qed auto

context trie_value
begin

lemma emitted_trie_finds:
  assumes "zeroed n" and "wf_node n" and vals: "\<forall>(s, v)\<in>set (entries n). encodable v" and bound: "stream_bound appendToStream n < 2 ^ 32"
  shows "\<exists>bs. emit encodedSize appendToStream n = Some bs \<and>
    (\<forall>m limit start s. bytes_at m start bs \<longrightarrow> start + length bs \<le> limit \<longrightarrow>
       finds payload_of m (start + length bs) (entries n) s (trieWalk m limit start (start + length bs) s))"
proof -
  obtain n' where n': "emit encodedSize appendToStream n = Some (tree_bytes appendToStream n')" "offs_le n n'" "laid_out appendToStream 0 n'"
    using emit_laid_out [OF assms(1) vals bound] by blast
  note same = offs_le_same(1) [OF n'(2)]
  have len: "length (tree_bytes appendToStream n') < 2 ^ 32"
    using tree_bytes_bound(1) [of appendToStream n'] offs_le_bound(1) [OF n'(2), of appendToStream] bound by simp
  have "\<forall>v\<in>set_Node n'. encodable v" using vals same by (auto simp: set_Node_entries)
  from trie_loop_finds(1) [OF _ _ _ this n'(3), where visited = "[0]"] len same assms(2) n'(1)
  show ?thesis by (auto simp: trieWalk_def)
qed

end

lemma last_value_mem: "map_of (rev (map (\<lambda>(s, v). (s, f s v)) es)) s = Some v \<Longrightarrow> \<exists>w. (s, w) \<in> set es \<and> v = f s w"
  using map_of_SomeD by fastforce

section \<open>What a stream says about a name\<close>

lemma export_trie_emitted:
  assumes "\<forall>(s, i)\<in>set es. 0 \<notin> set s" and "\<forall>(s, i)\<in>set es. export_encodable (export_willInsertAs s i)"
    and "stream_bound export_appendToStream (Trie export_willInsertAs es) < 2 ^ 32"
  shows "\<exists>bs. emit export_encodedSize export_appendToStream (Trie export_willInsertAs es) = Some bs \<and>
    (\<forall>m limit start s. bytes_at m start bs \<and> start + length bs \<le> limit \<longrightarrow>
       (case map_of (rev (map (\<lambda>(s, i). (s, export_willInsertAs s i)) es)) s of
          None \<Rightarrow> trieWalk m limit start (start + length bs) s = Some (NotFound None)
        | Some i \<Rightarrow> \<exists>q. trieWalk m limit start (start + length bs) s = Some (Found q)
            \<and> bytes_at m q (export_payload i) \<and> q + length (export_payload i) \<le> start + length bs))"
proof -
  let ?n = "Trie export_willInsertAs es"
  note trie = Trie_entries [OF assms(1), of export_willInsertAs]
  then have "\<forall>(s, i)\<in>set (entries ?n). export_encodable i" using assms(2) by (auto dest!: last_value_mem)
  from export_value.emitted_trie_finds [OF zeroed_Trie _ this assms(3)] trie obtain bs where
    "emit export_encodedSize export_appendToStream ?n = Some bs"
    "\<forall>m limit start s. bytes_at m start bs \<longrightarrow> start + length bs \<le> limit \<longrightarrow>
       finds export_payload m (start + length bs) (entries ?n) s (trieWalk m limit start (start + length bs) s)" by auto
  with trie show ?thesis by (auto simp: finds_def split: option.splits)
qed

text \<open>
  C7: an export trie is a faithful table of its entries. The tree built from any list of names and export infos, whose names have no
  NUL, whose encoded infos fit one size byte and whose stream stays below 4 GiB in the worst case, is written: the rounds that choose the
  offsets end. Wherever the stream is mapped, \<open>trieWalk\<close> reads only inside it, finds for each name in the list the data of the
  info given last, whole and inside the stream, and answers for every other name that it is not exported, without an error.
\<close>

theorem export_trie_roundtrip:
  assumes "\<forall>(s, i)\<in>set es. 0 \<notin> set s" and "\<forall>(s, i)\<in>set es. export_encodable (export_willInsertAs s i)"
    and "stream_bound export_appendToStream (Trie export_willInsertAs es) < 2 ^ 32"
  shows "\<exists>bs. emit export_encodedSize export_appendToStream (Trie export_willInsertAs es) = Some bs \<and>
    (\<forall>m limit start s. bytes_at m start bs \<and> start + length bs \<le> limit \<longrightarrow>
       (case map_of (rev (map (\<lambda>(s, i). (s, export_willInsertAs s i)) es)) s of
          None \<Rightarrow> trieWalk m limit start (start + length bs) s = Some (NotFound None)
        | Some i \<Rightarrow> \<exists>q. trieWalk m limit start (start + length bs) s = Some (Found q)
            \<and> bytes_at m q (export_payload i) \<and> q + length (export_payload i) \<le> start + length bs))"
  using assms by (rule export_trie_emitted)

text \<open>
  C26: \<open>trieWalk\<close> always returns. Whatever bytes the exports trie holds, up to 4 GiB of them, and whatever is mapped behind it, the
  walk ends: the list of visited nodes stops every cycle.
\<close>

theorem trieWalk_returns:
  assumes "e - start < 2 ^ 32"
  shows "\<exists>r. trieWalk m limit start e symbol = Some r"
  using trie_loop_returns [OF assms] by (simp add: trieWalk_def)
lemma bytes_at_mem_of: "bytes_at (mem_of bs) 0 bs"
  by (simp add: bytes_at_def mem_of_def)

definition sample_exports :: "(u8 list \<times> ExportInfo) list" where
  "sample_exports = [([95, 97, 98], ExportInfo_new\<lparr>ei_address := 0x1000\<rparr>), ([95, 97, 99], ExportInfo_new\<lparr>ei_address := 0x2000, ei_flags := 4\<rparr>)]"

lemma sample_trie:
  "Trie export_willInsertAs sample_exports
    = Node [([95, 97], Node [([98], Node [] (Some (ExportInfo_new\<lparr>ei_address := 0x1000\<rparr>)) 0),
        ([99], Node [] (Some (ExportInfo_new\<lparr>ei_address := 0x2000, ei_flags := 4\<rparr>)) 0)] None 0)] None 0"
  by (simp add: sample_exports_def Trie_def addEntry_def add_at.simps finish_entry_def map_erase_def export_willInsertAs_def ExportInfo_new_def)

theorem export_trie_roundtrip_witness:
  "\<exists>bs q. emit export_encodedSize export_appendToStream (Trie export_willInsertAs sample_exports) = Some bs
    \<and> trieWalk (mem_of bs) (length bs) 0 (length bs) [95, 97, 99] = Some (Found q)
    \<and> bytes_at (mem_of bs) q [4, 0x80, 0x40] \<and> trieWalk (mem_of bs) (length bs) 0 (length bs) [95, 97] = Some (NotFound None)"
proof -
  have uleb: "append_uleb128 0x1000 = [0x80, 0x20]" "append_uleb128 0x2000 = [0x80, 0x40]" "append_uleb128 0 = [0]" "append_uleb128 4 = [4]"
    by (simp_all add: append_uleb128.simps)
  have "\<forall>(s, i)\<in>set sample_exports. 0 \<notin> set s" "\<forall>(s, i)\<in>set sample_exports. export_encodable (export_willInsertAs s i)"
    by (simp_all add: sample_exports_def export_encodable_def export_payload_def export_willInsertAs_def ExportInfo_new_def
        EXPORT_SYMBOL_FLAGS_REEXPORT_def EXPORT_SYMBOL_FLAGS_STUB_AND_RESOLVER_def uleb)
  moreover have "stream_bound export_appendToStream (Trie export_willInsertAs sample_exports) < 2 ^ 32"
    by (simp add: sample_trie node_bound_def export_appendToStream_def ExportInfo_new_def EXPORT_SYMBOL_FLAGS_REEXPORT_def
        EXPORT_SYMBOL_FLAGS_STUB_AND_RESOLVER_def uleb)
  ultimately obtain bs where bs: "emit export_encodedSize export_appendToStream (Trie export_willInsertAs sample_exports) = Some bs"
    and walk: "case map_of (rev (map (\<lambda>(s, i). (s, export_willInsertAs s i)) sample_exports)) s of
          None \<Rightarrow> trieWalk (mem_of bs) (length bs) 0 (0 + length bs) s = Some (NotFound None)
        | Some i \<Rightarrow> \<exists>q. trieWalk (mem_of bs) (length bs) 0 (0 + length bs) s = Some (Found q)
            \<and> bytes_at (mem_of bs) q (export_payload i) \<and> q + length (export_payload i) \<le> 0 + length bs" for s
    using export_trie_roundtrip [of sample_exports] bytes_at_mem_of by fastforce
  have "export_payload (ExportInfo_new\<lparr>ei_address := 0x2000, ei_flags := 4\<rparr>) = [4, 0x80, 0x40]"
    by (simp add: export_payload_def ExportInfo_new_def EXPORT_SYMBOL_FLAGS_REEXPORT_def EXPORT_SYMBOL_FLAGS_STUB_AND_RESOLVER_def uleb)
  with walk [of "[95, 97, 99]"] walk [of "[95, 97]"] bs show ?thesis
    by (auto simp: sample_exports_def export_willInsertAs_def ExportInfo_new_def)
qed
theorem trieWalk_returns_witness: "\<exists>r. trieWalk (mem_of [0, 1, 97, 0, 5, 0, 1, 97, 0, 5]) 10 0 10 [97, 97, 97] = Some r"
  by (rule trieWalk_returns) simp
end
