(* ===== verification/Symbol_Lookup.thy ===== *)
theory Symbol_Lookup
  imports Trie_Walk MachO_LinkEdit
begin

text \<open>
  Symbols of a loaded image, by name and by address (\<open>src/dyld3/MachOLoaded.cpp\<close>): the walks over the symbol table,
  \<open>findExportedSymbol\<close> with its search through re-exported dylibs, \<open>findClosestSymbol\<close>, \<open>findClosestFunctionStart\<close> and the small queries on
  dependents, sections and segments. The tables of the image have been validated when these run, so that only the walk over the
  exports trie, whose content is not checked before, can leave the mapped bytes.
\<close>

section \<open>The symbol table\<close>

record nlist =
  n_strx :: u32
  n_type :: u8
  n_sect :: u8
  n_desc :: u16
  n_value :: u64

definition nlist_at :: "memory \<Rightarrow> nat \<Rightarrow> nat \<Rightarrow> nlist" where
  "nlist_at m symbols i =
     (let p = symbols + (if is64 m then 16 else 12) * i in
      \<lparr>n_strx = read32 m p, n_type = m (p + 4), n_sect = m (p + 5), n_desc = read16 m (p + 6),
       n_value = (if is64 m then read64 m (p + 8) else ucast (read32 m (p + 8)))\<rparr>)"

text \<open>
  The loop over a range of symbols. \<open>symTab\<close> is the offset of the \<open>LC_SYMTAB\<close> command; the sum of two 32-bit indices wraps.
  The block gets the address of the name and the symbol.
\<close>

definition symbol_walk ::
    "memory \<Rightarrow> u64 \<Rightarrow> LayoutInfo \<Rightarrow> nat \<Rightarrow> u32 \<Rightarrow> u32 \<Rightarrow> (u8 \<Rightarrow> bool) \<Rightarrow> ('s \<Rightarrow> nat \<times> nlist \<Rightarrow> ('s \<times> bool) option) \<Rightarrow> 's \<Rightarrow> 's option" where
  "symbol_walk m loadAddr lo symTab startIndex symCount wanted callback s =
     (let maxStringOffset = read32 m (symTab + 20);
          stringPool = content_at loadAddr lo (read32 m (symTab + 16));
          symbols = content_at loadAddr lo (read32 m (symTab + 8)) in
      map_option fst (forStop (\<lambda>s i.
          let sym = nlist_at m symbols (unat (startIndex + of_nat i)) in
          if n_strx sym > maxStringOffset then Some (s, False)
          else if wanted (n_type sym) then callback s (stringPool + unat (n_strx sym), sym)
          else Some (s, False)) s [0 ..< unat symCount]))"

text \<open>\<open>N_EXT\<close> is 1, \<open>N_TYPE\<close> 0x0e, \<open>N_SECT\<close> 0x0e and \<open>N_STAB\<close> 0xe0.\<close>

definition forEachGlobalSymbol ::
    "memory \<Rightarrow> u64 \<Rightarrow> LayoutInfo \<Rightarrow> ('s \<Rightarrow> nat \<times> nlist \<Rightarrow> ('s \<times> bool) option) \<Rightarrow> 's \<times> diag \<Rightarrow> ('s \<times> diag) option" where
  "forEachGlobalSymbol m loadAddr uninit callback sd =
     Option.bind (getLinkEditPointers m loadAddr uninit (snd sd)) (\<lambda>(leInfo, d).
       if hasError d then Some (fst sd, d)
       else case le_symTab (leCommands leInfo) of
         None \<Rightarrow> Some (fst sd, d)
       | Some symTab \<Rightarrow>
           (let (globalsStartIndex, globalsCount) =
                  (case le_dynSymTab (leCommands leInfo) of
                     Some dy \<Rightarrow> (read32 m (dy + 16), read32 m (dy + 20))
                   | None \<Rightarrow> (0, read32 m (symTab + 12)))
            in map_option (\<lambda>s. (s, d))
                 (symbol_walk m loadAddr (layout leInfo) symTab globalsStartIndex globalsCount
                    (\<lambda>ty. ty AND 1 \<noteq> 0 \<and> ty AND 0x0E = 0x0E \<and> ty AND 0xE0 = 0) callback (fst sd))))"

definition forEachLocalSymbol ::
    "memory \<Rightarrow> u64 \<Rightarrow> LayoutInfo \<Rightarrow> ('s \<Rightarrow> nat \<times> nlist \<Rightarrow> ('s \<times> bool) option) \<Rightarrow> 's \<times> diag \<Rightarrow> ('s \<times> diag) option" where
  "forEachLocalSymbol m loadAddr uninit callback sd =
     Option.bind (getLinkEditPointers m loadAddr uninit (snd sd)) (\<lambda>(leInfo, d).
       if hasError d then Some (fst sd, d)
       else case le_symTab (leCommands leInfo) of
         None \<Rightarrow> Some (fst sd, d)
       | Some symTab \<Rightarrow>
           (let (localsStartIndex, localsCount) =
                  (case le_dynSymTab (leCommands leInfo) of
                     Some dy \<Rightarrow> (read32 m (dy + 8), read32 m (dy + 12))
                   | None \<Rightarrow> (0, read32 m (symTab + 12)))
            in map_option (\<lambda>s. (s, d))
                 (symbol_walk m loadAddr (layout leInfo) symTab localsStartIndex localsCount
                    (\<lambda>ty. ty AND 1 = 0 \<and> ty AND 0x0E = 0x0E \<and> ty AND 0xE0 = 0) callback (fst sd))))"

section \<open>Small queries\<close>

definition dependentDylibCount :: "memory \<Rightarrow> u32 option" where
  "dependentDylibCount m = forEachDependentDylib m (\<lambda>count dep. Some (count + 1, False)) 0"

definition dependentDylibLoadPath :: "memory \<Rightarrow> u32 \<Rightarrow> nat option option" where
  "dependentDylibLoadPath m depIndex =
     map_option fst (forEachDependentDylib m (\<lambda>(foundLoadPath, curDepIndex) dep.
       if curDepIndex = depIndex then Some ((Some (dep_loadPath dep), curDepIndex + 1), True)
       else Some ((foundLoadPath, curDepIndex + 1), False)) (None, 0 :: u32))"

definition segmentName :: "memory \<Rightarrow> u32 \<Rightarrow> nat option option" where
  "segmentName m targetSegIndex =
     forEachSegment m (\<lambda>result info.
       if targetSegIndex = ucast (segIndex info) then Some (Some (segName info), True) else Some (result, False)) None"

definition findSectionContent :: "memory \<Rightarrow> u64 \<Rightarrow> string \<Rightarrow> string \<Rightarrow> (u64 \<times> u64) option option" where
  "findSectionContent m loadAddr wantedSegment wantedSection =
     forEachSection m (\<lambda>result (info, malformedSectionRange).
       if sectName_is info wantedSection \<and> strcmp_eq m (segName (segInfo info)) wantedSegment
       then map_option (\<lambda>slide. (Some (sectAddr info + slide, sectSize info), False)) (getSlide m loadAddr)
       else Some (result, False)) None"

definition intersectsRange :: "memory \<Rightarrow> u64 \<Rightarrow> u64 \<Rightarrow> u64 \<Rightarrow> bool option" where
  "intersectsRange m loadAddr start len =
     Option.bind (getSlide m loadAddr) (\<lambda>slide.
       forEachSegment m (\<lambda>result info.
         Some (result \<or> vmAddr info + vmSize info + slide \<ge> start \<and> vmAddr info + slide < start + len, False)) False)"

section \<open>Exported symbols\<close>

text \<open>An image in memory: its bytes, the address of its header, how much is mapped, and what the caller's layout structure held before.\<close>

record MappedImage =
  mi_mem :: memory
  mi_addr :: u64
  mi_limit :: nat
  mi_uninit :: LayoutInfo

datatype Kind = headerOffset | absolute | resolverOffset

record FoundSymbol =
  fs_kind :: Kind
  isThreadLocal :: bool
  isWeakDef :: bool
  foundInDylib :: "nat option"
  fs_value :: u64
  resolverFuncOffset :: u32
  foundSymbolName :: "u8 list"

text \<open>
  The search in a dylib that \<open>findExportedSymbol\<close> calls itself for: the dylib, the name, \<open>weakImport\<close>, and \<open>foundInfo\<close> with the diagnostics. The
  callback \<open>findDependent\<close> may be null. Images are numbered.
\<close>

type_synonym symbol_search = "nat \<Rightarrow> u8 list \<Rightarrow> bool \<Rightarrow> FoundSymbol \<times> diag \<Rightarrow> (bool \<times> FoundSymbol \<times> diag) option"
type_synonym finder = "(nat \<Rightarrow> u32 \<Rightarrow> nat option) option"

definition search_reexports ::
    "symbol_search \<Rightarrow> memory \<Rightarrow> finder \<Rightarrow> nat \<Rightarrow> u8 list \<Rightarrow> bool \<Rightarrow> FoundSymbol \<times> diag \<Rightarrow> (bool \<times> FoundSymbol \<times> diag) option" where
  "search_reexports search m findDependent this symbolName weakImport fd =
     map_option snd (forEachDependentDylib m (\<lambda>(depIndex, found, fi, d) dep.
       case (if dep_isReExport dep then Option.bind findDependent (\<lambda>fn. fn this depIndex) else None) of
         Some depMH \<Rightarrow> map_option (\<lambda>(b, fi', d'). ((depIndex + 1, found \<or> b, fi', d'), b)) (search depMH symbolName weakImport (fi, d))
       | None \<Rightarrow> Some ((depIndex + 1, found, fi, d), False)) (0, False, fd))"

text \<open>
  The pointer \<open>p\<close> moves over the terminal data; \<open>read_uleb128\<close> records its error and goes on. Of the import name of a
  re-export the first byte is read here; the whole name, up to its NUL, when the search goes on in the dependent.
\<close>

definition next_uleb128 :: "MappedImage \<Rightarrow> nat \<Rightarrow> nat \<times> diag \<Rightarrow> (u64 \<times> nat \<times> diag) option" where
  "next_uleb128 im trieEnd pd =
     map_option (\<lambda>(v, p, d). (v, p, then_diag (snd pd) d)) (checked_uleb128 (mi_mem im) (mi_limit im) (fst pd) trieEnd)"

definition found_reexport ::
    "symbol_search \<Rightarrow> MappedImage \<Rightarrow> finder \<Rightarrow> nat \<Rightarrow> u8 list \<Rightarrow> bool \<Rightarrow> nat \<Rightarrow> nat \<times> diag \<Rightarrow> FoundSymbol \<Rightarrow> (bool \<times> FoundSymbol \<times> diag) option" where
  "found_reexport search im findDependent this symbolName weakImport trieEnd pd foundInfo =
     (case findDependent of
        None \<Rightarrow> Some (False, foundInfo, snd pd)
      | Some fn \<Rightarrow>
          Option.bind (next_uleb128 im trieEnd pd) (\<lambda>(ordinal, p, d).
          if mi_limit im \<le> p then None
          else
            Option.bind (if ordinal = 0 then Some True else map_option (\<lambda>n. ordinal > ucast n) (dependentDylibCount (mi_mem im))) (\<lambda>outOfRange.
            if outOfRange then Some (False, foundInfo, error ''re-export ordinal out of range'' d)
            else case fn this (ucast (ordinal - 1)) of
              Some depMH \<Rightarrow>
                Option.bind (if mi_mem im p = 0 then Some symbolName
                    else map_option (\<lambda>z. map (mi_mem im) [p ..< z]) (find_nul (mi_mem im) p (mi_limit im)))
                  (\<lambda>importedName. search depMH importedName weakImport (foundInfo, d))
            | None \<Rightarrow>
                if weakImport then Some (False, foundInfo, d)
                else Some (False, foundInfo, error ''dependent dylib not found for re-exported symbol'' d))))"

text \<open>
  The kind is in the two low bits of the flags: 0 regular, 1 thread local, 2 absolute. Flag 4 marks a weak definition.
\<close>

definition found_regular :: "MappedImage \<Rightarrow> nat \<Rightarrow> u8 list \<Rightarrow> u64 \<Rightarrow> nat \<Rightarrow> nat \<times> diag \<Rightarrow> (bool \<times> FoundSymbol \<times> diag) option" where
  "found_regular im this symbolName flags trieEnd pd =
     Option.bind (next_uleb128 im trieEnd pd) (\<lambda>(v, p, d).
       let fi = \<lparr>fs_kind = headerOffset, isThreadLocal = False, isWeakDef = False, foundInDylib = Some this, fs_value = v,
                 resolverFuncOffset = 0, foundSymbolName = symbolName\<rparr>; kind = flags AND 3 in
       if hasError d then Some (False, fi, d)
       else if kind = 0 then
         (let weak = (flags AND 4 \<noteq> 0) in
          if flags AND EXPORT_SYMBOL_FLAGS_STUB_AND_RESOLVER \<noteq> 0
          then map_option (\<lambda>(r, p', d'). (True, fi\<lparr>resolverFuncOffset := ucast r, isWeakDef := weak\<rparr>, d')) (next_uleb128 im trieEnd (p, d))
          else Some (True, fi\<lparr>isWeakDef := weak\<rparr>, d))
       else if kind = 1 then Some (True, fi\<lparr>isThreadLocal := True\<rparr>, d)
       else if kind = 2 then Some (True, fi\<lparr>fs_kind := absolute\<rparr>, d)
       else Some (False, fi, error ''unsupported exported symbol kind'' d))"

definition found_node ::
    "symbol_search \<Rightarrow> MappedImage \<Rightarrow> finder \<Rightarrow> nat \<Rightarrow> u8 list \<Rightarrow> bool \<Rightarrow> nat \<Rightarrow> nat \<Rightarrow> FoundSymbol \<times> diag \<Rightarrow> (bool \<times> FoundSymbol \<times> diag) option" where
  "found_node search im findDependent this symbolName weakImport trieEnd node fd =
     Option.bind (next_uleb128 im trieEnd (node, snd fd)) (\<lambda>(flags, p, d).
       if flags AND EXPORT_SYMBOL_FLAGS_REEXPORT \<noteq> 0
       then found_reexport search im findDependent this symbolName weakImport trieEnd (p, d) (fst fd)
       else found_regular im this symbolName flags trieEnd (p, d))"

text \<open>The search of an image without an exports trie. It leaves \<open>isWeakDef\<close> as it was.\<close>

definition strcmp_name :: "memory \<Rightarrow> nat \<Rightarrow> u8 list \<Rightarrow> bool" where
  "strcmp_name m p name \<longleftrightarrow> map m [p ..< p + length name] = name \<and> m (p + length name) = 0"

definition search_symbol_table ::
    "symbol_search \<Rightarrow> MappedImage \<Rightarrow> LinkEditInfo \<Rightarrow> finder \<Rightarrow> nat \<Rightarrow> u8 list \<Rightarrow> bool \<Rightarrow> FoundSymbol \<times> diag \<Rightarrow> (bool \<times> FoundSymbol \<times> diag) option" where
  "search_symbol_table search im leInfo findDependent this symbolName weakImport fd =
     Option.bind (forEachGlobalSymbol (mi_mem im) (mi_addr im) (mi_uninit im)
         (\<lambda>fi (aSymbolName, sym).
            if strcmp_name (mi_mem im) aSymbolName symbolName
            then Some (fi\<lparr>fs_kind := headerOffset, isThreadLocal := False, foundInDylib := Some this,
                   fs_value := n_value sym - textUnslidVMAddr (layout leInfo), resolverFuncOffset := 0, foundSymbolName := symbolName\<rparr>, True)
            else Some (fi, False)) ((fst fd)\<lparr>foundInDylib := None\<rparr>, snd fd)) (\<lambda>(fi, d).
       map_option (\<lambda>(b, fi', d'). (foundInDylib fi' \<noteq> None, fi', d'))
         (if foundInDylib fi = None then search_reexports search (mi_mem im) findDependent this symbolName weakImport (fi, d)
          else Some (True, fi, d)))"

text \<open>
  The recursion follows re-exports from image to image and need not end; \<open>fuel\<close> bounds its depth, and running out of it is
  \<open>None\<close>, as is a read outside the mapped bytes or a failed assertion.
\<close>

fun findExportedSymbol :: "nat \<Rightarrow> (nat \<Rightarrow> MappedImage) \<Rightarrow> finder \<Rightarrow> symbol_search" where
  "findExportedSymbol 0 images findDependent this symbolName weakImport fd = None"
| "findExportedSymbol (Suc fuel) images findDependent this symbolName weakImport (foundInfo, d) =
     (let im = images this; m = mi_mem im; search = findExportedSymbol fuel images findDependent in
      Option.bind (getLinkEditPointers m (mi_addr im) (mi_uninit im) d) (\<lambda>(leInfo, d1).
        if hasError d1 then Some (False, foundInfo, d1)
        else case getExportsTrie m leInfo of
          Some (trie, trieSize) \<Rightarrow>
            (let trieStart = unat trie; trieEnd = trieStart + unat trieSize in
             Option.bind (trieWalk m (mi_limit im) trieStart trieEnd symbolName) (\<lambda>r.
               case r of
                 OutOfBounds \<Rightarrow> None
               | NotFound e \<Rightarrow> search_reexports search m findDependent this symbolName weakImport (foundInfo, then_diag d1 e)
               | Found node \<Rightarrow> found_node search im findDependent this symbolName weakImport trieEnd node (foundInfo, d1)))
        | None \<Rightarrow> search_symbol_table search im leInfo findDependent this symbolName weakImport (foundInfo, d1)))"
section \<open>What a search in the exports trie answers\<close>

lemma next_uleb128_bytes:
  assumes "bytes_at (mi_mem im) p (append_uleb128 v)" and "p + length (append_uleb128 v) \<le> e" and "e \<le> mi_limit im"
  shows "next_uleb128 im e (p, d) = Some (v, p + length (append_uleb128 v), d)"
  using checked_uleb128_bytes [OF assms] by (simp add: next_uleb128_def then_diag_def)

text \<open>The symbol an entry of the trie of image \<open>this\<close> describes.\<close>

definition symbol_of :: "nat \<Rightarrow> u8 list \<Rightarrow> ExportInfo \<Rightarrow> FoundSymbol" where
  "symbol_of this s i =
     (let kind = ei_flags i AND 3 in
      \<lparr>fs_kind = (if kind = 2 then absolute else headerOffset), isThreadLocal = (kind = 1),
       isWeakDef = (kind = 0 \<and> ei_flags i AND 4 \<noteq> 0), foundInDylib = Some this, fs_value = ei_address i,
       resolverFuncOffset = (if kind = 0 \<and> ei_flags i AND EXPORT_SYMBOL_FLAGS_STUB_AND_RESOLVER \<noteq> 0 then ucast (ei_other i) else 0),
       foundSymbolName = s\<rparr>)"

lemma and_3_cases: "(x :: u64) AND 3 = 0 \<or> x AND 3 = 1 \<or> x AND 3 = 2 \<or> x AND 3 = 3"
proof -
  have "x AND 3 = take_bit 2 x" by (simp add: take_bit_eq_mask mask_eq_exp_minus_1)
  then have "unat (x AND 3) < 4" by (simp add: take_bit_eq_mod unat_mod)
  then have "unat (x AND 3) \<in> {0, 1, 2, 3}" by auto
  then show ?thesis by (auto simp: word_unat_eq_iff)
qed

lemma found_node_regular:
  assumes "bytes_at (mi_mem im) q (export_payload i)" and "q + length (export_payload i) \<le> e" and "e \<le> mi_limit im"
    and "ei_flags i AND EXPORT_SYMBOL_FLAGS_REEXPORT = 0" and "ei_flags i AND 3 \<noteq> 3"
  shows "found_node search im findDependent this s weakImport e q (fi, None) = Some (True, symbol_of this s i, None)"
proof -
  let ?stub = "ei_flags i AND EXPORT_SYMBOL_FLAGS_STUB_AND_RESOLVER \<noteq> 0"
  let ?p = "q + length (append_uleb128 (ei_flags i))"
  let ?p' = "?p + length (append_uleb128 (ei_address i))"
  have b: "bytes_at (mi_mem im) q (append_uleb128 (ei_flags i))" "bytes_at (mi_mem im) ?p (append_uleb128 (ei_address i))" "?p' \<le> e"
    and b': "?stub \<Longrightarrow> bytes_at (mi_mem im) ?p' (append_uleb128 (ei_other i))" "?stub \<Longrightarrow> ?p' + length (append_uleb128 (ei_other i)) \<le> e"
    using assms(1,2,4) by (auto simp: export_payload_def bytes_at_append add.assoc split: if_splits)
  note u = next_uleb128_bytes [OF b(1) _ assms(3), of None] next_uleb128_bytes [OF b(2,3) assms(3), of None]
    next_uleb128_bytes [OF b' assms(3), of None]
  have node: "found_node search im findDependent this s weakImport e q (fi, None) = found_regular im this s (ei_flags i) e (?p, None)"
    using u(1) b(3) assms(4) by (simp add: found_node_def)
  show ?thesis unfolding node found_regular_def u(2)
    using and_3_cases [of "ei_flags i"] assms(5) u(3) by (cases ?stub) (auto simp: symbol_of_def hasError_def Let_def)
qed

lemma found_node_reexport:
  assumes "bytes_at (mi_mem im) q (export_payload i)" and "q + length (export_payload i) \<le> e" and "e \<le> mi_limit im"
    and "ei_flags i AND EXPORT_SYMBOL_FLAGS_REEXPORT \<noteq> 0" and "0 \<notin> set (importName i)"
    and "dependentDylibCount (mi_mem im) = Some n" and "0 < ei_other i" and "ei_other i \<le> ucast n" and "fn this (ucast (ei_other i - 1)) = Some dep"
  shows "found_node search im (Some fn) this s weakImport e q (fi, None)
    = search dep (if importName i = [] then s else importName i) weakImport (fi, None)"
proof -
  let ?p = "q + length (append_uleb128 (ei_flags i))"
  let ?p' = "?p + length (append_uleb128 (ei_other i))"
  have b: "bytes_at (mi_mem im) q (append_uleb128 (ei_flags i))" "bytes_at (mi_mem im) ?p (append_uleb128 (ei_other i))"
      "bytes_at (mi_mem im) ?p' (importName i @ [0])" "?p' + length (importName i) < e"
    using assms(1,2,4) by (auto simp: export_payload_def bytes_at_append add.assoc)
  have nul: "find_nul (mi_mem im) ?p' (mi_limit im) = Some (?p' + length (importName i))"
    by (rule find_nul_string [OF b(3) assms(5)]) (use b(4) assms(3) in simp)
  have name: "map (mi_mem im) [?p' ..< ?p' + length (importName i)] = importName i"
    using b(3) unfolding bytes_at_append bytes_at_map [symmetric] by simp
  have ordinal: "\<not> (ei_other i = 0 \<or> ei_other i > ucast n)" using assms(7,8) by auto
  have first: "mi_mem im ?p' = 0 \<longleftrightarrow> importName i = []" "\<not> mi_limit im \<le> ?p'"
    using b(3,4) assms(3,5) by (cases "importName i"; auto)+
  have "next_uleb128 im e (q, None) = Some (ei_flags i, ?p, None)" "next_uleb128 im e (?p, None) = Some (ei_other i, ?p', None)"
    using b by (auto intro!: next_uleb128_bytes assms(3))
  then show ?thesis using assms(4,6,9) nul name ordinal first
    by (simp add: found_node_def found_reexport_def Let_def)
qed
text \<open>
  The image \<open>this\<close> carries the stream \<open>bs\<close> as its exports trie: its load commands are read without error, and the trie they
  name is mapped.
\<close>

definition exports_stream :: "MappedImage \<Rightarrow> u8 list \<Rightarrow> bool" where
  "exports_stream im bs \<longleftrightarrow>
     (case getLinkEditPointers (mi_mem im) (mi_addr im) (mi_uninit im) None of
        Some (leInfo, None) \<Rightarrow>
          (case getExportsTrie (mi_mem im) leInfo of
             Some (trie, trieSize) \<Rightarrow>
               unat trieSize = length bs \<and> map (mi_mem im) [unat trie ..< unat trie + length bs] = bs \<and> unat trie + length bs \<le> mi_limit im
           | None \<Rightarrow> False)
      | _ \<Rightarrow> False)"

lemma exports_streamE:
  assumes "exports_stream im bs"
  obtains leInfo trie trieSize where "getLinkEditPointers (mi_mem im) (mi_addr im) (mi_uninit im) None = Some (leInfo, None)"
    "getExportsTrie (mi_mem im) leInfo = Some (trie, trieSize)" "unat trieSize = length bs" "bytes_at (mi_mem im) (unat trie) bs" "unat trie + length bs \<le> mi_limit im"
  using assms by (auto simp: exports_stream_def bytes_at_map split: option.splits prod.splits)

text \<open>What \<open>findExportedSymbol\<close> does with the outcome of the walk.\<close>

definition after_walk ::
    "symbol_search \<Rightarrow> MappedImage \<Rightarrow> finder \<Rightarrow> nat \<Rightarrow> u8 list \<Rightarrow> bool \<Rightarrow> nat \<Rightarrow> FoundSymbol \<Rightarrow> walk_result option \<Rightarrow> (bool \<times> FoundSymbol \<times> diag) option" where
  "after_walk search im finder this s weakImport trieEnd fi walk =
     Option.bind walk (\<lambda>r. case r of
         OutOfBounds \<Rightarrow> None
       | NotFound e \<Rightarrow> search_reexports search (mi_mem im) finder this s weakImport (fi, then_diag None e)
       | Found node \<Rightarrow> found_node search im finder this s weakImport trieEnd node (fi, None))"

lemma findExportedSymbol_walks:
  assumes "exports_stream (images this) bs"
  shows "\<exists>trieStart. bytes_at (mi_mem (images this)) trieStart bs \<and> trieStart + length bs \<le> mi_limit (images this)
    \<and> findExportedSymbol (Suc fuel) images finder this s weakImport (fi, None) =
        after_walk (findExportedSymbol fuel images finder) (images this) finder this s weakImport (trieStart + length bs) fi
          (trieWalk (mi_mem (images this)) (mi_limit (images this)) trieStart (trieStart + length bs) s)"
proof -
  obtain leInfo trie trieSize where "getLinkEditPointers (mi_mem (images this)) (mi_addr (images this)) (mi_uninit (images this)) None = Some (leInfo, None)"
    "getExportsTrie (mi_mem (images this)) leInfo = Some (trie, trieSize)" "unat trieSize = length bs"
    "bytes_at (mi_mem (images this)) (unat trie) bs" "unat trie + length bs \<le> mi_limit (images this)"
    using exports_streamE [OF assms] by blast
  then show ?thesis by (intro exI [of _ "unat trie"]) (simp add: hasError_def after_walk_def Let_def)
qed

text \<open>
  C6: a symbol is found as it was exported. Let an image carry the stream that the trie builder writes for a list of export infos (with the
  limits of the encoding). Then \<open>findExportedSymbol\<close> answers for a name with an ordinary info exactly what the info says: address, kind,
  weakness and resolver. For a re-export whose ordinal names a dependent it goes on in that dylib, under the import name if there is one. For a
  name that is not in the list it searches the re-exported dylibs.
\<close>

theorem findExportedSymbol_answers_entries:
  assumes "\<forall>(s, i)\<in>set es. 0 \<notin> set s \<and> 0 \<notin> set (importName i)" and "\<forall>(s, i)\<in>set es. export_encodable (export_willInsertAs s i)"
    and "stream_bound export_appendToStream (Trie export_willInsertAs es) < 2 ^ 32"
  defines "table \<equiv> map_of (rev (map (\<lambda>(s, i). (s, export_willInsertAs s i)) es))"
  shows "\<exists>bs. emit export_encodedSize export_appendToStream (Trie export_willInsertAs es) = Some bs \<and>
    (\<forall>images this fuel finder s weakImport fi. exports_stream (images this) bs \<longrightarrow>
       (let result = findExportedSymbol (Suc fuel) images finder this s weakImport (fi, None); m = mi_mem (images this) in
        (case table s of
           None \<Rightarrow> result = search_reexports (findExportedSymbol fuel images finder) m finder this s weakImport (fi, None)
         | Some i \<Rightarrow>
             if ei_flags i AND EXPORT_SYMBOL_FLAGS_REEXPORT = 0
             then ei_flags i AND 3 \<noteq> 3 \<longrightarrow> result = Some (True, symbol_of this s i, None)
             else \<forall>n fn dep. finder = Some fn \<and> dependentDylibCount m = Some n \<and> 0 < ei_other i \<and> ei_other i \<le> ucast n
                \<and> fn this (ucast (ei_other i - 1)) = Some dep \<longrightarrow>
                result = findExportedSymbol fuel images finder dep (if importName i = [] then s else importName i) weakImport (fi, None))))"
proof -
  have names: "\<forall>(s, i)\<in>set es. 0 \<notin> set s" using assms(1) by auto
  have import: "0 \<notin> set (importName i)" if "table s = Some i" for s i
    using last_value_mem [OF that [unfolded table_def]] assms(1) by (auto simp: export_willInsertAs_def split: if_splits)
  obtain bs where bs: "emit export_encodedSize export_appendToStream (Trie export_willInsertAs es) = Some bs"
    and walk: "\<And>m limit start s. bytes_at m start bs \<Longrightarrow> start + length bs \<le> limit \<Longrightarrow>
       (case table s of
          None \<Rightarrow> trieWalk m limit start (start + length bs) s = Some (NotFound None)
        | Some i \<Rightarrow> \<exists>q. trieWalk m limit start (start + length bs) s = Some (Found q)
            \<and> bytes_at m q (export_payload i) \<and> q + length (export_payload i) \<le> start + length bs)"
    using export_trie_emitted [OF names assms(2,3)] unfolding table_def by blast
  show ?thesis
  proof (intro exI [of _ bs] conjI allI impI)
    fix images :: "nat \<Rightarrow> MappedImage" and this fuel :: nat and finder :: finder and s weakImport fi
    assume stream: "exports_stream (images this) bs"
    obtain trieStart where at: "bytes_at (mi_mem (images this)) trieStart bs" "trieStart + length bs \<le> mi_limit (images this)"
      and start: "findExportedSymbol (Suc fuel) images finder this s weakImport (fi, None) =
        after_walk (findExportedSymbol fuel images finder) (images this) finder this s weakImport (trieStart + length bs) fi
          (trieWalk (mi_mem (images this)) (mi_limit (images this)) trieStart (trieStart + length bs) s)"
      using findExportedSymbol_walks [of images this bs fuel finder s weakImport fi, OF stream] by blast
    show "let result = findExportedSymbol (Suc fuel) images finder this s weakImport (fi, None); m = mi_mem (images this) in
        (case table s of
           None \<Rightarrow> result = search_reexports (findExportedSymbol fuel images finder) m finder this s weakImport (fi, None)
         | Some i \<Rightarrow>
             if ei_flags i AND EXPORT_SYMBOL_FLAGS_REEXPORT = 0
             then ei_flags i AND 3 \<noteq> 3 \<longrightarrow> result = Some (True, symbol_of this s i, None)
             else \<forall>n fn dep. finder = Some fn \<and> dependentDylibCount m = Some n \<and> 0 < ei_other i \<and> ei_other i \<le> ucast n
                \<and> fn this (ucast (ei_other i - 1)) = Some dep \<longrightarrow>
                result = findExportedSymbol fuel images finder dep (if importName i = [] then s else importName i) weakImport (fi, None))"
    proof (cases "table s")
      case None
      with walk [OF at, of s] start show ?thesis by (simp add: after_walk_def then_diag_def Let_def del: findExportedSymbol.simps)
    next
      case (Some i)
      obtain q where q: "trieWalk (mi_mem (images this)) (mi_limit (images this)) trieStart (trieStart + length bs) s = Some (Found q)"
          "bytes_at (mi_mem (images this)) q (export_payload i)" "q + length (export_payload i) \<le> trieStart + length bs"
        using walk [OF at, of s] Some by auto
      show ?thesis using found_node_regular [OF q(2,3) at(2)] found_node_reexport [OF q(2,3) at(2) _ import [OF Some]] Some
        unfolding start q(1) by (auto simp: after_walk_def Let_def simp del: findExportedSymbol.simps)
    qed
  qed (rule bs)
qed
text \<open>A dylib whose only load command names the trie of \<open>sample_exports\<close>, which follows it.\<close>

definition exporting_dylib :: memory where
  "exporting_dylib = mem_words
     [0xFEEDFACF, 0x01000007, 3, 6, 1, 16, 0x80, 0, 0x80000033, 16, 48, 24,
      0x615F0100, 0x02000600, 0x630E0062, 0x00031300, 0x03002080, 0x00408004]"

definition zero_layout :: LayoutInfo where
  "zero_layout = \<lparr>li_slide = 0, textUnslidVMAddr = 0, linkeditUnslidVMAddr = 0, linkeditFileOffset = 0, linkeditFileSize = 0,
     linkeditSegIndex = 0, lastSegIndex = 0\<rparr>"

definition exporting_image :: MappedImage where
  "exporting_image = \<lparr>mi_mem = exporting_dylib, mi_addr = 0, mi_limit = 72, mi_uninit = zero_layout\<rparr>"

lemma exporting_dylib_list: "load_commands exporting_dylib = [32]" "\<not> malformed_commands exporting_dylib"
  "snd (load_commands_diag exporting_dylib) = None" "lc_cmd exporting_dylib 32 = LC_DYLD_EXPORTS_TRIE" "lc_cmdsize exporting_dylib 32 = 16"
  "read32 exporting_dylib 40 = 48" "read32 exporting_dylib 44 = 24"
  by (simp_all add: exporting_dylib_def walk_eval)

lemma sample_settle:
  "settle export_encodedSize (Trie export_willInsertAs sample_exports)
    = Some (Node [([95, 97], Node [([98], Node [] (Some (ExportInfo_new\<lparr>ei_address := 0x1000\<rparr>)) 14),
        ([99], Node [] (Some (ExportInfo_new\<lparr>ei_address := 0x2000, ei_flags := 4\<rparr>)) 19)] None 6)] None 0)"
  unfolding sample_trie
  by (subst settle.simps, simp add: node_size_def uleb128_size.simps export_encodedSize_def ExportInfo_new_def
      EXPORT_SYMBOL_FLAGS_REEXPORT_def EXPORT_SYMBOL_FLAGS_STUB_AND_RESOLVER_def,
    subst settle.simps, simp add: node_size_def uleb128_size.simps export_encodedSize_def
      EXPORT_SYMBOL_FLAGS_REEXPORT_def EXPORT_SYMBOL_FLAGS_STUB_AND_RESOLVER_def)

abbreviation sample_stream :: "u8 list" where
  "sample_stream \<equiv> [0, 1, 95, 97, 0, 6, 0, 2, 98, 0, 14, 99, 0, 19, 3, 0, 128, 32, 0, 3, 4, 128, 64, 0]"

lemma sample_emit: "emit export_encodedSize export_appendToStream (Trie export_willInsertAs sample_exports) = Some sample_stream"
  by (simp add: emit_def sample_settle node_bytes_def append_string_def append_uleb128.simps export_appendToStream_def uleb128_size.simps
      ExportInfo_new_def EXPORT_SYMBOL_FLAGS_REEXPORT_def EXPORT_SYMBOL_FLAGS_STUB_AND_RESOLVER_def)

lemma exporting_image_stream: "exports_stream exporting_image sample_stream"
proof -
  have "getLinkEditLoadCommands exporting_dylib None = Some (no_commands\<lparr>le_exportsTrie := Some 32\<rparr>, None)"
    by (simp add: getLinkEditLoadCommands_def walkDiag_def forEachLoadCommand_list exporting_dylib_list linkedit_step_def
        once_of_size_def no_commands_def diag_defs)
  moreover have "getLayoutInfo exporting_dylib 0 zero_layout = Some zero_layout"
    by (simp add: getLayoutInfo_def segs.walk_fold exporting_dylib_list segments_def segment_commands_def is_segment_command_def)
  ultimately have "getLinkEditPointers exporting_dylib 0 zero_layout None
      = Some (\<lparr>leCommands = no_commands\<lparr>le_exportsTrie := Some 32\<rparr>, layout = zero_layout\<rparr>, None)"
    by (simp add: getLinkEditPointers_def)
  moreover have "map exporting_dylib [48 ..< 72] = sample_stream"
    by (simp add: upt_rec exporting_dylib_def mem_words_def)
  ultimately show ?thesis
    by (simp add: exports_stream_def exporting_image_def getExportsTrie_def exporting_dylib_list zero_layout_def no_commands_def)
qed

theorem findExportedSymbol_answers_entries_witness:
  "findExportedSymbol 1 (\<lambda>_. exporting_image) None 0 [95, 97, 99] False (symbol_of 0 [] ExportInfo_new, None)
     = Some (True, \<lparr>fs_kind = headerOffset, isThreadLocal = False, isWeakDef = True, foundInDylib = Some 0, fs_value = 0x2000,
         resolverFuncOffset = 0, foundSymbolName = [95, 97, 99]\<rparr>, None)"
proof -
  have uleb: "append_uleb128 0x1000 = [0x80, 0x20]" "append_uleb128 0x2000 = [0x80, 0x40]" "append_uleb128 0 = [0]" "append_uleb128 4 = [4]"
    by (simp_all add: append_uleb128.simps)
  note flags = EXPORT_SYMBOL_FLAGS_REEXPORT_def EXPORT_SYMBOL_FLAGS_STUB_AND_RESOLVER_def
  have "\<forall>(s, i)\<in>set sample_exports. 0 \<notin> set s \<and> 0 \<notin> set (importName i)"
    "\<forall>(s, i)\<in>set sample_exports. export_encodable (export_willInsertAs s i)"
    by (simp_all add: sample_exports_def export_encodable_def export_payload_def export_willInsertAs_def ExportInfo_new_def flags uleb)
  moreover have "stream_bound export_appendToStream (Trie export_willInsertAs sample_exports) < 2 ^ 32"
    by (simp add: sample_trie node_bound_def export_appendToStream_def ExportInfo_new_def flags uleb)
  ultimately show ?thesis
    using findExportedSymbol_answers_entries [of sample_exports] exporting_image_stream
    unfolding sample_emit option.inject
    by (auto simp: sample_exports_def export_willInsertAs_def ExportInfo_new_def symbol_of_def flags Let_def
        simp del: findExportedSymbol.simps dest!: spec [of _ "\<lambda>_. exporting_image"] spec [of _ "0 :: nat"] spec [of _ "None :: finder"] spec [of _ "[95, 97, 99]"] spec [of _ False])
qed
section \<open>The symbol at an address\<close>

text \<open>
  \<open>closer\<close> is the body of the loops of \<open>findClosestSymbol\<close>. The ARM variant that sets the Thumb bit of the result is not compiled on a
  64-bit host.
\<close>

definition closer :: "(u8 \<Rightarrow> bool) \<Rightarrow> u64 \<Rightarrow> u32 \<Rightarrow> nlist option \<Rightarrow> nlist \<Rightarrow> nlist option" where
  "closer wanted target sect best s =
     (if wanted (n_type s) then
        (case best of
           None \<Rightarrow> if n_value s \<le> target \<and> ucast (n_sect s) = sect then Some s else None
         | Some b \<Rightarrow> if n_value s \<le> target \<and> n_value b < n_value s \<and> ucast (n_sect s) = sect then Some s else Some b)
      else best)"

definition global_type :: "u8 \<Rightarrow> bool" where
  "global_type ty \<longleftrightarrow> ty AND 0x0E = 0x0E"

definition local_type :: "u8 \<Rightarrow> bool" where
  "local_type ty \<longleftrightarrow> ty AND 0x0E = 0x0E \<and> ty AND 0xE0 = 0"

text \<open>The number of the section an address is in; an address outside all sections gets the number of the last one.\<close>

definition sectionIndexForAddress :: "memory \<Rightarrow> u64 \<Rightarrow> u32 option" where
  "sectionIndexForAddress m target =
     forEachSection m (\<lambda>n (info, malformedSectionRange).
       Some (n + 1, sectAddr info \<le> target \<and> target < sectAddr info + sectSize info)) 0"

definition symbol_range :: "memory \<Rightarrow> nat \<Rightarrow> nat \<Rightarrow> nlist list" where
  "symbol_range m symbols c =
     map (nlist_at m symbols) [unat (read32 m c) ..< unat (read32 m c) + unat (read32 m (c + 4))]"

definition bestSymbol :: "memory \<Rightarrow> nat \<Rightarrow> nat \<Rightarrow> u64 \<Rightarrow> u32 \<Rightarrow> nlist option" where
  "bestSymbol m symbols dy target sect =
     foldl (closer local_type target sect)
       (foldl (closer global_type target sect) None (symbol_range m symbols (dy + 16)))
       (symbol_range m symbols (dy + 8))"

text \<open>The result is the address of the name, which is left alone when the string offset is out of range, and the symbol's address.\<close>

definition findClosestSymbol :: "memory \<Rightarrow> u64 \<Rightarrow> LayoutInfo \<Rightarrow> u64 \<Rightarrow> (nat option \<times> u64) option option" where
  "findClosestSymbol m loadAddr uninit address =
     Option.bind (getLinkEditPointers m loadAddr uninit None) (\<lambda>(leInfo, d).
       if hasError d then Some None
       else case (le_symTab (leCommands leInfo), le_dynSymTab (leCommands leInfo)) of
         (Some symTab, Some dy) \<Rightarrow>
           (let lo = layout leInfo; target = address - li_slide lo in
            Option.bind (sectionIndexForAddress m target) (\<lambda>sect.
              let maxStringOffset = read32 m (symTab + 20);
                  stringPool = content_at loadAddr lo (read32 m (symTab + 16));
                  symbols = content_at loadAddr lo (read32 m (symTab + 8)) in
              Some (map_option (\<lambda>s. (if n_strx s < maxStringOffset then Some (stringPool + unat (n_strx s)) else None, n_value s + li_slide lo))
                      (bestSymbol m symbols dy target sect))))
       | _ \<Rightarrow> Some None)"

text \<open>The symbols \<open>findClosestSymbol\<close> chooses from.\<close>

definition candidates :: "memory \<Rightarrow> nat \<Rightarrow> nat \<Rightarrow> u64 \<Rightarrow> u32 \<Rightarrow> nlist list" where
  "candidates m symbols dy target sect =
     filter (\<lambda>s. n_value s \<le> target \<and> ucast (n_sect s) = sect)
       (filter (\<lambda>s. global_type (n_type s)) (symbol_range m symbols (dy + 16))
        @ filter (\<lambda>s. local_type (n_type s)) (symbol_range m symbols (dy + 8)))"

definition best_of :: "nlist list \<Rightarrow> nlist option \<Rightarrow> bool" where
  "best_of cs best \<longleftrightarrow> (case best of None \<Rightarrow> cs = [] | Some b \<Rightarrow> b \<in> set cs \<and> (\<forall>s\<in>set cs. n_value s \<le> n_value b))"

lemma closer_best:
  assumes "best_of cs best"
  shows "best_of (cs @ filter (\<lambda>s. n_value s \<le> target \<and> ucast (n_sect s) = sect) (filter (\<lambda>s. wanted (n_type s)) ss))
    (foldl (closer wanted target sect) best ss)"
  using assms
proof (induction ss arbitrary: cs best)
  case (Cons s ss)
  let ?new = "filter (\<lambda>s. n_value s \<le> target \<and> ucast (n_sect s) = sect) (filter (\<lambda>s. wanted (n_type s)) [s])"
  have "best_of (cs @ ?new) (closer wanted target sect best s)"
    using Cons.prems by (auto simp: best_of_def closer_def split: option.splits)
  from Cons.IH [OF this] show ?case by (auto simp: if_distribR split: if_splits)
qed simp

lemma bestSymbol_best: "best_of (candidates m symbols dy target sect) (bestSymbol m symbols dy target sect)"
  using closer_best [of "[]" None target sect global_type "symbol_range m symbols (dy + 16)"]
    closer_best [of "filter (\<lambda>s. n_value s \<le> target \<and> ucast (n_sect s) = sect) (filter (\<lambda>s. global_type (n_type s)) (symbol_range m symbols (dy + 16)))"
      _ target sect local_type "symbol_range m symbols (dy + 8)"]
  by (simp add: candidates_def bestSymbol_def best_of_def)
section \<open>The function at an address\<close>

text \<open>
  The loop of \<open>findClosestFunctionStart\<close>: \<open>running\<close> is the last address reached. The result is the function start, if one is
  reported. A value that could not be read is still used before the loop ends.
\<close>

partial_function (option) starts_loop :: "memory \<Rightarrow> nat \<Rightarrow> nat \<Rightarrow> u64 \<Rightarrow> u64 \<Rightarrow> u64 option option" where
  "starts_loop m e p running address =
     (case read_uleb128 m p e of
        (v, q, d) \<Rightarrow>
          if v = 0 then Some None
          else if running + v > address then Some (Some running)
          else if hasError d then Some None
          else starts_loop m e q (running + v) address)"

definition findClosestFunctionStart :: "memory \<Rightarrow> u64 \<Rightarrow> LayoutInfo \<Rightarrow> u64 \<Rightarrow> u64 option option" where
  "findClosestFunctionStart m loadAddr uninit address =
     Option.bind (getLinkEditPointers m loadAddr uninit None) (\<lambda>(leInfo, d).
       if hasError d then Some None
       else case le_functionStarts (leCommands leInfo) of
         None \<Rightarrow> Some None
       | Some c \<Rightarrow>
           (let starts = content_at loadAddr (layout leInfo) (read32 m (c + 8))
            in starts_loop m (starts + unat (read32 m (c + 12))) starts loadAddr address))"

lemma starts_loop_returns: "p \<le> e \<Longrightarrow> \<exists>r. starts_loop m e p running address = Some r"
proof (induction "e - p" arbitrary: p running rule: less_induct)
  case less
  obtain v q d where r: "read_uleb128 m p e = (v, q, d)" by (metis prod_cases3)
  show ?case
  proof (cases "d = None")
    case True
    then have "p < q" "q \<le> e" using rd.decode_sound [OF less.prems, of m v q] r by (simp_all add: read_uleb128_ok_iff)
    then have "\<exists>r. starts_loop m e q (running + v) address = Some r" using less.hyps [of q "running + v"] by simp
    with r show ?thesis by (subst starts_loop.simps) auto
  next
    case False
    with r show ?thesis by (subst starts_loop.simps) (auto simp: hasError_def)
  qed
qed

text \<open>The addresses a list of distances leads to.\<close>

fun running_sums :: "u64 \<Rightarrow> u64 list \<Rightarrow> u64 list" where
  "running_sums a [] = []"
| "running_sums a (d # ds) = (a + d) # running_sums (a + d) ds"

lemma starts_loop_stream:
  assumes "bytes_at m p (concat (map append_uleb128 ds) @ [0])" and "p + length (concat (map append_uleb128 ds)) + 1 \<le> e" and "0 \<notin> set ds"
  shows "starts_loop m e p running address
    = Some (case List.find (\<lambda>(a, b). b > address) (zip (running # running_sums running ds) (running_sums running ds)) of
        None \<Rightarrow> None | Some (a, b) \<Rightarrow> Some a)"
  using assms
proof (induction ds arbitrary: p running)
  case Nil
  have "append_uleb128 0 = [0]" by (simp add: append_uleb128.simps)
  then have "read_uleb128 m p e = (0, p + 1, None)"
    using rd.decode_append [of m p 0 e] Nil by (simp add: read_uleb128_ok_iff)
  then show ?case by (subst starts_loop.simps) simp
next
  case (Cons d ds)
  have "bytes_at m p (append_uleb128 d)" and rest: "bytes_at m (p + length (append_uleb128 d)) (concat (map append_uleb128 ds) @ [0])"
    using Cons.prems(1) by (simp_all add: bytes_at_append)
  then have "read_uleb128 m p e = (d, p + length (append_uleb128 d), None)"
    using rd.decode_append [of m p d e] Cons.prems(2) by (simp add: read_uleb128_ok_iff bytes_at_map)
  moreover have "d \<noteq> 0" using Cons.prems(3) by auto
  moreover note Cons.IH [OF rest, of "running + d"]
  ultimately show ?case using Cons.prems(2,3) by (subst starts_loop.simps) (simp add: hasError_def)
qed

text \<open>An address in the last function is not found: the loop reports a function only when it reads the start of the next one.\<close>

lemma last_function_not_found:
  assumes "bytes_at m p (concat (map append_uleb128 ds) @ [0])" and "p + length (concat (map append_uleb128 ds)) + 1 \<le> e" and "0 \<notin> set ds"
    and "\<forall>start\<in>set (running_sums running ds). start \<le> address"
  shows "starts_loop m e p running address = Some None"
proof -
  have "List.find (\<lambda>(a, b). b > address) (zip (running # running_sums running ds) (running_sums running ds)) = None"
    using assms(4) by (auto simp: find_None_iff not_less dest: set_zip_rightD)
  with starts_loop_stream [OF assms(1-3), of running address] show ?thesis by simp
qed

section \<open>The closest symbol\<close>

text \<open>
  The sections of an image are numbered from 1 in the order of its load commands; \<open>section_of\<close> holds
  when the section with index \<open>k\<close> (number \<open>k + 1\<close>) is the first that contains an address.
\<close>

definition in_section :: "u64 \<Rightarrow> SectionInfo \<times> bool \<Rightarrow> bool" where
  "in_section addr sect \<longleftrightarrow> sectAddr (fst sect) \<le> addr \<and> addr < sectAddr (fst sect) + sectSize (fst sect)"

definition section_of :: "memory \<Rightarrow> u64 \<Rightarrow> nat \<Rightarrow> bool" where
  "section_of m addr k \<longleftrightarrow> k < length (sections m) \<and> in_section addr (sections m ! k)
     \<and> (\<forall>j<k. \<not> in_section addr (sections m ! j))"

lemma forStop_counting:
  assumes "k < length xs" and "P (xs ! k)" and "\<forall>j<k. \<not> P (xs ! j)"
  shows "forStop (\<lambda>n x. Some (n + 1, P x)) (n :: u32) xs = Some (n + of_nat (Suc k), True)"
  using assms
proof (induction k arbitrary: xs n)
  case 0
  then show ?case by (cases xs) auto
next
  case (Suc k)
  then obtain x ys where xs: "xs = x # ys" by (cases xs) auto
  moreover have "\<not> P x" using Suc.prems(3) xs by (metis nth_Cons_0 zero_less_Suc)
  moreover have "\<forall>j<k. \<not> P (ys ! j)" using Suc.prems(3) xs by (metis Suc_less_eq nth_Cons_Suc)
  ultimately show ?case using Suc.IH [of ys "n + 1"] Suc.prems(1,2) by (simp add: algebra_simps)
qed

lemma forStop_counting_all:
  "\<forall>x\<in>set xs. \<not> P x \<Longrightarrow> forStop (\<lambda>n x. Some (n + 1, P x)) (n :: u32) xs = Some (n + of_nat (length xs), False)"
  by (induction xs arbitrary: n) (simp_all add: algebra_simps)

lemma sectionIndex_block:
  "sectionIndexForAddress m target = forEachSection m (\<lambda>n x. Some (n + 1, in_section target x)) 0"
  by (simp add: sectionIndexForAddress_def in_section_def case_prod_beta')

lemma sectionIndex_inside: "section_of m target k \<Longrightarrow> sectionIndexForAddress m target = Some (of_nat (Suc k))"
  unfolding sectionIndex_block sects.walk_items section_of_def
  by (simp add: forStop_counting [of k])

text \<open>An address outside all sections is given the number of the last one.\<close>

lemma sectionIndex_outside:
  assumes "\<not> malformed_commands m" and "\<forall>x\<in>set (sections m). \<not> in_section target x"
  shows "sectionIndexForAddress m target = Some (of_nat (length (sections m)))"
  unfolding sectionIndex_block sects.walk_items using assms by (simp add: forStop_counting_all)

text \<open>
  C31: \<open>findClosestSymbol\<close> names the right symbol for an address inside a section. For an image with a
  symbol table and an address (less the slide) in the range of the section with index \<open>k\<close> and of no earlier section, the
  answer is a symbol with that section's number \<open>k + 1\<close>, at or before the address, and no other such symbol,
  global or local, is closer; its name is the one its string offset gives when that is in range. There is no answer only when
  no symbol qualifies. (For an address in no section the code goes on with the number of the last section.)
\<close>

theorem findClosestSymbol_closest:
  assumes "getLinkEditPointers m loadAddr uninit None = Some (leInfo, None)"
    and "le_symTab (leCommands leInfo) = Some symTab" and "le_dynSymTab (leCommands leInfo) = Some dy"
    and "section_of m (address - li_slide (layout leInfo)) k"
  defines "target \<equiv> address - li_slide (layout leInfo)"
    and "symbols \<equiv> content_at loadAddr (layout leInfo) (read32 m (symTab + 8))"
  shows "\<exists>r. findClosestSymbol m loadAddr uninit address = Some r
    \<and> (case r of
         None \<Rightarrow> candidates m symbols dy target (of_nat (k + 1)) = []
       | Some (name, addr) \<Rightarrow> \<exists>s\<in>set (candidates m symbols dy target (of_nat (k + 1))).
           addr = n_value s + li_slide (layout leInfo)
           \<and> name = (if n_strx s < read32 m (symTab + 20)
                      then Some (content_at loadAddr (layout leInfo) (read32 m (symTab + 16)) + unat (n_strx s)) else None)
           \<and> (\<forall>s'\<in>set (candidates m symbols dy target (of_nat (k + 1))). n_value s' \<le> n_value s))"
  using assms(1-3) sectionIndex_inside [OF assms(4)] bestSymbol_best [of m symbols dy target "of_nat (k + 1)"]
  unfolding target_def symbols_def
  by (cases "bestSymbol m (content_at loadAddr (layout leInfo) (read32 m (symTab + 8))) dy (address - li_slide (layout leInfo)) (of_nat (k + 1))")
    (auto simp: findClosestSymbol_def hasError_def best_of_def Let_def)

text \<open>A dylib with one section of 256 bytes at \<open>0x1000\<close> and one global symbol at its start.\<close>

definition symbol_dylib :: memory where
  "symbol_dylib = mem_words
     [0xFEEDFACF, 0x01000007, 3, 6, 3, 256, 0x80, 0,
      0x19, 152, 0, 0, 0, 0, 0x1000, 0, 0x1000, 0, 0, 0, 0x1000, 0, 5, 5, 1, 0,
      0, 0, 0, 0, 0, 0, 0, 0, 0x1000, 0, 0x100, 0, 0, 0, 0, 0, 0, 0, 0, 0,
      2, 24, 288, 1, 304, 16,
      0xB, 80, 0, 0, 0, 1, 0, 0, 0, 0, 0, 0, 0, 0, 0, 0, 0, 0, 0, 0,
      1, 0x10F, 0x1000, 0]"

lemma symbol_dylib_list: "load_commands symbol_dylib = [32, 184, 208]" "\<not> malformed_commands symbol_dylib" "snd (load_commands_diag symbol_dylib) = None"
  "lc_cmd symbol_dylib 32 = LC_SEGMENT_64" "lc_cmd symbol_dylib 184 = LC_SYMTAB" "lc_cmd symbol_dylib 208 = LC_DYSYMTAB"
  "lc_cmdsize symbol_dylib 184 = 24" "lc_cmdsize symbol_dylib 208 = 80" "read32 symbol_dylib 96 = 1" "is64 symbol_dylib"
  by (simp_all add: symbol_dylib_def walk_eval is64_def)

lemma symbol_dylib_fields: "read32 symbol_dylib 192 = 288" "read32 symbol_dylib 200 = 304" "read32 symbol_dylib 204 = 16"
  "read32 symbol_dylib 216 = 0" "read32 symbol_dylib 220 = 0" "read32 symbol_dylib 224 = 0" "read32 symbol_dylib 228 = 1"
  "read64 symbol_dylib 136 = 0x1000" "read64 symbol_dylib 144 = 0x100"
  "read32 symbol_dylib 288 = 1" "read64 symbol_dylib 296 = 0x1000" "symbol_dylib 292 = 0x0F" "symbol_dylib 293 = 1"
  by (simp_all add: symbol_dylib_def walk_eval mem_words_def)

lemma symbol_dylib_pointers:
  "getLinkEditPointers symbol_dylib 0 zero_layout None
    = Some (\<lparr>leCommands = no_commands\<lparr>le_symTab := Some 184, le_dynSymTab := Some 208\<rparr>, layout = zero_layout\<rparr>, None)"
proof -
  have "getLinkEditLoadCommands symbol_dylib None = Some (no_commands\<lparr>le_symTab := Some 184, le_dynSymTab := Some 208\<rparr>, None)"
    by (simp add: getLinkEditLoadCommands_def walkDiag_def forEachLoadCommand_list symbol_dylib_list linkedit_step_def
        once_of_size_def no_commands_def diag_defs)
  moreover have "\<not> strcmp_eq symbol_dylib 40 ''__TEXT''" "\<not> strcmp_eq symbol_dylib 40 ''__LINKEDIT''"
    by (simp_all add: strcmp_eq_def symbol_dylib_def mem_words_def of_char_def)
  then have "getLayoutInfo symbol_dylib 0 zero_layout = Some zero_layout"
    by (simp add: getLayoutInfo_def segs.walk_fold symbol_dylib_list segments_def segment_commands_def is_segment_command_def
        segment_info_def segment_info64_def section_scan64_def sections64_def layout_of_segment_def zero_layout_def)
  ultimately show ?thesis by (simp add: getLinkEditPointers_def)
qed

theorem findClosestSymbol_closest_witness:
  "findClosestSymbol symbol_dylib 0 zero_layout 0x1010 = Some (Some (Some 305, 0x1000))"
proof -
  have sect: "section_of symbol_dylib 0x1010 0"
    by (simp add: section_of_def in_section_def sections_def segment_commands_def is_segment_command_def symbol_dylib_list
        section_infos_def sections64_def section_info64_def symbol_dylib_fields)
  have cand: "candidates symbol_dylib 288 208 0x1010 1
      = [\<lparr>n_strx = 1, n_type = 0x0F, n_sect = 1, n_desc = read16 symbol_dylib 294, n_value = 0x1000\<rparr>]"
    by (simp add: candidates_def symbol_range_def symbol_dylib_fields nlist_at_def symbol_dylib_list global_type_def)
  show ?thesis
    using findClosestSymbol_closest [OF symbol_dylib_pointers, of 184 208 "0x1010" 0] sect cand
    by (auto simp: zero_layout_def content_at_def getLinkEditContent_def symbol_dylib_fields no_commands_def split: option.splits)
qed

end
