(* ===== verification/Chained_Fixups.thy ===== *)
theory Chained_Fixups
  imports MachO_LinkEdit
begin

text \<open>
  Chained fixups (\<open>src/dyld3/MachOLoaded.cpp\<close>, \<open>src/include/mach-o/fixup-chains.h\<close>): the
  pointers of a page that need fixing up form a list, each holding the distance to the one after
  it beside its own target. This theory has the pointer formats (\<open>ChainedFixupPointerOnDisk\<close>),
  the walk along a chain (\<open>walkChain\<close>), the walks over the chains of a segment and of an image,
  and \<open>fixupAllChainedFixups\<close>, which replaces every pointer in place, for a 64-bit host without
  pointer authentication.

  The walks check no bounds of their own. \<open>lim\<close> is the end of the mapped memory; an access at or
  past it is a fault, the result \<open>None\<close>, as are a failed assertion and a loop that does not end.
\<close>

section \<open>Pointer formats\<close>

definition DYLD_CHAINED_PTR_ARM64E :: u16 where "DYLD_CHAINED_PTR_ARM64E = 1"
definition DYLD_CHAINED_PTR_64 :: u16 where "DYLD_CHAINED_PTR_64 = 2"
definition DYLD_CHAINED_PTR_32 :: u16 where "DYLD_CHAINED_PTR_32 = 3"
definition DYLD_CHAINED_PTR_32_CACHE :: u16 where "DYLD_CHAINED_PTR_32_CACHE = 4"
definition DYLD_CHAINED_PTR_32_FIRMWARE :: u16 where "DYLD_CHAINED_PTR_32_FIRMWARE = 5"
definition DYLD_CHAINED_PTR_64_OFFSET :: u16 where "DYLD_CHAINED_PTR_64_OFFSET = 6"
definition DYLD_CHAINED_PTR_ARM64E_KERNEL :: u16 where "DYLD_CHAINED_PTR_ARM64E_KERNEL = 7"
definition DYLD_CHAINED_PTR_64_KERNEL_CACHE :: u16 where "DYLD_CHAINED_PTR_64_KERNEL_CACHE = 8"
definition DYLD_CHAINED_PTR_ARM64E_USERLAND :: u16 where "DYLD_CHAINED_PTR_ARM64E_USERLAND = 9"
definition DYLD_CHAINED_PTR_ARM64E_FIRMWARE :: u16 where "DYLD_CHAINED_PTR_ARM64E_FIRMWARE = 10"
definition DYLD_CHAINED_PTR_X86_64_KERNEL_CACHE :: u16 where "DYLD_CHAINED_PTR_X86_64_KERNEL_CACHE = 11"
definition DYLD_CHAINED_PTR_ARM64E_USERLAND24 :: u16 where "DYLD_CHAINED_PTR_ARM64E_USERLAND24 = 12"

definition DYLD_CHAINED_PTR_START_NONE :: u16 where "DYLD_CHAINED_PTR_START_NONE = 0xFFFF"
definition DYLD_CHAINED_PTR_START_MULTI :: u16 where "DYLD_CHAINED_PTR_START_MULTI = 0x8000"
definition DYLD_CHAINED_PTR_START_LAST :: u16 where "DYLD_CHAINED_PTR_START_LAST = 0x8000"

lemmas pointer_formats = DYLD_CHAINED_PTR_ARM64E_def DYLD_CHAINED_PTR_64_def DYLD_CHAINED_PTR_32_def
  DYLD_CHAINED_PTR_32_CACHE_def DYLD_CHAINED_PTR_32_FIRMWARE_def DYLD_CHAINED_PTR_64_OFFSET_def
  DYLD_CHAINED_PTR_ARM64E_KERNEL_def DYLD_CHAINED_PTR_64_KERNEL_CACHE_def
  DYLD_CHAINED_PTR_ARM64E_USERLAND_def DYLD_CHAINED_PTR_ARM64E_FIRMWARE_def
  DYLD_CHAINED_PTR_X86_64_KERNEL_CACHE_def DYLD_CHAINED_PTR_ARM64E_USERLAND24_def

lemmas chain_start_consts = DYLD_CHAINED_PTR_START_NONE_def DYLD_CHAINED_PTR_START_MULTI_def
  DYLD_CHAINED_PTR_START_LAST_def

text \<open>
  \<open>ChainedFixupPointerOnDisk\<close> is a union of bit-field structs over eight bytes: its content is the
  64-bit word, its 32-bit members the low half, and a member is named by where its bits start and
  how many there are.
\<close>

definition bits :: "nat \<Rightarrow> nat \<Rightarrow> 'a::len word \<Rightarrow> 'a word" where
  "bits start width w = take_bit width (drop_bit start w)"

definition raw32 :: "u64 \<Rightarrow> u32" where
  "raw32 w = ucast w"

text \<open>\<open>dyld_chained_ptr_arm64e_*\<close>: the four structs share \<open>next\<close>, \<open>bind\<close> and \<open>auth\<close>.\<close>

definition arm64e_rebase_target :: "u64 \<Rightarrow> u64" where "arm64e_rebase_target w = bits 0 43 w"
definition arm64e_rebase_high8 :: "u64 \<Rightarrow> u64" where "arm64e_rebase_high8 w = bits 43 8 w"
definition arm64e_authRebase_target :: "u64 \<Rightarrow> u64" where "arm64e_authRebase_target w = bits 0 32 w"
definition arm64e_bind_ordinal :: "u64 \<Rightarrow> u64" where "arm64e_bind_ordinal w = bits 0 16 w"
definition arm64e_bind24_ordinal :: "u64 \<Rightarrow> u64" where "arm64e_bind24_ordinal w = bits 0 24 w"
definition arm64e_bind_addend :: "u64 \<Rightarrow> u64" where "arm64e_bind_addend w = bits 32 19 w"
definition arm64e_diversity :: "u64 \<Rightarrow> u64" where "arm64e_diversity w = bits 32 16 w"
definition arm64e_addrDiv :: "u64 \<Rightarrow> bool" where "arm64e_addrDiv w = bit w 48"
definition arm64e_key :: "u64 \<Rightarrow> u64" where "arm64e_key w = bits 49 2 w"
definition arm64e_next :: "u64 \<Rightarrow> u64" where "arm64e_next w = bits 51 11 w"
definition arm64e_bind :: "u64 \<Rightarrow> bool" where "arm64e_bind w = bit w 62"
definition arm64e_auth :: "u64 \<Rightarrow> bool" where "arm64e_auth w = bit w 63"

text \<open>\<open>dyld_chained_ptr_64_rebase\<close> and \<open>dyld_chained_ptr_64_bind\<close>.\<close>

definition generic64_target :: "u64 \<Rightarrow> u64" where "generic64_target w = bits 0 36 w"
definition generic64_high8 :: "u64 \<Rightarrow> u64" where "generic64_high8 w = bits 36 8 w"
definition generic64_ordinal :: "u64 \<Rightarrow> u64" where "generic64_ordinal w = bits 0 24 w"
definition generic64_addend :: "u64 \<Rightarrow> u64" where "generic64_addend w = bits 24 8 w"
definition generic64_next :: "u64 \<Rightarrow> u64" where "generic64_next w = bits 51 12 w"
definition generic64_bind :: "u64 \<Rightarrow> bool" where "generic64_bind w = bit w 63"

text \<open>\<open>dyld_chained_ptr_64_kernel_cache_rebase\<close>.\<close>

definition kernel64_target :: "u64 \<Rightarrow> u64" where "kernel64_target w = bits 0 30 w"
definition kernel64_key :: "u64 \<Rightarrow> u64" where "kernel64_key w = bits 49 2 w"
definition kernel64_next :: "u64 \<Rightarrow> u64" where "kernel64_next w = bits 51 12 w"
definition kernel64_isAuth :: "u64 \<Rightarrow> bool" where "kernel64_isAuth w = bit w 63"

text \<open>\<open>dyld_chained_ptr_32_rebase\<close>, \<open>dyld_chained_ptr_32_bind\<close>, \<open>dyld_chained_ptr_32_firmware_rebase\<close>.\<close>

definition generic32_target :: "u32 \<Rightarrow> u32" where "generic32_target w = bits 0 26 w"
definition generic32_ordinal :: "u32 \<Rightarrow> u32" where "generic32_ordinal w = bits 0 20 w"
definition generic32_addend :: "u32 \<Rightarrow> u32" where "generic32_addend w = bits 20 6 w"
definition generic32_next :: "u32 \<Rightarrow> u32" where "generic32_next w = bits 26 5 w"
definition generic32_bind :: "u32 \<Rightarrow> bool" where "generic32_bind w = bit w 31"
definition firmware32_target :: "u32 \<Rightarrow> u32" where "firmware32_target w = bits 0 26 w"
definition firmware32_next :: "u32 \<Rightarrow> u32" where "firmware32_next w = bits 26 6 w"

lemmas generic64_fields = generic64_target_def generic64_high8_def generic64_ordinal_def
  generic64_addend_def generic64_next_def generic64_bind_def

section \<open>Decoding one pointer\<close>

definition arm64e_unpackTarget :: "u64 \<Rightarrow> u64 option" where
  "arm64e_unpackTarget w =
     (if arm64e_bind w \<or> arm64e_auth w then None
      else Some (push_bit 56 (arm64e_rebase_high8 w) OR arm64e_rebase_target w))"

definition arm64e_signExtendedAddend :: "u64 \<Rightarrow> u64 option" where
  "arm64e_signExtendedAddend w =
     (if \<not> arm64e_bind w \<or> arm64e_auth w then None
      else let addend19 = arm64e_bind_addend w
           in Some (if addend19 AND 0x40000 \<noteq> 0 then addend19 OR 0xFFFFFFFFFFFC0000 else addend19))"

definition keyNames :: "string list" where
  "keyNames = [''IA'', ''IB'', ''DA'', ''DB'']"

definition keyName :: "u8 \<Rightarrow> string option" where
  "keyName keyBits = (if keyBits < 4 then Some (keyNames ! unat keyBits) else None)"

definition arm64e_keyName :: "u64 \<Rightarrow> string option" where
  "arm64e_keyName w = (if arm64e_auth w then keyName (ucast (arm64e_key w)) else None)"

definition kernel64_keyName :: "u64 \<Rightarrow> string option" where
  "kernel64_keyName w = (if kernel64_isAuth w then keyName (ucast (kernel64_key w)) else None)"

text \<open>A host without pointer authentication can only sign the null pointer.\<close>

definition signPointer :: "u64 \<Rightarrow> nat \<Rightarrow> bool \<Rightarrow> u16 \<Rightarrow> u8 \<Rightarrow> u64 option" where
  "signPointer unsignedAddr loc addrDiv diversity key = (if unsignedAddr = 0 then Some 0 else None)"

definition arm64e_signPointer :: "u64 \<Rightarrow> nat \<Rightarrow> u64 \<Rightarrow> u64 option" where
  "arm64e_signPointer w loc target =
     (if arm64e_auth w then
        signPointer target loc (arm64e_addrDiv w) (ucast (arm64e_diversity w)) (ucast (arm64e_key w))
      else None)"

definition generic64_unpackedTarget :: "u64 \<Rightarrow> u64" where
  "generic64_unpackedTarget w = push_bit 56 (generic64_high8 w) OR generic64_target w"

definition generic64_signExtendedAddend :: "u64 \<Rightarrow> u64" where
  "generic64_signExtendedAddend w =
     (let addend27 = generic64_addend w;
          top8Bits = addend27 AND 0x7F80000;
          bottom19Bits = addend27 AND 0x7FFFF
      in push_bit 13 top8Bits OR (drop_bit 37 (push_bit 37 bottom19Bits) AND 0x00FFFFFFFFFFFFFF))"

text \<open>
  The switches of \<open>isRebase\<close> and \<open>isBind\<close>: \<open>None\<close> is the assertion at the end, \<open>Some None\<close> the
  answer false, and \<open>Some (Some r)\<close> the answer true with the reference arguments set to \<open>r\<close>.
\<close>

definition isRebase :: "u16 \<Rightarrow> u64 \<Rightarrow> u64 \<Rightarrow> u64 option option" where
  "isRebase pointerFormat preferedLoadAddress w =
     (if pointerFormat \<in> {DYLD_CHAINED_PTR_ARM64E, DYLD_CHAINED_PTR_ARM64E_USERLAND,
          DYLD_CHAINED_PTR_ARM64E_USERLAND24, DYLD_CHAINED_PTR_ARM64E_KERNEL, DYLD_CHAINED_PTR_ARM64E_FIRMWARE} then
        (if arm64e_bind w then Some None
         else if arm64e_auth w then Some (Some (arm64e_authRebase_target w))
         else Option.bind (arm64e_unpackTarget w) (\<lambda>target.
           Some (Some (if pointerFormat = DYLD_CHAINED_PTR_ARM64E \<or> pointerFormat = DYLD_CHAINED_PTR_ARM64E_FIRMWARE
                       then target - preferedLoadAddress else target))))
      else if pointerFormat \<in> {DYLD_CHAINED_PTR_64, DYLD_CHAINED_PTR_64_OFFSET} then
        (if generic64_bind w then Some None
         else Some (Some (if pointerFormat = DYLD_CHAINED_PTR_64
                          then generic64_unpackedTarget w - preferedLoadAddress else generic64_unpackedTarget w)))
      else if pointerFormat \<in> {DYLD_CHAINED_PTR_64_KERNEL_CACHE, DYLD_CHAINED_PTR_X86_64_KERNEL_CACHE} then
        Some (Some (kernel64_target w))
      else if pointerFormat = DYLD_CHAINED_PTR_32 then
        (if generic32_bind (raw32 w) then Some None
         else Some (Some (ucast (generic32_target (raw32 w)) - preferedLoadAddress)))
      else if pointerFormat = DYLD_CHAINED_PTR_32_FIRMWARE then
        Some (Some (ucast (firmware32_target (raw32 w)) - preferedLoadAddress))
      else None)"

definition isBind :: "u16 \<Rightarrow> u64 \<Rightarrow> (u32 \<times> u64) option option" where
  "isBind pointerFormat w =
     (if pointerFormat \<in> {DYLD_CHAINED_PTR_ARM64E, DYLD_CHAINED_PTR_ARM64E_USERLAND,
          DYLD_CHAINED_PTR_ARM64E_USERLAND24, DYLD_CHAINED_PTR_ARM64E_KERNEL, DYLD_CHAINED_PTR_ARM64E_FIRMWARE} then
        (if \<not> arm64e_bind w then Some None
         else let bindOrdinal = ucast (if pointerFormat = DYLD_CHAINED_PTR_ARM64E_USERLAND24
                                       then arm64e_bind24_ordinal w else arm64e_bind_ordinal w)
              in if arm64e_auth w then Some (Some (bindOrdinal, 0))
                 else map_option (\<lambda>addend. Some (bindOrdinal, addend)) (arm64e_signExtendedAddend w))
      else if pointerFormat \<in> {DYLD_CHAINED_PTR_64, DYLD_CHAINED_PTR_64_OFFSET} then
        (if \<not> generic64_bind w then Some None
         else Some (Some (ucast (generic64_ordinal w), generic64_addend w)))
      else if pointerFormat = DYLD_CHAINED_PTR_32 then
        (if \<not> generic32_bind (raw32 w) then Some None
         else Some (Some (generic32_ordinal (raw32 w), ucast (generic32_addend (raw32 w)))))
      else if pointerFormat \<in> {DYLD_CHAINED_PTR_64_KERNEL_CACHE, DYLD_CHAINED_PTR_X86_64_KERNEL_CACHE} then
        Some None
      else None)"

definition strideSize :: "u16 \<Rightarrow> nat option" where
  "strideSize pointerFormat =
     (if pointerFormat \<in> {DYLD_CHAINED_PTR_ARM64E, DYLD_CHAINED_PTR_ARM64E_USERLAND,
          DYLD_CHAINED_PTR_ARM64E_USERLAND24} then Some 8
      else if pointerFormat \<in> {DYLD_CHAINED_PTR_ARM64E_KERNEL, DYLD_CHAINED_PTR_ARM64E_FIRMWARE,
          DYLD_CHAINED_PTR_32_FIRMWARE, DYLD_CHAINED_PTR_64, DYLD_CHAINED_PTR_64_OFFSET, DYLD_CHAINED_PTR_32,
          DYLD_CHAINED_PTR_32_CACHE, DYLD_CHAINED_PTR_64_KERNEL_CACHE} then Some 4
      else if pointerFormat = DYLD_CHAINED_PTR_X86_64_KERNEL_CACHE then Some 1
      else None)"

section \<open>Walking the chains\<close>

text \<open>
  What a handler may change: the memory the chain is in, the diagnostics, and its captured
  variables.
\<close>

record 's chainState =
  chainMem :: memory
  chainDiag :: diag
  captured :: 's

type_synonym 's chain_block = "'s chainState \<Rightarrow> nat \<Rightarrow> ('s chainState \<times> bool) option"

text \<open>
  The inner loop for \<open>DYLD_CHAINED_PTR_32\<close>, which passes over values that are no pointers. It
  looks at \<open>next\<close> without comparing it with zero.
\<close>

partial_function (option) skipNonPointers :: "memory \<Rightarrow> nat \<Rightarrow> u32 \<Rightarrow> nat \<Rightarrow> nat option" where
  "skipNonPointers m lim max_valid_pointer chain =
     (if lim < chain + 4 then None
      else if \<not> generic32_bind (read32 m chain) \<and> max_valid_pointer < generic32_target (read32 m chain) then
        skipNonPointers m lim max_valid_pointer (chain + unat (generic32_next (read32 m chain)) * 4)
      else Some chain)"

lemma skipNonPointers_ge:
  assumes "skipNonPointers m lim maxp p = Some q"
  shows "p \<le> q \<and> q + 4 \<le> lim"
  by (rule skipNonPointers.raw_induct [where P = "\<lambda>m lim maxp p q. p \<le> q \<and> q + 4 \<le> lim", OF _ assms])
    (fastforce split: if_splits)

text \<open>A value that is no pointer and ends its chain keeps the loop where it is, for ever.\<close>

lemma skipNonPointers_hangs:
  assumes "\<not> generic32_bind (read32 m p)" and "maxp < generic32_target (read32 m p)" and "generic32_next (read32 m p) = 0"
  shows "skipNonPointers m lim maxp p = None"
proof (rule ccontr)
  assume "skipNonPointers m lim maxp p \<noteq> None"
  then obtain q where "skipNonPointers m lim maxp p = Some q" by blast
  then have "\<not> generic32_bind (read32 m p) \<and> maxp < generic32_target (read32 m p) \<and> generic32_next (read32 m p) = 0 \<longrightarrow> False"
    by (rule skipNonPointers.raw_induct [where P = "\<lambda>m lim maxp p q. \<not> generic32_bind (read32 m p) \<and>
        maxp < generic32_target (read32 m p) \<and> generic32_next (read32 m p) = 0 \<longrightarrow> False", rotated])
      (fastforce split: if_splits)
  with assms show False by simp
qed

datatype chainStep = ChainEnd | ChainAt nat | ChainUnknownFormat

definition chainStepBy :: "nat \<Rightarrow> nat \<Rightarrow> chainStep" where
  "chainStepBy chain distance = (if distance = 0 then ChainEnd else ChainAt (chain + distance))"

text \<open>
  The switch of \<open>walkChain\<close>: where the chain goes on, from the content copied before the handler
  ran. Only the inner loop for 32-bit chains reads the memory \<open>m\<close> the handler has left.
\<close>

definition chainNext :: "nat \<Rightarrow> u16 \<Rightarrow> nat \<Rightarrow> bool \<Rightarrow> u32 \<Rightarrow> memory \<Rightarrow> nat \<Rightarrow> u64 \<Rightarrow> chainStep option" where
  "chainNext lim pointer_format stride notifyNonPointers max_valid_pointer m chain chainContent =
     (if pointer_format \<in> {DYLD_CHAINED_PTR_ARM64E, DYLD_CHAINED_PTR_ARM64E_KERNEL, DYLD_CHAINED_PTR_ARM64E_USERLAND,
          DYLD_CHAINED_PTR_ARM64E_USERLAND24, DYLD_CHAINED_PTR_ARM64E_FIRMWARE} then
        Some (chainStepBy chain (unat (arm64e_next chainContent) * stride))
      else if pointer_format \<in> {DYLD_CHAINED_PTR_64, DYLD_CHAINED_PTR_64_OFFSET} then
        Some (chainStepBy chain (unat (generic64_next chainContent) * 4))
      else if pointer_format = DYLD_CHAINED_PTR_32 then
        (if generic32_next (raw32 chainContent) = 0 then Some ChainEnd
         else let chain' = chain + unat (generic32_next (raw32 chainContent)) * 4
              in if notifyNonPointers then Some (ChainAt chain')
                 else map_option ChainAt (skipNonPointers m lim max_valid_pointer chain'))
      else if pointer_format \<in> {DYLD_CHAINED_PTR_64_KERNEL_CACHE, DYLD_CHAINED_PTR_X86_64_KERNEL_CACHE} then
        Some (chainStepBy chain (unat (kernel64_next chainContent) * stride))
      else if pointer_format = DYLD_CHAINED_PTR_32_FIRMWARE then
        Some (chainStepBy chain (unat (firmware32_next (raw32 chainContent)) * 4))
      else Some ChainUnknownFormat)"

lemma chainNext_forward:
  assumes "chainNext lim fmt stride notify maxp m p w = Some (ChainAt q)"
  shows "p < q"
proof -
  have "p < q'" if "skipNonPointers m lim maxp (p + unat n * 4) = Some q'" and "n \<noteq> 0" for n :: u32 and q'
    using skipNonPointers_ge [OF that(1)] that(2) unat_gt_0 [of n] by linarith
  with assms show ?thesis
    by (auto simp: chainNext_def chainStepBy_def Let_def unat_gt_0 split: if_splits)
qed

function walkChain :: "nat \<Rightarrow> u16 \<Rightarrow> bool \<Rightarrow> u32 \<Rightarrow> 's chain_block \<Rightarrow> 's chainState \<Rightarrow> nat \<Rightarrow> ('s chainState \<times> bool) option" where
  "walkChain lim pointer_format notifyNonPointers max_valid_pointer handler s chain =
     (case strideSize pointer_format of None \<Rightarrow> None
      | Some stride \<Rightarrow>
          if lim < chain + 8 then None
          else let chainContent = read64 (chainMem s) chain
               in case handler s chain of None \<Rightarrow> None
                  | Some (s', stop) \<Rightarrow>
                      if stop then Some (s', True)
                      else case chainNext lim pointer_format stride notifyNonPointers max_valid_pointer
                                  (chainMem s') chain chainContent of
                             None \<Rightarrow> None
                           | Some ChainEnd \<Rightarrow> Some (s', False)
                           | Some ChainUnknownFormat \<Rightarrow>
                               Some (s'\<lparr>chainDiag := error ''unknown pointer format 0x%04X'' (chainDiag s')\<rparr>, True)
                           | Some (ChainAt chain') \<Rightarrow>
                               walkChain lim pointer_format notifyNonPointers max_valid_pointer handler s' chain')"
  by pat_completeness auto
termination
  by (relation "measure (\<lambda>(lim, fmt, notify, maxp, h, s, p). lim - p)") (auto dest: chainNext_forward)

declare walkChain.simps [simp del]

text \<open>The fields of \<open>dyld_chained_starts_in_image\<close> and \<open>dyld_chained_starts_in_segment\<close>.\<close>

definition seg_count :: "memory \<Rightarrow> nat \<Rightarrow> u32" where "seg_count m starts = read32 m starts"
definition seg_info_offset :: "memory \<Rightarrow> nat \<Rightarrow> nat \<Rightarrow> u32" where "seg_info_offset m starts i = read32 m (starts + 4 + 4 * i)"
definition starts_size :: "memory \<Rightarrow> nat \<Rightarrow> u32" where "starts_size m seg = read32 m seg"
definition page_size :: "memory \<Rightarrow> nat \<Rightarrow> u16" where "page_size m seg = read16 m (seg + 4)"
definition pointer_format :: "memory \<Rightarrow> nat \<Rightarrow> u16" where "pointer_format m seg = read16 m (seg + 6)"
definition segment_offset :: "memory \<Rightarrow> nat \<Rightarrow> u64" where "segment_offset m seg = read64 m (seg + 8)"
definition max_valid_pointer :: "memory \<Rightarrow> nat \<Rightarrow> u32" where "max_valid_pointer m seg = read32 m (seg + 16)"
definition page_count :: "memory \<Rightarrow> nat \<Rightarrow> u16" where "page_count m seg = read16 m (seg + 20)"
definition page_start :: "memory \<Rightarrow> nat \<Rightarrow> nat \<Rightarrow> u16" where "page_start m seg i = read16 m (seg + 22 + 2 * i)"

text \<open>\<open>pageContentStart + offsetInPage\<close>, as the distance from the mach header.\<close>

definition chainPointer :: "memory \<Rightarrow> nat \<Rightarrow> nat \<Rightarrow> u16 \<Rightarrow> nat" where
  "chainPointer m seg pageIndex offsetInPage =
     unat (segment_offset m seg + of_nat pageIndex * ucast (page_size m seg) + ucast offsetInPage)"

text \<open>
  The loops \<open>for (uint32_t i=0; i < bound && !stopped; ++i)\<close> over the starts tables, whose bound is
  read from the image again before every iteration.
\<close>

function for_below :: "('s \<Rightarrow> u32) \<Rightarrow> ('s \<Rightarrow> nat \<Rightarrow> ('s \<times> bool) option) \<Rightarrow> 's \<Rightarrow> nat \<Rightarrow> ('s \<times> bool) option" where
  "for_below bound body s i =
     (if i < unat (bound s) then
        (case body s i of
           None \<Rightarrow> None
         | Some (s', stop) \<Rightarrow> if stop then Some (s', True) else for_below bound body s' (Suc i))
      else Some (s, False))"
  by pat_completeness auto
termination
proof (relation "measure (\<lambda>(bound, body, s, i). 2 ^ 32 - i)")
  fix bound :: "'s \<Rightarrow> u32" and s i
  assume "i < unat (bound s)"
  then have "i < 2 ^ 32" using unat_u32_less [of "bound s"] by simp
  then show "((bound, body, s', Suc i), (bound, body, s, i)) \<in> measure (\<lambda>(bound, body, s, i). 2 ^ 32 - i)" for body and s' :: 's
    by simp
qed simp

declare for_below.simps [simp del]

definition forEachFixupChainSegment ::
    "nat \<Rightarrow> ('s chainState \<Rightarrow> nat \<Rightarrow> nat \<Rightarrow> ('s chainState \<times> bool) option) \<Rightarrow> 's chainState \<Rightarrow> 's chainState option" where
  "forEachFixupChainSegment starts handler s =
     map_option fst (for_below (\<lambda>s. seg_count (chainMem s) starts) (\<lambda>s segIndex.
         if seg_info_offset (chainMem s) starts segIndex = 0 then Some (s, False)
         else handler s (starts + unat (seg_info_offset (chainMem s) starts segIndex)) segIndex) s 0)"

text \<open>
  The chains of one page with several starts. The table's entries are read until one has the last
  bit; \<open>overflowIndex\<close> is 32 bits wide in the source, and the table would have to fill eight
  gigabytes for it to wrap.
\<close>

function overflowChains ::
    "nat \<Rightarrow> nat \<Rightarrow> bool \<Rightarrow> 's chain_block \<Rightarrow> nat \<Rightarrow> 's chainState \<Rightarrow> nat \<Rightarrow> ('s chainState \<times> bool) option" where
  "overflowChains lim seg notifyNonPointers adaptor pageIndex s overflowIndex =
     (if lim < seg + 22 + 2 * overflowIndex + 2 then None
      else let start = page_start (chainMem s) seg overflowIndex;
               chainEnd = start AND DYLD_CHAINED_PTR_START_LAST \<noteq> 0;
               offsetInPage = start AND NOT DYLD_CHAINED_PTR_START_LAST
           in case walkChain lim (pointer_format (chainMem s) seg) notifyNonPointers (max_valid_pointer (chainMem s) seg)
                     adaptor s (chainPointer (chainMem s) seg pageIndex offsetInPage) of
                None \<Rightarrow> None
              | Some (s', stopped) \<Rightarrow>
                  if stopped \<or> chainEnd then Some (s', stopped)
                  else overflowChains lim seg notifyNonPointers adaptor pageIndex s' (Suc overflowIndex))"
  by pat_completeness auto
termination
  by (relation "measure (\<lambda>(lim, seg, notify, h, page, s, i). lim - 2 * i)") auto

declare overflowChains.simps [simp del]

definition pageChains ::
    "nat \<Rightarrow> nat \<Rightarrow> bool \<Rightarrow> 's chain_block \<Rightarrow> 's chainState \<Rightarrow> nat \<Rightarrow> ('s chainState \<times> bool) option" where
  "pageChains lim seg notifyNonPointers adaptor s pageIndex =
     (let offsetInPage = page_start (chainMem s) seg pageIndex in
      if offsetInPage = DYLD_CHAINED_PTR_START_NONE then Some (s, False)
      else if offsetInPage AND DYLD_CHAINED_PTR_START_MULTI \<noteq> 0 then
        overflowChains lim seg notifyNonPointers adaptor pageIndex s
          (unat (offsetInPage AND NOT DYLD_CHAINED_PTR_START_MULTI))
      else
        walkChain lim (pointer_format (chainMem s) seg) notifyNonPointers (max_valid_pointer (chainMem s) seg)
          adaptor s (chainPointer (chainMem s) seg pageIndex offsetInPage))"

text \<open>
  The handler of the segment walk is also given \<open>segInfo\<close>. The walk returns nothing: whether it
  was stopped is lost.
\<close>

type_synonym 's segment_chain_block = "'s chainState \<Rightarrow> nat \<Rightarrow> nat \<Rightarrow> ('s chainState \<times> bool) option"

definition forEachFixupInSegmentChains ::
    "nat \<Rightarrow> bool \<Rightarrow> 's segment_chain_block \<Rightarrow> 's chainState \<Rightarrow> nat \<Rightarrow> 's chainState option" where
  "forEachFixupInSegmentChains lim notifyNonPointers handler s seg =
     map_option fst (for_below (\<lambda>s. ucast (page_count (chainMem s) seg))
       (pageChains lim seg notifyNonPointers (\<lambda>s loc. handler s loc seg)) s 0)"

text \<open>\<open>stopped\<close> stays false throughout this loop.\<close>

definition forEachFixupInAllChains ::
    "nat \<Rightarrow> nat \<Rightarrow> bool \<Rightarrow> 's segment_chain_block \<Rightarrow> 's chainState \<Rightarrow> 's chainState option" where
  "forEachFixupInAllChains lim starts notifyNonPointers handler s =
     map_option fst (for_below (\<lambda>s. seg_count (chainMem s) starts) (\<lambda>s segIndex.
         if seg_info_offset (chainMem s) starts segIndex = 0 then Some (s, False)
         else map_option (\<lambda>s'. (s', False)) (forEachFixupInSegmentChains lim notifyNonPointers handler s
                (starts + unat (seg_info_offset (chainMem s) starts segIndex)))) s 0)"

text \<open>The overload for preload images, whose chain starts are an array of offsets.\<close>

definition forEachFixupInChainStarts ::
    "nat \<Rightarrow> u16 \<Rightarrow> u32 list \<Rightarrow> 's chain_block \<Rightarrow> 's chainState \<Rightarrow> 's chainState option" where
  "forEachFixupInChainStarts lim format chain_starts handler s =
     map_option fst (forStop (\<lambda>s start. walkChain lim format False 0 handler s (unat start)) s chain_starts)"

section \<open>Applying the fixups\<close>

definition write64 :: "memory \<Rightarrow> nat \<Rightarrow> u64 \<Rightarrow> memory" where
  "write64 m p v = (\<lambda>i. if p \<le> i \<and> i < p + 8 then ucast (drop_bit (8 * (i - p)) v) else m i)"

text \<open>
  The block of \<open>fixupAllChainedFixups\<close> on a 64-bit host without pointer authentication.
  \<open>loadAddress\<close> is \<open>(uintptr_t)this\<close>, \<open>bindTargets\<close> the resolved addresses, and \<open>logFixup\<close> what
  the log block does to its captured variables (the identity when there is none).
\<close>

definition fixupBlock ::
    "u64 \<Rightarrow> u64 \<Rightarrow> u64 list \<Rightarrow> (nat \<Rightarrow> u64 \<Rightarrow> 's \<Rightarrow> 's) \<Rightarrow> 's segment_chain_block" where
  "fixupBlock loadAddress slide bindTargets logFixup s fixupLoc seg =
     (let w = read64 (chainMem s) fixupLoc; format = pointer_format (chainMem s) seg;
          store = (\<lambda>newValue. Some (s\<lparr>captured := logFixup fixupLoc newValue (captured s),
                                       chainMem := write64 (chainMem s) fixupLoc newValue\<rparr>, False))
      in if format \<in> {DYLD_CHAINED_PTR_64, DYLD_CHAINED_PTR_64_OFFSET} then
           (if generic64_bind w then
              (if length bindTargets \<le> unat (generic64_ordinal w) then
                 Some (s\<lparr>chainDiag := error ''out of range bind ordinal %d (max %lu)'' (chainDiag s)\<rparr>, True)
               else store (bindTargets ! unat (generic64_ordinal w) + generic64_signExtendedAddend w))
            else if format = DYLD_CHAINED_PTR_64 then store (generic64_unpackedTarget w + slide)
            else store (loadAddress + generic64_unpackedTarget w))
         else Some (s\<lparr>chainDiag := error ''unsupported pointer chain format: 0x%04X'' (chainDiag s)\<rparr>, True))"

definition fixupAllChainedFixups ::
    "nat \<Rightarrow> u64 \<Rightarrow> nat \<Rightarrow> u64 \<Rightarrow> u64 list \<Rightarrow> (nat \<Rightarrow> u64 \<Rightarrow> 's \<Rightarrow> 's) \<Rightarrow> 's chainState \<Rightarrow> 's chainState option" where
  "fixupAllChainedFixups lim loadAddress starts slide bindTargets logFixup s =
     forEachFixupInAllChains lim starts True (fixupBlock loadAddress slide bindTargets logFixup) s"

section \<open>Stores\<close>

lemma le_nat_word_bytes:
  assumes "\<forall>i < n. m (p + i) = ucast (drop_bit (8 * i) (v::u64))"
  shows "le_nat m p n = unat v mod 256 ^ n"
  using assms
proof (induction n arbitrary: p v)
  case 0
  then show ?case by simp
next
  case (Suc n)
  have here: "m p = ucast v" using Suc.prems by (auto dest: spec [of _ 0])
  have "\<forall>i < n. m (Suc p + i) = ucast (drop_bit (8 * i) (drop_bit 8 v))"
    using Suc.prems by (auto simp: drop_bit_drop_bit add.commute dest: spec [of _ "Suc _"])
  from Suc.IH [OF this] have "le_nat m (Suc p) n = unat v div 256 mod 256 ^ n"
    by (simp add: drop_bit_eq_div unat_div)
  moreover have "unat (m p) = unat v mod 256"
    using here by (simp add: unsigned_ucast_eq take_bit_eq_mod)
  ultimately show ?case using mod_mult2_eq [of "unat v" 256 "256 ^ n"] by simp
qed

lemma read64_write64 [simp]: "read64 (write64 m p v) p = v"
proof -
  have "le_nat (write64 m p v) p 8 = unat v mod 256 ^ 8"
    by (rule le_nat_word_bytes) (simp add: write64_def)
  then show ?thesis using unat_u64_less [of v] by (simp add: read64_def)
qed

lemma agree_write64: "hi \<le> p \<or> p + 8 \<le> lo \<Longrightarrow> agree lo hi (write64 m p v) m"
  by (auto simp: agree_def write64_def)

lemma agree_trans: "agree lo hi a b \<Longrightarrow> agree lo hi b c \<Longrightarrow> agree lo hi a c"
  by (simp add: agree_def)

text \<open>The stores of a list of locations and values, in order.\<close>

definition storeAll :: "(nat \<times> u64) list \<Rightarrow> memory \<Rightarrow> memory" where
  "storeAll fs m = foldl (\<lambda>m (p, v). write64 m p v) m fs"

lemma storeAll_simps [simp]:
  "storeAll [] m = m"
  "storeAll (fs @ [(p, v)]) m = write64 (storeAll fs m) p v"
  by (simp_all add: storeAll_def)

lemma agree_storeAll:
  assumes "\<forall>(p, v)\<in>set fs. hi \<le> p \<or> p + 8 \<le> lo"
  shows "agree lo hi (storeAll fs m) m"
  using assms
proof (induction fs rule: rev_induct)
  case (snoc f fs)
  obtain p v where f: "f = (p, v)" by (cases f)
  have "agree lo hi (write64 (storeAll fs m) p v) (storeAll fs m)"
    using snoc.prems f by (intro agree_write64) auto
  with snoc f show ?case by (auto intro: agree_trans)
qed simp

lemma storeAll_elsewhere:
  "\<forall>(p, v)\<in>set fs. \<not> (p \<le> i \<and> i < p + 8) \<Longrightarrow> storeAll fs m i = m i"
  using agreeD [OF agree_storeAll [of fs "Suc i" i m], of i] by fastforce

text \<open>Locations whose eight bytes do not overlap.\<close>

definition apart :: "nat \<Rightarrow> nat \<Rightarrow> bool" where
  "apart p q \<longleftrightarrow> p + 8 \<le> q \<or> q + 8 \<le> p"

lemma storeAll_stored:
  assumes "sorted_wrt (\<lambda>f g. apart (fst f) (fst g)) fs" and "(p, v) \<in> set fs"
  shows "read64 (storeAll fs m) p = v"
  using assms
proof (induction fs rule: rev_induct)
  case (snoc f fs)
  obtain q u where f: "f = (q, u)" by (cases f)
  show ?case
  proof (cases "(p, v) = f")
    case True
    then show ?thesis using f by simp
  next
    case False
    with snoc.prems f have "(p, v) \<in> set fs" and "apart p q" by (auto simp: sorted_wrt_append)
    then have "read64 (storeAll (fs @ [f]) m) p = read64 (storeAll fs m) p"
      using f by (auto simp: apart_def intro!: read64_agree agree_write64)
    with snoc \<open>(p, v) \<in> set fs\<close> show ?thesis by (simp add: sorted_wrt_append)
  qed
qed simp

section \<open>Fixing up in place\<close>

text \<open>
  A fixup as a walk meets it: its location, the format of its segment and its content. The
  collecting block only records them.
\<close>

type_synonym fixup = "nat \<times> u16 \<times> u64"

definition collectBlock :: "fixup list segment_chain_block" where
  "collectBlock s loc seg =
     Some (s\<lparr>captured := captured s @ [(loc, pointer_format (chainMem s) seg, read64 (chainMem s) loc)]\<rparr>, False)"

definition collectFixups :: "nat \<Rightarrow> nat \<Rightarrow> memory \<Rightarrow> fixup list option" where
  "collectFixups lim starts m =
     map_option captured (forEachFixupInAllChains lim starts True collectBlock
       \<lparr>chainMem = m, chainDiag = None, captured = []\<rparr>)"

text \<open>
  The starts tables lie in \<open>lo ..< hi\<close>: the array of segment offsets, each segment's array of page
  starts, and each list of overflow starts up to its last entry.
\<close>

definition segmentStartsIn :: "memory \<Rightarrow> nat \<Rightarrow> nat \<Rightarrow> bool" where
  "segmentStartsIn m hi seg \<longleftrightarrow>
     seg + 22 + 2 * unat (page_count m seg) \<le> hi \<and>
     (\<forall>i < unat (page_count m seg). let start = page_start m seg i in
        start \<noteq> DYLD_CHAINED_PTR_START_NONE \<and> start AND DYLD_CHAINED_PTR_START_MULTI \<noteq> 0 \<longrightarrow>
        (\<exists>k < hi. unat (start AND NOT DYLD_CHAINED_PTR_START_MULTI) \<le> k \<and> seg + 24 + 2 * k \<le> hi \<and>
           page_start m seg k AND DYLD_CHAINED_PTR_START_LAST \<noteq> 0))"

definition startsIn :: "memory \<Rightarrow> nat \<Rightarrow> nat \<Rightarrow> nat \<Rightarrow> bool" where
  "startsIn m lo hi starts \<longleftrightarrow>
     lo \<le> starts \<and> starts + 4 + 4 * unat (seg_count m starts) \<le> hi \<and>
     (\<forall>i < unat (seg_count m starts). seg_info_offset m starts i \<noteq> 0 \<longrightarrow>
        segmentStartsIn m hi (starts + unat (seg_info_offset m starts i)))"

text \<open>
  A step \<open>f\<close> that collects fixups from the untouched memory is refined by a step \<open>g\<close> that works in
  place: whenever the fixups met so far are good, \<open>g\<close> is in the state after them.
\<close>

definition refinesStep ::
    "memory \<Rightarrow> (fixup list \<Rightarrow> bool) \<Rightarrow> (fixup list \<Rightarrow> 's chainState) \<Rightarrow>
     (fixup list chainState \<Rightarrow> (fixup list chainState \<times> bool) option) \<Rightarrow>
     ('s chainState \<Rightarrow> ('s chainState \<times> bool) option) \<Rightarrow> bool" where
  "refinesStep m good after f g \<longleftrightarrow>
     (\<forall>xs d s b. f \<lparr>chainMem = m, chainDiag = d, captured = xs\<rparr> = Some (s, b) \<longrightarrow>
        (\<exists>ys. chainMem s = m \<and> captured s = xs @ ys \<and>
           (good (xs @ ys) \<longrightarrow> g (after xs) = Some (after (xs @ ys), b))))"

lemma refinesStepI:
  assumes "\<And>xs d s b. f \<lparr>chainMem = m, chainDiag = d, captured = xs\<rparr> = Some (s, b) \<Longrightarrow>
    \<exists>ys. chainMem s = m \<and> captured s = xs @ ys \<and> (good (xs @ ys) \<longrightarrow> g (after xs) = Some (after (xs @ ys), b))"
  shows "refinesStep m good after f g"
  using assms by (simp add: refinesStep_def)

lemma refinesStepE:
  assumes "refinesStep m good after f g" and "f \<lparr>chainMem = m, chainDiag = d, captured = xs\<rparr> = Some (s, b)"
  obtains ys d' where "s = \<lparr>chainMem = m, chainDiag = d', captured = xs @ ys\<rparr>"
    and "good (xs @ ys) \<longrightarrow> g (after xs) = Some (after (xs @ ys), b)"
proof -
  from assms obtain ys where "chainMem s = m" and "captured s = xs @ ys"
    and step: "good (xs @ ys) \<longrightarrow> g (after xs) = Some (after (xs @ ys), b)"
    unfolding refinesStep_def by blast
  then have "s = \<lparr>chainMem = m, chainDiag = chainDiag s, captured = xs @ ys\<rparr>" by simp
  then show ?thesis using step by (rule that)
qed

lemma forStop_Cons_case:
  "forStop f s (x # xs) =
     (case f s x of None \<Rightarrow> None | Some (s', stop) \<Rightarrow> if stop \<or> False then Some (s', stop) else forStop f s' xs)"
  by (auto split: option.splits)

text \<open>
  What a block that works in place has to promise: the fixups already made leave the starts tables
  and the locations still to come as they were.
\<close>

locale in_place =
  fixes m :: memory and lo hi :: nat
    and good :: "fixup list \<Rightarrow> bool"
    and after :: "fixup list \<Rightarrow> 's chainState"
    and block :: "'s segment_chain_block"
  assumes good_prefix: "good (xs @ ys) \<Longrightarrow> good xs"
    and good_format: "good (xs @ [(p, fmt, w)]) \<Longrightarrow> fmt \<in> {DYLD_CHAINED_PTR_64, DYLD_CHAINED_PTR_64_OFFSET}"
    and after_table: "good xs \<Longrightarrow> agree lo hi (chainMem (after xs)) m"
    and after_content: "good (xs @ [(p, fmt, w)]) \<Longrightarrow> read64 (chainMem (after xs)) p = read64 m p"
    and block_step: "good (xs @ [(p, fmt, w)]) \<Longrightarrow> read64 (chainMem (after xs)) p = w \<Longrightarrow>
      pointer_format (chainMem (after xs)) seg = fmt \<Longrightarrow> block (after xs) p seg = Some (after (xs @ [(p, fmt, w)]), False)"
begin

lemma refines_then:
  assumes "refinesStep m good after f g" and "\<not> c \<Longrightarrow> refinesStep m good after f' g'"
  shows "refinesStep m good after
    (\<lambda>s. case f s of None \<Rightarrow> None | Some (s', stop) \<Rightarrow> if stop \<or> c then Some (s', stop) else f' s')
    (\<lambda>s. case g s of None \<Rightarrow> None | Some (s', stop) \<Rightarrow> if stop \<or> c then Some (s', stop) else g' s')"
    (is "refinesStep m good after ?F ?G")
proof (rule refinesStepI)
  fix xs d s b
  assume run: "?F \<lparr>chainMem = m, chainDiag = d, captured = xs\<rparr> = Some (s, b)"
  then obtain s' stop where "f \<lparr>chainMem = m, chainDiag = d, captured = xs\<rparr> = Some (s', stop)"
    by (auto split: option.splits)
  moreover from assms(1) this obtain ys d' where s': "s' = \<lparr>chainMem = m, chainDiag = d', captured = xs @ ys\<rparr>"
    and first: "good (xs @ ys) \<longrightarrow> g (after xs) = Some (after (xs @ ys), stop)"
    by (rule refinesStepE) (rule that)
  ultimately have rest: "if stop \<or> c then s = s' \<and> b = stop else f' s' = Some (s, b)"
    using run by (auto split: if_splits)
  show "\<exists>ys. chainMem s = m \<and> captured s = xs @ ys \<and> (good (xs @ ys) \<longrightarrow> ?G (after xs) = Some (after (xs @ ys), b))"
  proof (cases "stop \<or> c")
    case True
    with rest first s' show ?thesis by auto
  next
    case False
    with assms(2) rest s' obtain zs d'' where s: "s = \<lparr>chainMem = m, chainDiag = d'', captured = (xs @ ys) @ zs\<rparr>"
      and second: "good ((xs @ ys) @ zs) \<longrightarrow> g' (after (xs @ ys)) = Some (after ((xs @ ys) @ zs), b)"
      by (auto elim: refinesStepE)
    have "good (xs @ (ys @ zs)) \<longrightarrow> ?G (after xs) = Some (after (xs @ (ys @ zs)), b)"
      using first second False good_prefix [of "xs @ ys" zs] by simp
    with s show ?thesis by auto
  qed
qed

lemma refines_forStop:
  assumes "\<And>x. x \<in> set is \<Longrightarrow> refinesStep m good after (\<lambda>s. f s x) (\<lambda>s. g s x)"
  shows "refinesStep m good after (\<lambda>s. forStop f s is) (\<lambda>s. forStop g s is)"
  using assms
proof (induction "is")
  case Nil
  then show ?case by (auto simp: refinesStep_def)
next
  case (Cons x "is")
  then show ?case unfolding forStop_Cons_case by (intro refines_then) auto
qed

text \<open>A step may read the starts tables from the memory it works on.\<close>

lemma refines_table:
  assumes "refinesStep m good after f g"
    and "\<And>xs d. f' \<lparr>chainMem = m, chainDiag = d, captured = xs\<rparr> = f \<lparr>chainMem = m, chainDiag = d, captured = xs\<rparr>"
    and "\<And>xs. agree lo hi (chainMem (after xs)) m \<Longrightarrow> g' (after xs) = g (after xs)"
  shows "refinesStep m good after f' g'"
proof (rule refinesStepI)
  fix xs d s b
  assume "f' \<lparr>chainMem = m, chainDiag = d, captured = xs\<rparr> = Some (s, b)"
  then obtain ys d' where s: "s = \<lparr>chainMem = m, chainDiag = d', captured = xs @ ys\<rparr>"
    and step: "good (xs @ ys) \<longrightarrow> g (after xs) = Some (after (xs @ ys), b)"
    unfolding assms(2) by (rule refinesStepE [OF assms(1)]) (rule that)
  have "good (xs @ ys) \<Longrightarrow> g' (after xs) = g (after xs)"
    using assms(3) after_table good_prefix by blast
  with s step show "\<exists>ys. chainMem s = m \<and> captured s = xs @ ys \<and>
      (good (xs @ ys) \<longrightarrow> g' (after xs) = Some (after (xs @ ys), b))" by auto
qed

end

text \<open>A 64-bit chain goes on where the copied content says, whatever the handler did to memory.\<close>

lemma chainNext_64:
  assumes "fmt \<in> {DYLD_CHAINED_PTR_64, DYLD_CHAINED_PTR_64_OFFSET}"
  shows "chainNext lim fmt stride n maxp m p w = Some (chainStepBy p (unat (generic64_next w) * 4))"
  using assms by (auto simp: chainNext_def pointer_formats)

lemma strideSize_64:
  assumes "fmt \<in> {DYLD_CHAINED_PTR_64, DYLD_CHAINED_PTR_64_OFFSET}"
  shows "strideSize fmt = Some 4"
  using assms by (auto simp: strideSize_def pointer_formats)

context in_place
begin

lemma block_at:
  assumes "good (xs @ [(p, pointer_format m seg, read64 m p)])" and "lo \<le> seg" and "seg + 8 \<le> hi"
  shows "block (after xs) p seg = Some (after (xs @ [(p, pointer_format m seg, read64 m p)]), False)"
proof (rule block_step [OF assms(1) after_content [OF assms(1)]])
  have "agree (seg + 6) (seg + 6 + 2) (chainMem (after xs)) m"
    using after_table [OF good_prefix [OF assms(1)]] by (rule agree_mono) (use assms in auto)
  then show "pointer_format (chainMem (after xs)) seg = pointer_format m seg"
    unfolding pointer_format_def by (rule read16_agree)
qed

lemma walk_at:
  assumes good: "good (xs @ [(p, pointer_format m seg, read64 m p)])" and "lo \<le> seg" and "seg + 8 \<le> hi" and "p + 8 \<le> lim"
  shows "walkChain lim (pointer_format m seg) n maxp (\<lambda>s loc. block s loc seg) (after xs) p =
    (let s' = after (xs @ [(p, pointer_format m seg, read64 m p)]); distance = unat (generic64_next (read64 m p)) * 4
     in if distance = 0 then Some (s', False)
        else walkChain lim (pointer_format m seg) n maxp (\<lambda>s loc. block s loc seg) s' (p + distance))"
  using assms after_content [OF good]
  by (subst walkChain.simps)
    (simp add: block_at chainNext_64 [OF good_format [OF good]] strideSize_64 [OF good_format [OF good]] chainStepBy_def Let_def)

lemma refines_walk:
  assumes seg: "lo \<le> seg" "seg + 8 \<le> hi"
  shows "refinesStep m good after
    (\<lambda>s. walkChain lim (pointer_format m seg) n maxp (\<lambda>s loc. collectBlock s loc seg) s p)
    (\<lambda>s. walkChain lim (pointer_format m seg) n maxp (\<lambda>s loc. block s loc seg) s p)"
proof (induction "lim - p" arbitrary: p rule: less_induct)
  case less
  show ?case
  proof (rule refinesStepI)
    fix xs d s b
    let ?x = "(p, pointer_format m seg, read64 m p)"
    let ?s = "\<lparr>chainMem = m, chainDiag = d, captured = xs @ [?x]\<rparr>"
    let ?walk = "walkChain lim (pointer_format m seg) n maxp (\<lambda>s loc. block s loc seg)"
    assume run: "walkChain lim (pointer_format m seg) n maxp (\<lambda>s loc. collectBlock s loc seg)
      \<lparr>chainMem = m, chainDiag = d, captured = xs\<rparr> p = Some (s, b)"
    then obtain stride where lim: "p + 8 \<le> lim" and stride: "strideSize (pointer_format m seg) = Some stride"
      by (subst (asm) walkChain.simps) (auto split: option.splits if_splits)
    obtain c where c: "chainNext lim (pointer_format m seg) stride n maxp m p (read64 m p) = Some c"
      using run by (subst (asm) walkChain.simps) (auto simp: collectBlock_def stride Let_def split: option.splits if_splits)
    have go: "case c of ChainEnd \<Rightarrow> s = ?s \<and> \<not> b | ChainUnknownFormat \<Rightarrow> chainMem s = m \<and> captured s = xs @ [?x] \<and> b
      | ChainAt q \<Rightarrow> walkChain lim (pointer_format m seg) n maxp (\<lambda>s loc. collectBlock s loc seg) ?s q = Some (s, b)"
      using run lim by (subst (asm) walkChain.simps) (auto simp: collectBlock_def stride c Let_def split: chainStep.splits)
    have step: "c = chainStepBy p (unat (generic64_next (read64 m p)) * 4)" if "good (xs @ [?x])"
      using c chainNext_64 [OF good_format [OF that]] by simp
    show "\<exists>ys. chainMem s = m \<and> captured s = xs @ ys \<and> (good (xs @ ys) \<longrightarrow> ?walk (after xs) p = Some (after (xs @ ys), b))"
    proof (cases c)
      case (ChainAt q)
      then have "lim - q < lim - p" using chainNext_forward c lim by fastforce
      from go ChainAt obtain ys d' where s: "s = \<lparr>chainMem = m, chainDiag = d', captured = (xs @ [?x]) @ ys\<rparr>"
        and rest: "good ((xs @ [?x]) @ ys) \<longrightarrow> ?walk (after (xs @ [?x])) q = Some (after ((xs @ [?x]) @ ys), b)"
        by (auto elim: refinesStepE [OF less [OF \<open>lim - q < lim - p\<close>]])
      have "?walk (after xs) p = Some (after (xs @ ?x # ys), b)" if "good (xs @ ?x # ys)"
      proof -
        have first: "good (xs @ [?x])" using good_prefix [of "xs @ [?x]" ys] that by simp
        with walk_at [OF first seg lim] rest that step ChainAt show ?thesis
          by (auto simp: chainStepBy_def split: if_splits)
      qed
      with s show ?thesis by (intro exI [of _ "?x # ys"]) simp
    qed (use go step walk_at [OF _ seg lim] in \<open>auto simp: chainStepBy_def split: if_splits\<close>)
  qed
qed

end

text \<open>What the walks read from the starts tables does not depend on memory outside them.\<close>

lemma segment_table_agree:
  assumes "agree lo hi m' m" and "lo \<le> seg" and "seg + 22 \<le> hi"
  shows "page_size m' seg = page_size m seg" and "pointer_format m' seg = pointer_format m seg"
    and "segment_offset m' seg = segment_offset m seg" and "max_valid_pointer m' seg = max_valid_pointer m seg"
    and "page_count m' seg = page_count m seg" and "chainPointer m' seg = chainPointer m seg"
proof -
  have part: "agree a b m' m" if "lo \<le> a" and "b \<le> hi" for a b
    using assms(1) that by (rule agree_mono)
  show sz: "page_size m' seg = page_size m seg" and "pointer_format m' seg = pointer_format m seg"
    and so: "segment_offset m' seg = segment_offset m seg" and "max_valid_pointer m' seg = max_valid_pointer m seg"
    and "page_count m' seg = page_count m seg"
    unfolding page_size_def pointer_format_def segment_offset_def max_valid_pointer_def page_count_def
    using assms by (auto intro!: read_frame part)
  from sz so show "chainPointer m' seg = chainPointer m seg"
    by (simp add: chainPointer_def fun_eq_iff)
qed

lemma page_start_agree:
  assumes "agree lo hi m' m" and "lo \<le> seg" and "seg + 24 + 2 * i \<le> hi"
  shows "page_start m' seg i = page_start m seg i"
  unfolding page_start_def by (rule read16_agree, rule agree_mono [OF assms(1)]) (use assms in auto)

lemma image_table_agree:
  assumes "agree lo hi m' m" and "lo \<le> starts"
  shows "starts + 4 \<le> hi \<Longrightarrow> seg_count m' starts = seg_count m starts"
    and "starts + 8 + 4 * i \<le> hi \<Longrightarrow> seg_info_offset m' starts i = seg_info_offset m starts i"
  unfolding seg_count_def seg_info_offset_def
  by (rule read32_agree, rule agree_mono [OF assms(1)], use assms in auto)+

context in_place
begin

lemma refines_below:
  assumes bound: "\<And>m'. agree lo hi m' m \<Longrightarrow> bnd m' = bnd m"
    and body: "\<And>i. i < unat (bnd m) \<Longrightarrow> refinesStep m good after (\<lambda>s. f s i) (\<lambda>s. g s i)"
  shows "refinesStep m good after (\<lambda>s. for_below (\<lambda>s. bnd (chainMem s)) f s i) (\<lambda>s. for_below (\<lambda>s. bnd (chainMem s)) g s i)"
proof (induction "unat (bnd m) - i" arbitrary: i rule: less_induct)
  case less
  let ?F = "\<lambda>f. for_below (\<lambda>s. bnd (chainMem s)) f"
  have unfold: "?F h s i = (if i < unat (bnd (chainMem s)) then
      case h s i of None \<Rightarrow> None | Some (s', stop) \<Rightarrow> if stop \<or> False then Some (s', stop) else ?F h s' (Suc i)
      else Some (s, False))" for h :: "'x chainState \<Rightarrow> nat \<Rightarrow> ('x chainState \<times> bool) option" and s
    by (subst for_below.simps) (auto split: option.splits)
  show ?case
  proof (cases "i < unat (bnd m)")
    case True
    have "refinesStep m good after
        (\<lambda>s. case f s i of None \<Rightarrow> None | Some (s', stop) \<Rightarrow> if stop \<or> False then Some (s', stop) else ?F f s' (Suc i))
        (\<lambda>s. case g s i of None \<Rightarrow> None | Some (s', stop) \<Rightarrow> if stop \<or> False then Some (s', stop) else ?F g s' (Suc i))"
      by (rule refines_then [OF body [OF True]]) (rule less.hyps, use True in simp)
    then show ?thesis
    proof (rule refines_table)
      fix xs assume "agree lo hi (chainMem (after xs)) m"
      then have "bnd (chainMem (after xs)) = bnd m" by (rule bound)
      with True show "?F g (after xs) i = (case g (after xs) i of None \<Rightarrow> None
          | Some (s', stop) \<Rightarrow> if stop \<or> False then Some (s', stop) else ?F g s' (Suc i))"
        by (subst unfold) (simp only: if_True)
    qed (subst unfold, simp only: chainState.simps True if_True)
  next
    case False
    have "refinesStep m good after (\<lambda>s. Some (s, False)) (\<lambda>s. Some (s, False))" by (auto simp: refinesStep_def)
    then show ?thesis
    proof (rule refines_table)
      fix xs assume "agree lo hi (chainMem (after xs)) m"
      then have "bnd (chainMem (after xs)) = bnd m" by (rule bound)
      with False show "?F g (after xs) i = Some (after xs, False)" by (subst unfold) (simp only: if_False)
    qed (subst unfold, simp only: chainState.simps False if_False)
  qed
qed

lemma refines_overflow:
  assumes seg: "lo \<le> seg" and k: "i \<le> k" "seg + 24 + 2 * k \<le> hi" "page_start m seg k AND DYLD_CHAINED_PTR_START_LAST \<noteq> 0"
  shows "refinesStep m good after
    (\<lambda>s. overflowChains lim seg n (\<lambda>s loc. collectBlock s loc seg) page s i)
    (\<lambda>s. overflowChains lim seg n (\<lambda>s loc. block s loc seg) page s i)"
  using k(1)
proof (induction "k - i" arbitrary: i rule: less_induct)
  case less
  let ?c = "page_start m seg i AND DYLD_CHAINED_PTR_START_LAST \<noteq> 0"
  let ?p = "chainPointer m seg page (page_start m seg i AND NOT DYLD_CHAINED_PTR_START_LAST)"
  let ?walk = "\<lambda>h s. walkChain lim (pointer_format m seg) n (max_valid_pointer m seg) h s ?p"
  have further: "refinesStep m good after
    (\<lambda>s. overflowChains lim seg n (\<lambda>s loc. collectBlock s loc seg) page s (Suc i))
    (\<lambda>s. overflowChains lim seg n (\<lambda>s loc. block s loc seg) page s (Suc i))" if "\<not> ?c"
  proof (rule less.hyps)
    from that k(3) less.prems have "i < k" by (metis le_neq_implies_less)
    then show "k - Suc i < k - i" and "Suc i \<le> k" by auto
  qed
  note step = refines_then [OF refines_walk [OF seg] further]
  let ?F = "\<lambda>s. case ?walk (\<lambda>s loc. collectBlock s loc seg) s of None \<Rightarrow> None | Some (s', stop) \<Rightarrow>
      if stop \<or> ?c then Some (s', stop) else overflowChains lim seg n (\<lambda>s loc. collectBlock s loc seg) page s' (Suc i)"
  let ?G = "\<lambda>s. case ?walk (\<lambda>s loc. block s loc seg) s of None \<Rightarrow> None | Some (s', stop) \<Rightarrow>
      if stop \<or> ?c then Some (s', stop) else overflowChains lim seg n (\<lambda>s loc. block s loc seg) page s' (Suc i)"
  have "refinesStep m good after ?F ?G" by (rule step) (use k in auto)
  then have "refinesStep m good after (\<lambda>s. if lim < seg + 22 + 2 * i + 2 then None else ?F s)
      (\<lambda>s. if lim < seg + 22 + 2 * i + 2 then None else ?G s)"
    by (auto simp: refinesStep_def)
  then show ?case
    by (rule refines_table)
      (use k less.prems seg in \<open>simp_all add: overflowChains.simps [of lim seg n _ page _ i] Let_def segment_table_agree page_start_agree\<close>)
qed

end

context in_place
begin

lemma refines_page:
  assumes seg: "lo \<le> seg" "segmentStartsIn m hi seg" and i: "i < unat (page_count m seg)"
  shows "refinesStep m good after
    (\<lambda>s. pageChains lim seg n (\<lambda>s loc. collectBlock s loc seg) s i)
    (\<lambda>s. pageChains lim seg n (\<lambda>s loc. block s loc seg) s i)"
proof -
  let ?start = "page_start m seg i"
  have hi: "seg + 22 \<le> hi" "seg + 8 \<le> hi" "seg + 24 + 2 * i \<le> hi"
    using assms by (auto simp: segmentStartsIn_def)
  let ?H = "\<lambda>h s. if ?start = DYLD_CHAINED_PTR_START_NONE then Some (s, False)
    else if ?start AND DYLD_CHAINED_PTR_START_MULTI \<noteq> 0 then
      overflowChains lim seg n h i s (unat (?start AND NOT DYLD_CHAINED_PTR_START_MULTI))
    else walkChain lim (pointer_format m seg) n (max_valid_pointer m seg) h s (chainPointer m seg i ?start)"
  have "refinesStep m good after (?H (\<lambda>s loc. collectBlock s loc seg)) (?H (\<lambda>s loc. block s loc seg))"
  proof (cases "?start \<noteq> DYLD_CHAINED_PTR_START_NONE \<and> ?start AND DYLD_CHAINED_PTR_START_MULTI \<noteq> 0")
    case True
    with seg(2) i obtain k where "unat (?start AND NOT DYLD_CHAINED_PTR_START_MULTI) \<le> k" and "seg + 24 + 2 * k \<le> hi"
      and "page_start m seg k AND DYLD_CHAINED_PTR_START_LAST \<noteq> 0"
      unfolding segmentStartsIn_def Let_def by blast
    from refines_overflow [OF seg(1) this] True show ?thesis by simp
  next
    case False
    with refines_walk [OF seg(1) hi(2)] show ?thesis by (auto simp: refinesStep_def)
  qed
  then show ?thesis
    by (rule refines_table) (use hi seg in \<open>simp_all add: pageChains_def Let_def segment_table_agree page_start_agree\<close>)
qed

lemma unat_ucast_u16 [simp]: "unat (ucast (w :: u16) :: u32) = unat w"
proof -
  have "unat w < 65536" using unsigned_less [of w] by simp
  then show ?thesis by (simp add: unsigned_ucast_eq take_bit_nat_eq_self)
qed

lemma refines_segment:
  assumes seg: "lo \<le> seg" "segmentStartsIn m hi seg"
  shows "refinesStep m good after
    (\<lambda>s. map_option (\<lambda>s'. (s', False)) (forEachFixupInSegmentChains lim n collectBlock s seg))
    (\<lambda>s. map_option (\<lambda>s'. (s', False)) (forEachFixupInSegmentChains lim n block s seg))"
proof -
  have hi: "seg + 22 \<le> hi" using assms by (auto simp: segmentStartsIn_def)
  let ?H = "\<lambda>h s. for_below (\<lambda>s. ucast (page_count (chainMem s) seg)) (pageChains lim seg n h) s 0"
  have pages: "refinesStep m good after (?H (\<lambda>s loc. collectBlock s loc seg)) (?H (\<lambda>s loc. block s loc seg))"
    by (rule refines_below) (use refines_page [OF seg] hi seg in \<open>simp_all add: segment_table_agree\<close>)
  then show ?thesis
    unfolding forEachFixupInSegmentChains_def refinesStep_def by (auto; metis fst_conv option.map(2))
qed

text \<open>The walk over an image, in place, ends in the state after the fixups a collecting walk meets.\<close>

lemma image_in_place:
  assumes starts: "startsIn m lo hi starts"
    and collect: "forEachFixupInAllChains lim starts n collectBlock \<lparr>chainMem = m, chainDiag = d, captured = []\<rparr> = Some s"
    and good: "good (captured s)"
  shows "forEachFixupInAllChains lim starts n block (after []) = Some (after (captured s))"
proof -
  have lo: "lo \<le> starts" and hi: "starts + 4 \<le> hi" "starts + 4 + 4 * unat (seg_count m starts) \<le> hi"
    using starts by (auto simp: startsIn_def)
  have start: "agree lo hi (chainMem (after [])) m"
    using after_table [of "[]"] good_prefix [of "[]" "captured s"] good by simp
  let ?c = "\<lambda>i. seg_info_offset m starts i = 0"
  let ?seg = "\<lambda>i. starts + unat (seg_info_offset m starts i)"
  let ?H = "\<lambda>run s i. if seg_info_offset (chainMem s) starts i = 0 then Some (s, False)
    else map_option (\<lambda>s'. (s', False)) (run s (starts + unat (seg_info_offset (chainMem s) starts i)))"
  have one: "refinesStep m good after (\<lambda>s. ?H (forEachFixupInSegmentChains lim n collectBlock) s i)
      (\<lambda>s. ?H (forEachFixupInSegmentChains lim n block) s i)" if i: "i < unat (seg_count m starts)" for i
  proof -
    have "refinesStep m good after
        (\<lambda>s. if ?c i then Some (s, False) else map_option (\<lambda>s'. (s', False)) (forEachFixupInSegmentChains lim n collectBlock s (?seg i)))
        (\<lambda>s. if ?c i then Some (s, False) else map_option (\<lambda>s'. (s', False)) (forEachFixupInSegmentChains lim n block s (?seg i)))"
    proof (cases "?c i")
      case False
      with starts i refines_segment [of "?seg i"] show ?thesis by (auto simp: startsIn_def)
    qed (simp add: refinesStep_def)
    then show ?thesis
      by (rule refines_table) (use hi lo i in \<open>simp_all add: image_table_agree(2) [OF _ lo]\<close>)
  qed
  have all: "refinesStep m good after
      (\<lambda>s. for_below (\<lambda>s. seg_count (chainMem s) starts) (?H (forEachFixupInSegmentChains lim n collectBlock)) s 0)
      (\<lambda>s. for_below (\<lambda>s. seg_count (chainMem s) starts) (?H (forEachFixupInSegmentChains lim n block)) s 0)"
    by (rule refines_below) (use one hi lo in \<open>simp_all add: image_table_agree(1)\<close>)
  from collect obtain b where run: "for_below (\<lambda>s. seg_count (chainMem s) starts) (?H (forEachFixupInSegmentChains lim n collectBlock))
      \<lparr>chainMem = m, chainDiag = d, captured = []\<rparr> 0 = Some (s, b)"
    by (auto simp: forEachFixupInAllChains_def)
  show ?thesis
    by (rule refinesStepE [OF all run]) (use good in \<open>simp add: forEachFixupInAllChains_def\<close>)
qed

end

section \<open>The fixups of 64-bit images\<close>

text \<open>The addend of a bind has eight bits: the shuffling of 27 bits leaves it as it is.\<close>

lemma generic64_signExtendedAddend: "generic64_signExtendedAddend w = generic64_addend w"
proof -
  have top: "take_bit 8 x AND 0x7F80000 = 0" for x :: u64
  proof -
    have top8: "(0x7F80000 :: u64) = push_bit 19 (mask 8)" by (simp add: mask_eq_exp_minus_1 push_bit_eq_mult)
    show ?thesis unfolding top8 by (auto intro!: bit_eqI simp: bit_simps)
  qed
  have low: "take_bit 8 x AND 0x7FFFF = take_bit 8 x" for x :: u64
  proof -
    have all: "(0x7FFFF :: u64) = mask 19" by (simp add: mask_eq_exp_minus_1)
    show ?thesis unfolding all by (auto intro!: bit_eqI simp: bit_simps)
  qed
  have shifts: "drop_bit 37 (push_bit 37 (take_bit 8 x)) = take_bit 8 x" for x :: u64
    by (auto intro!: bit_eqI simp: bit_simps)
  have wide: "take_bit 8 x AND 0x00FFFFFFFFFFFFFF = take_bit 8 x" for x :: u64
  proof -
    have all: "(0x00FFFFFFFFFFFFFF :: u64) = mask 56" by (simp add: mask_eq_exp_minus_1)
    show ?thesis unfolding all by (auto intro!: bit_eqI simp: bit_simps)
  qed
  show ?thesis
    unfolding generic64_signExtendedAddend_def generic64_addend_def bits_def Let_def top low shifts wide by simp
qed

text \<open>What a fixup's location has to hold in the end.\<close>

definition finalValue :: "u64 \<Rightarrow> u64 \<Rightarrow> u64 list \<Rightarrow> u16 \<Rightarrow> u64 \<Rightarrow> u64" where
  "finalValue loadAddress slide bindTargets fmt w =
     (if generic64_bind w then bindTargets ! unat (generic64_ordinal w) + generic64_addend w
      else if fmt = DYLD_CHAINED_PTR_64 then generic64_unpackedTarget w + slide
      else generic64_unpackedTarget w + loadAddress)"

definition finalStores :: "u64 \<Rightarrow> u64 \<Rightarrow> u64 list \<Rightarrow> fixup list \<Rightarrow> (nat \<times> u64) list" where
  "finalStores loadAddress slide bindTargets fs =
     map (\<lambda>(p, fmt, w). (p, finalValue loadAddress slide bindTargets fmt w)) fs"

text \<open>
  Fixups that can be made in place: of a supported format, with an ordinal of the bind targets, on
  bytes of their own, away from the starts tables.
\<close>

definition fixable :: "u64 list \<Rightarrow> fixup \<Rightarrow> bool" where
  "fixable bindTargets = (\<lambda>(p, fmt, w). fmt \<in> {DYLD_CHAINED_PTR_64, DYLD_CHAINED_PTR_64_OFFSET} \<and>
     (generic64_bind w \<longrightarrow> unat (generic64_ordinal w) < length bindTargets))"

definition fixableInPlace :: "nat \<Rightarrow> nat \<Rightarrow> u64 list \<Rightarrow> fixup list \<Rightarrow> bool" where
  "fixableInPlace lo hi bindTargets fs \<longleftrightarrow>
     sorted_wrt (\<lambda>f g. apart (fst f) (fst g)) fs \<and>
     (\<forall>f\<in>set fs. (hi \<le> fst f \<or> fst f + 8 \<le> lo) \<and> fixable bindTargets f)"

definition afterFixups ::
    "u64 \<Rightarrow> u64 \<Rightarrow> u64 list \<Rightarrow> (nat \<Rightarrow> u64 \<Rightarrow> 's \<Rightarrow> 's) \<Rightarrow> 's chainState \<Rightarrow> fixup list \<Rightarrow> 's chainState" where
  "afterFixups loadAddress slide bindTargets logFixup s fs =
     (let stores = finalStores loadAddress slide bindTargets fs
      in s\<lparr>chainMem := storeAll stores (chainMem s),
           captured := foldl (\<lambda>c (p, v). logFixup p v c) (captured s) stores\<rparr>)"

lemma fst_finalStores: "(p, v) \<in> set (finalStores L S B fs) \<Longrightarrow> \<exists>f\<in>set fs. fst f = p"
  by (force simp: finalStores_def)

interpretation fixing: in_place "chainMem s" lo hi "fixableInPlace lo hi bindTargets"
  "afterFixups loadAddress slide bindTargets logFixup s" "fixupBlock loadAddress slide bindTargets logFixup"
  for s :: "'s chainState" and lo hi loadAddress slide bindTargets logFixup
proof
  fix xs ys :: "fixup list" and p :: nat and fmt :: u16 and w :: u64 and seg
  let ?after = "afterFixups loadAddress slide bindTargets logFixup s"
  show "fixableInPlace lo hi bindTargets xs" if "fixableInPlace lo hi bindTargets (xs @ ys)"
    using that by (auto simp: fixableInPlace_def sorted_wrt_append)
  show "fmt \<in> {DYLD_CHAINED_PTR_64, DYLD_CHAINED_PTR_64_OFFSET}" if "fixableInPlace lo hi bindTargets (xs @ [(p, fmt, w)])"
    using that by (simp add: fixableInPlace_def fixable_def)
  show "agree lo hi (chainMem (?after xs)) (chainMem s)" if "fixableInPlace lo hi bindTargets xs"
    using that fst_finalStores
    by (auto simp: afterFixups_def Let_def fixableInPlace_def intro!: agree_storeAll) blast
  show "read64 (chainMem (?after xs)) p = read64 (chainMem s) p" if "fixableInPlace lo hi bindTargets (xs @ [(p, fmt, w)])"
  proof -
    have "apart (fst f) p" if "f \<in> set xs" for f
      using \<open>fixableInPlace lo hi bindTargets (xs @ [(p, fmt, w)])\<close> that by (auto simp: fixableInPlace_def sorted_wrt_append)
    then have "\<forall>(q, v)\<in>set (finalStores loadAddress slide bindTargets xs). p + 8 \<le> q \<or> q + 8 \<le> p"
      using fst_finalStores by (fastforce simp: apart_def)
    then show ?thesis
      by (auto simp: afterFixups_def Let_def intro!: read64_agree agree_storeAll)
  qed
  show "fixupBlock loadAddress slide bindTargets logFixup (?after xs) p seg = Some (?after (xs @ [(p, fmt, w)]), False)"
    if "fixableInPlace lo hi bindTargets (xs @ [(p, fmt, w)])" and "read64 (chainMem (?after xs)) p = w"
      and "pointer_format (chainMem (?after xs)) seg = fmt"
    using that
    by (auto simp: fixupBlock_def fixableInPlace_def fixable_def finalStores_def finalValue_def afterFixups_def Let_def
        generic64_signExtendedAddend add.commute)
qed

section \<open>Encoded chains\<close>

text \<open>
  A fixup of a 64-bit image and the pointer a static linker writes for it: the bit-fields of
  \<open>dyld_chained_ptr_64_rebase\<close> or \<open>dyld_chained_ptr_64_bind\<close>, with \<open>n\<close> as \<open>next\<close>.
\<close>

datatype fixup64 = RebaseTo u64 | BindTo u32 u8

definition encode64 :: "fixup64 \<Rightarrow> nat \<Rightarrow> u64" where
  "encode64 f n =
     (case f of
        RebaseTo target \<Rightarrow> take_bit 36 target OR push_bit 36 (drop_bit 56 target) OR push_bit 51 (take_bit 12 (of_nat n))
      | BindTo ordinal addend \<Rightarrow>
          set_bit 63 (take_bit 24 (ucast ordinal) OR push_bit 24 (ucast addend) OR push_bit 51 (take_bit 12 (of_nat n))))"

definition encodable :: "fixup64 \<Rightarrow> bool" where
  "encodable f \<longleftrightarrow>
     (case f of RebaseTo target \<Rightarrow> target AND 0x00FFFFF000000000 = 0 | BindTo ordinal addend \<Rightarrow> ordinal < 0x1000000)"

lemma generic64_next_encode64 [simp]: "generic64_next (encode64 f n) = take_bit 12 (of_nat n)"
  by (rule bit_eqI) (auto simp: generic64_next_def bits_def encode64_def bit_simps split: fixup64.split dest: bit_imp_le_length)

lemma generic64_bind_encode64 [simp]: "generic64_bind (encode64 f n) \<longleftrightarrow> (\<exists>ordinal addend. f = BindTo ordinal addend)"
  by (auto simp: generic64_bind_def encode64_def bit_simps split: fixup64.split dest: bit_imp_le_length)

lemma unpacked_encode64:
  assumes "encodable (RebaseTo target)"
  shows "generic64_unpackedTarget (encode64 (RebaseTo target) n) = target"
proof -
  have middle: "(0x00FFFFF000000000 :: u64) = push_bit 36 (mask 20)"
    by (simp add: mask_eq_exp_minus_1 push_bit_eq_mult)
  have zero: "\<not> bit target k" if "36 \<le> k" and "k < 56" for k
  proof
    assume "bit target k"
    with that have "bit (target AND 0x00FFFFF000000000) k" unfolding middle by (auto simp: bit_simps)
    with assms show False by (simp add: encodable_def)
  qed
  show ?thesis
  proof (rule bit_eqI)
    fix k
    assume "possible_bit TYPE(64 word) k"
    then have k: "k < 64" by simp
    consider "k < 36" | "36 \<le> k" "k < 56" | "56 \<le> k" by linarith
    then show "bit (generic64_unpackedTarget (encode64 (RebaseTo target) n)) k = bit target k"
      by cases (use zero k in \<open>auto simp: generic64_unpackedTarget_def generic64_fields bits_def encode64_def bit_simps\<close>)
  qed
qed

lemma bind_encode64:
  assumes "encodable (BindTo ordinal addend)"
  shows "generic64_ordinal (encode64 (BindTo ordinal addend) n) = ucast ordinal"
    and "generic64_addend (encode64 (BindTo ordinal addend) n) = ucast addend"
proof -
  have "take_bit 24 ordinal = ordinal"
    using assms by (simp add: encodable_def take_bit_eq_mod mod_word_less)
  then have ordinal: "bit ordinal k \<Longrightarrow> k < 24" for k by (metis bit_take_bit_iff)
  show "generic64_ordinal (encode64 (BindTo ordinal addend) n) = ucast ordinal"
    by (rule bit_eqI) (use ordinal in \<open>auto simp: generic64_fields bits_def encode64_def bit_simps\<close>)
  show "generic64_addend (encode64 (BindTo ordinal addend) n) = ucast addend"
    by (rule bit_eqI) (auto simp: generic64_fields bits_def encode64_def bit_simps dest: bit_imp_le_length)
qed

text \<open>
  A chain in memory: every pointer holds its fixup and the distance, in units of four bytes, to
  the pointer after it.
\<close>

fun chainAt :: "memory \<Rightarrow> (nat \<times> fixup64) list \<Rightarrow> bool" where
  "chainAt m [] \<longleftrightarrow> False"
| "chainAt m [(p, f)] \<longleftrightarrow> read64 m p = encode64 f 0"
| "chainAt m ((p, f) # (q, g) # fs) \<longleftrightarrow>
     (\<exists>n\<in>{1 ..< 4096}. q = p + 4 * n \<and> read64 m p = encode64 f n) \<and> chainAt m ((q, g) # fs)"

text \<open>The final value of a fixup, from what it stands for rather than from its encoding.\<close>

definition resolved :: "u64 \<Rightarrow> u64 \<Rightarrow> u64 list \<Rightarrow> u16 \<Rightarrow> fixup64 \<Rightarrow> u64" where
  "resolved loadAddress slide bindTargets fmt f =
     (case f of RebaseTo target \<Rightarrow> target + (if fmt = DYLD_CHAINED_PTR_64 then slide else loadAddress)
      | BindTo ordinal addend \<Rightarrow> bindTargets ! unat ordinal + ucast addend)"

definition encodes64 :: "u64 \<Rightarrow> fixup64 \<Rightarrow> bool" where
  "encodes64 w f \<longleftrightarrow> (\<exists>n. w = encode64 f n)"

lemma chainAt_encodes: "chainAt m fs \<Longrightarrow> (p, f) \<in> set fs \<Longrightarrow> encodes64 (read64 m p) f"
  by (induction m fs rule: chainAt.induct) (auto simp: encodes64_def)

lemma take_bit_12_small: "n < 4096 \<Longrightarrow> unat (take_bit 12 (of_nat n :: u64)) = n"
  by (simp add: unsigned_take_bit_eq unsigned_of_nat take_bit_nat_eq_self)

lemma walk_encoded:
  assumes "chainAt m fs" and fmt: "fmt \<in> {DYLD_CHAINED_PTR_64, DYLD_CHAINED_PTR_64_OFFSET}"
    and "pointer_format m seg = fmt" and "\<forall>(p, f)\<in>set fs. p + 8 \<le> lim"
  shows "walkChain lim fmt n maxp (\<lambda>s loc. collectBlock s loc seg) \<lparr>chainMem = m, chainDiag = d, captured = xs\<rparr> (fst (hd fs)) =
    Some (\<lparr>chainMem = m, chainDiag = d, captured = xs @ map (\<lambda>(p, f). (p, fmt, read64 m p)) fs\<rparr>, False)"
  using assms(1,3,4)
proof (induction m fs arbitrary: xs rule: chainAt.induct)
  case (2 m p f)
  then show ?case
    by (subst walkChain.simps) (simp add: strideSize_64 [OF fmt] chainNext_64 [OF fmt] collectBlock_def chainStepBy_def)
next
  case (3 m p f q g fs)
  obtain k where k: "k \<in> {1 ..< 4096}" "q = p + 4 * k" "read64 m p = encode64 f k" and rest: "chainAt m ((q, g) # fs)"
    using "3.prems"(1) by auto
  have "chainStepBy p (unat (generic64_next (read64 m p)) * 4) = ChainAt q"
    using k by (simp add: chainStepBy_def take_bit_12_small)
  then show ?case
    using "3.IH" [OF rest "3.prems"(2)] "3.prems"
    by (subst walkChain.simps) (simp add: strideSize_64 [OF fmt] chainNext_64 [OF fmt] collectBlock_def)
qed simp

lemma decode64:
  assumes "encodes64 w f" and "encodable f" and fmt: "fmt \<in> {DYLD_CHAINED_PTR_64, DYLD_CHAINED_PTR_64_OFFSET}"
  shows "isRebase fmt base w = Some (case f of
      RebaseTo target \<Rightarrow> Some (if fmt = DYLD_CHAINED_PTR_64 then target - base else target) | BindTo _ _ \<Rightarrow> None)"
    and "isBind fmt w = Some (case f of RebaseTo _ \<Rightarrow> None | BindTo ordinal addend \<Rightarrow> Some (ordinal, ucast addend))"
    and "finalValue loadAddress slide bindTargets fmt w = resolved loadAddress slide bindTargets fmt f"
proof -
  from assms(1) obtain n where w: "w = encode64 f n" by (auto simp: encodes64_def)
  have recast: "ucast (ucast ordinal :: u64) = ordinal" for ordinal :: u32
    by (rule bit_eqI) (auto simp: bit_simps)
  show "isRebase fmt base w = Some (case f of
      RebaseTo target \<Rightarrow> Some (if fmt = DYLD_CHAINED_PTR_64 then target - base else target) | BindTo _ _ \<Rightarrow> None)"
    using assms unpacked_encode64 by (cases f) (auto simp: isRebase_def w pointer_formats)
  show "isBind fmt w = Some (case f of RebaseTo _ \<Rightarrow> None | BindTo ordinal addend \<Rightarrow> Some (ordinal, ucast addend))"
    using assms bind_encode64 recast by (cases f) (auto simp: isBind_def w pointer_formats)
  show "finalValue loadAddress slide bindTargets fmt w = resolved loadAddress slide bindTargets fmt f"
    using assms unpacked_encode64 bind_encode64 by (cases f) (auto simp: finalValue_def resolved_def w)
qed

section \<open>Properties\<close>

text \<open>
  C11: \<open>fixupAllChainedFixups\<close> replaces every pointer of an image's chains by its final value and
  changes nothing else, although it destroys each link of a chain on the way: the state it ends in
  is that of collecting all fixups first from the untouched image and storing their values
  afterwards. The fixups must be on bytes of their own, outside the starts tables, and their
  ordinals in range.
\<close>

theorem fixupAllChainedFixups_in_place:
  assumes "startsIn (chainMem s) lo hi starts" and "collectFixups lim starts (chainMem s) = Some fs"
    and "fixableInPlace lo hi bindTargets fs"
  shows "\<exists>s'. fixupAllChainedFixups lim loadAddress starts slide bindTargets logFixup s = Some s' \<and>
    chainDiag s' = chainDiag s \<and>
    captured s' = foldl (\<lambda>c (p, v). logFixup p v c) (captured s) (finalStores loadAddress slide bindTargets fs) \<and>
    (\<forall>(p, fmt, w)\<in>set fs. read64 (chainMem s') p = finalValue loadAddress slide bindTargets fmt w) \<and>
    (\<forall>i. (\<forall>(p, fmt, w)\<in>set fs. \<not> (p \<le> i \<and> i < p + 8)) \<longrightarrow> chainMem s' i = chainMem s i)"
proof -
  let ?stores = "finalStores loadAddress slide bindTargets fs"
  let ?s' = "afterFixups loadAddress slide bindTargets logFixup s fs"
  from assms(2) obtain c where "forEachFixupInAllChains lim starts True collectBlock
      \<lparr>chainMem = chainMem s, chainDiag = None, captured = []\<rparr> = Some c" and fs: "fs = captured c"
    by (auto simp: collectFixups_def)
  from fixing.image_in_place [OF assms(1) this(1)] assms(3)
  have run: "fixupAllChainedFixups lim loadAddress starts slide bindTargets logFixup s = Some ?s'"
    by (simp add: fs fixupAllChainedFixups_def afterFixups_def finalStores_def storeAll_def)
  have "sorted_wrt (\<lambda>f g. apart (fst f) (fst g)) ?stores"
    using assms(3) by (simp add: fixableInPlace_def finalStores_def sorted_wrt_map case_prod_beta)
  from storeAll_stored [OF this] have "\<forall>(p, fmt, w)\<in>set fs. read64 (chainMem ?s') p = finalValue loadAddress slide bindTargets fmt w"
    by (force simp: afterFixups_def finalStores_def Let_def)
  moreover have "chainMem ?s' i = chainMem s i" if "\<forall>(p, fmt, w)\<in>set fs. \<not> (p \<le> i \<and> i < p + 8)" for i
    using that by (auto simp: afterFixups_def finalStores_def Let_def intro!: storeAll_elsewhere)
  ultimately show ?thesis
    using run by (auto simp: afterFixups_def Let_def)
qed

text \<open>
  C21: The pointers a static linker encodes for a list of ascending fixups are walked in that order,
  to the last one and no further, and each decodes to its own fixup: \<open>isRebase\<close> gives the target,
  \<open>isBind\<close> the ordinal and addend, never both, and the value to store is the slid target or the
  bound address with its addend.
\<close>

theorem encoded_chain_roundtrip:
  assumes "chainAt m fs" and "fmt \<in> {DYLD_CHAINED_PTR_64, DYLD_CHAINED_PTR_64_OFFSET}" and "pointer_format m seg = fmt"
    and "\<forall>(p, f)\<in>set fs. p + 8 \<le> lim \<and> encodable f"
  shows "walkChain lim fmt notify maxp (\<lambda>s loc. collectBlock s loc seg) \<lparr>chainMem = m, chainDiag = d, captured = []\<rparr> (fst (hd fs)) =
      Some (\<lparr>chainMem = m, chainDiag = d, captured = map (\<lambda>(p, f). (p, fmt, read64 m p)) fs\<rparr>, False) \<and>
    (\<forall>(p, f)\<in>set fs.
       isRebase fmt base (read64 m p) = Some (case f of
         RebaseTo target \<Rightarrow> Some (if fmt = DYLD_CHAINED_PTR_64 then target - base else target) | BindTo _ _ \<Rightarrow> None) \<and>
       isBind fmt (read64 m p) = Some (case f of
         RebaseTo _ \<Rightarrow> None | BindTo ordinal addend \<Rightarrow> Some (ordinal, ucast addend)) \<and>
       finalValue loadAddress slide bindTargets fmt (read64 m p) = resolved loadAddress slide bindTargets fmt f)"
  using walk_encoded [OF assms(1-3), of lim notify maxp d "[]"] decode64 [OF chainAt_encodes [OF assms(1)] _ assms(2)] assms(4)
  by fastforce

text \<open>
  A small image: a rebase at offset 0, a bind eight bytes further, and the starts tables for one
  segment with one page from offset 64 on.
\<close>

definition chained_image :: memory where
  "chained_image = mem_words
     [0x10, 0x100000, 0x05000000, 0x80000000, 0, 0, 0, 0, 0, 0, 0, 0, 0, 0, 0, 0,
      1, 8, 24, 0x61000, 0, 0, 0, 1]"

lemma chained_image_reads:
  "read64 chained_image 0 = encode64 (RebaseTo 0x10) 2" "read64 chained_image 8 = encode64 (BindTo 0 5) 0"
  "seg_count chained_image 64 = 1" "seg_info_offset chained_image 64 0 = 8"
  "pointer_format chained_image 72 = 6" "page_size chained_image 72 = 0x1000" "segment_offset chained_image 72 = 0"
  "max_valid_pointer chained_image 72 = 0" "page_count chained_image 72 = 1" "page_start chained_image 72 0 = 0"
proof -
  have sixteen: "read16 m p = ucast (m p) + 256 * ucast (m (p + 1))" for m p
    by (simp add: read16_def numeral_2_eq_2)
  show "seg_count chained_image 64 = 1" "seg_info_offset chained_image 64 0 = 8" "segment_offset chained_image 72 = 0"
    "max_valid_pointer chained_image 72 = 0"
    by (simp_all add: chained_image_def read32_mem_words read64_halves seg_count_def seg_info_offset_def
        segment_offset_def max_valid_pointer_def)
  show "read64 chained_image 0 = encode64 (RebaseTo 0x10) 2" "read64 chained_image 8 = encode64 (BindTo 0 5) 0"
    by (simp_all add: chained_image_def read32_mem_words read64_halves encode64_def set_bit_eq_or)
  show "pointer_format chained_image 72 = 6" "page_size chained_image 72 = 0x1000" "page_count chained_image 72 = 1"
    "page_start chained_image 72 0 = 0"
    by (simp_all add: chained_image_def mem_words_def sixteen pointer_format_def page_size_def page_count_def page_start_def)
qed

lemma chained_image_chain: "chainAt chained_image [(0, RebaseTo 0x10), (8, BindTo 0 5)]"
  by (auto simp: chained_image_reads intro!: bexI [of _ 2])

lemma chained_image_walk:
  "walkChain 96 6 True 0 (\<lambda>s loc. collectBlock s loc 72) \<lparr>chainMem = chained_image, chainDiag = d, captured = []\<rparr> 0 =
     Some (\<lparr>chainMem = chained_image, chainDiag = d,
       captured = [(0, 6, encode64 (RebaseTo 0x10) 2), (8, 6, encode64 (BindTo 0 5) 0)]\<rparr>, False)"
  using walk_encoded [OF chained_image_chain, of 6 72 96 True 0 d "[]"]
  by (simp add: chained_image_reads pointer_formats)

lemma chained_image_collect:
  "collectFixups 96 64 chained_image = Some [(0, 6, encode64 (RebaseTo 0x10) 2), (8, 6, encode64 (BindTo 0 5) 0)]"
  by (simp add: collectFixups_def forEachFixupInAllChains_def forEachFixupInSegmentChains_def pageChains_def for_below.simps
      chained_image_reads chained_image_walk chainPointer_def chain_start_consts Let_def)

lemma chained_image_tables: "startsIn chained_image 64 96 64"
  by (simp add: startsIn_def segmentStartsIn_def chained_image_reads chain_start_consts Let_def)

theorem fixupAllChainedFixups_in_place_witness:
  "\<exists>s'. fixupAllChainedFixups 96 0x1000 64 0x1000 [0x7000] (\<lambda>p v c. c @ [p])
       \<lparr>chainMem = chained_image, chainDiag = None, captured = []\<rparr> = Some s' \<and>
     chainDiag s' = None \<and> captured s' = [0, 8] \<and> read64 (chainMem s') 0 = 0x1010 \<and> read64 (chainMem s') 8 = 0x7005"
proof -
  let ?s = "\<lparr>chainMem = chained_image, chainDiag = None, captured = []\<rparr> :: nat list chainState"
  have final: "finalValue 0x1000 0x1000 [0x7000] 6 (encode64 (RebaseTo 0x10) 2) = 0x1010"
    "finalValue 0x1000 0x1000 [0x7000] 6 (encode64 (BindTo 0 5) 0) = 0x7005"
    by (simp_all add: finalValue_def pointer_formats unpacked_encode64 bind_encode64 encodable_def)
  have ok: "fixableInPlace 64 96 [0x7000] [(0, 6, encode64 (RebaseTo 0x10) 2), (8, 6, encode64 (BindTo 0 5) 0)]"
    by (auto simp: fixableInPlace_def fixable_def apart_def pointer_formats bind_encode64 encodable_def)
  show ?thesis
    using fixupAllChainedFixups_in_place [where s = ?s and lo = 64 and hi = 96 and starts = 64 and lim = 96
        and bindTargets = "[0x7000]" and loadAddress = "0x1000" and slide = "0x1000" and logFixup = "\<lambda>p v c. c @ [p]"]
      chained_image_tables chained_image_collect ok final
    by (fastforce simp: finalStores_def)
qed

theorem encoded_chain_roundtrip_witness:
  "walkChain 96 6 True 0 (\<lambda>s loc. collectBlock s loc 72) \<lparr>chainMem = chained_image, chainDiag = None, captured = []\<rparr> 0 =
     Some (\<lparr>chainMem = chained_image, chainDiag = None,
       captured = [(0, 6, encode64 (RebaseTo 0x10) 2), (8, 6, encode64 (BindTo 0 5) 0)]\<rparr>, False) \<and>
   isRebase 6 0 (encode64 (RebaseTo 0x10) 2) = Some (Some 0x10) \<and>
   isBind 6 (encode64 (BindTo 0 5) 0) = Some (Some (0, 5))"
  using encoded_chain_roundtrip [OF chained_image_chain, where fmt = 6 and seg = 72 and lim = 96 and notify = True and maxp = 0
      and d = None and base = 0]
  by (simp add: chained_image_reads pointer_formats encodable_def)

end
