(* ===== verification/Chained_Validate.thy ===== *)
theory Chained_Validate
  imports MachO_Rebase Chained_Fixups
begin

text \<open>
  The checks of an image's chained fixups and the list of their targets
  (\<open>src/dyld3/MachOAnalyzer.cpp\<close>): \<open>validChainedFixupsInfo\<close>, the opcodes of the first arm64e
  format (\<open>parseOrgArm64eChainedFixups\<close>, \<open>validChainedFixupsInfoOldArm64e\<close>) and
  \<open>forEachChainedFixupTarget\<close>. The result \<open>None\<close> is a failed assertion, an access outside
  \<open>segmentsInfo\<close> or through a null pointer, or undefined behaviour.
\<close>

section \<open>The header of the payload\<close>

definition fixups_version :: "memory \<Rightarrow> nat \<Rightarrow> u32" where "fixups_version m h = read32 m h"
definition starts_offset :: "memory \<Rightarrow> nat \<Rightarrow> u32" where "starts_offset m h = read32 m (h + 4)"
definition imports_offset :: "memory \<Rightarrow> nat \<Rightarrow> u32" where "imports_offset m h = read32 m (h + 8)"
definition symbols_offset :: "memory \<Rightarrow> nat \<Rightarrow> u32" where "symbols_offset m h = read32 m (h + 12)"
definition imports_count :: "memory \<Rightarrow> nat \<Rightarrow> u32" where "imports_count m h = read32 m (h + 16)"
definition imports_format :: "memory \<Rightarrow> nat \<Rightarrow> u32" where "imports_format m h = read32 m (h + 20)"
definition symbols_format :: "memory \<Rightarrow> nat \<Rightarrow> u32" where "symbols_format m h = read32 m (h + 24)"

definition DYLD_CHAINED_IMPORT :: u32 where "DYLD_CHAINED_IMPORT = 1"
definition DYLD_CHAINED_IMPORT_ADDEND :: u32 where "DYLD_CHAINED_IMPORT_ADDEND = 2"
definition DYLD_CHAINED_IMPORT_ADDEND64 :: u32 where "DYLD_CHAINED_IMPORT_ADDEND64 = 3"

lemmas import_formats = DYLD_CHAINED_IMPORT_def DYLD_CHAINED_IMPORT_ADDEND_def DYLD_CHAINED_IMPORT_ADDEND64_def

definition formatEntrySize :: "u32 \<Rightarrow> u32 option" where
  "formatEntrySize fmt =
     (if fmt = DYLD_CHAINED_IMPORT then Some 4
      else if fmt = DYLD_CHAINED_IMPORT_ADDEND then Some 8
      else if fmt = DYLD_CHAINED_IMPORT_ADDEND64 then Some 16
      else None)"

text \<open>The checks of \<open>dyld_chained_fixups_header\<close>: the message of the first that fails.\<close>

definition chainsHeaderError :: "memory \<Rightarrow> nat \<Rightarrow> u32 \<Rightarrow> string option" where
  "chainsHeaderError m h datasize =
     (if fixups_version m h \<noteq> 0 then Some ''chained fixups, unknown header version''
      else if starts_offset m h \<ge> datasize then
        Some ''chained fixups, starts_offset exceeds LC_DYLD_CHAINED_FIXUPS size''
      else if imports_offset m h > datasize then
        Some ''chained fixups, imports_offset exceeds LC_DYLD_CHAINED_FIXUPS size''
      else case formatEntrySize (imports_format m h) of
             None \<Rightarrow> Some ''chained fixups, unknown imports_format''
           | Some entrySize \<Rightarrow>
               if greaterThanAddOrOverflow (imports_offset m h) (entrySize * imports_count m h) (symbols_offset m h) then
                 Some ''chained fixups, imports array overlaps symbols''
               else if symbols_format m h \<noteq> 0 then Some ''chained fixups, symbols_format unknown''
               else None)"

text \<open>
  The number of segments: a smaller count is accepted when that many segments before
  \<open>__LINKEDIT\<close> are empty. The index \<open>linkeditSegIndex - (i + 1)\<close> wraps at 32 bits.
\<close>

definition segCountError :: "segment_array \<Rightarrow> LayoutInfo \<Rightarrow> u32 \<Rightarrow> string option option" where
  "segCountError segs lo segCount =
     (if segCount = linkeditSegIndex lo + 1 then Some None
      else if segCount > linkeditSegIndex lo + 1 then Some (Some ''chained fixups, seg_count exceeds number of segments'')
      else
        let numExtraSegments = (lastSegIndex lo + 1) - segCount
        in Option.bind (forStop (\<lambda>numNoRelocSegments i.
               map_option (\<lambda>seg. (if vmSize seg = 0 then numNoRelocSegments + 1 else numNoRelocSegments, False))
                 (seg_at segs (unat (linkeditSegIndex lo - (of_nat i + 1)))))
             (0::u32) [0 ..< unat numExtraSegments])
           (\<lambda>(numNoRelocSegments, _).
             Some (if numNoRelocSegments \<noteq> numExtraSegments then
                     Some ''chained fixups, seg_count does not match number of segments'' else None)))"

section \<open>The starts of one segment\<close>

text \<open>
  The \<open>do ... while\<close> loop over the overflow starts of a page. It stops in front of the entry with
  the last bit, which it does not look at, and always takes the first entry.
\<close>

function overflowError :: "memory \<Rightarrow> nat \<Rightarrow> nat \<Rightarrow> nat \<Rightarrow> u16 \<Rightarrow> string option" where
  "overflowError m seg maxOverflowIndex overflowIndex lastOffsetInPage =
     (if overflowIndex > maxOverflowIndex then Some ''chain overflow index out of range %d (max=%d) in segment %s''
      else let offsetInPage = page_start m seg overflowIndex AND NOT DYLD_CHAINED_PTR_START_LAST
           in if offsetInPage > page_size m seg then
                Some ''chained fixups, in segment #%d overflow page_start[%d]=0x%04X exceeds page size''
              else if offsetInPage \<le> lastOffsetInPage \<and> lastOffsetInPage \<noteq> 0 then
                Some ''chained fixups, in segment #%d overflow page_start[%d]=0x%04X is before previous at 0x%04X\<newline>''
              else if page_start m seg (Suc overflowIndex) AND DYLD_CHAINED_PTR_START_LAST = 0 then
                overflowError m seg maxOverflowIndex (Suc overflowIndex) offsetInPage
              else None)"
  by pat_completeness auto
termination
  by (relation "measure (\<lambda>(m, seg, maxIndex, i, last). Suc maxIndex - i)") auto

declare overflowError.simps [simp del]

text \<open>
  The loop over the pages. The first check reports its error and goes on; the errors of the
  overflow loop return at once, which is the stop flag here.
\<close>

definition pageStartCheck :: "memory \<Rightarrow> nat \<Rightarrow> nat \<Rightarrow> diag \<Rightarrow> nat \<Rightarrow> (diag \<times> bool) option" where
  "pageStartCheck m seg maxOverflowIndex d pageIndex =
     (let offsetInPage = page_start m seg pageIndex in
      if offsetInPage = DYLD_CHAINED_PTR_START_NONE then Some (d, False)
      else if offsetInPage AND DYLD_CHAINED_PTR_START_MULTI = 0 then
        Some (if offsetInPage > page_size m seg
              then error ''chained fixups, in segment #%d page_start[%d]=0x%04X exceeds page size'' d else d, False)
      else case overflowError m seg maxOverflowIndex (unat (offsetInPage AND NOT DYLD_CHAINED_PTR_START_MULTI)) 0 of
             Some msg \<Rightarrow> Some (error msg d, True)
           | None \<Rightarrow> Some (d, False))"

text \<open>The variables of the loop over the segments.\<close>

record chainsSeen =
  maxValidPointerSeen :: u32
  pointer_format_for_all :: u16
  pointer_format_found :: bool
  chainsDiag :: diag

definition chainsError :: "string \<Rightarrow> chainsSeen \<Rightarrow> (chainsSeen \<times> bool) option" where
  "chainsError msg v = Some (v\<lparr>chainsDiag := error msg (chainsDiag v)\<rparr>, True)"

text \<open>The checks of one segment after its format: the offset, the largest pointer, the page starts.\<close>

definition segmentTableCheck :: "memory \<Rightarrow> SegmentInfo \<Rightarrow> u64 \<Rightarrow> nat \<Rightarrow> chainsSeen \<Rightarrow> (chainsSeen \<times> bool) option" where
  "segmentTableCheck m info baseAddress seg v =
     (let maxp = max_valid_pointer m seg;
          v' = (if maxp \<noteq> 0 \<and> maxValidPointerSeen v = 0 then v\<lparr>maxValidPointerSeen := maxp\<rparr> else v);
          tableEnd = 22 + 2 * unat (page_count m seg)
      in if segment_offset m seg \<noteq> vmAddr info - baseAddress then
           chainsError ''chained fixups, segment_offset does not match vmaddr from LC_SEGMENT in segment #%d'' v
         else if maxp \<noteq> 0 \<and> maxValidPointerSeen v \<noteq> 0 \<and> maxValidPointerSeen v \<noteq> maxp then
           chainsError ''chained fixups, different max_valid_pointer values seen in different segments'' v
         else if tableEnd > unat (starts_size m seg) then
           chainsError ''chained fixups, page_start array overflows size'' v'
         else
           map_option (\<lambda>(d, stop). (v'\<lparr>chainsDiag := d\<rparr>, stop))
             (forStop (pageStartCheck m seg ((unat (starts_size m seg) - tableEnd) div 2))
                (chainsDiag v') [0 ..< unat (page_count m seg)]))"

text \<open>One iteration of the loop over \<open>seg_info_offset\<close>; \<open>endOfStarts\<close> is where the imports begin.\<close>

definition segmentStartsCheck ::
    "memory \<Rightarrow> segment_array \<Rightarrow> u64 \<Rightarrow> nat \<Rightarrow> nat \<Rightarrow> chainsSeen \<Rightarrow> nat \<Rightarrow> (chainsSeen \<times> bool) option" where
  "segmentStartsCheck m segs baseAddress startsInfo endOfStarts v i =
     (let segInfoOffset = seg_info_offset m startsInfo i; seg = startsInfo + unat segInfoOffset in
      if segInfoOffset = 0 then Some (v, False)
      else if int (unat (starts_size m seg)) > int endOfStarts - int seg then
        chainsError ''chained fixups, dyld_chained_starts_in_segment for segment #%d overruns imports table'' v
      else if page_size m seg \<noteq> 0x1000 \<and> page_size m seg \<noteq> 0x4000 then
        chainsError ''chained fixups, page_size not 4KB or 16KB in segment #%d'' v
      else if pointer_format m seg > 12 then
        chainsError ''chained fixups, unknown pointer_format in segment #%d'' v
      else
        let v' = (if pointer_format_found v then v
                  else v\<lparr>pointer_format_for_all := pointer_format m seg, pointer_format_found := True\<rparr>)
        in if pointer_format m seg \<noteq> pointer_format_for_all v' then
             chainsError ''chained fixups, pointer_format not same for all segments %d and %d'' v'
           else Option.bind (seg_at segs i) (\<lambda>info. segmentTableCheck m info baseAddress seg v'))"

definition maxBindOrdinal :: "u16 \<Rightarrow> u32" where
  "maxBindOrdinal fmt =
     (if fmt = DYLD_CHAINED_PTR_32 then 0x0FFFFF
      else if fmt \<in> {DYLD_CHAINED_PTR_ARM64E, DYLD_CHAINED_PTR_ARM64E_USERLAND, DYLD_CHAINED_PTR_ARM64E_KERNEL} then 0x00FFFF
      else if fmt \<in> {DYLD_CHAINED_PTR_64, DYLD_CHAINED_PTR_64_OFFSET, DYLD_CHAINED_PTR_ARM64E_USERLAND24} then 0xFFFFFF
      else 0)"

text \<open>The checks after the loop: the size of the imports table and the largest valid pointer.\<close>

definition chainsEndError :: "memory \<Rightarrow> segment_array \<Rightarrow> LayoutInfo \<Rightarrow> nat \<Rightarrow> chainsSeen \<Rightarrow> string option option" where
  "chainsEndError m segs lo h v =
     (if imports_count m h \<noteq> 0 \<and> imports_count m h \<ge> maxBindOrdinal (pointer_format_for_all v) then
        Some (Some ''chained fixups, imports_count (%d) exceeds max of %d'')
      else if maxValidPointerSeen v \<noteq> 0 \<and> \<not> inDyldCache m then
        map_option (\<lambda>seg. if ucast (maxValidPointerSeen v) < vmAddr seg + vmSize seg
                          then Some ''chained fixups, max_valid_pointer too small for image'' else None)
          (seg_at segs (unat (linkeditSegIndex lo - 1)))
      else Some None)"

definition validChainsAt ::
    "memory \<Rightarrow> segment_array \<Rightarrow> LayoutInfo \<Rightarrow> nat \<Rightarrow> u32 \<Rightarrow> diag \<Rightarrow> (bool \<times> diag) option" where
  "validChainsAt m segs lo h datasize d =
     (case chainsHeaderError m h datasize of
        Some msg \<Rightarrow> Some (False, error msg d)
      | None \<Rightarrow>
          let startsInfo = h + unat (starts_offset m h) in
          Option.bind (segCountError segs lo (seg_count m startsInfo)) (\<lambda>e. case e of
            Some msg \<Rightarrow> Some (False, error msg d)
          | None \<Rightarrow>
              Option.bind (preferredLoadAddress m) (\<lambda>baseAddress.
              Option.bind (forStop (segmentStartsCheck m segs baseAddress startsInfo (h + unat (imports_offset m h)))
                  \<lparr>maxValidPointerSeen = 0, pointer_format_for_all = 0, pointer_format_found = False, chainsDiag = d\<rparr>
                  [0 ..< unat (seg_count m startsInfo)])
                (\<lambda>(v, stop).
                  if stop then Some (False, chainsDiag v)
                  else map_option (\<lambda>e. case e of Some msg \<Rightarrow> (False, error msg (chainsDiag v))
                                       | None \<Rightarrow> (noError (chainsDiag v), chainsDiag v))
                         (chainsEndError m segs lo h v)))))"

definition validChainedFixupsInfo :: "memory \<Rightarrow> u64 \<Rightarrow> LayoutInfo \<Rightarrow> diag \<Rightarrow> (bool \<times> diag) option" where
  "validChainedFixupsInfo m loadAddr uninit d =
     Option.bind (getLinkEditPointers m loadAddr uninit d) (\<lambda>(leInfo, d1).
     if hasError d1 then Some (False, d1)
     else
       Option.bind (getAllSegmentsInfos m (replicate (unat (lastSegIndex (layout leInfo) + 1)) None)) (\<lambda>segs.
       case le_chainedFixups (leCommands leInfo) of
         None \<Rightarrow> None
       | Some c \<Rightarrow>
           validChainsAt m segs (layout leInfo) (content_at loadAddr (layout leInfo) (read32 m (c + 8)))
             (read32 m (c + 12)) d1))"

section \<open>What the checks establish\<close>

text \<open>An accepted list of overflow starts has its last entry at most one past the largest index.\<close>

lemma overflow_ends:
  assumes "overflowError m seg maxIndex i offset = None"
  shows "\<exists>k. i \<le> k \<and> k \<le> Suc maxIndex \<and> page_start m seg k AND DYLD_CHAINED_PTR_START_LAST \<noteq> 0"
  using assms
proof (induction m seg maxIndex i offset rule: overflowError.induct)
  case (1 m seg maxIndex i offset)
  show ?case
  proof (cases "page_start m seg (Suc i) AND DYLD_CHAINED_PTR_START_LAST = 0")
    case True
    with "1.prems" have "\<not> maxIndex < i" and "overflowError m seg maxIndex (Suc i) (page_start m seg i AND NOT DYLD_CHAINED_PTR_START_LAST) = None"
      by (auto simp: overflowError.simps [of m seg maxIndex i] Let_def split: if_splits)
    with "1" True show ?thesis
      by (auto simp: overflowError.simps [of m seg maxIndex i] Let_def split: if_splits) (meson Suc_leD)+
  next
    case False
    with "1.prems" have "i \<le> maxIndex" by (auto simp: overflowError.simps [of m seg maxIndex i] split: if_splits)
    with False show ?thesis by (intro exI [of _ "Suc i"]) auto
  qed
qed

text \<open>The start of a page's only chain is inside the page or at its end.\<close>

definition pageStartOk :: "memory \<Rightarrow> nat \<Rightarrow> nat \<Rightarrow> bool" where
  "pageStartOk m seg i \<longleftrightarrow>
     (let start = page_start m seg i in
      start \<noteq> DYLD_CHAINED_PTR_START_NONE \<longrightarrow>
      (if start AND DYLD_CHAINED_PTR_START_MULTI = 0 then start \<le> page_size m seg
       else \<exists>k. unat (start AND NOT DYLD_CHAINED_PTR_START_MULTI) \<le> k \<and>
              k \<le> Suc ((unat (starts_size m seg) - (22 + 2 * unat (page_count m seg))) div 2) \<and>
              page_start m seg k AND DYLD_CHAINED_PTR_START_LAST \<noteq> 0))"

lemma pageStarts_good:
  assumes run: "forStop (pageStartCheck m seg ((unat (starts_size m seg) - (22 + 2 * unat (page_count m seg))) div 2)) d is = Some (d', b)"
    and good: "noError d'"
  shows "\<not> b \<and> noError d \<and> (\<forall>i\<in>set is. pageStartOk m seg i)"
proof -
  note defs = pageStartCheck_def Let_def
  have mono: "noError d" if "pageStartCheck m seg k d i = Some (d', b)" and "noError d'" for k d i d' b
    using that by (auto simp: defs split: if_splits option.splits)
  have ok: "pageStartOk m seg i"
    if "pageStartCheck m seg ((unat (starts_size m seg) - (22 + 2 * unat (page_count m seg))) div 2) d i = Some (d', b)" and "noError d'" for d i d' b
    using that overflow_ends by (auto simp: defs pageStartOk_def split: if_splits option.splits)
  have "\<not> b \<and> (\<forall>i\<in>set is. pageStartOk m seg i)"
    using run good mono _ ok by (rule forStop_all_good) (auto simp: defs split: if_splits option.splits)
  moreover have "noError d" using run good mono by (rule forStop_good_start)
  ultimately show ?thesis by simp
qed

text \<open>What acceptance says about one segment; \<open>fmt\<close> is the format of all of them.\<close>

definition segmentOk :: "memory \<Rightarrow> segment_array \<Rightarrow> u64 \<Rightarrow> nat \<Rightarrow> nat \<Rightarrow> u16 \<Rightarrow> nat \<Rightarrow> bool" where
  "segmentOk m segs base starts endOfStarts fmt i \<longleftrightarrow>
     (let seg = starts + unat (seg_info_offset m starts i) in
      seg_info_offset m starts i \<noteq> 0 \<longrightarrow>
      seg + unat (starts_size m seg) \<le> endOfStarts \<and> 22 + 2 * unat (page_count m seg) \<le> unat (starts_size m seg) \<and>
      page_size m seg \<in> {0x1000, 0x4000} \<and> pointer_format m seg = fmt \<and> fmt \<le> 12 \<and>
      (\<exists>info. seg_at segs i = Some info \<and> segment_offset m seg = vmAddr info - base) \<and>
      (\<forall>p < unat (page_count m seg). pageStartOk m seg p))"

definition seenGood :: "u16 \<Rightarrow> chainsSeen \<Rightarrow> bool" where
  "seenGood fmt v \<longleftrightarrow> noError (chainsDiag v) \<and> (pointer_format_found v \<longrightarrow> pointer_format_for_all v = fmt)"

lemma chainsError_bad: "chainsError msg v = Some (v', b) \<Longrightarrow> \<not> noError (chainsDiag v')"
  by (auto simp: chainsError_def)

lemma segmentTable_good:
  assumes "segmentTableCheck m info base seg v = Some (v', b)" and "noError (chainsDiag v')"
  shows "\<not> b \<and> noError (chainsDiag v) \<and> pointer_format_found v' = pointer_format_found v \<and>
    pointer_format_for_all v' = pointer_format_for_all v \<and> segment_offset m seg = vmAddr info - base \<and>
    22 + 2 * unat (page_count m seg) \<le> unat (starts_size m seg) \<and> (\<forall>p < unat (page_count m seg). pageStartOk m seg p)"
  using assms pageStarts_good [of m seg _ "[0 ..< unat (page_count m seg)]"]
  by (fastforce simp: segmentTableCheck_def chainsError_def Let_def split: if_splits)

lemma segmentStarts_good:
  assumes run: "segmentStartsCheck m segs base starts endOfStarts v i = Some (v', b)" and good: "seenGood fmt v'"
  shows "\<not> b \<and> seenGood fmt v \<and> segmentOk m segs base starts endOfStarts fmt i"
proof (cases "seg_info_offset m starts i = 0")
  case True
  with run good show ?thesis by (simp add: segmentStartsCheck_def segmentOk_def)
next
  case False
  define seg where "seg = starts + unat (seg_info_offset m starts i)"
  define v1 where "v1 = (if pointer_format_found v then v
    else v\<lparr>pointer_format_for_all := pointer_format m seg, pointer_format_found := True\<rparr>)"
  have clean: "noError (chainsDiag v')" using good by (simp add: seenGood_def)
  have checks: "(if int (unat (starts_size m seg)) > int endOfStarts - int seg then
        chainsError ''chained fixups, dyld_chained_starts_in_segment for segment #%d overruns imports table'' v
      else if page_size m seg \<noteq> 0x1000 \<and> page_size m seg \<noteq> 0x4000 then
        chainsError ''chained fixups, page_size not 4KB or 16KB in segment #%d'' v
      else if pointer_format m seg > 12 then
        chainsError ''chained fixups, unknown pointer_format in segment #%d'' v
      else if pointer_format m seg \<noteq> pointer_format_for_all v1 then
        chainsError ''chained fixups, pointer_format not same for all segments %d and %d'' v1
      else Option.bind (seg_at segs i) (\<lambda>info. segmentTableCheck m info base seg v1)) = Some (v', b)"
    using run False unfolding segmentStartsCheck_def Let_def seg_def [symmetric] v1_def [symmetric] by simp
  then have sizes: "\<not> int (unat (starts_size m seg)) > int endOfStarts - int seg"
    "page_size m seg \<in> {0x1000, 0x4000}" "pointer_format m seg \<le> 12" "pointer_format m seg = pointer_format_for_all v1"
    using clean by (auto dest: chainsError_bad split: if_splits)
  with checks obtain info where info: "seg_at segs i = Some info"
    and table: "segmentTableCheck m info base seg v1 = Some (v', b)"
    by (auto simp: bind_eq_Some_conv split: if_splits)
  have "pointer_format_found v1" by (simp add: v1_def)
  then have fmt: "pointer_format_for_all v1 = fmt"
    using segmentTable_good [OF table clean] good by (simp add: seenGood_def)
  have "seg + unat (starts_size m seg) \<le> endOfStarts" using sizes(1) by linarith
  then show ?thesis
    using segmentTable_good [OF table clean] sizes(2-) info fmt False
    unfolding segmentOk_def seenGood_def Let_def seg_def [symmetric] by (auto simp: v1_def split: if_splits)
qed

lemma segment_starts_in:
  assumes ok: "segmentOk m segs base starts endOfStarts fmt i" and "seg_info_offset m starts i \<noteq> 0"
  shows "segmentStartsIn m (endOfStarts + 2) (starts + unat (seg_info_offset m starts i))"
proof -
  define seg where "seg = starts + unat (seg_info_offset m starts i)"
  from assms have seg: "seg + unat (starts_size m seg) \<le> endOfStarts" "22 + 2 * unat (page_count m seg) \<le> unat (starts_size m seg)"
    "\<forall>p < unat (page_count m seg). pageStartOk m seg p"
    by (auto simp: segmentOk_def Let_def seg_def)
  have "\<exists>k < endOfStarts + 2. unat (page_start m seg p AND NOT DYLD_CHAINED_PTR_START_MULTI) \<le> k \<and> seg + 24 + 2 * k \<le> endOfStarts + 2 \<and>
      page_start m seg k AND DYLD_CHAINED_PTR_START_LAST \<noteq> 0"
    if p: "p < unat (page_count m seg)" "page_start m seg p \<noteq> DYLD_CHAINED_PTR_START_NONE"
      "page_start m seg p AND DYLD_CHAINED_PTR_START_MULTI \<noteq> 0" for p
  proof -
    from seg(3) p(1) have "pageStartOk m seg p" by simp
    with p(2,3) obtain k where k: "unat (page_start m seg p AND NOT DYLD_CHAINED_PTR_START_MULTI) \<le> k"
      "k \<le> Suc ((unat (starts_size m seg) - (22 + 2 * unat (page_count m seg))) div 2)"
      "page_start m seg k AND DYLD_CHAINED_PTR_START_LAST \<noteq> 0"
      by (auto simp: pageStartOk_def Let_def)
    have "2 * k \<le> 2 + (unat (starts_size m seg) - (22 + 2 * unat (page_count m seg)))" using k(2) by simp
    then have "seg + 24 + 2 * k \<le> endOfStarts + 2" using seg(1,2) p(1) by linarith
    with k show ?thesis by (intro exI [of _ k]) auto
  qed
  then show ?thesis using seg(1,2) unfolding segmentStartsIn_def Let_def seg_def [symmetric] by auto
qed

lemma chains_walk_good:
  assumes "forStop (segmentStartsCheck m segs base starts endOfStarts) v is = Some (v', b)" and "noError (chainsDiag v')"
  shows "\<forall>i\<in>set is. segmentOk m segs base starts endOfStarts (pointer_format_for_all v') i"
proof -
  have "\<not> b \<and> (\<forall>i\<in>set is. segmentOk m segs base starts endOfStarts (pointer_format_for_all v') i)"
    using assms(1)
  proof (rule forStop_all_good [where good = "seenGood (pointer_format_for_all v')"])
    show "seenGood (pointer_format_for_all v') v'" using assms(2) by (simp add: seenGood_def)
    show "seenGood (pointer_format_for_all v') u"
      if "segmentStartsCheck m segs base starts endOfStarts u i = Some (u', c)" and "seenGood (pointer_format_for_all v') u'" for u i u' c
      using segmentStarts_good [OF that] by simp
    show "\<not> seenGood (pointer_format_for_all v') u'"
      if "segmentStartsCheck m segs base starts endOfStarts u i = Some (u', True)" for u i u'
      using segmentStarts_good [OF that] by blast
    show "segmentOk m segs base starts endOfStarts (pointer_format_for_all v') i"
      if "segmentStartsCheck m segs base starts endOfStarts u i = Some (u', c)" and "seenGood (pointer_format_for_all v') u'" for u i u' c
      using segmentStarts_good [OF that] by simp
  qed
  then show ?thesis by simp
qed

text \<open>The product of entry size and count does not wrap for a count a pointer's ordinal can reach.\<close>

lemma imports_fit:
  assumes "chainsHeaderError m h datasize = None" and "imports_count m h = 0 \<or> imports_count m h < maxBindOrdinal fmt"
  shows "\<exists>entrySize. formatEntrySize (imports_format m h) = Some entrySize \<and>
    unat (imports_offset m h) + unat entrySize * unat (imports_count m h) \<le> unat (symbols_offset m h)"
proof -
  from assms(1) obtain entrySize where entrySize: "formatEntrySize (imports_format m h) = Some entrySize"
    and "\<not> greaterThanAddOrOverflow (imports_offset m h) (entrySize * imports_count m h) (symbols_offset m h)"
    by (auto simp: chainsHeaderError_def split: if_splits option.splits)
  then have sum: "unat (imports_offset m h) + unat (entrySize * imports_count m h) \<le> unat (symbols_offset m h)"
    by (simp add: greaterThanAddOrOverflow_iff)
  have "imports_count m h < 0x1000000"
  proof -
    have "maxBindOrdinal fmt < 0x1000000" by (simp add: maxBindOrdinal_def)
    then show ?thesis using assms(2) by (auto intro: less_trans)
  qed
  then have small: "unat (imports_count m h) < 0x1000000" by (simp add: word_less_nat_alt)
  have "unat entrySize \<le> 16" using entrySize by (auto simp: formatEntrySize_def split: if_splits)
  with small have "unat entrySize * unat (imports_count m h) < 2 ^ 32"
    using mult_le_mono [of "unat entrySize" 16 "unat (imports_count m h)" "0xFFFFFF"] by simp
  then have "unat (entrySize * imports_count m h) = unat entrySize * unat (imports_count m h)"
    by (simp add: unat_word_ariths)
  with sum entrySize show ?thesis by simp
qed

text \<open>The array of segments holds each segment of the file at that segment's own index.\<close>

lemma getAllSegmentsInfos_index:
  assumes "getAllSegmentsInfos m (replicate n None) = Some segs"
  shows "\<forall>i seg. seg_at segs i = Some seg \<longrightarrow> seg \<in> set (segments m) \<and> unat (segIndex seg) = i"
  using assms unfolding getAllSegmentsInfos_def
  by (rule segs.walk_invariant) (auto simp: seg_at_def nth_list_update split: if_splits)


text \<open>A dylib whose text segment has one page with a chain, and no imports.\<close>

definition chained_dylib :: memory where
  "chained_dylib = mem_words
     [0xFEEDFACF, 0x01000007, 3, 6, 3, 160, 0x80, 0,
      0x19, 72, 0x45545F5F, 0x00005458, 0, 0, 0, 0, 0xC0, 0, 0, 0, 0xC0, 0, 5, 5, 0, 0,
      0x19, 72, 0x494C5F5F, 0x44454B4E, 0x00005449, 0, 0xC0, 0, 0x1000, 0, 0xC0, 0, 0x40, 0, 1, 1, 0, 0,
      0x80000034, 16, 0xC0, 64,
      0, 28, 64, 64, 0, 1, 0, 2, 12, 0, 24, 0x21000, 0, 0, 0, 0x00100001]"

lemma chained_dylib_list: "load_commands chained_dylib = [32, 104, 176]" "\<not> malformed_commands chained_dylib"
  "snd (load_commands_diag chained_dylib) = None"
  by (simp_all add: chained_dylib_def walk_eval)

lemma chained_dylib_cmds: "lc_cmd chained_dylib 32 = LC_SEGMENT_64" "lc_cmd chained_dylib 104 = LC_SEGMENT_64"
  "lc_cmd chained_dylib 176 = LC_DYLD_CHAINED_FIXUPS" "lc_cmdsize chained_dylib 176 = 16"
  "read32 chained_dylib 96 = 0" "read32 chained_dylib 168 = 0" "read32 chained_dylib 184 = 0xC0" "read32 chained_dylib 188 = 64"
  by (simp_all add: chained_dylib_def walk_eval)

lemma chained_dylib_names: "strcmp_eq chained_dylib 40 ''__TEXT''" "\<not> strcmp_eq chained_dylib 112 ''__TEXT''"
  "strcmp_eq chained_dylib 112 ''__LINKEDIT''" "\<not> strcmp_eq chained_dylib 40 ''__LINKEDIT''"
  by (simp_all add: strcmp_eq_def chained_dylib_def mem_words_def of_char_def)

lemma chained_dylib_payload:
  "fixups_version chained_dylib 192 = 0" "starts_offset chained_dylib 192 = 28" "imports_offset chained_dylib 192 = 64"
  "symbols_offset chained_dylib 192 = 64" "imports_count chained_dylib 192 = 0" "imports_format chained_dylib 192 = 1"
  "symbols_format chained_dylib 192 = 0" "seg_count chained_dylib 220 = 2" "seg_info_offset chained_dylib 220 0 = 12"
  "seg_info_offset chained_dylib 220 1 = 0" "starts_size chained_dylib 232 = 24" "segment_offset chained_dylib 232 = 0"
  "max_valid_pointer chained_dylib 232 = 0" "pointer_format chained_dylib 232 = 2" "page_size chained_dylib 232 = 0x1000"
  "page_count chained_dylib 232 = 1" "page_start chained_dylib 232 0 = 0x10"
proof -
  have sixteen: "read16 m p = ucast (m p) + 256 * ucast (m (p + 1))" for m p
    by (simp add: read16_def numeral_2_eq_2)
  show "fixups_version chained_dylib 192 = 0" "starts_offset chained_dylib 192 = 28" "imports_offset chained_dylib 192 = 64"
    "symbols_offset chained_dylib 192 = 64" "imports_count chained_dylib 192 = 0" "imports_format chained_dylib 192 = 1"
    "symbols_format chained_dylib 192 = 0" "seg_count chained_dylib 220 = 2" "seg_info_offset chained_dylib 220 0 = 12"
    "seg_info_offset chained_dylib 220 1 = 0" "starts_size chained_dylib 232 = 24" "segment_offset chained_dylib 232 = 0"
    "max_valid_pointer chained_dylib 232 = 0"
    by (simp_all add: chained_dylib_def read32_mem_words read64_halves fixups_version_def starts_offset_def imports_offset_def
        symbols_offset_def imports_count_def imports_format_def symbols_format_def seg_count_def seg_info_offset_def
        starts_size_def segment_offset_def max_valid_pointer_def)
  show "pointer_format chained_dylib 232 = 2" "page_size chained_dylib 232 = 0x1000"
    "page_count chained_dylib 232 = 1" "page_start chained_dylib 232 0 = 0x10"
    by (simp_all add: chained_dylib_def mem_words_def sixteen pointer_format_def page_size_def page_count_def page_start_def)
qed

lemma chained_dylib_commands: "getLinkEditLoadCommands chained_dylib None =
    Some (no_commands\<lparr>le_chainedFixups := Some 176\<rparr>, None)"
  by (simp add: getLinkEditLoadCommands_def walkDiag_def forEachLoadCommand_list chained_dylib_list linkedit_step_def
      chained_dylib_cmds once_of_size_def no_commands_def diag_defs)

lemmas chained_dylib_segments = segs.walk_fold segs.walk_find chained_dylib_list segments_def segment_commands_def
  is_segment_command_def chained_dylib_cmds segment_info_def segment_info64_def section_scan64_def sections64_def Let_def

lemma chained_dylib_layout:
  "\<exists>l. getLayoutInfo chained_dylib 0 uninit = Some l \<and> linkeditFileOffset l = 0xC0 \<and> linkeditUnslidVMAddr l = 0xC0 \<and>
     li_slide l = 0 \<and> linkeditSegIndex l = 1 \<and> lastSegIndex l = 1"
proof -
  have "read64 chained_dylib 144 = 0xC0" "read64 chained_dylib 128 = 0xC0" "read64 chained_dylib 56 = 0"
    by (simp_all add: chained_dylib_def walk_eval)
  then show ?thesis
    by (simp add: getLayoutInfo_def chained_dylib_segments chained_dylib_names layout_of_segment_def)
qed

lemma chained_dylib_infos:
  "\<exists>segs info. getAllSegmentsInfos chained_dylib (replicate 2 None) = Some segs \<and> seg_at segs 0 = Some info \<and> vmAddr info = 0"
proof -
  have "read64 chained_dylib 56 = 0" by (simp add: chained_dylib_def walk_eval)
  moreover have "replicate 2 (None :: SegmentInfo option) = [None, None]" by (simp add: numeral_2_eq_2)
  ultimately show ?thesis
    by (simp add: getAllSegmentsInfos_def segs.walk_items chained_dylib_segments seg_at_def)
qed

lemma chained_dylib_base: "preferredLoadAddress chained_dylib = Some 0"
proof -
  have "read64 chained_dylib 56 = 0" by (simp add: chained_dylib_def walk_eval)
  then show ?thesis
    by (simp add: preferredLoadAddress_def segs.walk_items chained_dylib_segments chained_dylib_names)
qed

lemma chained_dylib_valid: "validChainedFixupsInfo chained_dylib 0 uninit None = Some (True, None)"
proof -
  obtain l where l: "getLayoutInfo chained_dylib 0 uninit = Some l" "linkeditFileOffset l = 0xC0" "linkeditUnslidVMAddr l = 0xC0"
    "li_slide l = 0" "linkeditSegIndex l = 1" "lastSegIndex l = 1"
    using chained_dylib_layout by blast
  obtain segs info where segs: "getAllSegmentsInfos chained_dylib (replicate 2 None) = Some segs"
    "seg_at segs 0 = Some info" "vmAddr info = 0"
    using chained_dylib_infos by blast
  have "getLinkEditPointers chained_dylib 0 uninit None =
      Some (\<lparr>leCommands = no_commands\<lparr>le_chainedFixups := Some 176\<rparr>, layout = l\<rparr>, None)"
    by (simp add: getLinkEditPointers_def chained_dylib_commands l)
  moreover have "chainsHeaderError chained_dylib 192 64 = None"
    by (simp add: chainsHeaderError_def chained_dylib_payload formatEntrySize_def import_formats greaterThanAddOrOverflow_def)
  moreover have "segCountError segs l 2 = Some None" by (simp add: segCountError_def l)
  moreover have "segmentStartsCheck chained_dylib segs 0 220 256
      \<lparr>maxValidPointerSeen = 0, pointer_format_for_all = 0, pointer_format_found = False, chainsDiag = None\<rparr> 0 =
      Some (\<lparr>maxValidPointerSeen = 0, pointer_format_for_all = 2, pointer_format_found = True, chainsDiag = None\<rparr>, False)"
    using segs(2,3)
    by (simp add: segmentStartsCheck_def segmentTableCheck_def pageStartCheck_def chained_dylib_payload chain_start_consts Let_def)
  moreover have "segmentStartsCheck chained_dylib segs 0 220 256 v (Suc 0) = Some (v, False)" for v
    using chained_dylib_payload(10) by (simp add: segmentStartsCheck_def)
  ultimately show ?thesis
    by (simp add: validChainedFixupsInfo_def validChainsAt_def chainsEndError_def content_at_def getLinkEditContent_def l
        segs chained_dylib_cmds chained_dylib_payload chained_dylib_base upt_rec hasError_def Let_def)
qed


end
