(* ===== verification/Chained_Targets.thy ===== *)
theory Chained_Targets
  imports Chained_Validate Symbol_Lookup
begin

text \<open>
  The targets of chained fixups (\<open>src/dyld3/MachOAnalyzer.cpp\<close>): the opcodes of the first arm64e
  format (\<open>parseOrgArm64eChainedFixups\<close>), their check \<open>validChainedFixupsInfoOldArm64e\<close>, and
  \<open>forEachChainedFixupTarget\<close> with its three import formats. A C \<open>int\<close> is an \<open>int\<close>, a symbol name
  the offset of its string (\<open>None\<close> for \<open>NULL\<close>); \<open>lim\<close> is the end of the mapped memory, past which
  the scan for the end of a name faults (\<open>None\<close>).
\<close>

section \<open>The opcodes of the first arm64e format\<close>

record bindTarget =
  bt_libraryOrdinalSet :: bool
  bt_dylibCount :: u32
  bt_libOrdinal :: int
  bt_type :: u8
  bt_symbolName :: "nat option"
  bt_addend :: u64
  bt_weakImport :: bool

record chainStart =
  cs_segmentIndex :: u8
  cs_segIndexSet :: bool
  cs_segmentOffset :: u64

text \<open>A null block is one that does nothing.\<close>

definition null_block :: "('s, 'a) diag_block" where
  "null_block s x = Some (s, False)"

record 's threaded_state =
  th_type :: u8
  th_segmentOffset :: u64
  th_segmentIndex :: u8
  th_symbolName :: "nat option"
  th_libraryOrdinal :: int
  th_segIndexSet :: bool
  th_libraryOrdinalSet :: bool
  th_addend :: u64
  th_weakImport :: bool
  th_p :: nat
  th_stop :: bool
  th_s :: "'s \<times> diag"

definition threaded_start :: "nat \<Rightarrow> 's \<times> diag \<Rightarrow> 's threaded_state" where
  "threaded_start p s =
     \<lparr>th_type = 0, th_segmentOffset = 0, th_segmentIndex = 0, th_symbolName = None, th_libraryOrdinal = 0,
      th_segIndexSet = False, th_libraryOrdinalSet = False, th_addend = 0, th_weakImport = False,
      th_p = p, th_stop = False, th_s = s\<rparr>"

definition th_uleb :: "memory \<Rightarrow> nat \<Rightarrow> 's threaded_state \<Rightarrow> u64 \<times> 's threaded_state" where
  "th_uleb m e st =
     (let (v, p, d) = read_uleb128 m (th_p st) e
      in (v, st\<lparr>th_p := p, th_s := (fst (th_s st), then_diag (snd (th_s st)) d)\<rparr>))"

definition th_error :: "string \<Rightarrow> 's threaded_state \<Rightarrow> 's threaded_state" where
  "th_error msg st = st\<lparr>th_s := (fst (th_s st), error msg (snd (th_s st)))\<rparr>"

definition th_call :: "('s, 'a) diag_block \<Rightarrow> 'a \<Rightarrow> 's threaded_state \<Rightarrow> 's threaded_state option" where
  "th_call block x st = map_option (\<lambda>(s, stop). st\<lparr>th_s := s, th_stop := stop\<rparr>) (block (th_s st) x)"

text \<open>The operand of \<open>BIND_OPCODE_SET_DYLIB_SPECIAL_IMM\<close>: \<open>0xF0 | immediate\<close> as a signed byte.\<close>

definition specialOrdinal :: "u8 \<Rightarrow> int" where
  "specialOrdinal immediate = (if immediate = 0 then 0 else sint (0xF0 OR immediate))"

text \<open>The sub-opcodes of \<open>BIND_OPCODE_THREADED\<close>.\<close>

definition threaded_sub ::
    "memory \<Rightarrow> nat \<Rightarrow> ('s, u32) diag_block \<Rightarrow> ('s, chainStart) diag_block \<Rightarrow> u8 \<Rightarrow> 's threaded_state \<Rightarrow> 's threaded_state option" where
  "threaded_sub m e targetCount addChainStart immediate st =
     (if immediate = 0 then
        (let (targetTableCount, st') = th_uleb m e st
         in if targetTableCount > 65535 then
              Some ((th_error ''BIND_SUBOPCODE_THREADED_SET_BIND_ORDINAL_TABLE_SIZE_ULEB size too large'' st')\<lparr>th_stop := True\<rparr>)
            else th_call targetCount (ucast targetTableCount) st')
      else if immediate = 1 then
        th_call addChainStart
          \<lparr>cs_segmentIndex = th_segmentIndex st, cs_segIndexSet = th_segIndexSet st, cs_segmentOffset = th_segmentOffset st\<rparr> st
      else Some (th_error ''bad BIND_OPCODE_THREADED sub-opcode 0x%02X'' st))"

text \<open>One iteration of the \<open>while\<close> loop. The scan for the end of a symbol name is not bounded by \<open>end\<close>.\<close>

definition threaded_step ::
    "memory \<Rightarrow> nat \<Rightarrow> nat \<Rightarrow> u32 \<Rightarrow> ('s, u32) diag_block \<Rightarrow> ('s, bindTarget) diag_block \<Rightarrow> ('s, chainStart) diag_block \<Rightarrow>
     's threaded_state \<Rightarrow> 's threaded_state option" where
  "threaded_step m lim e dylibCount targetCount addTarget addChainStart st0 =
     (let immediate = m (th_p st0) AND 0x0F; opcode = m (th_p st0) AND 0xF0; st = st0\<lparr>th_p := th_p st0 + 1\<rparr>
      in if opcode = 0x00 then Some (st\<lparr>th_stop := True\<rparr>)
         else if opcode = 0x10 then Some (st\<lparr>th_libraryOrdinal := int (unat immediate), th_libraryOrdinalSet := True\<rparr>)
         else if opcode = 0x20 then
           (let (v, st') = th_uleb m e st
            in Some (st'\<lparr>th_libraryOrdinal := sint (ucast v :: u32), th_libraryOrdinalSet := True\<rparr>))
         else if opcode = 0x30 then Some (st\<lparr>th_libraryOrdinal := specialOrdinal immediate, th_libraryOrdinalSet := True\<rparr>)
         else if opcode = 0x40 then
           map_option (\<lambda>nul. st\<lparr>th_weakImport := immediate AND 1 \<noteq> 0, th_symbolName := Some (th_p st), th_p := nul + 1\<rparr>)
             (find_nul m (th_p st) lim)
         else if opcode = 0x50 then Some (st\<lparr>th_type := immediate\<rparr>)
         else if opcode = 0x70 then
           (let (v, st') = th_uleb m e (st\<lparr>th_segmentIndex := immediate\<rparr>)
            in Some (st'\<lparr>th_segmentOffset := v, th_segIndexSet := True\<rparr>))
         else if opcode = 0x60 then
           map_option (\<lambda>(v, p, d). st\<lparr>th_addend := v, th_p := p, th_s := (fst (th_s st), then_diag (snd (th_s st)) d)\<rparr>)
             (read_sleb128 m (th_p st) e)
         else if opcode = 0x90 then
           th_call addTarget
             \<lparr>bt_libraryOrdinalSet = th_libraryOrdinalSet st, bt_dylibCount = dylibCount, bt_libOrdinal = th_libraryOrdinal st,
              bt_type = th_type st, bt_symbolName = th_symbolName st, bt_addend = th_addend st,
              bt_weakImport = th_weakImport st\<rparr> st
         else if opcode = 0xD0 then threaded_sub m e targetCount addChainStart immediate st
         else Some (th_error ''bad bind opcode 0x%02X'' st))"

lemma th_uleb_pos: "th_p st \<le> e \<Longrightarrow> th_p st \<le> th_p (snd (th_uleb m e st))"
proof -
  assume le: "th_p st \<le> e"
  obtain v q d where run: "uleb_loop m e (th_p st) 0 0 = (v, q, d)" by (metis prod_cases3)
  from uleb_loop_bounds [OF this le, of m] show ?thesis by (simp add: th_uleb_def read_uleb128_def run)
qed

lemma sleb_loop_pos: "sleb_loop m e p sh b r = Some (v, q, sh', b', d) \<Longrightarrow> p \<le> q"
proof (induction m e p sh b r rule: sleb_loop.induct)
  case (1 m e p sh b r)
  then show ?case
    by (subst (asm) (2) sleb_loop.simps) (auto simp: Let_def split: if_splits dest: Suc_leD)
qed

lemma th_call_pos: "th_call block x st = Some st' \<Longrightarrow> th_p st' = th_p st"
  by (auto simp: th_call_def)

lemma threaded_step_pos:
  assumes "threaded_step m lim e n cnt target start st = Some st'" and "th_p st < e"
  shows "th_p st < th_p st'"
proof -
  have uleb: "th_p st < th_p (snd (th_uleb m e s))" if "th_p s = Suc (th_p st)" for s :: "'a threaded_state"
    using th_uleb_pos [of s e m] that assms(2) by simp
  have sub: "th_p st < th_p st'" if "threaded_sub m e cnt start imm s = Some st'" and "th_p s = Suc (th_p st)" for imm s
    using that uleb [OF that(2)]
    by (auto simp: threaded_sub_def th_error_def case_prod_beta Let_def split: if_splits dest!: th_call_pos)
  show ?thesis
    using assms(1) uleb find_nul_Some sub
    unfolding threaded_step_def Let_def
    by (auto simp: case_prod_beta th_error_def read_sleb128_def bind_eq_Some_conv split: if_splits
        dest!: th_call_pos sleb_loop_pos; fastforce dest: find_nul_Some)
qed

function threaded_loop ::
    "memory \<Rightarrow> nat \<Rightarrow> nat \<Rightarrow> u32 \<Rightarrow> ('s, u32) diag_block \<Rightarrow> ('s, bindTarget) diag_block \<Rightarrow> ('s, chainStart) diag_block \<Rightarrow>
     's threaded_state \<Rightarrow> 's threaded_state option" where
  "threaded_loop m lim e dylibCount targetCount addTarget addChainStart st =
     (if \<not> th_stop st \<and> noError (snd (th_s st)) \<and> th_p st < e
      then Option.bind (threaded_step m lim e dylibCount targetCount addTarget addChainStart st)
             (threaded_loop m lim e dylibCount targetCount addTarget addChainStart)
      else Some st)"
  by pat_completeness auto
termination
  by (relation "measure (\<lambda>(m, lim, e, n, cnt, target, start, st). e - th_p st)") (auto dest: threaded_step_pos)

declare threaded_loop.simps [simp del]

text \<open>The blocks are also given \<open>leInfo\<close> and the segments.\<close>

definition parseOrgArm64eChainedFixups ::
    "memory \<Rightarrow> nat \<Rightarrow> u64 \<Rightarrow> LayoutInfo \<Rightarrow> ('s, u32) diag_block \<Rightarrow>
     (LinkEditInfo \<Rightarrow> segment_array \<Rightarrow> ('s, bindTarget) diag_block) \<Rightarrow>
     (LinkEditInfo \<Rightarrow> segment_array \<Rightarrow> ('s, chainStart) diag_block) \<Rightarrow> 's \<times> diag \<Rightarrow> ('s \<times> diag) option" where
  "parseOrgArm64eChainedFixups m lim loadAddr uninit targetCount addTarget addChainStart s =
     Option.bind (getLinkEditPointers m loadAddr uninit (snd s)) (\<lambda>(leInfo, d).
     if hasError d then Some (fst s, d)
     else
       Option.bind (getAllSegmentsInfos m (replicate (unat (lastSegIndex (layout leInfo) + 1)) None)) (\<lambda>segs.
       Option.bind (dependentDylibCount m) (\<lambda>dylibCount.
       case le_dyldInfo (leCommands leInfo) of
         None \<Rightarrow> Some (fst s, d)
       | Some c \<Rightarrow>
           let p = content_at loadAddr (layout leInfo) (read32 m (c + 16))
           in map_option th_s
                (threaded_loop m lim (p + unat (read32 m (c + 20))) dylibCount targetCount (addTarget leInfo segs)
                   (addChainStart leInfo segs) (threaded_start p (fst s, d))))))"

section \<open>Checking the first arm64e format\<close>

definition BIND_SPECIAL_DYLIB_WEAK_LOOKUP :: int where "BIND_SPECIAL_DYLIB_WEAK_LOOKUP = -3"
definition BIND_TYPE_POINTER :: u8 where "BIND_TYPE_POINTER = 1"

text \<open>The captured variables \<open>maxTargetCount\<close> and \<open>currentTargetCount\<close>.\<close>

type_synonym target_counts = "u32 \<times> u32"

definition maxTargetBlock :: "(target_counts, u32) diag_block" where
  "maxTargetBlock s totalTargets = (case s of ((maxTargetCount, currentTargetCount), d) \<Rightarrow>
     Some (((totalTargets, currentTargetCount), d), False))"

definition targetError :: "u32 \<Rightarrow> u32 \<Rightarrow> bindTarget \<Rightarrow> string option" where
  "targetError maxTargetCount currentTargetCount t =
     (if bt_symbolName t = None then Some ''in '%s' missing BIND_OPCODE_SET_SYMBOL_TRAILING_FLAGS_IMM''
      else if \<not> bt_libraryOrdinalSet t then Some ''in '%s' missing BIND_OPCODE_SET_DYLIB_ORDINAL''
      else if bt_libOrdinal t > sint (bt_dylibCount t) then Some ''in '%s' has library ordinal too large (%d) max (%d)''
      else if bt_libOrdinal t < BIND_SPECIAL_DYLIB_WEAK_LOOKUP then Some ''in '%s' has unknown library special ordinal (%d)''
      else if bt_type t \<noteq> BIND_TYPE_POINTER then Some ''in '%s' unknown bind type %d''
      else if currentTargetCount > maxTargetCount then
        Some ''in '%s' chained target counts exceeds BIND_SUBOPCODE_THREADED_SET_BIND_ORDINAL_TABLE_SIZE_ULEB''
      else None)"

text \<open>The diagnostics after a check, which stops the loop when they hold an error.\<close>

definition checked :: "'s \<Rightarrow> string option \<Rightarrow> diag \<Rightarrow> (('s \<times> diag) \<times> bool) option" where
  "checked s e d = (let d' = then_diag d e in Some ((s, d'), hasError d'))"

definition targetBlock :: "(target_counts, bindTarget) diag_block" where
  "targetBlock s t = (case s of ((maxTargetCount, currentTargetCount), d) \<Rightarrow>
     checked (maxTargetCount, currentTargetCount + 1) (targetError maxTargetCount currentTargetCount t) d)"

definition chainStartError :: "LinkEditInfo \<Rightarrow> segment_array \<Rightarrow> chainStart \<Rightarrow> string option option" where
  "chainStartError leInfo segs c =
     (if \<not> cs_segIndexSet c then Some (Some ''in '%s' missing BIND_OPCODE_SET_SEGMENT_AND_OFFSET_ULEB'')
      else if ucast (cs_segmentIndex c) \<ge> linkeditSegIndex (layout leInfo) then Some (Some ''in '%s' segment index %d too large'')
      else map_option (\<lambda>seg.
        if cs_segmentOffset c > vmSize seg - 8 then
          Some ''in '%s' current segment offset 0x%08llX beyond segment size (0x%08llX)''
        else if \<not> seg_writable seg then Some ''in '%s' pointer bind is in non-writable segment''
        else if seg_executable seg then Some ''in '%s' pointer bind is in executable segment''
        else None) (seg_at segs (unat (cs_segmentIndex c))))"

definition chainStartBlock :: "LinkEditInfo \<Rightarrow> segment_array \<Rightarrow> (target_counts, chainStart) diag_block" where
  "chainStartBlock leInfo segs s c = Option.bind (chainStartError leInfo segs c) (\<lambda>e. checked (fst s) e (snd s))"

definition validChainedFixupsInfoOldArm64e :: "memory \<Rightarrow> nat \<Rightarrow> u64 \<Rightarrow> LayoutInfo \<Rightarrow> diag \<Rightarrow> (bool \<times> diag) option" where
  "validChainedFixupsInfoOldArm64e m lim loadAddr uninit d =
     map_option (\<lambda>(_, d'). (noError d', d'))
       (parseOrgArm64eChainedFixups m lim loadAddr uninit maxTargetBlock (\<lambda>_ _. targetBlock) chainStartBlock ((0, 0), d))"

section \<open>The targets of an image\<close>

record fixupTarget =
  ft_libOrdinal :: int
  ft_symbolName :: "nat option"
  ft_addend :: u64
  ft_weakImport :: bool

text \<open>Large values of \<open>lib_ordinal\<close> are the negative special ordinals.\<close>

definition ordinal8 :: "u8 \<Rightarrow> int" where
  "ordinal8 libVal = (if libVal > 0xF0 then sint libVal else int (unat libVal))"

definition ordinal16 :: "u16 \<Rightarrow> int" where
  "ordinal16 libVal = (if libVal > 0xFFF0 then sint libVal else int (unat libVal))"

text \<open>The fields of entry \<open>i\<close> of the imports: name offset, ordinal, addend and weak import.\<close>

definition importEntry :: "memory \<Rightarrow> u32 \<Rightarrow> nat \<Rightarrow> nat \<Rightarrow> u32 \<times> int \<times> u64 \<times> bool" where
  "importEntry m fmt imports i =
     (if fmt = DYLD_CHAINED_IMPORT then
        let w = read32 m (imports + 4 * i) in (bits 9 23 w, ordinal8 (ucast w), 0, bit w 8)
      else if fmt = DYLD_CHAINED_IMPORT_ADDEND then
        let w = read32 m (imports + 8 * i) in (bits 9 23 w, ordinal8 (ucast w), scast (read32 m (imports + 8 * i + 4)), bit w 8)
      else
        let w = read64 m (imports + 16 * i) in (ucast (bits 32 32 w), ordinal16 (ucast w), read64 m (imports + 16 * i + 8), bit w 16))"

text \<open>One iteration of the loop over the imports, the same for the three formats.\<close>

definition importBlock ::
    "memory \<Rightarrow> nat \<Rightarrow> u32 \<Rightarrow> ('s, fixupTarget) diag_block \<Rightarrow> ('s, nat) diag_block" where
  "importBlock m header maxSymbolOffset callback s i =
     (case importEntry m (imports_format m header) (header + unat (imports_offset m header)) i of
        (name_offset, libOrdinal, addend, weak_import) \<Rightarrow>
          if name_offset > maxSymbolOffset then
            Some ((fst s, error ''malformed import table, string overflow'' (snd s)), True)
          else callback s
            \<lparr>ft_libOrdinal = libOrdinal, ft_symbolName = Some (header + unat (symbols_offset m header) + unat name_offset),
             ft_addend = addend, ft_weakImport = weak_import\<rparr>)"

definition forEachImport :: "memory \<Rightarrow> nat \<Rightarrow> u32 \<Rightarrow> ('s, fixupTarget) diag_block \<Rightarrow> 's \<times> diag \<Rightarrow> ('s \<times> diag) option" where
  "forEachImport m header datasize callback s =
     (if imports_offset m header > datasize \<or> symbols_offset m header > datasize then
        Some (fst s, error ''malformed import table'' (snd s))
      else if imports_format m header \<in> {DYLD_CHAINED_IMPORT, DYLD_CHAINED_IMPORT_ADDEND, DYLD_CHAINED_IMPORT_ADDEND64} then
        map_option fst (forStop (importBlock m header (datasize - symbols_offset m header) callback)
          s [0 ..< unat (imports_count m header)])
      else Some (fst s, error ''unknown imports format'' (snd s)))"

definition forEachChainedFixupTarget ::
    "memory \<Rightarrow> nat \<Rightarrow> u64 \<Rightarrow> LayoutInfo \<Rightarrow> ('s, fixupTarget) diag_block \<Rightarrow> 's \<times> diag \<Rightarrow> ('s \<times> diag) option" where
  "forEachChainedFixupTarget m lim loadAddr uninit callback s =
     Option.bind (getLinkEditPointers m loadAddr uninit (snd s)) (\<lambda>(leInfo, d).
     if hasError d then Some (fst s, d)
     else
       Option.bind (getAllSegmentsInfos m (replicate (unat (lastSegIndex (layout leInfo) + 1)) None)) (\<lambda>segs.
       case le_dyldInfo (leCommands leInfo) of
         Some _ \<Rightarrow>
           parseOrgArm64eChainedFixups m lim loadAddr uninit null_block
             (\<lambda>_ _ s t. callback s \<lparr>ft_libOrdinal = bt_libOrdinal t, ft_symbolName = bt_symbolName t,
                                     ft_addend = bt_addend t, ft_weakImport = bt_weakImport t\<rparr>)
             (\<lambda>_ _. null_block) (fst s, d)
       | None \<Rightarrow>
           (case le_chainedFixups (leCommands leInfo) of
              Some c \<Rightarrow>
                forEachImport m (content_at loadAddr (layout leInfo) (read32 m (c + 8))) (read32 m (c + 12)) callback (fst s, d)
            | None \<Rightarrow> Some (fst s, d))))"

section \<open>Encoded import tables\<close>

text \<open>An import as the static linker is given it, and the fields it writes for it.\<close>

record importSpec =
  imp_ordinal :: int
  imp_weak :: bool
  imp_name :: u32
  imp_addend :: u64

definition importWord :: "importSpec \<Rightarrow> u32" where
  "importWord t = (if imp_weak t then set_bit 8 else id) (take_bit 8 (of_int (imp_ordinal t)) OR push_bit 9 (take_bit 23 (imp_name t)))"

definition importWord64 :: "importSpec \<Rightarrow> u64" where
  "importWord64 t = (if imp_weak t then set_bit 16 else id) (take_bit 16 (of_int (imp_ordinal t)) OR push_bit 32 (ucast (imp_name t)))"

definition importAt :: "memory \<Rightarrow> u32 \<Rightarrow> nat \<Rightarrow> nat \<Rightarrow> importSpec \<Rightarrow> bool" where
  "importAt m fmt imports i t \<longleftrightarrow>
     (if fmt = DYLD_CHAINED_IMPORT then read32 m (imports + 4 * i) = importWord t \<and> imp_addend t = 0
      else if fmt = DYLD_CHAINED_IMPORT_ADDEND then
        read32 m (imports + 8 * i) = importWord t \<and> scast (read32 m (imports + 8 * i + 4)) = imp_addend t
      else read64 m (imports + 16 * i) = importWord64 t \<and> read64 m (imports + 16 * i + 8) = imp_addend t)"

text \<open>Ordinals the format can hold: up to \<open>0xF0\<close> or \<open>0xFFF0\<close>, and the fifteen special ones.\<close>

definition importable :: "u32 \<Rightarrow> importSpec \<Rightarrow> bool" where
  "importable fmt t \<longleftrightarrow> -15 \<le> imp_ordinal t \<and>
     (if fmt = DYLD_CHAINED_IMPORT_ADDEND64 then imp_ordinal t \<le> 0xFFF0
      else imp_ordinal t \<le> 0xF0 \<and> imp_name t < 0x800000)"

text \<open>A small negative number is read back with its sign, a small positive one as it is.\<close>

lemma small_signed:
  assumes "-15 \<le> k" and "k < 0"
  shows "take_bit 8 k = k + 256" and "sint (of_int k :: u8) = k"
    and "take_bit 16 k = k + 65536" and "sint (of_int k :: u16) = k"
proof -
  have "(k + 256) mod 256 = k + 256" and "(k + 65536) mod 65536 = k + 65536"
    using assms by (intro mod_pos_pos_trivial; simp)+
  then show "take_bit 8 k = k + 256" and "take_bit 16 k = k + 65536"
    by (simp_all add: take_bit_eq_mod)
  show "sint (of_int k :: u8) = k" and "sint (of_int k :: u16) = k"
    using assms by (simp_all add: signed_of_int signed_take_bit_int_eq_self)
qed

lemma ordinal8_of_int: "-15 \<le> k \<Longrightarrow> k \<le> 0xF0 \<Longrightarrow> ordinal8 (of_int k) = k"
  by (cases "k < 0") (simp_all add: ordinal8_def word_less_def small_signed uint_word_of_int_eq take_bit_int_eq_self)

lemma ordinal16_of_int: "-15 \<le> k \<Longrightarrow> k \<le> 0xFFF0 \<Longrightarrow> ordinal16 (of_int k) = k"
  by (cases "k < 0") (simp_all add: ordinal16_def word_less_def small_signed uint_word_of_int_eq take_bit_int_eq_self)

lemma importWord_fields:
  "ucast (importWord t) = (of_int (imp_ordinal t) :: u8)" "bits 9 23 (importWord t) = take_bit 23 (imp_name t)"
  "bit (importWord t) 8 \<longleftrightarrow> imp_weak t"
  by (auto intro!: bit_eqI simp: importWord_def bits_def bit_simps)

lemma importWord64_fields:
  "ucast (importWord64 t) = (of_int (imp_ordinal t) :: u16)" "ucast (bits 32 32 (importWord64 t)) = imp_name t"
  "bit (importWord64 t) 16 \<longleftrightarrow> imp_weak t"
  by (auto intro!: bit_eqI simp: importWord64_def bits_def bit_simps)

lemma importEntry_at:
  assumes "importAt m fmt imports i t" and "importable fmt t"
    and "fmt \<in> {DYLD_CHAINED_IMPORT, DYLD_CHAINED_IMPORT_ADDEND, DYLD_CHAINED_IMPORT_ADDEND64}"
  shows "importEntry m fmt imports i = (imp_name t, imp_ordinal t, imp_addend t, imp_weak t)"
proof -
  have "imp_name t < 0x800000 \<Longrightarrow> take_bit 23 (imp_name t) = imp_name t"
    by (simp add: take_bit_eq_mod mod_word_less)
  then show ?thesis
    using assms
    by (auto simp: importEntry_def importAt_def importable_def import_formats importWord_fields importWord64_fields
        ordinal8_of_int ordinal16_of_int Let_def)
qed

lemma forStop_cong: "(\<And>s x. x \<in> set xs \<Longrightarrow> f s x = g s x) \<Longrightarrow> forStop f s xs = forStop g s xs"
proof (induction xs arbitrary: s)
  case (Cons x xs)
  then have "f s x = g s x" and "\<And>s'. forStop f s' xs = forStop g s' xs" by auto
  then show ?case by (cases "g s x") auto
qed simp

text \<open>What the callback is given for an import.\<close>

definition importTarget :: "memory \<Rightarrow> nat \<Rightarrow> importSpec \<Rightarrow> fixupTarget" where
  "importTarget m header t =
     \<lparr>ft_libOrdinal = imp_ordinal t, ft_symbolName = Some (header + unat (symbols_offset m header) + unat (imp_name t)),
      ft_addend = imp_addend t, ft_weakImport = imp_weak t\<rparr>"

text \<open>A payload whose imports table holds the given imports, with names inside the string pool.\<close>

definition importsAt :: "memory \<Rightarrow> nat \<Rightarrow> u32 \<Rightarrow> importSpec list \<Rightarrow> bool" where
  "importsAt m header datasize ts \<longleftrightarrow>
     imports_format m header \<in> {DYLD_CHAINED_IMPORT, DYLD_CHAINED_IMPORT_ADDEND, DYLD_CHAINED_IMPORT_ADDEND64} \<and>
     imports_offset m header \<le> datasize \<and> symbols_offset m header \<le> datasize \<and> unat (imports_count m header) = length ts \<and>
     (\<forall>i < length ts. importAt m (imports_format m header) (header + unat (imports_offset m header)) i (ts ! i) \<and>
        importable (imports_format m header) (ts ! i) \<and> imp_name (ts ! i) \<le> datasize - symbols_offset m header)"

lemma forEachImport_roundtrip:
  assumes "importsAt m header datasize ts"
  shows "forEachImport m header datasize callback s = map_option fst (forStop callback s (map (importTarget m header) ts))"
proof -
  let ?b = "importBlock m header (datasize - symbols_offset m header) callback"
  have entry: "importEntry m (imports_format m header) (header + unat (imports_offset m header)) i =
      (imp_name (ts ! i), imp_ordinal (ts ! i), imp_addend (ts ! i), imp_weak (ts ! i)) \<and>
      \<not> imp_name (ts ! i) > datasize - symbols_offset m header" if "i < length ts" for i
    using assms that importEntry_at unfolding importsAt_def by (auto simp: not_less)
  have "forStop ?b s [0 ..< length ts] = forStop (\<lambda>s i. callback s (importTarget m header (ts ! i))) s [0 ..< length ts]"
    by (intro forStop_cong) (use entry in \<open>simp add: importBlock_def importTarget_def\<close>)
  also have "\<dots> = forStop callback s (map (importTarget m header) (map ((!) ts) [0 ..< length ts]))"
    by (simp only: forStop_map)
  finally show ?thesis using assms by (auto simp: forEachImport_def importsAt_def map_nth)
qed

text \<open>
  C29: \<open>forEachChainedFixupTarget\<close> reports the imports of an image exactly as they were encoded, in
  the order their ordinals count, until the callback stops: the library ordinal with its sign for
  the special ordinals, the name in the string pool, the addend with its sign and the weak flag,
  in each of the three import formats.
\<close>

theorem import_table_roundtrip:
  assumes "getLinkEditPointers m loadAddr uninit d = Some (leInfo, None)" and "le_dyldInfo (leCommands leInfo) = None"
    and "le_chainedFixups (leCommands leInfo) = Some c"
    and "getAllSegmentsInfos m (replicate (unat (lastSegIndex (layout leInfo) + 1)) None) = Some segs"
    and "header = content_at loadAddr (layout leInfo) (read32 m (c + 8))" and "importsAt m header (read32 m (c + 12)) ts"
  shows "forEachChainedFixupTarget m lim loadAddr uninit callback (s, d) =
    map_option fst (forStop callback (s, None) (map (importTarget m header) ts))"
  using assms by (simp add: forEachChainedFixupTarget_def forEachImport_roundtrip hasError_def)

text \<open>The dylib with one weak import from the special ordinal -2, named \<open>a\<close>.\<close>

definition importing_dylib :: memory where
  "importing_dylib = mem_words
     [0xFEEDFACF, 0x01000007, 3, 6, 3, 160, 0x80, 0,
      0x19, 72, 0x45545F5F, 0x00005458, 0, 0, 0, 0, 0xC0, 0, 0, 0, 0xC0, 0, 5, 5, 0, 0,
      0x19, 72, 0x494C5F5F, 0x44454B4E, 0x00005449, 0, 0xC0, 0, 0x1000, 0, 0xC0, 0, 0x40, 0, 1, 1, 0, 0,
      0x80000034, 16, 0xC0, 40,
      0, 28, 32, 36, 1, 1, 0, 0, 0x3FE, 0x00006100]"

lemma importing_dylib_list: "load_commands importing_dylib = [32, 104, 176]" "\<not> malformed_commands importing_dylib"
  "snd (load_commands_diag importing_dylib) = None"
  by (simp_all add: importing_dylib_def walk_eval)

lemma importing_dylib_cmds: "lc_cmd importing_dylib 32 = LC_SEGMENT_64" "lc_cmd importing_dylib 104 = LC_SEGMENT_64"
  "lc_cmd importing_dylib 176 = LC_DYLD_CHAINED_FIXUPS" "lc_cmdsize importing_dylib 176 = 16"
  "read32 importing_dylib 96 = 0" "read32 importing_dylib 168 = 0" "read32 importing_dylib 184 = 0xC0" "read32 importing_dylib 188 = 40"
  by (simp_all add: importing_dylib_def walk_eval)

lemma importing_dylib_names: "strcmp_eq importing_dylib 40 ''__TEXT''" "\<not> strcmp_eq importing_dylib 112 ''__TEXT''"
  "strcmp_eq importing_dylib 112 ''__LINKEDIT''" "\<not> strcmp_eq importing_dylib 40 ''__LINKEDIT''"
  by (simp_all add: strcmp_eq_def importing_dylib_def mem_words_def of_char_def)

lemma importing_dylib_imports:
  "importsAt importing_dylib 192 40 [\<lparr>imp_ordinal = -2, imp_weak = True, imp_name = 1, imp_addend = 0\<rparr>]"
  by (simp add: importsAt_def importAt_def importable_def importWord_def import_formats imports_format_def imports_offset_def
      symbols_offset_def imports_count_def importing_dylib_def read32_mem_words set_bit_eq_or)

lemma importing_dylib_commands: "getLinkEditLoadCommands importing_dylib None =
    Some (no_commands\<lparr>le_chainedFixups := Some 176\<rparr>, None)"
  by (simp add: getLinkEditLoadCommands_def walkDiag_def forEachLoadCommand_list importing_dylib_list linkedit_step_def
      importing_dylib_cmds once_of_size_def no_commands_def diag_defs)

lemmas importing_dylib_segments = segs.walk_fold segs.walk_items importing_dylib_list segments_def segment_commands_def
  is_segment_command_def importing_dylib_cmds segment_info_def segment_info64_def section_scan64_def sections64_def Let_def

lemma importing_dylib_layout:
  "\<exists>l. getLayoutInfo importing_dylib 0 uninit = Some l \<and> content_at 0 l 0xC0 = 192 \<and> lastSegIndex l = 1"
proof -
  have "read64 importing_dylib 144 = 0xC0" "read64 importing_dylib 128 = 0xC0" "read64 importing_dylib 56 = 0"
    by (simp_all add: importing_dylib_def walk_eval)
  then show ?thesis
    by (simp add: getLayoutInfo_def importing_dylib_segments importing_dylib_names layout_of_segment_def content_at_def
        getLinkEditContent_def)
qed

lemma importing_dylib_infos: "\<exists>segs. getAllSegmentsInfos importing_dylib (replicate 2 None) = Some segs"
  by (simp add: getAllSegmentsInfos_def importing_dylib_segments)

theorem import_table_roundtrip_witness:
  "\<forall>uninit. forEachChainedFixupTarget importing_dylib 232 0 uninit (\<lambda>(ts, d) t. Some ((ts @ [t], d), False)) ([], None) =
     Some ([\<lparr>ft_libOrdinal = -2, ft_symbolName = Some 229, ft_addend = 0, ft_weakImport = True\<rparr>], None)"
proof
  fix uninit
  obtain l where l: "getLayoutInfo importing_dylib 0 uninit = Some l" "content_at 0 l 0xC0 = 192" "lastSegIndex l = 1"
    using importing_dylib_layout by blast
  obtain segs where segs: "getAllSegmentsInfos importing_dylib (replicate 2 None) = Some segs"
    using importing_dylib_infos by blast
  let ?le = "\<lparr>leCommands = no_commands\<lparr>le_chainedFixups := Some 176\<rparr>, layout = l\<rparr>"
  have le: "getLinkEditPointers importing_dylib 0 uninit None = Some (?le, None)"
    by (simp add: getLinkEditPointers_def importing_dylib_commands l)
  have pool: "symbols_offset importing_dylib 192 = 36"
    by (simp add: symbols_offset_def importing_dylib_def read32_mem_words)
  show "forEachChainedFixupTarget importing_dylib 232 0 uninit (\<lambda>(ts, d) t. Some ((ts @ [t], d), False)) ([], None) =
     Some ([\<lparr>ft_libOrdinal = -2, ft_symbolName = Some 229, ft_addend = 0, ft_weakImport = True\<rparr>], None)"
    using import_table_roundtrip [OF le, where c = 176 and segs = segs and header = 192 and lim = 232 and s = "[]"
        and callback = "\<lambda>(ts, d) t. Some ((ts @ [t], d), False)", OF _ _ _ _ ]
      importing_dylib_imports importing_dylib_cmds(7,8) segs l pool
    by (auto simp: no_commands_def importTarget_def)
qed

end
