(* ===== verification/MachO_Bind.thy ===== *)
theory MachO_Bind
  imports Chained_Targets
begin

text \<open>
  Binds: the sources \<open>forEachBind\<close> of \<open>src/dyld3/MachOAnalyzer.cpp\<close> reads them from (the opcode
  streams for regular, lazy and weak binds, external relocations, indirect symbols), the overloads
  built on it, and \<open>validBindInfo\<close>.

  An opcode is interpreted in two steps: what it says (\<open>stream_op\<close>: the new position, the call of
  the handler it asks for, the errors of its operands before and after that call) and making the
  call. The handler cannot change what is read, so the order of reads and calls is only visible in
  the diagnostics. \<open>lim\<close> is the end of the mapped memory, past which the scan for the end of a
  symbol name faults. The result \<open>None\<close> is such a fault, a failed assertion, an access outside
  \<open>segmentsInfo\<close>, undefined behaviour, or a loop that does not end.
\<close>

section \<open>A bind and its validity\<close>

definition BIND_TYPE_TEXT_ABSOLUTE32 :: u8 where "BIND_TYPE_TEXT_ABSOLUTE32 = 2"
definition BIND_TYPE_TEXT_PCREL32 :: u8 where "BIND_TYPE_TEXT_PCREL32 = 3"

lemmas bind_types = BIND_TYPE_POINTER_def BIND_TYPE_TEXT_ABSOLUTE32_def BIND_TYPE_TEXT_PCREL32_def

text \<open>The arguments of the block that describe one bind.\<close>

record bind_args =
  bi_opcodeName :: string
  bi_segIndexSet :: bool
  bi_libraryOrdinalSet :: bool
  bi_dylibCount :: u32
  bi_libOrdinal :: int
  bi_ptrSize :: u32
  bi_segmentIndex :: u8
  bi_segmentOffset :: u64
  bi_type :: u8
  bi_symbolName :: "nat option"
  bi_weakImport :: bool
  bi_lazyBind :: bool
  bi_addend :: u64

type_synonym 's bind_block = "('s, bind_args) diag_block"
type_synonym 's strong_block = "'s \<times> diag \<Rightarrow> nat \<Rightarrow> ('s \<times> diag) option"

text \<open>The switch on the type, for the segment of the bind.\<close>

definition bindTypeError :: "build \<Rightarrow> memory \<Rightarrow> SegmentInfo \<Rightarrow> u8 \<Rightarrow> string option option" where
  "bindTypeError B m seg type =
     (if type = BIND_TYPE_POINTER then
        (if \<not> seg_writable seg then Some (Some ''in '%s' %s pointer bind is in non-writable segment'')
         else Option.bind (andAlso (seg_executable seg) (enforceFormat B m executableData)) (\<lambda>bad.
           if bad then Some (Some ''in '%s' %s pointer bind is in executable segment'') else Some None))
      else if type = BIND_TYPE_TEXT_ABSOLUTE32 \<or> type = BIND_TYPE_TEXT_PCREL32 then
        (let forceAllowTextRelocs = BUILDING_APP_CACHE_UTIL B \<and> isKextBundle m \<and> (isArch B m ''x86_64'' \<or> isArch B m ''x86_64h'')
         in if \<not> forceAllowTextRelocs \<and> \<not> textRelocs seg then
              Some (Some ''in '%s' %s text bind is in segment that does not support text relocations'')
            else if seg_writable seg then Some (Some ''in '%s' %s text bind is in writable segment'')
            else if \<not> seg_executable seg then Some (Some ''in '%s' %s pointer bind is in non-executable segment'')
            else Some None)
      else Some (Some ''in '%s' %s unknown bind type %d''))"

definition bindStateError :: "build \<Rightarrow> memory \<Rightarrow> LinkEditInfo \<Rightarrow> segment_array \<Rightarrow> bind_args \<Rightarrow> string option option" where
  "bindStateError B m leInfo segs b =
     (if \<not> bi_segIndexSet b then Some (Some ''in '%s' %s missing preceding BIND_OPCODE_SET_SEGMENT_AND_OFFSET_ULEB'')
      else if ucast (bi_segmentIndex b) \<ge> linkeditSegIndex (layout leInfo) then
        Some (Some ''in '%s' %s segment index %d too large'')
      else
        Option.bind (seg_at segs (unat (bi_segmentIndex b))) (\<lambda>seg.
        if bi_segmentOffset b > vmSize seg - ucast (bi_ptrSize b) then
          Some (Some ''in '%s' %s current segment offset 0x%08llX beyond segment size (0x%08llX)'')
        else if bi_symbolName b = None then
          Some (Some ''in '%s' %s missing preceding BIND_OPCODE_SET_SYMBOL_TRAILING_FLAGS_IMM'')
        else if \<not> bi_libraryOrdinalSet b then
          Some (Some ''in '%s' %s missing preceding BIND_OPCODE_SET_DYLIB_ORDINAL'')
        else if bi_libOrdinal b > sint (bi_dylibCount b) then
          Some (Some ''in '%s' %s has library ordinal too large (%d) max (%d)'')
        else if bi_libOrdinal b < BIND_SPECIAL_DYLIB_WEAK_LOOKUP then
          Some (Some ''in '%s' %s has unknown library special ordinal (%d)'')
        else bindTypeError B m seg (bi_type b)))"

definition invalidBindState ::
    "build \<Rightarrow> memory \<Rightarrow> LinkEditInfo \<Rightarrow> segment_array \<Rightarrow> bind_args \<Rightarrow> diag \<Rightarrow> (bool \<times> diag) option" where
  "invalidBindState B m leInfo segs b d =
     map_option (\<lambda>e. case e of Some msg \<Rightarrow> (True, error msg d) | None \<Rightarrow> (False, d)) (bindStateError B m leInfo segs b)"

section \<open>Bind opcodes\<close>

text \<open>The variables the opcodes set.\<close>

record bind_pos =
  bo_type :: u8
  bo_segmentOffset :: u64
  bo_segmentIndex :: u8
  bo_symbolName :: "nat option"
  bo_libraryOrdinal :: int
  bo_segIndexSet :: bool
  bo_libraryOrdinalSet :: bool
  bo_addend :: u64
  bo_weakImport :: bool
  bo_p :: nat

text \<open>
  The call an opcode asks for: none, one bind, a counted run of binds with its stride, or the
  strong handler.
\<close>

datatype bind_call = NoCall | OneBind bind_args | RunOfBinds bind_args u64 u64 | StrongDef nat

record bind_op =
  op_pos :: bind_pos
  op_call :: bind_call
  op_before :: diag
  op_after :: diag
  op_stop :: bool

definition op_quiet :: "bind_pos \<Rightarrow> bind_op" where
  "op_quiet pos = \<lparr>op_pos = pos, op_call = NoCall, op_before = None, op_after = None, op_stop = False\<rparr>"

definition op_fail :: "string \<Rightarrow> bind_pos \<Rightarrow> bind_op" where
  "op_fail msg pos = (op_quiet pos)\<lparr>op_after := Some msg\<rparr>"

text \<open>An operand \<open>read_uleb128(diag, p, end)\<close>: its value, the advanced position, its error.\<close>

definition bo_uleb :: "memory \<Rightarrow> nat \<Rightarrow> bind_pos \<Rightarrow> u64 \<times> bind_pos \<times> diag" where
  "bo_uleb m e pos = (let (v, p, d) = read_uleb128 m (bo_p pos) e in (v, pos\<lparr>bo_p := p\<rparr>, d))"

definition bind_here :: "string \<Rightarrow> u32 \<Rightarrow> u32 \<Rightarrow> bool \<Rightarrow> bind_pos \<Rightarrow> bind_args" where
  "bind_here name dylibCount ptrSize lazyBind pos =
     \<lparr>bi_opcodeName = name, bi_segIndexSet = bo_segIndexSet pos, bi_libraryOrdinalSet = bo_libraryOrdinalSet pos,
      bi_dylibCount = dylibCount, bi_libOrdinal = bo_libraryOrdinal pos, bi_ptrSize = ptrSize,
      bi_segmentIndex = bo_segmentIndex pos, bi_segmentOffset = bo_segmentOffset pos, bi_type = bo_type pos,
      bi_symbolName = bo_symbolName pos, bi_weakImport = bo_weakImport pos, bi_lazyBind = lazyBind, bi_addend = bo_addend pos\<rparr>"

definition bo_advance :: "u64 \<Rightarrow> bind_pos \<Rightarrow> bind_pos" where
  "bo_advance n pos = pos\<lparr>bo_segmentOffset := bo_segmentOffset pos + n\<rparr>"

text \<open>The opcodes that set a variable, which the three streams share.\<close>

definition ordinal_op :: "memory \<Rightarrow> nat \<Rightarrow> u8 \<Rightarrow> u8 \<Rightarrow> bind_pos \<Rightarrow> bind_op" where
  "ordinal_op m e opcode immediate pos =
     (if opcode = 0x10 then op_quiet (pos\<lparr>bo_libraryOrdinal := int (unat immediate), bo_libraryOrdinalSet := True\<rparr>)
      else if opcode = 0x20 then
        (let (v, pos', d) = bo_uleb m e pos
         in (op_quiet (pos'\<lparr>bo_libraryOrdinal := sint (ucast v :: u32), bo_libraryOrdinalSet := True\<rparr>))\<lparr>op_before := d\<rparr>)
      else op_quiet (pos\<lparr>bo_libraryOrdinal := specialOrdinal immediate, bo_libraryOrdinalSet := True\<rparr>))"

definition symbol_pos :: "memory \<Rightarrow> nat \<Rightarrow> u8 \<Rightarrow> bind_pos \<Rightarrow> bind_pos option" where
  "symbol_pos m lim immediate pos =
     map_option (\<lambda>nul. pos\<lparr>bo_weakImport := immediate AND 1 \<noteq> 0, bo_symbolName := Some (bo_p pos), bo_p := nul + 1\<rparr>)
       (find_nul m (bo_p pos) lim)"

definition addend_op :: "memory \<Rightarrow> nat \<Rightarrow> bind_pos \<Rightarrow> bind_op option" where
  "addend_op m e pos =
     map_option (\<lambda>(v, p, d). (op_quiet (pos\<lparr>bo_addend := v, bo_p := p\<rparr>))\<lparr>op_before := d\<rparr>) (read_sleb128 m (bo_p pos) e)"

definition segment_op :: "memory \<Rightarrow> nat \<Rightarrow> u8 \<Rightarrow> bind_pos \<Rightarrow> bind_op" where
  "segment_op m e immediate pos =
     (let (v, pos', d) = bo_uleb m e (pos\<lparr>bo_segmentIndex := immediate\<rparr>)
      in (op_quiet (pos'\<lparr>bo_segmentOffset := v, bo_segIndexSet := True\<rparr>))\<lparr>op_before := d\<rparr>)"

text \<open>The opcodes that bind, of the regular and the weak stream.\<close>

definition binding_op :: "memory \<Rightarrow> nat \<Rightarrow> u32 \<Rightarrow> u32 \<Rightarrow> u8 \<Rightarrow> u8 \<Rightarrow> bind_pos \<Rightarrow> bind_op" where
  "binding_op m e dylibCount ptrSize opcode immediate pos =
     (if opcode = 0x90 then
        (op_quiet (bo_advance (ucast ptrSize) pos))\<lparr>op_call := OneBind (bind_here ''BIND_OPCODE_DO_BIND'' dylibCount ptrSize False pos)\<rparr>
      else if opcode = 0xA0 then
        (let (v, pos', d) = bo_uleb m e pos
         in (op_quiet (bo_advance (v + ucast ptrSize) pos'))
              \<lparr>op_call := OneBind (bind_here ''BIND_OPCODE_DO_BIND_ADD_ADDR_ULEB'' dylibCount ptrSize False pos), op_after := d\<rparr>)
      else if opcode = 0xB0 then
        (op_quiet (bo_advance (ucast (ucast immediate * ptrSize + ptrSize)) pos))
          \<lparr>op_call := OneBind (bind_here ''BIND_OPCODE_DO_BIND_ADD_ADDR_IMM_SCALED'' dylibCount ptrSize False pos)\<rparr>
      else if opcode = 0xC0 then
        (let (cnt, pos1, d1) = bo_uleb m e pos; (skip, pos2, d2) = bo_uleb m e pos1
         in (op_quiet pos2)\<lparr>op_before := then_diag d1 d2,
              op_call := RunOfBinds (bind_here ''BIND_OPCODE_DO_BIND_ULEB_TIMES_SKIPPING_ULEB'' dylibCount ptrSize False pos2)
                           (skip + ucast ptrSize) cnt\<rparr>)
      else op_fail ''bad bind opcode 0x%02X'' pos)"

definition regular_op :: "memory \<Rightarrow> nat \<Rightarrow> nat \<Rightarrow> u32 \<Rightarrow> u32 \<Rightarrow> u8 \<Rightarrow> u8 \<Rightarrow> bind_pos \<Rightarrow> bind_op option" where
  "regular_op m lim e dylibCount ptrSize opcode immediate pos =
     (if opcode = 0x00 then Some ((op_quiet pos)\<lparr>op_stop := True\<rparr>)
      else if opcode \<in> {0x10, 0x20, 0x30} then Some (ordinal_op m e opcode immediate pos)
      else if opcode = 0x40 then map_option op_quiet (symbol_pos m lim immediate pos)
      else if opcode = 0x50 then Some (op_quiet (pos\<lparr>bo_type := immediate\<rparr>))
      else if opcode = 0x60 then addend_op m e pos
      else if opcode = 0x70 then Some (segment_op m e immediate pos)
      else if opcode = 0x80 then
        (let (v, pos', d) = bo_uleb m e pos in Some ((op_quiet (bo_advance v pos'))\<lparr>op_before := d\<rparr>))
      else Some (binding_op m e dylibCount ptrSize opcode immediate pos))"

text \<open>In the lazy stream \<open>BIND_OPCODE_DONE\<close> only separates the binds.\<close>

definition lazy_op :: "memory \<Rightarrow> nat \<Rightarrow> nat \<Rightarrow> u32 \<Rightarrow> u32 \<Rightarrow> u8 \<Rightarrow> u8 \<Rightarrow> bind_pos \<Rightarrow> bind_op option" where
  "lazy_op m lim e dylibCount ptrSize opcode immediate pos =
     (if opcode = 0x00 then Some (op_quiet pos)
      else if opcode \<in> {0x10, 0x20, 0x30} then Some (ordinal_op m e opcode immediate pos)
      else if opcode = 0x40 then map_option op_quiet (symbol_pos m lim immediate pos)
      else if opcode = 0x60 then addend_op m e pos
      else if opcode = 0x70 then Some (segment_op m e immediate pos)
      else if opcode = 0x90 then
        Some ((op_quiet (bo_advance (ucast ptrSize) pos))
          \<lparr>op_call := OneBind (bind_here ''BIND_OPCODE_DO_BIND'' dylibCount ptrSize True pos)\<rparr>)
      else Some (op_fail ''bad lazy bind opcode 0x%02X'' pos))"

text \<open>The weak stream has no ordinals, and a symbol may be marked as a strong definition.\<close>

definition weak_op :: "memory \<Rightarrow> nat \<Rightarrow> nat \<Rightarrow> u32 \<Rightarrow> u32 \<Rightarrow> u8 \<Rightarrow> u8 \<Rightarrow> bind_pos \<Rightarrow> bind_op option" where
  "weak_op m lim e dylibCount ptrSize opcode immediate pos =
     (if opcode \<in> {0x10, 0x20, 0x30} then Some (op_fail ''unexpected dylib ordinal in weak_bind'' pos)
      else if opcode = 0x40 then
        map_option (\<lambda>pos'. (op_quiet pos')\<lparr>op_call := (if immediate AND 8 \<noteq> 0 then StrongDef (bo_p pos) else NoCall)\<rparr>)
          (symbol_pos m lim immediate pos)
      else regular_op m lim e dylibCount ptrSize opcode immediate pos)"

datatype bind_stream = RegularBinds | LazyBinds | WeakBinds

definition stream_op :: "bind_stream \<Rightarrow> memory \<Rightarrow> nat \<Rightarrow> nat \<Rightarrow> u32 \<Rightarrow> u32 \<Rightarrow> bind_pos \<Rightarrow> bind_op option" where
  "stream_op stream m lim e dylibCount ptrSize pos0 =
     (let immediate = m (bo_p pos0) AND 0x0F; opcode = m (bo_p pos0) AND 0xF0; pos = pos0\<lparr>bo_p := bo_p pos0 + 1\<rparr>
      in case stream of
           RegularBinds \<Rightarrow> regular_op m lim e dylibCount ptrSize opcode immediate pos
         | LazyBinds \<Rightarrow> lazy_op m lim e dylibCount ptrSize opcode immediate pos
         | WeakBinds \<Rightarrow> weak_op m lim e dylibCount ptrSize opcode immediate pos)"

definition run_call ::
    "'s bind_block \<Rightarrow> 's strong_block \<Rightarrow> bind_call \<Rightarrow> bind_pos \<Rightarrow> 's \<times> diag \<Rightarrow> (('s \<times> diag) \<times> bool \<times> bind_pos) option" where
  "run_call h strong call pos s =
     (case call of
        NoCall \<Rightarrow> Some (s, False, pos)
      | OneBind b \<Rightarrow> map_option (\<lambda>(s', stop). (s', stop, pos)) (h s b)
      | RunOfBinds b stride cnt \<Rightarrow>
          map_option (\<lambda>(s', stop, off). (s', stop, pos\<lparr>bo_segmentOffset := off\<rparr>))
            (rebase_times h (\<lambda>off. b\<lparr>bi_segmentOffset := off\<rparr>) stride cnt 0 (bo_segmentOffset pos) s)
      | StrongDef name \<Rightarrow> map_option (\<lambda>s'. (s', False, pos)) (strong s name))"

lemma bo_uleb_pos: "bo_p pos \<le> e \<Longrightarrow> bo_p pos \<le> bo_p (fst (snd (bo_uleb m e pos))) \<and> bo_p (fst (snd (bo_uleb m e pos))) \<le> e"
proof -
  assume le: "bo_p pos \<le> e"
  obtain v q d where run: "uleb_loop m e (bo_p pos) 0 0 = (v, q, d)" by (metis prod_cases3)
  from uleb_loop_bounds [OF this le, of m] show ?thesis by (simp add: bo_uleb_def read_uleb128_def run)
qed

lemma ordinal_op_pos: "bo_p pos \<le> e \<Longrightarrow> bo_p pos \<le> bo_p (op_pos (ordinal_op m e opcode immediate pos))"
  using bo_uleb_pos [of pos e m] by (simp add: ordinal_op_def op_quiet_def case_prod_beta)

lemma binding_op_pos: "bo_p pos \<le> e \<Longrightarrow> bo_p pos \<le> bo_p (op_pos (binding_op m e n ptrSize opcode immediate pos))"
  using bo_uleb_pos [of pos e m] bo_uleb_pos [of "fst (snd (bo_uleb m e pos))" e m]
  by (auto simp: binding_op_def op_quiet_def op_fail_def bo_advance_def case_prod_beta Let_def)

lemma symbol_pos_pos: "symbol_pos m lim immediate pos = Some pos' \<Longrightarrow> bo_p pos \<le> bo_p pos'"
  by (auto simp: symbol_pos_def dest: find_nul_Some)

lemma addend_op_pos: "addend_op m e pos = Some r \<Longrightarrow> bo_p pos \<le> bo_p (op_pos r)"
  by (auto simp: addend_op_def op_quiet_def read_sleb128_def bind_eq_Some_conv dest: sleb_loop_pos)

lemma segment_op_pos: "bo_p pos \<le> e \<Longrightarrow> bo_p pos \<le> bo_p (op_pos (segment_op m e immediate pos))"
  using bo_uleb_pos [of "pos\<lparr>bo_segmentIndex := immediate\<rparr>" e m] by (simp add: segment_op_def op_quiet_def case_prod_beta)

lemmas op_positions = ordinal_op_pos binding_op_pos segment_op_pos

lemma regular_op_pos:
  assumes "regular_op m lim e n ptrSize opcode immediate pos = Some r" and "bo_p pos \<le> e"
  shows "bo_p pos \<le> bo_p (op_pos r)"
  using assms op_positions [OF assms(2)] bo_uleb_pos [OF assms(2), of m]
  by (auto simp: regular_op_def case_prod_beta Let_def split: if_splits
      dest: symbol_pos_pos addend_op_pos) (auto simp: op_quiet_def bo_advance_def dest: symbol_pos_pos)

lemma stream_op_pos:
  assumes "stream_op stream m lim e n ptrSize pos = Some r" and "bo_p pos < e"
  shows "bo_p pos < bo_p (op_pos r)"
proof -
  let ?pos = "pos\<lparr>bo_p := bo_p pos + 1\<rparr>"
  have le: "bo_p ?pos \<le> e" using assms(2) by simp
  have "bo_p ?pos \<le> bo_p (op_pos r)"
  proof (cases stream)
    case RegularBinds
    with assms(1) regular_op_pos [OF _ le] show ?thesis by (simp add: stream_op_def Let_def)
  next
    case LazyBinds
    with assms(1) op_positions [OF le] show ?thesis
      by (auto simp: stream_op_def lazy_op_def Let_def split: if_splits dest: symbol_pos_pos addend_op_pos)
        (auto simp: op_quiet_def op_fail_def bo_advance_def dest: symbol_pos_pos)
  next
    case WeakBinds
    with assms(1) regular_op_pos [OF _ le] show ?thesis
      by (auto simp: stream_op_def weak_op_def Let_def split: if_splits)
        (auto simp: op_quiet_def op_fail_def dest: symbol_pos_pos)
  qed
  then show ?thesis by simp
qed

lemma run_call_pos: "run_call h strong call pos s = Some (s', stop, pos') \<Longrightarrow> bo_p pos' = bo_p pos"
  by (auto simp: run_call_def split: bind_call.splits)

function bind_loop ::
    "bind_stream \<Rightarrow> memory \<Rightarrow> nat \<Rightarrow> nat \<Rightarrow> u32 \<Rightarrow> u32 \<Rightarrow> 's bind_block \<Rightarrow> 's strong_block \<Rightarrow> bind_pos \<Rightarrow> 's \<times> diag \<Rightarrow> ('s \<times> diag) option" where
  "bind_loop stream m lim e dylibCount ptrSize h strong pos s =
     (if noError (snd s) \<and> bo_p pos < e then
        (case stream_op stream m lim e dylibCount ptrSize pos of None \<Rightarrow> None
         | Some r \<Rightarrow>
             (case run_call h strong (op_call r) (op_pos r) (fst s, then_diag (snd s) (op_before r)) of None \<Rightarrow> None
              | Some (s', stop, pos') \<Rightarrow>
                  let s'' = (fst s', then_diag (snd s') (op_after r))
                  in if stop \<or> op_stop r then Some s''
                     else bind_loop stream m lim e dylibCount ptrSize h strong pos' s''))
      else Some s)"
  by pat_completeness auto
termination
  by (relation "measure (\<lambda>(stream, m, lim, e, n, ptrSize, h, strong, pos, s). e - bo_p pos)")
    (auto dest!: stream_op_pos run_call_pos)

declare bind_loop.simps [simp del]

text \<open>The variables at the start of each stream.\<close>

definition stream_start :: "bind_stream \<Rightarrow> nat \<Rightarrow> bind_pos" where
  "stream_start stream p =
     \<lparr>bo_type = (if stream = RegularBinds then 0 else BIND_TYPE_POINTER), bo_segmentOffset = 0, bo_segmentIndex = 0,
      bo_symbolName = None, bo_libraryOrdinal = (if stream = WeakBinds then BIND_SPECIAL_DYLIB_WEAK_LOOKUP else 0),
      bo_segIndexSet = False, bo_libraryOrdinalSet = (stream = WeakBinds), bo_addend = 0, bo_weakImport = False, bo_p = p\<rparr>"

section \<open>External relocations\<close>

definition r_symbolnum :: "memory \<Rightarrow> nat \<Rightarrow> u32" where
  "r_symbolnum m r = read32 m (r + 4) AND 0xFFFFFF"

definition r_pcrel :: "memory \<Rightarrow> nat \<Rightarrow> bool" where
  "r_pcrel m r = bit (read32 m (r + 4)) 24"

text \<open>The checks of a relocation's length and type, and whether it is a branch of a kext.\<close>

definition isBranchReloc :: "build \<Rightarrow> memory \<Rightarrow> nat \<Rightarrow> bool" where
  "isBranchReloc B m r \<longleftrightarrow> BUILDING_APP_CACHE_UTIL B \<and> isKextBundle m \<and> (isArch B m ''x86_64'' \<or> isArch B m ''x86_64h'') \<and> r_type m r = 2"

definition externalRelocError :: "build \<Rightarrow> memory \<Rightarrow> nat \<Rightarrow> string option" where
  "externalRelocError B m r =
     (if isBranchReloc B m r then
        (if r_length m r \<noteq> 2 then Some ''external relocation has wrong r_length''
         else if \<not> r_pcrel m r then Some ''external relocation should be pcrel''
         else None)
      else if r_length m r \<noteq> (if is64 m then 3 else 2) then Some ''external relocation has wrong r_length''
      else if r_type m r \<noteq> 0 then Some ''external relocation has wrong r_type''
      else None)"

text \<open>What a relocation binds: the symbol it names and the content of its location.\<close>

definition relocBind ::
    "build \<Rightarrow> memory \<Rightarrow> LinkEditInfo \<Rightarrow> indirect_tables \<Rightarrow> u32 \<Rightarrow> nat \<Rightarrow> u32 \<Rightarrow> SegmentInfo \<Rightarrow> u64 \<Rightarrow> bind_args" where
  "relocBind B m leInfo t dylibCount r sgIndex seg segOffset =
     (let sym = it_symbols t + (if is64 m then 16 else 12) * unat (r_symbolnum m r);
          n_strx = read32 m sym; n_type = m (sym + 4); n_desc = read16 m (sym + 6);
          content = unat (vmAddr seg - textUnslidVMAddr (layout leInfo) + segOffset)
      in \<lparr>bi_opcodeName = ''external relocation'', bi_segIndexSet = True, bi_libraryOrdinalSet = True,
          bi_dylibCount = dylibCount,
          bi_libOrdinal = (if n_type AND 0x0E = 0x0E \<and> n_type AND 0x01 \<noteq> 0 \<and> n_desc AND 0x0080 \<noteq> 0
                           then BIND_SPECIAL_DYLIB_WEAK_LOOKUP else libOrdinalFromDesc m n_desc),
          bi_ptrSize = pointerSize m, bi_segmentIndex = ucast sgIndex, bi_segmentOffset = segOffset,
          bi_type = (if isBranchReloc B m r then BIND_TYPE_TEXT_PCREL32 else BIND_TYPE_POINTER),
          bi_symbolName = Some (it_strings t + unat n_strx), bi_weakImport = (n_desc AND 0x0040 \<noteq> 0), bi_lazyBind = False,
          bi_addend = (if r_length m r = 3 then read64 m content else ucast (read32 m content))\<rparr>)"

definition external_reloc ::
    "build \<Rightarrow> memory \<Rightarrow> LinkEditInfo \<Rightarrow> segment_array \<Rightarrow> indirect_tables \<Rightarrow> u32 \<Rightarrow> u64 \<Rightarrow> 's bind_block \<Rightarrow> ('s, nat) diag_block" where
  "external_reloc B m leInfo segs t dylibCount base h s r =
     (case externalRelocError B m r of
        Some msg \<Rightarrow> Some ((fst s, error msg (snd s)), True)
      | None \<Rightarrow>
          Option.bind (segIndexAndOffsetForAddress (base + scast (read32 m r)) segs (linkeditSegIndex (layout leInfo))) (\<lambda>found.
          case found of
            None \<Rightarrow> Some ((fst s, error ''local relocation has out of range r_address'' (snd s)), True)
          | Some (sgIndex, segOffset) \<Rightarrow>
              if r_symbolnum m r > it_symCount t then
                Some ((fst s, error ''external relocation has out of range r_symbolnum'' (snd s)), True)
              else if read32 m (it_symbols t + (if is64 m then 16 else 12) * unat (r_symbolnum m r)) \<ge> it_poolSize t then
                Some ((fst s, error ''external relocation has r_symbolnum=%d which has out of range n_strx'' (snd s)), True)
              else Option.bind (seg_at segs (unat sgIndex)) (\<lambda>seg.
                h s (relocBind B m leInfo t dylibCount r sgIndex seg segOffset))))"

section \<open>All binds\<close>

definition indirectBind :: "memory \<Rightarrow> u32 \<Rightarrow> indirect_pointer \<Rightarrow> u32 \<Rightarrow> u64 \<Rightarrow> bind_args" where
  "indirectBind m dylibCount ip i off =
     \<lparr>bi_opcodeName = ''indirect symbol'', bi_segIndexSet = True, bi_libraryOrdinalSet = True,
      bi_dylibCount = dylibCount, bi_libOrdinal = ip_libOrdinal ip, bi_ptrSize = pointerSize m,
      bi_segmentIndex = ucast i, bi_segmentOffset = off, bi_type = BIND_TYPE_POINTER,
      bi_symbolName = ip_symbolName ip, bi_weakImport = ip_weakImport ip, bi_lazyBind = ip_lazy ip, bi_addend = 0\<rparr>"

definition bind_indirect ::
    "memory \<Rightarrow> LinkEditInfo \<Rightarrow> segment_array \<Rightarrow> u32 \<Rightarrow> 's bind_block \<Rightarrow> ('s, indirect_pointer) diag_block" where
  "bind_indirect m leInfo segs dylibCount h s ip =
     (if \<not> ip_bind ip then Some (s, False)
      else Option.bind (segIndexAndOffsetForAddress (ip_address ip) segs (linkeditSegIndex (layout leInfo))) (\<lambda>found.
        case found of
          Some (i, off) \<Rightarrow>
            h s (indirectBind m dylibCount ip i off)
        | None \<Rightarrow> Some ((fst s, error ''indirect symbol has out of range address'' (snd s)), True)))"

text \<open>One opcode stream; the lazy and the weak one are only walked when they are not empty.\<close>

definition walk_stream ::
    "bind_stream \<Rightarrow> memory \<Rightarrow> nat \<Rightarrow> u64 \<Rightarrow> LinkEditInfo \<Rightarrow> nat \<Rightarrow> u32 \<Rightarrow> 's bind_block \<Rightarrow> 's strong_block \<Rightarrow> 's \<times> diag \<Rightarrow> ('s \<times> diag) option" where
  "walk_stream stream m lim loadAddr leInfo field dylibCount h strong s =
     (let p = content_at loadAddr (layout leInfo) (read32 m field); n = read32 m (field + 4)
      in if stream \<noteq> RegularBinds \<and> n = 0 then Some s
         else bind_loop stream m lim (p + unat n) dylibCount (pointerSize m) h strong (stream_start stream p) s)"

text \<open>The first stream, and each further one unless there has been an error.\<close>

definition bind_streams ::
    "memory \<Rightarrow> nat \<Rightarrow> u64 \<Rightarrow> LinkEditInfo \<Rightarrow> nat \<Rightarrow> u32 \<Rightarrow> 's bind_block \<Rightarrow> 's strong_block \<Rightarrow> 's \<times> diag \<Rightarrow> ('s \<times> diag) option" where
  "bind_streams m lim loadAddr leInfo c dylibCount h strong s =
     (let walk = (\<lambda>stream field s. walk_stream stream m lim loadAddr leInfo field dylibCount h strong s)
      in Option.bind (walk RegularBinds (c + 16) s) (\<lambda>s1.
         if hasError (snd s1) then Some s1
         else Option.bind (walk LazyBinds (c + 32) s1) (\<lambda>s2.
           if hasError (snd s2) then Some s2
           else walk WeakBinds (c + 24) s2)))"

definition forEachBind_location ::
    "build \<Rightarrow> memory \<Rightarrow> nat \<Rightarrow> u64 \<Rightarrow> LayoutInfo \<Rightarrow> (LinkEditInfo \<Rightarrow> segment_array \<Rightarrow> 's bind_block) \<Rightarrow> 's strong_block \<Rightarrow>
     's \<times> diag \<Rightarrow> ('s \<times> diag) option" where
  "forEachBind_location B m lim loadAddr uninit handler strong s =
     Option.bind (getLinkEditPointers m loadAddr uninit (snd s)) (\<lambda>(leInfo, d).
     if hasError d then Some (fst s, d)
     else
       Option.bind (getAllSegmentsInfos m (replicate (unat (lastSegIndex (layout leInfo) + 1)) None)) (\<lambda>segs.
       Option.bind (dependentDylibCount m) (\<lambda>dylibCount.
       let h = handler leInfo segs; cmds = leCommands leInfo in
       case le_dyldInfo cmds of
         Some c \<Rightarrow> bind_streams m lim loadAddr leInfo c dylibCount h strong (fst s, d)
       | None \<Rightarrow>
           if le_chainedFixups cmds \<noteq> None then Some (fst s, d)
           else case le_dynSymTab cmds of
             None \<Rightarrow> Some (fst s, d)
           | Some dy \<Rightarrow>
               Option.bind (externalRelocBaseAddress B m segs (linkeditSegIndex (layout leInfo))) (\<lambda>base.
               Option.bind (indirect_tables_of m loadAddr leInfo) (\<lambda>t.
               let relocsStart = content_at loadAddr (layout leInfo) (read32 m (dy + 64))
               in Option.bind (forStop (external_reloc B m leInfo segs t dylibCount base h) (fst s, d)
                       (map (\<lambda>k. relocsStart + 8 * k) [0 ..< unat (read32 m (dy + 68))]))
                    (\<lambda>(s1, _). forEachIndirectPointer m loadAddr uninit (bind_indirect m leInfo segs dylibCount h) s1))))))"

definition bind_validator :: "build \<Rightarrow> memory \<Rightarrow> LinkEditInfo \<Rightarrow> segment_array \<Rightarrow> unit bind_block" where
  "bind_validator B m leInfo segs s b =
     map_option (\<lambda>(invalid, d). (((), d), invalid)) (invalidBindState B m leInfo segs b (snd s))"

definition validBindInfo :: "build \<Rightarrow> memory \<Rightarrow> nat \<Rightarrow> u64 \<Rightarrow> LayoutInfo \<Rightarrow> diag \<Rightarrow> (bool \<times> diag) option" where
  "validBindInfo B m lim loadAddr uninit d =
     map_option (\<lambda>(u, d'). (noError d', d'))
       (forEachBind_location B m lim loadAddr uninit (bind_validator B m) (\<lambda>s name. Some s) ((), d))"

text \<open>The arguments of the handlers that are given a runtime offset.\<close>

record bind_report =
  br_runtimeOffset :: u64
  br_libOrdinal :: int
  br_type :: u8
  br_symbolName :: "nat option"
  br_weakImport :: bool
  br_lazyBind :: bool
  br_addend :: u64

definition offset_bind_block ::
    "memory \<Rightarrow> ('s, bind_report) diag_block \<Rightarrow> LinkEditInfo \<Rightarrow> segment_array \<Rightarrow> ('s \<times> u64 option) bind_block" where
  "offset_bind_block m handler leInfo segs s b =
     (let ((acc, startVmAddr), d) = s in
      Option.bind (if startVmAddr = None then text_address m segs [0 ..< Suc (unat (bi_segmentIndex b))] else Some startVmAddr)
        (\<lambda>startVmAddr.
      Option.bind (seg_at segs (unat (bi_segmentIndex b))) (\<lambda>seg.
      Option.bind (handler (acc, d)
          \<lparr>br_runtimeOffset = vmAddr seg + bi_segmentOffset b - start_address startVmAddr, br_libOrdinal = bi_libOrdinal b,
           br_type = bi_type b, br_symbolName = bi_symbolName b, br_weakImport = bi_weakImport b,
           br_lazyBind = bi_lazyBind b, br_addend = bi_addend b\<rparr>)
        (\<lambda>((acc, d), stop). Some (((acc, startVmAddr), d), stop)))))"

definition forEachBind_offset ::
    "build \<Rightarrow> memory \<Rightarrow> nat \<Rightarrow> u64 \<Rightarrow> LayoutInfo \<Rightarrow> ('s, bind_report) diag_block \<Rightarrow> 's strong_block \<Rightarrow> 's \<times> diag \<Rightarrow> ('s \<times> diag) option" where
  "forEachBind_offset B m lim loadAddr uninit handler strong s =
     map_option (\<lambda>((acc, a), d). (acc, d))
       (forEachBind_location B m lim loadAddr uninit (offset_bind_block m handler)
          (\<lambda>((acc, a), d) name. map_option (\<lambda>(acc', d'). ((acc', a), d')) (strong (acc, d) name)) ((fst s, None), snd s))"

text \<open>The overload whose handler is not given the type.\<close>

definition forEachBind_untyped ::
    "build \<Rightarrow> memory \<Rightarrow> nat \<Rightarrow> u64 \<Rightarrow> LayoutInfo \<Rightarrow>
     ('s \<times> diag \<Rightarrow> u64 \<times> int \<times> nat option \<times> bool \<times> bool \<times> u64 \<Rightarrow> (('s \<times> diag) \<times> bool) option) \<Rightarrow> 's strong_block \<Rightarrow>
     's \<times> diag \<Rightarrow> ('s \<times> diag) option" where
  "forEachBind_untyped B m lim loadAddr uninit handler strong s =
     forEachBind_offset B m lim loadAddr uninit
       (\<lambda>s r. handler s (br_runtimeOffset r, br_libOrdinal r, br_symbolName r, br_weakImport r, br_lazyBind r, br_addend r)) strong s"

section \<open>Checking the binds\<close>

text \<open>What a client of the walk promises for the strong definitions.\<close>

definition servesStrong :: "('s \<Rightarrow> bool) \<Rightarrow> 's strong_block \<Rightarrow> bool" where
  "servesStrong I strong \<longleftrightarrow> (\<forall>s name. I s \<longrightarrow> (\<exists>s'. strong (s, None) name = Some (s', None) \<and> I s'))"

text \<open>
  A checker of binds: as long as its diagnostics stay clean, the same walk with a client that
  copes with fine binds is at the same position.
\<close>

locale bind_checker = block_checker check ok for check :: "unit bind_block" and ok :: "bind_args \<Rightarrow> bool"
begin

lemma call_clean:
  assumes run: "run_call check (\<lambda>s name. Some s) call pos s = Some (s', stop, pos')" and clean: "noError (snd s')"
    and client: "serves I ok h" "servesStrong I strong"
  shows "noError (snd s) \<and> \<not> stop \<and> (\<forall>c. I c \<longrightarrow>
    (\<exists>c'. run_call h strong call pos (c, None) = Some ((c', None), False, pos') \<and> I c'))"
proof (cases call)
  case NoCall
  with run clean show ?thesis by (auto simp: run_call_def)
next
  case (OneBind b)
  with run have "check s b = Some (s', stop)" and "pos' = pos" by (auto simp: run_call_def)
  moreover from check_clean [OF this(1) clean] have now: "noError (snd s)" "\<not> stop" "ok b" by simp_all
  moreover have "\<exists>c'. run_call h strong call pos (c, None) = Some ((c', None), False, pos) \<and> I c'" if "I c" for c
  proof -
    obtain c' where "h (c, None) b = Some ((c', None), False)" and "I c'" using client(1) \<open>I c\<close> now(3) by (rule servesE)
    then show ?thesis by (simp add: run_call_def OneBind)
  qed
  ultimately show ?thesis by simp
next
  case (RunOfBinds b stride cnt)
  with run obtain off where t: "rebase_times check (\<lambda>off. b\<lparr>bi_segmentOffset := off\<rparr>) stride cnt 0 (bo_segmentOffset pos) s = Some (s', stop, off)"
    and pos': "pos' = pos\<lparr>bo_segmentOffset := off\<rparr>" by (auto simp: run_call_def)
  have "noError (snd (fst (s', stop, off)))" using clean by simp
  note run' = times_clean [OF t this client(1)]
  show ?thesis
  proof (intro conjI allI impI)
    show "noError (snd s)" and "\<not> stop" using run' by simp_all
    fix c assume "I c"
    with run' obtain c' where "rebase_times h (\<lambda>off. b\<lparr>bi_segmentOffset := off\<rparr>) stride cnt 0 (bo_segmentOffset pos) (c, None)
        = Some ((c', None), False, off)" and "I c'" by auto
    then show "\<exists>c'. run_call h strong call pos (c, None) = Some ((c', None), False, pos') \<and> I c'"
      by (simp add: run_call_def RunOfBinds pos')
  qed
next
  case (StrongDef name)
  with run have "s' = s" "\<not> stop" "pos' = pos" by (auto simp: run_call_def)
  moreover have "\<exists>c'. run_call h strong call pos (c, None) = Some ((c', None), False, pos) \<and> I c'" if "I c" for c
  proof -
    from client(2) that obtain c' where "strong (c, None) name = Some (c', None)" and "I c'" unfolding servesStrong_def by blast
    then show ?thesis by (simp add: run_call_def StrongDef)
  qed
  ultimately show ?thesis using clean by simp
qed

lemma loop_clean:
  assumes run: "bind_loop stream m lim e n ptrSize check (\<lambda>s name. Some s) pos s = Some s'" and clean: "noError (snd s')"
    and client: "serves I ok h" "servesStrong I strong" and c: "I c"
  shows "noError (snd s) \<and> (\<exists>c'. bind_loop stream m lim e n ptrSize h strong pos (c, None) = Some (c', None) \<and> I c')"
  using run c
proof (induction "e - bo_p pos" arbitrary: pos s c rule: less_induct)
  case less
  show ?case
  proof (cases "noError (snd s) \<and> bo_p pos < e")
    case False
    with less.prems clean show ?thesis
      by (subst (asm) bind_loop.simps, subst bind_loop.simps) (auto split: if_splits)
  next
    case True
    with less.prems(1) obtain r s1 stop pos1 where r: "stream_op stream m lim e n ptrSize pos = Some r"
      and call: "run_call check (\<lambda>s name. Some s) (op_call r) (op_pos r) (fst s, then_diag (snd s) (op_before r)) = Some (s1, stop, pos1)"
      and rest: "(if stop \<or> op_stop r then Some (fst s1, then_diag (snd s1) (op_after r))
        else bind_loop stream m lim e n ptrSize check (\<lambda>s name. Some s) pos1 (fst s1, then_diag (snd s1) (op_after r))) = Some s'"
      by (subst (asm) bind_loop.simps) (auto simp: Let_def split: option.splits)
    have shorter: "e - bo_p pos1 < e - bo_p pos"
      using stream_op_pos [OF r] run_call_pos [OF call] True by (simp add: diff_less_mono2)
    have clean1: "noError (snd s1)" and after: "noError (op_after r)"
    proof -
      have "noError (then_diag (snd s1) (op_after r))"
      proof (cases "stop \<or> op_stop r")
        case False
        then have "bind_loop stream m lim e n ptrSize check (\<lambda>s name. Some s) pos1 (fst s1, then_diag (snd s1) (op_after r)) = Some s'"
          using rest by simp
        from less.hyps [OF shorter this less.prems(2)] show ?thesis by simp
      qed (use rest clean in auto)
      then show "noError (snd s1)" and "noError (op_after r)" by simp_all
    qed
    from call_clean [OF call clean1 client] less.prems(2) obtain c1 where c1: "noError (op_before r)" "\<not> stop"
      "run_call h strong (op_call r) (op_pos r) (c, None) = Some ((c1, None), False, pos1)" "I c1"
      by auto
    have none: "op_before r = None" "op_after r = None" "snd s1 = None" using c1(1) after clean1 by (simp_all add: noError_def)
    have "\<exists>c'. bind_loop stream m lim e n ptrSize h strong pos (c, None) = Some (c', None) \<and> I c'"
    proof (cases "op_stop r")
      case True
      with \<open>noError (snd s) \<and> bo_p pos < e\<close> r c1 none show ?thesis by (subst bind_loop.simps) (simp add: then_diag_def)
    next
      case False
      then have "bind_loop stream m lim e n ptrSize check (\<lambda>s name. Some s) pos1 (fst s1, then_diag (snd s1) (op_after r)) = Some s'"
        using rest c1(2) by simp
      from less.hyps [OF shorter this c1(4)] obtain c' where
        "bind_loop stream m lim e n ptrSize h strong pos1 (c1, None) = Some (c', None)" "I c'" by blast
      with False \<open>noError (snd s) \<and> bo_p pos < e\<close> r c1 none show ?thesis by (subst bind_loop.simps) (simp add: then_diag_def)
    qed
    with True show ?thesis by blast
  qed
qed

end

context bind_checker
begin

lemma stream_clean:
  assumes "walk_stream stream m lim loadAddr leInfo field n check (\<lambda>s name. Some s) s = Some s'" and clean: "noError (snd s')"
    and client: "serves I ok h" "servesStrong I strong" and c: "I c"
  shows "noError (snd s) \<and> (\<exists>c'. walk_stream stream m lim loadAddr leInfo field n h strong (c, None) = Some (c', None) \<and> I c')"
proof (cases "stream \<noteq> RegularBinds \<and> read32 m (field + 4) = 0")
  case True
  with assms show ?thesis by (simp add: walk_stream_def Let_def)
next
  case False
  show ?thesis
    using loop_clean [OF assms(1) [unfolded walk_stream_def Let_def if_not_P [OF False]] clean client c] False
    unfolding walk_stream_def Let_def if_not_P [OF False] by blast
qed

lemma streams_clean:
  assumes run: "bind_streams m lim loadAddr leInfo i n check (\<lambda>s name. Some s) s = Some s'" and clean: "noError (snd s')"
    and client: "serves I ok h" "servesStrong I strong" and c: "I c"
  shows "\<exists>c'. bind_streams m lim loadAddr leInfo i n h strong (c, None) = Some (c', None) \<and> I c'"
proof -
  let ?w = "\<lambda>h strong stream field s. walk_stream stream m lim loadAddr leInfo field n h strong s"
  let ?quiet = "\<lambda>s name. Some s"
  from run obtain s1 where s1: "?w check ?quiet RegularBinds (i + 16) s = Some s1"
    and rest: "(if hasError (snd s1) then Some s1
      else Option.bind (?w check ?quiet LazyBinds (i + 32) s1) (\<lambda>s2. if hasError (snd s2) then Some s2
        else ?w check ?quiet WeakBinds (i + 24) s2)) = Some s'"
    by (auto simp: bind_streams_def Let_def bind_eq_Some_conv)
  with clean have "noError (snd s1)" by (auto simp: hasError_noError split: if_splits)
  with rest obtain s2 where s2: "?w check ?quiet LazyBinds (i + 32) s1 = Some s2"
    and rest2: "(if hasError (snd s2) then Some s2 else ?w check ?quiet WeakBinds (i + 24) s2) = Some s'"
    by (auto simp: hasError_noError bind_eq_Some_conv)
  with clean have "noError (snd s2)" by (auto simp: hasError_noError split: if_splits)
  with rest2 have s3: "?w check ?quiet WeakBinds (i + 24) s2 = Some s'" by (simp add: hasError_noError)
  from stream_clean [OF s1 \<open>noError (snd s1)\<close> client c] obtain c1 where c1: "?w h strong RegularBinds (i + 16) (c, None) = Some (c1, None)" "I c1" by blast
  from stream_clean [OF s2 \<open>noError (snd s2)\<close> client c1(2)] obtain c2 where c2: "?w h strong LazyBinds (i + 32) (c1, None) = Some (c2, None)" "I c2" by blast
  from stream_clean [OF s3 clean client c2(2)] obtain c3 where c3: "?w h strong WeakBinds (i + 24) (c2, None) = Some (c3, None)" "I c3" by blast
  from c1 c2 c3 show ?thesis by (simp add: bind_streams_def hasError_def)
qed

lemma checked_call:
  assumes "check s b = Some (s', stop)" and "noError (snd s')" and client: "serves I ok h"
  shows "noError (snd s) \<and> \<not> stop \<and> (\<forall>c. I c \<longrightarrow> (\<exists>c'. h (c, None) b = Some ((c', None), False) \<and> I c'))"
  using check_clean [OF assms(1,2)] client unfolding serves_def by blast

lemma reloc_keepsStep:
  assumes "serves I ok h"
  shows "keepsStep I (external_reloc B m leInfo segs t n base check) (external_reloc B m leInfo segs t n base h)"
  unfolding keepsStep_def
proof (intro allI impI)
  fix s r s' b
  let ?strx = "read32 m (it_symbols t + (if is64 m then 16 else 12) * unat (r_symbolnum m r))"
  assume run: "external_reloc B m leInfo segs t n base check s r = Some (s', b) \<and> noError (snd s')"
  then have none: "externalRelocError B m r = None" by (auto simp: external_reloc_def split: option.splits)
  with run obtain i off where found: "segIndexAndOffsetForAddress (base + scast (read32 m r)) segs (linkeditSegIndex (layout leInfo)) = Some (Some (i, off))"
    by (auto simp: external_reloc_def bind_eq_Some_conv split: option.splits)
  with run none have sym: "\<not> r_symbolnum m r > it_symCount t" "\<not> ?strx \<ge> it_poolSize t"
    by (auto simp: external_reloc_def split: if_splits)
  with run none found obtain seg where seg: "seg_at segs (unat i) = Some seg"
    and call: "check s (relocBind B m leInfo t n r i seg off) = Some (s', b)"
    by (auto simp: external_reloc_def bind_eq_Some_conv)
  have same: "external_reloc B m leInfo segs t n base h (c, None) r = h (c, None) (relocBind B m leInfo t n r i seg off)" for c
    using none found sym seg by (simp add: external_reloc_def)
  show "noError (snd s) \<and> \<not> b \<and> (\<forall>c. I c \<longrightarrow> (\<exists>c'. external_reloc B m leInfo segs t n base h (c, None) r = Some ((c', None), False) \<and> I c'))"
    using checked_call [OF call _ assms] run unfolding same by blast
qed

lemma indirect_keepsStep:
  assumes "serves I ok h"
  shows "keepsStep I (bind_indirect m leInfo segs n check) (bind_indirect m leInfo segs n h)"
  unfolding keepsStep_def
proof (intro allI impI)
  fix s ip s' b
  assume run: "bind_indirect m leInfo segs n check s ip = Some (s', b) \<and> noError (snd s')"
  show "noError (snd s) \<and> \<not> b \<and> (\<forall>c. I c \<longrightarrow> (\<exists>c'. bind_indirect m leInfo segs n h (c, None) ip = Some ((c', None), False) \<and> I c'))"
  proof (cases "ip_bind ip")
    case False
    with run show ?thesis by (auto simp: bind_indirect_def)
  next
    case True
    with run obtain i off where found: "segIndexAndOffsetForAddress (ip_address ip) segs (linkeditSegIndex (layout leInfo)) = Some (Some (i, off))"
      by (auto simp: bind_indirect_def bind_eq_Some_conv split: option.splits)
    from run have "check s (indirectBind m n ip i off) = Some (s', b)"
      using True found by (simp add: bind_indirect_def)
    from checked_call [OF this _ assms] run True found show ?thesis
      by (simp add: bind_indirect_def)
  qed
qed

end

lemma bind_location_clean:
  assumes run: "forEachBind_location B m lim loadAddr uninit chk (\<lambda>s name. Some s) ((), d) = Some ((), d')" and clean: "noError d'"
    and chk: "\<And>leInfo segs. bind_checker (chk leInfo segs) (ok leInfo segs)"
    and client: "\<And>leInfo segs. (\<And>i seg. seg_at segs i = Some seg \<Longrightarrow> seg \<in> set (segments m)) \<Longrightarrow> serves I (ok leInfo segs) (h leInfo segs)"
    and strong: "servesStrong I strong" and c: "I c"
  shows "\<exists>c'. forEachBind_location B m lim loadAddr uninit h strong (c, None) = Some (c', None) \<and> I c'"
proof -
  from run obtain leInfo d1 where le: "getLinkEditPointers m loadAddr uninit d = Some (leInfo, d1)"
    by (auto simp: forEachBind_location_def bind_eq_Some_conv)
  with run clean have "noError d1" by (auto simp: forEachBind_location_def hasError_noError split: if_splits)
  with le getLinkEditPointers_clean have d: "d1 = None" "d = None" by (auto simp: noError_def)
  from run le d obtain segs n where segs: "getAllSegmentsInfos m (replicate (unat (lastSegIndex (layout leInfo) + 1)) None) = Some segs"
    and n: "dependentDylibCount m = Some n"
    by (auto simp: forEachBind_location_def bind_eq_Some_conv hasError_noError)
  note go = le [unfolded d] segs n hasError_noError
  have ok: "serves I (ok leInfo segs) (h leInfo segs)"
    using getAllSegmentsInfos_sound [OF segs] by (rule client)
  show ?thesis
  proof (cases "le_dyldInfo (leCommands leInfo)")
    case (Some i)
    with run have "bind_streams m lim loadAddr leInfo i n (chk leInfo segs) (\<lambda>s name. Some s) ((), None) = Some ((), d')"
      by (simp add: forEachBind_location_def go d Let_def)
    from bind_checker.streams_clean [OF chk this _ ok strong c] clean Some show ?thesis
      by (simp add: forEachBind_location_def go Let_def)
  next
    case None
    note dyldInfo = this
    show ?thesis
    proof (cases "le_chainedFixups (leCommands leInfo) \<noteq> None \<or> le_dynSymTab (leCommands leInfo) = None")
      case True
      with c dyldInfo show ?thesis by (auto simp: forEachBind_location_def go Let_def split: option.splits)
    next
      case False
      then obtain dy where dy: "le_dynSymTab (leCommands leInfo) = Some dy" "le_chainedFixups (leCommands leInfo) = None" by auto
      define relocs where "relocs = map (\<lambda>k. content_at loadAddr (layout leInfo) (read32 m (dy + 64)) + 8 * k) [0 ..< unat (read32 m (dy + 68))]"
      note local = forEachBind_location_def go dyldInfo dy relocs_def [symmetric] Let_def case_prod_beta
      from run obtain base t s1 b where base: "externalRelocBaseAddress B m segs (linkeditSegIndex (layout leInfo)) = Some base"
        and t: "indirect_tables_of m loadAddr leInfo = Some t"
        and relocs: "forStop (external_reloc B m leInfo segs t n base (chk leInfo segs)) ((), None) relocs = Some (s1, b)"
        and ind: "forEachIndirectPointer m loadAddr uninit (bind_indirect m leInfo segs n (chk leInfo segs)) s1 = Some ((), d')"
        by (auto simp: local d bind_eq_Some_conv)
      have clean1: "noError (snd s1)"
        using ind clean by (auto simp: forEachIndirectPointer_def bind_eq_Some_conv hasError_noError
            dest!: getLinkEditPointers_clean split: if_splits)
      from keepsStepD [OF forStop_keepsStep [OF bind_checker.reloc_keepsStep [OF chk ok]] relocs clean1] c obtain c1 where
        c1: "forStop (external_reloc B m leInfo segs t n base (h leInfo segs)) (c, None) relocs = Some ((c1, None), False)" "I c1" by blast
      have "s1 = ((), None)" using clean1 by (simp add: noError_def prod_eq_iff)
      with ind clean have "\<exists>c'. forEachIndirectPointer m loadAddr uninit (bind_indirect m leInfo segs n (h leInfo segs)) (c1, None) = Some (c', None) \<and> I c'"
        using indirect_pointers_clean [OF _ _ bind_checker.indirect_keepsStep [OF chk ok] c1(2)] by fastforce
      with c1 base t show ?thesis by (auto simp: local)
    qed
  qed
qed

section \<open>Soundness of validBindInfo\<close>

text \<open>What the segment's protections must be for a bind of the type.\<close>

definition type_allowed :: "build \<Rightarrow> memory \<Rightarrow> SegmentInfo \<Rightarrow> u8 \<Rightarrow> bool" where
  "type_allowed B m seg type \<longleftrightarrow>
     (if type = BIND_TYPE_POINTER then
        seg_writable seg \<and> (\<not> seg_executable seg \<or> enforceFormat B m executableData = Some False)
      else (type = BIND_TYPE_TEXT_ABSOLUTE32 \<or> type = BIND_TYPE_TEXT_PCREL32) \<and> \<not> seg_writable seg \<and> seg_executable seg \<and>
        (textRelocs seg \<or> BUILDING_APP_CACHE_UTIL B \<and> isKextBundle m))"

definition bind_ok :: "build \<Rightarrow> memory \<Rightarrow> LinkEditInfo \<Rightarrow> segment_array \<Rightarrow> bind_args \<Rightarrow> bool" where
  "bind_ok B m leInfo segs b \<longleftrightarrow>
     bi_segIndexSet b \<and> ucast (bi_segmentIndex b) < linkeditSegIndex (layout leInfo) \<and> bi_symbolName b \<noteq> None \<and>
     bi_libraryOrdinalSet b \<and> BIND_SPECIAL_DYLIB_WEAK_LOOKUP \<le> bi_libOrdinal b \<and> bi_libOrdinal b \<le> sint (bi_dylibCount b) \<and>
     (\<exists>seg. seg_at segs (unat (bi_segmentIndex b)) = Some seg \<and> bi_segmentOffset b \<le> vmSize seg - ucast (bi_ptrSize b) \<and>
        type_allowed B m seg (bi_type b))"

lemma bindTypeError_None: "bindTypeError B m seg type = Some None \<Longrightarrow> type_allowed B m seg type"
  by (auto simp: bindTypeError_def type_allowed_def andAlso_def bind_eq_Some_conv Let_def split: if_splits)

lemma bindStateError_None:
  assumes "bindStateError B m leInfo segs b = Some None"
  shows "bind_ok B m leInfo segs b"
  using assms bindTypeError_None
  by (auto simp: bindStateError_def bind_ok_def bind_eq_Some_conv not_le not_less split: if_splits)

interpretation binds_valid: bind_checker "bind_validator B m leInfo segs" "bind_ok B m leInfo segs" for B m leInfo segs
proof
  fix s b s' stop
  assume run: "bind_validator B m leInfo segs s b = Some (s', stop)" and "noError (snd s')"
  then have "bindStateError B m leInfo segs b = Some None" and "snd s = snd s'" and "\<not> stop"
    by (auto simp: bind_validator_def invalidBindState_def split: option.splits)
  with \<open>noError (snd s')\<close> show "noError (snd s) \<and> \<not> stop \<and> bind_ok B m leInfo segs b"
    by (simp add: bindStateError_None)
qed

text \<open>The block that writes down every bind and the segment it is in.\<close>

definition recording_binds :: "LinkEditInfo \<Rightarrow> segment_array \<Rightarrow> (bind_args \<times> SegmentInfo option) list bind_block" where
  "recording_binds leInfo segs s b = Some ((fst s @ [(b, seg_at segs (unat (bi_segmentIndex b)))], snd s), False)"

text \<open>
  Where a validated bind is and what it binds to. As for rebases, the bound on the offset is the
  intended one when the segment is at least as large as a pointer.
\<close>

definition bind_fine :: "build \<Rightarrow> memory \<Rightarrow> bind_args \<times> SegmentInfo option \<Rightarrow> bool" where
  "bind_fine B m e \<longleftrightarrow>
     (\<exists>seg\<in>set (segments m). snd e = Some seg \<and> type_allowed B m seg (bi_type (fst e)) \<and>
        (unat (bi_ptrSize (fst e)) \<le> unat (vmSize seg) \<longrightarrow>
           unat (bi_segmentOffset (fst e)) + unat (bi_ptrSize (fst e)) \<le> unat (vmSize seg))) \<and>
     bi_symbolName (fst e) \<noteq> None \<and> BIND_SPECIAL_DYLIB_WEAK_LOOKUP \<le> bi_libOrdinal (fst e) \<and>
     bi_libOrdinal (fst e) \<le> sint (bi_dylibCount (fst e))"

lemma bind_ok_fine:
  assumes "bind_ok B m leInfo segs b" and "\<And>i seg. seg_at segs i = Some seg \<Longrightarrow> seg \<in> set (segments m)"
  shows "bind_fine B m (b, seg_at segs (unat (bi_segmentIndex b)))"
proof -
  from assms obtain seg where seg: "seg_at segs (unat (bi_segmentIndex b)) = Some seg" "seg \<in> set (segments m)"
    "bi_segmentOffset b \<le> vmSize seg - ucast (bi_ptrSize b)" "type_allowed B m seg (bi_type b)"
    by (auto simp: bind_ok_def)
  have "unat (bi_segmentOffset b) + unat (bi_ptrSize b) \<le> unat (vmSize seg)" if "unat (bi_ptrSize b) \<le> unat (vmSize seg)"
    using seg(3) that by (simp add: word_le_nat_alt unat_sub)
  with seg assms(1) show ?thesis by (auto simp: bind_fine_def bind_ok_def)
qed

lemma validBindInfo_visits:
  assumes "validBindInfo B m lim loadAddr uninit d = Some (True, d')"
  shows "\<exists>visited. forEachBind_location B m lim loadAddr uninit recording_binds (\<lambda>s name. Some s) ([], None) = Some (visited, None)
    \<and> (\<forall>e\<in>set visited. bind_fine B m e)"
proof -
  from assms have "forEachBind_location B m lim loadAddr uninit (bind_validator B m) (\<lambda>s name. Some s) ((), d) = Some ((), d')" "noError d'"
    by (auto simp: validBindInfo_def)
  from bind_location_clean [OF this, where h = recording_binds and I = "\<lambda>tr. \<forall>e\<in>set tr. bind_fine B m e" and c = "[]"
      and strong = "\<lambda>s name. Some s", OF binds_valid.bind_checker_axioms]
  show ?thesis by (auto simp: serves_def servesStrong_def recording_binds_def intro: bind_ok_fine)
qed

text \<open>
  C15: When \<open>validBindInfo\<close> accepts a file, walking its binds visits no location outside the segment
  array and ends without error, and every bind visited, whether it comes from the regular, lazy or
  weak opcodes, external relocations or indirect symbols, has a symbol name and a library ordinal
  from the special ones up to the number of dependents reported with it, and is in a segment of the file whose
  protections admit a bind of its type; the whole pointer lies inside the segment, if the segment
  is at least as large as a pointer.
\<close>

theorem validBindInfo_sound:
  assumes "validBindInfo B m lim loadAddr uninit d = Some (True, d')"
  shows "\<exists>visited. forEachBind_location B m lim loadAddr uninit recording_binds (\<lambda>s name. Some s) ([], None) = Some (visited, None)
    \<and> (\<forall>e\<in>set visited. bind_fine B m e)"
  using assms by (rule validBindInfo_visits)

text \<open>
  A bundle with \<open>__TEXT\<close>, a writable \<open>__DATA\<close> that is half zero fill and, in \<open>__LINKEDIT\<close>, opcodes that bind the
  pointer at offset 16 of \<open>__DATA\<close> to the symbol \<open>a\<close> of the bundle itself.
\<close>

definition bind_sample :: memory where
  "bind_sample = with_words (mem_words
     [0xFEEDFACF, 0x01000007, 3, 8, 4, 264, 0x80, 0,
      0x19, 72, 0x45545F5F, 0x00005458, 0, 0, 0, 0, 0x1000, 0, 0, 0, 0x1000, 0, 5, 5, 0, 0,
      0x19, 72, 0x41445F5F, 0x00004154, 0, 0, 0x1000, 0, 0x1000, 0, 0x1000, 0, 0x800, 0, 3, 3, 0, 0,
      0x19, 72, 0x494C5F5F, 0x44454B4E, 0x00005449, 0, 0x2000, 0, 0x1000, 0, 0x2000, 0, 0x1000, 0, 1, 1, 0, 0,
      0x80000022, 48, 0, 0, 0x2000, 12, 0, 0, 0, 0, 0, 0]) 0x2000 [0x00614030, 0x90107151, 0]"

lemma bind_sample_list: "load_commands bind_sample = [32, 104, 176, 248]"
  "\<not> malformed_commands bind_sample" "snd (load_commands_diag bind_sample) = None"
  by (simp_all add: bind_sample_def walk_eval read32_with_words)

lemma bind_sample_cmds: "lc_cmd bind_sample 32 = LC_SEGMENT_64" "lc_cmd bind_sample 104 = LC_SEGMENT_64"
  "lc_cmd bind_sample 176 = LC_SEGMENT_64" "lc_cmd bind_sample 248 = LC_DYLD_INFO_ONLY"
  "lc_cmdsize bind_sample 248 = 48" "read32 bind_sample 96 = 0" "read32 bind_sample 168 = 0"
  "read32 bind_sample 240 = 0" "read32 bind_sample 264 = 0x2000" "read32 bind_sample 268 = 12" "read32 bind_sample 276 = 0"
  "read32 bind_sample 284 = 0" "mh_magic bind_sample = MH_MAGIC_64"
  by (simp_all add: bind_sample_def walk_eval read32_with_words)

lemma bind_sample_names:
  "strcmp_eq bind_sample 40 ''__TEXT''" "\<not> strcmp_eq bind_sample 112 ''__TEXT''"
  "\<not> strcmp_eq bind_sample 112 ''__LINKEDIT''" "\<not> strcmp_eq bind_sample 184 ''__TEXT''"
  "strcmp_eq bind_sample 184 ''__LINKEDIT''"
  by (simp_all add: strcmp_eq_def bind_sample_def with_words_def mem_words_def of_char_def)

lemma bind_sample_segments: "segments bind_sample =
   [sample_segment 0 0x1000 32 5 0, (sample_segment 0x1000 0x1000 104 3 1)\<lparr>fileSize := 0x800\<rparr>, sample_segment 0x2000 0x1000 176 1 2]"
proof -
  have "read64 bind_sample 56 = 0" "read64 bind_sample 64 = 0x1000" "read64 bind_sample 72 = 0"
    "read64 bind_sample 80 = 0x1000" "read32 bind_sample 92 = 5" "read32 bind_sample 100 = 0"
    "read64 bind_sample 128 = 0x1000" "read64 bind_sample 136 = 0x1000" "read64 bind_sample 144 = 0x1000"
    "read64 bind_sample 152 = 0x800" "read32 bind_sample 164 = 3" "read32 bind_sample 172 = 0"
    "read64 bind_sample 200 = 0x2000" "read64 bind_sample 208 = 0x1000" "read64 bind_sample 216 = 0x2000"
    "read64 bind_sample 224 = 0x1000" "read32 bind_sample 236 = 1" "read32 bind_sample 244 = 0"
    by (simp_all add: bind_sample_def walk_eval read32_with_words)
  then show ?thesis
    by (simp add: segments_def segment_commands_def bind_sample_list is_segment_command_def bind_sample_cmds
        segment_info_def segment_info64_def section_scan64_def sections64_def sample_segment_def)
qed

lemma bind_sample_pointers: "getLinkEditPointers bind_sample 0 uninit None = Some (sample_info, None)"
proof -
  have "getLinkEditLoadCommands bind_sample None = Some (no_commands\<lparr>le_dyldInfo := Some 248\<rparr>, None)"
    by (simp add: getLinkEditLoadCommands_def walkDiag_def forEachLoadCommand_list bind_sample_list linkedit_step_def
        bind_sample_cmds once_of_size_def no_commands_def diag_defs)
  moreover have "getLayoutInfo bind_sample 0 uninit = Some sample_layout"
    by (simp add: getLayoutInfo_def segs.walk_fold bind_sample_list bind_sample_segments layout_of_segment_def
        sample_segment_def bind_sample_names Let_def sample_layout_def)
  ultimately show ?thesis by (simp add: getLinkEditPointers_def sample_info_def)
qed

lemma bind_sample_infos: "getAllSegmentsInfos bind_sample (replicate 3 None) = Some (map Some (segments bind_sample))"
  by (simp add: getAllSegmentsInfos_def segs.walk_items bind_sample_list bind_sample_segments sample_segment_def numeral_3_eq_3)

lemma bind_sample_dylibs: "dependentDylibCount bind_sample = Some 0"
  by (simp add: dependentDylibCount_def deps.walk_items bind_sample_list dependents_def isDependentCommand_def bind_sample_cmds)

lemma bind_sample_bytes: "bind_sample 8192 = 0x30" "bind_sample 8193 = 0x40" "bind_sample 8194 = 0x61" "bind_sample 8195 = 0"
  "bind_sample 8196 = 0x51" "bind_sample 8197 = 0x71" "bind_sample 8198 = 0x10" "bind_sample 8199 = 0x90" "bind_sample 8200 = 0"
  by (simp_all add: bind_sample_def with_words_def mem_words_def)

definition sample_bind :: bind_args where
  "sample_bind = \<lparr>bi_opcodeName = ''BIND_OPCODE_DO_BIND'', bi_segIndexSet = True, bi_libraryOrdinalSet = True, bi_dylibCount = 0,
     bi_libOrdinal = 0, bi_ptrSize = 8, bi_segmentIndex = 1, bi_segmentOffset = 16, bi_type = 1, bi_symbolName = Some 8194,
     bi_weakImport = False, bi_lazyBind = False, bi_addend = 0\<rparr>"

lemma bind_sample_walk:
  assumes "h sample_info (map Some (segments bind_sample)) (c, None) sample_bind = Some ((c', None), False)"
  shows "forEachBind_location B bind_sample 8204 0 uninit h (\<lambda>s name. Some s) (c, None) = Some (c', None)"
proof -
  have nul: "find_nul bind_sample 8194 8204 = Some 8195"
    using find_nul.simps [of bind_sample 8194] find_nul.simps [of bind_sample 8195] by (simp add: bind_sample_bytes)
  have uleb: "read_uleb128 bind_sample 8198 8204 = (16, 8199, None)"
    by (simp add: read_uleb128_def uleb_loop.simps bind_sample_bytes)
  note ops = stream_op_def regular_op_def ordinal_op_def symbol_pos_def segment_op_def binding_op_def op_quiet_def bo_uleb_def
    bo_advance_def bind_here_def specialOrdinal_def run_call_def
  have "bind_loop RegularBinds bind_sample 8204 8204 0 8 (h sample_info (map Some (segments bind_sample))) (\<lambda>s name. Some s)
      (stream_start RegularBinds 8192) (c, None) = Some (c', None)"
    using assms
    by (simp add: bind_loop.simps ops stream_start_def bind_sample_bytes nul uleb then_diag_def Let_def sample_bind_def)
  then show ?thesis
    by (simp add: forEachBind_location_def bind_sample_pointers bind_sample_infos bind_sample_dylibs hasError_def Let_def
        bind_streams_def walk_stream_def content_at_def getLinkEditContent_def sample_info_def sample_layout_def
        bind_sample_cmds pointerSize_def)
qed

lemma bind_sample_valid: "validBindInfo B bind_sample 8204 0 uninit None = Some (True, None)"
proof -
  have "seg_at (map Some (segments bind_sample)) 1 = Some ((sample_segment 0x1000 0x1000 104 3 1)\<lparr>fileSize := 0x800\<rparr>)"
    by (simp add: seg_at_def bind_sample_segments)
  moreover have "\<not> linkeditSegIndex (layout sample_info) \<le> ucast (bi_segmentIndex sample_bind)"
    by (simp add: sample_info_def sample_layout_def sample_bind_def word_le_nat_alt)
  ultimately have "bindStateError B bind_sample sample_info (map Some (segments bind_sample)) sample_bind = Some None"
    by (simp add: bindStateError_def bindTypeError_def sample_bind_def sample_segment_def
        seg_writable_def seg_executable_def andAlso_def bind_types BIND_SPECIAL_DYLIB_WEAK_LOOKUP_def)
  then have "bind_validator B bind_sample sample_info (map Some (segments bind_sample)) ((), None) sample_bind = Some (((), None), False)"
    by (simp add: bind_validator_def invalidBindState_def)
  from bind_sample_walk [of "bind_validator B bind_sample", OF this] show ?thesis
    by (simp add: validBindInfo_def)
qed

theorem validBindInfo_sound_witness:
  "\<forall>uninit. \<exists>visited. forEachBind_location dyld_build bind_sample 8204 0 uninit recording_binds (\<lambda>s name. Some s) ([], None)
     = Some (visited, None) \<and> length visited = 1 \<and> (\<forall>e\<in>set visited. bind_fine dyld_build bind_sample e)"
proof
  fix uninit
  have "forEachBind_location dyld_build bind_sample 8204 0 uninit recording_binds (\<lambda>s name. Some s) ([], None) =
      Some ([(sample_bind, seg_at (map Some (segments bind_sample)) (unat (bi_segmentIndex sample_bind)))], None)"
    by (rule bind_sample_walk) (simp add: recording_binds_def)
  with validBindInfo_sound [OF bind_sample_valid, of dyld_build uninit]
  show "\<exists>visited. forEachBind_location dyld_build bind_sample 8204 0 uninit recording_binds (\<lambda>s name. Some s) ([], None)
     = Some (visited, None) \<and> length visited = 1 \<and> (\<forall>e\<in>set visited. bind_fine dyld_build bind_sample e)" by auto
qed

end
