(* ===== verification/MachO_Load.thy ===== *)
theory MachO_Load
  imports MachO_Bind Fat_File
begin

text \<open>
  Loading a file: \<open>validLinkedit\<close>, \<open>remapIfZeroFill\<close>, \<open>loadFromBuffer\<close> and \<open>load\<close> of
  \<open>src/dyld3/MachOAnalyzer.cpp\<close>, with the operations of \<open>src/dyld3/ClosureFileSystemPhysical.cpp\<close> that give
  mappings back. This is where the slice of a universal file is chosen, its structure validated, its segments
  moved to where they will be at runtime, and the content of \<open>__LINKEDIT\<close> validated.

  The state holds the \<open>LoadedFileInfo\<close>, the bytes mapped from its \<open>fileContent\<close> on, the calls into the kernel
  that change mappings, in order, and the diagnostics. What the kernel answers is the record \<open>kernel\<close>: the address
  of \<open>vm_allocate\<close>, whose memory is zero, or its failure, and whether a \<open>vm_copy\<close> succeeds. \<open>None\<close> is, as in the
  validators, a failed assertion, a fault or undefined behaviour; it is also the result when a segment is
  copied to addresses outside the memory that was allocated for it.
\<close>

section \<open>The content of LINKEDIT\<close>

definition validLinkedit :: "build \<Rightarrow> memory \<Rightarrow> nat \<Rightarrow> u64 \<Rightarrow> LayoutInfo \<Rightarrow> diag \<Rightarrow> (bool \<times> diag) option" where
  "validLinkedit B m lim loadAddr uninit d =
     Option.bind (validLinkeditLayout B m loadAddr uninit d) (\<lambda>(ok, d1).
     if \<not> ok then Some (False, d1)
     else if hasLoadCommand m LC_DYLD_CHAINED_FIXUPS then validChainedFixupsInfo m loadAddr uninit d1
     else if SUPPORT_ARCH_arm64e B \<and> mh_cputype m = CPU_TYPE_ARM64 \<and> masked_subtype (mh_cpusubtype m) = CPU_SUBTYPE_ARM64E then
       validChainedFixupsInfoOldArm64e m lim loadAddr uninit d1
     else
       Option.bind (validRebaseInfo B m loadAddr uninit d1) (\<lambda>(ok, d2).
       if \<not> ok then Some (False, d2) else validBindInfo B m lim loadAddr uninit d2))"

section \<open>Mapped files\<close>

text \<open>How a file's memory is given back: \<open>munmap\<close>, \<open>vm_deallocate\<close>, or \<open>vm_deallocate\<close> from the lowest segment.\<close>

datatype unload_method = UnmapFile | DeallocateFile | DeallocateFromLowest

text \<open>\<open>sliceLen\<close> is a field of 63 bits.\<close>

record LoadedFileInfo =
  fi_fileContent :: u64
  fi_fileContentLen :: u64
  fi_sliceOffset :: u64
  fi_sliceLen :: "63 word"
  fi_isOSBinary :: bool
  fi_inode :: u64
  fi_mtime :: u64
  fi_unload :: "unload_method option"
  fi_path :: string

datatype vm_call = VmAllocate u64 u64 | VmDeallocate u64 u64 | VmProtect u64 u64 | Munmap u64 u64

record load_state =
  ld_info :: LoadedFileInfo
  ld_memory :: memory
  ld_calls :: "vm_call list"
  ld_diag :: diag

record kernel =
  vm_page_size :: u64
  vm_allocate :: "u64 \<Rightarrow> u64 option"
  vm_copy :: "u64 \<Rightarrow> u64 \<Rightarrow> u64 \<Rightarrow> bool"

definition vm_calls :: "vm_call list \<Rightarrow> load_state \<Rightarrow> load_state" where
  "vm_calls cs s = s\<lparr>ld_calls := ld_calls s @ cs\<rparr>"

definition trunc_page :: "kernel \<Rightarrow> u64 \<Rightarrow> u64" where
  "trunc_page K x = x AND NOT (vm_page_size K - 1)"

definition round_up_page :: "kernel \<Rightarrow> u64 \<Rightarrow> u64" where
  "round_up_page K x = trunc_page K (x + (vm_page_size K - 1))"

text \<open>The lowest address of a segment, which kernel collections need not have in \<open>__TEXT\<close>.\<close>

definition lowestSegment :: "memory \<Rightarrow> u64 option" where
  "lowestSegment m = forEachSegment m (\<lambda>base info. Some (min base (vmAddr info), False)) (- 1)"

definition unloadFile :: "load_state \<Rightarrow> load_state option" where
  "unloadFile s =
     (let info = ld_info s in
      case fi_unload info of
        None \<Rightarrow> Some s
      | Some UnmapFile \<Rightarrow> Some (vm_calls [Munmap (fi_fileContent info) (fi_fileContentLen info)] s)
      | Some DeallocateFile \<Rightarrow> Some (vm_calls [VmDeallocate (fi_fileContent info) (fi_fileContentLen info)] s)
      | Some DeallocateFromLowest \<Rightarrow>
          Option.bind (lowestSegment (ld_memory s)) (\<lambda>baseAddress.
          Option.bind (preferredLoadAddress (ld_memory s)) (\<lambda>textSegVMAddr.
            Some (vm_calls [VmDeallocate (fi_fileContent info - (textSegVMAddr - baseAddress)) (fi_fileContentLen info)] s))))"

text \<open>
  Everything outside the kept range is unmapped. The length of the second range is computed from the end of the
  file, also when the rounded start lies behind it.
\<close>

definition unloadPartialFile :: "kernel \<Rightarrow> u64 \<Rightarrow> u64 \<Rightarrow> load_state \<Rightarrow> load_state" where
  "unloadPartialFile K keepStartOffset keepLength s =
     (let info = ld_info s; first = fi_fileContent info;
          start = round_up_page K (first + keepStartOffset + keepLength); stop = first + fi_fileContentLen info;
          s1 = vm_calls
            ((if keepStartOffset \<noteq> 0 then [Munmap first (trunc_page K keepStartOffset)] else []) @
             (if keepStartOffset + keepLength \<noteq> fi_fileContentLen info then [Munmap start (stop - start)] else [])) s
      in s1\<lparr>ld_info := info\<lparr>fi_fileContent := first + keepStartOffset, fi_fileContentLen := keepLength\<rparr>,
            ld_memory := shift_mem (unat keepStartOffset) (ld_memory s)\<rparr>)"

section \<open>The layout of a loaded image\<close>

definition copy_range :: "memory \<Rightarrow> nat \<Rightarrow> nat \<Rightarrow> nat \<Rightarrow> memory \<Rightarrow> memory" where
  "copy_range m src n dst buf = (\<lambda>i. if dst \<le> i \<and> i < dst + n then m (src + (i - dst)) else buf i)"

definition copy_segment ::
    "kernel \<Rightarrow> u64 \<Rightarrow> memory \<Rightarrow> u64 \<Rightarrow> u64 \<Rightarrow> u64 \<Rightarrow> memory \<times> diag \<Rightarrow> SegmentInfo \<Rightarrow> ((memory \<times> diag) \<times> bool) option" where
  "copy_segment K content m newMappedAddr vmSpaceRequired baseAddress s seg =
     (if fileSize seg \<noteq> 0 \<and> vmSize seg \<noteq> 0 then
        (let dst = vmAddr seg - baseAddress in
         if \<not> vm_copy K (content + fileOffset seg) (fileSize seg) (newMappedAddr + dst) then
           Some ((fst s, error ''vm_copy() failure'' (snd s)), True)
         else if unat dst + unat (fileSize seg) \<le> unat vmSpaceRequired then
           Some ((copy_range m (unat (fileOffset seg)) (unat (fileSize seg)) (unat dst) (fst s), snd s), False)
         else None)
      else Some (s, False))"

text \<open>
  A null pointer is only returned together with an error, otherwise the pointer is the new \<open>fileContent\<close>: the
  result is the state alone.
\<close>

definition remapIfZeroFill :: "build \<Rightarrow> kernel \<Rightarrow> load_state \<Rightarrow> load_state option" where
  "remapIfZeroFill B K s =
     (let m = ld_memory s; info = ld_info s in
      Option.bind (analyzeSegmentsLayout B m) (\<lambda>(vmSpaceRequired, hasZeroFill).
      if \<not> hasZeroFill then Some s
      else case vm_allocate K vmSpaceRequired of
        None \<Rightarrow> Some (s\<lparr>ld_diag := error ''vm_allocate failure'' (ld_diag s)\<rparr>)
      | Some newMappedAddr \<Rightarrow>
          Option.bind (preferredLoadAddress m) (\<lambda>textSegVMAddr.
          Option.bind (if BUILDING_APP_CACHE_UTIL B then lowestSegment m else Some textSegVMAddr) (\<lambda>baseAddress.
          Option.bind (forEachSegment m (copy_segment K (fi_fileContent info) m newMappedAddr vmSpaceRequired baseAddress)
              (\<lambda>i. 0, ld_diag s)) (\<lambda>(buf, d).
          let s1 = vm_calls [VmAllocate newMappedAddr vmSpaceRequired] s in
          if noError d then
            map_option (\<lambda>s2. (vm_calls [VmProtect newMappedAddr vmSpaceRequired] s2)
              \<lparr>ld_info := info\<lparr>fi_unload := Some (if textSegVMAddr \<noteq> baseAddress then DeallocateFromLowest else DeallocateFile),
                 fi_fileContent := newMappedAddr + (textSegVMAddr - baseAddress), fi_fileContentLen := vmSpaceRequired\<rparr>,
               ld_memory := shift_mem (unat (textSegVMAddr - baseAddress)) buf, ld_diag := d\<rparr>) (unloadFile s1)
          else Some ((vm_calls [VmDeallocate newMappedAddr vmSpaceRequired] s1)\<lparr>ld_diag := d\<rparr>))))))"

section \<open>Loading\<close>

text \<open>Giving the file back and reporting failure.\<close>

definition unloadAndFail :: "load_state \<Rightarrow> (bool \<times> load_state) option" where
  "unloadAndFail s = map_option (Pair False) (unloadFile s)"

text \<open>The first part: the slice of a universal file, or the whole file; whether loading goes on.\<close>

definition chooseSlice :: "kernel \<Rightarrow> GradedArchs \<Rightarrow> load_state \<Rightarrow> (bool \<times> load_state) option" where
  "chooseSlice K archs s =
     (let info = ld_info s;
          (r, d) = isFatFileWithSlice (ld_memory s) (ld_diag s) (fi_fileContentLen info) archs (fi_isOSBinary info)
                     (fi_sliceOffset info) (ucast (fi_sliceLen info));
          s1 = s\<lparr>ld_diag := d\<rparr>
      in if fr_found r then
           (let s2 = unloadPartialFile K (fr_sliceOffset r) (fr_sliceLen r) s1
            in Some (True, s2\<lparr>ld_info := (ld_info s2)\<lparr>fi_sliceOffset := fr_sliceOffset r, fi_sliceLen := ucast (fr_sliceLen r)\<rparr>\<rparr>))
         else if hasError d then unloadAndFail s1
         else if fr_missingSlice r then unloadAndFail (s1\<lparr>ld_diag := error ''missing compatible arch in %s'' d\<rparr>)
         else Some (True, s1))"

definition loadFromBuffer ::
    "build \<Rightarrow> kernel \<Rightarrow> nat \<Rightarrow> LayoutInfo \<Rightarrow> string \<Rightarrow> GradedArchs \<Rightarrow> Platform \<Rightarrow> load_state \<Rightarrow> (bool \<times> load_state) option" where
  "loadFromBuffer B K lim uninit path archs platform s =
     Option.bind (chooseSlice K archs s) (\<lambda>(go, s1).
     if \<not> go then Some (False, s1)
     else
       Option.bind (validMachOForArchAndPlatform B (ld_memory s1) (ld_diag s1) (ucast (fi_sliceLen (ld_info s1))) path archs
           platform (fi_isOSBinary (ld_info s1))) (\<lambda>(ok, d).
       let s2 = s1\<lparr>ld_diag := d\<rparr> in
       if \<not> ok then unloadAndFail s2
       else
         Option.bind (remapIfZeroFill B K s2) (\<lambda>s3.
         if hasError (ld_diag s3) then unloadAndFail s3
         else
           Option.bind (validLinkedit B (ld_memory s3) lim (fi_fileContent (ld_info s3)) uninit (ld_diag s3)) (\<lambda>(_, d).
           let s4 = s3\<lparr>ld_diag := d\<rparr> in
           if hasError d then unloadAndFail s4 else Some (True, s4)))))"

text \<open>
  \<open>loadFile\<close> is the file system's operation: whether it succeeded, and what it mapped, with the diagnostics its
  error block has set. An empty \<open>LoadedFileInfo\<close> is \<open>None\<close>.
\<close>

definition load_file ::
    "build \<Rightarrow> kernel \<Rightarrow> nat \<Rightarrow> LayoutInfo \<Rightarrow> (string \<Rightarrow> diag \<Rightarrow> bool \<times> load_state) \<Rightarrow> string \<Rightarrow> GradedArchs \<Rightarrow> Platform \<Rightarrow> diag \<Rightarrow>
     (load_state option \<times> diag) option" where
  "load_file B K lim uninit loadFile path archs platform d =
     (if hasError d then Some (None, d)
      else
        (let (ok, s) = loadFile path d in
         if \<not> ok then Some (None, ld_diag s)
         else
           (let s1 = (if hasError (ld_diag s) then s\<lparr>ld_diag := clearError (ld_diag s)\<rparr> else s) in
            map_option (\<lambda>(loaded, s2). (if loaded then Some s2 else None, ld_diag s2))
              (loadFromBuffer B K lim uninit path archs platform s1))))"

section \<open>What the load commands say after a copy\<close>

lemma strncmp_eq_agree: "agree p (p + length s) m m' \<Longrightarrow> strncmp_eq m p s \<longleftrightarrow> strncmp_eq m' p s"
  by (induction s arbitrary: p) (auto simp: agree_def)

lemma strcmp_eq_agree: "agree p (p + length s + 1) m m' \<Longrightarrow> strcmp_eq m p s \<longleftrightarrow> strcmp_eq m' p s"
  using strncmp_eq_agree [of p s m m'] by (auto simp: strcmp_eq_def agree_def)

lemma scan64_agree:
  assumes size: "unat (lc_cmdsize m c) = 72 + 80 * unat (read32 m (c + 64))" and same: "agree c (c + unat (lc_cmdsize m c)) m m'"
  shows "segment_info64 m' i c = segment_info64 m i c"
proof -
  let ?n = "unat (read32 m (c + 64))"
  have r32: "read32 m' q = read32 m q" if "c \<le> q" "q + 4 \<le> c + 72 + 80 * ?n" for q
    by (rule read32_agree [symmetric], rule agree_mono [OF same]) (use that size in auto)
  have r64: "read64 m' q = read64 m q" if "c \<le> q" "q + 8 \<le> c + 72 + 80 * ?n" for q
    by (rule read64_agree [symmetric], rule agree_mono [OF same]) (use that size in auto)
  have "section_scan64 m' c = section_scan64 m c"
    unfolding section_scan64_def sections64_def
    by (rule foldl_cong) (auto simp: r32 r64)
  then show ?thesis by (simp add: segment_info64_def r32 r64)
qed

lemma scan32_agree:
  assumes size: "unat (lc_cmdsize m c) = 56 + 68 * unat (read32 m (c + 48))" and same: "agree c (c + unat (lc_cmdsize m c)) m m'"
    and cpu: "mh_cputype m' = mh_cputype m"
  shows "segment_info32 m' i c = segment_info32 m i c"
proof -
  let ?n = "unat (read32 m (c + 48))"
  have r32: "read32 m' q = read32 m q" if "c \<le> q" "q + 4 \<le> c + 56 + 68 * ?n" for q
    by (rule read32_agree [symmetric], rule agree_mono [OF same]) (use that size in auto)
  have "section_scan32 m' c = section_scan32 m c"
    unfolding section_scan32_def sections32_def
    by (rule foldl_cong) (auto simp: r32)
  then show ?thesis by (simp add: segment_info32_def r32 cpu)
qed

lemma validSegments_commands:
  assumes "validSegments B m d fileLen = Some (True, d')"
  shows "\<forall>c\<in>set (load_commands m). segmentCommandError m fileLen c = None"
proof (rule validSegments_passes [OF assms])
  fix d1
  assume cmds: "walkDiag m (\<lambda>(bad, d) c. case segmentCommandError m fileLen c of
           Some msg \<Rightarrow> Some ((True, error msg d), True) | None \<Rightarrow> Some ((bad, d), False)) False d = Some (False, d1)"
  then show ?thesis
    by (rule walkDiag_all_good [of _ _ _ _ _ _ "\<lambda>bad. \<not> bad"]) (auto split: option.splits)
qed

text \<open>A copy of the mach header and the load commands has the same segments.\<close>

lemma segments_agree:
  assumes same: "agree 0 (cmds_end m) m m'" and ok: "\<forall>c\<in>set (load_commands m). segmentCommandError m fileLen c = None"
  shows "segments m' = segments m"
proof -
  have "agree 0 28 m m'" using same by (rule agree_mono) (use cmds_end_ge [of m] in auto)
  note h = mh_agree [OF this]
  have inside: "agree c (c + unat (lc_cmdsize m c)) m m'" "8 \<le> unat (lc_cmdsize m c)" if "c \<in> set (load_commands m)" for c
    using load_commands_bounds [of m] that agree_mono [OF same] by auto
  have cmd: "lc_cmd m' c = lc_cmd m c" if "c \<in> set (load_commands m)" for c
    unfolding lc_cmd_def by (rule read32_agree [symmetric], rule agree_mono [OF inside(1) [OF that]]) (use inside(2) [OF that] in auto)
  have info: "segment_info m' i c = segment_info m i c" if "c \<in> set (load_commands m)" "is_segment_command m c" for i c
  proof -
    have "segmentCommandError m fileLen c = None" using ok that(1) by blast
    note size = segmentCommandError_None [OF this]
    show ?thesis
      using that(2) size scan64_agree [OF _ inside(1) [OF that(1)]] scan32_agree [OF _ inside(1) [OF that(1)] h(2) [symmetric]]
      by (auto simp: segment_info_def is_segment_command_def cmd [OF that(1)])
  qed
  have cmds: "load_commands m' = load_commands m" using load_commands_diag_agree [OF same] by simp
  have "segment_commands m' = segment_commands m"
    unfolding segment_commands_def cmds by (rule filter_cong) (simp_all add: is_segment_command_def cmd)
  moreover have "indexed (segment_info m') i cs = indexed (segment_info m) i cs" if "set cs \<subseteq> set (segment_commands m)" for i cs
    using that by (induction cs arbitrary: i) (auto simp: info segment_commands_def)
  ultimately show ?thesis by (simp add: segments_def)
qed
section \<open>Where the segments are copied to\<close>

definition seg_copied :: "SegmentInfo \<Rightarrow> bool" where
  "seg_copied seg \<longleftrightarrow> fileSize seg \<noteq> 0 \<and> vmSize seg \<noteq> 0"

definition seg_place :: "u64 \<Rightarrow> SegmentInfo \<Rightarrow> nat" where
  "seg_place base seg = unat (vmAddr seg - base)"

definition seg_holds :: "u64 \<Rightarrow> SegmentInfo \<Rightarrow> nat \<Rightarrow> bool" where
  "seg_holds base seg i \<longleftrightarrow> seg_copied seg \<and> seg_place base seg \<le> i \<and> i < seg_place base seg + unat (fileSize seg)"

definition copy_all :: "memory \<Rightarrow> u64 \<Rightarrow> memory \<Rightarrow> SegmentInfo list \<Rightarrow> memory" where
  "copy_all m base = foldl (\<lambda>buf seg.
     if seg_copied seg then copy_range m (unat (fileOffset seg)) (unat (fileSize seg)) (seg_place base seg) buf else buf)"

lemma copy_all_Cons:
  "copy_all m base buf (seg # segs) = copy_all m base
     (if seg_copied seg then copy_range m (unat (fileOffset seg)) (unat (fileSize seg)) (seg_place base seg) buf else buf) segs"
  by (simp add: copy_all_def)

lemma copy_segment_step:
  assumes "copy_segment K content m new vmSpace base (buf, d) seg = Some (s1, b)"
  shows "noError (snd s1) \<Longrightarrow> noError d" and "b \<longrightarrow> \<not> noError (snd s1)"
    and "noError (snd s1) \<Longrightarrow> fst s1 =
      (if seg_copied seg then copy_range m (unat (fileOffset seg)) (unat (fileSize seg)) (seg_place base seg) buf else buf)"
    and "noError (snd s1) \<Longrightarrow> seg_copied seg \<Longrightarrow> seg_place base seg + unat (fileSize seg) \<le> unat vmSpace"
  using assms by (auto simp: copy_segment_def seg_copied_def seg_place_def Let_def split: if_splits)

lemma copy_segments_run:
  assumes "forStop (copy_segment K content m new vmSpace base) (buf0, d0) segs = Some ((buf, d), b)" and "noError d"
  shows "noError d0 \<and> buf = copy_all m base buf0 segs
    \<and> (\<forall>seg\<in>set segs. seg_copied seg \<longrightarrow> seg_place base seg + unat (fileSize seg) \<le> unat vmSpace)"
  using assms
proof (induction segs arbitrary: buf0 d0)
  case Nil
  then show ?case by (simp add: copy_all_def)
next
  case (Cons seg segs)
  from Cons.prems(1) obtain s1 b1 where step: "copy_segment K content m new vmSpace base (buf0, d0) seg = Some (s1, b1)"
    and rest: "if b1 then s1 = (buf, d) \<and> b else forStop (copy_segment K content m new vmSpace base) s1 segs = Some ((buf, d), b)"
    by (cases rule: forStop_ConsE) auto
  from rest copy_segment_step(2) [OF step] Cons.prems(2)
  have run: "forStop (copy_segment K content m new vmSpace base) (fst s1, snd s1) segs = Some ((buf, d), b)"
    by (auto split: if_splits)
  note ih = Cons.IH [OF run Cons.prems(2)]
  then have "noError (snd s1)" by simp
  with ih copy_segment_step [OF step] show ?case by (simp add: copy_all_Cons)
qed

text \<open>Copies to disjoint places do not disturb each other.\<close>

lemma copy_all_at:
  assumes "sorted_wrt (\<lambda>a b. \<forall>i. \<not> (seg_holds base a i \<and> seg_holds base b i)) segs"
  shows "\<forall>seg\<in>set segs. \<forall>i. seg_holds base seg i \<longrightarrow> copy_all m base buf segs i = m (unat (fileOffset seg) + (i - seg_place base seg))"
    and "\<forall>i. (\<forall>seg\<in>set segs. \<not> seg_holds base seg i) \<longrightarrow> copy_all m base buf segs i = buf i"
  using assms
proof (induction segs rule: rev_induct)
  case (snoc seg segs)
  have last: "copy_all m base buf (segs @ [seg]) i =
      (if seg_holds base seg i then m (unat (fileOffset seg) + (i - seg_place base seg)) else copy_all m base buf segs i)" for i
    by (simp add: copy_all_def copy_range_def seg_holds_def)
  {
    case 1
    with snoc.IH(1) last show ?case by (auto simp: sorted_wrt_append)
  next
    case 2
    with snoc.IH(2) last show ?case by (auto simp: sorted_wrt_append)
  }
qed (simp_all add: copy_all_def)

lemma place_address:
  assumes "seg_place base seg \<le> i" and "i < seg_place base seg + k" and "unat (vmAddr seg) + k \<le> 2 ^ 64"
  shows "unat (of_nat i + base) = unat (vmAddr seg) + (i - seg_place base seg)"
proof -
  have "(of_nat i :: u64) = of_nat (seg_place base seg) + of_nat (i - seg_place base seg)"
    using assms(1) by (simp flip: of_nat_add)
  then have "of_nat i + base = vmAddr seg + of_nat (i - seg_place base seg)" by (simp add: seg_place_def)
  moreover have "unat (vmAddr seg) + (i - seg_place base seg) < 2 ^ 64" using assms by simp
  ultimately show ?thesis by (simp add: unat_word_ariths unat_of_nat take_bit_eq_mod mod_add_right_eq)
qed

lemma segment_file_in_vm:
  assumes "\<forall>c\<in>set (load_commands m). segmentCommandError m fileLen c = None" and "seg \<in> set (segments m)" and "vmSize seg \<noteq> 0"
  shows "unat (fileSize seg) \<le> unat (vmSize seg)"
proof -
  from assms(2) obtain i c where c: "c \<in> set (load_commands m)" "is_segment_command m c" and seg: "seg = segment_info m i c"
    unfolding segments_def segment_commands_def by (auto dest!: set_indexed)
  have "segmentCommandError m fileLen c = None" using assms(1) c(1) by blast
  note ok = segmentCommandError_None [OF this]
  show ?thesis
  proof (cases "lc_cmd m c = LC_SEGMENT_64")
    case True
    with ok(1) assms(3) show ?thesis
      by (auto simp: seg segment_info_def segment_info64_def word_le_nat_alt split: prod.splits)
  next
    case False
    with c(2) have cmd: "lc_cmd m c = LC_SEGMENT" by (simp add: is_segment_command_def)
    with ok(2) assms(3) show ?thesis
      by (auto simp: seg segment_info_def segment_info32_def word_le_nat_alt Let_def split: prod.splits)
  qed
qed

lemma segments_apart:
  assumes sound: "layout_sound m fileLen" and few: "length (segments m) \<le> 8192" and "is64 m"
    and cmds: "\<forall>c\<in>set (load_commands m). segmentCommandError m fileLen c = None"
  shows "sorted_wrt (\<lambda>a b. \<forall>i. \<not> (seg_holds base a i \<and> seg_holds base b i)) (segments m)"
  unfolding sorted_wrt_iff_nth_less
proof (intro allI impI notI)
  fix j k i assume jk: "j < k" "k < length (segments m)"
    and holds: "seg_holds base (segments m ! j) i \<and> seg_holds base (segments m ! k) i"
  let ?a = "segments m ! j" and ?b = "segments m ! k"
  have mem: "?a \<in> set (segments m)" "?b \<in> set (segments m)" using jk by auto
  have at: "unat (of_nat i + base) = unat (vmAddr seg) + (i - seg_place base seg) \<and> i - seg_place base seg < unat (vmSize seg)"
    if "seg \<in> set (segments m)" "seg_holds base seg i" for seg
  proof -
    have "unat (fileSize seg) \<le> unat (vmSize seg)" using that segment_file_in_vm [OF cmds] by (auto simp: seg_holds_def seg_copied_def)
    moreover have "unat (vmAddr seg) + unat (vmSize seg) < 2 ^ 64" using sound that(1) assms(3) by (auto simp: layout_sound_def)
    ultimately show ?thesis using that(2) place_address [of base seg i "unat (fileSize seg)"] by (auto simp: seg_holds_def)
  qed
  have "disjoint_ranges (vmAddr ?a) (vmSize ?a) (vmAddr ?b) (vmSize ?b)"
    using sound jk few assms(3) by (auto simp: layout_sound_def Let_def)
  with at [OF mem(1)] at [OF mem(2)] holds show False by (auto simp: disjoint_ranges_def seg_holds_def seg_copied_def)
qed
section \<open>Errors are not forgotten\<close>

text \<open>A block after which the diagnostics are clean was also entered with clean ones.\<close>

definition keepsErrors :: "('s \<times> diag \<Rightarrow> 'a \<Rightarrow> (('s \<times> diag) \<times> bool) option) \<Rightarrow> bool" where
  "keepsErrors f \<longleftrightarrow> (\<forall>s x s' b. f s x = Some (s', b) \<longrightarrow> noError (snd s') \<longrightarrow> noError (snd s))"

named_theorems keeps \<open>blocks and validators that do not forget an error\<close>

lemma keepsErrorsD: "keepsErrors f \<Longrightarrow> f s x = Some (s', b) \<Longrightarrow> noError (snd s') \<Longrightarrow> noError (snd s)"
  unfolding keepsErrors_def by blast

lemma forStop_keeps:
  assumes "keepsErrors f" and run: "forStop f s xs = Some (s', b)" and "noError (snd s')"
  shows "noError (snd s)"
proof -
  have "noError (snd s') \<longrightarrow> noError (snd s)"
    using run by (rule forStop_invariant) (use keepsErrorsD [OF assms(1)] in blast)+
  with assms(3) show ?thesis by simp
qed

lemma walkDiag_keeps: "keepsErrors f \<Longrightarrow> walkDiag m f s d = Some (s', d') \<Longrightarrow> noError d' \<Longrightarrow> noError d"
  by (erule walkDiag_run) (auto dest: forStop_keeps)

lemma forEachSegment_keeps:
  assumes "keepsErrors f" and run: "forEachSegment m f s = Some s'" and "noError (snd s')"
  shows "noError (snd s)"
proof -
  have "noError (snd s') \<longrightarrow> noError (snd s)"
    using run by (rule segs.walk_invariant) (use keepsErrorsD [OF assms(1)] in blast)+
  with assms(3) show ?thesis by simp
qed

lemma path_step_keeps [keeps]: "keepsErrors (path_step m)"
  by (auto simp: keepsErrors_def path_step_def Let_def split: if_splits option.splits)

lemma validEmbeddedPaths_keeps:
  assumes "validEmbeddedPaths m d = Some (True, d')" and "noError d'"
  shows "noError d"
  using assms walkDiag_keeps [OF path_step_keeps] by (auto simp: validEmbeddedPaths_def bind_eq_Some_conv split: if_splits)

lemma segment_check_keeps [keeps]: "keepsErrors (segment_check B m fileLen)"
proof -
  have "noError (snd s)" if "segment_permissions B m s x = Some (s', b)" "noError (snd s')" for s x s' b
    using that by (cases s) (auto simp: segment_permissions_def bind_eq_Some_conv split: if_splits)
  then show ?thesis
    by (auto simp: keepsErrors_def segment_check_def bind_eq_Some_conv Let_def split: if_splits prod.splits)
qed

lemma overlap_check_keeps [keeps]: "keepsErrors (overlap_check B m info)"
  by (auto simp: keepsErrors_def overlap_check_def Let_def bind_eq_Some_conv split: if_splits prod.splits)

lemma overlap_pass_keeps:
  assumes "overlap_pass B m d = Some (bad, d')" and "noError d'"
  shows "noError d"
proof -
  have "keepsErrors (\<lambda>(badSegments, d) info1. map_option (\<lambda>((bad, stop1), d'). ((bad, d'), stop1))
         (forEachSegment m (overlap_check B m info1) ((badSegments, False), d)))"
    using forEachSegment_keeps [OF overlap_check_keeps] by (fastforce simp: keepsErrors_def)
  from forEachSegment_keeps [OF this, of m "(False, d)" "(bad, d')"] assms show ?thesis by (simp add: overlap_pass_def)
qed

lemma section_pass_keeps:
  assumes "section_pass B m d = Some (bad, d')" and "noError d'"
  shows "noError d"
proof -
  have "keepsErrors (\<lambda>s sect. map_option (\<lambda>s'. (s', False)) (section_check64 B m c s sect))"
      "keepsErrors (\<lambda>s sect. map_option (\<lambda>s'. (s', False)) (section_check32 m c s sect))" for c
    by (auto simp: keepsErrors_def section_check64_def section_check32_def Let_def split: if_splits prod.splits)
  note inner = this [THEN forStop_keeps]
  have "keepsErrors (\<lambda>s c.
       if lc_cmd m c = LC_SEGMENT_64 then
         forStop (\<lambda>s sect. map_option (\<lambda>s'. (s', False)) (section_check64 B m c s sect)) s (sections64 m c)
       else if lc_cmd m c = LC_SEGMENT then
         forStop (\<lambda>s sect. map_option (\<lambda>s'. (s', False)) (section_check32 m c s sect)) s (sections32 m c)
       else Some (s, False))"
    unfolding keepsErrors_def by (auto split: if_splits dest: inner)
  from walkDiag_keeps [OF this, of m False d] assms show ?thesis by (simp add: section_pass_def)
qed

lemma validSegments_keeps:
  assumes "validSegments B m d fileLen = Some (True, d')" and "noError d'"
  shows "noError d"
proof (rule validSegments_passes [OF assms(1)])
  fix f d1 d2 d3
  assume cmds: "walkDiag m (\<lambda>(bad, d) c. case segmentCommandError m fileLen c of
           Some msg \<Rightarrow> Some ((True, error msg d), True) | None \<Rightarrow> Some ((bad, d), False)) False d = Some (False, d1)"
    and segs: "forEachSegment m (segment_check B m fileLen)
         (\<lparr>badPermissions = False, badSize = False, hasTEXT = False, hasLINKEDIT = False\<rparr>, d1) = Some (f, d2)"
    and rest: "overlap_pass B m d2 = Some (False, d3)" "section_pass B m d3 = Some (False, d')"
  have "noError d1"
    using forEachSegment_keeps [OF segment_check_keeps segs] overlap_pass_keeps [OF rest(1)] section_pass_keeps [OF rest(2) assms(2)] by simp
  moreover have "keepsErrors (\<lambda>(bad, d) c. case segmentCommandError m fileLen c of
           Some msg \<Rightarrow> Some ((True, error msg d), True) | None \<Rightarrow> Some ((bad, d), False))"
    by (auto simp: keepsErrors_def split: option.splits)
  ultimately show ?thesis using walkDiag_keeps [OF _ cmds] by blast
qed

lemma validMain_keeps:
  assumes "validMain B m d = Some (True, d')" and "noError d'"
  shows "noError d"
proof -
  have "keepsErrors (main_step B m a z)" for a z using main_step_ok(1) by (fastforce simp: keepsErrors_def)
  note kept = walkDiag_keeps [OF this]
  from assms(1) obtain a z s where "walkDiag m (main_step B m a z) (0, 0) d = Some (s, d')"
    by (auto simp: validMain_def bind_eq_Some_conv split: if_splits)
  then show ?thesis using assms(2) by (rule kept)
qed
section \<open>A refused LINKEDIT is an error\<close>

lemma blob_loop_refused: "blob_loop B m e p d bs = Some (False, d') \<Longrightarrow> \<not> noError d'"
  by (induction bs arbitrary: p d) (auto simp: bind_eq_Some_conv split: if_splits)

lemma validLinkeditLayout_refused:
  assumes "validLinkeditLayout B m loadAddr uninit d = Some (False, d')"
  shows "\<not> noError d'"
proof -
  from assms obtain leInfo d1 where p: "getLinkEditPointers m loadAddr uninit d = Some (leInfo, d1)"
    by (auto simp: validLinkeditLayout_def bind_eq_Some_conv)
  show ?thesis
  proof (cases "hasError d1")
    case False
    with assms p obtain e where e: "combinationError B m (leCommands leInfo) = Some e"
      by (auto simp: validLinkeditLayout_def bind_eq_Some_conv Let_def)
    note run = validLinkeditLayout_def p False e Let_def
    show ?thesis
    proof (cases e)
      case None
      with assms show ?thesis
        by (auto simp: run error_def bind_eq_Some_conv dest!: blob_loop_refused split: if_splits option.splits)
    qed (use assms in \<open>auto simp: run\<close>)
  qed (use assms p in \<open>auto simp: validLinkeditLayout_def hasError_noError\<close>)
qed

lemma forStop_stopped:
  assumes "forStop f s xs = Some (s', True)" and "\<And>s x s'. f s x = Some (s', True) \<Longrightarrow> Q s'"
  shows "Q s'"
  using assms(1)
proof (induction xs arbitrary: s)
  case (Cons x xs)
  from Cons.prems show ?case by (cases rule: forStop_ConsE) (auto intro: Cons.IH assms(2))
qed simp

lemma pageStartCheck_stopped: "pageStartCheck m seg k d i = Some (d', True) \<Longrightarrow> \<not> noError d'"
  by (auto simp: pageStartCheck_def Let_def split: if_splits option.splits)

lemma pageStarts_stopped: "forStop (pageStartCheck m seg k) d is = Some (d', True) \<Longrightarrow> \<not> noError d'"
  by (erule forStop_stopped) (rule pageStartCheck_stopped)

lemma segmentTableCheck_stopped: "segmentTableCheck m info base seg v = Some (v', True) \<Longrightarrow> \<not> noError (chainsDiag v')"
  by (auto simp: segmentTableCheck_def chainsError_def error_def Let_def dest!: pageStarts_stopped split: if_splits)

lemma segmentStartsCheck_stopped: "segmentStartsCheck m segs base st en v i = Some (v', True) \<Longrightarrow> \<not> noError (chainsDiag v')"
  by (auto simp: segmentStartsCheck_def chainsError_def error_def Let_def bind_eq_Some_conv
      dest!: segmentTableCheck_stopped split: if_splits)

lemma validChainsAt_refused:
  assumes "validChainsAt m segs lo h n d = Some (False, d')"
  shows "\<not> noError d'"
proof (cases "chainsHeaderError m h n")
  case header: None
  let ?st = "h + unat (starts_offset m h)"
  from assms header obtain e where e: "segCountError segs lo (seg_count m ?st) = Some e"
    by (auto simp: validChainsAt_def Let_def bind_eq_Some_conv)
  show ?thesis
  proof (cases e)
    case None
    with e header assms obtain base v stop where
      run: "forStop (segmentStartsCheck m segs base ?st (h + unat (imports_offset m h)))
        \<lparr>maxValidPointerSeen = 0, pointer_format_for_all = 0, pointer_format_found = False, chainsDiag = d\<rparr>
        [0 ..< unat (seg_count m ?st)] = Some (v, stop)"
      and verdict: "(if stop then Some (False, chainsDiag v)
        else map_option (\<lambda>e. case e of Some msg \<Rightarrow> (False, error msg (chainsDiag v)) | None \<Rightarrow> (noError (chainsDiag v), chainsDiag v))
               (chainsEndError m segs lo h v)) = Some (False, d')"
      by (auto simp: validChainsAt_def Let_def bind_eq_Some_conv)
    show ?thesis
    proof (cases stop)
      case True
      with run have "\<not> noError (chainsDiag v)"
        by (auto elim!: forStop_stopped dest: segmentStartsCheck_stopped)
      with verdict True show ?thesis by simp
    qed (use verdict in \<open>auto split: option.splits\<close>)
  qed (use assms e header in \<open>auto simp: validChainsAt_def Let_def\<close>)
qed (use assms in \<open>auto simp: validChainsAt_def\<close>)

lemma validChainedFixupsInfo_refused: "validChainedFixupsInfo m loadAddr uninit d = Some (False, d') \<Longrightarrow> \<not> noError d'"
  by (auto simp: validChainedFixupsInfo_def bind_eq_Some_conv hasError_noError dest: validChainsAt_refused
      split: if_splits option.splits)

lemma validLinkedit_refused: "validLinkedit B m lim loadAddr uninit d = Some (False, d') \<Longrightarrow> \<not> noError d'"
  by (auto simp: validLinkedit_def bind_eq_Some_conv validChainedFixupsInfoOldArm64e_def validRebaseInfo_def validBindInfo_def
      dest: validLinkeditLayout_refused validChainedFixupsInfo_refused split: if_splits)
section \<open>What loading establishes\<close>

abbreviation (input) "isTEXT m seg \<equiv> strcmp_eq m (segName seg) ''__TEXT''"

text \<open>An accepted file without a recorded error starts with its \<open>__TEXT\<close> segment, which holds the load commands.\<close>

lemma accepted_file:
  assumes ok: "validMachOForArchAndPlatform B m d L path archs platform os = Some (True, d')" and clean: "noError d'"
  shows "noError d \<and> hasMachOMagic m \<and> \<not> malformed_commands m \<and> layout_sound m L
      \<and> (\<forall>c\<in>set (load_commands m). segmentCommandError m L c = None)"
    and "\<exists>seg. List.find (isTEXT m) (segments m) = Some seg \<and> fileOffset seg = 0 \<and> cmds_end m \<le> unat (fileSize seg)"
proof -
  from ok obtain d1 d2 d3 where
      lc: "validLoadCommands m d L = Some (True, d1)" and ep: "validEmbeddedPaths m d1 = Some (True, d2)"
      and sg: "validSegments B m d2 L = Some (True, d3)"
      and mn: "if mh_filetype m = MH_EXECUTE then validMain B m d3 = Some (True, d') else d' = d3" and magic: "hasMachOMagic m"
    by (auto simp: validMachOForArchAndPlatform_def hasMachOMagic_def bind_eq_Some_conv split: if_splits option.splits)
  have "noError d3" using mn clean validMain_keeps by (auto split: if_splits)
  then have d1: "noError d1" using validEmbeddedPaths_keeps [OF ep] validSegments_keeps [OF sg] by simp
  note facts = validSegments_facts [OF sg]
  then obtain seg where seg: "List.find (isTEXT m) (segments m) = Some seg"
    by (cases "List.find (isTEXT m) (segments m)") (auto simp: layout_sound_def find_None_iff)
  with lc d1 have "noError d" "fileOffset seg = 0" "\<not> commandsLength m > fileSize seg"
    by (auto simp: validLoadCommands_cases split: if_splits option.splits)
  with seg facts magic validSegments_commands [OF sg] commandsLength_nat [of m]
  show "noError d \<and> hasMachOMagic m \<and> \<not> malformed_commands m \<and> layout_sound m L
      \<and> (\<forall>c\<in>set (load_commands m). segmentCommandError m L c = None)"
    and "\<exists>seg. List.find (isTEXT m) (segments m) = Some seg \<and> fileOffset seg = 0 \<and> cmds_end m \<le> unat (fileSize seg)"
    by (auto simp: word_less_nat_alt)
qed

lemma validated_commands:
  assumes "validMachOForArchAndPlatform B m d L path archs platform os = Some (True, d')"
  shows "\<not> malformed_commands m" and "cmds_end m \<le> unat L"
  using assms by (auto simp: validMachOForArchAndPlatform_def bind_eq_Some_conv dest: validLoadCommands_ok split: if_splits option.splits)

text \<open>The bytes of an image with its segments at their places relative to \<open>base\<close>, and zeros between them.\<close>

definition runtime_layout :: "memory \<Rightarrow> u64 \<Rightarrow> memory \<Rightarrow> bool" where
  "runtime_layout m base m' \<longleftrightarrow>
     (\<forall>seg\<in>set (segments m). \<forall>i. seg_holds base seg i \<longrightarrow> m' i = m (unat (fileOffset seg) + (i - seg_place base seg)))
     \<and> (\<forall>i. (\<forall>seg\<in>set (segments m). \<not> seg_holds base seg i) \<longrightarrow> m' i = 0)"

text \<open>
  When the bytes of a file are used where they are mapped, without a copy: apart from \<open>__PAGEZERO\<close>, no segment is empty in
  memory, every writable segment has all its bytes in the file, and the segments' sizes add up to the space from the lowest to the
  highest address, rounded up to a page.
\<close>

definition mapped_segments :: "memory \<Rightarrow> SegmentInfo list" where
  "mapped_segments m = filter (\<lambda>seg. \<not> strcmp_eq m (segName seg) ''__PAGEZERO'') (segments m)"

definition segments_span :: "memory \<Rightarrow> u64" where
  "segments_span m =
     (let page = (if uses16KPages m then 0x4000 else 0x1000);
          low = Min (insert (- 1) (vmAddr ` set (mapped_segments m)));
          high = Max (insert 0 ((\<lambda>seg. vmAddr seg + vmSize seg) ` set (mapped_segments m)))
      in (high - low + (page - 1)) AND NOT (page - 1))"

definition used_as_is :: "memory \<Rightarrow> bool" where
  "used_as_is m \<longleftrightarrow>
     (\<forall>seg\<in>set (mapped_segments m). vmSize seg \<noteq> 0 \<and> (seg_writable seg \<longrightarrow> fileSize seg = vmSize seg))
     \<and> sum_list (map vmSize (mapped_segments m)) = segments_span m"

lemma Min_step: "finite S \<Longrightarrow> Min (insert (if b < a then b else a) S) = Min (insert a (insert (b :: u64) S))"
  by (cases "S = {}") (auto simp: min_def)

lemma Max_step: "finite S \<Longrightarrow> Max (insert (if b > a then b else a) S) = Max (insert a (insert (b :: u64) S))"
  by (cases "S = {}") (auto simp: max_def)

lemma layout_fold:
  "foldl (layout_step m) s segs =
     (let ms = filter (\<lambda>seg. \<not> strcmp_eq m (segName seg) ''__PAGEZERO'') segs in
      \<lparr>writeExpansion = writeExpansion s \<or> (\<exists>seg\<in>set ms. seg_writable seg \<and> fileSize seg \<noteq> vmSize seg \<or> vmSize seg = 0),
       lowestVmAddr = Min (insert (lowestVmAddr s) (vmAddr ` set ms)),
       highestVmAddr = Max (insert (highestVmAddr s) ((\<lambda>seg. vmAddr seg + vmSize seg) ` set ms)),
       sumVmSizes = sumVmSizes s + sum_list (map vmSize ms)\<rparr>)"
proof (induction segs arbitrary: s)
  case (Cons seg segs)
  show ?case
    unfolding foldl_Cons Cons.IH by (auto simp: layout_step_def Let_def Min_step Max_step algebra_simps)
qed simp

lemma analyze_used_as_is:
  assumes "analyzeSegmentsLayout B m = Some (vmSpace, hasZeroFill)" and "\<not> BUILDING_APP_CACHE_UTIL B"
  shows "hasZeroFill \<longleftrightarrow> \<not> used_as_is m"
  using assms
  by (auto simp: analyzeSegmentsLayout_def segs.walk_fold layout_fold mapped_segments_def [symmetric] used_as_is_def segments_span_def Let_def
      split: if_splits)

lemma preferredLoadAddress_TEXT:
  "List.find (isTEXT m) (segments m) = Some seg \<Longrightarrow> preferredLoadAddress m = Some (vmAddr seg)"
  unfolding preferredLoadAddress_def by (subst segs.walk_find) simp

lemma unloadFile_fields:
  "unloadFile s = Some s' \<Longrightarrow> ld_info s' = ld_info s \<and> ld_memory s' = ld_memory s \<and> ld_diag s' = ld_diag s"
  by (auto simp: unloadFile_def vm_calls_def Let_def bind_eq_Some_conv split: option.splits unload_method.splits)

lemma remap_copies:
  assumes run: "remapIfZeroFill B K s = Some s'" and clean: "noError (ld_diag s')"
    and space: "analyzeSegmentsLayout B (ld_memory s) = Some (vmSpace, hasZeroFill)"
    and user: "\<not> BUILDING_APP_CACHE_UTIL B" and base: "preferredLoadAddress (ld_memory s) = Some base"
  shows "noError (ld_diag s) \<and> (if hasZeroFill then ld_memory s' = copy_all (ld_memory s) base (\<lambda>i. 0) (segments (ld_memory s))
    \<and> fi_fileContentLen (ld_info s') = vmSpace
    \<and> (\<forall>seg\<in>set (segments (ld_memory s)). seg_copied seg \<longrightarrow> seg_place base seg + unat (fileSize seg) \<le> unat vmSpace)
    else s' = s)"
proof (cases hasZeroFill)
  case True
  let ?m = "ld_memory s"
  note remap = remapIfZeroFill_def space True base user Let_def
  obtain new where new: "vm_allocate K vmSpace = Some new"
    using run clean by (cases "vm_allocate K vmSpace") (auto simp: remap)
  with run obtain buf d where copy: "forEachSegment ?m (copy_segment K (fi_fileContent (ld_info s)) ?m new vmSpace base)
      (\<lambda>i. 0, ld_diag s) = Some (buf, d)"
    by (auto simp: remap bind_eq_Some_conv)
  have d: "noError d" using run clean by (cases "noError d") (auto simp: remap new copy)
  with run have mem: "ld_memory s' = buf" and len: "fi_fileContentLen (ld_info s') = vmSpace"
    by (auto simp: remap new copy shift_mem_def)
  from copy obtain b where "forStop (copy_segment K (fi_fileContent (ld_info s)) ?m new vmSpace base) (\<lambda>i. 0, ld_diag s) (segments ?m)
      = Some ((buf, d), b)" by (auto simp: segs.walk_items bind_eq_Some_conv split: if_splits)
  from copy_segments_run [OF this d] True mem len show ?thesis by simp
next
  case False
  with run clean show ?thesis by (auto simp: remapIfZeroFill_def space)
qed
lemma remapped_image:
  assumes ok: "validMachOForArchAndPlatform B (ld_memory s) d L path archs platform os = Some (True, ld_diag s)"
    and run: "remapIfZeroFill B K s = Some s'" and clean: "noError (ld_diag s')" and user: "\<not> BUILDING_APP_CACHE_UTIL B"
    and base: "preferredLoadAddress (ld_memory s) = Some base" and wide: "is64 (ld_memory s)" "length (segments (ld_memory s)) \<le> 8192"
    and remapped: "\<not> used_as_is (ld_memory s)"
  shows "runtime_layout (ld_memory s) base (ld_memory s')"
    and "\<forall>seg\<in>set (segments (ld_memory s)). isTEXT (ld_memory s) seg \<longrightarrow> vmSize seg \<noteq> 0 \<Longrightarrow>
      agree 0 (cmds_end (ld_memory s)) (ld_memory s) (ld_memory s') \<and> segments (ld_memory s') = segments (ld_memory s)"
proof -
  let ?m = "ld_memory s" and ?m' = "ld_memory s'"
  from run obtain vmSpace hasZeroFill where space: "analyzeSegmentsLayout B ?m = Some (vmSpace, hasZeroFill)"
    by (auto simp: remapIfZeroFill_def Let_def bind_eq_Some_conv)
  note copied = remap_copies [OF run clean space user base]
  with remapped analyze_used_as_is [OF space user] have m': "?m' = copy_all ?m base (\<lambda>i. 0) (segments ?m)" by (auto split: if_splits)
  from copied have "noError (ld_diag s)" by simp
  note facts = accepted_file [OF ok this]
  then have cmds: "\<forall>c\<in>set (load_commands ?m). segmentCommandError ?m L c = None" by simp
  have "sorted_wrt (\<lambda>a b. \<forall>i. \<not> (seg_holds base a i \<and> seg_holds base b i)) (segments ?m)"
    using facts(1) wide cmds by (intro segments_apart) auto
  from copy_all_at [OF this, of ?m "\<lambda>i. 0"] show layout: "runtime_layout ?m base ?m'"
    by (simp add: runtime_layout_def m')
  assume some: "\<forall>seg\<in>set (segments ?m). isTEXT ?m seg \<longrightarrow> vmSize seg \<noteq> 0"
  from facts(2) obtain seg where seg: "List.find (isTEXT ?m) (segments ?m) = Some seg" "fileOffset seg = 0"
    "cmds_end ?m \<le> unat (fileSize seg)" by blast
  from seg(1) have mem: "seg \<in> set (segments ?m)" "isTEXT ?m seg" by (auto simp: find_Some_iff)
  have place: "seg_place base seg = 0" using preferredLoadAddress_TEXT [OF seg(1)] base by (simp add: seg_place_def)
  have "seg_copied seg" using some mem seg(3) cmds_end_ge(1) [of ?m] by (auto simp: seg_copied_def)
  then have "?m' i = ?m i" if "i < cmds_end ?m" for i
    using layout mem(1) that seg(2,3) place unfolding runtime_layout_def seg_holds_def by force
  then have "agree 0 (cmds_end ?m) ?m ?m'" by (simp add: agree_def)
  with segments_agree [OF this cmds] show "agree 0 (cmds_end ?m) ?m ?m' \<and> segments ?m' = segments ?m" by simp
qed

text \<open>
  The slice that is loaded, and its length: of a universal file, an acceptable entry whose grade is positive and the highest of all
  acceptable entries, with the size the entry gives (in the 63 bits of the field \<open>sliceLen\<close>); the whole of any other file, with
  the length recorded for it.
\<close>

definition slice_of :: "memory \<Rightarrow> u64 \<Rightarrow> GradedArchs \<Rightarrow> bool \<Rightarrow> 63 word \<Rightarrow> memory \<Rightarrow> u64 \<Rightarrow> bool" where
  "slice_of file fileLen archs isOSBinary ownLen m len \<longleftrightarrow>
     (let quality = (\<lambda>sl. grade archs (sliceCpuType sl) (sliceCpuSubType sl) isOSBinary) in
      if isFatFile file then
        \<exists>sl\<in>set (fat_slices file). good_slice file fileLen sl \<and> quality sl \<noteq> 0
          \<and> (\<forall>sl'\<in>set (fat_slices file). good_slice file fileLen sl' \<longrightarrow> quality sl' \<le> quality sl)
          \<and> m = shift_mem (unat (sliceStart sl)) file \<and> len = take_bit 63 (sliceSize sl)
      else m = file \<and> len = ucast ownLen)"

abbreviation slice_of_state :: "GradedArchs \<Rightarrow> load_state \<Rightarrow> memory \<Rightarrow> u64 \<Rightarrow> bool" where
  "slice_of_state archs s \<equiv>
     slice_of (ld_memory s) (fi_fileContentLen (ld_info s)) archs (fi_isOSBinary (ld_info s)) (fi_sliceLen (ld_info s))"

lemma sixty_three_bits: "(ucast (ucast x :: 63 word) :: u64) = take_bit 63 x"
  by (rule bit_word_eqI) (auto simp: bit_simps)

lemma chooseSlice_slice:
  assumes "chooseSlice K archs s = Some (True, s1)"
  shows "slice_of_state archs s (ld_memory s1) (ucast (fi_sliceLen (ld_info s1)))"
proof -
  let ?f = "ld_memory s" and ?info = "ld_info s"
  obtain r d where fat: "isFatFileWithSlice ?f (ld_diag s) (fi_fileContentLen ?info) archs (fi_isOSBinary ?info)
      (fi_sliceOffset ?info) (ucast (fi_sliceLen ?info)) = (r, d)" by (metis prod.exhaust)
  show ?thesis
  proof (cases "isFatFile ?f")
    case True
    have found: "fr_found r" using assms fat True
      by (auto simp: chooseSlice_def unloadAndFail_def isFatFileWithSlice_def Let_def split: if_splits prod.splits)
    then have "ld_memory s1 = shift_mem (unat (fr_sliceOffset r)) ?f" "fi_sliceLen (ld_info s1) = ucast (fr_sliceLen r)"
      using assms fat by (auto simp: chooseSlice_def unloadPartialFile_def Let_def)
    then show ?thesis using found_slice_best [OF fat found] True by (auto simp: slice_of_def sixty_three_bits)
  next
    case False
    then have "\<not> fr_found r" using fat by (auto simp: isFatFileWithSlice_def)
    with assms fat False show ?thesis
      by (auto simp: chooseSlice_def slice_of_def unloadAndFail_def Let_def split: if_splits)
  qed
qed

text \<open>Every walk over the rebases and the binds of an image ends without error and stays where it may.\<close>

definition linkedit_walks :: "build \<Rightarrow> memory \<Rightarrow> nat \<Rightarrow> u64 \<Rightarrow> LayoutInfo \<Rightarrow> bool" where
  "linkedit_walks B m lim loadAddr uninit \<longleftrightarrow>
     (\<exists>visited. forEachRebase_location B m loadAddr uninit recording_block ([], None) = Some (visited, None)
        \<and> (\<forall>e\<in>set visited. location_ok B m e))
     \<and> (\<exists>visited. forEachBind_location B m lim loadAddr uninit recording_binds (\<lambda>s name. Some s) ([], None) = Some (visited, None)
        \<and> (\<forall>e\<in>set visited. bind_fine B m e))"

definition usesDyldInfo :: "build \<Rightarrow> memory \<Rightarrow> bool" where
  "usesDyldInfo B m \<longleftrightarrow> \<not> hasLoadCommand m LC_DYLD_CHAINED_FIXUPS
     \<and> \<not> (SUPPORT_ARCH_arm64e B \<and> mh_cputype m = CPU_TYPE_ARM64 \<and> masked_subtype (mh_cpusubtype m) = CPU_SUBTYPE_ARM64E)"

lemma validLinkedit_walks:
  assumes "validLinkedit B m lim loadAddr uninit d = Some (True, d')" and "usesDyldInfo B m"
  shows "linkedit_walks B m lim loadAddr uninit"
proof -
  from assms obtain d1 d2 where "validRebaseInfo B m loadAddr uninit d1 = Some (True, d2)"
    and "validBindInfo B m lim loadAddr uninit d2 = Some (True, d')"
    by (auto simp: validLinkedit_def usesDyldInfo_def bind_eq_Some_conv split: if_splits)
  from validRebaseInfo_visits [OF this(1)] validBindInfo_visits [OF this(2)] show ?thesis by (simp add: linkedit_walks_def)
qed
lemma loadFromBuffer_run:
  assumes "loadFromBuffer B K lim uninit path archs platform s = Some (True, s')"
  obtains s1 s2 s3 where "chooseSlice K archs s = Some (True, s1)"
    and "validMachOForArchAndPlatform B (ld_memory s1) (ld_diag s1) (ucast (fi_sliceLen (ld_info s1))) path archs
           platform (fi_isOSBinary (ld_info s1)) = Some (True, ld_diag s2)" and "s2 = s1\<lparr>ld_diag := ld_diag s2\<rparr>"
    and "remapIfZeroFill B K s2 = Some s3" and "noError (ld_diag s3)"
    and "validLinkedit B (ld_memory s3) lim (fi_fileContent (ld_info s3)) uninit None = Some (True, None)" and "s' = s3"
proof -
  from assms obtain s1 d s3 ok d' where c: "chooseSlice K archs s = Some (True, s1)"
    and v: "validMachOForArchAndPlatform B (ld_memory s1) (ld_diag s1) (ucast (fi_sliceLen (ld_info s1))) path archs
           platform (fi_isOSBinary (ld_info s1)) = Some (True, d)"
    and r: "remapIfZeroFill B K (s1\<lparr>ld_diag := d\<rparr>) = Some s3" "noError (ld_diag s3)"
    and l: "validLinkedit B (ld_memory s3) lim (fi_fileContent (ld_info s3)) uninit (ld_diag s3) = Some (ok, d')"
    and e: "noError d'" "s' = s3\<lparr>ld_diag := d'\<rparr>"
    by (auto simp: loadFromBuffer_def unloadAndFail_def Let_def bind_eq_Some_conv hasError_noError split: if_splits)
  have "ok" using validLinkedit_refused l e(1) by (cases ok) auto
  moreover have "ld_diag s3 = None" "d' = None" using r(2) e(1) by (simp_all add: noError_def)
  ultimately show thesis using that [OF c, of "s1\<lparr>ld_diag := d\<rparr>" s3] v r l e(2) by simp
qed

text \<open>
  C3: loading a file, from the mapped bytes to the validated image. When \<open>loadFromBuffer\<close> succeeds, in a build that loads
  programs, what it leaves mapped comes from one slice: of a universal file the acceptable entry with the best positive grade for
  the given architectures, otherwise the whole file. That slice is a mach-o file whose load commands end within the slice's
  length and whose segments are laid out soundly in it. Exactly when \<open>used_as_is\<close> holds of its segments (none needs zero fill in
  a writable segment, none is empty in memory, and they leave no hole) the image is the slice as it is mapped. Otherwise the image
  (64-bit, with up to 8192 segments) has every segment at its place relative to \<open>__TEXT\<close> and zeros everywhere else;
  its header, load commands and segments are those that were validated, provided that \<open>__TEXT\<close> is not empty in memory.
  \<open>__LINKEDIT\<close> of the image itself was accepted, and when it holds rebase and bind opcodes or relocations, every walk
  over them ends without error and stays in places the segments admit.
\<close>

theorem loadFromBuffer_sound:
  assumes "loadFromBuffer B K lim uninit path archs platform s = Some (True, s')" and "\<not> BUILDING_APP_CACHE_UTIL B"
  shows "\<exists>m len base.
    slice_of (ld_memory s) (fi_fileContentLen (ld_info s)) archs (fi_isOSBinary (ld_info s)) (fi_sliceLen (ld_info s)) m len
    \<and> preferredLoadAddress m = Some base
    \<and> hasMachOMagic m \<and> \<not> malformed_commands m \<and> cmds_end m \<le> unat len \<and> layout_sound m len
    \<and> (let m' = ld_memory s'; loadAddr = fi_fileContent (ld_info s') in
       (if used_as_is m then m' = m
        else is64 m \<and> length (segments m) \<le> 8192 \<longrightarrow>
          runtime_layout m base m' \<and> ((\<forall>seg\<in>set (segments m). isTEXT m seg \<longrightarrow> vmSize seg \<noteq> 0) \<longrightarrow>
             agree 0 (cmds_end m) m m' \<and> segments m' = segments m))
       \<and> validLinkedit B m' lim loadAddr uninit None = Some (True, None)
       \<and> (usesDyldInfo B m' \<longrightarrow> linkedit_walks B m' lim loadAddr uninit))"
proof -
  obtain s1 s2 s3 where c: "chooseSlice K archs s = Some (True, s1)"
    and v: "validMachOForArchAndPlatform B (ld_memory s1) (ld_diag s1) (ucast (fi_sliceLen (ld_info s1))) path archs
           platform (fi_isOSBinary (ld_info s1)) = Some (True, ld_diag s2)" and s2: "s2 = s1\<lparr>ld_diag := ld_diag s2\<rparr>"
    and r: "remapIfZeroFill B K s2 = Some s3" "noError (ld_diag s3)"
    and l: "validLinkedit B (ld_memory s3) lim (fi_fileContent (ld_info s3)) uninit None = Some (True, None)" and s': "s' = s3"
    using assms(1) by (rule loadFromBuffer_run)
  from s2 have same: "ld_memory s2 = ld_memory s1" by (metis load_state.select_convs(2) load_state.surjective load_state.update_convs(4))
  from r(1) obtain vmSpace z where space: "analyzeSegmentsLayout B (ld_memory s2) = Some (vmSpace, z)"
    by (auto simp: remapIfZeroFill_def Let_def bind_eq_Some_conv)
  let ?m = "ld_memory s1"
  have v2: "validMachOForArchAndPlatform B (ld_memory s2) (ld_diag s1) (ucast (fi_sliceLen (ld_info s1))) path archs
           platform (fi_isOSBinary (ld_info s1)) = Some (True, ld_diag s2)" using v same by simp
  have seg_facts: "\<not> malformed_commands ?m" using validated_commands(1) [OF v] by simp
  then obtain base where base: "preferredLoadAddress ?m = Some base" using preferredLoadAddress_total [of ?m] by auto
  have clean: "noError (ld_diag s2)" using remap_copies [OF r space assms(2), of base] base same by simp
  note facts = accepted_file [OF v clean]
  have image: "if used_as_is ?m then ld_memory s3 = ?m
        else is64 ?m \<and> length (segments ?m) \<le> 8192 \<longrightarrow>
          runtime_layout ?m base (ld_memory s3) \<and> ((\<forall>seg\<in>set (segments ?m). isTEXT ?m seg \<longrightarrow> vmSize seg \<noteq> 0) \<longrightarrow>
             agree 0 (cmds_end ?m) ?m (ld_memory s3) \<and> segments (ld_memory s3) = segments ?m)"
  proof (cases "used_as_is ?m")
    case True
    with analyze_used_as_is [OF space assms(2)] same have "\<not> z" by simp
    with remap_copies [OF r space assms(2), of base] base same True show ?thesis by simp
  next
    case False
    then show ?thesis using remapped_image [OF v2 r assms(2), of base] base unfolding same by simp
  qed
  show ?thesis
    unfolding Let_def
    using chooseSlice_slice [OF c] base facts(1) validated_commands(2) [OF v] image l validLinkedit_walks [OF l]
    by (intro exI [of _ ?m] exI [of _ "ucast (fi_sliceLen (ld_info s1))"] exI [of _ base]) (simp add: s')
qed

section \<open>A loaded bundle\<close>

text \<open>The bundle of \<open>MachO_Bind\<close>, whose \<open>__DATA\<close> needs zero fill, and a kernel that grants every request.\<close>

definition granting_kernel :: kernel where
  "granting_kernel = \<lparr>vm_page_size = 0x1000, vm_allocate = (\<lambda>n. Some 0), vm_copy = (\<lambda>src n dst. True)\<rparr>"

definition load_sample :: load_state where
  "load_sample = \<lparr>ld_info = \<lparr>fi_fileContent = 0x10000, fi_fileContentLen = 0x3000, fi_sliceOffset = 0, fi_sliceLen = 0x3000,
       fi_isOSBinary = False, fi_inode = 0, fi_mtime = 0, fi_unload = Some UnmapFile, fi_path = ''/a''\<rparr>,
     ld_memory = bind_sample, ld_calls = [], ld_diag = None\<rparr>"

lemma bind_sample_header: "mh_cputype bind_sample = CPU_TYPE_X86_64" "mh_cpusubtype bind_sample = 3"
  "mh_filetype bind_sample = MH_BUNDLE" "mh_sizeofcmds bind_sample = 264" "fat_magic bind_sample = MH_MAGIC_64"
  "lc_cmdsize bind_sample 32 = 72" "lc_cmdsize bind_sample 104 = 72" "lc_cmdsize bind_sample 176 = 72"
  by (simp_all add: bind_sample_def walk_eval read32_with_words fat_magic_def)

lemma bind_sample_commands_ok: "\<forall>c\<in>{32, 104, 176, 248}. segmentCommandError bind_sample 0x3000 c = None"
proof -
  have "read64 bind_sample 64 = 0x1000" "read64 bind_sample 72 = 0" "read64 bind_sample 80 = 0x1000"
    "read64 bind_sample 136 = 0x1000" "read64 bind_sample 144 = 0x1000" "read64 bind_sample 152 = 0x800"
    "read64 bind_sample 208 = 0x1000" "read64 bind_sample 216 = 0x2000" "read64 bind_sample 224 = 0x1000"
    by (simp_all add: bind_sample_def walk_eval read32_with_words)
  then show ?thesis
    by (simp add: segmentCommandError_def segmentCommandError64_def bind_sample_cmds bind_sample_header Let_def
        greaterThanAddOrOverflow_def)
qed

lemma bind_sample_validSegments: "validSegments dyld_build bind_sample None 0x3000 = Some (True, None)"
proof -
  note here = bind_sample_list bind_sample_segments sample_segment_def bind_sample_names
  have "walkDiag bind_sample (\<lambda>(bad, d) c. case segmentCommandError bind_sample 0x3000 c of
      Some msg \<Rightarrow> Some ((True, error msg d), True) | None \<Rightarrow> Some ((bad, d), False)) False None = Some (False, None)"
    using bind_sample_commands_ok by (simp add: walkDiag_def forEachLoadCommand_list here then_diag_def)
  moreover have "forEachSegment bind_sample (segment_check dyld_build bind_sample 0x3000)
      (\<lparr>badPermissions = False, badSize = False, hasTEXT = False, hasLINKEDIT = False\<rparr>, None)
      = Some (\<lparr>badPermissions = False, badSize = False, hasTEXT = True, hasLINKEDIT = True\<rparr>, None)"
    by (simp add: segs.walk_items here segment_check_def segment_permissions_def andAlso_def greaterThanAddOrOverflow_def
        vmRangeWraps_def is64_def bind_sample_cmds)
  moreover have "overlap_pass dyld_build bind_sample None = Some (False, None)"
    by (simp add: overlap_pass_def segs.walk_items here overlap_check_def rangesOverlap_def outOfOrder_def)
  moreover have "section_pass dyld_build bind_sample None = Some (False, None)"
    by (simp add: section_pass_def walkDiag_def forEachLoadCommand_list here bind_sample_cmds sections64_def then_diag_def)
  ultimately show ?thesis by (simp add: validSegments_def)
qed

lemma bind_sample_accepted:
  "validMachOForArchAndPlatform dyld_build bind_sample None 0x3000 ''/a'' archs_x86_64 Platform_macOS False = Some (True, None)"
proof -
  note here = bind_sample_list bind_sample_header bind_sample_cmds
  have "grade archs_x86_64 (mh_cputype bind_sample) (mh_cpusubtype bind_sample) False \<noteq> 0"
    by (simp add: archs_defs masked_subtype_def here)
  moreover have "validLoadCommands bind_sample None 0x3000 = Some (True, None)"
    by (simp add: validLoadCommands_cases here bind_sample_segments sample_segment_def bind_sample_names commandsLength_def
        machHeaderSize_def is64_def)
  moreover have "validEmbeddedPaths bind_sample None = Some (True, None)"
    by (simp add: validEmbeddedPaths_def walkDiag_def forEachLoadCommand_list here path_step_def
        hasPathCommand_def isDependentCommand_def then_diag_def)
  moreover have "platforms bind_sample = []"
    by (simp add: supported_platforms_def here platform_of_command_def List.map_filter_simps Let_def)
  then have "toolPlatformError dyld_build bind_sample Platform_macOS ''/a'' = Some None"
    by (simp add: toolPlatformError_def dyld_build_def loadableIntoProcess_def builtForPlatform_iff here built_for_def Let_def)
  ultimately show ?thesis
    by (simp add: validMachOForArchAndPlatform_def here loadableFiletype_def bind_sample_validSegments)
qed

lemma bind_sample_base: "preferredLoadAddress bind_sample = Some 0"
  by (simp add: preferredLoadAddress_def segs.walk_items bind_sample_segments sample_segment_def bind_sample_names)

lemma bind_sample_layout: "analyzeSegmentsLayout dyld_build bind_sample = Some (0x3000, True)"
proof -
  have "\<not> strcmp_eq bind_sample 40 ''__PAGEZERO''" "\<not> strcmp_eq bind_sample 112 ''__PAGEZERO''"
    "\<not> strcmp_eq bind_sample 184 ''__PAGEZERO''"
    by (simp_all add: strcmp_eq_def bind_sample_def with_words_def mem_words_def of_char_def)
  then show ?thesis
    by (simp add: analyzeSegmentsLayout_def segs.walk_fold bind_sample_list bind_sample_segments sample_segment_def layout_step_def
        seg_writable_def dyld_build_def uses16KPages_def bind_sample_header Let_def word_gt_0)
qed
lemma mem_words_outside: "4 * length ws \<le> i \<Longrightarrow> mem_words ws i = 0"
  using div_le_mono [of "4 * length ws" i 4] by (simp add: mem_words_def)

lemma bind_sample_outside: "\<not> i < 0x1000 \<Longrightarrow> \<not> (0x2000 \<le> i \<and> i < 0x3000) \<Longrightarrow> bind_sample i = 0"
  by (auto simp: bind_sample_def with_words_def mem_words_outside)

lemma bind_sample_copied: "copy_all bind_sample 0 (\<lambda>i. 0) (segments bind_sample) = bind_sample"
  using bind_sample_outside
  by (auto simp: fun_eq_iff copy_all_def bind_sample_segments sample_segment_def seg_copied_def seg_place_def copy_range_def)

lemma load_sample_remap:
  "remapIfZeroFill dyld_build granting_kernel load_sample = Some (load_sample
     \<lparr>ld_info := (ld_info load_sample)\<lparr>fi_unload := Some DeallocateFile, fi_fileContent := 0\<rparr>,
      ld_calls := [VmAllocate 0 0x3000, Munmap 0x10000 0x3000, VmProtect 0 0x3000]\<rparr>)"
proof -
  have "forStop (copy_segment granting_kernel 0x10000 bind_sample 0 0x3000 0) (\<lambda>i. 0, None) (segments bind_sample)
    = Some ((copy_all bind_sample 0 (\<lambda>i. 0) (segments bind_sample), None), False)"
    by (simp add: bind_sample_segments sample_segment_def copy_segment_def granting_kernel_def copy_all_def seg_copied_def seg_place_def)
  then have "forEachSegment bind_sample (copy_segment granting_kernel 0x10000 bind_sample 0 0x3000 0) (\<lambda>i. 0, None)
    = Some (bind_sample, None)" by (simp add: segs.walk_items bind_sample_list bind_sample_copied)
  moreover have "vm_allocate granting_kernel 0x3000 = Some 0" "\<not> BUILDING_APP_CACHE_UTIL dyld_build"
    by (simp_all add: granting_kernel_def dyld_build_def)
  ultimately show ?thesis
    by (simp add: remapIfZeroFill_def load_sample_def bind_sample_layout bind_sample_base unloadFile_def vm_calls_def shift_mem_def Let_def)
qed

lemma bind_sample_linkedit: "validLinkedit dyld_build bind_sample 8204 0 uninit None = Some (True, None)"
proof -
  let ?le = "no_commands\<lparr>le_dyldInfo := Some 248\<rparr>"
  have fields: "read32 bind_sample 256 = 0" "read32 bind_sample 260 = 0" "read32 bind_sample 292 = 0"
    by (simp_all add: bind_sample_def walk_eval read32_with_words)
  have blobs: "linkedit_blobs bind_sample ?le = [chunk ''bind opcodes'' 8 0x2000 12]"
    by (simp add: linkedit_blobs_def dyldInfo_blobs_def data_blob_def dynSymTab_blobs_def symTab_blobs_def blob_if_def
        no_commands_def fields bind_sample_cmds pointerSize_def)
  have "combinationError dyld_build bind_sample ?le = Some None"
    by (simp add: combinationError_def no_commands_def)
  moreover have "symbolTableError bind_sample (le_symTab ?le) (le_dynSymTab ?le) = None"
    by (simp add: symbolTableError_def no_commands_def)
  ultimately have "validLinkeditLayout dyld_build bind_sample 0 uninit None = Some (True, None)"
    by (simp add: validLinkeditLayout_def bind_sample_pointers sample_info_def sample_layout_def blobs sort_blobs_def chunk_def
        greaterThanAddOrOverflow_def hasError_def dyld_build_def Let_def)
  moreover have "validRebaseInfo dyld_build bind_sample 0 uninit None = Some (True, None)"
    by (simp add: validRebaseInfo_def forEachRebase_location_def bind_sample_pointers bind_sample_infos hasError_def Let_def sample_info_def
        sample_layout_def content_at_def getLinkEditContent_def fields rebase_loop.simps rebase_start_def)
  moreover have "\<not> hasLoadCommand bind_sample LC_DYLD_CHAINED_FIXUPS"
    by (simp add: hasLoadCommand_iff bind_sample_list bind_sample_cmds)
  ultimately show ?thesis
    using bind_sample_valid [of dyld_build uninit] by (simp add: validLinkedit_def bind_sample_header)
qed
lemma load_sample_loads:
  "loadFromBuffer dyld_build granting_kernel 8204 uninit ''/a'' archs_x86_64 Platform_macOS load_sample = Some (True, load_sample
     \<lparr>ld_info := (ld_info load_sample)\<lparr>fi_unload := Some DeallocateFile, fi_fileContent := 0\<rparr>,
      ld_calls := [VmAllocate 0 0x3000, Munmap 0x10000 0x3000, VmProtect 0 0x3000]\<rparr>)"
proof -
  have "\<not> isFatFile bind_sample" by (simp add: isFatFile_def bind_sample_header OSSwapBigToHostInt32_def)
  then have "chooseSlice granting_kernel archs_x86_64 load_sample = Some (True, load_sample)"
    by (simp add: chooseSlice_def load_sample_def isFatFileWithSlice_def hasError_def)
  moreover have quiet: "load_sample\<lparr>ld_diag := None\<rparr> = load_sample" by (simp add: load_sample_def)
  moreover have "ld_memory load_sample = bind_sample" "ld_diag load_sample = None" "fi_sliceLen (ld_info load_sample) = 0x3000"
    "\<not> fi_isOSBinary (ld_info load_sample)" by (simp_all add: load_sample_def)
  ultimately show ?thesis
    by (simp add: loadFromBuffer_def bind_sample_accepted quiet load_sample_remap bind_sample_linkedit hasError_def Let_def)
qed

lemma load_sample_fields: "ld_memory load_sample = bind_sample" "fi_fileContentLen (ld_info load_sample) = 0x3000"
  "fi_isOSBinary (ld_info load_sample) = False" "(ucast (fi_sliceLen (ld_info load_sample)) :: u64) = 0x3000" "fi_sliceLen (ld_info load_sample) = 0x3000"
  by (simp_all add: load_sample_def)

lemma bind_sample_remapped: "\<not> used_as_is bind_sample" "is64 bind_sample" "length (segments bind_sample) \<le> 8192" "\<not> isFatFile bind_sample"
  using analyze_used_as_is [OF bind_sample_layout]
  by (simp_all add: dyld_build_def is64_def bind_sample_header bind_sample_cmds bind_sample_segments isFatFile_def OSSwapBigToHostInt32_def)

theorem loadFromBuffer_sound_witness:
  "\<forall>uninit. \<exists>s'. loadFromBuffer dyld_build granting_kernel 8204 uninit ''/a'' archs_x86_64 Platform_macOS load_sample = Some (True, s')
     \<and> ld_calls s' = [VmAllocate 0 0x3000, Munmap 0x10000 0x3000, VmProtect 0 0x3000]
     \<and> layout_sound bind_sample 0x3000 \<and> (\<exists>base. runtime_layout bind_sample base (ld_memory s'))
     \<and> linkedit_walks dyld_build (ld_memory s') 8204 (fi_fileContent (ld_info s')) uninit"
proof
  fix uninit
  let ?s = "load_sample\<lparr>ld_info := (ld_info load_sample)\<lparr>fi_unload := Some DeallocateFile, fi_fileContent := 0\<rparr>,
      ld_calls := [VmAllocate 0 0x3000, Munmap 0x10000 0x3000, VmProtect 0 0x3000]\<rparr>"
  have info: "usesDyldInfo dyld_build bind_sample" "ld_memory ?s = bind_sample"
    by (simp_all add: usesDyldInfo_def hasLoadCommand_iff bind_sample_list bind_sample_cmds bind_sample_header load_sample_fields)
  have "\<not> BUILDING_APP_CACHE_UTIL dyld_build" by (simp add: dyld_build_def)
  from loadFromBuffer_sound [OF load_sample_loads [of uninit] this, unfolded Let_def info(2) load_sample_fields]
  obtain m len base where
    slice: "slice_of bind_sample 0x3000 archs_x86_64 False 0x3000 m len" and sound: "layout_sound m len"
    and image: "if used_as_is m then bind_sample = m
      else is64 m \<and> length (segments m) \<le> 8192 \<longrightarrow> runtime_layout m base bind_sample
        \<and> ((\<forall>seg\<in>set (segments m). isTEXT m seg \<longrightarrow> vmSize seg \<noteq> 0) \<longrightarrow>
             agree 0 (cmds_end m) m bind_sample \<and> segments bind_sample = segments m)"
    and walks: "usesDyldInfo dyld_build bind_sample \<longrightarrow> linkedit_walks dyld_build bind_sample 8204 (fi_fileContent (ld_info ?s)) uninit"
    by blast
  from slice have "m = bind_sample" "len = 0x3000" by (simp_all add: slice_of_def bind_sample_remapped)
  with sound image walks info show "\<exists>s'. loadFromBuffer dyld_build granting_kernel 8204 uninit ''/a'' archs_x86_64 Platform_macOS load_sample = Some (True, s')
     \<and> ld_calls s' = [VmAllocate 0 0x3000, Munmap 0x10000 0x3000, VmProtect 0 0x3000]
     \<and> layout_sound bind_sample 0x3000 \<and> (\<exists>base. runtime_layout bind_sample base (ld_memory s'))
     \<and> linkedit_walks dyld_build (ld_memory s') 8204 (fi_fileContent (ld_info s')) uninit"
    by (intro exI [of _ ?s]) (auto simp: load_sample_loads bind_sample_remapped)
qed

end
