(* ===== verification/Spec2Isabelle.thy ===== *)
theory Spec2Isabelle
  imports MachO_Arch MachO_LoadCommands MachO_Queries MachO_Segments Fat_File Cache_Eligibility Leb128 MachO_Validate MachO_LinkEdit MachO_Rebase Hash_Map Closure_Image Image_List Image_Init Launch_Closure Symbol_Lookup MachO_Load
begin

text \<open>
  A verification of dyld, the dynamic linker of Apple's systems (\<open>src/\<close>). It covers the core of dyld3: the code that decides
  whether a mach-o file may be used, reads its structure, looks up its symbols, describes it in a closure, and keeps track of the loaded images.

  \<^bold>\<open>The program.\<close> A process is launched from a \<^emph>\<open>closure\<close>. The closure builder opens each file, chooses a slice (\<open>FatFile\<close>), validates it
  (\<open>MachOAnalyzer\<close>), walks its load commands, segments, rebases and symbols (\<open>MachOFile\<close>, \<open>MachOLoaded\<close>) and writes what it found, in a
  compressed form, into a container of typed attributes (\<open>ClosureWriter\<close>). The loader reads the container back (\<open>Closure\<close>), applies the fixups, runs
  the initializers and records the images (\<open>AllImages\<close>); \<open>dlclose\<close> collects the images nothing needs any more.

  \<^bold>\<open>The theories\<close>, in the order in which they build on each other:

  \<^item> \<open>Dyld_Prelude\<close>: words, memories, little-endian reads, \<open>Diagnostics\<close>, C strings, and the interface \<open>block_walk\<close> of an iteration with a
    block that may stop (\<open>forEach...(^(..., bool& stop))\<close>).
  \<^item> \<open>MachO_Arch\<close>, \<open>MachO_LoadCommands\<close>, \<open>MachO_Queries\<close>, \<open>MachO_Segments\<close>, \<open>Fat_File\<close>, \<open>Cache_Eligibility\<close>
    (\<open>src/dyld3/MachOFile.cpp\<close>, \<open>MachOFile.h\<close>): architecture grades and names; the mach header, \<open>forEachLoadCommand\<close>, \<open>removeLoadCommand\<close>; the
    queries on load commands; \<open>forEachSegment\<close>, \<open>forEachSection\<close>; \<open>isFatFileWithSlice\<close>; \<open>canBePlacedInDyldCache\<close>,
    \<open>canBePlacedInKernelCollection\<close>. Shown: every visited command lies in bounds and the walk depends on nothing else; removing commands keeps
    the others byte for byte; the chosen slice is valid and the best; the eligibility decisions are exactly the stated conditions.
  \<^item> \<open>Leb128\<close> (\<open>MachOFile.cpp\<close>, \<open>shared-cache/Trie.hpp\<close>): \<open>read_uleb128\<close>, \<open>read_sleb128\<close>, \<open>append_uleb128\<close>, \<open>parse_uleb128\<close>. The
    interface \<open>uleb_decoder\<close> is interpreted for both decoders. Shown: round trips, bounds, and the value read.
  \<^item> \<open>MachO_Validate\<close>, \<open>MachO_LinkEdit\<close>, \<open>MachO_Rebase\<close> (\<open>MachOAnalyzer.cpp\<close>, \<open>MachOLoaded.cpp\<close>): \<open>validMachOForArchAndPlatform\<close> and the
    validators it calls, \<open>getLinkEditLoadCommands\<close>, \<open>validLinkeditLayout\<close>, \<open>forEachRebase\<close> over opcodes, relocations and indirect symbols,
    \<open>validRebaseInfo\<close>. Shown: an accepted file has disjoint segments and blobs inside it, walks without error, and its rebases stay in
    writable segments; validation fails no assertion; where the code does not establish this, the counterexamples. The interfaces
    \<open>block_checker\<close> and \<open>rebase_checker\<close> carry the facts about the blocks.
  \<^item> \<open>Export_Trie\<close>, \<open>Trie_Walk\<close>, \<open>Symbol_Lookup\<close> (\<open>shared-cache/Trie.hpp\<close>, \<open>MachOLoaded.cpp\<close>): building and writing an export trie, \<open>trieWalk\<close>,
    \<open>findExportedSymbol\<close>, \<open>findClosestSymbol\<close>. The interface \<open>trie_value\<close> is what the tree needs of its values, interpreted for
    \<open>ExportInfo\<close> and \<open>DylibIndex\<close>. Shown: the tree holds for each name the value given last; the rounds that choose the offsets end;
    looking a name up in the written bytes gives what was put in; the walk always returns; for an
    address in a section the closest symbol of that section is found.
  \<^item> \<open>Chained_Fixups\<close>, \<open>Chained_Validate\<close>, \<open>Chained_Targets\<close> (\<open>MachOLoaded.cpp\<close>, \<open>MachOAnalyzer.cpp\<close>,
    \<open>include/mach-o/fixup-chains.h\<close>): the pointer formats of chained fixups, \<open>walkChain\<close> and the walks over an image's chains,
    \<open>fixupAllChainedFixups\<close>, \<open>validChainedFixupsInfo\<close>, the opcodes of the first arm64e format, \<open>forEachChainedFixupTarget\<close>. The
    interface \<open>in_place\<close> is what a block that overwrites the chain it is walked along must promise, interpreted for the fixup block. Shown:
    fixing up in place is collecting first and storing afterwards; encoded pointers and imports decode to what they were; what an
    accepted payload guarantees, and by how much the check of overflow starts falls short.
  \<^item> \<open>MachO_Bind\<close> (\<open>MachOAnalyzer.cpp\<close>): \<open>forEachBind\<close> over the regular, lazy and weak opcodes, external relocations and indirect
    symbols, \<open>validBindInfo\<close>. The interface \<open>bind_checker\<close>, like \<open>rebase_checker\<close> an extension of \<open>block_checker\<close>, relates the walk that
    checks to any later walk. Shown: after acceptance every walk over the binds ends without error, and each bind has a name, an ordinal in range
    and a place that its segment's protections and size admit.
  \<^item> \<open>MachO_Load\<close> (\<open>MachOAnalyzer.cpp\<close>, \<open>ClosureFileSystemPhysical.cpp\<close>): \<open>validLinkedit\<close>, \<open>remapIfZeroFill\<close>, \<open>loadFromBuffer\<close>, \<open>load\<close>: how
    slices, validation, layout and \<open>__LINKEDIT\<close> are put together. Shown: a file that loads comes from the slice of the best grade; exactly
    when no segment needs zero fill it is used as it is mapped, otherwise it has its segments where they will be at runtime with zeros between
    them and still has the header that was validated; and all its rebases and binds can be walked.
  \<^item> \<open>Hash_Map\<close> (\<open>Map.h\<close>): \<open>Map\<close> and \<open>MultiMap\<close>, for every hash function (interface \<open>hash_traits\<close>). Shown: they implement
    a finite map, and a list of values per key in insertion order; the quadratic probing ends.
  \<^item> \<open>Closure_Patterns\<close>, \<open>Closure_ObjC\<close> (\<open>ClosureBuilder.cpp\<close>, \<open>Closure.cpp\<close>): the compressed lists of rebases, binds, text rebases and
    Objective-C fixups, with the walks that expand them. Shown: expanding what a builder made gives exactly what was added to it.
  \<^item> \<open>Closure_Bytes\<close>, \<open>Closure_Writer\<close>, \<open>Launch_Closure\<close> (\<open>ClosureWriter.cpp\<close>, \<open>Closure.cpp\<close>): the container format, \<open>ImageWriter\<close>, \<open>LaunchClosureWriter\<close>
    and the accessors. \<open>forEachFixup\<close> of an image read from its bytes takes the pointer size from the
    image's flags. Shown: writers stay inside their allocation and the bytes say exactly what the calls said.
  \<^item> \<open>Closure_Image\<close>, \<open>Image_List\<close>, \<open>Image_Init\<close> (\<open>Closure.cpp\<close>, \<open>AllImages.cpp\<close>, \<open>Loading.h\<close>): images as the runtime sees them, reference counts, the
    collection \<open>dlclose\<close> starts, and initializers in any interleaving of threads. Shown: \<open>dlclose\<close> unloads exactly the
    images its marking does not reach, which are the unneeded ones where the dependents of never unloaded images are never unloaded either, also
    when a terminator closes further handles; no initializer runs twice.
  \<^item> this theory: what the builder found is what the loader applies, from the builders through the bytes of the image to the walks.

  \<^bold>\<open>Conventions.\<close> A machine integer is a word of its width; a mapped file or image is a \<open>memory\<close> and a pointer into it an offset; a struct is
  a record, a class with state is a record that its methods return updated. \<open>None\<close> is a failed assertion, an access outside the object, or undefined
  behaviour, as each theory says; an error that is reported is a message in the \<open>diag\<close>. The preprocessor symbols that select code are the fields of
  \<open>build\<close>. The calls into code outside the loader (notifiers, terminators, initializers) are recorded as events, and what they do is a parameter.

  \<^bold>\<open>Bounds and fuel.\<close> Loops are total functions wherever they end for every input, with measures given at the definitions. Loops that may not end are
  \<open>partial_function (option)\<close>, and that they return is a theorem: \<open>settle\<close> (the offsets of an export trie; under 4 GiB in the worst case),
  \<open>trie_loop\<close> (tries of less than 4 GiB, the width of the visited offsets), \<open>starts_loop\<close>, and the counted rebase loops (counts below
  \<open>2^32\<close>; with larger ones the source loops forever, which is shown too). \<open>findExportedSymbol\<close> has fuel for the depth of
  re-exports, since a cycle of re-exports makes the source recurse without end. The walks along fixup chains and the scan for the end of a bound
  symbol's name, which the source does not bound, end at the end of the mapped memory, an argument \<open>lim\<close>, where an access faults.

  \<^bold>\<open>Not modelled.\<close> \<open>ClosureBuilder\<close> beyond its fixup lists (loading of dependents, path search, \<open>optimizeObjC\<close>), \<open>Loader\<close> and \<open>dlopen\<close> (mapping, code
  signing: system calls), \<open>PathOverrides\<close>, the signing of arm64e pointers, the code signature parser, the shared cache and app cache builders
  with their optimizers, \<open>ImageLoader\<close> and dyld2, the API glue of libdyld, process introspection, and the command line tools. They are
  listed in the manifest with the reason.
\<close>

section \<open>From the closure builder to the loader\<close>

lemma selectors_ok:
  assumes "\<forall>f\<in>set fs. selector_ok getIndex f" and "distinct_adj (map fixupVMOffset fs)" and "fs = [] \<or> 508 < fixupVMOffset (hd fs)"
  shows "\<exists>entries. selRefFixups getIndex fs = Some entries
    \<and> (\<forall>s. selref_walk (\<lambda>s c. record_call s (FixupObjCSelRef c)) entries s False
         = Some (s @ map FixupObjCSelRef (map (selector_call getIndex) fs), False))"
proof (cases fs)
  case (Cons f fs')
  let ?h = "\<lambda>s c. record_call s (FixupObjCSelRef c)" and ?cs = "map (selector_call getIndex) fs"
  have h: "?h = (\<lambda>s c. (s @ [FixupObjCSelRef c], False))" by (simp add: fun_eq_iff record_call_def)
  have calls: "foldl (\<lambda>s c. s @ [FixupObjCSelRef c]) acc cs = acc @ map FixupObjCSelRef cs" for acc and cs :: "selref_call list"
    by (induction cs rule: rev_induct) simp_all
  have run: "\<exists>entries. selRefFixups getIndex fs = Some entries \<and> selref_walk ?h entries s False = Some (s @ map FixupObjCSelRef ?cs, False)" for s
    using selector_chains_ok [of f fs' getIndex "\<lambda>s c. s @ [FixupObjCSelRef c]" s] assms
    unfolding h calls Cons by simp
  from run [of "[]"] obtain entries where "selRefFixups getIndex fs = Some entries" by blast
  with run show ?thesis by fastforce
qed (simp add: selRefFixups_def)

text \<open>
  C1: what the closure builder finds out about an image's fixups is what the loader applies. Take any rebase locations, binds,
  protocol, stable Swift and method list offsets and selector references that respect the limits of their encodings, for an image with
  32-bit or 64-bit pointers. The builders compress them, the image writer lays them out as bytes together with the flags, and when
  the attributes fit, \<open>forEachFixup\<close> of the image read back from these bytes, which takes the pointer size from the image's own
  flags, calls its handlers with the same rebase locations in the same order, then the same binds (immediate repetitions dropped), then
  the image info, and the same protocols, selector references, stable Swift classes and method lists, and nothing else.
\<close>

theorem closure_fixups_end_to_end:
  assumes p: "p = 4 \<or> p = 8" and rebases: "14 * p < off" "off < 2 ^ 63" "separated p off offs" "length offs < 2 ^ 20 - 1"
    and binds: "\<forall>x\<in>set binds. fst x < 2 ^ 40"
    and objc: "\<forall>x\<in>set protos \<union> set swift \<union> set methods. x < 2 ^ 40"
    and sels: "\<forall>f\<in>set sels. selector_ok getIndex f" "distinct_adj (map fixupVMOffset sels)" "sels = [] \<or> 508 < fixupVMOffset (hd sels)"
  shows "\<exists>rb bb pr se sw me.
    rebase_adds p (off # offs) (RebasePatternBuilder_new p) = Some rb
    \<and> bind_adds p (map (\<lambda>(off, target). (off, target, False)) binds) (BindPatternBuilder_new p) = Some bb
    \<and> protocolFixups p protos = Some pr \<and> selRefFixups getIndex sels = Some se
    \<and> stableSwiftFixups p swift = Some sw \<and> methodListFixups p methods = Some me
    \<and> (let cs = [SetImageNum n, SetFlag 30 (p = 8), SetFlag 46 True, SetRebaseInfo (rebaseEntries rb), SetBindInfo (bindEntries bb),
                SetObjCFixupInfo \<lparr>objcProtocolClassTarget = cls, objcImageInfoVMOffset = info, of_protocols = pr, of_selRefs = se,
                  of_stableSwift = sw, of_methodLists = me\<rparr>] in
       image_fits hash cs \<longrightarrow>
       (\<exists>iw. image_calls hash cs ImageWriter_new = Some iw
          \<and> image_forEachFixup (fst (finalizeContainer pageShift (iw_writer iw))) 0 (\<lambda>calls call. (calls @ [call], False)) []
            = Some (map Rebase (off # offs) @ map Bind (remdups_adj binds) @ [FixupObjCImageInfo info]
                @ map (\<lambda>off. FixupObjCProtocol off cls) protos @ map FixupObjCSelRef (map (selector_call getIndex) sels)
                @ map FixupObjCStableSwift swift @ map FixupObjCMethodList methods)))"
proof -
  obtain rb where rb: "rebase_adds p (off # offs) (RebasePatternBuilder_new p) = Some rb" "forEachFixup_rebases p (rebaseEntries rb) = off # offs"
    using rebase_patterns_ok [OF p rebases] by blast
  obtain bb where bb: "bind_adds p (map (\<lambda>(off, target). (off, target, False)) binds) (BindPatternBuilder_new p) = Some bb"
    "forEachBind p (bindEntries bb) = remdups_adj binds" using bind_patterns_ok [OF p binds] by blast
  obtain pr sw me where offsets: "protocolFixups p protos = Some pr" "stableSwiftFixups p swift = Some sw" "methodListFixups p methods = Some me"
    "forEachFixup_offsets p pr = protos" "forEachFixup_offsets p sw = swift" "forEachFixup_offsets p me = methods"
    using objc_offsets_roundtrip [of protos p] objc_offsets_roundtrip [of swift p] objc_offsets_roundtrip [of methods p] objc by auto
  obtain se where se: "selRefFixups getIndex sels = Some se"
    "\<And>s. selref_walk (\<lambda>s c. record_call s (FixupObjCSelRef c)) se s False
      = Some (s @ map FixupObjCSelRef (map (selector_call getIndex) sels), False)"
    using selectors_ok [OF sels] by blast
  define f where "f = \<lparr>objcProtocolClassTarget = cls, objcImageInfoVMOffset = info, of_protocols = pr, of_selRefs = se, of_stableSwift = sw, of_methodLists = me\<rparr>"
  have f: "objcProtocolClassTarget f = cls" "objcImageInfoVMOffset f = info" "of_protocols f = pr" "of_selRefs f = se"
    "of_stableSwift f = sw" "of_methodLists f = me" by (simp_all add: f_def)
  let ?cs = "[SetImageNum n, SetFlag 30 (p = 8), SetFlag 46 True, SetRebaseInfo (rebaseEntries rb), SetBindInfo (bindEntries bb), SetObjCFixupInfo f]"
  have loaded: "\<exists>iw. image_calls hash ?cs ImageWriter_new = Some iw
      \<and> image_forEachFixup (fst (finalizeContainer pageShift (iw_writer iw))) 0 record_call []
        = Some (map Rebase (off # offs) @ map Bind (remdups_adj binds) @ [FixupObjCImageInfo info]
            @ map (\<lambda>off. FixupObjCProtocol off cls) protos @ map FixupObjCSelRef (map (selector_call getIndex) sels)
            @ map FixupObjCStableSwift swift @ map FixupObjCMethodList methods)"
    if fits: "image_fits hash ?cs"
  proof -
    obtain iw m where iw: "image_calls hash ?cs ImageWriter_new = Some iw" "m = fst (finalizeContainer pageShift (iw_writer iw))"
      and read: "rebaseFixups m 0 = Some (rebaseEntries rb)" "bindFixups m 0 = Some (bindEntries bb)" "objcFixups m 0 = Some (Some f)"
      and flags: "image_is64 m 0 \<longleftrightarrow> p = 8" "\<not> image_hasChainedFixups m 0" "image_hasPrecomputedObjC m 0"
      using fixups_written_and_read [OF fits, of pageShift] unfolding Let_def by blast
    have "image_pointerSize m 0 = p" using flags(1) p by (auto simp: image_pointerSize_def)
    from image_forEachFixup_record [OF read flags(2,3) this, of "map (selector_call getIndex) sels"] se(2)
    have "image_forEachFixup m 0 record_call [] = Some (map Rebase (off # offs) @ map Bind (remdups_adj binds) @ [FixupObjCImageInfo info]
            @ map (\<lambda>off. FixupObjCProtocol off cls) protos @ map FixupObjCSelRef (map (selector_call getIndex) sels)
            @ map FixupObjCStableSwift swift @ map FixupObjCMethodList methods)"
      unfolding f rb(2) bb(2) offsets(4-6) by blast
    with iw show ?thesis by blast
  qed
  have "record_call = (\<lambda>calls call. (calls @ [call], False))" by (simp add: fun_eq_iff record_call_def)
  note loaded = loaded [unfolded this]
  show ?thesis unfolding Let_def f_def [symmetric]
    by (intro exI [of _ rb] exI [of _ bb] exI [of _ pr] exI [of _ se] exI [of _ sw] exI [of _ me])
      (use rb(1) bb(1) offsets(1-3) se(1) loaded f_def in auto)
qed

theorem closure_fixups_end_to_end_witness:
  "\<exists>rb bb pr se sw me.
    rebase_adds 8 [0x4000, 0x4008] (RebasePatternBuilder_new 8) = Some rb
    \<and> bind_adds 8 [(0x4010, 5, False)] (BindPatternBuilder_new 8) = Some bb
    \<and> protocolFixups 8 [0x4018] = Some pr \<and> selRefFixups (\<lambda>_. 3) [\<lparr>fixupVMOffset = 0x4020, selectorTarget = SharedCacheSelector 7\<rparr>] = Some se
    \<and> stableSwiftFixups 8 [] = Some sw \<and> methodListFixups 8 [] = Some me
    \<and> (\<exists>iw. image_calls (\<lambda>_. 1) [SetImageNum 0x1001, SetFlag 30 True, SetFlag 46 True, SetRebaseInfo (rebaseEntries rb), SetBindInfo (bindEntries bb),
            SetObjCFixupInfo \<lparr>objcProtocolClassTarget = 1, objcImageInfoVMOffset = 2, of_protocols = pr, of_selRefs = se,
              of_stableSwift = sw, of_methodLists = me\<rparr>] ImageWriter_new = Some iw
          \<and> image_forEachFixup (fst (finalizeContainer 12 (iw_writer iw))) 0 (\<lambda>calls call. (calls @ [call], False)) []
            = Some [Rebase 0x4000, Rebase 0x4008, Bind (0x4010, 5), FixupObjCImageInfo 2, FixupObjCProtocol 0x4018 1,
                FixupObjCSelRef (0x4020, 7, True)])"
proof -
  let ?sel = "\<lparr>fixupVMOffset = 0x4020, selectorTarget = SharedCacheSelector 7\<rparr>"
  have rb: "rebase_adds 8 [0x4000, 0x4008] (RebasePatternBuilder_new 8)
      = Some \<lparr>rebaseEntries = [\<lparr>repeatCount = 0x4000, contigCount = 0, skipCount = 1\<rparr>, \<lparr>repeatCount = 1, contigCount = 2, skipCount = 0\<rparr>], lastLocation = 0x4008\<rparr>"
    by code_simp
  have bb: "bind_adds 8 [(0x4010, 5, False)] (BindPatternBuilder_new 8)
      = Some \<lparr>bindEntries = [\<lparr>bp_target = 5, bp_startVmOffset = 0x4010, bp_skipCount = 0, bp_repeatCount = 1\<rparr>], lastOffset = 0x4010, lastTarget = 5\<rparr>"
    by code_simp
  have pr: "protocolFixups 8 [0x4018] = Some [\<lparr>pf_startVmOffset = 0x4018, pf_skipCount = 0, pf_repeatCount = 1\<rparr>]"
    "stableSwiftFixups 8 [] = Some []" "methodListFixups 8 [] = Some []" by code_simp+
  have se: "selRefFixups (\<lambda>_. 3) [?sel] = Some [0x4020, chainEntry 7 0 True]"
    by (simp add: selRefFixups_def link_selector_def maxChainOffset_def)
  have "selector_ok (\<lambda>_. 3) ?sel" "map (selector_call (\<lambda>_. 3)) [?sel] = [(0x4020, 7, True)]" by (simp_all add: selector_ok_def selector_call_def)
  note facts = this
  let ?rb = "[\<lparr>repeatCount = 0x4000, contigCount = 0, skipCount = 1\<rparr>, \<lparr>repeatCount = 1, contigCount = 2, skipCount = 0\<rparr>] :: RebasePattern list"
    and ?bb = "[\<lparr>bp_target = 5, bp_startVmOffset = 0x4010, bp_skipCount = 0, bp_repeatCount = 1\<rparr>] :: BindPattern list"
    and ?f = "\<lparr>objcProtocolClassTarget = 1, objcImageInfoVMOffset = 2, of_protocols = [\<lparr>pf_startVmOffset = 0x4018, pf_skipCount = 0, pf_repeatCount = 1\<rparr>],
      of_selRefs = [0x4020, chainEntry 7 0 True], of_stableSwift = [], of_methodLists = []\<rparr>"
  have fits: "image_fits (\<lambda>_. 1) [SetImageNum 0x1001, SetFlag 30 True, SetFlag 46 True, SetRebaseInfo ?rb, SetBindInfo ?bb, SetObjCFixupInfo ?f]"
    using length_objc_bytes [of ?f] by (auto simp: image_fits_def attr_ok_def objc_total_size_def bind_words_def)
  have binds: "map (\<lambda>(off, target). (off, target, False)) [(0x4010, 5)] = [(0x4010 :: u64, 5 :: u64, False)]" by simp
  have eight: "(8 :: u64) = 8 \<longleftrightarrow> True" by simp
  show ?thesis
    using closure_fixups_end_to_end [of 8 "0x4000" "[0x4008]" "[(0x4010, 5)]" "[0x4018]" "[]" "[]" "[?sel]" "\<lambda>_. 3" "0x1001" 1 2 "\<lambda>_. 1" 12] facts(1) fits
    unfolding binds rb bb pr se facts(2) option.inject Let_def eight
    by (simp add: far_enough_def del: image_calls.simps)
qed

end
